(* ===== verification/Prelude.thy ===== *)
theory Prelude
  imports Main "HOL-Library.Word" "HOL-Library.Monad_Syntax"
begin

text \<open>
  Shared vocabulary of the development: the machine integers of the LPC1776 firmware, a few
  rules on words and on the option monad in which every loop that may spin for ever is
  modelled (\<open>None\<close> is ``does not return''), and the named theorem collections that the
  component theories fill.
\<close>

unbundle bit_operations_syntax

type_synonym u8 = "8 word"
type_synonym u16 = "16 word"
type_synonym u32 = "32 word"

named_theorems bus_log_simps \<open>how each driver primitive extends the I2C bus log\<close>
named_theorems latch_simps \<open>how each GPIO register operation changes the output latch\<close>
named_theorems frame_simps \<open>fields that an operation leaves alone\<close>

section \<open>The C type size_t on natural numbers\<close>

text \<open>
  Where a component's proofs are about address arithmetic, a 32-bit unsigned quantity is a
  natural number with the wrap-around of the C operators written out.
\<close>

definition u32_add :: "nat \<Rightarrow> nat \<Rightarrow> nat" where
  "u32_add a b = (a + b) mod 2 ^ 32"

definition u32_sub :: "nat \<Rightarrow> nat \<Rightarrow> nat" where
  "u32_sub a b = (a + 2 ^ 32 - b mod 2 ^ 32) mod 2 ^ 32"

lemma u32_add_small [simp]: "a + b < 2 ^ 32 \<Longrightarrow> u32_add a b = a + b"
  by (simp add: u32_add_def)

lemma u32_sub_small [simp]:
  assumes "b \<le> a" "a < 2 ^ 32"
  shows "u32_sub a b = a - b"
proof -
  have "a + 2 ^ 32 - b mod 2 ^ 32 = (a - b) + 2 ^ 32" using assms by simp
  then have "u32_sub a b = (a - b) mod 2 ^ 32"
    unfolding u32_sub_def by (simp only: mod_add_self2)
  then show ?thesis using assms by simp
qed

lemma u32_add_bound [simp]: "u32_add a b < 2 ^ 32"
  by (simp add: u32_add_def)

lemma u32_sub_bound [simp]: "u32_sub a b < 2 ^ 32"
  by (simp add: u32_sub_def)

section \<open>Repeated steps\<close>

text \<open>The outputs of \<open>n\<close> steps of a state transformer, in order, and the final state.\<close>

primrec collect :: "nat \<Rightarrow> ('s \<Rightarrow> 'o \<times> 's) \<Rightarrow> 's \<Rightarrow> 'o list \<times> 's" where
  "collect 0 f s = ([], s)"
| "collect (Suc n) f s = (let (x, s) = f s; (xs, s) = collect n f s in (x # xs, s))"

section \<open>Words\<close>

lemma unat_u32_less: "unat (x :: u32) < 2 ^ 32"
  using unsigned_less [of x] by simp

lemma u32_le_max [simp]: "(x :: u32) \<le> 0xFFFFFFFF"
  using unat_u32_less [of x] by (simp add: word_le_nat_alt)

lemma unat_Suc_word:
  fixes x y :: "'a::len word"
  assumes "x < y"
  shows "unat (x + 1) = Suc (unat x)"
proof -
  have "x + 1 \<noteq> 0"
  proof
    assume "x + 1 = 0"
    then have "x = - 1" by (simp add: eq_neg_iff_add_eq_0)
    with assms show False by (simp add: word_order.extremum_strict)
  qed
  then show ?thesis by (simp add: unatSuc add.commute)
qed

lemma word_minus_Suc:
  fixes x y :: "'a::len word"
  assumes "x < y"
  shows "unat (y - x) = Suc (unat (y - (x + 1)))"
proof -
  have "unat (y - x) = unat y - unat x"
    using assms by (simp add: unat_sub less_imp_le)
  moreover have "unat (y - (x + 1)) = unat y - unat (x + 1)"
    using assms by (meson inc_le unat_sub)
  moreover have "unat x < unat y" using assms by (simp add: word_less_nat_alt)
  ultimately show ?thesis using unat_Suc_word [OF assms] by simp
qed

section \<open>Alignment\<close>

lemma and_not_diff: "(w :: u32) AND NOT c = w - (w AND c)"
proof -
  have "w - (w AND c) = w AND NOT (w AND c)" by (rule disjunctive_diff) (simp add: bit_and_iff)
  also have "\<dots> = w AND NOT c" by (rule bit_eqI) (auto simp: bit_and_iff bit_or_iff bit_not_iff)
  finally show ?thesis by simp
qed

lemma unat_align_down:
  fixes w :: u32
  assumes "7 \<le> unat w"
  shows "unat (w AND NOT 7) \<le> unat w" "unat w - 7 \<le> unat (w AND NOT 7)"
proof -
  have l: "w AND 7 \<le> 7" by (rule word_and_le1)
  then have l7: "unat (w AND 7) \<le> 7" by (simp add: word_le_nat_alt)
  then have "unat (w AND NOT 7) = unat w - unat (w AND 7)"
    unfolding and_not_diff by (intro unat_sub) (use assms in \<open>simp add: word_le_nat_alt\<close>)
  then show "unat (w AND NOT 7) \<le> unat w" "unat w - 7 \<le> unat (w AND NOT 7)" using l7 by linarith+
qed

end
