(* ===== verification/Mmio.thy ===== *)
theory Mmio
  imports Prelude
begin

text \<open>
  The processor's view of its peripherals. Every access to a memory-mapped register is an
  entry of the history \<open>tr\<close> (most recent first); what a peripheral answers to a read is a
  parameter, a \<open>device\<close>: any function of the history of accesses and the address. A
  \<open>device\<close> is the chip and the board, which are not code; the driver theorems hold for
  every device, or for those that satisfy a named hypothesis. Addresses are those of
  \<^verbatim>\<open>CMSIS_LPC177x_8x/inc/LPC177x_8x.h\<close>. The entries \<open>Delay\<close>, \<open>Sleep\<close> and \<open>Print\<close> record busy
  waits, scheduler delays and console output, so that their order is visible too.
\<close>

datatype access =
    Wr u32 u32       \<comment> \<open>store of a value to an address\<close>
  | Rd u32 u32       \<comment> \<open>load from an address and the value it returned\<close>
  | Delay u32        \<comment> \<open>\<open>delay_ms\<close> of \<^verbatim>\<open>src/main.c\<close>\<close>
  | Sleep u32        \<comment> \<open>\<open>vTaskDelay\<close>\<close>
  | Print string     \<comment> \<open>\<open>printf\<close>\<close>

type_synonym device = "access list \<Rightarrow> u32 \<Rightarrow> u32"

text \<open>
  The state the driver code shares: the access history, the byte-addressed RAM and the clock
  globals of \<^verbatim>\<open>system_LPC177x_8x.c\<close>.
\<close>

record world =
  tr :: "access list"
  mem :: "u32 \<Rightarrow> u8"
  SystemCoreClock :: u32
  PeripheralClock :: u32
  EMCClock :: u32
  USBClock :: u32

definition wr :: "u32 \<Rightarrow> u32 \<Rightarrow> 'a world_scheme \<Rightarrow> 'a world_scheme" where
  "wr a v w = w\<lparr>tr := Wr a v # tr w\<rparr>"

definition rd :: "device \<Rightarrow> u32 \<Rightarrow> 'a world_scheme \<Rightarrow> u32 \<times> 'a world_scheme" where
  "rd dev a w = (let v = dev (tr w) a in (v, w\<lparr>tr := Rd a v # tr w\<rparr>))"

definition say :: "access \<Rightarrow> 'a world_scheme \<Rightarrow> 'a world_scheme" where
  "say e w = w\<lparr>tr := e # tr w\<rparr>"

text \<open>The C statements \<open>*a |= v\<close>, \<open>*a &= v\<close> and \<open>*a = *a\<close>: a load, then a store.\<close>

definition reg_or :: "device \<Rightarrow> u32 \<Rightarrow> u32 \<Rightarrow> 'a world_scheme \<Rightarrow> 'a world_scheme" where
  "reg_or dev a v w = (let (x, w) = rd dev a w in wr a (x OR v) w)"

definition reg_and :: "device \<Rightarrow> u32 \<Rightarrow> u32 \<Rightarrow> 'a world_scheme \<Rightarrow> 'a world_scheme" where
  "reg_and dev a v w = (let (x, w) = rd dev a w in wr a (x AND v) w)"

section \<open>Addresses\<close>

abbreviation LPC_I2C0 :: u32 where "LPC_I2C0 \<equiv> 0x4001C000"
abbreviation LPC_I2C1 :: u32 where "LPC_I2C1 \<equiv> 0x4005C000"
abbreviation LPC_I2C2 :: u32 where "LPC_I2C2 \<equiv> 0x400A0000"
abbreviation LPC_IOCON_BASE :: u32 where "LPC_IOCON_BASE \<equiv> 0x4002C000"
abbreviation LPC_SC :: u32 where "LPC_SC \<equiv> 0x400FC000"
abbreviation LPC_GPIO0 :: u32 where "LPC_GPIO0 \<equiv> 0x20098000"
abbreviation LPC_GPIO1 :: u32 where "LPC_GPIO1 \<equiv> 0x20098020"
abbreviation LPC_GPIO2 :: u32 where "LPC_GPIO2 \<equiv> 0x20098040"
abbreviation LPC_GPIO3 :: u32 where "LPC_GPIO3 \<equiv> 0x20098060"
abbreviation LPC_GPIO4 :: u32 where "LPC_GPIO4 \<equiv> 0x20098080"

section \<open>Rules\<close>

lemma wr_fields [simp]:
  "tr (wr a v w) = Wr a v # tr w" "mem (wr a v w) = mem w"
  "PeripheralClock (wr a v w) = PeripheralClock w"
  by (simp_all add: wr_def)

lemma say_fields [simp]:
  "tr (say e w) = e # tr w" "mem (say e w) = mem w"
  by (simp_all add: say_def)

lemma rd_fields [simp]:
  "fst (rd dev a w) = dev (tr w) a"
  "tr (snd (rd dev a w)) = Rd a (dev (tr w) a) # tr w"
  "mem (snd (rd dev a w)) = mem w"
  by (simp_all add: rd_def Let_def)

lemma reg_or_fields [simp]:
  "tr (reg_or dev a v w) = Wr a (dev (tr w) a OR v) # Rd a (dev (tr w) a) # tr w"
  "mem (reg_or dev a v w) = mem w"
  by (simp_all add: reg_or_def rd_def Let_def)

lemma reg_and_fields [simp]:
  "tr (reg_and dev a v w) = Wr a (dev (tr w) a AND v) # Rd a (dev (tr w) a) # tr w"
  "mem (reg_and dev a v w) = mem w"
  by (simp_all add: reg_and_def rd_def Let_def)

end
