(* ===== verification/Clock_Pins.thy ===== *)
theory Clock_Pins
  imports Mmio
begin

text \<open>
  Clock and pin configuration used by the board bring-up: \<^verbatim>\<open>SystemCoreClockUpdate\<close> of
  \<^verbatim>\<open>CMSIS_LPC177x_8x/src/system_LPC177x_8x.c\<close>, the clock and power driver
  \<^verbatim>\<open>lpc177x_8x_clkpwr.c\<close> and the pin driver \<^verbatim>\<open>lpc177x_8x_pinsel.c\<close>. Loads inside one
  expression are taken from left to right. The divisor fields are divided by as the code does;
  a zero field gives quotient 0, as the processor's UDIV does with its trap disabled.
\<close>

definition rd_field :: "device \<Rightarrow> u32 \<Rightarrow> u32 \<Rightarrow> 'a world_scheme \<Rightarrow> u32 \<times> 'a world_scheme" where
  "rd_field dev a m w = (let (v, w) = rd dev a w in (v AND m, w))"

abbreviation IRC_OSC :: u32 where "IRC_OSC \<equiv> 12000000"
abbreviation OSC_CLK :: u32 where "OSC_CLK \<equiv> 8000000"

abbreviation SC_PLL0STAT :: u32 where "SC_PLL0STAT \<equiv> 0x400FC088"
abbreviation SC_PLL1STAT :: u32 where "SC_PLL1STAT \<equiv> 0x400FC0A8"
abbreviation SC_PCON :: u32 where "SC_PCON \<equiv> 0x400FC0C0"
abbreviation SC_PCONP :: u32 where "SC_PCONP \<equiv> 0x400FC0C4"
abbreviation SC_EMCCLKSEL :: u32 where "SC_EMCCLKSEL \<equiv> 0x400FC100"
abbreviation SC_CCLKSEL :: u32 where "SC_CCLKSEL \<equiv> 0x400FC104"
abbreviation SC_USBCLKSEL :: u32 where "SC_USBCLKSEL \<equiv> 0x400FC108"
abbreviation SC_CLKSRCSEL :: u32 where "SC_CLKSRCSEL \<equiv> 0x400FC10C"
abbreviation SC_SCS :: u32 where "SC_SCS \<equiv> 0x400FC1A0"
abbreviation SC_PCLKSEL :: u32 where "SC_PCLKSEL \<equiv> 0x400FC1A8"

section \<open>Clock globals\<close>

text \<open>The three clocks divided from one oscillator, without the PLL.\<close>

definition clocks_from_osc :: "device \<Rightarrow> u32 \<Rightarrow> 'a world_scheme \<Rightarrow> 'a world_scheme" where
  "clocks_from_osc dev osc w =
    (let (d, w) = rd_field dev SC_CCLKSEL 0x1F w; w = w\<lparr>SystemCoreClock := osc div d\<rparr>;
         (d, w) = rd_field dev SC_PCLKSEL 0x1F w; w = w\<lparr>PeripheralClock := osc div d\<rparr>;
         (d, w) = rd_field dev SC_EMCCLKSEL 0x01 w
     in w\<lparr>EMCClock := osc div (d + 1)\<rparr>)"

text \<open>The three clocks divided from PLL0.\<close>

definition clocks_from_pll0 :: "device \<Rightarrow> u32 \<Rightarrow> 'a world_scheme \<Rightarrow> 'a world_scheme" where
  "clocks_from_pll0 dev osc w =
    (let (m, w) = rd_field dev SC_PLL0STAT 0x1F w; (d, w) = rd_field dev SC_CCLKSEL 0x1F w;
         w = w\<lparr>SystemCoreClock := osc * (m + 1) div d\<rparr>;
         (m, w) = rd_field dev SC_PLL0STAT 0x1F w; (d, w) = rd_field dev SC_PCLKSEL 0x1F w;
         w = w\<lparr>PeripheralClock := osc * (m + 1) div d\<rparr>;
         (m, w) = rd_field dev SC_PLL0STAT 0x1F w; (d, w) = rd_field dev SC_EMCCLKSEL 0x01 w
     in w\<lparr>EMCClock := osc * (m + 1) div (d + 1)\<rparr>)"

definition clocks_off :: "'a world_scheme \<Rightarrow> 'a world_scheme" where
  "clocks_off w = w\<lparr>SystemCoreClock := 0, PeripheralClock := 0, EMCClock := 0\<rparr>"

definition core_clock_update :: "device \<Rightarrow> 'a world_scheme \<Rightarrow> 'a world_scheme" where
  "core_clock_update dev w =
    (let (s, w) = rd_field dev SC_CCLKSEL 0x100 w in
     if s = 0 then
       (let (c, w) = rd_field dev SC_CLKSRCSEL 0x01 w in
        if c = 0 then clocks_from_osc dev IRC_OSC w
        else (let (o', w) = rd_field dev SC_SCS 0x40 w in
              if o' = 0 then clocks_off w else clocks_from_osc dev OSC_CLK w))
     else
       (let (p, w) = rd_field dev SC_PLL0STAT 0x100 w in
        if p = 0 then clocks_off w
        else (let (c, w) = rd_field dev SC_CLKSRCSEL 0x01 w in
              if c = 0 then clocks_from_pll0 dev IRC_OSC w
              else (let (o', w) = rd_field dev SC_SCS 0x40 w in
                    if o' = 0 then clocks_off w else clocks_from_pll0 dev OSC_CLK w))))"

definition usb_clock_update :: "device \<Rightarrow> 'a world_scheme \<Rightarrow> 'a world_scheme" where
  "usb_clock_update dev w =
    (let (b, w) = rd_field dev SC_USBCLKSEL 0x100 w in
     if b \<noteq> 0 then
       (let (d, w) = rd_field dev SC_USBCLKSEL 0x1F w in
        if d = 4 \<or> d = 6 then
          (let (c, w) = rd_field dev SC_CLKSRCSEL 0x01 w;
               (m, w) = rd_field dev SC_PLL0STAT 0x1F w; (d, w) = rd_field dev SC_USBCLKSEL 0x1F w
           in if c \<noteq> 0 then w\<lparr>USBClock := OSC_CLK * (m + 1) div d\<rparr>
              else w\<lparr>USBClock := IRC_OSC * (m + 1) div d\<rparr>)
        else w\<lparr>USBClock := 0\<rparr>)
     else
       (let (b, w) = rd_field dev SC_USBCLKSEL 0x200 w in
        if b \<noteq> 0 then
          (let (c, w) = rd_field dev SC_CLKSRCSEL 0x01 w in
           if c \<noteq> 0
           then (let (m, w) = rd_field dev SC_PLL1STAT 0x1F w in w\<lparr>USBClock := OSC_CLK * (m + 1)\<rparr>)
           else (let (m, w) = rd_field dev SC_PLL0STAT 0x1F w in w\<lparr>USBClock := IRC_OSC * (m + 1)\<rparr>))
        else w\<lparr>USBClock := 0\<rparr>))"

definition SystemCoreClockUpdate :: "device \<Rightarrow> 'a world_scheme \<Rightarrow> 'a world_scheme" where
  "SystemCoreClockUpdate dev w = usb_clock_update dev (core_clock_update dev w)"

section \<open>Clock and power driver\<close>

datatype FunctionalState = DISABLE | ENABLE

datatype Status = ERROR | SUCCESS

text \<open>An unknown clock type spins in \<open>while(1)\<close>: \<open>None\<close>.\<close>

definition CLKPWR_SetCLKDiv :: "device \<Rightarrow> u8 \<Rightarrow> u8 \<Rightarrow> 'a world_scheme \<Rightarrow> 'a world_scheme option" where
  "CLKPWR_SetCLKDiv dev ClkType DivVal w =
    (if ClkType = 0 then Some (SystemCoreClockUpdate dev (wr SC_CCLKSEL (ucast DivVal) w))
     else if ClkType = 1 then Some (SystemCoreClockUpdate dev (wr SC_PCLKSEL (ucast DivVal) w))
     else if ClkType = 2 then Some (SystemCoreClockUpdate dev (wr SC_EMCCLKSEL (ucast DivVal) w))
     else if ClkType = 3 then
       Some (reg_or dev SC_USBCLKSEL (ucast DivVal) (reg_and dev SC_USBCLKSEL (NOT 0x1F) w))
     else None)"

definition CLKPWR_GetCLK :: "u8 \<Rightarrow> 'a world_scheme \<Rightarrow> u32 option" where
  "CLKPWR_GetCLK ClkType w =
    (if ClkType = 0 then Some (SystemCoreClock w)
     else if ClkType = 1 then Some (PeripheralClock w)
     else if ClkType = 2 then Some (EMCClock w)
     else if ClkType = 3 then Some (USBClock w)
     else None)"

definition CLKPWR_ConfigPPWR ::
  "device \<Rightarrow> u32 \<Rightarrow> FunctionalState \<Rightarrow> 'a world_scheme \<Rightarrow> 'a world_scheme" where
  "CLKPWR_ConfigPPWR dev PPType NewState w =
    (case NewState of
       ENABLE \<Rightarrow> reg_or dev SC_PCONP PPType w
     | DISABLE \<Rightarrow> reg_and dev SC_PCONP (NOT PPType) w)"

section \<open>Pin driver\<close>

definition PIN_GetPointer :: "u8 \<Rightarrow> u8 \<Rightarrow> u32" where
  "PIN_GetPointer portnum pinnum = LPC_IOCON_BASE + (ucast portnum * 32 + ucast pinnum) * 4"

definition PINSEL_ConfigPin :: "device \<Rightarrow> u8 \<Rightarrow> u8 \<Rightarrow> u8 \<Rightarrow> 'a world_scheme \<Rightarrow> 'a world_scheme" where
  "PINSEL_ConfigPin dev portnum pinnum funcnum w =
    (let pPIN = PIN_GetPointer portnum pinnum; w = reg_and dev pPIN 0x00000007 w
     in reg_or dev pPIN (ucast funcnum) w)"

text \<open>\<open>PinSel_BasicMode\<close> and \<open>PinSel_I2cMode\<close> are C enums numbered from 0; they are passed as words.\<close>

definition PINSEL_SetPinMode :: "device \<Rightarrow> u8 \<Rightarrow> u8 \<Rightarrow> u32 \<Rightarrow> 'a world_scheme \<Rightarrow> 'a world_scheme" where
  "PINSEL_SetPinMode dev portnum pinnum modenum w =
    (let pPIN = PIN_GetPointer portnum pinnum; w = reg_and dev pPIN (NOT (push_bit 3 3)) w
     in reg_or dev pPIN modenum w)"

text \<open>The four one-bit switches of a pin share their shape.\<close>

definition pin_switch ::
  "u32 \<Rightarrow> device \<Rightarrow> u8 \<Rightarrow> u8 \<Rightarrow> FunctionalState \<Rightarrow> 'a world_scheme \<Rightarrow> 'a world_scheme" where
  "pin_switch b dev portnum pinnum NewState w =
    (let pPIN = PIN_GetPointer portnum pinnum in
     if NewState = DISABLE then reg_and dev pPIN (NOT b) w else reg_or dev pPIN b w)"

definition PINSEL_SetHysMode ::
  "device \<Rightarrow> u8 \<Rightarrow> u8 \<Rightarrow> FunctionalState \<Rightarrow> 'a world_scheme \<Rightarrow> 'a world_scheme" where
  "PINSEL_SetHysMode = pin_switch (push_bit 5 1)"

definition PINSEL_SetSlewMode ::
  "device \<Rightarrow> u8 \<Rightarrow> u8 \<Rightarrow> FunctionalState \<Rightarrow> 'a world_scheme \<Rightarrow> 'a world_scheme" where
  "PINSEL_SetSlewMode = pin_switch (push_bit 6 1)"

definition PINSEL_SetInBufMode ::
  "device \<Rightarrow> u8 \<Rightarrow> u8 \<Rightarrow> FunctionalState \<Rightarrow> 'a world_scheme \<Rightarrow> 'a world_scheme" where
  "PINSEL_SetInBufMode = pin_switch (push_bit 7 1)"

definition PINSEL_SetI2CMode :: "device \<Rightarrow> u8 \<Rightarrow> u8 \<Rightarrow> u32 \<Rightarrow> 'a world_scheme \<Rightarrow> 'a world_scheme" where
  "PINSEL_SetI2CMode dev portnum pinnum I2CMode w =
    (let pPIN = PIN_GetPointer portnum pinnum; w = reg_and dev pPIN (NOT (push_bit 8 0x03)) w
     in reg_or dev pPIN (push_bit 8 I2CMode) w)"

definition PINSEL_SetOpenDrainMode ::
  "device \<Rightarrow> u8 \<Rightarrow> u8 \<Rightarrow> FunctionalState \<Rightarrow> 'a world_scheme \<Rightarrow> 'a world_scheme" where
  "PINSEL_SetOpenDrainMode = pin_switch (push_bit 10 1)"

definition PINSEL_SetAnalogPinMode :: "device \<Rightarrow> u8 \<Rightarrow> u8 \<Rightarrow> u8 \<Rightarrow> 'a world_scheme \<Rightarrow> 'a world_scheme" where
  "PINSEL_SetAnalogPinMode dev portnum pinnum enable w =
    (if \<not> (portnum = 0 \<and> pinnum = 12 \<or> portnum = 0 \<and> pinnum = 13
        \<or> portnum = 0 \<and> pinnum \<le> 26 \<and> 23 \<le> pinnum
        \<or> portnum = 1 \<and> pinnum = 30 \<or> portnum = 1 \<and> pinnum = 31) then w
     else (let pPIN = PIN_GetPointer portnum pinnum; w = reg_and dev pPIN (NOT (push_bit 7 0x01)) w
           in if enable \<noteq> 0 then w else reg_or dev pPIN (push_bit 7 1) w))"

definition PINSEL_DacEnable :: "device \<Rightarrow> u8 \<Rightarrow> u8 \<Rightarrow> u8 \<Rightarrow> 'a world_scheme \<Rightarrow> 'a world_scheme" where
  "PINSEL_DacEnable dev portnum pinnum enable w =
    (if \<not> (portnum = 0 \<and> pinnum = 26) then w
     else (let pPIN = PIN_GetPointer portnum pinnum; w = reg_and dev pPIN (NOT (push_bit 16 0x01)) w
           in if enable \<noteq> 0 then reg_or dev pPIN (push_bit 16 1) w else w))"

definition PINSEL_SetFilter :: "device \<Rightarrow> u8 \<Rightarrow> u8 \<Rightarrow> u8 \<Rightarrow> 'a world_scheme \<Rightarrow> 'a world_scheme" where
  "PINSEL_SetFilter dev portnum pinnum enable w =
    (if \<not> (portnum = 0 \<and> (pinnum = 7 \<or> pinnum = 8 \<or> pinnum = 9)) then w
     else (let pPIN = PIN_GetPointer portnum pinnum; w = reg_or dev pPIN (push_bit 7 1) w;
               w = reg_and dev pPIN (NOT (push_bit 8 0x01)) w;
               w = (if enable = 0 then reg_or dev pPIN (push_bit 8 1) w else w);
               (v, w) = rd dev pPIN w
           in wr pPIN v w))"

end
