(* ===== verification/I2C_Driver.thy ===== *)
theory I2C_Driver
  imports Clock_Pins
begin

text \<open>
  The I2C driver \<^verbatim>\<open>lpc177x_8x_i2c.c\<close>: register-level primitives, the polling master
  transfer with its retry loop, the interrupt-driven master, and the state they share (the static
  arrays \<open>i2cdat\<close>, \<open>I2C_MasterComplete\<close>). A loop that polls the SI flag may spin for ever
  on a dead bus, so the functions that poll return an option.

  Structs reached through pointers live in typed stores, \<open>msetup\<close> for \<open>I2C_M_SETUP_Type\<close>, and
  byte buffers in \<open>mem\<close>. Data pointers are addresses, 0 is \<open>NULL\<close>.
\<close>

section \<open>Registers and constants\<close>

abbreviation (input) CONSET :: "u32 \<Rightarrow> u32" where "CONSET x \<equiv> x"
abbreviation STAT :: "u32 \<Rightarrow> u32" where "STAT x \<equiv> x + 0x04"
abbreviation DAT :: "u32 \<Rightarrow> u32" where "DAT x \<equiv> x + 0x08"
abbreviation SCLH :: "u32 \<Rightarrow> u32" where "SCLH x \<equiv> x + 0x10"
abbreviation SCLL :: "u32 \<Rightarrow> u32" where "SCLL x \<equiv> x + 0x14"
abbreviation CONCLR :: "u32 \<Rightarrow> u32" where "CONCLR x \<equiv> x + 0x18"

abbreviation I2C_AA :: u32 where "I2C_AA \<equiv> 0x04"
abbreviation I2C_SI :: u32 where "I2C_SI \<equiv> 0x08"
abbreviation I2C_STO :: u32 where "I2C_STO \<equiv> 0x10"
abbreviation I2C_STA :: u32 where "I2C_STA \<equiv> 0x20"
abbreviation I2C_I2EN :: u32 where "I2C_I2EN \<equiv> 0x40"

abbreviation I2C_I2STAT_NO_INF :: u32 where "I2C_I2STAT_NO_INF \<equiv> 0xF8"
abbreviation I2C_I2STAT_START :: u32 where "I2C_I2STAT_START \<equiv> 0x08"
abbreviation I2C_I2STAT_RESTART :: u32 where "I2C_I2STAT_RESTART \<equiv> 0x10"
abbreviation I2C_I2STAT_SLAW_ACK :: u32 where "I2C_I2STAT_SLAW_ACK \<equiv> 0x18"
abbreviation I2C_I2STAT_SLAW_NACK :: u32 where "I2C_I2STAT_SLAW_NACK \<equiv> 0x20"
abbreviation I2C_I2STAT_TX_DAT_ACK :: u32 where "I2C_I2STAT_TX_DAT_ACK \<equiv> 0x28"
abbreviation I2C_I2STAT_TX_DAT_NACK :: u32 where "I2C_I2STAT_TX_DAT_NACK \<equiv> 0x30"
abbreviation I2C_I2STAT_ARB_LOST :: u32 where "I2C_I2STAT_ARB_LOST \<equiv> 0x38"
abbreviation I2C_I2STAT_SLAR_ACK :: u32 where "I2C_I2STAT_SLAR_ACK \<equiv> 0x40"
abbreviation I2C_I2STAT_SLAR_NACK :: u32 where "I2C_I2STAT_SLAR_NACK \<equiv> 0x48"
abbreviation I2C_I2STAT_RX_DAT_ACK :: u32 where "I2C_I2STAT_RX_DAT_ACK \<equiv> 0x50"
abbreviation I2C_I2STAT_RX_DAT_NACK :: u32 where "I2C_I2STAT_RX_DAT_NACK \<equiv> 0x58"

abbreviation I2C_SETUP_STATUS_ARBF :: u32 where "I2C_SETUP_STATUS_ARBF \<equiv> 0x100"
abbreviation I2C_SETUP_STATUS_NOACKF :: u32 where "I2C_SETUP_STATUS_NOACKF \<equiv> 0x200"
abbreviation I2C_SETUP_STATUS_DONE :: u32 where "I2C_SETUP_STATUS_DONE \<equiv> 0x400"

section \<open>Data\<close>

record I2C_M_SETUP_Type =
  sl_addr7bit :: u32
  tx_data :: u32
  tx_length :: u32
  tx_count :: u32
  rx_data :: u32
  rx_length :: u32
  rx_count :: u32
  retransmissions_max :: u32
  retransmissions_count :: u32
  status :: u32

record I2C_CFG_T =
  txrx_setup :: u32
  dir :: u32

datatype I2C_TRANSFER_OPT_Type = I2C_TRANSFER_POLLING | I2C_TRANSFER_INTERRUPT

record i2c_state = world +
  i2cdat :: "u8 \<Rightarrow> I2C_CFG_T"
  I2C_MasterComplete :: "u8 \<Rightarrow> bool"
  msetup :: "u32 \<Rightarrow> I2C_M_SETUP_Type"

section \<open>Register-level primitives\<close>

definition I2C_GetPointer :: "u8 \<Rightarrow> u32" where
  "I2C_GetPointer compId =
    (if compId = 0 then LPC_I2C0 else if compId = 1 then LPC_I2C1
     else if compId = 2 then LPC_I2C2 else 0)"

definition I2C_getNum :: "u32 \<Rightarrow> int" where
  "I2C_getNum I2Cx =
    (if I2Cx = LPC_I2C0 then 0 else if I2Cx = LPC_I2C1 then 1
     else if I2Cx = LPC_I2C2 then 2 else -1)"

text \<open>The loop \<open>while (!(I2Cx->CONSET & I2C_I2CONSET_SI));\<close>.\<close>

partial_function (option) wait_SI :: "device \<Rightarrow> u32 \<Rightarrow> 'a world_scheme \<Rightarrow> 'a world_scheme option" where
  "wait_SI dev x w =
    (let vw = rd dev (CONSET x) w
     in if fst vw AND I2C_SI \<noteq> 0 then Some (snd vw) else wait_SI dev x (snd vw))"

definition I2C_Start :: "device \<Rightarrow> u32 \<Rightarrow> 'a world_scheme \<Rightarrow> (u32 \<times> 'a world_scheme) option" where
  "I2C_Start dev x w = do {
     let w = wr (CONCLR x) I2C_SI w;
     let w = wr (CONSET x) I2C_STA w;
     w \<leftarrow> wait_SI dev x w;
     let w = wr (CONCLR x) I2C_STA w;
     let (s, w) = rd dev (STAT x) w;
     Some (s AND 0xF8, w) }"

definition I2C_Stop :: "device \<Rightarrow> u32 \<Rightarrow> 'a world_scheme \<Rightarrow> 'a world_scheme" where
  "I2C_Stop dev x w =
    (let (v, w) = rd dev (CONSET x) w;
         w = (if v AND I2C_STA \<noteq> 0 then wr (CONCLR x) I2C_STA w else w);
         w = wr (CONSET x) I2C_STO w
     in wr (CONCLR x) I2C_SI w)"

definition I2C_SendByte :: "device \<Rightarrow> u32 \<Rightarrow> u8 \<Rightarrow> 'a world_scheme \<Rightarrow> (u32 \<times> 'a world_scheme) option" where
  "I2C_SendByte dev x databyte w = do {
     let (v, w) = rd dev (CONSET x) w;
     let w = (if v AND I2C_STA \<noteq> 0 then wr (CONCLR x) I2C_STA w else w);
     let w = wr (DAT x) (ucast databyte AND 0xFF) w;
     let w = wr (CONCLR x) I2C_SI w;
     w \<leftarrow> wait_SI dev x w;
     let (s, w) = rd dev (STAT x) w;
     Some (s AND 0xF8, w) }"

definition I2C_GetByte ::
  "device \<Rightarrow> u32 \<Rightarrow> bool \<Rightarrow> 'a world_scheme \<Rightarrow> (u8 \<times> u32 \<times> 'a world_scheme) option" where
  "I2C_GetByte dev x ack w = do {
     let w = (if ack then wr (CONSET x) I2C_AA w else wr (CONCLR x) I2C_AA w);
     let w = wr (CONCLR x) I2C_SI w;
     w \<leftarrow> wait_SI dev x w;
     let (d, w) = rd dev (DAT x) w;
     let (s, w) = rd dev (STAT x) w;
     Some (ucast (d AND 0xFF), s AND 0xF8, w) }"

definition I2C_SetClock :: "device \<Rightarrow> u32 \<Rightarrow> u32 \<Rightarrow> 'a world_scheme \<Rightarrow> 'a world_scheme" where
  "I2C_SetClock dev x target_clock w =
    (let temp = PeripheralClock w div target_clock;
         w = wr (SCLH x) (temp div 2) w;
         (h, w) = rd dev (SCLH x) w
     in wr (SCLL x) (temp - h) w)"

definition I2C_Init :: "device \<Rightarrow> u8 \<Rightarrow> u32 \<Rightarrow> 'a world_scheme \<Rightarrow> 'a world_scheme" where
  "I2C_Init dev i2cId clockrate w =
    (let x = I2C_GetPointer i2cId in
     if i2cId = 0 \<or> i2cId = 1 \<or> i2cId = 2 then
       (let clkSetting = (if i2cId = 0 then push_bit 7 1 else if i2cId = 1 then push_bit 19 1
                          else push_bit 26 1);
            w = CLKPWR_ConfigPPWR dev clkSetting ENABLE w;
            clkRate = PeripheralClock w div clockrate;
            w = wr (SCLH x) (clkRate div 2) w;
            (h, w) = rd dev (SCLH x) w;
            w = wr (SCLL x) (clkRate - h) w
        in wr (CONCLR x) (I2C_AA OR I2C_STA OR I2C_I2EN) w)
     else w)"

definition I2C_DeInit :: "device \<Rightarrow> u8 \<Rightarrow> 'a world_scheme \<Rightarrow> 'a world_scheme" where
  "I2C_DeInit dev i2cId w =
    (let x = I2C_GetPointer i2cId; w = wr (CONCLR x) I2C_I2EN w in
     if i2cId = 0 \<or> i2cId = 1 \<or> i2cId = 2 then
       (let clkSetting = (if i2cId = 0 then push_bit 7 1 else if i2cId = 1 then push_bit 19 1
                          else push_bit 26 1)
        in CLKPWR_ConfigPPWR dev clkSetting DISABLE w)
     else w)"

definition I2C_Cmd :: "u8 \<Rightarrow> FunctionalState \<Rightarrow> 'a world_scheme \<Rightarrow> 'a world_scheme" where
  "I2C_Cmd i2cId NewState w =
    (let x = I2C_GetPointer i2cId in
     if NewState = ENABLE then wr (CONSET x) I2C_I2EN w else wr (CONCLR x) I2C_I2EN w)"

text \<open>\<open>NVIC_EnableIRQ\<close>, \<open>NVIC_DisableIRQ\<close> of \<^verbatim>\<open>core_cm3.h\<close>: one store to ISER or ICER.\<close>

definition NVIC_EnableIRQ :: "u32 \<Rightarrow> 'a world_scheme \<Rightarrow> 'a world_scheme" where
  "NVIC_EnableIRQ irq w = wr (0xE000E100 + drop_bit 5 irq * 4) (push_bit (unat (irq AND 0x1F)) 1) w"

definition NVIC_DisableIRQ :: "u32 \<Rightarrow> 'a world_scheme \<Rightarrow> 'a world_scheme" where
  "NVIC_DisableIRQ irq w = wr (0xE000E180 + drop_bit 5 irq * 4) (push_bit (unat (irq AND 0x1F)) 1) w"

definition I2C_IntCmd :: "u8 \<Rightarrow> bool \<Rightarrow> 'a world_scheme \<Rightarrow> 'a world_scheme" where
  "I2C_IntCmd i2cId NewState w =
    (if i2cId = 0 \<or> i2cId = 1 \<or> i2cId = 2 then
       (let irq = (if i2cId = 0 then 10 else if i2cId = 1 then 11 else 12)
        in if NewState then NVIC_EnableIRQ irq w else NVIC_DisableIRQ irq w)
     else w)"

section \<open>Polling master transfer\<close>

text \<open>
  One attempt runs from the label \<open>retry\<close> to either \<open>I2C_Stop\<close> or the next failure check.
  Each phase returns \<open>None\<close> when it went through, or the status word that the transfer
  reports if it gives up there; the configuration carries the counters at that point.
\<close>

partial_function (option) mt_tx_loop ::
  "device \<Rightarrow> u32 \<Rightarrow> I2C_M_SETUP_Type \<Rightarrow> u32 \<Rightarrow> 'a world_scheme
   \<Rightarrow> (u32 option \<times> I2C_M_SETUP_Type \<times> 'a world_scheme) option" where
  "mt_tx_loop dev x cfg txdat w =
    (if tx_count cfg < tx_length cfg then
       Option.bind (I2C_SendByte dev x (mem w txdat) w) (\<lambda>cw.
         if fst cw \<noteq> I2C_I2STAT_TX_DAT_ACK
         then Some (Some (fst cw OR I2C_SETUP_STATUS_NOACKF), cfg, snd cw)
         else mt_tx_loop dev x (cfg\<lparr>tx_count := tx_count cfg + 1\<rparr>) (txdat + 1) (snd cw))
     else Some (None, cfg, w))"

definition mt_tx_phase ::
  "device \<Rightarrow> u32 \<Rightarrow> I2C_M_SETUP_Type \<Rightarrow> 'a world_scheme
   \<Rightarrow> (u32 option \<times> I2C_M_SETUP_Type \<times> 'a world_scheme) option" where
  "mt_tx_phase dev x cfg w =
    (if tx_length cfg \<noteq> 0 \<and> tx_data cfg \<noteq> 0 then do {
       (code, w) \<leftarrow> I2C_SendByte dev x (ucast (push_bit 1 (sl_addr7bit cfg))) w;
       if code \<noteq> I2C_I2STAT_SLAW_ACK
       then Some (Some (code OR I2C_SETUP_STATUS_NOACKF), cfg, w)
       else mt_tx_loop dev x cfg (tx_data cfg) w }
     else Some (None, cfg, w))"

definition mt_restart_phase ::
  "device \<Rightarrow> u32 \<Rightarrow> I2C_M_SETUP_Type \<Rightarrow> 'a world_scheme
   \<Rightarrow> (u32 option \<times> I2C_M_SETUP_Type \<times> 'a world_scheme) option" where
  "mt_restart_phase dev x cfg w =
    (if tx_length cfg \<noteq> 0 \<and> tx_data cfg \<noteq> 0 \<and> rx_length cfg \<noteq> 0 \<and> rx_data cfg \<noteq> 0 then do {
       (code, w) \<leftarrow> I2C_Start dev x w;
       if code \<noteq> I2C_I2STAT_START \<and> code \<noteq> I2C_I2STAT_RESTART
       then Some (Some code, cfg, w)
       else Some (None, cfg, w) }
     else Some (None, cfg, w))"

partial_function (option) mt_rx_loop ::
  "device \<Rightarrow> u32 \<Rightarrow> I2C_M_SETUP_Type \<Rightarrow> u32 \<Rightarrow> 'a world_scheme
   \<Rightarrow> (u32 option \<times> I2C_M_SETUP_Type \<times> 'a world_scheme) option" where
  "mt_rx_loop dev x cfg rxdat w =
    (if rx_count cfg < rx_length cfg then
       (let ack = (rx_count cfg < rx_length cfg - 1) in
        Option.bind (I2C_GetByte dev x ack w) (\<lambda>dcw.
          if fst (snd dcw) \<noteq> (if ack then I2C_I2STAT_RX_DAT_ACK else I2C_I2STAT_RX_DAT_NACK)
          then Some (Some (fst (snd dcw)), cfg, snd (snd dcw))
          else mt_rx_loop dev x (cfg\<lparr>rx_count := rx_count cfg + 1\<rparr>) (rxdat + 1)
                 ((snd (snd dcw))\<lparr>mem := (mem (snd (snd dcw)))(rxdat := fst dcw)\<rparr>)))
     else Some (None, cfg, w))"

definition mt_rx_phase ::
  "device \<Rightarrow> u32 \<Rightarrow> I2C_M_SETUP_Type \<Rightarrow> 'a world_scheme
   \<Rightarrow> (u32 option \<times> I2C_M_SETUP_Type \<times> 'a world_scheme) option" where
  "mt_rx_phase dev x cfg w =
    (if rx_length cfg \<noteq> 0 \<and> rx_data cfg \<noteq> 0 then do {
       (code, w) \<leftarrow> I2C_SendByte dev x (ucast (push_bit 1 (sl_addr7bit cfg) OR 0x01)) w;
       if code \<noteq> I2C_I2STAT_SLAR_ACK
       then Some (Some (code OR I2C_SETUP_STATUS_NOACKF), cfg, w)
       else mt_rx_loop dev x cfg (rx_data cfg) w }
     else Some (None, cfg, w))"

definition mt_attempt ::
  "device \<Rightarrow> u32 \<Rightarrow> I2C_M_SETUP_Type \<Rightarrow> 'a world_scheme
   \<Rightarrow> (u32 option \<times> I2C_M_SETUP_Type \<times> 'a world_scheme) option" where
  "mt_attempt dev x cfg w = do {
     let cfg = cfg\<lparr>tx_count := 0, rx_count := 0\<rparr>;
     (code, w) \<leftarrow> I2C_Start dev x w;
     if code \<noteq> I2C_I2STAT_START \<and> code \<noteq> I2C_I2STAT_RESTART then Some (Some code, cfg, w)
     else do {
       (e, cfg, w) \<leftarrow> mt_tx_phase dev x cfg w;
       if e \<noteq> None then Some (e, cfg, w)
       else do {
         (e, cfg, w) \<leftarrow> mt_restart_phase dev x cfg w;
         if e \<noteq> None then Some (e, cfg, w)
         else mt_rx_phase dev x cfg w } } }"

text \<open>
  The retry loop: every failure bumps the 32-bit \<open>retransmissions_count\<close>; once it exceeds
  \<open>retransmissions_max\<close> the status is stored and the bus is released.
\<close>

partial_function (option) mt_retry ::
  "device \<Rightarrow> u32 \<Rightarrow> I2C_M_SETUP_Type \<Rightarrow> 'a world_scheme
   \<Rightarrow> (Status \<times> I2C_M_SETUP_Type \<times> 'a world_scheme) option" where
  "mt_retry dev x cfg w =
    Option.bind (mt_attempt dev x cfg w) (\<lambda>r.
      case fst r of
        None \<Rightarrow> Some (SUCCESS, fst (snd r), I2C_Stop dev x (snd (snd r)))
      | Some st \<Rightarrow>
          (let cfg = (fst (snd r))\<lparr>retransmissions_count := retransmissions_count (fst (snd r)) + 1\<rparr>
           in if retransmissions_max cfg < retransmissions_count cfg
              then Some (ERROR, cfg\<lparr>status := st\<rparr>, I2C_Stop dev x (snd (snd r)))
              else mt_retry dev x cfg (snd (snd r))))"

definition I2C_MasterTransferData ::
  "device \<Rightarrow> u8 \<Rightarrow> u32 \<Rightarrow> I2C_TRANSFER_OPT_Type \<Rightarrow> i2c_state \<Rightarrow> (Status \<times> i2c_state) option" where
  "I2C_MasterTransferData dev i2cId TransferCfg Opt s =
    (let x = I2C_GetPointer i2cId;
         cfg = (msetup s TransferCfg)\<lparr>tx_count := 0, rx_count := 0, status := 0\<rparr>
     in case Opt of
       I2C_TRANSFER_POLLING \<Rightarrow> do {
         (r, cfg, s) \<leftarrow> mt_retry dev x (cfg\<lparr>retransmissions_count := 0\<rparr>) s;
         Some (r, s\<lparr>msetup := (msetup s)(TransferCfg := cfg)\<rparr>) }
     | I2C_TRANSFER_INTERRUPT \<Rightarrow>
         (let s = s\<lparr>msetup := (msetup s)(TransferCfg := cfg),
                    i2cdat := (i2cdat s)(i2cId := \<lparr>txrx_setup = TransferCfg, dir = 0\<rparr>)\<rparr>;
              s = wr (CONCLR x) I2C_SI s;
              s = wr (CONSET x) I2C_STA s
          in Some (SUCCESS, I2C_IntCmd i2cId True s)))"

definition I2C_MasterTransferComplete :: "u8 \<Rightarrow> i2c_state \<Rightarrow> bool \<times> i2c_state" where
  "I2C_MasterTransferComplete i2cId s =
    (I2C_MasterComplete s i2cId,
     s\<lparr>I2C_MasterComplete := (I2C_MasterComplete s)(i2cId := False)\<rparr>)"

section \<open>Interrupt-driven master\<close>

text \<open>
  The handler's \<open>goto\<close> targets are functions of the unit and its setup pointer. The
  \<open>status\<close>, counters and data pointers are those of the struct that \<open>i2cdat\<close> points to.
\<close>

definition upd_setup :: "u32 \<Rightarrow> (I2C_M_SETUP_Type \<Rightarrow> I2C_M_SETUP_Type) \<Rightarrow> i2c_state \<Rightarrow> i2c_state" where
  "upd_setup p f s = s\<lparr>msetup := (msetup s)(p := f (msetup s p))\<rparr>"

definition or_status :: "u32 \<Rightarrow> u32 \<Rightarrow> i2c_state \<Rightarrow> i2c_state" where
  "or_status p v s = upd_setup p (\<lambda>c. c\<lparr>status := status c OR v\<rparr>) s"

definition mh_end_stage :: "device \<Rightarrow> u8 \<Rightarrow> i2c_state \<Rightarrow> i2c_state" where
  "mh_end_stage dev i2cId s =
    (let s = I2C_IntCmd i2cId False s;
         s = I2C_Stop dev (I2C_GetPointer i2cId) s
     in s\<lparr>I2C_MasterComplete := (I2C_MasterComplete s)(i2cId := True)\<rparr>)"

definition mh_retry :: "device \<Rightarrow> u8 \<Rightarrow> u32 \<Rightarrow> i2c_state \<Rightarrow> i2c_state" where
  "mh_retry dev i2cId p s =
    (let x = I2C_GetPointer i2cId; c = msetup s p in
     if retransmissions_count c < retransmissions_max c then
       (let s = upd_setup p (\<lambda>c. c\<lparr>tx_count := 0\<rparr>) s;
            s = wr (CONSET x) I2C_STA s;
            s = wr (CONCLR x) (I2C_AA OR I2C_SI) s
        in upd_setup p (\<lambda>c. c\<lparr>retransmissions_count := retransmissions_count c + 1\<rparr>) s)
     else mh_end_stage dev i2cId s)"

definition mh_send_slar :: "u8 \<Rightarrow> u32 \<Rightarrow> i2c_state \<Rightarrow> i2c_state" where
  "mh_send_slar i2cId p s =
    (let x = I2C_GetPointer i2cId;
         s = wr (DAT x) (push_bit 1 (sl_addr7bit (msetup s p)) OR 0x01) s
     in wr (CONCLR x) I2C_SI s)"

definition mh_next_stage :: "device \<Rightarrow> u8 \<Rightarrow> u32 \<Rightarrow> i2c_state \<Rightarrow> i2c_state" where
  "mh_next_stage dev i2cId p s =
    (let x = I2C_GetPointer i2cId; c = msetup s p;
         s = s\<lparr>i2cdat := (i2cdat s)(i2cId := (i2cdat s i2cId)\<lparr>dir := 1\<rparr>)\<rparr>
     in if rx_length c \<noteq> 0 \<and> rx_data c \<noteq> 0 then
          (if tx_length c \<noteq> 0 \<and> tx_data c \<noteq> 0
           then wr (CONCLR x) (I2C_AA OR I2C_SI) (wr (CONSET x) I2C_STA s)
           else mh_send_slar i2cId p s)
        else mh_end_stage dev i2cId (or_status p I2C_SETUP_STATUS_DONE s))"

text \<open>The arm \<open>dir == 0\<close>: transmit.\<close>

definition mh_tx :: "device \<Rightarrow> u8 \<Rightarrow> u32 \<Rightarrow> u32 \<Rightarrow> i2c_state \<Rightarrow> i2c_state" where
  "mh_tx dev i2cId p returnCode s =
    (let x = I2C_GetPointer i2cId; c = msetup s p in
     if returnCode = I2C_I2STAT_START \<or> returnCode = I2C_I2STAT_RESTART then
       (let s = wr (CONCLR x) I2C_STA s in
        if tx_data c \<noteq> 0 \<and> tx_length c \<noteq> 0
        then wr (CONCLR x) I2C_SI (wr (DAT x) (push_bit 1 (sl_addr7bit c)) s)
        else mh_next_stage dev i2cId p s)
     else if returnCode = I2C_I2STAT_SLAW_ACK \<or> returnCode = I2C_I2STAT_TX_DAT_ACK then
       (if tx_count c < tx_length c \<and> tx_data c \<noteq> 0 then
          (let s = wr (DAT x) (ucast (mem s (tx_data c + tx_count c))) s;
               s = upd_setup p (\<lambda>c. c\<lparr>tx_count := tx_count c + 1\<rparr>) s
           in wr (CONCLR x) I2C_SI s)
        else mh_next_stage dev i2cId p s)
     else if returnCode = I2C_I2STAT_SLAW_NACK \<or> returnCode = I2C_I2STAT_TX_DAT_NACK then
       mh_retry dev i2cId p (or_status p I2C_SETUP_STATUS_NOACKF s)
     else if returnCode = I2C_I2STAT_ARB_LOST then
       mh_retry dev i2cId p (or_status p I2C_SETUP_STATUS_ARBF s)
     else mh_retry dev i2cId p s)"

text \<open>Storing a received byte, shared by the two data states of the receive arm.\<close>

definition mh_store :: "device \<Rightarrow> u8 \<Rightarrow> u32 \<Rightarrow> i2c_state \<Rightarrow> i2c_state" where
  "mh_store dev i2cId p s =
    (let x = I2C_GetPointer i2cId; c = msetup s p in
     if rx_data c \<noteq> 0 \<and> rx_count c < rx_length c then
       (let (d, s) = rd dev (DAT x) s;
            s = s\<lparr>mem := (mem s)(rx_data c + rx_count c := ucast (d AND 0xFF))\<rparr>
        in upd_setup p (\<lambda>c. c\<lparr>rx_count := rx_count c + 1\<rparr>) s)
     else s)"

definition mh_ack_next :: "u8 \<Rightarrow> u32 \<Rightarrow> i2c_state \<Rightarrow> i2c_state" where
  "mh_ack_next i2cId p s =
    (let x = I2C_GetPointer i2cId; c = msetup s p;
         s = (if rx_count c < rx_length c - 1 then wr (CONSET x) I2C_AA s
              else wr (CONCLR x) I2C_AA s)
     in wr (CONCLR x) I2C_SI s)"

text \<open>The arm \<open>dir == 1\<close>: receive.\<close>

definition mh_rx :: "device \<Rightarrow> u8 \<Rightarrow> u32 \<Rightarrow> u32 \<Rightarrow> i2c_state \<Rightarrow> i2c_state" where
  "mh_rx dev i2cId p returnCode s =
    (let x = I2C_GetPointer i2cId; c = msetup s p in
     if returnCode = I2C_I2STAT_START \<or> returnCode = I2C_I2STAT_RESTART then
       (let s = wr (CONCLR x) I2C_STA s in
        if rx_data c \<noteq> 0 \<and> rx_length c \<noteq> 0 then mh_send_slar i2cId p s
        else mh_end_stage dev i2cId (or_status p I2C_SETUP_STATUS_DONE s))
     else if returnCode = I2C_I2STAT_SLAR_ACK then mh_ack_next i2cId p s
     else if returnCode = I2C_I2STAT_RX_DAT_ACK then
       mh_ack_next i2cId p (mh_store dev i2cId p s)
     else if returnCode = I2C_I2STAT_RX_DAT_NACK then
       mh_end_stage dev i2cId (or_status p I2C_SETUP_STATUS_DONE (mh_store dev i2cId p s))
     else if returnCode = I2C_I2STAT_SLAR_NACK then
       mh_retry dev i2cId p (or_status p I2C_SETUP_STATUS_NOACKF s)
     else if returnCode = I2C_I2STAT_ARB_LOST then
       mh_retry dev i2cId p (or_status p I2C_SETUP_STATUS_ARBF s)
     else mh_retry dev i2cId p s)"

definition I2C_MasterHandler :: "device \<Rightarrow> u8 \<Rightarrow> i2c_state \<Rightarrow> i2c_state" where
  "I2C_MasterHandler dev i2cId s =
    (let x = I2C_GetPointer i2cId;
         p = txrx_setup (i2cdat s i2cId);
         (v, s) = rd dev (STAT x) s;
         returnCode = v AND 0xF8;
         s = upd_setup p (\<lambda>c. c\<lparr>status := returnCode\<rparr>) s
     in if returnCode = I2C_I2STAT_NO_INF then wr (CONCLR x) I2C_SI s
        else if dir (i2cdat s i2cId) = 0 then mh_tx dev i2cId p returnCode s
        else if dir (i2cdat s i2cId) = 1 then mh_rx dev i2cId p returnCode s
        else s)"

lemmas i2c_loops_code [code] = wait_SI.simps mt_tx_loop.simps mt_rx_loop.simps mt_retry.simps

end
