(* ===== verification/I2C_Bus.thy ===== *)
theory I2C_Bus
  imports I2C_Driver
begin

text \<open>
  What the I2C driver does on the wires. The bus log of a unit is read off the access history:
  a store of STA to CONSET is a START, a store of STO a STOP, a store to DAT a byte. The lemmas
  of the driver's primitives say how each one extends the log, for every device; the properties
  say which frames a master transfer puts on the bus, what it reports and that it returns.
\<close>

datatype bus_event = EvStart | EvByte u32 | EvStop

fun bus_event_of :: "u32 \<Rightarrow> access \<Rightarrow> bus_event list" where
  "bus_event_of x (Wr a v) =
    (if a = DAT x then [EvByte v]
     else if a = CONSET x then
       (if v AND I2C_STA \<noteq> 0 then [EvStart] else []) @ (if v AND I2C_STO \<noteq> 0 then [EvStop] else [])
     else [])"
| "bus_event_of x _ = []"

definition bus_log :: "u32 \<Rightarrow> access list \<Rightarrow> bus_event list" where
  "bus_log x t = concat (map (bus_event_of x) (rev t))"

text \<open>The values loaded from the data register, in order.\<close>

fun dat_read_of :: "u32 \<Rightarrow> access \<Rightarrow> u32 list" where
  "dat_read_of x (Rd a v) = (if a = DAT x then [v] else [])"
| "dat_read_of x _ = []"

definition dat_reads :: "u32 \<Rightarrow> access list \<Rightarrow> u32 list" where
  "dat_reads x t = concat (map (dat_read_of x) (rev t))"

definition bytes_at :: "(u32 \<Rightarrow> u8) \<Rightarrow> u32 \<Rightarrow> nat \<Rightarrow> u8 list" where
  "bytes_at m a n = map (\<lambda>i. m (a + of_nat i)) [0..<n]"

definition tx_active :: "I2C_M_SETUP_Type \<Rightarrow> bool" where
  "tx_active c \<longleftrightarrow> tx_length c \<noteq> 0 \<and> tx_data c \<noteq> 0"

definition rx_active :: "I2C_M_SETUP_Type \<Rightarrow> bool" where
  "rx_active c \<longleftrightarrow> rx_length c \<noteq> 0 \<and> rx_data c \<noteq> 0"

primrec store_bytes :: "(u32 \<Rightarrow> u8) \<Rightarrow> u32 \<Rightarrow> u8 list \<Rightarrow> (u32 \<Rightarrow> u8)" where
  "store_bytes m a [] = m"
| "store_bytes m a (b # bs) = store_bytes (m(a := b)) (a + 1) bs"

text \<open>The address byte as \<open>I2C_SendByte\<close> puts it in DAT: shifted, truncated to eight bits.\<close>

definition sla_w :: "u32 \<Rightarrow> u32" where
  "sla_w a = ucast (ucast (push_bit 1 a) :: u8)"

definition sla_r :: "u32 \<Rightarrow> u32" where
  "sla_r a = ucast (ucast (push_bit 1 a OR 1) :: u8)"

definition tx_frame :: "I2C_M_SETUP_Type \<Rightarrow> (u32 \<Rightarrow> u8) \<Rightarrow> bus_event list" where
  "tx_frame c m = EvByte (sla_w (sl_addr7bit c))
     # map (\<lambda>b. EvByte (ucast b)) (bytes_at m (tx_data c) (unat (tx_length c)))"

definition master_frame :: "I2C_M_SETUP_Type \<Rightarrow> (u32 \<Rightarrow> u8) \<Rightarrow> bus_event list" where
  "master_frame c m = EvStart
     # (if tx_active c then tx_frame c m else [])
     @ (if tx_active c \<and> rx_active c then [EvStart] else [])
     @ (if rx_active c then [EvByte (sla_r (sl_addr7bit c))] else [])"

section \<open>Logs\<close>

lemma active_upd [simp]:
  "tx_active (c\<lparr>tx_count := k\<rparr>) = tx_active c" "rx_active (c\<lparr>tx_count := k\<rparr>) = rx_active c"
  "tx_active (c\<lparr>rx_count := k\<rparr>) = tx_active c" "rx_active (c\<lparr>rx_count := k\<rparr>) = rx_active c"
  "tx_active (c\<lparr>retransmissions_count := k\<rparr>) = tx_active c"
  "rx_active (c\<lparr>retransmissions_count := k\<rparr>) = rx_active c"
  "tx_active (c\<lparr>status := k\<rparr>) = tx_active c" "rx_active (c\<lparr>status := k\<rparr>) = rx_active c"
  by (simp_all add: tx_active_def rx_active_def)

lemma frame_upd [simp]:
  "tx_frame (c\<lparr>tx_count := k\<rparr>) m = tx_frame c m" "tx_frame (c\<lparr>rx_count := k\<rparr>) m = tx_frame c m"
  "tx_frame (c\<lparr>retransmissions_count := k\<rparr>) m = tx_frame c m"
  "tx_frame (c\<lparr>status := k\<rparr>) m = tx_frame c m"
  by (simp_all add: tx_frame_def)

lemma master_frame_upd [simp]:
  "master_frame (c\<lparr>tx_count := k\<rparr>) m = master_frame c m"
  "master_frame (c\<lparr>rx_count := k\<rparr>) m = master_frame c m"
  "master_frame (c\<lparr>retransmissions_count := k\<rparr>) m = master_frame c m"
  "master_frame (c\<lparr>status := k\<rparr>) m = master_frame c m"
  by (simp_all add: master_frame_def)

lemma bus_log_Cons [bus_log_simps]: "bus_log x (e # t) = bus_log x t @ bus_event_of x e"
  by (simp add: bus_log_def)

lemma dat_reads_Cons [bus_log_simps]: "dat_reads x (e # t) = dat_reads x t @ dat_read_of x e"
  by (simp add: dat_reads_def)

lemma bytes_at_0 [simp]: "bytes_at m a 0 = []"
  by (simp add: bytes_at_def)

lemma bytes_at_Suc: "bytes_at m a (Suc n) = m a # bytes_at m (a + 1) n"
proof -
  have "[0..<Suc n] = 0 # map Suc [0..<n]" by (simp add: upt_conv_Cons map_Suc_upt)
  then show ?thesis by (simp add: bytes_at_def add.assoc comp_def)
qed

lemma length_bytes_at [simp]: "length (bytes_at m a n) = n"
  by (simp add: bytes_at_def)

lemma bytes_at_cong: "(\<And>i. i < n \<Longrightarrow> m (a + of_nat i) = m' (a + of_nat i)) \<Longrightarrow> bytes_at m a n = bytes_at m' a n"
  by (simp add: bytes_at_def)

lemma ucast_u8_and_FF [simp]: "(ucast (b :: u8) :: u32) AND 0xFF = ucast b"
proof -
  have "take_bit 8 (ucast b :: u32) = ucast b"
    by (rule bit_word_eqI) (auto simp: bit_simps dest: bit_imp_le_length)
  moreover have "(0xFF :: u32) = mask 8" by (simp add: mask_eq_exp_minus_1)
  ultimately show ?thesis by (simp add: take_bit_eq_mask)
qed

lemma ucast_and_FF [simp]: "(ucast ((d :: u32) AND 0xFF) :: u8) = ucast d"
proof -
  have m: "(0xFF :: u32) = mask 8" by (simp add: mask_eq_exp_minus_1)
  show ?thesis unfolding m by (rule bit_word_eqI) (auto simp: bit_simps)
qed

section \<open>The driver's primitives\<close>

text \<open>
  \<open>only_tr w w'\<close>: the operation changed nothing of the shared state but the access history, and
  added the given events and data loads to it.
\<close>

definition bus_step ::
  "u32 \<Rightarrow> bus_event list \<Rightarrow> u32 list \<Rightarrow> 'a world_scheme \<Rightarrow> 'a world_scheme \<Rightarrow> bool" where
  "bus_step x ev ds w w' \<longleftrightarrow> w' = w\<lparr>tr := tr w'\<rparr>
     \<and> bus_log x (tr w') = bus_log x (tr w) @ ev \<and> dat_reads x (tr w') = dat_reads x (tr w) @ ds"

lemma bus_step_refl: "bus_step x [] [] w w"
  by (simp add: bus_step_def)

lemma bus_step_trans:
  "bus_step x e1 d1 w w1 \<Longrightarrow> bus_step x e2 d2 w1 w2 \<Longrightarrow> bus_step x (e1 @ e2) (d1 @ d2) w w2"
  unfolding bus_step_def by (metis append_assoc world.update_convs(1) world.surjective world.select_convs(1))

lemma bus_step_mem: "bus_step x ev ds w w' \<Longrightarrow> mem w' = mem w"
  unfolding bus_step_def by (metis world.ext_inject world.surjective world.update_convs(1))

lemmas wait_SI_induct = wait_SI.raw_induct [of P "((dev, x), w)" for P dev x w, unfolded prod.case]

lemma wait_SI_step:
  assumes "wait_SI dev x w = Some w'"
  shows "bus_step x [] [] w w'"
proof (rule wait_SI_induct [where P = "\<lambda>dev x w w'. bus_step x [] [] w w'", OF _ assms])
  fix f dev x and w w' :: "'a world_scheme"
  assume IH: "\<And>dev x (w :: 'a world_scheme) w'. f dev x w = Some w' \<Longrightarrow> bus_step x [] [] w w'"
    and eq: "(let vw = rd dev (CONSET x) w
      in if fst vw AND I2C_SI \<noteq> 0 then Some (snd vw) else f dev x (snd vw)) = Some w'"
  have 1: "bus_step x [] [] w (snd (rd dev (CONSET x) w))"
    by (simp add: bus_step_def rd_def Let_def bus_log_simps)
  show "bus_step x [] [] w w'"
  proof (cases "fst (rd dev (CONSET x) w) AND I2C_SI = 0")
    case True
    with eq have "f dev x (snd (rd dev (CONSET x) w)) = Some w'" by (simp add: Let_def)
    from bus_step_trans [OF 1 IH [OF this]] show ?thesis by simp
  next
    case False
    with eq have "w' = snd (rd dev (CONSET x) w)" by (simp add: Let_def)
    with 1 show ?thesis by simp
  qed
qed

lemma wr_step: "bus_step x (bus_event_of x (Wr a v)) [] w (wr a v w)"
  by (simp add: bus_step_def wr_def bus_log_simps)

lemma rd_step: "bus_step x [] (dat_read_of x (Rd a (dev (tr w) a))) w (snd (rd dev a w))"
  by (simp add: bus_step_def rd_def Let_def bus_log_simps)

lemma I2C_Start_step:
  assumes "I2C_Start dev x w = Some (c, w')"
  shows "bus_step x [EvStart] [] w w'"
proof -
  from assms obtain w1 where w1: "wait_SI dev x (wr (CONSET x) I2C_STA (wr (CONCLR x) I2C_SI w)) = Some w1"
    and w': "w' = snd (rd dev (STAT x) (wr (CONCLR x) I2C_STA w1))"
    by (auto simp: I2C_Start_def bind_eq_Some_conv case_prod_beta Let_def)
  have "bus_step x [EvStart] [] w (wr (CONSET x) I2C_STA (wr (CONCLR x) I2C_SI w))"
    by (simp add: bus_step_def wr_def bus_log_simps)
  from bus_step_trans [OF this wait_SI_step [OF w1]]
  have 1: "bus_step x [EvStart] [] w w1" by simp
  have "bus_step x [] [] w1 w'"
    using bus_step_trans [OF wr_step [of x "CONCLR x" I2C_STA w1] rd_step [of x "STAT x" dev]]
    by (simp add: w')
  from bus_step_trans [OF 1 this] show ?thesis by simp
qed

lemma I2C_Stop_step: "bus_step x [EvStop] [] w (I2C_Stop dev x w)"
  by (simp add: I2C_Stop_def rd_def Let_def bus_step_def wr_def bus_log_simps)

lemma I2C_SendByte_step:
  assumes "I2C_SendByte dev x b w = Some (c, w')"
  shows "bus_step x [EvByte (ucast b)] [] w w'"
proof -
  define w0 where "w0 = (let (v, w) = rd dev (CONSET x) w;
      w = (if v AND I2C_STA \<noteq> 0 then wr (CONCLR x) I2C_STA w else w)
    in wr (CONCLR x) I2C_SI (wr (DAT x) (ucast b) w))"
  from assms obtain w1 where w1: "wait_SI dev x w0 = Some w1" and w': "w' = snd (rd dev (STAT x) w1)"
    by (auto simp: I2C_SendByte_def w0_def bind_eq_Some_conv case_prod_beta Let_def)
  have "bus_step x [EvByte (ucast b)] [] w w0"
    by (simp add: w0_def bus_step_def wr_def rd_def Let_def bus_log_simps)
  from bus_step_trans [OF bus_step_trans [OF this wait_SI_step [OF w1]] rd_step [of x "STAT x" dev]]
  show ?thesis by (simp add: w')
qed

lemma I2C_GetByte_step:
  assumes "I2C_GetByte dev x ack w = Some (d, c, w')"
  obtains v where "d = ucast v" "bus_step x [] [v] w w'"
proof -
  define w0 where "w0 = wr (CONCLR x) I2C_SI
    (if ack then wr (CONSET x) I2C_AA w else wr (CONCLR x) I2C_AA w)"
  from assms obtain w1 where w1: "wait_SI dev x w0 = Some w1"
    and d: "d = ucast (dev (tr w1) (DAT x))"
    and w': "w' = snd (rd dev (STAT x) (snd (rd dev (DAT x) w1)))"
    by (auto simp: I2C_GetByte_def w0_def bind_eq_Some_conv case_prod_beta Let_def)
  have "bus_step x [] [] w w0"
    by (simp add: w0_def bus_step_def wr_def bus_log_simps)
  from bus_step_trans [OF this wait_SI_step [OF w1]] have 1: "bus_step x [] [] w w1" by simp
  have "bus_step x [] [dev (tr w1) (DAT x)] w1 w'"
    by (simp add: w' bus_step_def rd_def Let_def bus_log_simps)
  from bus_step_trans [OF 1 this] have "bus_step x [] [dev (tr w1) (DAT x)] w w'" by simp
  with d show thesis by (rule that)
qed

section \<open>The phases of a polling transfer\<close>

lemma mt_tx_loop_step:
  assumes "mt_tx_loop dev x cfg txdat w = Some (e, cfg', w')" "tx_count cfg \<le> tx_length cfg"
  shows "\<exists>k. tx_count cfg \<le> k \<and> k \<le> tx_length cfg \<and> cfg' = cfg\<lparr>tx_count := k\<rparr>
     \<and> (e = None \<longleftrightarrow> k = tx_length cfg)
     \<and> bus_step x (map (\<lambda>b. EvByte (ucast b))
          (bytes_at (mem w) txdat (unat (k - tx_count cfg) + (if e = None then 0 else 1)))) [] w w'"
  using assms
proof (induction "unat (tx_length cfg - tx_count cfg)" arbitrary: cfg txdat w)
  case 0
  then have "tx_count cfg = tx_length cfg" by (simp add: unat_eq_0)
  with "0.prems"(1) show ?case
    by (auto simp: mt_tx_loop.simps [of dev x cfg] bus_step_refl intro!: exI [of _ "tx_length cfg"])
next
  case (Suc n)
  then have "tx_count cfg \<noteq> tx_length cfg" by auto
  with Suc.prems(2) have lt: "tx_count cfg < tx_length cfg" by simp
  with Suc.prems(1) obtain c w1 where sb: "I2C_SendByte dev x (mem w txdat) w = Some (c, w1)"
    and r: "(if c \<noteq> I2C_I2STAT_TX_DAT_ACK then Some (Some (c OR I2C_SETUP_STATUS_NOACKF), cfg, w1)
       else mt_tx_loop dev x (cfg\<lparr>tx_count := tx_count cfg + 1\<rparr>) (txdat + 1) w1) = Some (e, cfg', w')"
    by (auto simp: mt_tx_loop.simps [of dev x cfg] bind_eq_Some_conv cong: if_cong)
  have 1: "bus_step x [EvByte (ucast (mem w txdat))] [] w w1" by (rule I2C_SendByte_step [OF sb])
  show ?case
  proof (cases "c = I2C_I2STAT_TX_DAT_ACK")
    case False
    with r have e: "e = Some (c OR I2C_SETUP_STATUS_NOACKF)" "cfg' = cfg" "w' = w1" by simp_all
    show ?thesis
      unfolding e using lt 1 by (intro exI [of _ "tx_count cfg"]) (auto simp: bytes_at_Suc)
  next
    case True
    let ?cfg = "cfg\<lparr>tx_count := tx_count cfg + 1\<rparr>"
    have n: "n = unat (tx_length ?cfg - tx_count ?cfg)"
      using Suc.hyps(2) word_minus_Suc [OF lt] by simp
    have le: "tx_count ?cfg \<le> tx_length ?cfg" using lt by (simp add: inc_le)
    from True r have "mt_tx_loop dev x ?cfg (txdat + 1) w1 = Some (e, cfg', w')" by simp
    from Suc.hyps(1) [OF n this le] obtain k where k: "tx_count cfg + 1 \<le> k" "k \<le> tx_length cfg"
      "cfg' = ?cfg\<lparr>tx_count := k\<rparr>" "e = None \<longleftrightarrow> k = tx_length cfg"
      "bus_step x (map (\<lambda>b. EvByte (ucast b)) (bytes_at (mem w1) (txdat + 1)
         (unat (k - (tx_count cfg + 1)) + (if e = None then 0 else 1)))) [] w1 w'"
      by auto
    have lk: "tx_count cfg < k" 
      using k(1) by (simp add: word_less_nat_alt word_le_nat_alt unat_Suc_word [OF lt])
    have "unat (k - tx_count cfg) = Suc (unat (k - (tx_count cfg + 1)))" by (rule word_minus_Suc [OF lk])
    moreover have "mem w1 = mem w" using 1 by (rule bus_step_mem)
    ultimately have "bus_step x (map (\<lambda>b. EvByte (ucast b)) (bytes_at (mem w) txdat
         (unat (k - tx_count cfg) + (if e = None then 0 else 1)))) [] w w'"
      using bus_step_trans [OF 1 k(5)] by (simp add: bytes_at_Suc)
    moreover have "tx_count cfg \<le> k" using lk by simp
    ultimately show ?thesis using k(2-4) by (intro exI [of _ k]) simp
  qed
qed

lemma bus_step_mem_cong:
  assumes "bus_step x ev ds w w1"
  shows "bus_step x ev ds (w\<lparr>mem := m\<rparr>) (w1\<lparr>mem := m\<rparr>)"
proof -
  from assms have 1: "w1 = w\<lparr>tr := tr w1\<rparr>" by (simp add: bus_step_def)
  have "w1\<lparr>mem := m\<rparr> = w\<lparr>mem := m, tr := tr w1\<rparr>" by (subst 1) simp
  with assms show ?thesis by (simp add: bus_step_def)
qed

lemma mt_rx_loop_step:
  assumes "mt_rx_loop dev x cfg rxdat w = Some (e, cfg', w')" "rx_count cfg \<le> rx_length cfg"
  shows "\<exists>k ds. rx_count cfg \<le> k \<and> k \<le> rx_length cfg \<and> cfg' = cfg\<lparr>rx_count := k\<rparr>
     \<and> (e = None \<longleftrightarrow> k = rx_length cfg)
     \<and> length ds = unat (k - rx_count cfg) + (if e = None then 0 else 1)
     \<and> bus_step x [] ds (w\<lparr>mem := store_bytes (mem w) rxdat
          (map ucast (take (unat (k - rx_count cfg)) ds))\<rparr>) w'"
  using assms
proof (induction "unat (rx_length cfg - rx_count cfg)" arbitrary: cfg rxdat w)
  case 0
  then have "rx_count cfg = rx_length cfg" by (simp add: unat_eq_0)
  with "0.prems"(1) show ?case
    by (auto simp: mt_rx_loop.simps [of dev x cfg] bus_step_refl intro!: exI [of _ "rx_length cfg"])
next
  case (Suc n)
  then have "rx_count cfg \<noteq> rx_length cfg" by auto
  with Suc.prems(2) have lt: "rx_count cfg < rx_length cfg" by simp
  let ?ok = "if rx_count cfg < rx_length cfg - 1 then I2C_I2STAT_RX_DAT_ACK else I2C_I2STAT_RX_DAT_NACK"
  let ?cfg = "cfg\<lparr>rx_count := rx_count cfg + 1\<rparr>"
  from lt Suc.prems(1) obtain d c w1 where
    gb: "I2C_GetByte dev x (rx_count cfg < rx_length cfg - 1) w = Some (d, c, w1)"
    and r: "(if c \<noteq> ?ok then Some (Some c, cfg, w1)
       else mt_rx_loop dev x ?cfg (rxdat + 1) (w1\<lparr>mem := (mem w1)(rxdat := d)\<rparr>)) = Some (e, cfg', w')"
    by (auto simp: mt_rx_loop.simps [of dev x cfg] bind_eq_Some_conv Let_def cong: if_cong)
  from gb obtain v where v: "d = ucast v" and 1: "bus_step x [] [v] w w1" by (rule I2C_GetByte_step)
  have m1: "mem w1 = mem w" using 1 by (rule bus_step_mem)
  show ?case
  proof (cases "c = ?ok")
    case False
    with r have e: "e = Some c" "cfg' = cfg" "w' = w1" by simp_all
    show ?thesis unfolding e using lt 1
      by (intro exI [of _ "rx_count cfg"] exI [of _ "[v]"]) auto
  next
    case True
    let ?w1 = "w1\<lparr>mem := (mem w1)(rxdat := d)\<rparr>"
    have n: "n = unat (rx_length ?cfg - rx_count ?cfg)"
      using Suc.hyps(2) word_minus_Suc [OF lt] by simp
    have le: "rx_count ?cfg \<le> rx_length ?cfg" using lt by (simp add: inc_le)
    from True r have "mt_rx_loop dev x ?cfg (rxdat + 1) ?w1 = Some (e, cfg', w')" by simp
    from Suc.hyps(1) [OF n this le] obtain k ds where k: "rx_count cfg + 1 \<le> k" "k \<le> rx_length cfg"
      "cfg' = ?cfg\<lparr>rx_count := k\<rparr>" "e = None \<longleftrightarrow> k = rx_length cfg"
      "length ds = unat (k - (rx_count cfg + 1)) + (if e = None then 0 else 1)"
      and st: "bus_step x [] ds (?w1\<lparr>mem := store_bytes (mem ?w1) (rxdat + 1)
          (map ucast (take (unat (k - (rx_count cfg + 1))) ds))\<rparr>) w'"
      by auto
    have lk: "rx_count cfg < k"
      using k(1) by (simp add: word_less_nat_alt word_le_nat_alt unat_Suc_word [OF lt])
    have uk: "unat (k - rx_count cfg) = Suc (unat (k - (rx_count cfg + 1)))" by (rule word_minus_Suc [OF lk])
    let ?m = "store_bytes (mem w) rxdat (map ucast (take (unat (k - rx_count cfg)) (v # ds)))"
    from st have st': "bus_step x [] ds (w1\<lparr>mem := ?m\<rparr>) w'" by (simp add: uk m1 v)
    from bus_step_trans [OF bus_step_mem_cong [OF 1] st']
    have "bus_step x [] (v # ds) (w\<lparr>mem := ?m\<rparr>) w'" by simp
    moreover have "rx_count cfg \<le> k" using lk by simp
    ultimately show ?thesis using k(2-5) by (intro exI [of _ k] exI [of _ "v # ds"]) (auto simp: uk)
  qed
qed

lemma bytes_at_add: "bytes_at m a (n + r) = bytes_at m a n @ bytes_at m (a + of_nat n) r"
proof -
  have "[0..<n + r] = [0..<n] @ map (\<lambda>i. i + n) [0..<r]"
    by (simp add: map_add_upt upt_add_eq_append [of 0 n r] add.commute)
  then show ?thesis by (simp add: bytes_at_def comp_def add.commute add.left_commute)
qed

lemma bytes_at_prefix: "n \<le> N \<Longrightarrow> \<exists>r. bytes_at m a n @ r = bytes_at m a N"
  by (metis bytes_at_add le_add_diff_inverse)

lemma mt_tx_phase_step:
  assumes "mt_tx_phase dev x cfg w = Some (e, cfg', w')" and z: "tx_count cfg = 0"
  shows "\<exists>ev rest k. ev @ rest = (if tx_active cfg then tx_frame cfg (mem w) else [])
     \<and> cfg' = cfg\<lparr>tx_count := k\<rparr> \<and> k \<le> tx_length cfg
     \<and> (e = None \<longrightarrow> rest = [] \<and> k = (if tx_active cfg then tx_length cfg else 0))
     \<and> bus_step x ev [] w w'"
proof (cases "tx_active cfg")
  case False
  with assms have "e = None" "cfg' = cfg" "w' = w"
    by (auto simp: mt_tx_phase_def tx_active_def split: if_splits)
  with False z show ?thesis by (intro exI [of _ "[]"] exI [of _ 0]) (auto simp: bus_step_refl)
next
  case True
  from True assms(1) obtain c w1 where
    sb: "I2C_SendByte dev x (ucast (push_bit 1 (sl_addr7bit cfg))) w = Some (c, w1)"
    and r: "(if c \<noteq> I2C_I2STAT_SLAW_ACK then Some (Some (c OR I2C_SETUP_STATUS_NOACKF), cfg, w1)
       else mt_tx_loop dev x cfg (tx_data cfg) w1) = Some (e, cfg', w')"
    by (auto simp: mt_tx_phase_def tx_active_def bind_eq_Some_conv)
  have 1: "bus_step x [EvByte (sla_w (sl_addr7bit cfg))] [] w w1"
    unfolding sla_w_def by (rule I2C_SendByte_step [OF sb])
  have m1: "mem w1 = mem w" using 1 by (rule bus_step_mem)
  show ?thesis
  proof (cases "c = I2C_I2STAT_SLAW_ACK")
    case False
    with r have e: "e = Some (c OR I2C_SETUP_STATUS_NOACKF)" "cfg' = cfg" "w' = w1" by simp_all
    show ?thesis unfolding e using True 1 z
      by - (rule exI [of _ "[EvByte (sla_w (sl_addr7bit cfg))]"],
          rule exI [of _ "tl (tx_frame cfg (mem w))"], rule exI [of _ 0],
          auto simp: tx_frame_def)
  next
    case ack: True
    with r have "mt_tx_loop dev x cfg (tx_data cfg) w1 = Some (e, cfg', w')" by simp
    from mt_tx_loop_step [OF this] z obtain k where k: "k \<le> tx_length cfg" "cfg' = cfg\<lparr>tx_count := k\<rparr>"
      "e = None \<longleftrightarrow> k = tx_length cfg" and
      st: "bus_step x (map (\<lambda>b. EvByte (ucast b))
        (bytes_at (mem w) (tx_data cfg) (unat k + (if e = None then 0 else 1)))) [] w1 w'"
      by (auto simp: m1)
    let ?n = "unat k + (if e = None then 0 else 1)"
    have "?n \<le> unat (tx_length cfg)"
    proof (cases "e = None")
      case True with k(3) show ?thesis by simp
    next
      case False
      with k(1,3) have "k < tx_length cfg" by simp
      with False show ?thesis by (simp add: word_less_nat_alt)
    qed
    then obtain r where r: "bytes_at (mem w) (tx_data cfg) ?n @ r
        = bytes_at (mem w) (tx_data cfg) (unat (tx_length cfg))"
      using bytes_at_prefix by blast
    let ?ev = "EvByte (sla_w (sl_addr7bit cfg))
       # map (\<lambda>b. EvByte (ucast b)) (bytes_at (mem w) (tx_data cfg) ?n)"
    have "?ev @ map (\<lambda>b. EvByte (ucast b)) r = tx_frame cfg (mem w)"
      unfolding tx_frame_def r [symmetric] by simp
    moreover have "bus_step x ?ev [] w w'" using bus_step_trans [OF 1 st] by simp
    moreover have "e = None \<longrightarrow> r = []" using r k(3) by auto
    ultimately show ?thesis using True k
      by - (rule exI [of _ ?ev], rule exI [of _ "map (\<lambda>b. EvByte (ucast b)) r"], rule exI [of _ k], auto)
  qed
qed

lemma mt_rx_phase_step:
  assumes "mt_rx_phase dev x cfg w = Some (e, cfg', w')" and z: "rx_count cfg = 0"
  shows "\<exists>ev rest ds k. ev @ rest = (if rx_active cfg then [EvByte (sla_r (sl_addr7bit cfg))] else [])
     \<and> cfg' = cfg\<lparr>rx_count := k\<rparr> \<and> k \<le> rx_length cfg \<and> unat k \<le> length ds
     \<and> (\<not> rx_active cfg \<longrightarrow> k = 0)
     \<and> (e = None \<longrightarrow> rest = [] \<and> length ds = unat k \<and> k = (if rx_active cfg then rx_length cfg else 0))
     \<and> bus_step x ev ds (w\<lparr>mem := store_bytes (mem w) (rx_data cfg) (map ucast (take (unat k) ds))\<rparr>) w'"
proof (cases "rx_active cfg")
  case False
  with assms have "e = None" "cfg' = cfg" "w' = w"
    by (auto simp: mt_rx_phase_def rx_active_def split: if_splits)
  with False z show ?thesis
    by (intro exI [of _ "[]"] exI [of _ 0]) (auto simp: bus_step_refl)
next
  case True
  from True assms(1) obtain c w1 where
    sb: "I2C_SendByte dev x (ucast (push_bit 1 (sl_addr7bit cfg) OR 1)) w = Some (c, w1)"
    and r: "(if c \<noteq> I2C_I2STAT_SLAR_ACK then Some (Some (c OR I2C_SETUP_STATUS_NOACKF), cfg, w1)
       else mt_rx_loop dev x cfg (rx_data cfg) w1) = Some (e, cfg', w')"
    by (auto simp: mt_rx_phase_def rx_active_def bind_eq_Some_conv)
  let ?ev = "[EvByte (sla_r (sl_addr7bit cfg))]"
  have 1: "bus_step x ?ev [] w w1" unfolding sla_r_def by (rule I2C_SendByte_step [OF sb])
  have m1: "mem w1 = mem w" using 1 by (rule bus_step_mem)
  show ?thesis
  proof (cases "c = I2C_I2STAT_SLAR_ACK")
    case False
    with r have e: "e = Some (c OR I2C_SETUP_STATUS_NOACKF)" "cfg' = cfg" "w' = w1" by simp_all
    show ?thesis unfolding e using True 1 z
      by (intro exI [of _ ?ev] exI [of _ "[]"] exI [of _ 0]) auto
  next
    case ack: True
    with r have "mt_rx_loop dev x cfg (rx_data cfg) w1 = Some (e, cfg', w')" by simp
    from mt_rx_loop_step [OF this] z obtain k ds where k: "k \<le> rx_length cfg" "cfg' = cfg\<lparr>rx_count := k\<rparr>"
      "e = None \<longleftrightarrow> k = rx_length cfg" "length ds = unat k + (if e = None then 0 else 1)" and
      st: "bus_step x [] ds (w1\<lparr>mem := store_bytes (mem w) (rx_data cfg) (map ucast (take (unat k) ds))\<rparr>) w'"
      by (auto simp: m1)
    from bus_step_trans [OF bus_step_mem_cong [OF 1] st]
    show ?thesis using True k by (intro exI [of _ ?ev] exI [of _ "[]"] exI [of _ ds] exI [of _ k]) auto
  qed
qed

lemma mt_restart_phase_step:
  assumes "mt_restart_phase dev x cfg w = Some (e, cfg', w')"
  shows "cfg' = cfg" "bus_step x (if tx_active cfg \<and> rx_active cfg then [EvStart] else []) [] w w'"
  using assms
  by (auto simp: mt_restart_phase_def tx_active_def rx_active_def bind_eq_Some_conv bus_step_refl
      intro: I2C_Start_step split: if_splits)

text \<open>
  What one attempt may do: put a prefix \<open>ev\<close> of the frame on the bus (all of it when it succeeds),
  load \<open>ds\<close> from DAT and store \<open>l\<close> bytes of it in the receive buffer.
\<close>

definition attempt_spec ::
  "u32 \<Rightarrow> I2C_M_SETUP_Type \<Rightarrow> 'a world_scheme \<Rightarrow> u32 option \<Rightarrow> I2C_M_SETUP_Type \<Rightarrow> 'a world_scheme
   \<Rightarrow> bus_event list \<Rightarrow> bus_event list \<Rightarrow> u32 list \<Rightarrow> u32 \<Rightarrow> u32 \<Rightarrow> bool" where
  "attempt_spec x cfg w e cfg' w' ev rest ds k l \<longleftrightarrow>
     ev @ rest = master_frame cfg (mem w) \<and> ev \<noteq> []
     \<and> cfg' = cfg\<lparr>tx_count := k, rx_count := l\<rparr> \<and> k \<le> tx_length cfg \<and> l \<le> rx_length cfg
     \<and> unat l \<le> length ds \<and> (\<not> rx_active cfg \<longrightarrow> l = 0)
     \<and> (e = None \<longrightarrow> rest = [] \<and> length ds = unat l
         \<and> k = (if tx_active cfg then tx_length cfg else 0)
         \<and> l = (if rx_active cfg then rx_length cfg else 0))
     \<and> bus_step x ev ds (w\<lparr>mem := store_bytes (mem w) (rx_data cfg) (map ucast (take (unat l) ds))\<rparr>) w'"

lemma attempt_spec_no_rx:
  assumes "ev @ rest = master_frame cfg (mem w)" "ev \<noteq> []" "cfg' = cfg\<lparr>tx_count := k, rx_count := 0\<rparr>"
    "k \<le> tx_length cfg" "bus_step x ev [] w w'" "e \<noteq> None"
  shows "attempt_spec x cfg w e cfg' w' ev rest [] k 0"
  using assms by (auto simp: attempt_spec_def)

lemma mt_attempt_step:
  assumes "mt_attempt dev x cfg w = Some (e, cfg', w')"
  obtains ev rest ds k l where "attempt_spec x cfg w e cfg' w' ev rest ds k l"
proof -
  let ?c0 = "cfg\<lparr>tx_count := 0, rx_count := 0\<rparr>"
  let ?tf = "if tx_active cfg then tx_frame cfg (mem w) else []"
  let ?sf = "if tx_active cfg \<and> rx_active cfg then [EvStart] else []"
  let ?rf = "if rx_active cfg then [EvByte (sla_r (sl_addr7bit cfg))] else []"
  have fr: "master_frame cfg (mem w) = EvStart # ?tf @ ?sf @ ?rf" by (simp add: master_frame_def)
  from assms obtain c w1 where s: "I2C_Start dev x w = Some (c, w1)"
    and r1: "(if c \<noteq> I2C_I2STAT_START \<and> c \<noteq> I2C_I2STAT_RESTART then Some (Some c, ?c0, w1)
       else do { (e, cfg, w) \<leftarrow> mt_tx_phase dev x ?c0 w1;
         if e \<noteq> None then Some (e, cfg, w)
         else do { (e, cfg, w) \<leftarrow> mt_restart_phase dev x cfg w;
           if e \<noteq> None then Some (e, cfg, w) else mt_rx_phase dev x cfg w } }) = Some (e, cfg', w')"
    by (cases "I2C_Start dev x w") (auto simp: mt_attempt_def Let_def)
  have b1: "bus_step x [EvStart] [] w w1" by (rule I2C_Start_step [OF s])
  have m1: "mem w1 = mem w" using b1 by (rule bus_step_mem)
  show thesis
  proof (cases "c \<noteq> I2C_I2STAT_START \<and> c \<noteq> I2C_I2STAT_RESTART")
    case True
    with r1 have "e = Some c" "cfg' = ?c0" "w' = w1" by simp_all
    with b1 show thesis by (intro that [OF attempt_spec_no_rx [of "[EvStart]" "?tf @ ?sf @ ?rf" cfg w _ 0]]) (simp_all add: fr)
  next
    case False
    with r1 obtain e2 c2 w2 where t: "mt_tx_phase dev x ?c0 w1 = Some (e2, c2, w2)"
      and r2: "(if e2 \<noteq> None then Some (e2, c2, w2)
         else do { (e, cfg, w) \<leftarrow> mt_restart_phase dev x c2 w2;
           if e \<noteq> None then Some (e, cfg, w) else mt_rx_phase dev x cfg w }) = Some (e, cfg', w')"
      by (cases "mt_tx_phase dev x ?c0 w1") auto
    from mt_tx_phase_step [OF t, unfolded m1] obtain ev2 rest2 k where tx: "ev2 @ rest2 = ?tf"
      "c2 = cfg\<lparr>rx_count := 0, tx_count := k\<rparr>" "k \<le> tx_length cfg"
      "e2 = None \<longrightarrow> rest2 = [] \<and> k = (if tx_active cfg then tx_length cfg else 0)"
      and b2: "bus_step x ev2 [] w1 w2" by (auto cong: if_cong)
    have b12: "bus_step x (EvStart # ev2) [] w w2" using bus_step_trans [OF b1 b2] by simp
    show thesis
    proof (cases e2)
      case (Some c')
      with r2 have "e = Some c'" "cfg' = c2" "w' = w2" by simp_all
      with b12 tx show thesis
        by (intro that [OF attempt_spec_no_rx [of "EvStart # ev2" "rest2 @ ?sf @ ?rf" cfg w _ k]]) (simp_all add: fr)
    next
      case None
      with r2 obtain e3 c3 w3 where rs: "mt_restart_phase dev x c2 w2 = Some (e3, c3, w3)"
        and r3: "(if e3 \<noteq> None then Some (e3, c3, w3) else mt_rx_phase dev x c3 w3) = Some (e, cfg', w')"
        by (cases "mt_restart_phase dev x c2 w2") auto
      from mt_restart_phase_step [OF rs] tx(2) have c3: "c3 = c2" and b3: "bus_step x ?sf [] w2 w3" by simp_all
      from tx None have ev2: "ev2 = ?tf" and k: "k = (if tx_active cfg then tx_length cfg else 0)" by simp_all
      have b123: "bus_step x (EvStart # ?tf @ ?sf) [] w w3" using bus_step_trans [OF b12 b3] ev2 by simp
      have m3: "mem w3 = mem w" using b123 by (rule bus_step_mem)
      show thesis
      proof (cases e3)
        case (Some c')
        with r3 have "e = Some c'" "cfg' = c2" "w' = w3" using c3 by simp_all
        with b123 tx k show thesis
          by (intro that [OF attempt_spec_no_rx [of "EvStart # ?tf @ ?sf" ?rf cfg w _ k]]) (simp_all add: fr)
      next
        case None
        with r3 c3 have "mt_rx_phase dev x c2 w3 = Some (e, cfg', w')" by simp
        from mt_rx_phase_step [OF this] tx(2) obtain ev4 rest4 ds l where rx: "ev4 @ rest4 = ?rf"
          "cfg' = c2\<lparr>rx_count := l\<rparr>" "l \<le> rx_length cfg" "unat l \<le> length ds" "\<not> rx_active cfg \<longrightarrow> l = 0"
          "e = None \<longrightarrow> rest4 = [] \<and> length ds = unat l \<and> l = (if rx_active cfg then rx_length cfg else 0)"
          and b4: "bus_step x ev4 ds (w3\<lparr>mem := store_bytes (mem w3) (rx_data cfg) (map ucast (take (unat l) ds))\<rparr>) w'"
          by (auto cong: if_cong)
        let ?m = "store_bytes (mem w) (rx_data cfg) (map ucast (take (unat l) ds))"
        have "bus_step x ((EvStart # ?tf @ ?sf) @ ev4) ds (w\<lparr>mem := ?m\<rparr>) w'"
          using bus_step_trans [OF bus_step_mem_cong [OF b123] b4 [unfolded m3]] by simp
        then have "attempt_spec x cfg w e cfg' w' ((EvStart # ?tf @ ?sf) @ ev4) rest4 ds k l"
          using rx tx k by (auto simp: attempt_spec_def fr)
        then show thesis by (rule that)
      qed
    qed
  qed
qed

section \<open>The retry loop\<close>

definition rx_region :: "I2C_M_SETUP_Type \<Rightarrow> u32 set" where
  "rx_region c = (if rx_active c then (\<lambda>i. rx_data c + of_nat i) ` {..<unat (rx_length c)} else {})"

definition tx_region :: "I2C_M_SETUP_Type \<Rightarrow> u32 set" where
  "tx_region c = (if tx_active c then (\<lambda>i. tx_data c + of_nat i) ` {..<unat (tx_length c)} else {})"

lemma region_upd [simp]:
  "rx_region (c\<lparr>tx_count := k\<rparr>) = rx_region c" "rx_region (c\<lparr>rx_count := k\<rparr>) = rx_region c"
  "rx_region (c\<lparr>retransmissions_count := k\<rparr>) = rx_region c" "rx_region (c\<lparr>status := k\<rparr>) = rx_region c"
  by (simp_all add: rx_region_def)

lemma store_bytes_outside:
  "a \<notin> (\<lambda>i. p + of_nat i) ` {..<length bs} \<Longrightarrow> store_bytes m p bs a = m a"
proof (induction bs arbitrary: m p)
  case Nil
  then show ?case by simp
next
  case (Cons b bs)
  have "a \<notin> (\<lambda>i. (p + 1) + of_nat i) ` {..<length bs}"
  proof
    assume "a \<in> (\<lambda>i. (p + 1) + of_nat i) ` {..<length bs}"
    then obtain i where "i < length bs" "a = p + of_nat (Suc i)" by (auto simp: add.assoc)
    then have "a \<in> (\<lambda>i. p + of_nat i) ` {..<length (b # bs)}" by (intro image_eqI [of _ _ "Suc i"]) auto
    with Cons.prems show False by simp
  qed
  moreover have "a \<noteq> p" using Cons.prems by (force simp: image_iff)
  ultimately show ?case using Cons.IH by simp
qed

lemma of_nat_u32_neq_0: "0 < i \<Longrightarrow> i < 2 ^ 32 \<Longrightarrow> (of_nat i :: u32) \<noteq> 0"
  by (auto simp: word_of_nat_eq_0_iff dest: dvd_imp_le)

lemma bytes_at_store_bytes:
  assumes "length bs \<le> 2 ^ 32"
  shows "bytes_at (store_bytes m p bs) p (length bs) = bs"
  using assms
proof (induction bs arbitrary: m p)
  case Nil
  then show ?case by simp
next
  case (Cons b bs)
  have "p \<notin> (\<lambda>i. (p + 1) + of_nat i) ` {..<length bs}"
  proof
    assume "p \<in> (\<lambda>i. (p + 1) + of_nat i) ` {..<length bs}"
    then obtain i where i: "i < length bs" "p = (p + 1) + of_nat i" by auto
    have "(of_nat (Suc i) :: u32) \<noteq> 0"
      using i(1) Cons.prems by (intro of_nat_u32_neq_0) auto
    moreover have "(of_nat (Suc i) :: u32) = 0" using i(2) by (simp add: add.assoc)
    ultimately show False by blast
  qed
  then have "store_bytes (m(p := b)) (p + 1) bs p = b" by (simp add: store_bytes_outside)
  with Cons show ?case by (simp add: bytes_at_Suc)
qed

lemma attempt_mem:
  assumes "attempt_spec x cfg w e cfg' w' ev rest ds k l" "a \<notin> rx_region cfg"
  shows "mem w' a = mem w a"
proof -
  let ?bs = "map ucast (take (unat l) ds) :: u8 list"
  from assms(1) have "mem w' = mem (w\<lparr>mem := store_bytes (mem w) (rx_data cfg) ?bs\<rparr>)"
    unfolding attempt_spec_def by (blast dest: bus_step_mem)
  moreover have "a \<notin> (\<lambda>i. rx_data cfg + of_nat i) ` {..<length ?bs}"
  proof (cases "rx_active cfg")
    case True
    have "length ?bs \<le> unat (rx_length cfg)"
      using assms(1) by (simp add: attempt_spec_def word_le_nat_alt)
    with assms(2) True show ?thesis by (force simp: rx_region_def)
  next
    case False
    with assms(1) show ?thesis by (simp add: attempt_spec_def)
  qed
  ultimately show ?thesis by (simp add: store_bytes_outside)
qed

lemma master_frame_cong:
  assumes "tx_region cfg \<inter> rx_region cfg = {}" "\<And>a. a \<notin> rx_region cfg \<Longrightarrow> m' a = m a"
  shows "master_frame cfg m' = master_frame cfg m"
proof -
  have "bytes_at m' (tx_data cfg) (unat (tx_length cfg)) = bytes_at m (tx_data cfg) (unat (tx_length cfg))"
    if "tx_active cfg"
    using assms that by (intro bytes_at_cong) (force simp: tx_region_def)
  then show ?thesis by (simp add: master_frame_def tx_frame_def)
qed

text \<open>
  What the retry loop may do: \<open>length fs\<close> failed attempts, each a non-empty prefix of the frame,
  then the last attempt \<open>ev\<close>, then STOP. The retransmission count says how many attempts failed.
\<close>

definition retry_result ::
  "I2C_M_SETUP_Type \<Rightarrow> Status \<Rightarrow> I2C_M_SETUP_Type \<Rightarrow> bus_event list list \<Rightarrow> bus_event list \<Rightarrow> u32 list
   \<Rightarrow> u32 \<Rightarrow> u32 \<Rightarrow> (u32 \<Rightarrow> u8) \<Rightarrow> u32 \<Rightarrow> bool" where
  "retry_result cfg st cfg' fs ev ds k l m c \<longleftrightarrow> (case st of
          SUCCESS \<Rightarrow> ev = master_frame cfg m \<and> k = (if tx_active cfg then tx_length cfg else 0)
            \<and> l = (if rx_active cfg then rx_length cfg else 0) \<and> length ds = unat l
            \<and> c = retransmissions_count cfg + of_nat (length fs)
            \<and> cfg' = cfg\<lparr>tx_count := k, rx_count := l, retransmissions_count := c\<rparr>
        | ERROR \<Rightarrow> ev \<noteq> [] \<and> (\<exists>r. ev @ r = master_frame cfg m) \<and> k \<le> tx_length cfg \<and> l \<le> rx_length cfg
            \<and> (\<not> rx_active cfg \<longrightarrow> l = 0)
            \<and> c = retransmissions_count cfg + of_nat (length fs) + 1 \<and> retransmissions_max cfg < c
            \<and> (retransmissions_count cfg \<le> retransmissions_max cfg \<longrightarrow> c = retransmissions_max cfg + 1)
            \<and> (\<exists>s. cfg' = cfg\<lparr>tx_count := k, rx_count := l, retransmissions_count := c, status := s\<rparr>))"

definition retry_spec ::
  "u32 \<Rightarrow> I2C_M_SETUP_Type \<Rightarrow> 'a world_scheme \<Rightarrow> Status \<Rightarrow> I2C_M_SETUP_Type \<Rightarrow> 'a world_scheme \<Rightarrow> bool" where
  "retry_spec x cfg w st cfg' w' \<longleftrightarrow> (\<exists>fs ev dp ds k l m c.
     (\<forall>f \<in> set fs. f \<noteq> [] \<and> (\<exists>r m. f @ r = master_frame cfg m))
     \<and> (\<forall>a. a \<notin> rx_region cfg \<longrightarrow> m a = mem w a)
     \<and> w'\<lparr>tr := tr w, mem := mem w\<rparr> = w
     \<and> mem w' = store_bytes m (rx_data cfg) (map ucast (take (unat l) ds))
     \<and> bus_log x (tr w') = bus_log x (tr w) @ concat fs @ ev @ [EvStop]
     \<and> dat_reads x (tr w') = dat_reads x (tr w) @ dp @ ds
     \<and> retry_result cfg st cfg' fs ev ds k l m c)"

lemma attempt_log:
  assumes "attempt_spec x cfg w e cfg' w' ev rest ds k l"
  shows "bus_log x (tr w') = bus_log x (tr w) @ ev" "dat_reads x (tr w') = dat_reads x (tr w) @ ds"
    "w'\<lparr>tr := tr w, mem := mem w\<rparr> = w"
    "mem w' = store_bytes (mem w) (rx_data cfg) (map ucast (take (unat l) ds))"
proof -
  let ?m = "store_bytes (mem w) (rx_data cfg) (map ucast (take (unat l) ds))"
  from assms have b: "bus_step x ev ds (w\<lparr>mem := ?m\<rparr>) w'" by (simp add: attempt_spec_def)
  then show "bus_log x (tr w') = bus_log x (tr w) @ ev" "dat_reads x (tr w') = dat_reads x (tr w) @ ds"
    by (simp_all add: bus_step_def)
  from bus_step_mem [OF b] show "mem w' = ?m" by simp
  from b have "w' = w\<lparr>mem := ?m, tr := tr w'\<rparr>" by (simp add: bus_step_def)
  then show "w'\<lparr>tr := tr w, mem := mem w\<rparr> = w" by (rule ssubst) simp
qed

lemma I2C_Stop_fields:
  "(I2C_Stop dev x w)\<lparr>tr := t\<rparr> = w\<lparr>tr := t\<rparr>" "mem (I2C_Stop dev x w) = mem w"
  "bus_log x (tr (I2C_Stop dev x w)) = bus_log x (tr w) @ [EvStop]"
  "dat_reads x (tr (I2C_Stop dev x w)) = dat_reads x (tr w)"
  by (simp_all add: I2C_Stop_def rd_def Let_def wr_def bus_log_simps)

lemma count_last:
  fixes c m :: u32
  assumes "c \<le> m" "m < c + 1"
  shows "c = m"
proof -
  have "unat (c + 1) \<le> unat c + 1" by (simp add: unat_word_ariths)
  with assms show ?thesis by (simp add: word_le_nat_alt word_less_nat_alt word_unat_eq_iff)
qed

lemma retry_spec_last:
  assumes a: "attempt_spec x cfg w e cfg1 w1 ev rest ds k l" and w': "w' = I2C_Stop dev x w1"
  shows "e = None \<Longrightarrow> retry_spec x cfg w SUCCESS cfg1 w'"
    and "e = Some st \<Longrightarrow> retransmissions_max cfg < retransmissions_count cfg + 1 \<Longrightarrow>
      retry_spec x cfg w ERROR (cfg1\<lparr>retransmissions_count := retransmissions_count cfg + 1, status := st\<rparr>) w'"
proof -
  note log = attempt_log [OF a]
  have w1: "w'\<lparr>tr := tr w, mem := mem w\<rparr> = w"
    "mem w' = store_bytes (mem w) (rx_data cfg) (map ucast (take (unat l) ds))"
    using log(3,4) by (simp_all add: w' I2C_Stop_fields)
  have lg: "bus_log x (tr w') = bus_log x (tr w) @ concat [] @ ev @ [EvStop]"
    "dat_reads x (tr w') = dat_reads x (tr w) @ [] @ ds"
    using log(1,2) by (simp_all add: w' I2C_Stop_fields)
  show "retry_spec x cfg w SUCCESS cfg1 w'" if "e = None"
    unfolding retry_spec_def
    by (rule exI [of _ "[]"], rule exI [of _ ev], rule exI [of _ "[]"], rule exI [of _ ds], rule exI [of _ k],
        rule exI [of _ l], rule exI [of _ "mem w"], rule exI [of _ "retransmissions_count cfg"])
      (use a that w1 lg in \<open>auto simp: attempt_spec_def retry_result_def\<close>)
  show "retry_spec x cfg w ERROR (cfg1\<lparr>retransmissions_count := retransmissions_count cfg + 1, status := st\<rparr>) w'"
    if "e = Some st" "retransmissions_max cfg < retransmissions_count cfg + 1"
    unfolding retry_spec_def
    by (rule exI [of _ "[]"], rule exI [of _ ev], rule exI [of _ "[]"], rule exI [of _ ds], rule exI [of _ k],
        rule exI [of _ l], rule exI [of _ "mem w"], rule exI [of _ "retransmissions_count cfg + 1"])
      (use a that w1 lg in \<open>auto simp: attempt_spec_def retry_result_def dest: count_last\<close>)
qed

lemma retry_spec_again:
  assumes a: "attempt_spec x cfg w e cfg1 w1 ev rest ds k l"
    and r: "retry_spec x (cfg1\<lparr>retransmissions_count := retransmissions_count cfg + 1\<rparr>) w1 st cfg' w'"
    and le: "retransmissions_count cfg + 1 \<le> retransmissions_max cfg"
  shows "retry_spec x cfg w st cfg' w'"
proof -
  note log = attempt_log [OF a]
  from a have c1: "cfg1 = cfg\<lparr>tx_count := k, rx_count := l\<rparr>" and ev: "ev \<noteq> []" "ev @ rest = master_frame cfg (mem w)"
    by (simp_all add: attempt_spec_def)
  let ?c1 = "cfg1\<lparr>retransmissions_count := retransmissions_count cfg + 1\<rparr>"
  have same: "master_frame ?c1 = master_frame cfg" "rx_region ?c1 = rx_region cfg" "rx_data ?c1 = rx_data cfg"
    by (simp_all add: c1 fun_eq_iff)
  from r [unfolded retry_spec_def same] obtain fs ev' dp ds' k' l' m c where
    fs: "\<forall>f \<in> set fs. f \<noteq> [] \<and> (\<exists>r m. f @ r = master_frame cfg m)"
    and m: "\<forall>a. a \<notin> rx_region cfg \<longrightarrow> m a = mem w1 a"
    and w': "w'\<lparr>tr := tr w1, mem := mem w1\<rparr> = w1"
    and mw': "mem w' = store_bytes m (rx_data cfg) (map ucast (take (unat l') ds'))"
    and lg: "bus_log x (tr w') = bus_log x (tr w1) @ concat fs @ ev' @ [EvStop]"
      "dat_reads x (tr w') = dat_reads x (tr w1) @ dp @ ds'"
    and res: "retry_result ?c1 st cfg' fs ev' ds' k' l' m c"
    by (elim exE conjE) (rule that; assumption)
  have m0: "\<forall>a. a \<notin> rx_region cfg \<longrightarrow> m a = mem w a" using m attempt_mem [OF a] by simp
  have f0: "\<forall>f \<in> set (ev # fs). f \<noteq> [] \<and> (\<exists>r m. f @ r = master_frame cfg m)" using fs ev by auto
  have w0: "w'\<lparr>tr := tr w, mem := mem w\<rparr> = w"
    using log(3) w' by (metis world.update_convs(1,2) world.surjective)
  have l0: "bus_log x (tr w') = bus_log x (tr w) @ concat (ev # fs) @ ev' @ [EvStop]"
    "dat_reads x (tr w') = dat_reads x (tr w) @ (ds @ dp) @ ds'"
    using lg log(1,2) by simp_all
  have "retry_result cfg st cfg' (ev # fs) ev' ds' k' l' m c"
    using res le by (cases st) (auto simp: retry_result_def c1 add.assoc cong: if_cong)
  then show ?thesis unfolding retry_spec_def using f0 m0 w0 mw' l0 by blast
qed

lemmas mt_retry_induct = mt_retry.raw_induct [of P "(((dev, x), cfg), w)" for P dev x cfg w, unfolded prod.case]

lemma mt_retry_step:
  assumes "mt_retry dev x cfg w = Some (st, cfg', w')"
  shows "retry_spec x cfg w st cfg' w'"
proof -
  have "case (st, cfg', w') of (st, cfg', w') \<Rightarrow> retry_spec x cfg w st cfg' w'"
  proof (rule mt_retry_induct [where P = "\<lambda>dev x cfg w r. case r of (st, cfg', w') \<Rightarrow> retry_spec x cfg w st cfg' w'", OF _ assms])
    fix f dev x cfg and w :: "'a world_scheme" and r
    assume IH: "\<And>dev x cfg (w :: 'a world_scheme) r. f dev x cfg w = Some r \<Longrightarrow>
        case r of (st, cfg', w') \<Rightarrow> retry_spec x cfg w st cfg' w'"
      and eq: "Option.bind (mt_attempt dev x cfg w) (\<lambda>r.
        case fst r of
          None \<Rightarrow> Some (SUCCESS, fst (snd r), I2C_Stop dev x (snd (snd r)))
        | Some st \<Rightarrow>
            (let cfg = (fst (snd r))\<lparr>retransmissions_count := retransmissions_count (fst (snd r)) + 1\<rparr>
             in if retransmissions_max cfg < retransmissions_count cfg
                then Some (ERROR, cfg\<lparr>status := st\<rparr>, I2C_Stop dev x (snd (snd r)))
                else f dev x cfg (snd (snd r)))) = Some r"
    from eq obtain e cfg1 w1 where at: "mt_attempt dev x cfg w = Some (e, cfg1, w1)"
      by (cases "mt_attempt dev x cfg w") auto
    from mt_attempt_step [OF at] obtain ev rest ds k l where
      a: "attempt_spec x cfg w e cfg1 w1 ev rest ds k l" by blast
    then have c1: "retransmissions_count cfg1 = retransmissions_count cfg"
      "retransmissions_max cfg1 = retransmissions_max cfg" by (simp_all add: attempt_spec_def)
    show "case r of (st, cfg', w') \<Rightarrow> retry_spec x cfg w st cfg' w'"
    proof (cases e)
      case None
      with eq at have "r = (SUCCESS, cfg1, I2C_Stop dev x w1)" by simp
      with retry_spec_last(1) [OF a refl None] show ?thesis by simp
    next
      case (Some s)
      let ?cfg1 = "cfg1\<lparr>retransmissions_count := retransmissions_count cfg + 1\<rparr>"
      show ?thesis
      proof (cases "retransmissions_max cfg < retransmissions_count cfg + 1")
        case True
        with eq at Some c1 have "r = (ERROR, ?cfg1\<lparr>status := s\<rparr>, I2C_Stop dev x w1)" by (simp add: Let_def)
        with retry_spec_last(2) [OF a refl Some True] show ?thesis by simp
      next
        case False
        with eq at Some c1 have "f dev x ?cfg1 w1 = Some r" by (simp add: Let_def)
        from IH [OF this] False show ?thesis by (auto intro: retry_spec_again [OF a])
      qed
    qed
  qed
  then show ?thesis by simp
qed

section \<open>Termination\<close>

text \<open>
  \<open>polls dev a n t\<close> is the history after \<open>n\<close> loads of \<open>a\<close>. The controller is live when from
  every history SI is set after finitely many polls of CONSET: on the chip SI reports the end of
  every START, byte or arbitration loss.
\<close>

fun polls :: "device \<Rightarrow> u32 \<Rightarrow> nat \<Rightarrow> access list \<Rightarrow> access list" where
  "polls dev a 0 t = t"
| "polls dev a (Suc n) t = polls dev a n (Rd a (dev t a) # t)"

definition si_live :: "device \<Rightarrow> u32 \<Rightarrow> bool" where
  "si_live dev x \<longleftrightarrow> (\<forall>t. \<exists>n. dev (polls dev (CONSET x) n t) (CONSET x) AND I2C_SI \<noteq> 0)"

lemma wait_SI_returns:
  assumes "si_live dev x"
  shows "\<exists>w'. wait_SI dev x w = Some w'"
proof -
  obtain n where "dev (polls dev (CONSET x) n (tr w)) (CONSET x) AND I2C_SI \<noteq> 0"
    using assms by (auto simp: si_live_def)
  then show ?thesis
  proof (induction n arbitrary: w)
    case 0
    then show ?case by (simp add: wait_SI.simps [of dev x w] Let_def)
  next
    case (Suc n)
    from Suc.IH [of "snd (rd dev (CONSET x) w)"] Suc.prems
    show ?case by (auto simp: wait_SI.simps [of dev x w] Let_def)
  qed
qed

lemma primitives_return:
  assumes "si_live dev x"
  shows "\<exists>r. I2C_Start dev x w = Some r" "\<exists>r. I2C_SendByte dev x b w = Some r"
    "\<exists>r. I2C_GetByte dev x a w = Some r"
  using wait_SI_returns [OF assms]
  by (auto simp: I2C_Start_def I2C_SendByte_def I2C_GetByte_def Let_def case_prod_beta bind_eq_Some_conv)

lemma mt_tx_loop_returns:
  assumes "si_live dev x"
  shows "\<exists>r. mt_tx_loop dev x cfg a w = Some r"
proof (induction "unat (tx_length cfg - tx_count cfg)" arbitrary: cfg a w rule: less_induct)
  case less
  show ?case
  proof (cases "tx_count cfg < tx_length cfg")
    case True
    obtain c w1 where sb: "I2C_SendByte dev x (mem w a) w = Some (c, w1)"
      using primitives_return(2) [OF assms] by fastforce
    from less [of "cfg\<lparr>tx_count := tx_count cfg + 1\<rparr>" "a + 1" w1] word_minus_Suc [OF True]
    show ?thesis by (auto simp: mt_tx_loop.simps [of dev x cfg] sb True)
  next
    case False
    then show ?thesis by (simp add: mt_tx_loop.simps [of dev x cfg])
  qed
qed

lemma mt_rx_loop_returns:
  assumes "si_live dev x"
  shows "\<exists>r. mt_rx_loop dev x cfg a w = Some r"
proof (induction "unat (rx_length cfg - rx_count cfg)" arbitrary: cfg a w rule: less_induct)
  case less
  show ?case
  proof (cases "rx_count cfg < rx_length cfg")
    case True
    obtain d c w1 where gb: "I2C_GetByte dev x (rx_count cfg < rx_length cfg - 1) w = Some (d, c, w1)"
      using primitives_return(3) [OF assms] by (metis prod_cases3)
    from less [of "cfg\<lparr>rx_count := rx_count cfg + 1\<rparr>" "a + 1" "w1\<lparr>mem := (mem w1)(a := d)\<rparr>"] word_minus_Suc [OF True]
    show ?thesis by (auto simp: mt_rx_loop.simps [of dev x cfg] gb True Let_def)
  next
    case False
    then show ?thesis by (simp add: mt_rx_loop.simps [of dev x cfg])
  qed
qed

lemma mt_phases_return:
  assumes "si_live dev x"
  shows "\<exists>r. mt_tx_phase dev x cfg w = Some r" "\<exists>r. mt_restart_phase dev x cfg w = Some r"
    "\<exists>r. mt_rx_phase dev x cfg w = Some r"
proof -
  note ret = primitives_return [OF assms] mt_tx_loop_returns [OF assms] mt_rx_loop_returns [OF assms]
  show "\<exists>r. mt_tx_phase dev x cfg w = Some r"
    using ret(2) [of "ucast (push_bit 1 (sl_addr7bit cfg))" w] ret(4) by (auto simp: mt_tx_phase_def)
  show "\<exists>r. mt_restart_phase dev x cfg w = Some r"
    using ret(1) [of w] by (auto simp: mt_restart_phase_def)
  show "\<exists>r. mt_rx_phase dev x cfg w = Some r"
    using ret(2) [of "ucast (push_bit 1 (sl_addr7bit cfg) OR 1)" w] ret(5) by (auto simp: mt_rx_phase_def)
qed

lemma mt_attempt_returns:
  assumes "si_live dev x"
  shows "\<exists>e cfg' w'. mt_attempt dev x cfg w = Some (e, cfg', w')"
proof -
  let ?c = "cfg\<lparr>tx_count := 0, rx_count := 0\<rparr>"
  note ret = mt_phases_return [OF assms]
  obtain c w1 where s: "I2C_Start dev x w = Some (c, w1)" using primitives_return(1) [OF assms] by fastforce
  obtain e2 c2 w2 where t: "mt_tx_phase dev x ?c w1 = Some (e2, c2, w2)" using ret(1) by (metis prod_cases3)
  obtain e3 c3 w3 where r: "mt_restart_phase dev x c2 w2 = Some (e3, c3, w3)" using ret(2) by (metis prod_cases3)
  obtain e4 c4 w4 where "mt_rx_phase dev x c3 w3 = Some (e4, c4, w4)" using ret(3) by (metis prod_cases3)
  with s t r show ?thesis by (simp add: mt_attempt_def Let_def)
qed

lemma mt_retry_returns:
  assumes "si_live dev x" "retransmissions_count cfg \<le> retransmissions_max cfg" "retransmissions_max cfg \<noteq> - 1"
  shows "\<exists>st cfg' w'. mt_retry dev x cfg w = Some (st, cfg', w')"
  using assms(2,3)
proof (induction "unat (retransmissions_max cfg - retransmissions_count cfg)" arbitrary: cfg w rule: less_induct)
  case less
  from mt_attempt_returns [OF assms(1)] obtain e cfg1 w1 where at: "mt_attempt dev x cfg w = Some (e, cfg1, w1)" by blast
  from mt_attempt_step [OF at] obtain ev rest ds k l where "attempt_spec x cfg w e cfg1 w1 ev rest ds k l" by blast
  then have c1: "retransmissions_count cfg1 = retransmissions_count cfg"
    "retransmissions_max cfg1 = retransmissions_max cfg" by (simp_all add: attempt_spec_def)
  show ?case
  proof (cases "e = None \<or> retransmissions_max cfg < retransmissions_count cfg + 1")
    case True
    with at c1 show ?thesis by (cases e) (simp_all add: mt_retry.simps [of dev x cfg] Let_def)
  next
    case False
    let ?cfg = "cfg1\<lparr>retransmissions_count := retransmissions_count cfg + 1\<rparr>"
    have "retransmissions_count cfg < retransmissions_max cfg"
    proof (rule ccontr)
      assume "\<not> ?thesis"
      with less.prems(1) have eq: "retransmissions_count cfg = retransmissions_max cfg" by simp
      then have "retransmissions_max cfg + 1 \<le> retransmissions_max cfg" using False by (simp add: not_less)
      with less.prems(2) show False by (simp add: inc_less_eq_self_iff_eq)
    qed
    note lt = this
    have "unat (retransmissions_max ?cfg - retransmissions_count ?cfg)
        < unat (retransmissions_max cfg - retransmissions_count cfg)"
      using word_minus_Suc [OF lt] c1 by simp
    from less.hyps [OF this] False less.prems(2) c1 obtain st cfg' w' where
      "mt_retry dev x ?cfg w1 = Some (st, cfg', w')" by fastforce
    with at False c1 show ?thesis by (cases e) (auto simp: mt_retry.simps [of dev x cfg] Let_def)
  qed
qed

section \<open>The properties of \<open>I2C_MasterTransferData\<close>\<close>

lemma mtd_polling_cases:
  assumes "I2C_MasterTransferData dev i p I2C_TRANSFER_POLLING s = Some (st, s')"
  obtains cfg' w' where
    "retry_spec (I2C_GetPointer i)
       ((msetup s p)\<lparr>tx_count := 0, rx_count := 0, status := 0, retransmissions_count := 0\<rparr>) s st cfg' w'"
    "s' = w'\<lparr>msetup := (msetup w')(p := cfg')\<rparr>"
  using assms
  by (auto simp: I2C_MasterTransferData_def Let_def bind_eq_Some_conv dest: mt_retry_step)

text \<open>
  The frame a successful polling transfer puts on the bus, for every device. \<open>fs\<close> are the attempts
  that failed before: each a non-empty prefix of a frame of this transfer.
\<close>

text \<open>
  C1. When the polling master transfer reports SUCCESS, for whatever device answered: the last
  thing on the bus is exactly one frame, that is START, the slave address with the write bit and every
  byte of the transmit buffer (when there is one), a repeated START when both directions are used,
  the address with the read bit (when there is something to receive), and then STOP; what precedes it
  are prefixes of that frame from failed attempts, as many as the retransmission count; the receive
  buffer holds exactly the last bytes loaded from the data register; both counters equal the
  requested lengths, the status is 0, and memory outside the receive buffer is unchanged.
\<close>

theorem master_transfer_success:
  assumes ok: "I2C_MasterTransferData dev i p I2C_TRANSFER_POLLING s = Some (SUCCESS, s')"
    and disj: "tx_region (msetup s p) \<inter> rx_region (msetup s p) = {}"
  shows "let c = msetup s p; x = I2C_GetPointer i in \<exists>fs dp ds.
      bus_log x (tr s') = bus_log x (tr s) @ concat fs @ master_frame c (mem s) @ [EvStop]
    \<and> (\<forall>f \<in> set fs. f \<noteq> [] \<and> (\<exists>r m. f @ r = master_frame c m))
    \<and> retransmissions_count (msetup s' p) = of_nat (length fs)
    \<and> dat_reads x (tr s') = dat_reads x (tr s) @ dp @ ds
    \<and> length ds = (if rx_active c then unat (rx_length c) else 0)
    \<and> bytes_at (mem s') (rx_data c) (length ds) = map ucast ds
    \<and> (\<forall>a. a \<notin> rx_region c \<longrightarrow> mem s' a = mem s a)
    \<and> tx_count (msetup s' p) = (if tx_active c then tx_length c else 0)
    \<and> rx_count (msetup s' p) = (if rx_active c then rx_length c else 0)
    \<and> status (msetup s' p) = 0"
proof -
  define c x where "c = msetup s p" and "x = I2C_GetPointer i"
  note cx = this
  let ?c = "c\<lparr>tx_count := 0, rx_count := 0, status := 0, retransmissions_count := 0\<rparr>"
  from ok obtain cfg' w' where r: "retry_spec x ?c s SUCCESS cfg' w'"
    and s': "s' = w'\<lparr>msetup := (msetup w')(p := cfg')\<rparr>"
    unfolding cx by (rule mtd_polling_cases)
  have same: "master_frame ?c = master_frame c" "rx_region ?c = rx_region c" "rx_data ?c = rx_data c"
    by (simp_all add: fun_eq_iff)
  from r [unfolded retry_spec_def same] obtain fs ev dp ds k l m rc where
    fs: "\<forall>f \<in> set fs. f \<noteq> [] \<and> (\<exists>r m. f @ r = master_frame c m)"
    and ag: "\<forall>a. a \<notin> rx_region c \<longrightarrow> m a = mem s a"
    and mw: "mem w' = store_bytes m (rx_data c) (map ucast (take (unat l) ds))"
    and lg: "bus_log x (tr w') = bus_log x (tr s) @ concat fs @ ev @ [EvStop]"
      "dat_reads x (tr w') = dat_reads x (tr s) @ dp @ ds"
    and res: "retry_result ?c SUCCESS cfg' fs ev ds k l m rc"
    by (elim exE conjE) (rule that; assumption)
  have m: "\<And>a. a \<notin> rx_region c \<Longrightarrow> m a = mem s a" using ag by simp
  have len: "length ds = unat (if rx_active c then rx_length c else 0)" and ev: "ev = master_frame c m"
    and l: "unat l = length ds"
    using res by (simp_all add: retry_result_def)
  have mw: "mem w' = store_bytes m (rx_data c) (map ucast ds)" using mw l by simp
  have cfg': "cfg' = c\<lparr>status := 0, tx_count := (if tx_active c then tx_length c else 0),
        rx_count := (if rx_active c then rx_length c else 0), retransmissions_count := of_nat (length fs)\<rparr>"
    using res by (simp add: retry_result_def)
  have lb: "length ds \<le> 2 ^ 32"
    using len unat_u32_less [of "if rx_active c then rx_length c else 0"] by simp
  have frm: "master_frame c m = master_frame c (mem s)" by (rule master_frame_cong [OF disj [folded cx] m])
  have out: "mem w' a = mem s a" if "a \<notin> rx_region c" for a
  proof -
    have "a \<notin> (\<lambda>i. rx_data c + of_nat i) ` {..<length (map ucast ds :: u8 list)}"
      using that len by (auto simp: rx_region_def split: if_splits)
    then show ?thesis using m [OF that] by (simp add: mw store_bytes_outside)
  qed
  have "bytes_at (mem w') (rx_data c) (length ds) = map ucast ds"
    using bytes_at_store_bytes [of "map ucast ds :: u8 list" m "rx_data c"] lb by (simp add: mw)
  then show ?thesis unfolding cx [symmetric] Let_def
    using fs len lg out by (intro exI [of _ fs] exI [of _ dp] exI [of _ ds]) (auto simp: s' cfg' ev frm)
qed

section \<open>A bus on which every slave answers\<close>

text \<open>
  The status code that the controller's state table gives after the most recent bus action when
  every address and byte is acknowledged: START gives 0x08, SLA+W 0x18, a data byte 0x28, SLA+R 0x40,
  a received byte 0x50 or 0x58 according to the acknowledge flag. \<open>acks\<close> is the hypothesis
  that a device behaves so; \<open>ack_dev\<close> is one that does.
\<close>

fun last_is_start :: "u32 \<Rightarrow> access list \<Rightarrow> bool" where
  "last_is_start x [] = False"
| "last_is_start x (Wr a v # t) =
    (if a = CONSET x then v AND I2C_STA \<noteq> 0 \<or> last_is_start x t
     else if a = DAT x then False else last_is_start x t)"
| "last_is_start x (e # t) = last_is_start x t"

fun ack_stat :: "u32 \<Rightarrow> access list \<Rightarrow> u32" where
  "ack_stat x [] = I2C_I2STAT_NO_INF"
| "ack_stat x (Wr a v # t) =
    (if a = CONSET x \<and> v AND I2C_STA \<noteq> 0 then I2C_I2STAT_START
     else if a = CONSET x \<and> v AND I2C_AA \<noteq> 0 then I2C_I2STAT_RX_DAT_ACK
     else if a = CONCLR x \<and> v AND I2C_AA \<noteq> 0 then I2C_I2STAT_RX_DAT_NACK
     else if a = DAT x then
       (if last_is_start x t then (if v AND 1 = 0 then I2C_I2STAT_SLAW_ACK else I2C_I2STAT_SLAR_ACK)
        else I2C_I2STAT_TX_DAT_ACK)
     else ack_stat x t)"
| "ack_stat x (e # t) = ack_stat x t"

definition acks :: "device \<Rightarrow> u32 \<Rightarrow> bool" where
  "acks dev x \<longleftrightarrow> (\<forall>t. dev t (CONSET x) AND I2C_SI \<noteq> 0 \<and> dev t (STAT x) AND 0xF8 = ack_stat x t)"

definition ack_dev :: "u32 \<Rightarrow> u32 \<Rightarrow> device" where
  "ack_dev x d t a = (if a = CONSET x then I2C_SI else if a = STAT x then ack_stat x t
     else if a = DAT x then d else 0)"

definition demo_setup :: I2C_M_SETUP_Type where
  "demo_setup = \<lparr>sl_addr7bit = 0x68, tx_data = 0x10000100, tx_length = 2, tx_count = 0,
     rx_data = 0x10000200, rx_length = 2, rx_count = 0, retransmissions_max = 0,
     retransmissions_count = 0, status = 0\<rparr>"

definition demo_state :: i2c_state where
  "demo_state = \<lparr>tr = [], mem = (\<lambda>a. ucast a), SystemCoreClock = 0, PeripheralClock = 60000000,
     EMCClock = 0, USBClock = 0, i2cdat = (\<lambda>_. \<lparr>txrx_setup = 0, dir = 0\<rparr>),
     I2C_MasterComplete = (\<lambda>_. False), msetup = (\<lambda>_. demo_setup)\<rparr>"

definition succeeded :: "(Status \<times> 'a) option \<Rightarrow> bool" where
  "succeeded r = (case r of Some (SUCCESS, _) \<Rightarrow> True | _ \<Rightarrow> False)"

lemma demo_run: "succeeded (I2C_MasterTransferData (ack_dev LPC_I2C1 0xA5) 1 0x10000000 I2C_TRANSFER_POLLING demo_state)"
  by code_simp

lemma demo_regions: "tx_region demo_setup \<inter> rx_region demo_setup = {}"
  by (auto simp: tx_region_def rx_region_def tx_active_def rx_active_def demo_setup_def lessThan_nat_numeral lessThan_Suc)

lemma demo_success:
  obtains s' where "I2C_MasterTransferData (ack_dev LPC_I2C1 0xA5) 1 0x10000000 I2C_TRANSFER_POLLING demo_state
    = Some (SUCCESS, s')"
  using demo_run by (auto simp: succeeded_def split: option.splits Status.splits)

lemma ack_dev_live: "si_live (ack_dev x d) x"
proof -
  have "ack_dev x d (polls (ack_dev x d) x 0 t) x AND I2C_SI \<noteq> 0" for t by (simp add: ack_dev_def)
  then show ?thesis unfolding si_live_def by blast
qed

text \<open>
  A concrete transfer: two bytes written to slave 0x68, then two bytes read back, on a bus
  on which every slave answers.
\<close>

theorem master_transfer_success_witness:
  "\<exists>s' fs. I2C_MasterTransferData (ack_dev LPC_I2C1 0xA5) 1 0x10000000 I2C_TRANSFER_POLLING demo_state
      = Some (SUCCESS, s')
    \<and> tx_region (msetup demo_state 0x10000000) \<inter> rx_region (msetup demo_state 0x10000000) = {}
    \<and> bus_log LPC_I2C1 (tr s') = bus_log LPC_I2C1 (tr demo_state) @ concat fs
        @ master_frame demo_setup (mem demo_state) @ [EvStop]"
proof -
  obtain s' where s': "I2C_MasterTransferData (ack_dev LPC_I2C1 0xA5) 1 0x10000000 I2C_TRANSFER_POLLING demo_state
    = Some (SUCCESS, s')" by (rule demo_success)
  have reg: "tx_region (msetup demo_state 0x10000000) \<inter> rx_region (msetup demo_state 0x10000000) = {}"
    using demo_regions by (simp add: demo_state_def)
  have "I2C_GetPointer 1 = LPC_I2C1" "msetup demo_state 0x10000000 = demo_setup"
    by (simp_all add: I2C_GetPointer_def demo_state_def)
  with master_transfer_success [OF s' reg] show ?thesis using s' reg by (auto simp: Let_def)
qed

text \<open>
  C2. When the polling master transfer reports ERROR, it made exactly one attempt more than
  \<open>retransmissions_max\<close>: the bus carried that many non-empty prefixes of the frame and then
  STOP, so the bus is released on the error path too; the counters stay within the requested lengths and
  memory outside the receive buffer is unchanged.
\<close>

theorem master_transfer_error:
  assumes err: "I2C_MasterTransferData dev i p I2C_TRANSFER_POLLING s = Some (ERROR, s')"
  shows "let c = msetup s p; x = I2C_GetPointer i in \<exists>fs.
      bus_log x (tr s') = bus_log x (tr s) @ concat fs @ [EvStop]
    \<and> (\<forall>f \<in> set fs. f \<noteq> [] \<and> (\<exists>r m. f @ r = master_frame c m))
    \<and> of_nat (length fs) = retransmissions_max c + 1
    \<and> retransmissions_count (msetup s' p) = retransmissions_max c + 1
    \<and> tx_count (msetup s' p) \<le> tx_length c \<and> rx_count (msetup s' p) \<le> rx_length c
    \<and> (\<forall>a. a \<notin> rx_region c \<longrightarrow> mem s' a = mem s a)"
proof -
  define c x where "c = msetup s p" and "x = I2C_GetPointer i"
  note cx = this
  let ?c = "c\<lparr>tx_count := 0, rx_count := 0, status := 0, retransmissions_count := 0\<rparr>"
  from err obtain cfg' w' where r: "retry_spec x ?c s ERROR cfg' w'"
    and s': "s' = w'\<lparr>msetup := (msetup w')(p := cfg')\<rparr>"
    unfolding cx by (rule mtd_polling_cases)
  have same: "master_frame ?c = master_frame c" "rx_region ?c = rx_region c" "rx_data ?c = rx_data c"
    by (simp_all add: fun_eq_iff)
  from r [unfolded retry_spec_def same] obtain fs ev dp ds k l m rc where
    fs: "\<forall>f \<in> set fs. f \<noteq> [] \<and> (\<exists>r m. f @ r = master_frame c m)"
    and m: "\<forall>a. a \<notin> rx_region c \<longrightarrow> m a = mem s a"
    and mw: "mem w' = store_bytes m (rx_data c) (map ucast (take (unat l) ds))"
    and lg: "bus_log x (tr w') = bus_log x (tr s) @ concat fs @ ev @ [EvStop]"
    and rr: "retry_result ?c ERROR cfg' fs ev ds k l m rc"
    by (elim exE conjE) (rule that; assumption)
  note rr = rr [unfolded retry_result_def Status.case same]
  from rr obtain es where cfg': "cfg' = ?c\<lparr>tx_count := k, rx_count := l, retransmissions_count := rc, status := es\<rparr>"
    by (elim conjE exE) (rule that)
  from rr obtain pr where res: "ev \<noteq> []" "ev @ pr = master_frame c m"
    by (elim conjE exE) (rule that)
  from rr have k: "k \<le> tx_length c" "l \<le> rx_length c" and l0: "\<not> rx_active c \<Longrightarrow> l = 0"
    by simp_all
  from rr have "retransmissions_count ?c \<le> retransmissions_max ?c \<longrightarrow> rc = retransmissions_max ?c + 1"
    by (elim conjE)
  then have rc1: "rc = retransmissions_max c + 1" by simp
  from rr have "rc = retransmissions_count ?c + of_nat (length fs) + 1" by (elim conjE)
  then have rc2: "rc = of_nat (length fs) + 1" by simp
  have rc: "rc = retransmissions_max c + 1" "of_nat (length fs) + 1 = retransmissions_max c + 1"
    using rc1 rc2 by metis+
  have out: "mem w' a = mem s a" if "a \<notin> rx_region c" for a
  proof -
    have "unat l \<le> unat (rx_length c)" using k by (simp add: word_le_nat_alt)
    with l0 have "a \<notin> (\<lambda>i. rx_data c + of_nat i) ` {..<length (map ucast (take (unat l) ds) :: u8 list)}"
      using that by (auto simp: rx_region_def split: if_splits)
    then show ?thesis using m that by (simp add: mw store_bytes_outside)
  qed
  have pf: "\<forall>f \<in> set (fs @ [ev]). f \<noteq> [] \<and> (\<exists>r m. f @ r = master_frame c m)"
  proof
    fix f assume "f \<in> set (fs @ [ev])"
    then consider "f \<in> set fs" | "f = ev" by auto
    then show "f \<noteq> [] \<and> (\<exists>r m. f @ r = master_frame c m)"
      using fs res by cases blast+
  qed
  with k rc out lg show ?thesis unfolding cx [symmetric] Let_def
    by (intro exI [of _ "fs @ [ev]"]) (simp add: s' cfg')
qed

text \<open>A slave that answers no address: SLA+W is not acknowledged.\<close>

definition nack_dev :: "u32 \<Rightarrow> device" where
  "nack_dev x t a = (if a = CONSET x then I2C_SI else if a = STAT x then
     (if last_is_start x t then I2C_I2STAT_START else I2C_I2STAT_SLAW_NACK) else 0)"

lemma nack_run: "\<exists>s'. I2C_MasterTransferData (nack_dev LPC_I2C1) 1 0x10000000 I2C_TRANSFER_POLLING demo_state = Some (ERROR, s')"
proof -
  have "(case I2C_MasterTransferData (nack_dev LPC_I2C1) 1 0x10000000 I2C_TRANSFER_POLLING demo_state of
    Some (ERROR, _) \<Rightarrow> True | _ \<Rightarrow> False)" by code_simp
  then show ?thesis by (auto split: option.splits Status.splits)
qed

theorem master_transfer_error_witness:
  "\<exists>s'. I2C_MasterTransferData (nack_dev LPC_I2C1) 1 0x10000000 I2C_TRANSFER_POLLING demo_state = Some (ERROR, s')
    \<and> retransmissions_count (msetup s' 0x10000000) = 1"
proof -
  obtain s' where s': "I2C_MasterTransferData (nack_dev LPC_I2C1) 1 0x10000000 I2C_TRANSFER_POLLING demo_state = Some (ERROR, s')"
    using nack_run by blast
  from master_transfer_error [OF s'] have "retransmissions_count (msetup s' 0x10000000) = 1"
    by (auto simp: Let_def demo_state_def demo_setup_def)
  with s' show ?thesis by blast
qed

text \<open>
  C3. The polling master transfer returns, with SUCCESS or ERROR, on every device whose controller
  keeps raising SI, whatever the slaves answer, unless \<open>retransmissions_max\<close> is 0xFFFFFFFF (then the
  32-bit count can never exceed it).
\<close>

theorem master_transfer_returns:
  assumes "si_live dev (I2C_GetPointer i)" "retransmissions_max (msetup s p) \<noteq> 0xFFFFFFFF"
  shows "\<exists>st s'. I2C_MasterTransferData dev i p I2C_TRANSFER_POLLING s = Some (st, s')"
proof -
  let ?c = "(msetup s p)\<lparr>tx_count := 0, rx_count := 0, status := 0, retransmissions_count := 0\<rparr>"
  have "(0xFFFFFFFF :: u32) = - 1" by simp
  then have "retransmissions_max (msetup s p) \<noteq> - 1" using assms(2) by metis
  then have "retransmissions_count ?c \<le> retransmissions_max ?c" "retransmissions_max ?c \<noteq> - 1"
    by simp_all
  from mt_retry_returns [OF assms(1) this, of s] show ?thesis
    by (auto simp: I2C_MasterTransferData_def Let_def)
qed

theorem master_transfer_returns_witness:
  "si_live (ack_dev LPC_I2C1 0) (I2C_GetPointer 1) \<and> retransmissions_max (msetup demo_state 0) \<noteq> 0xFFFFFFFF
    \<and> (\<exists>st s'. I2C_MasterTransferData (ack_dev LPC_I2C1 0) 1 0 I2C_TRANSFER_POLLING demo_state = Some (st, s'))"
proof -
  have 1: "si_live (ack_dev LPC_I2C1 0) (I2C_GetPointer 1)" by (simp add: I2C_GetPointer_def ack_dev_live)
  have 2: "retransmissions_max (msetup demo_state 0) \<noteq> 0xFFFFFFFF" by (simp add: demo_state_def demo_setup_def)
  show ?thesis using 1 2 master_transfer_returns [OF 1 2] by blast
qed

end
