(* ===== verification/I2C_App.thy ===== *)
theory I2C_App
  imports I2C_Bus
begin

text \<open>
  The board's I2C helpers, \<^verbatim>\<open>src/i2c.c\<close>: bounded retries around the driver's polling transfer,
  the bus scans, and the programming of the clock generators (Si5324) behind the I2C multiplexers.

  The local variables of the C functions whose address is taken are at addresses given as
  arguments: \<open>xfer\<close> is the transfer descriptor (in the store \<open>msetup\<close>), \<open>buf\<close> the byte buffer
  (\<open>WrBuffer\<close>, \<open>ch\<close>, or the parameter of \<open>i2c_tcaselect\<close>). Console output is the entry \<open>Print\<close> of the
  history. The properties say how often a write is tried, what it returns, and which frames the
  programming of a clock generator puts on the bus.
\<close>

section \<open>Constants and tables\<close>

abbreviation TCAADDR :: u8 where "TCAADDR \<equiv> 0x71"
abbreviation TCARTMADDR :: u8 where "TCARTMADDR \<equiv> 0x76"
abbreviation IIC_SLAVE_ADDR :: u8 where "IIC_SLAVE_ADDR \<equiv> 0x68"
abbreviation I2C_1 :: u8 where "I2C_1 \<equiv> 1"

record SI324Info =
  RegIndex :: u8
  Value :: u8

fun SI324Info_of :: "u8 \<times> u8 \<Rightarrow> SI324Info" where
  "SI324Info_of (r, v) = \<lparr>RegIndex = r, Value = v\<rparr>"

definition InitTable :: "SI324Info list" where
  "InitTable = map SI324Info_of [
    (0, 0x34), (1, 0xE4), (2, 0xA2), (3, 0x55), (4, 0x92), (5, 0xAD), (6, 0x3F), (7, 0x2A),
    (8, 0x00), (9, 0xC0), (10, 0x00), (11, 0x40), (19, 0x29), (20, 0x3E), (21, 0xFE), (22, 0xDF),
    (23, 0x1F), (24, 0x3F), (25, 0x60), (31, 0x00), (32, 0x00), (33, 0x07), (34, 0x00), (35, 0x00),
    (36, 0x07), (40, 0x80), (41, 0x01), (42, 0x6B), (43, 0x00), (44, 0x00), (45, 0x0C), (46, 0x00),
    (47, 0x00), (48, 0x0C), (55, 0x00), (131, 0x1F), (132, 0x02), (137, 0x01), (138, 0x0F), (139, 0xFF),
    (142, 0x00), (143, 0x00), (136, 0x40)]"

definition InitTable_RTM :: "SI324Info list" where
  "InitTable_RTM = map SI324Info_of [
    (0, 0x54), (1, 0xE1), (2, 0x82), (3, 0x55), (4, 0x92), (5, 0xAD), (6, 0x2D), (7, 0x2A),
    (8, 0x00), (9, 0xC0), (10, 0x00), (11, 0x40), (19, 0x29), (20, 0x3E), (21, 0xFE), (22, 0xDF),
    (23, 0x1F), (24, 0x3F), (25, 0x60), (31, 0x00), (32, 0x00), (33, 0x05), (34, 0x00), (35, 0x00),
    (36, 0x05), (40, 0x60), (41, 0x0A), (42, 0xA9), (43, 0x00), (44, 0x00), (45, 0x5A), (46, 0x00),
    (47, 0x01), (48, 0x9F), (55, 0x00), (131, 0x1F), (132, 0x02), (137, 0x01), (138, 0x0F), (139, 0xFF),
    (142, 0x00), (143, 0x00), (136, 0x40)]"

section \<open>Busy waiting and output\<close>

definition delay_ms :: "u32 \<Rightarrow> 'a world_scheme \<Rightarrow> 'a world_scheme" where
  "delay_ms ms w = say (Delay ms) w"

definition printf :: "string \<Rightarrow> 'a world_scheme \<Rightarrow> 'a world_scheme" where
  "printf str w = say (Print str) w"

text \<open>The conversions \<open>%X\<close> of one nibble, \<open>%02X\<close> and \<open>%d\<close> (one digit, as it is used here).\<close>

definition hex_digit :: "nat \<Rightarrow> char" where
  "hex_digit n = (''0123456789ABCDEF'') ! (n mod 16)"

definition hex02 :: "nat \<Rightarrow> string" where
  "hex02 n = [hex_digit (n div 16), hex_digit n]"

section \<open>Initialisation\<close>

definition i2c_init :: "device \<Rightarrow> 'a world_scheme \<Rightarrow> 'a world_scheme" where
  "i2c_init dev w =
    (let w = PINSEL_ConfigPin dev 0 0 3 w;
         w = PINSEL_ConfigPin dev 0 1 3 w;
         w = PINSEL_SetOpenDrainMode dev 0 0 ENABLE w;
         w = PINSEL_SetOpenDrainMode dev 0 1 ENABLE w;
         w = PINSEL_SetI2CMode dev 0 0 1 w;
         w = PINSEL_SetI2CMode dev 0 1 1 w;
         w = I2C_Init dev I2C_1 100000 w
     in I2C_Cmd I2C_1 ENABLE w)"

section \<open>Bounded retries\<close>

definition zero_setup :: I2C_M_SETUP_Type where
  "zero_setup = \<lparr>sl_addr7bit = 0, tx_data = 0, tx_length = 0, tx_count = 0, rx_data = 0, rx_length = 0,
     rx_count = 0, retransmissions_max = 0, retransmissions_count = 0, status = 0\<rparr>"

partial_function (option) transfer_retry ::
  "device \<Rightarrow> u32 \<Rightarrow> u8 \<Rightarrow> i2c_state \<Rightarrow> i2c_state option" where
  "transfer_retry dev xfer retry_count s =
    Option.bind (I2C_MasterTransferData dev I2C_1 xfer I2C_TRANSFER_POLLING s) (\<lambda>r.
      if fst r \<noteq> SUCCESS then
        (let retry_count = retry_count - 1
         in if retry_count = 0 then Some (snd r) else transfer_retry dev xfer retry_count (snd r))
      else Some (snd r))"

definition put_setup :: "u32 \<Rightarrow> I2C_M_SETUP_Type \<Rightarrow> i2c_state \<Rightarrow> i2c_state" where
  "put_setup p c s = s\<lparr>msetup := (msetup s)(p := c)\<rparr>"

definition i2c_write :: "device \<Rightarrow> u32 \<Rightarrow> u8 \<Rightarrow> u32 \<Rightarrow> u8 \<Rightarrow> i2c_state \<Rightarrow> (u8 \<times> i2c_state) option" where
  "i2c_write dev xfer slaveAddr buff len s = do {
     let s = put_setup xfer (zero_setup\<lparr>sl_addr7bit := ucast slaveAddr, tx_data := buff,
               tx_length := ucast len, rx_length := 0\<rparr>) s;
     s \<leftarrow> transfer_retry dev xfer 10 s;
     Some (ucast (ucast len - tx_count (msetup s xfer)), s) }"

definition i2c_read :: "device \<Rightarrow> u32 \<Rightarrow> u8 \<Rightarrow> u32 \<Rightarrow> u8 \<Rightarrow> i2c_state \<Rightarrow> (u8 \<times> i2c_state) option" where
  "i2c_read dev xfer slaveAddr buff len s = do {
     let s = put_setup xfer (zero_setup\<lparr>sl_addr7bit := ucast slaveAddr, rx_data := buff,
               rx_length := ucast len, tx_length := 0\<rparr>) s;
     s \<leftarrow> transfer_retry dev xfer 10 s;
     Some (ucast (ucast len - rx_count (msetup s xfer)), s) }"

section \<open>Scanning\<close>

primrec for_each :: "'i list \<Rightarrow> ('i \<Rightarrow> 's \<Rightarrow> 's option) \<Rightarrow> 's \<Rightarrow> 's option" where
  "for_each [] body s = Some s"
| "for_each (i # is) body s = Option.bind (body i s) (for_each is body)"

abbreviation TAB :: char where "TAB \<equiv> CHR 0x09"
abbreviation CR :: char where "CR \<equiv> CHR 0x0D"
abbreviation LF :: char where "LF \<equiv> CHR 0x0A"

definition probe_address :: "device \<Rightarrow> u32 \<Rightarrow> u32 \<Rightarrow> nat \<Rightarrow> i2c_state \<Rightarrow> i2c_state option" where
  "probe_address dev xfer ch i s = do {
     let s = (if i mod 16 = 0 then printf ([CR, LF] @ hex02 (i div 16) @ ''  '') s else s);
     if i \<le> 7 \<or> 0x78 < i then Some (printf [TAB] s)
     else do {
       let s = put_setup xfer (zero_setup\<lparr>sl_addr7bit := of_nat i, rx_data := ch,
                 rx_length := 1 + (if i = 0x48 then 1 else 0)\<rparr>) s;
       (_, s) \<leftarrow> I2C_MasterTransferData dev I2C_1 xfer I2C_TRANSFER_POLLING s;
       Some (if 0 < rx_count (msetup s xfer) then printf (TAB # hex02 i) s
             else printf (TAB # ''---'') s) } }"

definition i2c_probe_slaves :: "device \<Rightarrow> u32 \<Rightarrow> u32 \<Rightarrow> i2c_state \<Rightarrow> i2c_state option" where
  "i2c_probe_slaves dev xfer ch s = do {
     let s = printf (''Probing available I2C devices...'' @ [CR, LF]) s;
     let s = printf ([CR, LF] @ concat (map (\<lambda>i. TAB # hex02 i) [0..<16])) s;
     let s = printf ([CR, LF] @ ''=='' @ concat (replicate 25 (TAB # ''==''))) s;
     s \<leftarrow> for_each [0..<0x80] (probe_address dev xfer ch) s;
     Some (printf [CR, LF] s) }"

definition i2c_tcaselect :: "device \<Rightarrow> u32 \<Rightarrow> u32 \<Rightarrow> u8 \<Rightarrow> i2c_state \<Rightarrow> i2c_state option" where
  "i2c_tcaselect dev xfer buf i s = do {
     (_, s) \<leftarrow> i2c_write dev xfer TCAADDR buf 1 (s\<lparr>mem := (mem s)(buf := i)\<rparr>);
     Some s }"

definition probe_channel_address :: "device \<Rightarrow> u32 \<Rightarrow> u32 \<Rightarrow> nat \<Rightarrow> i2c_state \<Rightarrow> i2c_state option" where
  "probe_channel_address dev xfer ch addr s =
    (if of_nat addr = TCAADDR then Some s
     else do {
       let s = put_setup xfer (zero_setup\<lparr>sl_addr7bit := of_nat addr, rx_data := ch, rx_length := 1\<rparr>) s;
       (_, s) \<leftarrow> I2C_MasterTransferData dev I2C_1 xfer I2C_TRANSFER_POLLING s;
       Some (if 0 < rx_count (msetup s xfer) then printf (''Found I2C '' @ hex02 addr) s else s) })"

definition i2c_probe_slaves2 :: "device \<Rightarrow> u32 \<Rightarrow> u32 \<Rightarrow> u32 \<Rightarrow> i2c_state \<Rightarrow> i2c_state option" where
  "i2c_probe_slaves2 dev xfer buf ch s = do {
     let s = printf (''TCAScanner start'' @ [LF]) s;
     for_each [0..<8] (\<lambda>t s. do {
       s \<leftarrow> i2c_tcaselect dev xfer buf (of_nat t) s;
       let s = printf (''TCA Port #'' @ [hex_digit t, LF]) s;
       for_each [0..<128] (probe_channel_address dev xfer ch) s }) s }"

section \<open>Programming the clock generators\<close>

text \<open>\<open>WrBuffer[0] = v; i2c_write(addr, WrBuffer, 1);\<close> and its two-byte form.\<close>

definition write1 :: "device \<Rightarrow> u32 \<Rightarrow> u32 \<Rightarrow> u8 \<Rightarrow> u8 \<Rightarrow> i2c_state \<Rightarrow> i2c_state option" where
  "write1 dev xfer buf addr v s = do {
     (_, s) \<leftarrow> i2c_write dev xfer addr buf 1 (s\<lparr>mem := (mem s)(buf := v)\<rparr>);
     Some s }"

definition write2 :: "device \<Rightarrow> u32 \<Rightarrow> u32 \<Rightarrow> u8 \<Rightarrow> SI324Info \<Rightarrow> i2c_state \<Rightarrow> i2c_state option" where
  "write2 dev xfer buf addr e s = do {
     (_, s) \<leftarrow> i2c_write dev xfer addr buf 2 (s\<lparr>mem := (mem s)(buf := RegIndex e, buf + 1 := Value e)\<rparr>);
     Some s }"

definition i2c_setSI5324 :: "device \<Rightarrow> u32 \<Rightarrow> u32 \<Rightarrow> i2c_state \<Rightarrow> i2c_state option" where
  "i2c_setSI5324 dev xfer WrBuffer s = do {
     s \<leftarrow> write1 dev xfer WrBuffer TCAADDR 16 s;
     s \<leftarrow> for_each InitTable (write2 dev xfer WrBuffer IIC_SLAVE_ADDR) s;
     write1 dev xfer WrBuffer TCAADDR 0 s }"

definition i2c_setSI5324_RTM :: "device \<Rightarrow> u32 \<Rightarrow> u32 \<Rightarrow> i2c_state \<Rightarrow> i2c_state option" where
  "i2c_setSI5324_RTM dev xfer WrBuffer s = do {
     s \<leftarrow> write1 dev xfer WrBuffer TCAADDR 128 s;
     s \<leftarrow> write1 dev xfer WrBuffer TCARTMADDR 32 s;
     s \<leftarrow> for_each InitTable_RTM (write2 dev xfer WrBuffer IIC_SLAVE_ADDR) s;
     s \<leftarrow> write1 dev xfer WrBuffer TCARTMADDR 0 s;
     write1 dev xfer WrBuffer TCAADDR 0 s }"

definition i2c_RTM_PWRON :: "device \<Rightarrow> u32 \<Rightarrow> u32 \<Rightarrow> i2c_state \<Rightarrow> i2c_state option" where
  "i2c_RTM_PWRON dev xfer WrBuffer s = do {
     s \<leftarrow> write1 dev xfer WrBuffer TCAADDR 128 s;
     s \<leftarrow> write1 dev xfer WrBuffer 0x3E (push_bit 7 1 OR 1) s;
     let s = delay_ms 200 s;
     s \<leftarrow> write1 dev xfer WrBuffer 0x3E (push_bit 7 1 OR push_bit 5 1 OR push_bit 4 1 OR 1) s;
     write1 dev xfer WrBuffer TCAADDR 0 s }"

lemmas i2c_app_loops_code [code] = transfer_retry.simps

section \<open>Bounded retries, for every device\<close>

text \<open>A transmit-only transfer: the frame, and that a failed attempt leaves bytes unsent.\<close>

lemma mt_tx_phase_fails:
  assumes "mt_tx_phase dev x cfg w = Some (Some e, cfg', w')" "tx_active cfg" "tx_count cfg = 0"
  shows "tx_count cfg' < tx_length cfg"
proof -
  have act: "tx_length cfg \<noteq> 0 \<and> tx_data cfg \<noteq> 0" using assms(2) by (simp add: tx_active_def)
  with assms(1) obtain c w1 where
    "(if c \<noteq> I2C_I2STAT_SLAW_ACK then Some (Some (c OR I2C_SETUP_STATUS_NOACKF), cfg, w1)
      else mt_tx_loop dev x cfg (tx_data cfg) w1) = Some (Some e, cfg', w')"
    unfolding mt_tx_phase_def by (auto simp: bind_eq_Some_conv)
  then consider "cfg' = cfg" | "mt_tx_loop dev x cfg (tx_data cfg) w1 = Some (Some e, cfg', w')"
    by (auto split: if_splits)
  then show ?thesis
  proof cases
    case 1
    with act assms(3) show ?thesis by (simp add: word_gt_0)
  next
    case 2
    from mt_tx_loop_step [OF this] assms(3) show ?thesis by (auto simp: less_le)
  qed
qed

lemma mt_attempt_tx_only:
  fixes w :: "'a world_scheme"
  assumes "\<not> rx_active cfg"
  shows "mt_attempt dev x cfg w = do {
     (code, w) \<leftarrow> I2C_Start dev x w;
     if code \<noteq> I2C_I2STAT_START \<and> code \<noteq> I2C_I2STAT_RESTART
     then Some (Some code, cfg\<lparr>tx_count := 0, rx_count := 0\<rparr>, w)
     else mt_tx_phase dev x (cfg\<lparr>tx_count := 0, rx_count := 0\<rparr>) w }"
proof (cases "I2C_Start dev x w")
  case None
  then show ?thesis by (simp add: mt_attempt_def)
next
  case (Some r)
  obtain code w1 where r: "r = (code, w1)" by (cases r)
  define c where "c = cfg\<lparr>tx_count := 0, rx_count := 0\<rparr>"
  have idle: "mt_restart_phase dev x c' w2 = Some (None, c', w2)" "mt_rx_phase dev x c' w2 = Some (None, c', w2)"
    if "c' = c\<lparr>tx_count := k\<rparr>" for c' k and w2 :: "'a world_scheme"
    using assms that by (auto simp: mt_restart_phase_def mt_rx_phase_def rx_active_def c_def)
  have "(do { (e, cfg, w) \<leftarrow> mt_tx_phase dev x c w1;
      if e \<noteq> None then Some (e, cfg, w)
      else do { (e, cfg, w) \<leftarrow> mt_restart_phase dev x cfg w;
        if e \<noteq> None then Some (e, cfg, w) else mt_rx_phase dev x cfg w } }) = mt_tx_phase dev x c w1"
  proof (cases "mt_tx_phase dev x c w1")
    case (Some q)
    obtain e c1 w2 where q: "q = (e, c1, w2)" by (cases q)
    have "tx_count c = 0" by (simp add: c_def)
    from mt_tx_phase_step [OF Some [unfolded q] this] obtain k where "c1 = c\<lparr>tx_count := k\<rparr>" by blast
    from idle [OF this] show ?thesis by (cases e) (simp_all add: Some q)
  qed simp
  then show ?thesis by (simp add: mt_attempt_def Some r c_def)
qed

lemma mt_attempt_tx_fails:
  assumes "mt_attempt dev x cfg w = Some (Some e, cfg', w')" "\<not> rx_active cfg" "tx_active cfg"
  shows "tx_count cfg' < tx_length cfg"
proof -
  define c where "c = cfg\<lparr>tx_count := 0, rx_count := 0\<rparr>"
  have len: "tx_length c = tx_length cfg" "tx_count c = 0" "tx_active c" using assms(3) by (simp_all add: c_def)
  obtain code w1 where "(if code \<noteq> I2C_I2STAT_START \<and> code \<noteq> I2C_I2STAT_RESTART then Some (Some code, c, w1)
     else mt_tx_phase dev x c w1) = Some (Some e, cfg', w')"
    using assms(1) unfolding mt_attempt_tx_only [OF assms(2)] c_def [symmetric]
    by (cases "I2C_Start dev x w") auto
  then consider "cfg' = c" | "mt_tx_phase dev x c w1 = Some (Some e, cfg', w')"
    by (auto split: if_splits)
  then show ?thesis
  proof cases
    case 1
    then show ?thesis using assms(3) by (simp add: c_def tx_active_def word_gt_0)
  next
    case 2
    from mt_tx_phase_fails [OF this len(3,2)] show ?thesis by (simp add: len)
  qed
qed

text \<open>The frame of a write, and the descriptor that \<open>i2c_write\<close> builds for it.\<close>

definition write_frame :: "u8 \<Rightarrow> u8 list \<Rightarrow> bus_event list" where
  "write_frame a bs = EvStart # EvByte (sla_w (ucast a)) # map (\<lambda>b. EvByte (ucast b)) bs"

definition write_setup :: "u8 \<Rightarrow> u32 \<Rightarrow> u8 \<Rightarrow> I2C_M_SETUP_Type \<Rightarrow> bool" where
  "write_setup a buff len c \<longleftrightarrow> sl_addr7bit c = ucast a \<and> tx_data c = buff \<and> tx_length c = ucast len
     \<and> rx_length c = 0 \<and> retransmissions_max c = 0"

lemma write_setup_upd [simp]:
  "write_setup a buff len (c\<lparr>tx_count := k\<rparr>) = write_setup a buff len c"
  "write_setup a buff len (c\<lparr>rx_count := k\<rparr>) = write_setup a buff len c"
  "write_setup a buff len (c\<lparr>retransmissions_count := k\<rparr>) = write_setup a buff len c"
  "write_setup a buff len (c\<lparr>status := k\<rparr>) = write_setup a buff len c"
  by (simp_all add: write_setup_def)

lemma unat_ucast_u8 [simp]: "unat (ucast (b :: u8) :: u32) = unat b"
proof -
  have "unat b < 2 ^ LENGTH(8)" by (rule unsigned_less)
  then have "unat b < 2 ^ 32" by simp
  then show ?thesis by (simp add: unsigned_ucast_eq take_bit_nat_eq_self_iff)
qed

lemma ucast_u8_eq_0 [simp]: "(ucast (b :: u8) :: u32) = 0 \<longleftrightarrow> b = 0"
  by (metis unat_eq_0 unat_ucast_u8)

lemma write_setup_frame:
  assumes "write_setup a buff len c" "buff \<noteq> 0" "len \<noteq> 0"
  shows "master_frame c m = write_frame a (bytes_at m buff (unat len))" "tx_active c" "\<not> rx_active c"
  using assms by (simp_all add: write_setup_def master_frame_def write_frame_def tx_frame_def tx_active_def rx_active_def)

lemma write_attempt:
  assumes c: "write_setup a buff len (msetup s xfer)" "buff \<noteq> 0" "len \<noteq> 0"
    and t: "I2C_MasterTransferData dev I2C_1 xfer I2C_TRANSFER_POLLING s = Some (st, s')"
  shows "\<exists>f rest. f \<noteq> [] \<and> f @ rest = write_frame a (bytes_at (mem s) buff (unat len))
    \<and> bus_log LPC_I2C1 (tr s') = bus_log LPC_I2C1 (tr s) @ f @ [EvStop] \<and> mem s' = mem s
    \<and> write_setup a buff len (msetup s' xfer)
    \<and> (if st = SUCCESS then rest = [] \<and> tx_count (msetup s' xfer) = ucast len
       else tx_count (msetup s' xfer) < ucast len)"
proof -
  define c0 where "c0 = (msetup s xfer)\<lparr>tx_count := 0, rx_count := 0, status := 0, retransmissions_count := 0\<rparr>"
  have c0: "write_setup a buff len c0" using c(1) by (simp add: c0_def)
  note fr = write_setup_frame [OF c0 c(2,3)]
  have len: "tx_length c0 = ucast len" "retransmissions_max c0 = 0" using c0 by (simp_all add: write_setup_def)
  have x: "I2C_GetPointer I2C_1 = LPC_I2C1" by (simp add: I2C_GetPointer_def)
  from t obtain cfg' w' where r: "mt_retry dev LPC_I2C1 c0 s = Some (st, cfg', w')"
    and s': "s' = w'\<lparr>msetup := (msetup w')(xfer := cfg')\<rparr>"
    by (auto simp: I2C_MasterTransferData_def Let_def bind_eq_Some_conv x c0_def)
  from r obtain e c1 w1 where at: "mt_attempt dev LPC_I2C1 c0 s = Some (e, c1, w1)"
    by (auto simp: mt_retry.simps [of dev LPC_I2C1 c0] bind_eq_Some_conv)
  from at obtain f rest ds k l where sp: "attempt_spec LPC_I2C1 c0 s e c1 w1 f rest ds k l" by (rule mt_attempt_step)
  have f: "f \<noteq> []" "f @ rest = write_frame a (bytes_at (mem s) buff (unat len))" "e = None \<Longrightarrow> rest = []"
    and c1: "c1 = c0\<lparr>tx_count := k, rx_count := l\<rparr>" and l: "l = 0" "e = None \<Longrightarrow> k = ucast len"
    using sp fr len by (auto simp: attempt_spec_def)
  have w1: "mem w1 = mem s" "bus_log LPC_I2C1 (tr w1) = bus_log LPC_I2C1 (tr s) @ f"
    using attempt_log [OF sp] l by simp_all
  have rc: "retransmissions_count c1 = 0" "retransmissions_max c1 = 0" using len by (simp_all add: c1 c0_def)
  show ?thesis
  proof (cases e)
    case None
    with r at have "st = SUCCESS" "cfg' = c1" "w' = I2C_Stop dev LPC_I2C1 w1"
      by (simp_all add: mt_retry.simps [of dev LPC_I2C1 c0])
    with f w1 l None c0 show ?thesis by (intro exI [of _ f] exI [of _ rest]) (simp add: s' I2C_Stop_fields c1)
  next
    case (Some q)
    with r at rc have o: "st = ERROR" "cfg' = c1\<lparr>retransmissions_count := 1, status := q\<rparr>" "w' = I2C_Stop dev LPC_I2C1 w1"
      by (simp_all add: mt_retry.simps [of dev LPC_I2C1 c0] Let_def)
    have "tx_count c1 < ucast len" using mt_attempt_tx_fails [OF at [unfolded Some]] fr len by simp
    with f w1 o c0 show ?thesis by (intro exI [of _ f] exI [of _ rest]) (simp add: s' I2C_Stop_fields c1)
  qed
qed

lemma transfer_returns:
  assumes "si_live dev LPC_I2C1" "write_setup a buff len (msetup s xfer)"
  shows "\<exists>st s'. I2C_MasterTransferData dev I2C_1 xfer I2C_TRANSFER_POLLING s = Some (st, s')"
proof -
  let ?c = "(msetup s xfer)\<lparr>tx_count := 0, rx_count := 0, status := 0, retransmissions_count := 0\<rparr>"
  have m: "retransmissions_max (msetup s xfer) = 0" using assms(2) by (simp add: write_setup_def)
  have x: "I2C_GetPointer I2C_1 = LPC_I2C1" by (simp add: I2C_GetPointer_def)
  have "\<exists>st cfg' w'. mt_retry dev LPC_I2C1 ?c s = Some (st, cfg', w')"
    by (rule mt_retry_returns [OF assms(1)]) (simp_all add: m)
  then show ?thesis by (auto simp: I2C_MasterTransferData_def Let_def x)
qed

text \<open>
  The history of a bounded retry: a run of transfers, each with the status it reported and with what
  it put on the bus before its STOP; all but the last one failed.
\<close>

primrec transfers :: "device \<Rightarrow> u32 \<Rightarrow> i2c_state \<Rightarrow> (Status \<times> bus_event list) list \<Rightarrow> i2c_state \<Rightarrow> bool" where
  "transfers dev xfer s [] s' \<longleftrightarrow> s' = s"
| "transfers dev xfer s (a # as) s' \<longleftrightarrow> (\<exists>s1. I2C_MasterTransferData dev I2C_1 xfer I2C_TRANSFER_POLLING s = Some (fst a, s1)
     \<and> bus_log LPC_I2C1 (tr s1) = bus_log LPC_I2C1 (tr s) @ snd a @ [EvStop] \<and> transfers dev xfer s1 as s')"

definition write_attempts :: "bus_event list \<Rightarrow> nat \<Rightarrow> bool \<Rightarrow> (Status \<times> bus_event list) list \<Rightarrow> bool" where
  "write_attempts frame n ok as \<longleftrightarrow> as \<noteq> [] \<and> length as \<le> n
     \<and> (\<forall>a \<in> set as. snd a \<noteq> [] \<and> (\<exists>rest. snd a @ rest = frame)) \<and> (\<forall>a \<in> set (butlast as). fst a = ERROR)
     \<and> (if ok then last as = (SUCCESS, frame) else length as = n \<and> fst (last as) = ERROR)"

lemma transfers_log:
  "transfers dev xfer s as s' \<Longrightarrow>
    bus_log LPC_I2C1 (tr s') = bus_log LPC_I2C1 (tr s) @ concat (map (\<lambda>a. snd a @ [EvStop]) as)"
  by (induction as arbitrary: s) auto

lemma write_attempts_Cons:
  assumes "write_attempts frame n ok as" "f \<noteq> []" "f @ rest = frame"
  shows "write_attempts frame (Suc n) ok ((ERROR, f) # as)"
  using assms by (auto simp: write_attempts_def)

lemma transfer_retry_spec:
  assumes "si_live dev LPC_I2C1" "write_setup a buff len (msetup s xfer)" "buff \<noteq> 0" "len \<noteq> 0" "n \<noteq> 0"
  shows "\<exists>s' as. transfer_retry dev xfer n s = Some s'
    \<and> transfers dev xfer s as s' \<and> mem s' = mem s
    \<and> write_attempts (write_frame a (bytes_at (mem s) buff (unat len))) (unat n)
        (tx_count (msetup s' xfer) = ucast len) as
    \<and> tx_count (msetup s' xfer) \<le> ucast len"
  using assms(2,5)
proof (induction "unat n" arbitrary: n s)
  case 0
  then show ?case by (simp add: unat_eq_0)
next
  case (Suc m)
  from transfer_returns [OF assms(1) Suc.prems(1)] obtain st s1 where
    t: "I2C_MasterTransferData dev I2C_1 xfer I2C_TRANSFER_POLLING s = Some (st, s1)" by blast
  from write_attempt [OF Suc.prems(1) assms(3,4) t] obtain f rest where
    f: "f \<noteq> []" "f @ rest = write_frame a (bytes_at (mem s) buff (unat len))"
    and l1: "bus_log LPC_I2C1 (tr s1) = bus_log LPC_I2C1 (tr s) @ f @ [EvStop]" and m1: "mem s1 = mem s"
    and c1: "write_setup a buff len (msetup s1 xfer)"
    and r: "if st = SUCCESS then rest = [] \<and> tx_count (msetup s1 xfer) = ucast len
      else tx_count (msetup s1 xfer) < ucast len"
    by blast
  have n: "unat (n - 1) = m" using Suc.hyps(2) Suc.prems(2) by (simp add: unat_minus_one)
  show ?case
  proof (cases "st = SUCCESS \<or> n - 1 = 0")
    case True
    with t have "transfer_retry dev xfer n s = Some s1" by (auto simp: transfer_retry.simps [of dev xfer n])
    moreover have "write_attempts (write_frame a (bytes_at (mem s) buff (unat len))) (unat n)
        (tx_count (msetup s1 xfer) = ucast len) [(st, f)]"
      using True r f n Suc.hyps(2) by (cases st) (auto simp: write_attempts_def)
    moreover have "tx_count (msetup s1 xfer) \<le> ucast len" using r by (auto split: if_splits)
    ultimately show ?thesis using t l1 m1 by (intro exI [of _ s1] exI [of _ "[(st, f)]"]) simp
  next
    case False
    then have e: "st = ERROR" by (cases st) simp_all
    from False t have eq: "transfer_retry dev xfer n s = transfer_retry dev xfer (n - 1) s1"
      by (simp add: transfer_retry.simps [of dev xfer n] Let_def)
    from False Suc.hyps(1) [OF n [symmetric] c1] obtain s' as where
      s': "transfer_retry dev xfer (n - 1) s1 = Some s'"
      "transfers dev xfer s1 as s'" "mem s' = mem s1"
      "tx_count (msetup s' xfer) \<le> ucast len"
      and as: "write_attempts (write_frame a (bytes_at (mem s1) buff (unat len))) (unat (n - 1))
        (tx_count (msetup s' xfer) = ucast len) as" by blast
    have "write_attempts (write_frame a (bytes_at (mem s) buff (unat len))) (unat n)
        (tx_count (msetup s' xfer) = ucast len) ((ERROR, f) # as)"
      using write_attempts_Cons [OF as [unfolded m1 n] f] Suc.hyps(2) by simp
    with eq s' t [unfolded e] l1 m1 show ?thesis by (intro exI [of _ s'] exI [of _ "(ERROR, f) # as"]) auto
  qed
qed

lemma i2c_write_spec:
  fixes a :: u8
  assumes "si_live dev LPC_I2C1" "buff \<noteq> 0" "len \<noteq> 0"
  defines "c \<equiv> zero_setup\<lparr>sl_addr7bit := ucast a, tx_data := buff, tx_length := ucast len, rx_length := 0\<rparr>"
  shows "\<exists>r s' as. i2c_write dev xfer a buff len s = Some (r, s')
    \<and> transfers dev xfer (put_setup xfer c s) as s' \<and> mem s' = mem s
    \<and> write_attempts (write_frame a (bytes_at (mem s) buff (unat len))) 10 (r = 0) as"
proof -
  let ?s = "put_setup xfer c s"
  have c: "write_setup a buff len (msetup ?s xfer)" by (simp add: c_def put_setup_def write_setup_def zero_setup_def)
  from transfer_retry_spec [OF assms(1) c assms(2,3), of 10] obtain s' as where
    s': "transfer_retry dev xfer 10 ?s = Some s'"
      "transfers dev xfer ?s as s'" "mem s' = mem s"
      "tx_count (msetup s' xfer) \<le> ucast len"
    and as: "write_attempts (write_frame a (bytes_at (mem s) buff (unat len))) 10
        (tx_count (msetup s' xfer) = ucast len) as"
    by (auto simp: put_setup_def)
  let ?k = "tx_count (msetup s' xfer)" and ?r = "ucast (ucast len - tx_count (msetup s' xfer)) :: u8"
  have "unat (ucast len - ?k) = unat len - unat ?k" using s'(4) by (simp add: unat_sub)
  moreover have "unat len < 256" using unsigned_less [of len] by simp
  ultimately have "unat ?r = unat len - unat ?k"
    by (simp add: unsigned_ucast_eq take_bit_nat_eq_self_iff)
  moreover have "unat ?k \<le> unat len" using s'(4) by (simp add: word_le_nat_alt)
  ultimately have "?r = 0 \<longleftrightarrow> unat ?k = unat len" by (metis diff_self_eq_0 diff_is_0_eq le_antisym unat_eq_0)
  then have "(?r = 0) = (?k = ucast len)" by (simp add: word_unat_eq_iff)
  with s' as have "i2c_write dev xfer a buff len s = Some (?r, s')"
    "write_attempts (write_frame a (bytes_at (mem s) buff (unat len))) 10 (?r = 0) as"
    by (simp_all add: i2c_write_def c_def)
  with s'(2,3) show ?thesis by blast
qed

section \<open>Acknowledged writes\<close>

text \<open>On a bus on which every byte is acknowledged the driver's primitives report the good codes.\<close>

lemma acked_wait:
  assumes "acks dev x"
  shows "wait_SI dev x w = Some (snd (rd dev x w))"
  using assms by (simp add: wait_SI.simps [of dev x w] acks_def Let_def)

lemma acked_start:
  assumes "acks dev x"
  shows "\<exists>w'. I2C_Start dev x w = Some (I2C_I2STAT_START, w') \<and> last_is_start x (tr w')"
  using assms by (simp add: I2C_Start_def acked_wait Let_def case_prod_beta) (simp add: acks_def)

lemma acked_send:
  assumes "acks dev x"
  shows "\<exists>w'. I2C_SendByte dev x b w = Some (if last_is_start x (tr w)
      then (if ucast b AND (1 :: u32) = 0 then I2C_I2STAT_SLAW_ACK else I2C_I2STAT_SLAR_ACK)
      else I2C_I2STAT_TX_DAT_ACK, w') \<and> \<not> last_is_start x (tr w')"
  using assms by (simp add: I2C_SendByte_def acked_wait Let_def case_prod_beta) (simp add: acks_def)

lemma acked_tx_loop:
  assumes "acks dev x" "\<not> last_is_start x (tr w)" "tx_count cfg \<le> tx_length cfg"
  shows "\<exists>cfg' w'. mt_tx_loop dev x cfg txdat w = Some (None, cfg', w')"
  using assms(2,3)
proof (induction "unat (tx_length cfg - tx_count cfg)" arbitrary: cfg txdat w)
  case 0
  then have "tx_count cfg = tx_length cfg" by (simp add: unat_eq_0)
  then show ?case by (simp add: mt_tx_loop.simps [of dev x cfg])
next
  case (Suc n)
  then have "tx_count cfg \<noteq> tx_length cfg" by auto
  with Suc.prems(2) have lt: "tx_count cfg < tx_length cfg" by simp
  let ?cfg = "cfg\<lparr>tx_count := tx_count cfg + 1\<rparr>"
  from acked_send [OF assms(1), of "mem w txdat" w] Suc.prems(1) obtain w1 where
    w1: "I2C_SendByte dev x (mem w txdat) w = Some (I2C_I2STAT_TX_DAT_ACK, w1)" "\<not> last_is_start x (tr w1)"
    by auto
  have n: "n = unat (tx_length ?cfg - tx_count ?cfg)" using Suc.hyps(2) word_minus_Suc [OF lt] by simp
  have le: "tx_count ?cfg \<le> tx_length ?cfg" using lt by (simp add: inc_le)
  from Suc.hyps(1) [OF n w1(2) le] w1(1) lt show ?case by (simp add: mt_tx_loop.simps [of dev x cfg])
qed

lemma sla_w_even: "ucast (ucast ((a :: u32) * 2) :: u8) AND (1 :: u32) = 0"
  unfolding mult.commute [of a] by (rule bit_word_eqI) (auto simp: bit_simps bit_double_iff)

lemma acked_attempt:
  assumes "acks dev x" "\<not> rx_active cfg" "tx_active cfg"
  shows "\<exists>cfg' w'. mt_attempt dev x cfg w = Some (None, cfg', w')"
proof -
  let ?c = "cfg\<lparr>tx_count := 0, rx_count := 0\<rparr>"
  from acked_start [OF assms(1)] obtain w1 where
    w1: "I2C_Start dev x w = Some (I2C_I2STAT_START, w1)" "last_is_start x (tr w1)" by blast
  from acked_send [OF assms(1), of "ucast (push_bit 1 (sl_addr7bit cfg))" w1] w1(2) obtain w2 where
    w2: "I2C_SendByte dev x (ucast (push_bit 1 (sl_addr7bit cfg))) w1 = Some (I2C_I2STAT_SLAW_ACK, w2)"
      "\<not> last_is_start x (tr w2)" by (auto simp: sla_w_even)
  have "tx_count ?c \<le> tx_length ?c" by simp
  from acked_tx_loop [OF assms(1) w2(2) this, of "tx_data cfg"] w1 w2 assms(3) show ?thesis
    by (simp add: mt_attempt_tx_only [OF assms(2)] mt_tx_phase_def tx_active_def)
qed

lemma acked_write:
  assumes "acks dev LPC_I2C1" "buff \<noteq> 0" "len \<noteq> 0"
  shows "\<exists>s'. i2c_write dev xfer a buff len s = Some (0, s') \<and> mem s' = mem s
    \<and> bus_log LPC_I2C1 (tr s') = bus_log LPC_I2C1 (tr s) @ write_frame a (bytes_at (mem s) buff (unat len)) @ [EvStop]"
proof -
  let ?c = "zero_setup\<lparr>sl_addr7bit := ucast a, tx_data := buff, tx_length := ucast len, rx_length := 0\<rparr>"
  let ?s = "put_setup xfer ?c s"
  let ?c0 = "(msetup ?s xfer)\<lparr>tx_count := 0, rx_count := 0, status := 0, retransmissions_count := 0\<rparr>"
  have c: "write_setup a buff len (msetup ?s xfer)" by (simp add: put_setup_def write_setup_def zero_setup_def)
  have act: "\<not> rx_active ?c0" "tx_active ?c0" using write_setup_frame [OF c assms(2,3)] by simp_all
  have x: "I2C_GetPointer I2C_1 = LPC_I2C1" by (simp add: I2C_GetPointer_def)
  from acked_attempt [OF assms(1) act, of ?s] obtain s1 where
    t: "I2C_MasterTransferData dev I2C_1 xfer I2C_TRANSFER_POLLING ?s = Some (SUCCESS, s1)"
    by (auto simp: I2C_MasterTransferData_def Let_def x mt_retry.simps [of dev LPC_I2C1 ?c0])
  from write_attempt [OF c assms(2,3) t] have
    "bus_log LPC_I2C1 (tr s1) = bus_log LPC_I2C1 (tr s) @ write_frame a (bytes_at (mem s) buff (unat len)) @ [EvStop]"
    "mem s1 = mem s" "tx_count (msetup s1 xfer) = ucast len"
    by (auto simp: put_setup_def)
  then show ?thesis using t by (simp add: i2c_write_def transfer_retry.simps [of dev xfer 10])
qed

lemma acked_write1:
  assumes "acks dev LPC_I2C1" "buf \<noteq> 0"
  shows "\<exists>s'. write1 dev xfer buf a v s = Some s'
    \<and> bus_log LPC_I2C1 (tr s') = bus_log LPC_I2C1 (tr s) @ write_frame a [v] @ [EvStop]"
proof -
  let ?s = "s\<lparr>mem := (mem s)(buf := v)\<rparr>"
  have b: "bytes_at (mem ?s) buf (unat (1 :: u8)) = [v]" by (simp add: bytes_at_def)
  obtain s' where "i2c_write dev xfer a buf 1 ?s = Some (0, s')"
    "bus_log LPC_I2C1 (tr s') = bus_log LPC_I2C1 (tr ?s) @ write_frame a [v] @ [EvStop]"
    using acked_write [OF assms, of 1 xfer a ?s] unfolding b by auto
  then show ?thesis by (simp add: write1_def)
qed

lemma acked_write2:
  assumes "acks dev LPC_I2C1" "buf \<noteq> 0"
  shows "\<exists>s'. write2 dev xfer buf a e s = Some s'
    \<and> bus_log LPC_I2C1 (tr s') = bus_log LPC_I2C1 (tr s) @ write_frame a [RegIndex e, Value e] @ [EvStop]"
proof -
  let ?s = "s\<lparr>mem := (mem s)(buf := RegIndex e, buf + 1 := Value e)\<rparr>"
  have u: "unat (2 :: u8) = Suc (Suc 0)" by simp
  have b: "bytes_at (mem ?s) buf (unat (2 :: u8)) = [RegIndex e, Value e]"
    unfolding u by (simp add: bytes_at_Suc)
  obtain s' where "i2c_write dev xfer a buf 2 ?s = Some (0, s')"
    "bus_log LPC_I2C1 (tr s') = bus_log LPC_I2C1 (tr ?s) @ write_frame a [RegIndex e, Value e] @ [EvStop]"
    using acked_write [OF assms, of 2 xfer a ?s] unfolding b by auto
  then show ?thesis by (simp add: write2_def)
qed

lemma acked_table:
  assumes "acks dev LPC_I2C1" "buf \<noteq> 0"
  shows "\<exists>s'. for_each es (write2 dev xfer buf a) s = Some s'
    \<and> bus_log LPC_I2C1 (tr s') = bus_log LPC_I2C1 (tr s)
        @ concat (map (\<lambda>e. write_frame a [RegIndex e, Value e] @ [EvStop]) es)"
proof (induction es arbitrary: s)
  case (Cons e es)
  from acked_write2 [OF assms] obtain s1 where "write2 dev xfer buf a e s = Some s1"
    "bus_log LPC_I2C1 (tr s1) = bus_log LPC_I2C1 (tr s) @ write_frame a [RegIndex e, Value e] @ [EvStop]" by blast
  with Cons.IH [of s1] show ?case by auto
qed simp

text \<open>The frames that each programming sequence means to send.\<close>

definition stop_frame :: "u8 \<Rightarrow> u8 list \<Rightarrow> bus_event list" where
  "stop_frame a bs = write_frame a bs @ [EvStop]"

definition table_frames :: "SI324Info list \<Rightarrow> bus_event list" where
  "table_frames es = concat (map (\<lambda>e. stop_frame IIC_SLAVE_ADDR [RegIndex e, Value e]) es)"

definition si5324_frames :: "bus_event list" where
  "si5324_frames = stop_frame TCAADDR [16] @ table_frames InitTable @ stop_frame TCAADDR [0]"

definition si5324_rtm_frames :: "bus_event list" where
  "si5324_rtm_frames = stop_frame TCAADDR [128] @ stop_frame TCARTMADDR [32] @ table_frames InitTable_RTM
     @ stop_frame TCARTMADDR [0] @ stop_frame TCAADDR [0]"

definition rtm_pwron_frames :: "bus_event list" where
  "rtm_pwron_frames = stop_frame TCAADDR [128] @ stop_frame 0x3E [0x81] @ stop_frame 0x3E [0xB1]
     @ stop_frame TCAADDR [0]"

lemmas acked_write1' = acked_write1 [folded stop_frame_def]

lemma acked_table':
  assumes "acks dev LPC_I2C1" "buf \<noteq> 0"
  obtains s' where "for_each es (write2 dev xfer buf IIC_SLAVE_ADDR) s = Some s'"
    "bus_log LPC_I2C1 (tr s') = bus_log LPC_I2C1 (tr s) @ table_frames es"
  using acked_table [OF assms, of es xfer IIC_SLAVE_ADDR s]
  unfolding stop_frame_def [symmetric] table_frames_def [symmetric] by (elim exE conjE) (rule that)

lemma bus_log_delay [simp]: "bus_log x (tr (delay_ms ms w)) = bus_log x (tr w)"
  by (simp add: delay_ms_def bus_log_simps)

lemma acked_setSI5324:
  assumes "acks dev LPC_I2C1" "buf \<noteq> 0"
  shows "\<exists>s'. i2c_setSI5324 dev xfer buf s = Some s'
    \<and> bus_log LPC_I2C1 (tr s') = bus_log LPC_I2C1 (tr s) @ si5324_frames"
proof -
  note w = acked_write1' [OF assms, of xfer]
  from w obtain s1 where 1: "write1 dev xfer buf TCAADDR 16 s = Some s1"
    "bus_log LPC_I2C1 (tr s1) = bus_log LPC_I2C1 (tr s) @ stop_frame TCAADDR [16]" by blast
  obtain s2 where
    2: "for_each InitTable (write2 dev xfer buf IIC_SLAVE_ADDR) s1 = Some s2"
    "bus_log LPC_I2C1 (tr s2) = bus_log LPC_I2C1 (tr s1) @ table_frames InitTable" by (rule acked_table' [OF assms])
  from w obtain s3 where 3: "write1 dev xfer buf TCAADDR 0 s2 = Some s3"
    "bus_log LPC_I2C1 (tr s3) = bus_log LPC_I2C1 (tr s2) @ stop_frame TCAADDR [0]" by blast
  from 1 2 3 show ?thesis by (simp add: i2c_setSI5324_def si5324_frames_def)
qed

lemma acked_setSI5324_RTM:
  assumes "acks dev LPC_I2C1" "buf \<noteq> 0"
  shows "\<exists>s'. i2c_setSI5324_RTM dev xfer buf s = Some s'
    \<and> bus_log LPC_I2C1 (tr s') = bus_log LPC_I2C1 (tr s) @ si5324_rtm_frames"
proof -
  note w = acked_write1' [OF assms, of xfer]
  from w obtain s1 where 1: "write1 dev xfer buf TCAADDR 128 s = Some s1"
    "bus_log LPC_I2C1 (tr s1) = bus_log LPC_I2C1 (tr s) @ stop_frame TCAADDR [128]" by blast
  from w obtain s2 where 2: "write1 dev xfer buf TCARTMADDR 32 s1 = Some s2"
    "bus_log LPC_I2C1 (tr s2) = bus_log LPC_I2C1 (tr s1) @ stop_frame TCARTMADDR [32]" by blast
  obtain s3 where
    3: "for_each InitTable_RTM (write2 dev xfer buf IIC_SLAVE_ADDR) s2 = Some s3"
    "bus_log LPC_I2C1 (tr s3) = bus_log LPC_I2C1 (tr s2) @ table_frames InitTable_RTM" by (rule acked_table' [OF assms])
  from w obtain s4 where 4: "write1 dev xfer buf TCARTMADDR 0 s3 = Some s4"
    "bus_log LPC_I2C1 (tr s4) = bus_log LPC_I2C1 (tr s3) @ stop_frame TCARTMADDR [0]" by blast
  from w obtain s5 where 5: "write1 dev xfer buf TCAADDR 0 s4 = Some s5"
    "bus_log LPC_I2C1 (tr s5) = bus_log LPC_I2C1 (tr s4) @ stop_frame TCAADDR [0]" by blast
  from 1 2 3 4 5 show ?thesis by (simp add: i2c_setSI5324_RTM_def si5324_rtm_frames_def)
qed

lemma acked_RTM_PWRON:
  assumes "acks dev LPC_I2C1" "buf \<noteq> 0"
  shows "\<exists>s'. i2c_RTM_PWRON dev xfer buf s = Some s'
    \<and> bus_log LPC_I2C1 (tr s') = bus_log LPC_I2C1 (tr s) @ rtm_pwron_frames"
proof -
  note w = acked_write1' [OF assms, of xfer]
  from w obtain s1 where 1: "write1 dev xfer buf TCAADDR 128 s = Some s1"
    "bus_log LPC_I2C1 (tr s1) = bus_log LPC_I2C1 (tr s) @ stop_frame TCAADDR [128]" by blast
  from w obtain s2 where 2: "write1 dev xfer buf 0x3E 0x81 s1 = Some s2"
    "bus_log LPC_I2C1 (tr s2) = bus_log LPC_I2C1 (tr s1) @ stop_frame 0x3E [0x81]" by blast
  from w obtain s3 where 3: "write1 dev xfer buf 0x3E 0xB1 (delay_ms 200 s2) = Some s3"
    "bus_log LPC_I2C1 (tr s3) = bus_log LPC_I2C1 (tr (delay_ms 200 s2)) @ stop_frame 0x3E [0xB1]" by blast
  from w obtain s4 where 4: "write1 dev xfer buf TCAADDR 0 s3 = Some s4"
    "bus_log LPC_I2C1 (tr s4) = bus_log LPC_I2C1 (tr s3) @ stop_frame TCAADDR [0]" by blast
  from 1 2 3 4 show ?thesis by (simp add: i2c_RTM_PWRON_def rtm_pwron_frames_def)
qed

section \<open>The property of \<open>i2c_write\<close>\<close>

text \<open>
  C30. For a buffer that is not empty and not at address 0, whatever the slaves answer, as long as the
  controller keeps raising SI, \<open>i2c_write\<close> returns after one to ten transfers. It stops at the first one
  that succeeds: every transfer but the last failed, and the last one succeeded with the whole
  frame (START, address with the write bit, the bytes of the buffer) on the bus exactly when the result
  is 0; otherwise exactly ten were made and all failed. Each transfer puts a non-empty prefix of that frame on
  the bus and releases it by STOP, and nothing else is on the bus. Memory is unchanged.
\<close>

theorem i2c_write_bounded:
  fixes slaveAddr :: u8 and s :: i2c_state
  assumes "si_live dev LPC_I2C1" "buff \<noteq> 0" "len \<noteq> 0"
  defines "c \<equiv> zero_setup\<lparr>sl_addr7bit := ucast slaveAddr, tx_data := buff, tx_length := ucast len, rx_length := 0\<rparr>"
    and "frame \<equiv> write_frame slaveAddr (bytes_at (mem s) buff (unat len))"
  shows "\<exists>r s' as. i2c_write dev xfer slaveAddr buff len s = Some (r, s') \<and> mem s' = mem s
    \<and> transfers dev xfer (put_setup xfer c s) as s' \<and> 1 \<le> length as \<and> length as \<le> 10
    \<and> bus_log LPC_I2C1 (tr s') = bus_log LPC_I2C1 (tr s) @ concat (map (\<lambda>a. snd a @ [EvStop]) as)
    \<and> (\<forall>a \<in> set as. snd a \<noteq> [] \<and> (\<exists>rest. snd a @ rest = frame)) \<and> (\<forall>a \<in> set (butlast as). fst a = ERROR)
    \<and> (if r = 0 then last as = (SUCCESS, frame) else length as = 10 \<and> fst (last as) = ERROR)"
proof -
  from i2c_write_spec [OF assms(1-3), of xfer slaveAddr s, folded c_def frame_def] obtain r s' as where
    r: "i2c_write dev xfer slaveAddr buff len s = Some (r, s')" "mem s' = mem s"
      "transfers dev xfer (put_setup xfer c s) as s'"
    and a: "write_attempts frame 10 (r = 0) as" by blast
  from a have "1 \<le> length as" by (cases as) (auto simp: write_attempts_def)
  moreover have "bus_log LPC_I2C1 (tr s') = bus_log LPC_I2C1 (tr s) @ concat (map (\<lambda>a. snd a @ [EvStop]) as)"
    using transfers_log [OF r(3)] by (simp add: put_setup_def)
  ultimately show ?thesis using r a unfolding write_attempts_def by blast
qed

lemma nack_dev_live: "si_live (nack_dev x) x"
proof -
  have "nack_dev x (polls (nack_dev x) x 0 t) x AND I2C_SI \<noteq> 0" for t by (simp add: nack_dev_def)
  then show ?thesis unfolding si_live_def by blast
qed

lemma nack_write:
  "case i2c_write (nack_dev LPC_I2C1) 0x10000000 0x68 0x10000100 2 demo_state of Some (r, _) \<Rightarrow> r \<noteq> 0 | None \<Rightarrow> False"
  by code_simp

theorem i2c_write_bounded_witness:
  "si_live (nack_dev LPC_I2C1) LPC_I2C1
    \<and> (\<exists>r s' (as :: (Status \<times> bus_event list) list). i2c_write (nack_dev LPC_I2C1) 0x10000000 0x68 0x10000100 2 demo_state = Some (r, s')
        \<and> r \<noteq> 0 \<and> length as = 10
        \<and> bus_log LPC_I2C1 (tr s') = bus_log LPC_I2C1 (tr demo_state) @ concat (map (\<lambda>a. snd a @ [EvStop]) as))"
proof -
  from i2c_write_bounded [OF nack_dev_live, where buff = "0x10000100" and len = 2 and slaveAddr = "0x68" and s = demo_state and xfer = "0x10000000"]
  obtain r s' and as :: "(Status \<times> bus_event list) list" where r: "i2c_write (nack_dev LPC_I2C1) 0x10000000 0x68 0x10000100 2 demo_state = Some (r, s')"
    and l: "bus_log LPC_I2C1 (tr s') = bus_log LPC_I2C1 (tr demo_state) @ concat (map (\<lambda>a. snd a @ [EvStop]) as)"
    and e: "r \<noteq> 0 \<longrightarrow> length as = 10" by (auto split: if_splits)
  have "r \<noteq> 0" using nack_write by (simp add: r)
  with r l e nack_dev_live show ?thesis by auto
qed

end
