(* ===== verification/Uart.thy ===== *)
theory Uart
  imports Clock_Pins
begin

text \<open>
  The UART driver \<^verbatim>\<open>lpc177x_8x_uart.c\<close> as the console uses it: the search for the divisors of a baud
  rate, initialisation, and sending and receiving with the time-out of the driver, with the
  retargeting of \<open>printf\<close> in \<^verbatim>\<open>src/printf_redirect.c\<close>. Most registers are a byte wide; a byte load
  gives the low eight bits of the device's answer. The property says that the search finds the
  fraction with the least rounding error of all 120 that the hardware offers.
\<close>

section \<open>Registers\<close>

type_synonym u64 = "64 word"

abbreviation LPC_UART0 :: u32 where "LPC_UART0 \<equiv> 0x4000C000"
abbreviation LPC_UART1 :: u32 where "LPC_UART1 \<equiv> 0x40010000"
abbreviation LPC_UART2 :: u32 where "LPC_UART2 \<equiv> 0x40098000"
abbreviation LPC_UART3 :: u32 where "LPC_UART3 \<equiv> 0x4009C000"

abbreviation (input) UART_THR :: "u32 \<Rightarrow> u32" where "UART_THR x \<equiv> x"
abbreviation (input) UART_RBR :: "u32 \<Rightarrow> u32" where "UART_RBR x \<equiv> x"
abbreviation (input) UART_DLL :: "u32 \<Rightarrow> u32" where "UART_DLL x \<equiv> x"
abbreviation UART_DLM :: "u32 \<Rightarrow> u32" where "UART_DLM x \<equiv> x + 0x04"
abbreviation UART_IER :: "u32 \<Rightarrow> u32" where "UART_IER x \<equiv> x + 0x04"
abbreviation UART_IIR :: "u32 \<Rightarrow> u32" where "UART_IIR x \<equiv> x + 0x08"
abbreviation UART_FCR :: "u32 \<Rightarrow> u32" where "UART_FCR x \<equiv> x + 0x08"
abbreviation UART_LCR :: "u32 \<Rightarrow> u32" where "UART_LCR x \<equiv> x + 0x0C"
abbreviation UART_MCR :: "u32 \<Rightarrow> u32" where "UART_MCR x \<equiv> x + 0x10"
abbreviation UART_LSR :: "u32 \<Rightarrow> u32" where "UART_LSR x \<equiv> x + 0x14"
abbreviation UART_MSR :: "u32 \<Rightarrow> u32" where "UART_MSR x \<equiv> x + 0x18"
abbreviation UART_ACR :: "u32 \<Rightarrow> u32" where "UART_ACR x \<equiv> x + 0x20"
abbreviation UART_ICR :: "u32 \<Rightarrow> u32" where "UART_ICR x \<equiv> x + 0x24"
abbreviation UART_FDR :: "u32 \<Rightarrow> u32" where "UART_FDR x \<equiv> x + 0x28"
abbreviation UART_TER :: "u32 \<Rightarrow> u32" where "UART_TER x \<equiv> x + 0x30"
abbreviation UART_RS485CTRL :: "u32 \<Rightarrow> u32" where "UART_RS485CTRL x \<equiv> x + 0x4C"
abbreviation UART_ADRMATCH :: "u32 \<Rightarrow> u32" where "UART_ADRMATCH x \<equiv> x + 0x50"
abbreviation UART_RS485DLY :: "u32 \<Rightarrow> u32" where "UART_RS485DLY x \<equiv> x + 0x54"

abbreviation UART_LSR_RDR :: u32 where "UART_LSR_RDR \<equiv> 0x01"
abbreviation UART_LSR_THRE :: u32 where "UART_LSR_THRE \<equiv> 0x20"
abbreviation UART_LSR_TEMT :: u32 where "UART_LSR_TEMT \<equiv> 0x40"
abbreviation UART_TER_TXEN :: u32 where "UART_TER_TXEN \<equiv> 0x80"
abbreviation UART_BLOCKING_TIMEOUT :: u32 where "UART_BLOCKING_TIMEOUT \<equiv> 0xFFFFFFFF"

definition rd8 :: "device \<Rightarrow> u32 \<Rightarrow> 'a world_scheme \<Rightarrow> u32 \<times> 'a world_scheme" where
  "rd8 dev a w = (let v = dev (tr w) a AND 0xFF in (v, w\<lparr>tr := Rd a v # tr w\<rparr>))"

definition wr8 :: "u32 \<Rightarrow> u32 \<Rightarrow> 'a world_scheme \<Rightarrow> 'a world_scheme" where
  "wr8 a v w = wr a (v AND 0xFF) w"

definition reg8_or :: "device \<Rightarrow> u32 \<Rightarrow> u32 \<Rightarrow> 'a world_scheme \<Rightarrow> 'a world_scheme" where
  "reg8_or dev a v w = (let (x, w) = rd8 dev a w in wr8 a (x OR v) w)"

definition reg8_and :: "device \<Rightarrow> u32 \<Rightarrow> u32 \<Rightarrow> 'a world_scheme \<Rightarrow> 'a world_scheme" where
  "reg8_and dev a v w = (let (x, w) = rd8 dev a w in wr8 a (x AND v) w)"

section \<open>Configuration data\<close>

datatype UART_DATABIT_Type = UART_DATABIT_5 | UART_DATABIT_6 | UART_DATABIT_7 | UART_DATABIT_8

datatype UART_STOPBIT_Type = UART_STOPBIT_1 | UART_STOPBIT_2

datatype UART_PARITY_Type =
  UART_PARITY_NONE | UART_PARITY_ODD | UART_PARITY_EVEN | UART_PARITY_SP_1 | UART_PARITY_SP_0

record UART_CFG_Type =
  Baud_rate :: u32
  Parity :: UART_PARITY_Type
  Databits :: UART_DATABIT_Type
  Stopbits :: UART_STOPBIT_Type

section \<open>The divisor search\<close>

text \<open>
  The variables of the two nested loops. A step computes the 32.32 fixed-point divisor for the
  fraction \<open>m / (m + d)\<close>, rounds it and keeps it if it is in range and better. Both loops stop as
  soon as the error is 0, which only a step can make it.
\<close>

record div_search =
  best_error :: u32
  best_divisor :: u64
  bestd :: u32
  bestm :: u32

definition div_step :: "u32 \<Rightarrow> u32 \<Rightarrow> u32 \<Rightarrow> u32 \<Rightarrow> div_search \<Rightarrow> div_search" where
  "div_step uClk baudrate m d st =
    (let divisor = push_bit 28 (ucast uClk :: u64) * ucast m div ucast (baudrate * (m + d));
         current_error = ucast (divisor AND 0xFFFFFFFF) :: u32;
         tmp = ucast (drop_bit 32 divisor) :: u32;
         (current_error, tmp) =
           (if push_bit 31 1 < current_error then (- current_error, tmp + 1) else (current_error, tmp))
     in if tmp < 1 \<or> 65536 < tmp then st
        else if current_error < best_error st
        then \<lparr>best_error = current_error, best_divisor = ucast tmp, bestd = d, bestm = m\<rparr>
        else st)"

fun div_inner :: "u32 \<Rightarrow> u32 \<Rightarrow> u32 \<Rightarrow> nat list \<Rightarrow> div_search \<Rightarrow> div_search" where
  "div_inner uClk baudrate m [] st = st"
| "div_inner uClk baudrate m (d # ds) st =
    (let st = div_step uClk baudrate m (of_nat d) st
     in if best_error st = 0 then st else div_inner uClk baudrate m ds st)"

fun div_outer :: "u32 \<Rightarrow> u32 \<Rightarrow> nat list \<Rightarrow> div_search \<Rightarrow> div_search" where
  "div_outer uClk baudrate [] st = st"
| "div_outer uClk baudrate (m # ms) st =
    (let st = div_inner uClk baudrate (of_nat m) [0..<m] st
     in if best_error st = 0 then st else div_outer uClk baudrate ms st)"

definition best_fraction :: "u32 \<Rightarrow> u32 \<Rightarrow> div_search" where
  "best_fraction uClk baudrate =
    div_outer uClk baudrate [1..<16] \<lparr>best_error = 0xFFFFFFFF, best_divisor = 0, bestd = 0, bestm = 0\<rparr>"

definition uart_set_divisors :: "device \<Rightarrow> u32 \<Rightarrow> u32 \<Rightarrow> 'a world_scheme \<Rightarrow> Status \<times> 'a world_scheme" where
  "uart_set_divisors dev x baudrate w =
    (let uClk = PeripheralClock w; b = best_fraction uClk baudrate in
     if best_divisor b = 0 then (ERROR, w)
     else
       (let recalcbaud = ucast (ucast (drop_bit 4 uClk * bestm b)
                                div (best_divisor b * ucast (bestm b + bestd b))) :: u32;
            err = (if recalcbaud < baudrate then baudrate - recalcbaud else recalcbaud - baudrate);
            err = err * 100 div baudrate
        in if err < 3 then
             (let w = reg8_or dev (UART_LCR x) 0x80 w;
                  w = wr8 (UART_DLM x) (ucast (drop_bit 8 (best_divisor b) AND 0xFF)) w;
                  w = wr8 (UART_DLL x) (ucast (best_divisor b AND 0xFF)) w;
                  w = reg8_and dev (UART_LCR x) 0x7F w;
                  w = wr (UART_FDR x) ((push_bit 4 (bestm b) AND 0xF0 OR bestd b AND 0x0F) AND 0xFF) w
              in (SUCCESS, w))
           else (ERROR, w)))"

section \<open>Initialisation\<close>

text \<open>The two polling loops of \<open>UART_Init\<close>: drain the receiver, wait for the transmitter.\<close>

partial_function (option) drain_rx :: "device \<Rightarrow> u32 \<Rightarrow> 'a world_scheme \<Rightarrow> 'a world_scheme option" where
  "drain_rx dev x w =
    (let vw = rd8 dev (UART_LSR x) w
     in if fst vw AND UART_LSR_RDR \<noteq> 0 then drain_rx dev x (snd (rd8 dev (UART_RBR x) (snd vw)))
        else Some (snd vw))"

partial_function (option) wait_THRE :: "device \<Rightarrow> u32 \<Rightarrow> 'a world_scheme \<Rightarrow> 'a world_scheme option" where
  "wait_THRE dev x w =
    (let vw = rd8 dev (UART_LSR x) w
     in if fst vw AND UART_LSR_THRE \<noteq> 0 then Some (snd vw) else wait_THRE dev x (snd vw))"

definition uart_power :: "device \<Rightarrow> u32 \<Rightarrow> FunctionalState \<Rightarrow> 'a world_scheme \<Rightarrow> 'a world_scheme" where
  "uart_power dev x NewState w =
    (let w = (if x = LPC_UART0 then CLKPWR_ConfigPPWR dev (push_bit 3 1) NewState w else w);
         w = (if x = LPC_UART1 then CLKPWR_ConfigPPWR dev (push_bit 4 1) NewState w else w);
         w = (if x = LPC_UART2 then CLKPWR_ConfigPPWR dev (push_bit 24 1) NewState w else w)
     in if x = LPC_UART3 then CLKPWR_ConfigPPWR dev (push_bit 25 1) NewState w else w)"

definition databits_lcr :: "UART_DATABIT_Type \<Rightarrow> u32" where
  "databits_lcr b = (case b of UART_DATABIT_5 \<Rightarrow> 0 | UART_DATABIT_6 \<Rightarrow> 1 | UART_DATABIT_7 \<Rightarrow> 2 | UART_DATABIT_8 \<Rightarrow> 3)"

definition parity_lcr :: "UART_PARITY_Type \<Rightarrow> u32" where
  "parity_lcr p = (case p of UART_PARITY_NONE \<Rightarrow> 0 | UART_PARITY_ODD \<Rightarrow> 0x08 | UART_PARITY_EVEN \<Rightarrow> 0x18
     | UART_PARITY_SP_1 \<Rightarrow> 0x28 | UART_PARITY_SP_0 \<Rightarrow> 0x38)"

definition stopbits_lcr :: "UART_STOPBIT_Type \<Rightarrow> u32" where
  "stopbits_lcr s = (case s of UART_STOPBIT_1 \<Rightarrow> 0 | UART_STOPBIT_2 \<Rightarrow> 0x04)"

definition UART_Init :: "device \<Rightarrow> u32 \<Rightarrow> UART_CFG_Type \<Rightarrow> 'a world_scheme \<Rightarrow> 'a world_scheme option" where
  "UART_Init dev x cfg w = do {
     let w = uart_power dev x ENABLE w;
     let w = wr8 (UART_FCR x) 0x07 w;
     let w = wr8 (UART_FCR x) 0 w;
     w \<leftarrow> drain_rx dev x w;
     let w = wr8 (UART_TER x) UART_TER_TXEN w;
     w \<leftarrow> wait_THRE dev x w;
     let w = wr8 (UART_TER x) 0 w;
     let w = wr (UART_IER x) 0 w;
     let w = wr8 (UART_LCR x) 0 w;
     let w = wr (UART_ACR x) 0 w;
     let w = wr8 (UART_RS485CTRL x) 0 w;
     let w = wr8 (UART_RS485DLY x) 0 w;
     let w = wr8 (UART_ADRMATCH x) 0 w;
     let (_, w) = rd8 dev (UART_LSR x) w;
     let w = (if x = LPC_UART1 then snd (rd8 dev (UART_MSR x) (wr8 (UART_MCR x) 0 w))
              else wr8 (UART_ICR x) 0 w);
     let (_, w) = uart_set_divisors dev x (Baud_rate cfg) w;
     let (lcr, w) = rd8 dev (UART_LCR x) w;
     let tmp = lcr AND (0x80 OR 0x40) AND 0xFF;
     let tmp = tmp OR databits_lcr (Databits cfg);
     let tmp = tmp OR parity_lcr (Parity cfg);
     let tmp = tmp OR stopbits_lcr (Stopbits cfg);
     Some (wr8 (UART_LCR x) (tmp AND 0xFF) w) }"

definition UART_ConfigStructInit :: UART_CFG_Type where
  "UART_ConfigStructInit = \<lparr>Baud_rate = 9600, Parity = UART_PARITY_NONE, Databits = UART_DATABIT_8,
     Stopbits = UART_STOPBIT_1\<rparr>"

definition UART_TxCmd :: "device \<Rightarrow> u32 \<Rightarrow> FunctionalState \<Rightarrow> 'a world_scheme \<Rightarrow> 'a world_scheme" where
  "UART_TxCmd dev x NewState w =
    (if NewState = ENABLE then reg8_or dev (UART_TER x) UART_TER_TXEN w
     else reg8_and dev (UART_TER x) (NOT UART_TER_TXEN AND 0x80) w)"

definition UART_DeInit :: "device \<Rightarrow> u32 \<Rightarrow> 'a world_scheme \<Rightarrow> 'a world_scheme" where
  "UART_DeInit dev x w = uart_power dev x DISABLE (UART_TxCmd dev x DISABLE w)"

section \<open>Sending and receiving\<close>

datatype TRANSFER_BLOCK_Type = NONE_BLOCKING | BLOCKING

definition UART_SendByte :: "u32 \<Rightarrow> u8 \<Rightarrow> 'a world_scheme \<Rightarrow> 'a world_scheme" where
  "UART_SendByte x Data w = wr8 (UART_THR x) (ucast Data AND 0xFF) w"

definition UART_ReceiveByte :: "device \<Rightarrow> u32 \<Rightarrow> 'a world_scheme \<Rightarrow> u8 \<times> 'a world_scheme" where
  "UART_ReceiveByte dev x w = (let (v, w) = rd8 dev (UART_RBR x) w in (ucast (v AND 0xFF), w))"

text \<open>Polling a flag of LSR with the driver's time-out: the remaining count, 0 when it gave up.\<close>

partial_function (option) poll_LSR :: "device \<Rightarrow> u32 \<Rightarrow> u32 \<Rightarrow> u32 \<Rightarrow> 'a world_scheme \<Rightarrow> (u32 \<times> 'a world_scheme) option" where
  "poll_LSR dev x flag timeOut w =
    (let vw = rd8 dev (UART_LSR x) w
     in if fst vw AND flag \<noteq> 0 then Some (timeOut, snd vw)
        else if timeOut = 0 then Some (0, snd vw)
        else poll_LSR dev x flag (timeOut - 1) (snd vw))"

text \<open>The inner loop that fills the transmit FIFO: \<open>bToSend\<close>, \<open>bSent\<close> and \<open>pChar\<close> after it.\<close>

fun fill_fifo :: "u32 \<Rightarrow> nat \<Rightarrow> u32 \<Rightarrow> u32 \<Rightarrow> u32 \<Rightarrow> 'a world_scheme \<Rightarrow> u32 \<times> u32 \<times> u32 \<times> 'a world_scheme" where
  "fill_fifo x 0 bToSend bSent pChar w = (bToSend, bSent, pChar, w)"
| "fill_fifo x (Suc fifo_cnt) bToSend bSent pChar w =
    (if bToSend = 0 then (bToSend, bSent, pChar, w)
     else fill_fifo x fifo_cnt (bToSend - 1) (bSent + 1) (pChar + 1) (UART_SendByte x (mem w pChar) w))"

abbreviation UART_TX_FIFO_SIZE :: nat where "UART_TX_FIFO_SIZE \<equiv> 16"

partial_function (option) send_blocking :: "device \<Rightarrow> u32 \<Rightarrow> u32 \<Rightarrow> u32 \<Rightarrow> u32 \<Rightarrow> 'a world_scheme \<Rightarrow> (u32 \<times> 'a world_scheme) option" where
  "send_blocking dev x bToSend bSent pChar w =
    (if bToSend = 0 then Some (bSent, w)
     else Option.bind (poll_LSR dev x UART_LSR_THRE UART_BLOCKING_TIMEOUT w) (\<lambda>tw.
       if fst tw = 0 then Some (bSent, snd tw)
       else (let r = fill_fifo x UART_TX_FIFO_SIZE bToSend bSent pChar (snd tw)
             in send_blocking dev x (fst r) (fst (snd r)) (fst (snd (snd r))) (snd (snd (snd r))))))"

partial_function (option) send_nonblocking :: "device \<Rightarrow> u32 \<Rightarrow> u32 \<Rightarrow> u32 \<Rightarrow> u32 \<Rightarrow> 'a world_scheme \<Rightarrow> (u32 \<times> 'a world_scheme) option" where
  "send_nonblocking dev x bToSend bSent pChar w =
    (if bToSend = 0 then Some (bSent, w)
     else (let vw = rd8 dev (UART_LSR x) w in
       if fst vw AND UART_LSR_THRE = 0 then Some (bSent, snd vw)
       else (let r = fill_fifo x UART_TX_FIFO_SIZE bToSend bSent pChar (snd vw)
             in send_nonblocking dev x (fst r) (fst (snd r)) (fst (snd (snd r))) (snd (snd (snd r))))))"

definition UART_Send :: "device \<Rightarrow> u32 \<Rightarrow> u32 \<Rightarrow> u32 \<Rightarrow> TRANSFER_BLOCK_Type \<Rightarrow> 'a world_scheme \<Rightarrow> (u32 \<times> 'a world_scheme) option" where
  "UART_Send dev x txbuf buflen flag w =
    (if flag = BLOCKING then send_blocking dev x buflen 0 txbuf w else send_nonblocking dev x buflen 0 txbuf w)"

partial_function (option) receive_bytes :: "device \<Rightarrow> u32 \<Rightarrow> TRANSFER_BLOCK_Type \<Rightarrow> u32 \<Rightarrow> u32 \<Rightarrow> u32 \<Rightarrow> 'a world_scheme \<Rightarrow> (u32 \<times> 'a world_scheme) option" where
  "receive_bytes dev x flag bToRecv bRecv pChar w =
    (if bToRecv = 0 then Some (bRecv, w)
     else Option.bind (if flag = BLOCKING
         then Option.bind (poll_LSR dev x UART_LSR_RDR UART_BLOCKING_TIMEOUT w) (\<lambda>tw. Some (fst tw \<noteq> 0, snd tw))
         else (let vw = rd8 dev (UART_LSR x) w in Some (fst vw AND UART_LSR_RDR \<noteq> 0, snd vw))) (\<lambda>rw.
       if \<not> fst rw then Some (bRecv, snd rw)
       else (let bw = UART_ReceiveByte dev x (snd rw)
             in receive_bytes dev x flag (bToRecv - 1) (bRecv + 1) (pChar + 1)
                  ((snd bw)\<lparr>mem := (mem (snd bw))(pChar := fst bw)\<rparr>))))"

definition UART_Receive :: "device \<Rightarrow> u32 \<Rightarrow> u32 \<Rightarrow> u32 \<Rightarrow> TRANSFER_BLOCK_Type \<Rightarrow> 'a world_scheme \<Rightarrow> (u32 \<times> 'a world_scheme) option" where
  "UART_Receive dev x rxbuf buflen flag w = receive_bytes dev x flag buflen 0 rxbuf w"

definition UART_ForceBreak :: "device \<Rightarrow> u32 \<Rightarrow> 'a world_scheme \<Rightarrow> 'a world_scheme" where
  "UART_ForceBreak dev x w = reg8_or dev (UART_LCR x) 0x40 w"

definition UART_CheckBusy :: "device \<Rightarrow> u32 \<Rightarrow> 'a world_scheme \<Rightarrow> bool \<times> 'a world_scheme" where
  "UART_CheckBusy dev x w = (let (v, w) = rd8 dev (UART_LSR x) w in (v AND UART_LSR_TEMT = 0, w))"

definition UART_GetLineStatus :: "device \<Rightarrow> u32 \<Rightarrow> 'a world_scheme \<Rightarrow> u8 \<times> 'a world_scheme" where
  "UART_GetLineStatus dev x w = (let (v, w) = rd8 dev (UART_LSR x) w in (ucast (v AND 0xFF), w))"

definition UART_GetIntId :: "device \<Rightarrow> u32 \<Rightarrow> 'a world_scheme \<Rightarrow> u32 \<times> 'a world_scheme" where
  "UART_GetIntId dev x w = (let (v, w) = rd dev (UART_IIR x) w in (v AND 0x03CF, w))"

text \<open>The retargeted \<open>__write\<close> and \<open>__readc\<close> of the C library.\<close>

definition WRITEFUNC :: "device \<Rightarrow> u32 \<Rightarrow> u32 \<Rightarrow> 'a world_scheme \<Rightarrow> (u32 \<times> 'a world_scheme) option" where
  "WRITEFUNC dev pcBuffer iLength w = do {
     (_, w) \<leftarrow> UART_Send dev LPC_UART0 pcBuffer iLength BLOCKING w;
     Some (iLength, w) }"

definition READFUNC :: "device \<Rightarrow> 'a world_scheme \<Rightarrow> u8 \<times> 'a world_scheme" where
  "READFUNC dev w = UART_ReceiveByte dev LPC_UART0 w"

lemmas uart_loops_code [code] = drain_rx.simps wait_THRE.simps poll_LSR.simps send_blocking.simps
  send_nonblocking.simps receive_bytes.simps

section \<open>The divisor search finds the least error\<close>

text \<open>
  The reference, on natural numbers: the divisor of the fraction \<open>m / (m + d)\<close> scaled by 2 ^ 32, its
  nearest integer, and the distance to it.
\<close>

definition exact_divisor :: "nat \<Rightarrow> nat \<Rightarrow> nat \<Rightarrow> nat \<Rightarrow> nat" where
  "exact_divisor c b m d = c * 2 ^ 28 * m div (b * (m + d))"

definition round_divisor :: "nat \<Rightarrow> nat" where
  "round_divisor q = (if 2 ^ 31 < q mod 2 ^ 32 then q div 2 ^ 32 + 1 else q div 2 ^ 32)"

definition round_error :: "nat \<Rightarrow> nat" where
  "round_error q = (if 2 ^ 31 < q mod 2 ^ 32 then 2 ^ 32 - q mod 2 ^ 32 else q mod 2 ^ 32)"

definition in_range :: "nat \<Rightarrow> bool" where
  "in_range q \<longleftrightarrow> 1 \<le> round_divisor q \<and> round_divisor q \<le> 65536"

lemma round_error_le: "round_error q \<le> 2 ^ 31"
proof -
  have "q mod 2 ^ 32 < 2 ^ 32" by simp
  then show ?thesis unfolding round_error_def by (simp split: if_split; linarith)
qed

lemma unat_u64_of_u32: "unat (ucast (x :: u32) :: u64) = unat x"
proof -
  have "unat x < 2 ^ LENGTH(32)" by (rule unsigned_less)
  then have "unat x < 2 ^ 64" by simp
  then show ?thesis by (simp add: unsigned_ucast_eq take_bit_nat_eq_self_iff)
qed

lemma unat_of_nat_small: "n < 2 ^ LENGTH('a) \<Longrightarrow> unat (of_nat n :: 'a::len word) = n"
  by (simp add: unat_of_nat take_bit_nat_eq_self_iff)

lemma divisor_nat:
  fixes uClk b :: u32
  assumes "m \<le> 15" "d < m" "unat b * 30 < 2 ^ 32"
  shows "unat (push_bit 28 (ucast uClk :: u64) * ucast (of_nat m :: u32) div ucast (b * (of_nat m + of_nat d)))
    = exact_divisor (unat uClk) (unat b) m d"
proof -
  have c: "unat uClk < 2 ^ 32" by (rule unat_u32_less)
  have "unat uClk * 2 ^ 28 < 2 ^ 60" using c by simp
  then have p: "unat (push_bit 28 (ucast uClk :: u64)) = unat uClk * 2 ^ 28"
    using unat_mult_lem [of "ucast uClk :: u64" "2 ^ 28"] by (simp add: push_bit_eq_mult unat_u64_of_u32)
  have m: "unat (ucast (of_nat m :: u32) :: u64) = m"
    using assms(1) by (simp add: unat_u64_of_u32 unat_of_nat_small)
  have "unat uClk * 2 ^ 28 * m \<le> unat uClk * 2 ^ 28 * 15" using assms(1) by (intro mult_le_mono) simp_all
  also have "\<dots> < 2 ^ 64" using c by simp
  finally have pm: "unat (push_bit 28 (ucast uClk :: u64) * ucast (of_nat m :: u32)) = unat uClk * 2 ^ 28 * m"
    by (simp add: unat_mult_lem [THEN iffD1] p m)
  have "unat b * (m + d) \<le> unat b * 30" using assms(1,2) by (intro mult_le_mono) simp_all
  then have "unat b * (m + d) < 2 ^ 32" using assms(3) by (rule le_less_trans)
  moreover have "m + d < 2 ^ 32" using assms(1,2) by simp
  ultimately have "unat (b * of_nat (m + d)) = unat b * (m + d)"
    using unat_mult_lem [of b "of_nat (m + d)"] by (simp add: unat_of_nat_small del: of_nat_add)
  then have "unat (ucast (b * (of_nat m + of_nat d)) :: u64) = unat b * (m + d)"
    by (simp add: unat_u64_of_u32)
  then show ?thesis by (simp add: unat_div pm exact_divisor_def)
qed

lemma div_step_nat:
  fixes uClk b :: u32
  assumes "m \<le> 15" "d < m" "unat b * 30 < 2 ^ 32"
  shows "div_step uClk b (of_nat m) (of_nat d) st =
    (let q = exact_divisor (unat uClk) (unat b) m d in
     if in_range q \<and> round_error q < unat (best_error st)
     then \<lparr>best_error = of_nat (round_error q), best_divisor = of_nat (round_divisor q),
           bestd = of_nat d, bestm = of_nat m\<rparr>
     else st)"
proof -
  define D where "D = push_bit 28 (ucast uClk :: u64) * ucast (of_nat m :: u32) div ucast (b * (of_nat m + of_nat d))"
  define q where "q = exact_divisor (unat uClk) (unat b) m d"
  have D: "unat D = q" unfolding D_def q_def by (rule divisor_nat [OF assms])
  have q: "q < 2 ^ 64" proof -
    have "unat D < 2 ^ LENGTH(64)" by (rule unsigned_less)
    then show ?thesis using D by simp
  qed
  define e where "e = (ucast (D AND 0xFFFFFFFF) :: u32)"
  define t where "t = (ucast (drop_bit 32 D) :: u32)"
  have m: "(0xFFFFFFFF :: u64) = mask 32" by (simp add: mask_eq_exp_minus_1)
  have e: "unat e = q mod 2 ^ 32"
    unfolding e_def m take_bit_eq_mask [symmetric]
    by (simp only: unsigned_ucast_eq unsigned_take_bit_eq D) (simp add: take_bit_eq_mod)
  have t: "unat t = q div 2 ^ 32"
  proof -
    have "unat (drop_bit 32 D) = q div 2 ^ 32" proof -
      have "take_bit 64 q = q" using q by (simp add: take_bit_nat_eq_self_iff)
      then show ?thesis by (simp only: unsigned_drop_bit_eq) (simp add: D drop_bit_eq_div)
    qed
    moreover have "q div 2 ^ 32 < 2 ^ 32" using q by (simp add: div_less_iff_less_mult)
    ultimately show ?thesis unfolding t_def unsigned_ucast_eq by (simp only: take_bit_nat_eq_self_iff) simp
  qed
  have of_e: "(of_nat (q mod 2 ^ 32) :: u32) = e" unfolding e [symmetric] by simp
  have lt: "q mod 2 ^ 32 < 2 ^ 32" by simp
  have "(of_nat (q mod 2 ^ 32) :: u32) + of_nat (2 ^ 32 - q mod 2 ^ 32) = of_nat (q mod 2 ^ 32 + (2 ^ 32 - q mod 2 ^ 32))"
    by (simp only: of_nat_add)
  also have "\<dots> = of_nat (2 ^ 32)" using lt by (simp only: le_add_diff_inverse less_imp_le)
  finally have "e + of_nat (2 ^ 32 - q mod 2 ^ 32) = 0" unfolding of_e by simp
  then have of_neg: "(of_nat (2 ^ 32 - q mod 2 ^ 32) :: u32) = - e" by (metis minus_unique)
  have neg: "unat (- e) = 2 ^ 32 - q mod 2 ^ 32" if "2 ^ 31 < q mod 2 ^ 32"
    unfolding of_neg [symmetric] using that by (intro unat_of_nat_small) simp
  have inc: "t + 1 < 1 \<or> 65536 < t + 1 \<longleftrightarrow> \<not> (1 \<le> q div 2 ^ 32 + 1 \<and> q div 2 ^ 32 + 1 \<le> 65536)"
    "\<not> (t + 1 < 1 \<or> 65536 < t + 1) \<Longrightarrow> (ucast (t + 1) :: u64) = of_nat (q div 2 ^ 32 + 1)"
  proof -
    have w: "unat (t + 1) = (q div 2 ^ 32 + 1) mod 2 ^ 32" using t by (simp add: unat_word_ariths)
    have "q div 2 ^ 32 < 2 ^ 32" using t unat_u32_less [of t] by simp
    then consider "q div 2 ^ 32 + 1 = 2 ^ 32" | "q div 2 ^ 32 + 1 < 2 ^ 32" by linarith
    then show "t + 1 < 1 \<or> 65536 < t + 1 \<longleftrightarrow> \<not> (1 \<le> q div 2 ^ 32 + 1 \<and> q div 2 ^ 32 + 1 \<le> 65536)"
      using w by cases (auto simp: word_less_nat_alt)
    show "(ucast (t + 1) :: u64) = of_nat (q div 2 ^ 32 + 1)" if "\<not> (t + 1 < 1 \<or> 65536 < t + 1)"
    proof -
      have "unat (t + 1) = q div 2 ^ 32 + 1"
        using that w \<open>q div 2 ^ 32 < 2 ^ 32\<close> by (cases "q div 2 ^ 32 + 1 = 2 ^ 32") (auto simp: word_less_nat_alt)
      then show ?thesis by (metis of_nat_unat)
    qed
  qed
  have same: "t < 1 \<or> 65536 < t \<longleftrightarrow> \<not> (1 \<le> q div 2 ^ 32 \<and> q div 2 ^ 32 \<le> 65536)"
    unfolding t [symmetric] by (auto simp: word_less_nat_alt)
  have same': "(ucast t :: u64) = of_nat (q div 2 ^ 32)" unfolding t [symmetric] by simp
  have lim: "push_bit 31 1 < e \<longleftrightarrow> 2 ^ 31 < q mod 2 ^ 32"
    by (simp add: word_less_nat_alt e)
  define t' where "t' = (if 2 ^ 31 < q mod 2 ^ 32 then t + 1 else t)"
  define e' where "e' = (if 2 ^ 31 < q mod 2 ^ 32 then - e else e)"
  have t': "(t' < 1 \<or> 65536 < t') = (\<not> in_range q)" "in_range q \<Longrightarrow> (ucast t' :: u64) = of_nat (round_divisor q)"
    unfolding t'_def in_range_def round_divisor_def using inc same same' by (cases "2 ^ 31 < q mod 2 ^ 32"; simp)+
  have e': "unat e' = round_error q" "of_nat (round_error q) = e'"
    unfolding e'_def round_error_def using neg of_neg e of_e by (simp_all split: if_split)
  have "div_step uClk b (of_nat m) (of_nat d) st =
    (if t' < 1 \<or> 65536 < t' then st
     else if e' < best_error st
     then \<lparr>best_error = e', best_divisor = ucast t', bestd = of_nat d, bestm = of_nat m\<rparr> else st)"
    unfolding div_step_def D_def [symmetric] e_def [symmetric] t_def [symmetric] Let_def lim e'_def t'_def
    by (simp split: if_split)
  then show ?thesis unfolding q_def [symmetric] Let_def using t' e' by (simp add: word_less_nat_alt)
qed

text \<open>The two loops visit the fractions in this order, until one is exact.\<close>

definition fractions :: "(nat \<times> nat) list" where
  "fractions = concat (map (\<lambda>m. map (Pair m) [0..<m]) [1..<16])"

fun div_scan :: "u32 \<Rightarrow> u32 \<Rightarrow> (nat \<times> nat) list \<Rightarrow> div_search \<Rightarrow> div_search" where
  "div_scan uClk b [] st = st"
| "div_scan uClk b ((m, d) # ps) st =
    (let st = div_step uClk b (of_nat m) (of_nat d) st
     in if best_error st = 0 then st else div_scan uClk b ps st)"

lemma div_scan_append:
  "best_error st \<noteq> 0 \<Longrightarrow> div_scan uClk b (ps @ qs) st =
    (let st' = div_scan uClk b ps st in if best_error st' = 0 then st' else div_scan uClk b qs st')"
  by (induction uClk b ps st rule: div_scan.induct) (simp_all add: Let_def)

lemma div_inner_scan: "div_inner uClk b (of_nat m) ds st = div_scan uClk b (map (Pair m) ds) st"
  by (induction ds arbitrary: st) (simp_all add: Let_def)

lemma div_outer_scan:
  "best_error st \<noteq> 0 \<Longrightarrow> div_outer uClk b ms st = div_scan uClk b (concat (map (\<lambda>m. map (Pair m) [0..<m]) ms)) st"
  by (induction ms arbitrary: st) (simp_all add: div_scan_append div_inner_scan Let_def)

text \<open>The invariant of the scan: the best of the fractions seen so far, if any is in range.\<close>

definition best_of :: "nat \<Rightarrow> nat \<Rightarrow> (nat \<times> nat) set \<Rightarrow> div_search \<Rightarrow> bool" where
  "best_of c b S st \<longleftrightarrow>
    (best_error st = 0xFFFFFFFF \<and> best_divisor st = 0 \<and> (\<forall>(m, d) \<in> S. \<not> in_range (exact_divisor c b m d)))
    \<or> (\<exists>m d. (m, d) \<in> S \<and> bestm st = of_nat m \<and> bestd st = of_nat d
         \<and> in_range (exact_divisor c b m d)
         \<and> best_divisor st = of_nat (round_divisor (exact_divisor c b m d))
         \<and> unat (best_error st) = round_error (exact_divisor c b m d)
         \<and> (\<forall>(m', d') \<in> S. in_range (exact_divisor c b m' d') \<longrightarrow>
              round_error (exact_divisor c b m d) \<le> round_error (exact_divisor c b m' d')))"

lemma best_of_step:
  fixes uClk b :: u32
  assumes "best_of (unat uClk) (unat b) S st" "m \<le> 15" "d < m" "unat b * 30 < 2 ^ 32"
  shows "best_of (unat uClk) (unat b) (insert (m, d) S) (div_step uClk b (of_nat m) (of_nat d) st)"
proof -
  define q where "q = exact_divisor (unat uClk) (unat b) m d"
  have r: "round_error q < 0xFFFFFFFF" using round_error_le [of q] by simp
  then have u: "unat (of_nat (round_error q) :: u32) = round_error q" by (intro unat_of_nat_small) simp
  note step = div_step_nat [OF assms(2-4), of uClk st, folded q_def, unfolded Let_def]
  show ?thesis
  proof (cases "in_range q \<and> round_error q < unat (best_error st)")
    case True
    then have s: "div_step uClk b (of_nat m) (of_nat d) st = \<lparr>best_error = of_nat (round_error q),
        best_divisor = of_nat (round_divisor q), bestd = of_nat d, bestm = of_nat m\<rparr>" by (simp add: step)
    have "round_error q \<le> round_error (exact_divisor (unat uClk) (unat b) m' d')"
      if "(m', d') \<in> S" "in_range (exact_divisor (unat uClk) (unat b) m' d')" for m' d'
      using assms(1) that True unfolding best_of_def by force
    then show ?thesis unfolding s best_of_def using True u
      by (intro disjI2 exI [of _ m] exI [of _ d]) (auto simp: q_def)
  next
    case False
    then have s: "div_step uClk b (of_nat m) (of_nat d) st = st" unfolding step by (rule if_not_P)
    from assms(1) consider
      "best_error st = 0xFFFFFFFF" "best_divisor st = 0" "\<forall>(m, d) \<in> S. \<not> in_range (exact_divisor (unat uClk) (unat b) m d)"
      | m1 d1 where "(m1, d1) \<in> S" "bestm st = of_nat m1" "bestd st = of_nat d1"
         "in_range (exact_divisor (unat uClk) (unat b) m1 d1)"
         "best_divisor st = of_nat (round_divisor (exact_divisor (unat uClk) (unat b) m1 d1))"
         "unat (best_error st) = round_error (exact_divisor (unat uClk) (unat b) m1 d1)"
         "\<forall>(m', d') \<in> S. in_range (exact_divisor (unat uClk) (unat b) m' d') \<longrightarrow>
              round_error (exact_divisor (unat uClk) (unat b) m1 d1) \<le> round_error (exact_divisor (unat uClk) (unat b) m' d')"
      unfolding best_of_def by blast
    then show ?thesis
    proof cases
      case 1
      with False r have "\<not> in_range q" by simp
      with 1 show ?thesis unfolding s best_of_def by (auto simp: q_def)
    next
      case 2
      with False have "in_range q \<longrightarrow> round_error (exact_divisor (unat uClk) (unat b) m1 d1) \<le> round_error q"
        by auto
      with 2 show ?thesis unfolding s best_of_def
        by (intro disjI2 exI [of _ m1] exI [of _ d1]) (auto simp: q_def)
    qed
  qed
qed

lemma best_of_exact:
  assumes "best_of c b S st" "best_error st = 0" "S \<subseteq> T"
  shows "best_of c b T st"
proof -
  from assms(1,2) obtain m d where "(m, d) \<in> S" "bestm st = of_nat m" "bestd st = of_nat d"
    "in_range (exact_divisor c b m d)" "best_divisor st = of_nat (round_divisor (exact_divisor c b m d))"
    "0 = round_error (exact_divisor c b m d)"
    unfolding best_of_def by auto
  with assms(2,3) show ?thesis unfolding best_of_def by (intro disjI2 exI [of _ m] exI [of _ d]) auto
qed

lemma best_of_scan:
  fixes uClk b :: u32
  assumes "best_of (unat uClk) (unat b) S st" "unat b * 30 < 2 ^ 32" "\<forall>(m, d) \<in> set ps. m \<le> 15 \<and> d < m"
  shows "best_of (unat uClk) (unat b) (S \<union> set ps) (div_scan uClk b ps st)"
  using assms(1,3)
proof (induction ps arbitrary: S st)
  case (Cons p ps)
  obtain m d where p: "p = (m, d)" by (cases p)
  let ?st = "div_step uClk b (of_nat m) (of_nat d) st"
  have 1: "best_of (unat uClk) (unat b) (insert (m, d) S) ?st"
    using best_of_step [OF Cons.prems(1) _ _ assms(2)] Cons.prems(2) by (simp add: p)
  show ?case
  proof (cases "best_error ?st = 0")
    case True
    from best_of_exact [OF 1 this] show ?thesis using True by (auto simp: p Let_def)
  next
    case False
    with Cons.IH [OF 1] Cons.prems(2) show ?thesis by (simp add: p Let_def)
  qed
qed simp

lemma best_of_fractions:
  assumes "unat b * 30 < 2 ^ 32"
  shows "best_of (unat uClk) (unat b) (set fractions) (best_fraction uClk b)"
proof -
  let ?st = "\<lparr>best_error = 0xFFFFFFFF, best_divisor = 0, bestd = 0, bestm = 0\<rparr>"
  have "best_of (unat uClk) (unat b) {} ?st" by (simp add: best_of_def)
  from best_of_scan [OF this assms, of fractions] show ?thesis
    by (simp add: best_fraction_def div_outer_scan fractions_def)
qed

lemma set_fractions: "set fractions = {(m, d). 1 \<le> m \<and> m \<le> 15 \<and> d < m}"
  by (force simp: fractions_def)

lemma fdr_value:
  assumes "(m, d) \<in> set fractions"
  shows "(push_bit 4 (of_nat m) AND 0xF0 OR of_nat d AND 0x0F) AND 0xFF = (of_nat (16 * m + d) :: u32)"
proof -
  have "list_all (\<lambda>(m, d). (push_bit 4 (of_nat m) AND 0xF0 OR of_nat d AND 0x0F) AND 0xFF = (of_nat (16 * m + d) :: u32)) fractions"
    by code_simp
  with assms show ?thesis by (auto simp: list_all_iff)
qed

lemma latch_bytes:
  assumes "n \<le> 65536"
  shows "ucast ((of_nat n :: u64) AND 0xFF) AND 0xFF = (of_nat (n mod 256) :: u32)"
    "ucast (drop_bit 8 (of_nat n :: u64) AND 0xFF) AND 0xFF = (of_nat (n div 256 mod 256) :: u32)"
proof -
  have m: "(0xFF :: u64) = mask 8" "(0xFF :: u32) = mask 8" by (simp_all add: mask_eq_exp_minus_1)
  have n: "unat (of_nat n :: u64) = n" using assms by (intro unat_of_nat_small) simp
  have d: "unat (drop_bit 8 (of_nat n :: u64)) = n div 256"
  proof -
    have "take_bit 64 n = n" using assms by (simp add: take_bit_nat_eq_self_iff)
    then show ?thesis by (simp only: unsigned_drop_bit_eq n) (simp add: drop_bit_eq_div)
  qed
  have "unat (ucast (v AND 0xFF) AND 0xFF :: u32) = unat v mod 256" for v :: u64
    unfolding m take_bit_eq_mask [symmetric]
    by (simp only: unsigned_ucast_eq unsigned_take_bit_eq) (simp add: take_bit_eq_mod mod_mod_cancel)
  from this [of "of_nat n"] this [of "drop_bit 8 (of_nat n)"] show
    "ucast ((of_nat n :: u64) AND 0xFF) AND 0xFF = (of_nat (n mod 256) :: u32)"
    "ucast (drop_bit 8 (of_nat n :: u64) AND 0xFF) AND 0xFF = (of_nat (n div 256 mod 256) :: u32)"
    by (simp_all only: n d word_unat_eq_iff) (simp_all add: unat_of_nat_small)
qed

lemma and_FF_idem: "(v AND 0xFF) AND m = v AND (0xFF AND m)" for v :: u32
  by (simp add: and.assoc)

lemma reg8_or_fields:
  "\<exists>l. tr (reg8_or dev a v w) = Wr a ((l OR v) AND 0xFF) # Rd a l # tr w \<and> l AND 0xFF = l"
  by (intro exI [of _ "dev (tr w) a AND 0xFF"]) (simp add: reg8_or_def rd8_def wr8_def Let_def and.assoc)

lemma reg8_and_fields:
  "\<exists>l. tr (reg8_and dev a v w) = Wr a (l AND v AND 0xFF) # Rd a l # tr w \<and> l AND 0xFF = l"
  by (intro exI [of _ "dev (tr w) a AND 0xFF"]) (simp add: reg8_and_def rd8_def wr8_def Let_def and.assoc)

text \<open>The register accesses of a successful call.\<close>

definition latch_divisors :: "device \<Rightarrow> u32 \<Rightarrow> div_search \<Rightarrow> 'a world_scheme \<Rightarrow> 'a world_scheme" where
  "latch_divisors dev x b w =
    wr (UART_FDR x) ((push_bit 4 (bestm b) AND 0xF0 OR bestd b AND 0x0F) AND 0xFF)
      (reg8_and dev (UART_LCR x) 0x7F (wr8 (UART_DLL x) (ucast (best_divisor b AND 0xFF))
        (wr8 (UART_DLM x) (ucast (drop_bit 8 (best_divisor b) AND 0xFF)) (reg8_or dev (UART_LCR x) 0x80 w))))"

lemma latch_divisors_tr:
  assumes "(m, d) \<in> set fractions" "bestm b = of_nat m" "bestd b = of_nat d" "best_divisor b = of_nat n" "n \<le> 65536"
  shows "\<exists>l l'. tr (latch_divisors dev x b w) = [Wr (UART_FDR x) (of_nat (16 * m + d)), Wr (UART_LCR x) (l' AND 0x7F), Rd (UART_LCR x) l',
                   Wr (UART_DLL x) (of_nat (n mod 256)), Wr (UART_DLM x) (of_nat (n div 256 mod 256)),
                   Wr (UART_LCR x) (l OR 0x80), Rd (UART_LCR x) l] @ tr w"
proof -
  obtain l where l: "tr (reg8_or dev (UART_LCR x) 0x80 w) = Wr (UART_LCR x) ((l OR 0x80) AND 0xFF) # Rd (UART_LCR x) l # tr w"
    "l AND 0xFF = l" using reg8_or_fields by blast
  define w1 where "w1 = wr8 (UART_DLL x) (ucast (best_divisor b AND 0xFF))
        (wr8 (UART_DLM x) (ucast (drop_bit 8 (best_divisor b) AND 0xFF)) (reg8_or dev (UART_LCR x) 0x80 w))"
  obtain l' where l': "tr (reg8_and dev (UART_LCR x) 0x7F w1) = Wr (UART_LCR x) (l' AND 0x7F AND 0xFF) # Rd (UART_LCR x) l' # tr w1"
    using reg8_and_fields by blast
  have "(l OR 0x80) AND 0xFF = l OR 0x80" using l(2) by (simp add: bit.conj_disj_distrib2)
  then have "tr (latch_divisors dev x b w) = [Wr (UART_FDR x) (of_nat (16 * m + d)), Wr (UART_LCR x) (l' AND 0x7F), Rd (UART_LCR x) l',
                   Wr (UART_DLL x) (of_nat (n mod 256)), Wr (UART_DLM x) (of_nat (n div 256 mod 256)),
                   Wr (UART_LCR x) (l OR 0x80), Rd (UART_LCR x) l] @ tr w"
    unfolding latch_divisors_def w1_def [symmetric] wr_fields l' assms(2,3) fdr_value [OF assms(1)]
    unfolding w1_def wr8_def wr_fields assms(4) latch_bytes [OF assms(5)] l(1) by (simp add: and.assoc)
  then show ?thesis by blast
qed

text \<open>The baud rate that a divisor and a fraction yield, as the driver computes it, and its acceptance test.\<close>

definition programmed_baud :: "nat \<Rightarrow> nat \<Rightarrow> nat \<Rightarrow> nat \<Rightarrow> nat" where
  "programmed_baud c m d n = c div 16 * m div (n * (m + d))"

definition baud_off :: "nat \<Rightarrow> nat \<Rightarrow> bool" where
  "baud_off r b \<longleftrightarrow> 3 * b \<le> 100 * (if r < b then b - r else r - b)"

lemma programmed_baud_bound:
  assumes "in_range (exact_divisor c b m d)" "0 < b" "0 < m"
  defines "n \<equiv> round_divisor (exact_divisor c b m d)"
  shows "programmed_baud c m d n < 2 * b"
proof -
  let ?q = "exact_divisor c b m d"
  have n: "1 \<le> n" using assms(1) by (simp add: in_range_def n_def)
  have "?q < 2 ^ 32 * n + 2 ^ 31 + 1"
  proof -
    define a r where "a = ?q div 2 ^ 32" and "r = ?q mod 2 ^ 32"
    have q: "?q = 4294967296 * a + r" "r < 4294967296" by (simp_all add: a_def r_def)
    have "n = (if 2147483648 < r then a + 1 else a)" by (simp add: n_def round_divisor_def a_def r_def)
    then show ?thesis using q by (cases "2147483648 < r") simp_all
  qed
  then have "?q < 2 ^ 33 * n" using n by simp
  then have "c * 2 ^ 28 * m < 2 ^ 33 * n * (b * (m + d))"
    using assms(2,3) unfolding exact_divisor_def by (simp add: div_less_iff_less_mult)
  then have c: "c * m < 32 * (b * (n * (m + d)))" by (simp add: mult.left_commute)
  have "c div 16 * 16 * m \<le> c * m" by (intro mult_le_mono) simp_all
  then have "16 * (c div 16 * m) \<le> c * m" by (metis mult.assoc mult.commute)
  with c have "c div 16 * m < 2 * (b * (n * (m + d)))" by linarith
  then have "c div 16 * m < 2 * b * (n * (m + d))" by (simp only: mult.assoc)
  then show ?thesis unfolding programmed_baud_def using n assms(3) by (simp add: div_less_iff_less_mult)
qed

lemma recalcbaud_nat:
  fixes uClk b :: u32
  assumes "m \<le> 15" "d < m" "1 \<le> n" "n \<le> 65536" 
  shows "unat (ucast (ucast (drop_bit 4 uClk * of_nat m :: u32) div (of_nat n * ucast (of_nat m + of_nat d :: u32) :: u64)) :: u32)
    = programmed_baud (unat uClk) m d n"
proof -
  have c: "unat uClk < 2 ^ 32" by (rule unat_u32_less)
  then have t: "take_bit 32 (unat uClk) = unat uClk" by (simp only: take_bit_nat_eq_self_iff)
  have s: "unat (drop_bit 4 uClk) = unat uClk div 16" unfolding unsigned_drop_bit_eq by (simp add: drop_bit_eq_div t)
  have m: "unat (of_nat m :: u32) = m" using assms(1) by (simp add: unat_of_nat_small)
  have "unat uClk div 16 * m \<le> unat uClk div 16 * 15" using assms(1) by (intro mult_le_mono) simp_all
  also have lt: "\<dots> < 2 ^ 32" using c by simp
  finally have l1: "unat uClk div 16 * m < 2 ^ 32" .
  then have p: "unat (drop_bit 4 uClk * of_nat m) = unat uClk div 16 * m"
    using unat_mult_lem [of "drop_bit 4 uClk" "of_nat m"] s m by simp
  have md: "unat (ucast (of_nat m + of_nat d :: u32) :: u64) = m + d"
    using assms(1,2) unat_of_nat_small [of "m + d", where 'a = 32] by (simp add: unat_u64_of_u32)
  have n: "unat (of_nat n :: u64) = n" using assms(4) by (simp add: unat_of_nat_small)
  have "n * (m + d) \<le> 65536 * 30" using assms(1,2,4) by (intro mult_le_mono) simp_all
  then have "unat ((of_nat n :: u64) * ucast (of_nat m + of_nat d :: u32)) = n * (m + d)"
    using unat_mult_lem [of "of_nat n :: u64" "ucast (of_nat m + of_nat d :: u32)"] n md by simp
  then have "unat (ucast (drop_bit 4 uClk * of_nat m :: u32) div (of_nat n * ucast (of_nat m + of_nat d :: u32) :: u64))
     = programmed_baud (unat uClk) m d n"
    by (simp add: unat_div unat_u64_of_u32 p programmed_baud_def)
  moreover have "programmed_baud (unat uClk) m d n < 2 ^ 32"
    unfolding programmed_baud_def using l1 by (rule le_less_trans [OF div_le_dividend])
  ultimately show ?thesis by (simp add: unsigned_ucast_eq take_bit_nat_eq_self_iff)
qed

lemma accept_nat:
  fixes r b :: u32
  assumes "0 < b" "b < 2 ^ 25" "unat r < 2 * unat b"
  shows "(if r < b then b - r else r - b) * 100 div b < 3 \<longleftrightarrow> \<not> baud_off (unat r) (unat b)"
proof -
  let ?e = "if r < b then b - r else r - b"
  have b: "0 < unat b" "unat b < 2 ^ 25" using assms(1,2) by (simp_all add: word_less_nat_alt)
  have e: "unat ?e = (if unat r < unat b then unat b - unat r else unat r - unat b)"
    by (auto simp: word_less_nat_alt unat_sub_if')
  have "unat ?e \<le> unat b" unfolding e using assms(3) by auto
  then have "unat (?e * 100) = unat ?e * 100" using b(2) unat_mult_lem [of ?e 100] by simp
  then have "unat (?e * 100 div b) = unat ?e * 100 div unat b" by (simp only: unat_div)
  moreover have "unat (3 :: u32) = 3" by simp
  ultimately have "?e * 100 div b < 3 \<longleftrightarrow> unat ?e * 100 div unat b < 3" by (simp only: word_less_nat_alt)
  then show ?thesis using b(1) unfolding baud_off_def e by (simp add: div_less_iff_less_mult ac_simps not_le)
qed
lemma best_of_none:
  assumes "best_of c b S st" "best_divisor st = 0"
  shows "\<forall>(m, d) \<in> S. \<not> in_range (exact_divisor c b m d)"
proof -
  have "\<not> in_range q" if "(of_nat (round_divisor q) :: u64) = 0" for q
  proof
    assume "in_range q"
    then have "0 < round_divisor q" "round_divisor q < 2 ^ LENGTH(64)" by (simp_all add: in_range_def)
    then show False using that unat_of_nat_small [of "round_divisor q", where 'a = 64] by simp
  qed
  then show ?thesis using assms unfolding best_of_def by auto
qed

lemma set_divisors_accept:
  fixes w :: "'a world_scheme" and baudrate :: u32
  defines "c \<equiv> unat (PeripheralClock w)"
  assumes b: "0 < baudrate" "baudrate < 2 ^ 25" and st: "st = best_fraction (PeripheralClock w) baudrate" "best_divisor st \<noteq> 0"
    and md: "(m, d) \<in> set fractions" "bestm st = of_nat m" "bestd st = of_nat d"
    and r: "in_range (exact_divisor c (unat baudrate) m d)"
      "best_divisor st = of_nat (round_divisor (exact_divisor c (unat baudrate) m d))"
  shows "uart_set_divisors dev x baudrate w =
    (if \<not> baud_off (programmed_baud c m d (round_divisor (exact_divisor c (unat baudrate) m d))) (unat baudrate)
     then (SUCCESS, latch_divisors dev x st w) else (ERROR, w))"
proof -
  let ?n = "round_divisor (exact_divisor c (unat baudrate) m d)"
  let ?r = "ucast (ucast (drop_bit 4 (PeripheralClock w) * bestm st) div (best_divisor st * ucast (bestm st + bestd st)) :: u64) :: u32"
  have f: "m \<le> 15" "d < m" "1 \<le> ?n" "?n \<le> 65536" "0 < m" "0 < unat baudrate"
    using md(1) r(1) b(1) by (auto simp: set_fractions in_range_def word_less_nat_alt)
  have rn: "unat ?r = programmed_baud c m d ?n"
    unfolding md(2,3) r(2) c_def by (rule recalcbaud_nat [OF f(1-4) [unfolded c_def]])
  have lt: "unat ?r < 2 * unat baudrate" unfolding rn by (rule programmed_baud_bound [OF r(1) f(6,5)])
  show ?thesis unfolding rn [symmetric] accept_nat [OF b lt, symmetric]
    unfolding uart_set_divisors_def st(1) [symmetric] latch_divisors_def Let_def using st(2) by (simp only: if_False)
qed

text \<open>
  C31. The divisor search of \<open>uart_set_divisors\<close>, with its 64-bit fixed-point arithmetic and its early exits, finds an
  optimum, for every baud rate from 1 to below \<open>2 ^ 25\<close> (so that the 32-bit products cannot wrap) and every
  peripheral clock. The candidates are the fractions \<open>m / (m + d)\<close> with 1 \<open>\<le>\<close> m \<open>\<le>\<close> 15 and d < m whose nearest
  integer divisor is between 1 and 65536; an optimal one has the smallest rounding error.
  If the driver programs the UART, it chose an optimal candidate whose resulting baud rate is
  less than 3 percent off, and it wrote exactly that divisor (its two low bytes) and that fraction,
  with the divisor latch opened before and closed after. It reports an error only if there is no
  candidate or an optimal one is off by 3 percent or more, and then no register was touched.
\<close>

theorem uart_divisors_optimal:
  fixes w :: "'a world_scheme"
  assumes "0 < baudrate" "baudrate < 2 ^ 25" "uart_set_divisors dev x baudrate w = (st, w')"
  shows "let c = unat (PeripheralClock w); b = unat baudrate; q = exact_divisor c b;
             F = {(m, d). 1 \<le> m \<and> m \<le> 15 \<and> d < m};
             optimal = (\<lambda>m d. (m, d) \<in> F \<and> in_range (q m d)
               \<and> (\<forall>(m', d') \<in> F. in_range (q m' d') \<longrightarrow> round_error (q m d) \<le> round_error (q m' d')));
             off = (\<lambda>m d. baud_off (programmed_baud c m d (round_divisor (q m d))) b)
    in case st of
      ERROR \<Rightarrow> w' = w \<and> ((\<forall>(m, d) \<in> F. \<not> in_range (q m d)) \<or> (\<exists>m d. optimal m d \<and> off m d))
    | SUCCESS \<Rightarrow> \<exists>m d l l'. optimal m d \<and> \<not> off m d
        \<and> tr w' = [Wr (UART_FDR x) (of_nat (16 * m + d)), Wr (UART_LCR x) (l' AND 0x7F), Rd (UART_LCR x) l',
                   Wr (UART_DLL x) (of_nat (round_divisor (q m d) mod 256)),
                   Wr (UART_DLM x) (of_nat (round_divisor (q m d) div 256 mod 256)),
                   Wr (UART_LCR x) (l OR 0x80), Rd (UART_LCR x) l] @ tr w"
proof -
  define b where "b = best_fraction (PeripheralClock w) baudrate"
  define q where "q = exact_divisor (unat (PeripheralClock w)) (unat baudrate)"
  let ?off = "\<lambda>m d. baud_off (programmed_baud (unat (PeripheralClock w)) m d (round_divisor (q m d))) (unat baudrate)"
  have "unat baudrate * 30 < 2 ^ 32" using assms(2) by (simp add: word_less_nat_alt)
  then have best: "best_of (unat (PeripheralClock w)) (unat baudrate) (set fractions) b"
    unfolding b_def by (rule best_of_fractions)
  show ?thesis
  proof (cases "best_divisor b = 0")
    case True
    then have st: "st = ERROR" "w' = w" using assms(3) by (simp_all add: uart_set_divisors_def Let_def b_def)
    have "\<forall>(m, d) \<in> set fractions. \<not> in_range (q m d)" using best_of_none [OF best True] by (simp add: q_def)
    then show ?thesis unfolding q_def [symmetric] Let_def set_fractions [symmetric] by (simp add: st)
  next
    case False
    with best obtain m d where md: "(m, d) \<in> set fractions" "bestm b = of_nat m" "bestd b = of_nat d"
      "in_range (q m d)" "best_divisor b = of_nat (round_divisor (q m d))"
      "\<forall>(m', d') \<in> set fractions. in_range (q m' d') \<longrightarrow> round_error (q m d) \<le> round_error (q m' d')"
      unfolding best_of_def q_def by blast
    have eq: "uart_set_divisors dev x baudrate w = (if \<not> ?off m d then (SUCCESS, latch_divisors dev x b w) else (ERROR, w))"
      unfolding q_def
      by (rule set_divisors_accept [OF assms(1,2) b_def False md(1-3) md(4,5) [unfolded q_def]])
    show ?thesis
    proof (cases "?off m d")
      case True
      then have st: "st = ERROR" and w': "w' = w" using assms(3) eq by simp_all
      show ?thesis unfolding q_def [symmetric] Let_def set_fractions [symmetric] st Status.case using md(1,4,6) True w' by blast
    next
      case False
      then have st: "st = SUCCESS" and w': "w' = latch_divisors dev x b w" using assms(3) eq by simp_all
      obtain l l' where "tr w' = [Wr (UART_FDR x) (of_nat (16 * m + d)), Wr (UART_LCR x) (l' AND 0x7F), Rd (UART_LCR x) l',
                   Wr (UART_DLL x) (of_nat (round_divisor (q m d) mod 256)),
                   Wr (UART_DLM x) (of_nat (round_divisor (q m d) div 256 mod 256)),
                   Wr (UART_LCR x) (l OR 0x80), Rd (UART_LCR x) l] @ tr w"
        using latch_divisors_tr [OF md(1-3,5)] md(4) unfolding w' in_range_def by blast
      then show ?thesis unfolding q_def [symmetric] Let_def set_fractions [symmetric] st Status.case
        using md(1,4,6) False by blast
    qed
  qed
qed

text \<open>250000 baud from the 60 MHz peripheral clock, which is exact.\<close>

definition demo_world :: world where
  "demo_world = \<lparr>tr = [], mem = (\<lambda>_. 0), SystemCoreClock = 120000000, PeripheralClock = 60000000,
     EMCClock = 60000000, USBClock = 0\<rparr>"

lemma demo_divisors: "fst (uart_set_divisors (\<lambda>_ _. 0) LPC_UART0 250000 demo_world) = SUCCESS"
  by code_simp

theorem uart_divisors_optimal_witness:
  "\<exists>w' m d. uart_set_divisors (\<lambda>_ _. 0) LPC_UART0 250000 demo_world = (SUCCESS, w')
    \<and> (m, d) \<in> {(m, d). 1 \<le> m \<and> m \<le> 15 \<and> d < m}
    \<and> hd (tr w') = Wr (UART_FDR LPC_UART0) (of_nat (16 * m + d))
    \<and> (\<forall>(m', d') \<in> {(m, d). 1 \<le> m \<and> m \<le> 15 \<and> d < m}.
        in_range (exact_divisor (unat (PeripheralClock demo_world)) (unat (250000 :: u32)) m' d') \<longrightarrow>
        round_error (exact_divisor (unat (PeripheralClock demo_world)) (unat (250000 :: u32)) m d)
          \<le> round_error (exact_divisor (unat (PeripheralClock demo_world)) (unat (250000 :: u32)) m' d'))"
proof -
  obtain w' where w': "uart_set_divisors (\<lambda>_ _. 0) LPC_UART0 250000 demo_world = (SUCCESS, w')"
    using demo_divisors by (cases "uart_set_divisors (\<lambda>_ _. 0) LPC_UART0 250000 demo_world") auto
  have small: "(0 :: u32) < 250000" "(250000 :: u32) < 2 ^ 25" by simp_all
  from uart_divisors_optimal [OF small w', unfolded Let_def Status.case] obtain m d l l' where
    md: "(m, d) \<in> {(m, d). 1 \<le> m \<and> m \<le> 15 \<and> d < m}"
    "\<forall>(m', d') \<in> {(m, d). 1 \<le> m \<and> m \<le> 15 \<and> d < m}.
        in_range (exact_divisor (unat (PeripheralClock demo_world)) (unat (250000 :: u32)) m' d') \<longrightarrow>
        round_error (exact_divisor (unat (PeripheralClock demo_world)) (unat (250000 :: u32)) m d)
          \<le> round_error (exact_divisor (unat (PeripheralClock demo_world)) (unat (250000 :: u32)) m' d')"
    and t: "tr w' = [Wr (UART_FDR LPC_UART0) (of_nat (16 * m + d)), Wr (UART_LCR LPC_UART0) (l' AND 0x7F), Rd (UART_LCR LPC_UART0) l',
       Wr (UART_DLL LPC_UART0) (of_nat (round_divisor (exact_divisor (unat (PeripheralClock demo_world)) (unat (250000 :: u32)) m d) mod 256)),
       Wr (UART_DLM LPC_UART0) (of_nat (round_divisor (exact_divisor (unat (PeripheralClock demo_world)) (unat (250000 :: u32)) m d) div 256 mod 256)),
       Wr (UART_LCR LPC_UART0) (l OR 0x80), Rd (UART_LCR LPC_UART0) l] @ tr demo_world"
    by (elim exE conjE) (rule that; assumption)
  have "hd (tr w') = Wr (UART_FDR LPC_UART0) (of_nat (16 * m + d))" by (subst t) (simp only: append_Cons list.sel)
  with w' md show ?thesis by (intro exI [of _ w']) (rule exI [of _ m], rule exI [of _ d], intro conjI)
qed

end
