(* ===== verification/Board.thy ===== *)
theory Board
  imports I2C_App Uart
begin

text \<open>
  The board's bring-up and its housekeeping task, \<^verbatim>\<open>src/main.c\<close>: console and pin set-up, the order in
  which the power supplies and the JTAG scan switch are enabled, the programming of the clock
  generators, and the loop that blinks the LEDs, holds the Ethernet PHY in reset until the FPGA is
  configured and powers the rear module (RTM) only while it is plugged in.

  The statement \<open>LPC_GPIOn->SET |= m\<close> is a load and a store, as the compiler makes it. What a pin is
  driven to is read off the history of stores (\<open>latch\<close>); the properties assume what the processor's
  manual says of the GPIO ports: SET reads back the output latch, DIR what was stored in it, and the
  write-only register CLR reads as zero (\<open>gpio_contract\<close>).
\<close>

section \<open>GPIO registers\<close>

definition GPIO_DIR :: "u32 \<Rightarrow> u32" where "GPIO_DIR p = p"
definition GPIO_PIN :: "u32 \<Rightarrow> u32" where "GPIO_PIN p = p + 0x14"
definition GPIO_SET :: "u32 \<Rightarrow> u32" where "GPIO_SET p = p + 0x18"
definition GPIO_CLR :: "u32 \<Rightarrow> u32" where "GPIO_CLR p = p + 0x1C"

definition bitm :: "nat \<Rightarrow> u32" where
  "bitm n = push_bit n 1"

section \<open>Power supplies\<close>

definition psu_outputs :: "device \<Rightarrow> 'a world_scheme \<Rightarrow> 'a world_scheme" where
  "psu_outputs dev w =
    (let w = reg_or dev (GPIO_DIR LPC_GPIO1) (bitm 26) w;
         w = reg_or dev (GPIO_DIR LPC_GPIO1) (bitm 28) w;
         w = reg_or dev (GPIO_DIR LPC_GPIO1) (bitm 29) w;
         w = reg_or dev (GPIO_DIR LPC_GPIO1) (bitm 30) w;
         w = reg_or dev (GPIO_DIR LPC_GPIO1) (bitm 31) w;
         w = reg_or dev (GPIO_DIR LPC_GPIO4) (bitm 18) w;
         w = reg_or dev (GPIO_DIR LPC_GPIO4) (bitm 25) w;
         w = reg_or dev (GPIO_DIR LPC_GPIO4) (bitm 26) w;
         w = reg_or dev (GPIO_DIR LPC_GPIO4) (bitm 27) w;
         w = reg_or dev (GPIO_DIR LPC_GPIO4) (bitm 28) w;
         w = reg_or dev (GPIO_DIR LPC_GPIO4) (bitm 29) w;
         w = reg_or dev (GPIO_DIR LPC_GPIO4) (bitm 30) w;
         w = reg_or dev (GPIO_DIR LPC_GPIO4) (bitm 31) w;
         w = reg_or dev (GPIO_DIR LPC_GPIO4) (bitm 19) w;
         w = reg_and dev (GPIO_DIR LPC_GPIO0) (NOT (bitm 29)) w;
         w = reg_and dev (GPIO_DIR LPC_GPIO0) (NOT (bitm 5)) w;
         w = reg_or dev (GPIO_SET LPC_GPIO1) (bitm 28) w;
         w = reg_or dev (GPIO_SET LPC_GPIO1) (bitm 29) w;
         w = reg_or dev (GPIO_SET LPC_GPIO1) (bitm 31) w;
         w = delay_ms 200 w;
         w = reg_or dev (GPIO_DIR LPC_GPIO3) (bitm 5) w;
         w = reg_or dev (GPIO_DIR LPC_GPIO3) (bitm 4) w
     in w)"

definition scansta_select :: "device \<Rightarrow> 'a world_scheme \<Rightarrow> 'a world_scheme" where
  "scansta_select dev w =
    (let w = reg_or dev (GPIO_CLR LPC_GPIO4) (bitm 18) w;
         w = delay_ms 10 w;
         w = reg_or dev (GPIO_CLR LPC_GPIO4) (bitm 25) w;
         w = reg_or dev (GPIO_CLR LPC_GPIO4) (bitm 26) w;
         w = reg_or dev (GPIO_SET LPC_GPIO4) (bitm 27) w;
         w = reg_or dev (GPIO_CLR LPC_GPIO4) (bitm 28) w;
         w = reg_or dev (GPIO_CLR LPC_GPIO4) (bitm 29) w;
         w = reg_or dev (GPIO_CLR LPC_GPIO4) (bitm 31) w;
         w = reg_or dev (GPIO_CLR LPC_GPIO4) (bitm 19) w;
         (pin, w) = rd dev (GPIO_PIN LPC_GPIO0) w;
         w = (if pin AND bitm 29 \<noteq> 0 then reg_or dev (GPIO_CLR LPC_GPIO4) (bitm 30) w
              else reg_or dev (GPIO_SET LPC_GPIO4) (bitm 30) w);
         w = delay_ms 10 w;
         w = reg_or dev (GPIO_SET LPC_GPIO4) (bitm 18) w;
         w = reg_or dev (GPIO_DIR LPC_GPIO2) (bitm 29) w;
         w = reg_or dev (GPIO_CLR LPC_GPIO2) (bitm 29) w;
         w = reg_or dev (GPIO_DIR LPC_GPIO2) (bitm 28) w;
         w = reg_or dev (GPIO_CLR LPC_GPIO2) (bitm 28) w;
         w = reg_or dev (GPIO_CLR LPC_GPIO1) (bitm 30) w;
         w = reg_or dev (GPIO_CLR LPC_GPIO1) (bitm 26) w;
         w = reg_or dev (GPIO_DIR LPC_GPIO1) (bitm 26) w;
         w = reg_or dev (GPIO_DIR LPC_GPIO1) (bitm 30) w
     in w)"

definition phy_strap :: "device \<Rightarrow> 'a world_scheme \<Rightarrow> 'a world_scheme" where
  "phy_strap dev w =
    (let w = reg_or dev (GPIO_DIR LPC_GPIO0) (bitm 23) w;
         w = reg_or dev (GPIO_CLR LPC_GPIO0) (bitm 23) w;
         w = reg_or dev (GPIO_DIR LPC_GPIO2) (bitm 2) w;
         w = reg_or dev (GPIO_SET LPC_GPIO2) (bitm 2) w;
         w = reg_or dev (GPIO_DIR LPC_GPIO0) (bitm 25) w;
         w = reg_or dev (GPIO_CLR LPC_GPIO0) (bitm 25) w;
         w = reg_or dev (GPIO_DIR LPC_GPIO0) (bitm 24) w;
         w = reg_or dev (GPIO_SET LPC_GPIO0) (bitm 24) w;
         w = reg_or dev (GPIO_DIR LPC_GPIO0) (bitm 26) w;
         w = reg_or dev (GPIO_SET LPC_GPIO0) (bitm 26) w;
         w = reg_or dev (GPIO_DIR LPC_GPIO0) (bitm 23) w;
         w = reg_or dev (GPIO_SET LPC_GPIO0) (bitm 23) w;
         w = reg_or dev (GPIO_DIR LPC_GPIO0) (bitm 31) w;
         w = reg_or dev (GPIO_CLR LPC_GPIO0) (bitm 31) w
     in w)"

definition psu_init :: "device \<Rightarrow> 'a world_scheme \<Rightarrow> 'a world_scheme" where
  "psu_init dev w = phy_strap dev (scansta_select dev (psu_outputs dev w))"

section \<open>The LED and rear-module task\<close>

text \<open>One pass of the loop of \<open>vblinkIFTask\<close>; the two LED phases, the PHY reset, the rear module's power.\<close>

definition rtm_power :: "device \<Rightarrow> 'a world_scheme \<Rightarrow> 'a world_scheme" where
  "rtm_power dev w =
    (let (pin, w) = rd dev (GPIO_PIN LPC_GPIO0) w in
     if pin AND bitm 29 \<noteq> 0 then
       (let w = reg_or dev (GPIO_CLR LPC_GPIO1) (bitm 30) w
        in reg_or dev (GPIO_CLR LPC_GPIO1) (bitm 26) w)
     else
       (let w = reg_or dev (GPIO_SET LPC_GPIO1) (bitm 30) w
        in reg_or dev (GPIO_SET LPC_GPIO1) (bitm 26) w))"

definition phy_reset :: "device \<Rightarrow> 'a world_scheme \<Rightarrow> 'a world_scheme" where
  "phy_reset dev w =
    (let (pin, w) = rd dev (GPIO_PIN LPC_GPIO0) w in
     if pin AND bitm 5 \<noteq> 0 then
       (let w = reg_or dev (GPIO_DIR LPC_GPIO0) (bitm 23) w;
            w = reg_or dev (GPIO_SET LPC_GPIO0) (bitm 23) w;
            w = reg_or dev (GPIO_DIR LPC_GPIO0) (bitm 31) w;
            w = reg_or dev (GPIO_SET LPC_GPIO0) (bitm 31) w
        in w)
     else
       (let w = reg_or dev (GPIO_DIR LPC_GPIO0) (bitm 23) w;
            w = reg_or dev (GPIO_CLR LPC_GPIO0) (bitm 23) w;
            w = reg_or dev (GPIO_DIR LPC_GPIO0) (bitm 31) w;
            w = reg_or dev (GPIO_CLR LPC_GPIO0) (bitm 31) w
        in w))"

definition blink_leds :: "device \<Rightarrow> 'a world_scheme \<Rightarrow> 'a world_scheme" where
  "blink_leds dev w =
    (let w = reg_or dev (GPIO_CLR LPC_GPIO3) (bitm 5) w;
         w = reg_or dev (GPIO_SET LPC_GPIO3) (bitm 4) w;
         w = say (Sleep (1000 div 5)) w;
         w = reg_or dev (GPIO_SET LPC_GPIO3) (bitm 5) w;
         w = reg_or dev (GPIO_CLR LPC_GPIO3) (bitm 4) w
     in say (Sleep (1000 div 5)) w)"

definition vblinkIFTask_pass :: "device \<Rightarrow> 'a world_scheme \<Rightarrow> 'a world_scheme" where
  "vblinkIFTask_pass dev w = rtm_power dev (phy_reset dev (blink_leds dev w))"

section \<open>The link monitor\<close>

text \<open>
  One pass of the loop of \<open>vSetupIFTask\<close> that watches the Ethernet link: \<open>physts\<close> is what
  \<open>EMAC_CheckPHYStatus\<close> returned; the callbacks handed to the TCP/IP thread are \<open>netif_set_link_up\<close> and
  \<open>netif_set_link_down\<close>.
\<close>

datatype link_callback = Netif_set_link_up | Netif_set_link_down

definition vSetupIFTask_pass ::
  "int \<Rightarrow> int \<Rightarrow> 'a world_scheme \<Rightarrow> int \<times> link_callback list \<times> 'a world_scheme" where
  "vSetupIFTask_pass physts phystsprev w =
    (let (phystsprev, cb, w) =
       (if physts \<noteq> phystsprev then
          (if physts = 1 then (physts, [Netif_set_link_up], printf (''Net up'' @ [LF]) w)
           else (physts, [Netif_set_link_down], printf (''Net down'' @ [LF]) w))
        else (phystsprev, [], w))
     in (phystsprev, cb, say (Sleep (1000 div 4)) w))"

section \<open>Bring-up\<close>

definition prvSetupHardware :: "device \<Rightarrow> 'a world_scheme \<Rightarrow> 'a world_scheme option" where
  "prvSetupHardware dev w = do {
     let w = SystemCoreClockUpdate dev w;
     let w = PINSEL_ConfigPin dev 0 2 1 w;
     let w = PINSEL_ConfigPin dev 0 3 1 w;
     let cfg = UART_ConfigStructInit\<lparr>Baud_rate := 115200\<rparr>;
     let w = reg_or dev (GPIO_DIR LPC_GPIO2) (bitm 26) w;
     w \<leftarrow> UART_Init dev LPC_UART0 cfg w;
     Some (UART_TxCmd dev LPC_UART0 ENABLE w) }"

text \<open>
  \<open>main\<close> up to the banner: \<open>xfer\<close> and \<open>buf\<close> are the addresses of the locals of the I2C helpers. The rear
  module is powered and its clock generator programmed only if it is present.
\<close>

definition main_rtm :: "device \<Rightarrow> u32 \<Rightarrow> u32 \<Rightarrow> i2c_state \<Rightarrow> i2c_state option" where
  "main_rtm dev xfer buf s =
    (let (pin, s) = rd dev (GPIO_PIN LPC_GPIO0) s in
     if pin AND bitm 29 \<noteq> 0 then
       (let s = reg_or dev (GPIO_CLR LPC_GPIO1) (bitm 30) s
        in Some (reg_or dev (GPIO_CLR LPC_GPIO1) (bitm 26) s))
     else do {
       let s = reg_or dev (GPIO_SET LPC_GPIO1) (bitm 30) s;
       let s = reg_or dev (GPIO_SET LPC_GPIO1) (bitm 26) s;
       let s = delay_ms 200 s;
       s \<leftarrow> i2c_RTM_PWRON dev xfer buf s;
       let s = delay_ms 1000 s;
       i2c_setSI5324_RTM dev xfer buf s })"

definition main_bringup :: "device \<Rightarrow> u32 \<Rightarrow> u32 \<Rightarrow> i2c_state \<Rightarrow> i2c_state option" where
  "main_bringup dev xfer buf s = do {
     s \<leftarrow> prvSetupHardware dev s;
     let s = psu_init dev s;
     let s = delay_ms 200 s;
     let s = i2c_init dev s;
     s \<leftarrow> i2c_setSI5324 dev xfer buf s;
     main_rtm dev xfer buf s }"

section \<open>What the pins are driven to\<close>

fun latch :: "u32 \<Rightarrow> access list \<Rightarrow> u32" where
  "latch p [] = 0"
| "latch p (Wr a v # t) =
    (if a = GPIO_SET p then latch p t OR v else if a = GPIO_CLR p then latch p t AND NOT v
     else if a = GPIO_PIN p then v else latch p t)"
| "latch p (e # t) = latch p t"

fun dirs :: "u32 \<Rightarrow> access list \<Rightarrow> u32" where
  "dirs p [] = 0"
| "dirs p (Wr a v # t) = (if a = GPIO_DIR p then v else dirs p t)"
| "dirs p (e # t) = dirs p t"

definition gpio_ports :: "u32 set" where
  "gpio_ports = {LPC_GPIO0, LPC_GPIO1, LPC_GPIO2, LPC_GPIO3, LPC_GPIO4}"

definition gpio_contract :: "device \<Rightarrow> bool" where
  "gpio_contract dev \<longleftrightarrow> (\<forall>t. \<forall>p \<in> gpio_ports.
     dev t (GPIO_SET p) = latch p t \<and> dev t (GPIO_CLR p) = 0 \<and> dev t (GPIO_DIR p) = dirs p t)"

lemma gpio_portsI [simp]:
  "LPC_GPIO0 \<in> gpio_ports" "LPC_GPIO1 \<in> gpio_ports" "LPC_GPIO2 \<in> gpio_ports" "LPC_GPIO3 \<in> gpio_ports" "LPC_GPIO4 \<in> gpio_ports"
  by (simp_all add: gpio_ports_def)

lemmas gpio_regs = GPIO_DIR_def GPIO_PIN_def GPIO_SET_def GPIO_CLR_def

lemma gpio_regs_differ [simp]:
  assumes "p \<in> gpio_ports" "p' \<in> gpio_ports"
  shows "GPIO_SET p' = GPIO_SET p \<longleftrightarrow> p' = p" "GPIO_CLR p' = GPIO_CLR p \<longleftrightarrow> p' = p" "GPIO_DIR p' = GPIO_DIR p \<longleftrightarrow> p' = p"
    "GPIO_SET p' \<noteq> GPIO_CLR p" "GPIO_SET p' \<noteq> GPIO_PIN p" "GPIO_SET p' \<noteq> GPIO_DIR p"
    "GPIO_CLR p' \<noteq> GPIO_SET p" "GPIO_CLR p' \<noteq> GPIO_PIN p" "GPIO_CLR p' \<noteq> GPIO_DIR p"
    "GPIO_DIR p' \<noteq> GPIO_SET p" "GPIO_DIR p' \<noteq> GPIO_CLR p" "GPIO_DIR p' \<noteq> GPIO_PIN p"
  using assms unfolding gpio_ports_def gpio_regs by auto

lemma latch_steps:
  assumes "gpio_contract dev" "p \<in> gpio_ports" "p' \<in> gpio_ports"
  shows "latch p (tr (reg_or dev (GPIO_SET p') m w)) = (if p' = p then latch p (tr w) OR m else latch p (tr w))"
    "latch p (tr (reg_or dev (GPIO_CLR p') m w)) = (if p' = p then latch p (tr w) AND NOT m else latch p (tr w))"
    "latch p (tr (reg_or dev (GPIO_DIR p') m w)) = latch p (tr w)"
    "latch p (tr (reg_and dev (GPIO_DIR p') m w)) = latch p (tr w)"
    "dirs p (tr (reg_or dev (GPIO_SET p') m w)) = dirs p (tr w)"
    "dirs p (tr (reg_or dev (GPIO_CLR p') m w)) = dirs p (tr w)"
    "dirs p (tr (reg_or dev (GPIO_DIR p') m w)) = (if p' = p then dirs p (tr w) OR m else dirs p (tr w))"
    "dirs p (tr (reg_and dev (GPIO_DIR p') m w)) = (if p' = p then dirs p (tr w) AND m else dirs p (tr w))"
  using assms
  by (simp_all add: gpio_contract_def or.assoc [symmetric])

lemma latch_frame [simp]:
  "latch p (tr (delay_ms n w)) = latch p (tr w)" "dirs p (tr (delay_ms n w)) = dirs p (tr w)"
  "latch p (tr (say (Sleep n) w)) = latch p (tr w)" "dirs p (tr (say (Sleep n) w)) = dirs p (tr w)"
  "latch p (tr (snd (rd dev a w))) = latch p (tr w)" "dirs p (tr (snd (rd dev a w))) = dirs p (tr w)"
  by (simp_all add: delay_ms_def)

lemma bit_bitm [simp]: "bit (bitm n) k \<longleftrightarrow> k = n \<and> n < 32"
  by (auto simp: bitm_def bit_simps)

text \<open>
  The select lines of the JTAG scan switch (port 4, pins 19 and 25 to 31) and its reset line (pin 18): in
  a history with \<open>scan_quiet\<close> no select line ever moved while the switch was out of reset.
\<close>

definition select_lines :: "u32" where
  "select_lines = bitm 19 OR bitm 25 OR bitm 26 OR bitm 27 OR bitm 28 OR bitm 29 OR bitm 30 OR bitm 31"

fun scan_quiet :: "access list \<Rightarrow> bool" where
  "scan_quiet [] = True"
| "scan_quiet (e # t) = (scan_quiet t \<and> (bit (latch LPC_GPIO4 t) 18 \<longrightarrow>
     latch LPC_GPIO4 (e # t) AND select_lines = latch LPC_GPIO4 t AND select_lines))"

lemma scan_quiet_steps:
  assumes "gpio_contract dev" "p \<in> gpio_ports"
  shows "scan_quiet (tr (reg_or dev (GPIO_SET p) m w)) = (scan_quiet (tr w) \<and> (p = LPC_GPIO4 \<longrightarrow>
      bit (latch LPC_GPIO4 (tr w)) 18 \<longrightarrow> (latch LPC_GPIO4 (tr w) OR m) AND select_lines = latch LPC_GPIO4 (tr w) AND select_lines))"
    "scan_quiet (tr (reg_or dev (GPIO_CLR p) m w)) = (scan_quiet (tr w) \<and> (p = LPC_GPIO4 \<longrightarrow>
      bit (latch LPC_GPIO4 (tr w)) 18 \<longrightarrow> (latch LPC_GPIO4 (tr w) AND NOT m) AND select_lines = latch LPC_GPIO4 (tr w) AND select_lines))"
    "scan_quiet (tr (reg_or dev (GPIO_DIR p) m w)) = scan_quiet (tr w)"
    "scan_quiet (tr (reg_and dev (GPIO_DIR p) m w)) = scan_quiet (tr w)"
  using assms by (auto simp: gpio_contract_def or.assoc [symmetric])

lemma scan_quiet_frame [simp]:
  "scan_quiet (tr (delay_ms n w)) = scan_quiet (tr w)" "scan_quiet (tr (say (Sleep n) w)) = scan_quiet (tr w)"
  "scan_quiet (tr (snd (rd dev a w))) = scan_quiet (tr w)"
  by (simp_all add: delay_ms_def)

lemma psu_outputs_latch:
  assumes "gpio_contract dev"
  shows "latch LPC_GPIO0 (tr (psu_outputs dev w)) = latch LPC_GPIO0 (tr w)"
    "latch LPC_GPIO1 (tr (psu_outputs dev w)) = latch LPC_GPIO1 (tr w) OR bitm 28 OR bitm 29 OR bitm 31"
    "latch LPC_GPIO2 (tr (psu_outputs dev w)) = latch LPC_GPIO2 (tr w)"
    "latch LPC_GPIO4 (tr (psu_outputs dev w)) = latch LPC_GPIO4 (tr w)"
    "scan_quiet (tr (psu_outputs dev w)) = scan_quiet (tr w)"
  unfolding psu_outputs_def Let_def by (simp_all add: latch_steps [OF assms] scan_quiet_steps [OF assms] or.assoc del: reg_or_fields reg_and_fields)

lemma scansta_select_latch:
  assumes "gpio_contract dev"
  shows "latch LPC_GPIO0 (tr (scansta_select dev w)) = latch LPC_GPIO0 (tr w)"
    "latch LPC_GPIO1 (tr (scansta_select dev w)) = latch LPC_GPIO1 (tr w) AND NOT (bitm 30) AND NOT (bitm 26)"
    "latch LPC_GPIO2 (tr (scansta_select dev w)) = latch LPC_GPIO2 (tr w) AND NOT (bitm 29) AND NOT (bitm 28)"
  unfolding scansta_select_def Let_def case_prod_beta
  by (simp_all add: latch_steps [OF assms] and.assoc del: reg_or_fields reg_and_fields split: if_split)

lemma history_grows:
  "e \<in> set (tr w) \<Longrightarrow> e \<in> set (tr (reg_or dev a v w))" "e \<in> set (tr w) \<Longrightarrow> e \<in> set (tr (delay_ms n w))"
  "Rd a (fst (rd dev a w)) \<in> set (tr (snd (rd dev a w)))"
  by (simp_all add: delay_ms_def)

lemma bit_and_bitm: "v AND bitm n = 0 \<longleftrightarrow> \<not> bit v n"
  by (simp add: bitm_def bit_iff_and_push_bit_not_eq_0)

lemma reset_line_no_select [simp]:
  "(v AND NOT (bitm 18)) AND select_lines = v AND select_lines" "(v OR bitm 18) AND select_lines = v AND select_lines"
  by (rule bit_word_eqI; auto simp: select_lines_def bit_simps)+

definition select_off :: "device \<Rightarrow> 'a world_scheme \<Rightarrow> 'a world_scheme" where
  "select_off dev w =
    (let w = reg_or dev (GPIO_CLR LPC_GPIO4) (bitm 18) w;
         w = delay_ms 10 w;
         w = reg_or dev (GPIO_CLR LPC_GPIO4) (bitm 25) w;
         w = reg_or dev (GPIO_CLR LPC_GPIO4) (bitm 26) w;
         w = reg_or dev (GPIO_SET LPC_GPIO4) (bitm 27) w;
         w = reg_or dev (GPIO_CLR LPC_GPIO4) (bitm 28) w;
         w = reg_or dev (GPIO_CLR LPC_GPIO4) (bitm 29) w;
         w = reg_or dev (GPIO_CLR LPC_GPIO4) (bitm 31) w
     in reg_or dev (GPIO_CLR LPC_GPIO4) (bitm 19) w)"

lemma select_off_latch:
  assumes "gpio_contract dev"
  shows "bit (latch LPC_GPIO4 (tr (select_off dev w))) n \<longleftrightarrow> n = 27
      \<or> n \<notin> {18, 19, 25, 26, 28, 29, 31} \<and> bit (latch LPC_GPIO4 (tr w)) n"
    "scan_quiet (tr w) \<Longrightarrow> scan_quiet (tr (select_off dev w))"
  unfolding select_off_def Let_def
  by (auto simp add: latch_steps [OF assms] scan_quiet_steps [OF assms] bit_simps
      simp del: reg_or_fields reg_and_fields dest: bit_imp_le_length)

definition select_on :: "device \<Rightarrow> 'a world_scheme \<Rightarrow> 'a world_scheme" where
  "select_on dev w =
    (let w = delay_ms 10 w;
         w = reg_or dev (GPIO_SET LPC_GPIO4) (bitm 18) w;
         w = reg_or dev (GPIO_DIR LPC_GPIO2) (bitm 29) w;
         w = reg_or dev (GPIO_CLR LPC_GPIO2) (bitm 29) w;
         w = reg_or dev (GPIO_DIR LPC_GPIO2) (bitm 28) w;
         w = reg_or dev (GPIO_CLR LPC_GPIO2) (bitm 28) w;
         w = reg_or dev (GPIO_CLR LPC_GPIO1) (bitm 30) w;
         w = reg_or dev (GPIO_CLR LPC_GPIO1) (bitm 26) w;
         w = reg_or dev (GPIO_DIR LPC_GPIO1) (bitm 26) w
     in reg_or dev (GPIO_DIR LPC_GPIO1) (bitm 30) w)"

lemma scansta_select_parts:
  "scansta_select dev w = (let (pin, w1) = rd dev (GPIO_PIN LPC_GPIO0) (select_off dev w)
     in select_on dev (if bit pin 29 then reg_or dev (GPIO_CLR LPC_GPIO4) (bitm 30) w1
          else reg_or dev (GPIO_SET LPC_GPIO4) (bitm 30) w1))"
  unfolding scansta_select_def select_on_def select_off_def Let_def by (simp add: bit_and_bitm)

lemma select_on_latch:
  assumes "gpio_contract dev"
  shows "latch LPC_GPIO4 (tr (select_on dev w)) = latch LPC_GPIO4 (tr w) OR bitm 18"
    "scan_quiet (tr (select_on dev w)) = scan_quiet (tr w)"
    "e \<in> set (tr w) \<Longrightarrow> e \<in> set (tr (select_on dev w))"
  unfolding select_on_def Let_def
  by (simp_all add: latch_steps [OF assms] scan_quiet_steps [OF assms] history_grows del: reg_or_fields reg_and_fields)

lemma scansta_select_jtag:
  assumes "gpio_contract dev"
  obtains pin where "Rd (GPIO_PIN LPC_GPIO0) pin \<in> set (tr (scansta_select dev w))"
    "\<And>n. bit (latch LPC_GPIO4 (tr (scansta_select dev w))) n \<longleftrightarrow> n \<in> {18, 27} \<or> n = 30 \<and> \<not> bit pin 29
          \<or> n \<notin> {19, 25, 26, 28, 29, 30, 31} \<and> bit (latch LPC_GPIO4 (tr w)) n"
    "scan_quiet (tr w) \<Longrightarrow> scan_quiet (tr (scansta_select dev w))"
proof -
  define w1 where "w1 = select_off dev w"
  define pin where "pin = fst (rd dev (GPIO_PIN LPC_GPIO0) w1)"
  define w2 where "w2 = snd (rd dev (GPIO_PIN LPC_GPIO0) w1)"
  define w3 where "w3 = (if bit pin 29 then reg_or dev (GPIO_CLR LPC_GPIO4) (bitm 30) w2
          else reg_or dev (GPIO_SET LPC_GPIO4) (bitm 30) w2)"
  have eq: "scansta_select dev w = select_on dev w3"
    unfolding scansta_select_parts w3_def w2_def pin_def w1_def by (simp add: case_prod_beta Let_def)
  have l2: "latch LPC_GPIO4 (tr w2) = latch LPC_GPIO4 (tr w1)" "scan_quiet (tr w2) = scan_quiet (tr w1)"
    by (simp_all add: w2_def)
  have b1: "bit (latch LPC_GPIO4 (tr w1)) n \<longleftrightarrow> n = 27
      \<or> n \<notin> {18, 19, 25, 26, 28, 29, 31} \<and> bit (latch LPC_GPIO4 (tr w)) n" for n
    unfolding w1_def by (rule select_off_latch(1) [OF assms])
  have q1: "scan_quiet (tr w1)" if "scan_quiet (tr w)" unfolding w1_def by (rule select_off_latch(2) [OF assms that])
  have low: "\<not> bit (latch LPC_GPIO4 (tr w1)) 18" using b1 [of 18] by simp
  have l3: "bit (latch LPC_GPIO4 (tr w3)) n \<longleftrightarrow> n = 30 \<and> \<not> bit pin 29 \<or> n \<noteq> 30 \<and> bit (latch LPC_GPIO4 (tr w1)) n" for n
    unfolding w3_def by (auto simp add: latch_steps [OF assms] l2 bit_simps simp del: reg_or_fields dest: bit_imp_le_length)
  have q3: "scan_quiet (tr w3)" if "scan_quiet (tr w)"
    unfolding w3_def using q1 [OF that] low
    by (simp add: scan_quiet_steps [OF assms] l2 latch_steps [OF assms] del: reg_or_fields)
  have "Rd (GPIO_PIN LPC_GPIO0) pin \<in> set (tr w2)" unfolding pin_def w2_def by (rule history_grows)
  then have "Rd (GPIO_PIN LPC_GPIO0) pin \<in> set (tr w3)" by (simp add: w3_def history_grows del: reg_or_fields)
  from select_on_latch(3) [OF assms this] have 1: "Rd (GPIO_PIN LPC_GPIO0) pin \<in> set (tr (scansta_select dev w))" by (simp add: eq)
  have 2: "bit (latch LPC_GPIO4 (tr (scansta_select dev w))) n \<longleftrightarrow> n \<in> {18, 27} \<or> n = 30 \<and> \<not> bit pin 29
          \<or> n \<notin> {19, 25, 26, 28, 29, 30, 31} \<and> bit (latch LPC_GPIO4 (tr w)) n" for n
    unfolding eq select_on_latch(1) [OF assms] bit_or_iff l3 b1 by auto
  have 3: "scan_quiet (tr (scansta_select dev w))" if "scan_quiet (tr w)"
    unfolding eq select_on_latch(2) [OF assms] by (rule q3 [OF that])
  show thesis by (rule that [OF 1 2 3])
qed

lemma phy_strap_latch:
  assumes "gpio_contract dev"
  shows "latch LPC_GPIO0 (tr (phy_strap dev w)) =
      (((((latch LPC_GPIO0 (tr w) AND NOT (bitm 23)) AND NOT (bitm 25)) OR bitm 24) OR bitm 26) OR bitm 23) AND NOT (bitm 31)"
    "latch LPC_GPIO1 (tr (phy_strap dev w)) = latch LPC_GPIO1 (tr w)"
    "latch LPC_GPIO2 (tr (phy_strap dev w)) = latch LPC_GPIO2 (tr w) OR bitm 2"
    "latch LPC_GPIO4 (tr (phy_strap dev w)) = latch LPC_GPIO4 (tr w)"
    "scan_quiet (tr (phy_strap dev w)) = scan_quiet (tr w)"
    "e \<in> set (tr w) \<Longrightarrow> e \<in> set (tr (phy_strap dev w))"
  unfolding phy_strap_def Let_def
  by (simp_all add: latch_steps [OF assms] scan_quiet_steps [OF assms] history_grows del: reg_or_fields reg_and_fields)

text \<open>The pins each part of \<open>psu_init\<close> makes an output or an input.\<close>

lemma psu_init_dirs:
  assumes "gpio_contract dev"
  shows "bit (dirs LPC_GPIO0 (tr (psu_init dev w))) n \<longleftrightarrow> n \<in> {23, 24, 25, 26, 31} \<or> n \<notin> {5, 29} \<and> bit (dirs LPC_GPIO0 (tr w)) n"
    "bit (dirs LPC_GPIO1 (tr (psu_init dev w))) n \<longleftrightarrow> n \<in> {26, 28, 29, 30, 31} \<or> bit (dirs LPC_GPIO1 (tr w)) n"
    "bit (dirs LPC_GPIO2 (tr (psu_init dev w))) n \<longleftrightarrow> n \<in> {2, 28, 29} \<or> bit (dirs LPC_GPIO2 (tr w)) n"
    "bit (dirs LPC_GPIO3 (tr (psu_init dev w))) n \<longleftrightarrow> n \<in> {4, 5} \<or> bit (dirs LPC_GPIO3 (tr w)) n"
    "bit (dirs LPC_GPIO4 (tr (psu_init dev w))) n \<longleftrightarrow> n \<in> {18, 19, 25, 26, 27, 28, 29, 30, 31} \<or> bit (dirs LPC_GPIO4 (tr w)) n"
proof -
  note D = latch_steps(5-8) [OF assms]
  have po: "dirs LPC_GPIO0 (tr (psu_outputs dev w)) = dirs LPC_GPIO0 (tr w) AND NOT (bitm 29) AND NOT (bitm 5)"
    "dirs LPC_GPIO1 (tr (psu_outputs dev w)) = dirs LPC_GPIO1 (tr w) OR bitm 26 OR bitm 28 OR bitm 29 OR bitm 30 OR bitm 31"
    "dirs LPC_GPIO2 (tr (psu_outputs dev w)) = dirs LPC_GPIO2 (tr w)"
    "dirs LPC_GPIO3 (tr (psu_outputs dev w)) = dirs LPC_GPIO3 (tr w) OR bitm 5 OR bitm 4"
    "dirs LPC_GPIO4 (tr (psu_outputs dev w)) = dirs LPC_GPIO4 (tr w) OR bitm 18 OR bitm 25 OR bitm 26 OR bitm 27 OR bitm 28
       OR bitm 29 OR bitm 30 OR bitm 31 OR bitm 19" for w :: "'b world_scheme"
    unfolding psu_outputs_def Let_def by (simp_all add: D or.assoc and.assoc del: reg_or_fields reg_and_fields)
  have ss: "dirs LPC_GPIO0 (tr (scansta_select dev w)) = dirs LPC_GPIO0 (tr w)"
    "dirs LPC_GPIO1 (tr (scansta_select dev w)) = dirs LPC_GPIO1 (tr w) OR bitm 26 OR bitm 30"
    "dirs LPC_GPIO2 (tr (scansta_select dev w)) = dirs LPC_GPIO2 (tr w) OR bitm 29 OR bitm 28"
    "dirs LPC_GPIO3 (tr (scansta_select dev w)) = dirs LPC_GPIO3 (tr w)"
    "dirs LPC_GPIO4 (tr (scansta_select dev w)) = dirs LPC_GPIO4 (tr w)" for w :: "'b world_scheme"
    unfolding scansta_select_def Let_def case_prod_beta
    by (simp_all add: D or.assoc del: reg_or_fields reg_and_fields split: if_split)
  have ps: "dirs LPC_GPIO0 (tr (phy_strap dev w)) = ((((dirs LPC_GPIO0 (tr w) OR bitm 23) OR bitm 25) OR bitm 24) OR bitm 26) OR bitm 23 OR bitm 31"
    "dirs LPC_GPIO1 (tr (phy_strap dev w)) = dirs LPC_GPIO1 (tr w)"
    "dirs LPC_GPIO2 (tr (phy_strap dev w)) = dirs LPC_GPIO2 (tr w) OR bitm 2"
    "dirs LPC_GPIO3 (tr (phy_strap dev w)) = dirs LPC_GPIO3 (tr w)"
    "dirs LPC_GPIO4 (tr (phy_strap dev w)) = dirs LPC_GPIO4 (tr w)" for w :: "'b world_scheme"
    unfolding phy_strap_def Let_def by (simp_all add: D or.assoc del: reg_or_fields reg_and_fields)
  show "bit (dirs LPC_GPIO0 (tr (psu_init dev w))) n \<longleftrightarrow> n \<in> {23, 24, 25, 26, 31} \<or> n \<notin> {5, 29} \<and> bit (dirs LPC_GPIO0 (tr w)) n"
    "bit (dirs LPC_GPIO1 (tr (psu_init dev w))) n \<longleftrightarrow> n \<in> {26, 28, 29, 30, 31} \<or> bit (dirs LPC_GPIO1 (tr w)) n"
    "bit (dirs LPC_GPIO2 (tr (psu_init dev w))) n \<longleftrightarrow> n \<in> {2, 28, 29} \<or> bit (dirs LPC_GPIO2 (tr w)) n"
    "bit (dirs LPC_GPIO3 (tr (psu_init dev w))) n \<longleftrightarrow> n \<in> {4, 5} \<or> bit (dirs LPC_GPIO3 (tr w)) n"
    "bit (dirs LPC_GPIO4 (tr (psu_init dev w))) n \<longleftrightarrow> n \<in> {18, 19, 25, 26, 27, 28, 29, 30, 31} \<or> bit (dirs LPC_GPIO4 (tr w)) n"
    unfolding psu_init_def ps ss po by (auto simp: bit_simps dest: bit_imp_le_length)
qed


section \<open>The housekeeping loop keeps the supplies on\<close>

text \<open>
  The values that the program loaded from the input pins of port 0, most recent first, and the
  histories in which no store ever switched off one of the three supplies.
\<close>

fun pin_read_of :: "access \<Rightarrow> u32 list" where
  "pin_read_of (Rd a v) = (if a = GPIO_PIN LPC_GPIO0 then [v] else [])"
| "pin_read_of e = []"

definition pin_reads :: "access list \<Rightarrow> u32 list" where
  "pin_reads t = concat (map pin_read_of t)"

definition supplies :: u32 where
  "supplies = bitm 28 OR bitm 29 OR bitm 31"

fun supplies_held :: "access list \<Rightarrow> bool" where
  "supplies_held [] = True"
| "supplies_held (e # t) = (supplies_held t \<and>
     (latch LPC_GPIO1 t AND supplies = supplies \<longrightarrow> latch LPC_GPIO1 (e # t) AND supplies = supplies))"

lemma pin_reads_Cons: "pin_reads (e # t) = pin_read_of e @ pin_reads t"
  by (simp add: pin_reads_def)

lemma pin_reads_steps:
  assumes "p \<in> gpio_ports"
  shows "pin_reads (tr (reg_or dev (GPIO_SET p) m w)) = pin_reads (tr w)"
    "pin_reads (tr (reg_or dev (GPIO_CLR p) m w)) = pin_reads (tr w)"
    "pin_reads (tr (reg_or dev (GPIO_DIR p) m w)) = pin_reads (tr w)"
  using assms by (simp_all add: pin_reads_Cons)

lemma pin_reads_frame [simp]:
  "pin_reads (tr (say (Sleep n) w)) = pin_reads (tr w)"
  "pin_reads (tr (snd (rd dev (GPIO_PIN LPC_GPIO0) w))) = fst (rd dev (GPIO_PIN LPC_GPIO0) w) # pin_reads (tr w)"
  by (simp_all add: pin_reads_Cons)

lemma supplies_held_steps:
  assumes "gpio_contract dev" "p \<in> gpio_ports"
  shows "supplies_held (tr (reg_or dev (GPIO_SET p) m w)) = supplies_held (tr w)"
    "supplies_held (tr (reg_or dev (GPIO_CLR p) m w)) = (supplies_held (tr w) \<and> (p = LPC_GPIO1 \<longrightarrow>
      latch LPC_GPIO1 (tr w) AND supplies = supplies \<longrightarrow> (latch LPC_GPIO1 (tr w) AND NOT m) AND supplies = supplies))"
    "supplies_held (tr (reg_or dev (GPIO_DIR p) m w)) = supplies_held (tr w)"
proof -
  have "(x OR y) AND supplies = supplies" if "x AND supplies = supplies" for x y
  proof (rule bit_word_eqI)
    fix n
    have "bit (x AND supplies) n = bit supplies n" unfolding that ..
    then show "bit ((x OR y) AND supplies) n = bit supplies n" by (auto simp: bit_simps)
  qed
  then show "supplies_held (tr (reg_or dev (GPIO_SET p) m w)) = supplies_held (tr w)"
    using assms by (auto simp: gpio_contract_def or.assoc [symmetric])
qed (use assms in \<open>auto simp: gpio_contract_def\<close>)

lemma supplies_held_frame [simp]:
  "supplies_held (tr (say (Sleep n) w)) = supplies_held (tr w)"
  "supplies_held (tr (snd (rd dev a w))) = supplies_held (tr w)"
  by simp_all

lemma rtm_pins_no_supply [simp]:
  "(v AND NOT (bitm 30)) AND supplies = v AND supplies" "(v AND NOT (bitm 26)) AND supplies = v AND supplies"
  by (rule bit_word_eqI; auto simp: supplies_def bit_simps)+

lemma blink_leds_latch:
  assumes "gpio_contract dev"
  shows "latch LPC_GPIO1 (tr (blink_leds dev w)) = latch LPC_GPIO1 (tr w)"
    "latch LPC_GPIO0 (tr (blink_leds dev w)) = latch LPC_GPIO0 (tr w)"
    "latch LPC_GPIO3 (tr (blink_leds dev w)) = (latch LPC_GPIO3 (tr w) OR bitm 4 OR bitm 5) AND NOT (bitm 4)"
  unfolding blink_leds_def Let_def
  by (simp_all add: latch_steps [OF assms] del: reg_or_fields) (rule bit_word_eqI, auto simp: bit_simps)

lemma blink_leds_frame:
  assumes "gpio_contract dev"
  shows "pin_reads (tr (blink_leds dev w)) = pin_reads (tr w)" "supplies_held (tr (blink_leds dev w)) = supplies_held (tr w)"
  unfolding blink_leds_def Let_def
  by (simp_all add: pin_reads_steps supplies_held_steps [OF assms] del: reg_or_fields say_fields)

lemma phy_reset_spec:
  fixes w :: "'a world_scheme"
  assumes "gpio_contract dev"
  defines "don \<equiv> fst (rd dev (GPIO_PIN LPC_GPIO0) w)"
  shows "bit (latch LPC_GPIO0 (tr (phy_reset dev w))) n \<longleftrightarrow>
      (if n \<in> {23, 31} then bit don 5 else bit (latch LPC_GPIO0 (tr w)) n)"
    "latch LPC_GPIO1 (tr (phy_reset dev w)) = latch LPC_GPIO1 (tr w)"
    "pin_reads (tr (phy_reset dev w)) = don # pin_reads (tr w)"
    "supplies_held (tr (phy_reset dev w)) = supplies_held (tr w)"
  unfolding phy_reset_def Let_def case_prod_beta don_def bit_and_bitm
  by (simp_all add: latch_steps [OF assms(1)] pin_reads_steps supplies_held_steps [OF assms(1)]
      bit_simps del: reg_or_fields rd_fields split: if_split)
    (auto dest: bit_imp_le_length)

lemma rtm_power_spec:
  fixes w :: "'a world_scheme"
  assumes "gpio_contract dev"
  defines "rtm \<equiv> fst (rd dev (GPIO_PIN LPC_GPIO0) w)"
  shows "bit (latch LPC_GPIO1 (tr (rtm_power dev w))) n \<longleftrightarrow>
      (if n \<in> {26, 30} then \<not> bit rtm 29 else bit (latch LPC_GPIO1 (tr w)) n)"
    "latch LPC_GPIO0 (tr (rtm_power dev w)) = latch LPC_GPIO0 (tr w)"
    "pin_reads (tr (rtm_power dev w)) = rtm # pin_reads (tr w)"
    "supplies_held (tr w) \<Longrightarrow> supplies_held (tr (rtm_power dev w))"
  unfolding rtm_power_def Let_def case_prod_beta rtm_def bit_and_bitm
  by (simp_all add: latch_steps [OF assms(1)] pin_reads_steps supplies_held_steps [OF assms(1)]
      bit_simps del: reg_or_fields rd_fields split: if_split)
    (auto dest: bit_imp_le_length)

lemma blink_pass_spec:
  assumes "gpio_contract dev"
  obtains don rtm where "pin_reads (tr (vblinkIFTask_pass dev w)) = rtm # don # pin_reads (tr w)"
    "\<And>n. bit (latch LPC_GPIO1 (tr (vblinkIFTask_pass dev w))) n \<longleftrightarrow>
       (if n \<in> {26, 30} then \<not> bit rtm 29 else bit (latch LPC_GPIO1 (tr w)) n)"
    "\<And>n. bit (latch LPC_GPIO0 (tr (vblinkIFTask_pass dev w))) n \<longleftrightarrow>
       (if n \<in> {23, 31} then bit don 5 else bit (latch LPC_GPIO0 (tr w)) n)"
    "supplies_held (tr w) \<Longrightarrow> supplies_held (tr (vblinkIFTask_pass dev w))"
proof -
  define w1 where "w1 = blink_leds dev w"
  define w2 where "w2 = phy_reset dev w1"
  note b = blink_leds_latch [OF assms, of w, folded w1_def] blink_leds_frame [OF assms, of w, folded w1_def]
  note p = phy_reset_spec [OF assms, of w1, folded w2_def]
  note r = rtm_power_spec [OF assms, of w2]
  have eq: "vblinkIFTask_pass dev w = rtm_power dev w2" by (simp add: vblinkIFTask_pass_def w1_def w2_def)
  show thesis
    by (rule that [of "fst (rd dev (GPIO_PIN LPC_GPIO0) w2)" "fst (rd dev (GPIO_PIN LPC_GPIO0) w1)"])
      (use r p b in \<open>simp_all add: eq del: rd_fields\<close>)
qed

text \<open>
  C28. However often the housekeeping loop runs, on a device that keeps the GPIO contract: no store of it ever switches
  off one of the supplies that \<open>psu_init\<close> enabled, nor moves any pin of port 1 other than the two of the
  rear module; and after every pass both supplies of the rear module are on exactly if its presence
  line was read low in that pass (never one without the other), and the PHY is out of reset exactly
  if the FPGA's DONE line was read high in that pass.
\<close>

theorem housekeeping_safe:
  assumes "gpio_contract dev" "supplies_held (tr w)"
  shows "let w' = (vblinkIFTask_pass dev ^^ n) w in
      supplies_held (tr w')
    \<and> (\<forall>k. k \<notin> {26, 30} \<longrightarrow> bit (latch LPC_GPIO1 (tr w')) k = bit (latch LPC_GPIO1 (tr w)) k)
    \<and> length (pin_reads (tr w')) = 2 * n + length (pin_reads (tr w))
    \<and> (0 < n \<longrightarrow> (\<exists>rtm don rest. pin_reads (tr w') = rtm # don # rest
        \<and> (bit (latch LPC_GPIO1 (tr w')) 26 \<longleftrightarrow> \<not> bit rtm 29)
        \<and> (bit (latch LPC_GPIO1 (tr w')) 30 \<longleftrightarrow> \<not> bit rtm 29)
        \<and> (bit (latch LPC_GPIO0 (tr w')) 23 \<longleftrightarrow> bit don 5)))"
proof (induction n)
  case 0
  then show ?case using assms(2) by simp
next
  case (Suc n)
  define w1 where "w1 = (vblinkIFTask_pass dev ^^ n) w"
  obtain don rtm where "pin_reads (tr (vblinkIFTask_pass dev w1)) = rtm # don # pin_reads (tr w1)"
    "\<And>n. bit (latch LPC_GPIO1 (tr (vblinkIFTask_pass dev w1))) n \<longleftrightarrow>
       (if n \<in> {26, 30} then \<not> bit rtm 29 else bit (latch LPC_GPIO1 (tr w1)) n)"
    "\<And>n. bit (latch LPC_GPIO0 (tr (vblinkIFTask_pass dev w1))) n \<longleftrightarrow>
       (if n \<in> {23, 31} then bit don 5 else bit (latch LPC_GPIO0 (tr w1)) n)"
    "supplies_held (tr w1) \<Longrightarrow> supplies_held (tr (vblinkIFTask_pass dev w1))"
    by (rule blink_pass_spec [OF assms(1)]) blast
  with Suc.IH show ?case unfolding w1_def [symmetric] Let_def by (simp add: w1_def [symmetric])
qed

section \<open>The I2C traffic of the bring-up\<close>

text \<open>The I2C bus is silent while the program works on other registers.\<close>

definition off_bus :: "u32 \<Rightarrow> bool" where
  "off_bus a \<longleftrightarrow> a \<noteq> DAT LPC_I2C1 \<and> a \<noteq> CONSET LPC_I2C1"

abbreviation bus1 :: "'a world_scheme \<Rightarrow> bus_event list" where
  "bus1 w \<equiv> bus_log LPC_I2C1 (tr w)"

lemma bus1_access [simp]:
  "bus1 (snd (rd dev a w)) = bus1 w" "bus1 (snd (rd8 dev a w)) = bus1 w" "bus1 (delay_ms n w) = bus1 w"
  "off_bus a \<Longrightarrow> bus1 (wr a v w) = bus1 w" "off_bus a \<Longrightarrow> bus1 (wr8 a v w) = bus1 w"
  "off_bus a \<Longrightarrow> bus1 (reg_or dev a v w) = bus1 w" "off_bus a \<Longrightarrow> bus1 (reg_and dev a v w) = bus1 w"
  "off_bus a \<Longrightarrow> bus1 (reg8_or dev a v w) = bus1 w" "off_bus a \<Longrightarrow> bus1 (reg8_and dev a v w) = bus1 w"
  by (simp_all add: bus_log_simps off_bus_def rd8_def wr8_def reg8_or_def reg8_and_def Let_def)

lemmas reg_fields = reg_or_fields reg_and_fields wr_fields rd_fields

lemma bus1_psu_init: "bus1 (psu_init dev w) = bus1 w"
  unfolding psu_init_def psu_outputs_def scansta_select_def phy_strap_def Let_def case_prod_beta
  by (simp add: off_bus_def gpio_regs del: reg_fields split: if_split)

lemma bus1_clock: "bus1 (SystemCoreClockUpdate dev w) = bus1 w"
proof -
  have f: "bus1 (snd (rd_field dev a m w)) = bus1 w" for a m and w :: "'a world_scheme"
    by (simp add: rd_field_def case_prod_beta Let_def del: reg_fields)
  have u: "bus1 (w\<lparr>SystemCoreClock := c\<rparr>) = bus1 w" "bus1 (w\<lparr>PeripheralClock := c\<rparr>) = bus1 w"
    "bus1 (w\<lparr>EMCClock := c\<rparr>) = bus1 w" "bus1 (w\<lparr>USBClock := c\<rparr>) = bus1 w" for c and w :: "'a world_scheme"
    by simp_all
  have 1: "bus1 (clocks_from_osc dev o' w) = bus1 w" "bus1 (clocks_from_pll0 dev o' w) = bus1 w" "bus1 (clocks_off w) = bus1 w"
    for o' and w :: "'a world_scheme"
    by (simp_all add: clocks_from_osc_def clocks_from_pll0_def clocks_off_def case_prod_beta Let_def f u)
  have 2: "bus1 (core_clock_update dev w) = bus1 w" for w :: "'a world_scheme"
    by (simp add: core_clock_update_def case_prod_beta Let_def f u 1 split: if_split)
  have 3: "bus1 (usb_clock_update dev w) = bus1 w" for w :: "'a world_scheme"
    by (simp add: usb_clock_update_def case_prod_beta Let_def f u split: if_split)
  show ?thesis by (simp add: SystemCoreClockUpdate_def 2 3)
qed

lemma bus1_i2c_init: "bus1 (i2c_init dev w) = bus1 w"
proof -
  have c: "bus1 (wr LPC_I2C1 0x40 w) = bus1 w" for w :: "'a world_scheme" by (simp add: bus_log_simps)
  show ?thesis
    unfolding i2c_init_def PINSEL_ConfigPin_def PINSEL_SetOpenDrainMode_def PINSEL_SetI2CMode_def pin_switch_def
      I2C_Init_def I2C_Cmd_def CLKPWR_ConfigPPWR_def I2C_GetPointer_def PIN_GetPointer_def Let_def case_prod_beta
    by (simp add: off_bus_def c del: reg_fields)
qed

text \<open>A console whose receiver is empty and whose transmitter is idle.\<close>

definition uart_idle :: "device \<Rightarrow> u32 \<Rightarrow> bool" where
  "uart_idle dev x \<longleftrightarrow> (\<forall>t. (dev t (UART_LSR x) AND 0xFF) AND UART_LSR_RDR = 0
     \<and> (dev t (UART_LSR x) AND 0xFF) AND UART_LSR_THRE \<noteq> 0)"

lemma uart_idle_returns:
  assumes "uart_idle dev x"
  shows "drain_rx dev x w = Some (snd (rd8 dev (UART_LSR x) w))" "wait_THRE dev x w = Some (snd (rd8 dev (UART_LSR x) w))"
  using assms by (simp_all add: drain_rx.simps [of dev x w] wait_THRE.simps [of dev x w] uart_idle_def rd8_def Let_def)

lemma bus1_divisors: "bus1 (snd (uart_set_divisors dev LPC_UART0 b w)) = bus1 w"
  unfolding uart_set_divisors_def Let_def
  by (simp add: off_bus_def del: reg_fields split: if_split)

lemma uart_init_returns:
  assumes "uart_idle dev LPC_UART0"
  shows "\<exists>w'. UART_Init dev LPC_UART0 cfg w = Some w' \<and> bus1 w' = bus1 w"
  unfolding UART_Init_def uart_idle_returns [OF assms] uart_power_def CLKPWR_ConfigPPWR_def Let_def case_prod_beta
  by (simp add: off_bus_def bus1_divisors del: reg_fields)

lemma setup_hardware_returns:
  assumes "uart_idle dev LPC_UART0"
  obtains w' where "prvSetupHardware dev w = Some w'" "bus1 w' = bus1 w"
proof -
  define w1 where "w1 = reg_or dev (GPIO_DIR LPC_GPIO2) (bitm 26)
    (PINSEL_ConfigPin dev 0 3 1 (PINSEL_ConfigPin dev 0 2 1 (SystemCoreClockUpdate dev w)))"
  have 1: "bus1 w1 = bus1 w"
    by (simp add: w1_def PINSEL_ConfigPin_def PIN_GetPointer_def off_bus_def gpio_regs bus1_clock Let_def del: reg_fields)
  from uart_init_returns [OF assms] obtain w2 where w2:
    "UART_Init dev LPC_UART0 (UART_ConfigStructInit\<lparr>Baud_rate := 115200\<rparr>) w1 = Some w2" "bus1 w2 = bus1 w1" by blast
  have 3: "bus1 (UART_TxCmd dev LPC_UART0 ENABLE w2) = bus1 w2"
    by (simp add: UART_TxCmd_def off_bus_def del: reg_fields)
  have "prvSetupHardware dev w = Some (UART_TxCmd dev LPC_UART0 ENABLE w2)"
    unfolding prvSetupHardware_def Let_def w1_def [symmetric] w2(1) by simp
  then show thesis by (rule that) (simp only: 3 w2(2) 1)
qed

lemma main_rtm_frames:
  assumes "acks dev LPC_I2C1" "buf \<noteq> 0" "\<And>t. bit (dev t (GPIO_PIN LPC_GPIO0)) 29 = absent"
  shows "\<exists>s'. main_rtm dev xfer buf s = Some s'
    \<and> bus1 s' = bus1 s @ (if absent then [] else rtm_pwron_frames @ si5324_rtm_frames)"
proof -
  have r: "fst (rd dev (GPIO_PIN LPC_GPIO0) s) AND bitm 29 = 0 \<longleftrightarrow> \<not> absent" using assms(3) by (simp add: bit_and_bitm)
  define s0 where "s0 = snd (rd dev (GPIO_PIN LPC_GPIO0) s)"
  have s0: "bus1 s0 = bus1 s" unfolding s0_def by (rule bus1_access)
  show ?thesis
  proof (cases absent)
    case True
    then have "main_rtm dev xfer buf s =
        Some (reg_or dev (GPIO_CLR LPC_GPIO1) (bitm 26) (reg_or dev (GPIO_CLR LPC_GPIO1) (bitm 30) s0))"
      unfolding main_rtm_def Let_def case_prod_beta s0_def [symmetric] using r by (simp del: rd_fields)
    then show ?thesis using True s0 by (simp add: off_bus_def gpio_regs del: reg_fields)
  next
    case False
    define s1 where "s1 = delay_ms 200 (reg_or dev (GPIO_SET LPC_GPIO1) (bitm 26) (reg_or dev (GPIO_SET LPC_GPIO1) (bitm 30) s0))"
    have s1: "bus1 s1 = bus1 s" by (simp add: s1_def s0 off_bus_def gpio_regs del: reg_fields)
    obtain s2 where s2: "i2c_RTM_PWRON dev xfer buf s1 = Some s2" "bus1 s2 = bus1 s1 @ rtm_pwron_frames"
      using acked_RTM_PWRON [OF assms(1,2)] by blast
    obtain s3 where s3: "i2c_setSI5324_RTM dev xfer buf (delay_ms 1000 s2) = Some s3"
      "bus1 s3 = bus1 (delay_ms 1000 s2) @ si5324_rtm_frames"
      using acked_setSI5324_RTM [OF assms(1,2)] by blast
    have "main_rtm dev xfer buf s = Some s3"
      unfolding main_rtm_def Let_def case_prod_beta s0_def [symmetric] s1_def [symmetric]
      using False r s2(1) s3(1) by (simp del: rd_fields)
    then show ?thesis using s3(2) s2(2) s1 False by simp
  qed
qed

text \<open>
  C27. On a board where every byte on I2C unit 1 is acknowledged and whose console is always ready to
  send, the bring-up of \<open>main\<close> returns, and the I2C traffic of unit 1 is exactly this: select channel 4
  of the multiplexer, write the 43 registers of the clock generator in the order of the table,
  deselect; then, if and only if the rear module is present, the two writes that power it behind
  channel 7 and the programming of its clock generator behind both multiplexers, which are
  deselected in reverse order. Both multiplexers have one address throughout, which is not stated.
\<close>

theorem boot_programs_clocks:
  assumes "acks dev LPC_I2C1" "uart_idle dev LPC_UART0" "buf \<noteq> 0"
    and "\<And>t. bit (dev t (GPIO_PIN LPC_GPIO0)) 29 = absent"
  shows "\<exists>s' mux rtm_mux. mux \<noteq> rtm_mux \<and> {mux, rtm_mux} \<inter> {0x3E, IIC_SLAVE_ADDR} = {} \<and> main_bringup dev xfer buf s = Some s'
    \<and> bus_log LPC_I2C1 (tr s') = bus_log LPC_I2C1 (tr s)
        @ stop_frame mux [16] @ table_frames InitTable @ stop_frame mux [0]
        @ (if absent then [] else
             stop_frame mux [128] @ stop_frame 0x3E [0x81] @ stop_frame 0x3E [0xB1] @ stop_frame mux [0]
           @ stop_frame mux [128] @ stop_frame rtm_mux [32] @ table_frames InitTable_RTM
           @ stop_frame rtm_mux [0] @ stop_frame mux [0])"
proof -
  obtain s1 where s1: "prvSetupHardware dev s = Some s1" "bus1 s1 = bus1 s"
    using setup_hardware_returns [OF assms(2)] by blast
  define s2 where "s2 = i2c_init dev (delay_ms 200 (psu_init dev s1))"
  have s2: "bus1 s2 = bus1 s1" unfolding s2_def bus1_i2c_init by (simp add: bus1_psu_init)
  obtain s3 where s3: "i2c_setSI5324 dev xfer buf s2 = Some s3" "bus1 s3 = bus1 s2 @ si5324_frames"
    using acked_setSI5324 [OF assms(1,3)] by blast
  from main_rtm_frames [OF assms(1,3,4)] obtain s4 where s4: "main_rtm dev xfer buf s3 = Some s4"
    "bus1 s4 = bus1 s3 @ (if absent then [] else rtm_pwron_frames @ si5324_rtm_frames)" by blast
  have "main_bringup dev xfer buf s = Some s4"
    unfolding main_bringup_def Let_def s1(1) by (simp add: s2_def [symmetric] s3(1) s4(1))
  moreover have "bus1 s4 = bus1 s @ si5324_frames @ (if absent then [] else rtm_pwron_frames @ si5324_rtm_frames)"
    unfolding s4(2) s3(2) s2 s1(2) by simp
  moreover have "TCAADDR \<noteq> TCARTMADDR" "{TCAADDR, TCARTMADDR} \<inter> {0x3E, IIC_SLAVE_ADDR} = {}" by simp_all
  ultimately show ?thesis
    unfolding si5324_frames_def si5324_rtm_frames_def rtm_pwron_frames_def append_assoc
    by (intro exI [of _ s4] exI [of _ TCAADDR] exI [of _ TCARTMADDR] conjI)
qed

text \<open>A device on which everything answers: an acknowledging bus, an idle console, GPIO ports by the book.\<close>

definition board_dev :: "bool \<Rightarrow> device" where
  "board_dev absent t a =
    (if a = UART_LSR LPC_UART0 then 0x20
     else if a = GPIO_PIN LPC_GPIO0 then (if absent then bitm 29 else 0)
     else if a \<in> GPIO_SET ` gpio_ports then latch (a - 0x18) t
     else if a \<in> GPIO_CLR ` gpio_ports then 0
     else if a \<in> gpio_ports then dirs a t
     else ack_dev LPC_I2C1 0xA5 t a)"

lemma board_dev_contract: "gpio_contract (board_dev absent)"
proof -
  have "LPC_UART0 + 0x14 \<noteq> GPIO_SET p" "LPC_UART0 + 0x14 \<noteq> GPIO_CLR p" "LPC_UART0 + 0x14 \<noteq> GPIO_DIR p"
    "GPIO_PIN LPC_GPIO0 \<noteq> GPIO_SET p" "GPIO_PIN LPC_GPIO0 \<noteq> GPIO_CLR p" "GPIO_PIN LPC_GPIO0 \<noteq> GPIO_DIR p"
    "GPIO_CLR p \<notin> GPIO_SET ` gpio_ports" "GPIO_DIR p \<notin> GPIO_SET ` gpio_ports" "GPIO_DIR p \<notin> GPIO_CLR ` gpio_ports"
    if "p \<in> gpio_ports" for p
    using that unfolding gpio_ports_def gpio_regs by auto
  note reg = this
  show ?thesis unfolding gpio_contract_def
  proof (intro allI ballI conjI)
    fix t and p :: u32 assume p: "p \<in> gpio_ports"
    have a: "GPIO_SET p - 0x18 = p" "GPIO_DIR p = p" by (simp_all add: gpio_regs)
    show "board_dev absent t (GPIO_SET p) = latch p t" unfolding board_dev_def using reg [OF p] a(1) p by simp
    show "board_dev absent t (GPIO_CLR p) = 0" unfolding board_dev_def using reg [OF p] p by simp
    show "board_dev absent t (GPIO_DIR p) = dirs p t" unfolding board_dev_def using reg [OF p] a(2) p by simp
  qed
qed

lemma ack_stat_code: "ack_stat x t AND 0xF8 = ack_stat x t"
  by (induction x t rule: ack_stat.induct) simp_all

lemma board_dev_acks: "acks (board_dev absent) LPC_I2C1"
  unfolding acks_def board_dev_def gpio_ports_def gpio_regs by (simp add: ack_dev_def ack_stat_code)

lemma board_dev_idle: "uart_idle (board_dev absent) LPC_UART0"
  unfolding uart_idle_def board_dev_def by simp

lemma board_dev_pin: "bit (board_dev absent t (GPIO_PIN LPC_GPIO0)) 29 = absent"
  unfolding board_dev_def gpio_regs by simp


theorem housekeeping_safe_witness:
  "gpio_contract (board_dev False) \<and> supplies_held (tr demo_world)
    \<and> length (pin_reads (tr ((vblinkIFTask_pass (board_dev False) ^^ 3) demo_world))) = 6"
proof -
  have h: "supplies_held (tr demo_world)" "pin_reads (tr demo_world) = []"
    by (simp_all add: demo_world_def pin_reads_def)
  show ?thesis using housekeeping_safe [OF board_dev_contract [of False] h(1), of 3] h board_dev_contract [of False]
    by (simp add: Let_def)
qed

theorem boot_programs_clocks_witness:
  "acks (board_dev True) LPC_I2C1 \<and> uart_idle (board_dev True) LPC_UART0
    \<and> (\<exists>s' mux. main_bringup (board_dev True) 0x10000000 0x10000100 demo_state = Some s'
        \<and> bus_log LPC_I2C1 (tr s') = stop_frame mux [16] @ table_frames InitTable @ stop_frame mux [0])"
proof -
  have "bus_log LPC_I2C1 (tr demo_state) = []" by (simp add: demo_state_def bus_log_def)
  with boot_programs_clocks [OF board_dev_acks [of True] board_dev_idle _ board_dev_pin, of "0x10000100" "0x10000000" demo_state]
  show ?thesis using board_dev_acks [of True] board_dev_idle [of True] by (simp del: insert_disjoint) blast
qed

end
