(* ===== verification/Lists.thy ===== *)
theory Lists
  imports Prelude
begin

text \<open>
  The kernel's list type, \<^verbatim>\<open>FreeRTOS/src/list.c\<close> and the access macros of
  \<^verbatim>\<open>FreeRTOS/inc/list.h\<close>: circular doubly linked lists with a marker item, threaded through
  the objects they hold. The store maps addresses to list items and list headers; the marker
  \<open>xListEnd\<close> of the list at \<open>l\<close> is the item at \<open>l + 8\<close>, where the struct has it.
\<close>

record xListItem =
  xItemValue :: u32
  pxNext :: u32
  pxPrevious :: u32
  pvOwner :: u32
  pvContainer :: u32

record xList =
  uxNumberOfItems :: u32
  pxIndex :: u32

record list_store =
  itm :: "u32 \<Rightarrow> xListItem"
  lst :: "u32 \<Rightarrow> xList"

abbreviation portMAX_DELAY :: u32 where "portMAX_DELAY \<equiv> 0xFFFFFFFF"

definition xListEnd :: "u32 \<Rightarrow> u32" where
  "xListEnd pxList = pxList + 8"

definition upd_item :: "u32 \<Rightarrow> (xListItem \<Rightarrow> xListItem) \<Rightarrow> 'a list_store_scheme \<Rightarrow> 'a list_store_scheme" where
  "upd_item a f s = s\<lparr>itm := (itm s)(a := f (itm s a))\<rparr>"

definition upd_list :: "u32 \<Rightarrow> (xList \<Rightarrow> xList) \<Rightarrow> 'a list_store_scheme \<Rightarrow> 'a list_store_scheme" where
  "upd_list a f s = s\<lparr>lst := (lst s)(a := f (lst s a))\<rparr>"

section \<open>Operations\<close>

definition vListInitialise :: "u32 \<Rightarrow> 'a list_store_scheme \<Rightarrow> 'a list_store_scheme" where
  "vListInitialise pxList s =
    (let s = upd_list pxList (\<lambda>l. l\<lparr>pxIndex := xListEnd pxList\<rparr>) s;
         s = upd_item (xListEnd pxList) (\<lambda>i. i\<lparr>xItemValue := portMAX_DELAY\<rparr>) s;
         s = upd_item (xListEnd pxList) (\<lambda>i. i\<lparr>pxNext := xListEnd pxList\<rparr>) s;
         s = upd_item (xListEnd pxList) (\<lambda>i. i\<lparr>pxPrevious := xListEnd pxList\<rparr>) s
     in upd_list pxList (\<lambda>l. l\<lparr>uxNumberOfItems := 0\<rparr>) s)"

definition vListInitialiseItem :: "u32 \<Rightarrow> 'a list_store_scheme \<Rightarrow> 'a list_store_scheme" where
  "vListInitialiseItem pxItem s = upd_item pxItem (\<lambda>i. i\<lparr>pvContainer := 0\<rparr>) s"

definition vListInsertEnd :: "u32 \<Rightarrow> u32 \<Rightarrow> 'a list_store_scheme \<Rightarrow> 'a list_store_scheme" where
  "vListInsertEnd pxList pxNewListItem s =
    (let pxIndex' = pxIndex (lst s pxList);
         s = upd_item pxNewListItem (\<lambda>i. i\<lparr>pxNext := pxNext (itm s pxIndex')\<rparr>) s;
         s = upd_item pxNewListItem (\<lambda>i. i\<lparr>pxPrevious := pxIndex (lst s pxList)\<rparr>) s;
         s = upd_item (pxNext (itm s pxIndex')) (\<lambda>i. i\<lparr>pxPrevious := pxNewListItem\<rparr>) s;
         s = upd_item pxIndex' (\<lambda>i. i\<lparr>pxNext := pxNewListItem\<rparr>) s;
         s = upd_list pxList (\<lambda>l. l\<lparr>pxIndex := pxNewListItem\<rparr>) s;
         s = upd_item pxNewListItem (\<lambda>i. i\<lparr>pvContainer := pxList\<rparr>) s
     in upd_list pxList (\<lambda>l. l\<lparr>uxNumberOfItems := uxNumberOfItems l + 1\<rparr>) s)"

partial_function (option) insert_position :: "'a list_store_scheme \<Rightarrow> u32 \<Rightarrow> u32 \<Rightarrow> u32 option" where
  "insert_position s xValueOfInsertion pxIterator =
    (if xItemValue (itm s (pxNext (itm s pxIterator))) \<le> xValueOfInsertion
     then insert_position s xValueOfInsertion (pxNext (itm s pxIterator))
     else Some pxIterator)"

definition vListInsert :: "u32 \<Rightarrow> u32 \<Rightarrow> 'a list_store_scheme \<Rightarrow> 'a list_store_scheme option" where
  "vListInsert pxList pxNewListItem s = do {
     let xValueOfInsertion = xItemValue (itm s pxNewListItem);
     pxIterator \<leftarrow> (if xValueOfInsertion = portMAX_DELAY
                    then Some (pxPrevious (itm s (xListEnd pxList)))
                    else insert_position s xValueOfInsertion (xListEnd pxList));
     let s = upd_item pxNewListItem (\<lambda>i. i\<lparr>pxNext := pxNext (itm s pxIterator)\<rparr>) s;
     let s = upd_item (pxNext (itm s pxNewListItem)) (\<lambda>i. i\<lparr>pxPrevious := pxNewListItem\<rparr>) s;
     let s = upd_item pxNewListItem (\<lambda>i. i\<lparr>pxPrevious := pxIterator\<rparr>) s;
     let s = upd_item pxIterator (\<lambda>i. i\<lparr>pxNext := pxNewListItem\<rparr>) s;
     let s = upd_item pxNewListItem (\<lambda>i. i\<lparr>pvContainer := pxList\<rparr>) s;
     Some (upd_list pxList (\<lambda>l. l\<lparr>uxNumberOfItems := uxNumberOfItems l + 1\<rparr>) s) }"

definition uxListRemove :: "u32 \<Rightarrow> 'a list_store_scheme \<Rightarrow> u32 \<times> 'a list_store_scheme" where
  "uxListRemove pxItemToRemove s =
    (let s = upd_item (pxNext (itm s pxItemToRemove))
               (\<lambda>i. i\<lparr>pxPrevious := pxPrevious (itm s pxItemToRemove)\<rparr>) s;
         s = upd_item (pxPrevious (itm s pxItemToRemove))
               (\<lambda>i. i\<lparr>pxNext := pxNext (itm s pxItemToRemove)\<rparr>) s;
         pxList = pvContainer (itm s pxItemToRemove);
         s = (if pxIndex (lst s pxList) = pxItemToRemove
              then upd_list pxList (\<lambda>l. l\<lparr>pxIndex := pxPrevious (itm s pxItemToRemove)\<rparr>) s
              else s);
         s = upd_item pxItemToRemove (\<lambda>i. i\<lparr>pvContainer := 0\<rparr>) s;
         s = upd_list pxList (\<lambda>l. l\<lparr>uxNumberOfItems := uxNumberOfItems l - 1\<rparr>) s
     in (uxNumberOfItems (lst s pxList), s))"

text \<open>The macros \<open>listGET_OWNER_OF_NEXT_ENTRY\<close> and \<open>listGET_OWNER_OF_HEAD_ENTRY\<close>.\<close>

definition listGET_OWNER_OF_NEXT_ENTRY :: "u32 \<Rightarrow> 'a list_store_scheme \<Rightarrow> u32 \<times> 'a list_store_scheme" where
  "listGET_OWNER_OF_NEXT_ENTRY pxList s =
    (let s = upd_list pxList (\<lambda>l. l\<lparr>pxIndex := pxNext (itm s (pxIndex l))\<rparr>) s;
         s = (if pxIndex (lst s pxList) = xListEnd pxList
              then upd_list pxList (\<lambda>l. l\<lparr>pxIndex := pxNext (itm s (pxIndex l))\<rparr>) s else s)
     in (pvOwner (itm s (pxIndex (lst s pxList))), s))"

definition listGET_OWNER_OF_HEAD_ENTRY :: "u32 \<Rightarrow> 'a list_store_scheme \<Rightarrow> u32" where
  "listGET_OWNER_OF_HEAD_ENTRY pxList s = pvOwner (itm s (pxNext (itm s (xListEnd pxList))))"

definition listIS_CONTAINED_WITHIN :: "u32 \<Rightarrow> u32 \<Rightarrow> 'a list_store_scheme \<Rightarrow> bool" where
  "listIS_CONTAINED_WITHIN pxList pxListItem s \<longleftrightarrow> pvContainer (itm s pxListItem) = pxList"

lemmas list_loops_code [code] = insert_position.simps

lemma upd_fields [simp]:
  "itm (upd_item a f s) = (itm s)(a := f (itm s a))" "lst (upd_item a f s) = lst s"
  "itm (upd_list a g s) = itm s" "lst (upd_list a g s) = (lst s)(a := g (lst s a))"
  by (simp_all add: upd_item_def upd_list_def)

section \<open>Paths\<close>

text \<open>\<open>path f a xs b\<close>: following \<open>f\<close> from \<open>a\<close> visits \<open>xs\<close> in order and arrives at \<open>b\<close>.\<close>

fun path :: "(u32 \<Rightarrow> u32) \<Rightarrow> u32 \<Rightarrow> u32 list \<Rightarrow> u32 \<Rightarrow> bool" where
  "path f a [] b \<longleftrightarrow> f a = b"
| "path f a (x # xs) b \<longleftrightarrow> f a = x \<and> path f x xs b"

lemma path_append: "path f a (xs @ ys) b \<longleftrightarrow> path f a xs (hd (ys @ [b])) \<and> path f (last (a # xs)) ys b"
proof (induction xs arbitrary: a)
  case Nil
  then show ?case by (cases ys) auto
qed auto

lemma path_cong: "path f a xs b \<Longrightarrow> (\<And>y. y \<in> set (a # xs) \<Longrightarrow> g y = f y) \<Longrightarrow> path g a xs b"
  by (induction xs arbitrary: a) auto

lemma path_last: "path f a xs b \<Longrightarrow> f (last (a # xs)) = b"
  by (induction xs arbitrary: a) auto

lemma path_relink:
  assumes "path f a xs b" "distinct (a # xs)" "\<And>y. y \<in> set (a # xs) \<Longrightarrow> y \<noteq> last (a # xs) \<Longrightarrow> g y = f y"
    "g (last (a # xs)) = c"
  shows "path g a xs c"
  using assms
proof (induction xs arbitrary: a)
  case (Cons x xs)
  have "a \<noteq> last (x # xs)" using Cons.prems(2) by (metis distinct.simps(2) last_in_set list.distinct(1))
  then have "g a = x" using Cons.prems by auto
  moreover have "path g x xs c" using Cons.prems by (intro Cons.IH) auto
  ultimately show ?case by simp
qed simp

lemma last_notin: "distinct (a # xs @ ys) \<Longrightarrow> last (a # xs) \<notin> set ys"
  by (cases xs rule: rev_cases) auto

lemma path_insert:
  assumes "path f a (xs @ ys) b" "distinct (a # xs @ ys)" "x \<notin> set (a # xs @ ys)"
    "g x = hd (ys @ [b])" "g (last (a # xs)) = x"
    "\<And>y. y \<in> set (a # xs @ ys) \<Longrightarrow> y \<noteq> last (a # xs) \<Longrightarrow> g y = f y"
  shows "path g a (xs @ x # ys) b"
proof -
  have p: "path f a xs (hd (ys @ [b]))" "path f (last (a # xs)) ys b" using assms(1) by (auto simp: path_append)
  have "path g a xs x"
  proof (rule path_relink [OF p(1)])
    show "g (last (a # xs)) = x" by (fact assms(5))
    show "distinct (a # xs)" using assms(2) by simp
    show "g y = f y" if "y \<in> set (a # xs)" "y \<noteq> last (a # xs)" for y
      by (rule assms(6) [OF _ that(2)]) (use that(1) in auto)
  qed
  moreover have "path g x ys b"
  proof (cases ys)
    case (Cons y zs)
    have "path f y zs b" using p(2) Cons by simp
    moreover have nl: "last (a # xs) \<notin> set ys" by (rule last_notin) (use assms(2) in auto)
    have "g z = f z" if "z \<in> set (y # zs)" for z
      by (rule assms(6)) (use that nl Cons in auto)
    ultimately have "path g y zs b" by (rule path_cong)
    then show ?thesis using assms(4) Cons by simp
  qed (use assms(4) in simp)
  ultimately show ?thesis using assms(5) by (simp add: path_append)
qed

lemma path_remove:
  assumes "path f a (xs @ x # ys) b" "distinct (a # xs @ x # ys)" "g (last (a # xs)) = f x"
    "\<And>y. y \<in> set (a # xs @ ys) \<Longrightarrow> y \<noteq> last (a # xs) \<Longrightarrow> g y = f y"
  shows "path g a (xs @ ys) b"
proof -
  have p: "path f a xs x" "path f x ys b" using assms(1) by (auto simp: path_append)
  have fx: "f x = hd (ys @ [b])" using p(2) by (cases ys) auto
  have nl: "last (a # xs) \<notin> set ys" by (rule last_notin) (use assms(2) in auto)
  have "path g a xs (hd (ys @ [b]))"
  proof (rule path_relink [OF p(1)])
    show "distinct (a # xs)" using assms(2) by simp
    show "g y = f y" if "y \<in> set (a # xs)" "y \<noteq> last (a # xs)" for y
      by (rule assms(4) [OF _ that(2)]) (use that(1) in auto)
    show "g (last (a # xs)) = hd (ys @ [b])" using assms(3) fx by simp
  qed
  moreover have "path g (last (a # xs)) ys b"
  proof (cases ys)
    case (Cons y zs)
    have "path f y zs b" using p(2) Cons by simp
    moreover have "g z = f z" if "z \<in> set (y # zs)" for z
      by (rule assms(4)) (use that nl Cons in auto)
    ultimately have "path g y zs b" by (rule path_cong)
    then show ?thesis using Cons fx assms(3) by simp
  qed (use assms(3) fx in simp)
  ultimately show ?thesis by (simp add: path_append)
qed

section \<open>The list abstraction\<close>

abbreviation nx :: "'a list_store_scheme \<Rightarrow> u32 \<Rightarrow> u32" where "nx s \<equiv> \<lambda>a. pxNext (itm s a)"
abbreviation pv :: "'a list_store_scheme \<Rightarrow> u32 \<Rightarrow> u32" where "pv s \<equiv> \<lambda>a. pxPrevious (itm s a)"

definition ring :: "'a list_store_scheme \<Rightarrow> u32 \<Rightarrow> u32 list \<Rightarrow> bool" where
  "ring s e xs \<longleftrightarrow> path (nx s) e xs e \<and> path (pv s) e (rev xs) e \<and> distinct (e # xs)"

text \<open>
  \<open>list_rep s l pre post\<close>: the list at \<open>l\<close> holds the items \<open>pre @ post\<close> in order, and its
  index stands on the last item of \<open>pre\<close>, or on the marker when \<open>pre\<close> is empty.
\<close>

definition list_rep :: "'a list_store_scheme \<Rightarrow> u32 \<Rightarrow> u32 list \<Rightarrow> u32 list \<Rightarrow> bool" where
  "list_rep s l pre post \<longleftrightarrow>
     ring s (xListEnd l) (pre @ post) \<and> pxIndex (lst s l) = last (xListEnd l # pre) \<and>
     uxNumberOfItems (lst s l) = of_nat (length (pre @ post)) \<and>
     (\<forall>x\<in>set (pre @ post). pvContainer (itm s x) = l) \<and>
     xItemValue (itm s (xListEnd l)) = portMAX_DELAY"

lemma hd_rev_snoc: "hd (rev xs @ [e]) = last (e # xs)"
  by (cases xs rule: rev_cases) auto

lemma last_rev_Cons: "last (e # rev ys) = hd (ys @ [e])"
  by (cases ys) auto

lemma ring_neighbours:
  assumes "ring s e (xs @ ys)"
  shows "nx s (last (e # xs)) = hd (ys @ [e])" "pv s (hd (ys @ [e])) = last (e # xs)"
proof -
  show "nx s (last (e # xs)) = hd (ys @ [e])"
    using assms path_last [of "nx s" e xs] by (simp add: ring_def path_append)
  show "pv s (hd (ys @ [e])) = last (e # xs)"
    using assms path_last [of "pv s" e "rev ys"]
    by (simp add: ring_def path_append last_rev_Cons hd_rev_snoc del: last.simps)
qed

lemma ring_insert:
  assumes r: "ring s e (xs @ ys)" and x: "x \<notin> set (e # xs @ ys)"
    and p: "p = last (e # xs)" and q: "q = hd (ys @ [e])"
    and n: "\<And>a. nx s' a = (if a = p then x else if a = x then q else nx s a)"
    and v: "\<And>a. pv s' a = (if a = q then x else if a = x then p else pv s a)"
  shows "ring s' e (xs @ x # ys)"
proof -
  have d: "distinct (e # xs @ ys)" using r by (simp add: ring_def)
  have px: "p \<noteq> x" using x last_in_set [of "e # xs"] p by fastforce
  have qx: "q \<noteq> x" using x hd_in_set [of "ys @ [e]"] q by fastforce
  have "path (nx s') e (xs @ x # ys) e"
  proof (rule path_insert [of "nx s"])
    show "nx s' x = hd (ys @ [e])" "nx s' (last (e # xs)) = x" using n px p q by (simp_all del: last.simps)
    show "nx s' y = nx s y" if "y \<in> set (e # xs @ ys)" "y \<noteq> last (e # xs)" for y
      using that x n p by (auto simp del: last.simps)
  qed (use r d x in \<open>auto simp: ring_def\<close>)
  moreover have "path (pv s') e (rev ys @ x # rev xs) e"
  proof (rule path_insert [of "pv s"])
    show "path (pv s) e (rev ys @ rev xs) e" using r by (simp add: ring_def)
    show "pv s' x = hd (rev xs @ [e])" using v qx p by (auto simp: hd_rev_snoc simp del: last.simps)
    show "pv s' (last (e # rev ys)) = x" using v q by (simp add: last_rev_Cons del: last.simps)
    show "pv s' y = pv s y" if "y \<in> set (e # rev ys @ rev xs)" "y \<noteq> last (e # rev ys)" for y
      using that x v q by (auto simp: last_rev_Cons simp del: last.simps)
  qed (use d x in auto)
  ultimately show ?thesis using d x by (auto simp: ring_def)
qed

lemma ring_remove:
  assumes r: "ring s e (xs @ x # ys)"
    and p: "p = last (e # xs)" and q: "q = hd (ys @ [e])"
    and n: "\<And>a. nx s' a = (if a = p then q else nx s a)"
    and v: "\<And>a. pv s' a = (if a = q then p else pv s a)"
  shows "ring s' e (xs @ ys)"
proof -
  have d: "distinct (e # xs @ x # ys)" using r by (simp add: ring_def)
  have r': "ring s e ((xs @ [x]) @ ys)" using r by simp
  have nb: "nx s x = q" "pv s x = p"
    using ring_neighbours(1) [OF r'] ring_neighbours(2) [OF r] q p by simp_all
  have "path (nx s') e (xs @ ys) e"
  proof (rule path_remove [of "nx s" e xs x ys])
    show "nx s' (last (e # xs)) = nx s x" using n nb p q by (simp del: last.simps)
    show "nx s' y = nx s y" if "y \<in> set (e # xs @ ys)" "y \<noteq> last (e # xs)" for y
      using that n p by (auto simp del: last.simps)
  qed (use r d in \<open>auto simp: ring_def\<close>)
  moreover have "path (pv s') e (rev ys @ rev xs) e"
  proof (rule path_remove [of "pv s" e "rev ys" x "rev xs"])
    show "pv s' (last (e # rev ys)) = pv s x" using v q nb by (simp add: last_rev_Cons del: last.simps)
    show "pv s' y = pv s y" if "y \<in> set (e # rev ys @ rev xs)" "y \<noteq> last (e # rev ys)" for y
      using that v q by (auto simp: last_rev_Cons simp del: last.simps)
  qed (use r d in \<open>auto simp: ring_def\<close>)
  ultimately show ?thesis using d by (auto simp: ring_def)
qed

lemma ring_cong: "ring s e xs \<Longrightarrow> (\<And>a. a \<in> set (e # xs) \<Longrightarrow> nx s' a = nx s a \<and> pv s' a = pv s a) \<Longrightarrow> ring s' e xs"
  unfolding ring_def by (metis path_cong set_rev list.simps(15))

section \<open>Each operation on the abstraction\<close>

lemma vListInitialise_rep: "list_rep (vListInitialise l s) l [] []"
  by (simp add: list_rep_def ring_def vListInitialise_def Let_def)

lemma vListInsertEnd_rep:
  assumes rep: "list_rep s l pre post" and x: "x \<notin> set (xListEnd l # pre @ post)"
  shows "list_rep (vListInsertEnd l x s) l (pre @ [x]) post"
proof -
  let ?e = "xListEnd l" and ?s' = "vListInsertEnd l x s"
  let ?p = "last (?e # pre)" and ?q = "hd (post @ [?e])"
  have r: "ring s ?e (pre @ post)" and i: "pxIndex (lst s l) = ?p" using rep by (simp_all add: list_rep_def)
  have px: "?p \<noteq> x" "?q \<noteq> x" using x last_in_set [of "?e # pre"] hd_in_set [of "post @ [?e]"] by fastforce+
  have nq: "nx s ?p = ?q" using ring_neighbours(1) [OF r] .
  have n: "nx ?s' a = (if a = ?p then x else if a = x then ?q else nx s a)"
    and v: "pv ?s' a = (if a = ?q then x else if a = x then ?p else pv s a)" for a
    using px nq by (auto simp: vListInsertEnd_def Let_def i simp del: last.simps)
  have o: "xItemValue (itm ?s' a) = xItemValue (itm s a)"
    "pvContainer (itm ?s' a) = (if a = x then l else pvContainer (itm s a))"
    "lst ?s' = (lst s)(l := (lst s l)\<lparr>pxIndex := x, uxNumberOfItems := uxNumberOfItems (lst s l) + 1\<rparr>)" for a
    by (auto simp: vListInsertEnd_def Let_def)
  have "ring ?s' ?e (pre @ x # post)" using ring_insert [OF r x refl refl n v] .
  then show ?thesis using rep x unfolding list_rep_def o by (auto simp: list_rep_def)
qed

lemma insert_position_spec:
  assumes "path (nx s) a (ys @ zs) e" "\<forall>y\<in>set ys. xItemValue (itm s y) \<le> v"
    "v < xItemValue (itm s (hd (zs @ [e])))"
  shows "insert_position s v a = Some (last (a # ys))"
  using assms
proof (induction ys arbitrary: a)
  case Nil
  then have "nx s a = hd (zs @ [e])" by (cases zs) auto
  then have "\<not> xItemValue (itm s (nx s a)) \<le> v" using Nil.prems(3) by simp
  then show ?case by (subst insert_position.simps) simp
next
  case (Cons y ys)
  then have "nx s a = y" "path (nx s) y (ys @ zs) e" "xItemValue (itm s y) \<le> v" by auto
  then show ?case using Cons.IH [of y] Cons.prems by (subst insert_position.simps) simp
qed

definition ordered_insert :: "(u32 \<Rightarrow> u32) \<Rightarrow> u32 \<Rightarrow> u32 list \<Rightarrow> u32 list" where
  "ordered_insert val x xs =
     takeWhile (\<lambda>y. val y \<le> val x) xs @ x # dropWhile (\<lambda>y. val y \<le> val x) xs"

lemma ordered_insert_sorted:
  assumes "sorted (map val xs)"
  shows "sorted (map val (ordered_insert val x xs))"
proof -
  let ?P = "\<lambda>y. val y \<le> val x"
  define ts where "ts = takeWhile ?P xs"
  define ds where "ds = dropWhile ?P xs"
  have td: "xs = ts @ ds" by (simp add: ts_def ds_def)
  have "\<forall>y\<in>set ds. val x \<le> val y"
  proof (cases ds)
    case (Cons z zs)
    then have "val x < val z" by (metis ds_def dropWhile_eq_Cons_conv not_le)
    moreover have "sorted (map val (z # zs))" using assms td Cons by (simp add: sorted_append)
    ultimately show ?thesis using Cons by auto
  qed simp
  moreover have "\<forall>y\<in>set ts. val y \<le> val x" by (auto simp: ts_def dest: set_takeWhileD)
  ultimately have "sorted (map val (ts @ x # ds))"
    using assms td by (auto simp: sorted_append)
  then show ?thesis by (simp only: ordered_insert_def ts_def ds_def)
qed

lemma split_index:
  assumes "pre @ post = xs @ ys" "distinct (e # pre @ post)" "x \<notin> set (e # pre @ post)"
  obtains pre' post' where "pre' @ post' = xs @ x # ys" "last (e # pre') = last (e # pre)"
proof (cases "length xs < length pre")
  case True
  then obtain us where us: "pre = xs @ us" "us @ post = ys" using assms(1) by (auto simp: append_eq_append_conv2)
  then have "us \<noteq> []" using True by auto
  then show thesis using that [of "xs @ x # us" post] us by auto
next
  case False
  then obtain us where "xs = pre @ us" "post = us @ ys" using assms(1) by (auto simp: append_eq_append_conv2)
  then show thesis using that [of pre "us @ x # ys"] by auto
qed

lemma vListInsert_rep:
  assumes rep: "list_rep s l pre post" and x: "x \<notin> set (xListEnd l # pre @ post)"
  shows "\<exists>s' pre' post'. vListInsert l x s = Some s' \<and> list_rep s' l pre' post' \<and>
    pre' @ post' = ordered_insert (\<lambda>y. xItemValue (itm s y)) x (pre @ post) \<and>
    last (xListEnd l # pre') = last (xListEnd l # pre) \<and>
    (\<forall>a. xItemValue (itm s' a) = xItemValue (itm s a) \<and> pvOwner (itm s' a) = pvOwner (itm s a)) \<and>
    (\<forall>a. a \<notin> set (x # xListEnd l # pre @ post) \<longrightarrow> itm s' a = itm s a) \<and> (\<forall>k. k \<noteq> l \<longrightarrow> lst s' k = lst s k)"
proof -
  let ?e = "xListEnd l" and ?v = "xItemValue (itm s x)"
  let ?P = "\<lambda>y. xItemValue (itm s y) \<le> ?v"
  define ys where "ys = takeWhile ?P (pre @ post)"
  define zs where "zs = dropWhile ?P (pre @ post)"
  have yz: "pre @ post = ys @ zs" by (simp add: ys_def zs_def)
  have r: "ring s ?e (ys @ zs)" and em: "xItemValue (itm s ?e) = portMAX_DELAY"
    using rep yz by (simp_all add: list_rep_def)
  have d: "distinct (?e # pre @ post)" using r yz by (simp add: ring_def)
  let ?p = "last (?e # ys)" and ?q = "hd (zs @ [?e])"
  have pos: "(if ?v = portMAX_DELAY then Some (pv s ?e) else insert_position s ?v ?e) = Some ?p"
  proof (cases "?v = portMAX_DELAY")
    case True
    then have "zs = []" by (auto simp: zs_def dropWhile_eq_Nil_conv)
    then show ?thesis using True ring_neighbours(2) [OF r] by simp
  next
    case False
    then have "?v < portMAX_DELAY" by (simp add: order_less_le)
    moreover have "zs \<noteq> [] \<Longrightarrow> \<not> ?P (hd zs)" using hd_dropWhile zs_def by blast
    ultimately have "?v < xItemValue (itm s ?q)" using em by (cases zs) auto
    moreover have "path (nx s) ?e (ys @ zs) ?e" using r by (simp add: ring_def)
    moreover have "\<forall>y\<in>set ys. ?P y" by (auto simp: ys_def dest: set_takeWhileD)
    ultimately have "insert_position s ?v ?e = Some ?p" by (intro insert_position_spec)
    then show ?thesis using False by (simp only: if_False)
  qed
  have x': "x \<notin> set (?e # ys @ zs)" using x yz by simp
  have px: "?p \<noteq> x" "?q \<noteq> x" using x' last_in_set [of "?e # ys"] hd_in_set [of "zs @ [?e]"] by fastforce+
  have nq: "nx s ?p = ?q" using ring_neighbours(1) [OF r] .
  define s' where "s' = the (vListInsert l x s)"
  have s': "vListInsert l x s = Some s'"
    unfolding s'_def vListInsert_def Let_def pos by simp
  have it: "itm s' a = (if a = x then (itm s x)\<lparr>pxNext := ?q, pxPrevious := ?p, pvContainer := l\<rparr>
      else (itm s a)\<lparr>pxNext := (if a = ?p then x else nx s a), pxPrevious := (if a = ?q then x else pv s a)\<rparr>)" for a
    unfolding s'_def vListInsert_def Let_def pos using px nq by (simp del: last.simps)
  have ls: "lst s' = (lst s)(l := (lst s l)\<lparr>uxNumberOfItems := uxNumberOfItems (lst s l) + 1\<rparr>)"
    unfolding s'_def vListInsert_def Let_def pos by simp
  have "ring s' ?e (ys @ x # zs)"
    by (rule ring_insert [OF r x' refl refl]) (use px in \<open>auto simp: it simp del: last.simps\<close>)
  moreover obtain pre' post' where pp: "pre' @ post' = ys @ x # zs" "last (?e # pre') = last (?e # pre)"
    using split_index [OF yz d x] .
  moreover have "length (pre' @ post') = Suc (length (pre @ post))" "set (pre' @ post') = insert x (set (pre @ post))"
    unfolding pp(1) yz by auto
  moreover have "xItemValue (itm s' ?e) = xItemValue (itm s ?e)"
    using x by (auto simp: it simp del: last.simps)
  moreover have "pvContainer (itm s' a) = (if a = x then l else pvContainer (itm s a))" for a
    by (simp add: it)
  ultimately have "list_rep s' l pre' post'"
    using rep em by (auto simp: list_rep_def ls simp del: last.simps append_eq_append_conv set_append length_append)
  moreover have "pre' @ post' = ordered_insert (\<lambda>y. xItemValue (itm s y)) x (pre @ post)"
    using pp(1) by (simp only: ordered_insert_def ys_def zs_def)
  moreover have "\<forall>a. xItemValue (itm s' a) = xItemValue (itm s a) \<and> pvOwner (itm s' a) = pvOwner (itm s a)"
    by (simp add: it)
  moreover have "itm s' a = itm s a" if "a \<notin> set (x # ?e # pre @ post)" for a
  proof -
    have "?p \<in> set (?e # ys)" "?q \<in> set (zs @ [?e])" by (rule last_in_set hd_in_set; simp)+
    then have "a \<noteq> ?p" "a \<noteq> ?q" "a \<noteq> x" using that unfolding yz by auto
    then show ?thesis by (simp add: it)
  qed
  moreover have "\<forall>k. k \<noteq> l \<longrightarrow> lst s' k = lst s k" by (simp add: ls)
  ultimately show ?thesis using s' pp(2) by blast
qed

lemma remove1_split:
  assumes "pre @ post = ys @ x # zs" "distinct (e # ys @ x # zs)"
  shows "remove1 x pre @ remove1 x post = ys @ zs"
    "last (e # remove1 x pre) = (if last (e # pre) = x then last (e # ys) else last (e # pre))"
proof -
  have D: "(\<exists>us. pre = ys @ x # us \<and> zs = us @ post) \<or> (\<exists>us. ys = pre @ us \<and> post = us @ x # zs)"
    using assms(1) by (auto simp: append_eq_append_conv2 append_eq_Cons_conv)
  then show "remove1 x pre @ remove1 x post = ys @ zs"
    using assms(2) by (auto simp: remove1_append remove1_idem)
  show "last (e # remove1 x pre) = (if last (e # pre) = x then last (e # ys) else last (e # pre))"
    using D
  proof (elim disjE exE conjE)
    fix us assume "pre = ys @ x # us" "zs = us @ post"
    then show ?thesis using assms(2) by (cases us rule: rev_cases) (auto simp: remove1_append)
  next
    fix us assume u: "ys = pre @ us" "post = us @ x # zs"
    have "last (e # pre) \<noteq> x" using assms(2) u by (cases pre rule: rev_cases) auto
    then show ?thesis using assms(2) u by (simp add: remove1_idem)
  qed
qed

lemma uxListRemove_rep:
  assumes rep: "list_rep s l pre post" and x: "x \<in> set (pre @ post)"
  shows "list_rep (snd (uxListRemove x s)) l (remove1 x pre) (remove1 x post)"
    "fst (uxListRemove x s) = of_nat (length (pre @ post) - 1)"
    "pvContainer (itm (snd (uxListRemove x s)) x) = 0"
    "a \<notin> set (xListEnd l # pre @ post) \<Longrightarrow> itm (snd (uxListRemove x s)) a = itm s a"
    "k \<noteq> l \<Longrightarrow> lst (snd (uxListRemove x s)) k = lst s k"
    "pvOwner (itm (snd (uxListRemove x s)) a) = pvOwner (itm s a)"
proof -
  let ?e = "xListEnd l" and ?s' = "snd (uxListRemove x s)"
  obtain ys zs where yz: "pre @ post = ys @ x # zs" using x by (meson split_list)
  have r: "ring s ?e (ys @ x # zs)" and i: "pxIndex (lst s l) = last (?e # pre)"
    and c: "pvContainer (itm s x) = l" and n: "uxNumberOfItems (lst s l) = of_nat (length (pre @ post))"
    using rep x yz by (simp_all add: list_rep_def)
  have r': "ring s ?e ((ys @ [x]) @ zs)" using r by simp
  let ?p = "last (?e # ys)" and ?q = "hd (zs @ [?e])"
  have nb: "nx s x = ?q" "pv s x = ?p" using ring_neighbours(1) [OF r'] ring_neighbours(2) [OF r] by simp_all
  have d: "distinct (?e # ys @ x # zs)" using r by (simp add: ring_def)
  have pm: "?p \<in> set (?e # ys)" "?q \<in> set (?e # zs)" using last_in_set [of "?e # ys"] hd_in_set [of "zs @ [?e]"] by auto
  have px: "?p \<noteq> x" "?q \<noteq> x" using pm d by auto
  have it: "itm ?s' a = (if a = x then (itm s x)\<lparr>pvContainer := 0\<rparr> else
      (itm s a)\<lparr>pxNext := (if a = ?p then ?q else nx s a), pxPrevious := (if a = ?q then ?p else pv s a)\<rparr>)" for a
    using px nb by (auto simp: uxListRemove_def Let_def c simp del: last.simps)
  have ls: "lst ?s' = (lst s)(l := \<lparr>uxNumberOfItems = uxNumberOfItems (lst s l) - 1,
      pxIndex = (if last (?e # pre) = x then ?p else last (?e # pre))\<rparr>)"
    using px nb by (auto simp: uxListRemove_def Let_def c i simp del: last.simps)
  have rr: "ring ?s' ?e (ys @ zs)"
    by (rule ring_remove [OF r refl refl]) (use px nb in \<open>auto simp: it simp del: last.simps\<close>)
  have rem: "remove1 x pre @ remove1 x post = ys @ zs" "last (?e # remove1 x pre) = (if last (?e # pre) = x then ?p else last (?e # pre))"
    using remove1_split [OF yz d] by simp_all
  have len: "length (pre @ post) = Suc (length (ys @ zs))" using yz by simp
  show "list_rep ?s' l (remove1 x pre) (remove1 x post)"
  proof -
    have "\<forall>a\<in>set (pre @ post). pvContainer (itm s a) = l" "xItemValue (itm s ?e) = portMAX_DELAY"
      using rep by (simp_all add: list_rep_def)
    then have "\<forall>a\<in>set (ys @ zs). pvContainer (itm ?s' a) = l" "xItemValue (itm ?s' ?e) = portMAX_DELAY"
      using d unfolding yz by (auto simp: it simp del: last.simps)
    moreover have "uxNumberOfItems (lst ?s' l) = of_nat (length (ys @ zs))" using n by (simp add: ls len del: length_append)
    ultimately show ?thesis unfolding list_rep_def rem using rr by (simp add: ls del: last.simps)
  qed
  show "fst (uxListRemove x s) = of_nat (length (pre @ post) - 1)"
    using n by (simp add: uxListRemove_def Let_def c len del: length_append)
  show "pvContainer (itm ?s' x) = 0" by (simp add: it)
  show "k \<noteq> l \<Longrightarrow> lst ?s' k = lst s k" by (simp add: ls)
  show "pvOwner (itm ?s' a) = pvOwner (itm s a)" by (simp add: it)
  show "itm ?s' a = itm s a" if "a \<notin> set (?e # pre @ post)"
    using that pm yz by (auto simp: it simp del: last.simps)
qed

lemma listGET_OWNER_OF_NEXT_ENTRY_rep:
  assumes rep: "list_rep s l pre post" and q: "post @ pre = y # ys"
  shows "\<exists>pre' post'. list_rep (snd (listGET_OWNER_OF_NEXT_ENTRY l s)) l pre' post' \<and> post' @ pre' = ys @ [y] \<and>
    pre' @ post' = pre @ post"
    "fst (listGET_OWNER_OF_NEXT_ENTRY l s) = pvOwner (itm s y)"
    "itm (snd (listGET_OWNER_OF_NEXT_ENTRY l s)) = itm s"
    "k \<noteq> l \<Longrightarrow> lst (snd (listGET_OWNER_OF_NEXT_ENTRY l s)) k = lst s k"
proof -
  let ?e = "xListEnd l" and ?r = "listGET_OWNER_OF_NEXT_ENTRY l s"
  have r: "ring s ?e (pre @ post)" and i: "pxIndex (lst s l) = last (?e # pre)" using rep by (simp_all add: list_rep_def)
  have d: "distinct (?e # pre @ post)" using r by (simp add: ring_def)
  have n: "nx s (last (?e # pre)) = hd (post @ [?e])" using ring_neighbours(1) [OF r] .
  have h: "nx s ?e = hd (pre @ post @ [?e])" using ring_neighbours(1) [of s ?e "[]" "pre @ post"] r by simp
  have y: "lst (snd ?r) = (lst s)(l := (lst s l)\<lparr>pxIndex := y\<rparr>)"
    "fst ?r = pvOwner (itm s y)" "itm (snd ?r) = itm s"
    using q n h d i
    by (cases post; auto simp: listGET_OWNER_OF_NEXT_ENTRY_def Let_def simp del: last.simps)+
  then show "fst ?r = pvOwner (itm s y)" "itm (snd ?r) = itm s" "k \<noteq> l \<Longrightarrow> lst (snd ?r) k = lst s k" by simp_all
  have rg: "ring (snd ?r) ?e xs = ring s ?e xs" for xs by (simp add: ring_def y)
  show "\<exists>pre' post'. list_rep (snd ?r) l pre' post' \<and> post' @ pre' = ys @ [y] \<and> pre' @ post' = pre @ post"
  proof (cases post)
    case Nil
    then show ?thesis using q rep by (intro exI [of _ "[y]"] exI [of _ ys]) (auto simp: list_rep_def rg y)
  next
    case (Cons z zs)
    then show ?thesis using q rep by (intro exI [of _ "pre @ [y]"] exI [of _ zs]) (auto simp: list_rep_def rg y)
  qed
qed

lemma vListInsertEnd_frame:
  assumes "list_rep s l pre post"
  shows "a \<notin> set (x # xListEnd l # pre @ post) \<Longrightarrow> itm (vListInsertEnd l x s) a = itm s a"
    "k \<noteq> l \<Longrightarrow> lst (vListInsertEnd l x s) k = lst s k"
    "pvOwner (itm (vListInsertEnd l x s) a) = pvOwner (itm s a)"
proof -
  let ?e = "xListEnd l"
  have r: "ring s ?e (pre @ post)" and i: "pxIndex (lst s l) = last (?e # pre)" using assms by (simp_all add: list_rep_def)
  have m: "last (?e # pre) \<in> set (?e # pre)" "hd (post @ [?e]) \<in> set (post @ [?e])" by (rule last_in_set hd_in_set; simp)+
  show "itm (vListInsertEnd l x s) a = itm s a" if "a \<notin> set (x # ?e # pre @ post)"
  proof -
    have "a \<noteq> last (?e # pre)" "a \<noteq> hd (post @ [?e])" "a \<noteq> x"
      using m that by (auto simp del: last.simps)
    moreover have "nx s (last (?e # pre)) = hd (post @ [?e])" using ring_neighbours(1) [OF r] .
    ultimately show ?thesis by (auto simp: vListInsertEnd_def Let_def i simp del: last.simps)
  qed
qed (auto simp: vListInsertEnd_def Let_def)

lemma list_rep_frame:
  assumes "list_rep s l pre post" "\<And>a. a \<in> set (xListEnd l # pre @ post) \<Longrightarrow> itm s' a = itm s a"
    "lst s' l = lst s l"
  shows "list_rep s' l pre post"
proof -
  have "ring s' (xListEnd l) (pre @ post)"
  proof (rule ring_cong)
    show "ring s (xListEnd l) (pre @ post)" using assms(1) by (simp add: list_rep_def)
  qed (simp only: assms(2))
  moreover have "\<forall>x\<in>set (pre @ post). itm s' x = itm s x" "itm s' (xListEnd l) = itm s (xListEnd l)"
    using assms(2) by simp_all
  ultimately show ?thesis using assms(1,3) by (simp add: list_rep_def)
qed

section \<open>Round-robin queues\<close>

text \<open>
  What the scheduler relies on in its ready lists: \<open>rot s q\<close> says that \<open>q\<close> is the order in
  which the members will be visited next.
\<close>

locale round_robin =
  fixes rot :: "'s \<Rightarrow> 'x list \<Rightarrow> bool" and usable :: "'x \<Rightarrow> bool"
    and add :: "'x \<Rightarrow> 's \<Rightarrow> 's" and del :: "'x \<Rightarrow> 's \<Rightarrow> 's"
    and visit :: "'s \<Rightarrow> 'o \<times> 's" and owner :: "'s \<Rightarrow> 'x \<Rightarrow> 'o"
  assumes add_last: "rot s q \<Longrightarrow> usable x \<Longrightarrow> x \<notin> set q \<Longrightarrow> rot (add x s) (q @ [x])"
    and add_owner: "rot s q \<Longrightarrow> owner (add x s) = owner s"
    and del_member: "rot s q \<Longrightarrow> x \<in> set q \<Longrightarrow> rot (del x s) (remove1 x q)"
    and visit_first: "rot s (x # q) \<Longrightarrow> fst (visit s) = owner s x \<and> rot (snd (visit s)) (q @ [x])"
    and visit_owner: "rot s (x # q) \<Longrightarrow> owner (snd (visit s)) = owner s"
begin

lemma visits:
  assumes "rot s (xs @ ys)"
  shows "fst (collect (length xs) visit s) = map (owner s) xs" "rot (snd (collect (length xs) visit s)) (ys @ xs)"
    "owner (snd (collect (length xs) visit s)) = owner s"
proof -
  have "rot s (xs @ ys) \<Longrightarrow> fst (collect (length xs) visit s) = map (owner s) xs \<and>
    rot (snd (collect (length xs) visit s)) (ys @ xs) \<and> owner (snd (collect (length xs) visit s)) = owner s"
  proof (induction xs arbitrary: s ys)
    case (Cons x xs)
    then have v: "fst (visit s) = owner s x" "rot (snd (visit s)) (xs @ (ys @ [x]))" "owner (snd (visit s)) = owner s"
      using visit_first [of s x "xs @ ys"] visit_owner [of s x "xs @ ys"] by auto
    then show ?case using Cons.IH [OF v(2)] by (auto simp: split_beta Let_def)
  qed simp
  then show "fst (collect (length xs) visit s) = map (owner s) xs" "rot (snd (collect (length xs) visit s)) (ys @ xs)"
    "owner (snd (collect (length xs) visit s)) = owner s" using assms by auto
qed

text \<open>As many visits as there are members reach each member once and restore the order.\<close>

lemma full_round:
  "rot s q \<Longrightarrow> fst (collect (length q) visit s) = map (owner s) q \<and> rot (snd (collect (length q) visit s)) q"
  using visits [of s q "[]"] by simp

text \<open>A new member waits for exactly one visit to every other member.\<close>

lemma added_waits_one_round:
  assumes "rot s q" "usable x" "x \<notin> set q"
  shows "fst (collect (Suc (length q)) visit (add x s)) = map (owner s) q @ [owner s x]"
proof -
  have "rot (add x s) (q @ [x])" using add_last [OF assms] .
  from full_round [OF this] show ?thesis using add_owner [OF assms(1)] by simp
qed

end

definition rotation :: "u32 \<Rightarrow> 'a list_store_scheme \<Rightarrow> u32 list \<Rightarrow> bool" where
  "rotation l s q \<longleftrightarrow> (\<exists>pre post. list_rep s l pre post \<and> q = post @ pre)"

interpretation ready_list: round_robin "rotation l" "\<lambda>x. x \<noteq> xListEnd l" "vListInsertEnd l"
  "\<lambda>x s. snd (uxListRemove x s)" "listGET_OWNER_OF_NEXT_ENTRY l" "\<lambda>s x. pvOwner (itm s x)" for l
proof
  fix s q x assume "rotation l s q" "x \<noteq> xListEnd l" "x \<notin> set q"
  then obtain pre post where "list_rep s l pre post" "q = post @ pre" "x \<notin> set (xListEnd l # pre @ post)"
    by (auto simp: rotation_def)
  then show "rotation l (vListInsertEnd l x s) (q @ [x])"
    using vListInsertEnd_rep [of s l pre post x] unfolding rotation_def by (intro exI) auto
next
  fix s q x assume "rotation l s q"
  then obtain pre post where "list_rep s l pre post" by (auto simp: rotation_def)
  from vListInsertEnd_frame(3) [OF this]
  show "(\<lambda>y. pvOwner (itm (vListInsertEnd l x s) y)) = (\<lambda>y. pvOwner (itm s y))" by simp
next
  fix s q x assume "rotation l s q" "x \<in> set q"
  then obtain pre post where r: "list_rep s l pre post" "q = post @ pre" "x \<in> set (pre @ post)"
    by (auto simp: rotation_def)
  have "distinct (pre @ post)" using r(1) by (simp add: list_rep_def ring_def)
  then have "x \<notin> set post \<or> x \<notin> set pre" by auto
  then have "remove1 x q = remove1 x post @ remove1 x pre"
    using r(2) by (elim disjE) (auto simp: remove1_append remove1_idem)
  then show "rotation l (snd (uxListRemove x s)) (remove1 x q)"
    using uxListRemove_rep(1) [OF r(1,3)] unfolding rotation_def by blast
next
  fix s x q assume "rotation l s (x # q)"
  then obtain pre post where r: "list_rep s l pre post" "post @ pre = x # q" by (auto simp: rotation_def)
  show "fst (listGET_OWNER_OF_NEXT_ENTRY l s) = pvOwner (itm s x) \<and>
      rotation l (snd (listGET_OWNER_OF_NEXT_ENTRY l s)) (q @ [x])"
    using listGET_OWNER_OF_NEXT_ENTRY_rep(1,2) [OF r] unfolding rotation_def by metis
  show "(\<lambda>y. pvOwner (itm (snd (listGET_OWNER_OF_NEXT_ENTRY l s)) y)) = (\<lambda>y. pvOwner (itm s y))"
    using listGET_OWNER_OF_NEXT_ENTRY_rep(3) [OF r] by simp
qed

section \<open>Several lists in one store\<close>

text \<open>
  The kernel keeps many lists whose items are parts of the same objects. A map \<open>M\<close> from list
  addresses to contents describes them all: each list is well formed and no item, marker
  included, is on two lists.
\<close>

type_synonym list_map = "u32 \<Rightarrow> (u32 list \<times> u32 list) option"

definition footprint :: "u32 \<Rightarrow> u32 list \<times> u32 list \<Rightarrow> u32 set" where
  "footprint l c = set (xListEnd l # fst c @ snd c)"

definition lists_ok :: "'a list_store_scheme \<Rightarrow> list_map \<Rightarrow> bool" where
  "lists_ok s M \<longleftrightarrow>
     (\<forall>l c. M l = Some c \<longrightarrow> list_rep s l (fst c) (snd c)) \<and>
     (\<forall>l c l' c'. M l = Some c \<longrightarrow> M l' = Some c' \<longrightarrow> l \<noteq> l' \<longrightarrow> footprint l c \<inter> footprint l' c' = {})"

definition free_item :: "list_map \<Rightarrow> u32 \<Rightarrow> bool" where
  "free_item M x \<longleftrightarrow> (\<forall>l c. M l = Some c \<longrightarrow> x \<notin> footprint l c)"

lemma lists_okD: "lists_ok s M \<Longrightarrow> M l = Some c \<Longrightarrow> list_rep s l (fst c) (snd c)"
  by (simp add: lists_ok_def)

text \<open>Changing one list inside its own footprint, and possibly one free item, keeps the rest.\<close>

lemma lists_ok_update:
  assumes ok: "lists_ok s M" and l: "M l = Some c" and X: "\<forall>x\<in>X. free_item M x"
    and rep: "list_rep s' l (fst c') (snd c')" and fp: "footprint l c' \<subseteq> X \<union> footprint l c"
    and same: "\<And>a. a \<notin> X \<union> footprint l c \<Longrightarrow> itm s' a = itm s a"
    and lsts: "\<And>k. k \<noteq> l \<Longrightarrow> lst s' k = lst s k"
  shows "lists_ok s' (M(l \<mapsto> c'))"
proof -
  have apart: "footprint k d \<inter> (X \<union> footprint l c) = {}" if "k \<noteq> l" "M k = Some d" for k d
    using ok l X that unfolding lists_ok_def free_item_def by blast
  show ?thesis
    unfolding lists_ok_def
  proof (intro conjI allI impI)
    fix k d assume k: "(M(l \<mapsto> c')) k = Some d"
    show "list_rep s' k (fst d) (snd d)"
    proof (cases "k = l")
      case False
      then have d: "M k = Some d" using k by simp
      show ?thesis
      proof (rule list_rep_frame [OF lists_okD [OF ok d]])
        fix a assume "a \<in> set (xListEnd k # fst d @ snd d)"
        then have "a \<notin> X \<union> footprint l c" using apart [OF False d] by (auto simp: footprint_def)
        then show "itm s' a = itm s a" by (rule same)
      qed (use lsts False in simp)
    qed (use k rep in simp)
  next
    fix k d k' d' assume k: "(M(l \<mapsto> c')) k = Some d" "(M(l \<mapsto> c')) k' = Some d'" "k \<noteq> k'"
    consider "k = l" "d = c'" "M k' = Some d'" | "k' = l" "d' = c'" "M k = Some d" | "M k = Some d" "M k' = Some d'"
      using k by (cases "k = l"; cases "k' = l") auto
    then show "footprint k d \<inter> footprint k' d' = {}"
    proof cases
      case 1
      then show ?thesis using apart [of k' d'] k(3) fp by blast
    next
      case 2
      then show ?thesis using apart [of k d] k(3) fp by blast
    next
      case 3
      then show ?thesis using ok k(3) unfolding lists_ok_def by blast
    qed
  qed
qed

lemma ordered_insert_set: "set (ordered_insert val x xs) = insert x (set xs)"
proof -
  have "set (takeWhile (\<lambda>y. val y \<le> val x) xs) \<union> set (dropWhile (\<lambda>y. val y \<le> val x) xs) = set xs"
    by (metis set_append takeWhile_dropWhile_id)
  then show ?thesis unfolding ordered_insert_def set_append list.set by blast
qed

lemma lists_insert_end:
  assumes ok: "lists_ok s M" and l: "M l = Some (pre, post)" and x: "free_item M x"
  shows "lists_ok (vListInsertEnd l x s) (M(l \<mapsto> (pre @ [x], post)))"
proof -
  have rep: "list_rep s l pre post" using lists_okD [OF ok l] by simp
  have xl: "x \<notin> set (xListEnd l # pre @ post)" using x l by (force simp: free_item_def footprint_def)
  show ?thesis
    by (rule lists_ok_update [OF ok l, of "{x}"])
      (use x vListInsertEnd_rep [OF rep xl] vListInsertEnd_frame [OF rep] in \<open>auto simp: footprint_def\<close>)
qed

lemma lists_insert:
  assumes ok: "lists_ok s M" and l: "M l = Some (pre, post)" and x: "free_item M x"
  shows "\<exists>s' c. vListInsert l x s = Some s' \<and> lists_ok s' (M(l \<mapsto> c)) \<and>
    fst c @ snd c = ordered_insert (\<lambda>y. xItemValue (itm s y)) x (pre @ post) \<and>
    (\<forall>a. xItemValue (itm s' a) = xItemValue (itm s a) \<and> pvOwner (itm s' a) = pvOwner (itm s a))"
proof -
  have rep: "list_rep s l pre post" using lists_okD [OF ok l] by simp
  have xl: "x \<notin> set (xListEnd l # pre @ post)" using x l by (force simp: free_item_def footprint_def)
  obtain s' pre' post' where s': "vListInsert l x s = Some s'" "list_rep s' l pre' post'"
    "pre' @ post' = ordered_insert (\<lambda>y. xItemValue (itm s y)) x (pre @ post)"
    "\<forall>a. xItemValue (itm s' a) = xItemValue (itm s a) \<and> pvOwner (itm s' a) = pvOwner (itm s a)"
    "\<forall>a. a \<notin> set (x # xListEnd l # pre @ post) \<longrightarrow> itm s' a = itm s a" "\<forall>k. k \<noteq> l \<longrightarrow> lst s' k = lst s k"
    using vListInsert_rep [OF rep xl] by (elim exE conjE) (rule that; assumption)
  have "set (pre' @ post') = insert x (set (pre @ post))"
    unfolding s'(3) by (rule ordered_insert_set)
  then have fp: "footprint l (pre', post') \<subseteq> {x} \<union> footprint l (pre, post)" by (auto simp: footprint_def)
  have "lists_ok s' (M(l \<mapsto> (pre', post')))"
    by (rule lists_ok_update [OF ok l _ _ fp]) (use x s'(2,5,6) in \<open>simp_all add: footprint_def\<close>)
  then show ?thesis using s' by (intro exI [of _ s'] exI [of _ "(pre', post')"]) auto
qed

lemma lists_remove:
  assumes ok: "lists_ok s M" and l: "M l = Some (pre, post)" and x: "x \<in> set (pre @ post)"
  shows "lists_ok (snd (uxListRemove x s)) (M(l \<mapsto> (remove1 x pre, remove1 x post)))"
    "free_item (M(l \<mapsto> (remove1 x pre, remove1 x post))) x"
proof -
  have rep: "list_rep s l pre post" using lists_okD [OF ok l] by simp
  note R = uxListRemove_rep [OF rep x]
  have d: "distinct (xListEnd l # pre @ post)" using rep by (simp add: list_rep_def ring_def)
  have sub: "footprint l (remove1 x pre, remove1 x post) \<subseteq> footprint l (pre, post) - {x}"
    using d x set_remove1_subset [of x pre] set_remove1_subset [of x post]
    by (auto simp: footprint_def set_remove1_eq)
  then show f: "free_item (M(l \<mapsto> (remove1 x pre, remove1 x post))) x"
    unfolding free_item_def
  proof (intro allI impI)
    fix k d assume f: "footprint l (remove1 x pre, remove1 x post) \<subseteq> footprint l (pre, post) - {x}"
      and k: "(M(l \<mapsto> (remove1 x pre, remove1 x post))) k = Some d"
    have "x \<in> footprint l (pre, post)" using x by (auto simp: footprint_def)
    then have "x \<notin> footprint k d" if "k \<noteq> l" "M k = Some d"
      using ok l that unfolding lists_ok_def by blast
    then show "x \<notin> footprint k d" using k f by (cases "k = l") auto
  qed
  have "footprint l (remove1 x pre, remove1 x post) \<subseteq> {} \<union> footprint l (pre, post)" using sub by blast
  then show "lists_ok (snd (uxListRemove x s)) (M(l \<mapsto> (remove1 x pre, remove1 x post)))"
    by (rule lists_ok_update [OF ok l, of "{}", rotated 2]) (use R(1,4,5) in \<open>auto simp: footprint_def\<close>)
qed

lemma lists_next:
  assumes ok: "lists_ok s M" and l: "M l = Some (pre, post)" and q: "post @ pre = y # ys"
  shows "\<exists>c. lists_ok (snd (listGET_OWNER_OF_NEXT_ENTRY l s)) (M(l \<mapsto> c)) \<and> snd c @ fst c = ys @ [y] \<and>
    fst (listGET_OWNER_OF_NEXT_ENTRY l s) = pvOwner (itm s y)"
proof -
  have rep: "list_rep s l pre post" using lists_okD [OF ok l] by simp
  note N = listGET_OWNER_OF_NEXT_ENTRY_rep [OF rep q]
  obtain pre' post' where c: "list_rep (snd (listGET_OWNER_OF_NEXT_ENTRY l s)) l pre' post'"
    "post' @ pre' = ys @ [y]" "pre' @ post' = pre @ post" using N(1) by blast
  have "footprint l (pre', post') \<subseteq> {} \<union> footprint l (pre, post)" using c(3) by (simp add: footprint_def)
  then have "lists_ok (snd (listGET_OWNER_OF_NEXT_ENTRY l s)) (M(l \<mapsto> (pre', post')))"
    by (rule lists_ok_update [OF ok l, of "{}", rotated 2]) (use c(1) N(3,4) in auto)
  then show ?thesis using c(2) N(2) by (intro exI [of _ "(pre', post')"]) simp
qed

section \<open>Properties\<close>

text \<open>
  \<open>vListInsert\<close> into a well-formed list always ends and yields a well-formed list in which the
  new item stands after every item of a value not greater than its own. A list sorted by value
  stays sorted, in ascending order (the comments of \<^verbatim>\<open>list.h\<close> speak of descending order), the index stays where it was,
  and every list that shares no item is untouched.
\<close>

theorem vListInsert_sorts:
  assumes "list_rep s l pre post" "x \<notin> set (xListEnd l # pre @ post)"
    "sorted (map (\<lambda>y. xItemValue (itm s y)) (pre @ post))"
    "list_rep s k p q" "k \<noteq> l" "set (xListEnd k # p @ q) \<inter> set (x # xListEnd l # pre @ post) = {}"
  shows "\<exists>s' pre' post'. vListInsert l x s = Some s' \<and> list_rep s' l pre' post' \<and>
    pre' @ post' = ordered_insert (\<lambda>y. xItemValue (itm s y)) x (pre @ post) \<and>
    sorted (map (\<lambda>y. xItemValue (itm s' y)) (pre' @ post')) \<and>
    last (xListEnd l # pre') = last (xListEnd l # pre) \<and> list_rep s' k p q"
proof -
  obtain s' pre' post' where s': "vListInsert l x s = Some s'" "list_rep s' l pre' post'"
    "pre' @ post' = ordered_insert (\<lambda>y. xItemValue (itm s y)) x (pre @ post)"
    "last (xListEnd l # pre') = last (xListEnd l # pre)"
    "\<forall>a. xItemValue (itm s' a) = xItemValue (itm s a) \<and> pvOwner (itm s' a) = pvOwner (itm s a)"
    "\<forall>a. a \<notin> set (x # xListEnd l # pre @ post) \<longrightarrow> itm s' a = itm s a" "\<forall>k. k \<noteq> l \<longrightarrow> lst s' k = lst s k"
    using vListInsert_rep [OF assms(1,2)] by (elim exE conjE) (rule that; assumption)
  have "list_rep s' k p q"
    by (rule list_rep_frame [OF assms(4)]) (use s'(6,7) assms(5,6) in blast)+
  moreover have "sorted (map (\<lambda>y. xItemValue (itm s' y)) (pre' @ post'))"
    using ordered_insert_sorted [OF assms(3)] s'(3,5) by simp
  ultimately show ?thesis using s'(1-4) by blast
qed

text \<open>
  C9. Round robin: on a list of \<open>n\<close> items, \<open>n\<close> consecutive uses of
  \<open>listGET_OWNER_OF_NEXT_ENTRY\<close> return the owner of every item once, in visiting order, and
  leave the list in the same rotation.
\<close>

theorem next_entry_round_robin:
  assumes "list_rep s l pre post"
  shows "fst (collect (length (post @ pre)) (listGET_OWNER_OF_NEXT_ENTRY l) s) =
      map (\<lambda>x. pvOwner (itm s x)) (post @ pre) \<and>
    rotation l (snd (collect (length (post @ pre)) (listGET_OWNER_OF_NEXT_ENTRY l) s)) (post @ pre)"
  using ready_list.full_round [of l s "post @ pre"] assms by (auto simp: rotation_def)

text \<open>
  An item added by \<open>vListInsertEnd\<close> is visited only after each item that was already there
  has been visited once.
\<close>

theorem insert_end_visited_last:
  assumes "list_rep s l pre post" "x \<notin> set (xListEnd l # pre @ post)"
  shows "fst (collect (Suc (length (post @ pre))) (listGET_OWNER_OF_NEXT_ENTRY l) (vListInsertEnd l x s)) =
    map (\<lambda>y. pvOwner (itm s y)) (post @ pre) @ [pvOwner (itm s x)]"
  using ready_list.added_waits_one_round [of l s "post @ pre" x] assms by (auto simp: rotation_def)

text \<open>
  Moving an item from one list to another (\<open>uxListRemove\<close>, then \<open>vListInsertEnd\<close>) keeps both
  lists well formed: the first loses exactly that item, with its index still on a member or on the
  marker, and returns its new length; the second gains it behind its index.
\<close>

theorem move_between_lists:
  assumes "list_rep s l pre post" "x \<in> set (pre @ post)" "list_rep s k p q" "k \<noteq> l"
    "set (xListEnd k # p @ q) \<inter> set (xListEnd l # pre @ post) = {}"
  shows "list_rep (vListInsertEnd k x (snd (uxListRemove x s))) l (remove1 x pre) (remove1 x post) \<and>
    list_rep (vListInsertEnd k x (snd (uxListRemove x s))) k (p @ [x]) q \<and>
    fst (uxListRemove x s) = of_nat (length (pre @ post) - 1)"
proof -
  let ?s = "snd (uxListRemove x s)"
  note R = uxListRemove_rep [OF assms(1,2)]
  have k: "list_rep ?s k p q"
    by (rule list_rep_frame [OF assms(3)]) (use R(4,5) assms(4,5) in blast)+
  have d: "distinct (xListEnd l # pre @ post)" using assms(1) by (simp add: list_rep_def ring_def)
  have x: "x \<notin> set (xListEnd k # p @ q)" using assms(2,5) by (auto simp del: set_append)
  have "list_rep (vListInsertEnd k x ?s) l (remove1 x pre) (remove1 x post)"
  proof (rule list_rep_frame [OF R(1)])
    fix a assume a: "a \<in> set (xListEnd l # remove1 x pre @ remove1 x post)"
    then have "a \<in> set (xListEnd l # pre @ post)" "a \<noteq> x"
      using d assms(2) notin_set_remove1 set_remove1_subset [of x] by (auto simp: set_remove1_eq)
    then have "a \<notin> set (x # xListEnd k # p @ q)" using assms(5) by auto
    then show "itm (vListInsertEnd k x ?s) a = itm ?s a" using vListInsertEnd_frame(1) [OF k] by blast
  qed (use vListInsertEnd_frame(2) [OF k] assms(4) in auto)
  then show ?thesis using vListInsertEnd_rep [OF k x] R(2) by blast
qed

text \<open>A store with two lists, the first holding two items whose value is their address.\<close>

definition demo_lists :: list_store where
  "demo_lists =
    (let blank = \<lparr>itm = (\<lambda>a. \<lparr>xItemValue = a, pxNext = 0, pxPrevious = 0, pvOwner = a + 1, pvContainer = 0\<rparr>),
                  lst = (\<lambda>_. \<lparr>uxNumberOfItems = 0, pxIndex = 0\<rparr>)\<rparr>;
         s = vListInitialise 0x2000 (vListInitialise 0x1000 blank)
     in vListInsertEnd 0x1000 0x3100 (vListInsertEnd 0x1000 0x3000 s))"

lemma demo_lists_rep:
  "list_rep demo_lists 0x1000 [0x3000, 0x3100] []" "list_rep demo_lists 0x2000 [] []"
  "sorted (map (\<lambda>y. xItemValue (itm demo_lists y)) [0x3000, 0x3100])"
  by code_simp+

lemma demo_apart:
  "set [xListEnd 0x2000] \<inter> set [0x3080, xListEnd 0x1000, 0x3000, 0x3100] = {}"
  "set [xListEnd 0x2000] \<inter> set [xListEnd 0x1000, 0x3000, 0x3100] = {}"
  by (simp_all add: xListEnd_def)

theorem vListInsert_sorts_witness:
  "\<exists>s' pre' post'. vListInsert 0x1000 0x3080 demo_lists = Some s' \<and> list_rep s' 0x1000 pre' post' \<and>
     pre' @ post' = [0x3000, 0x3080, 0x3100] \<and> list_rep s' 0x2000 [] []"
proof -
  have "ordered_insert (\<lambda>y. xItemValue (itm demo_lists y)) 0x3080 ([0x3000, 0x3100] @ []) = [0x3000, 0x3080, 0x3100]"
    by code_simp
  with vListInsert_sorts [OF demo_lists_rep(1) _ _ demo_lists_rep(2), of "0x3080"] demo_lists_rep(3) demo_apart(1)
  show ?thesis by (auto simp: xListEnd_def)
qed

theorem next_entry_round_robin_witness:
  "fst (collect 2 (listGET_OWNER_OF_NEXT_ENTRY 0x1000) demo_lists) = [0x3001, 0x3101]"
proof -
  have "map (\<lambda>x. pvOwner (itm demo_lists x)) ([] @ [0x3000, 0x3100]) = [0x3001, 0x3101]" by code_simp
  then show ?thesis using next_entry_round_robin [OF demo_lists_rep(1)] by (simp del: collect.simps add: numeral_2_eq_2)
qed

theorem insert_end_visited_last_witness:
  "fst (collect 3 (listGET_OWNER_OF_NEXT_ENTRY 0x1000) (vListInsertEnd 0x1000 0x3080 demo_lists)) =
     [0x3001, 0x3101, 0x3081]"
proof -
  have "map (\<lambda>x. pvOwner (itm demo_lists x)) ([] @ [0x3000, 0x3100]) @ [pvOwner (itm demo_lists 0x3080)] =
    [0x3001, 0x3101, 0x3081]" by code_simp
  then show ?thesis
    using insert_end_visited_last [OF demo_lists_rep(1), of "0x3080"]
    by (simp del: collect.simps add: numeral_3_eq_3 xListEnd_def)
qed

theorem move_between_lists_witness:
  "list_rep (vListInsertEnd 0x2000 0x3000 (snd (uxListRemove 0x3000 demo_lists))) 0x1000 [0x3100] [] \<and>
   list_rep (vListInsertEnd 0x2000 0x3000 (snd (uxListRemove 0x3000 demo_lists))) 0x2000 [0x3000] [] \<and>
   fst (uxListRemove 0x3000 demo_lists) = 1"
  using move_between_lists [OF demo_lists_rep(1) _ demo_lists_rep(2), of "0x3000"] demo_apart(2) by simp

end
