(* ===== verification/Heap4.thy ===== *)
theory Heap4
  imports Prelude "HOL-Library.Disjoint_Sets"
begin

text \<open>
  The kernel's allocator, \<^verbatim>\<open>FreeRTOS/src/heap_4.c\<close>: an address-ordered singly linked list of
  free blocks with headers in the heap itself. Addresses and sizes are natural numbers below
  \<open>2 ^ 32\<close>; sums of \<open>size_t\<close> values and byte pointers wrap as in C. The block headers are a
  store from addresses to \<open>xBlockLink\<close> structs. All blocks start on 8-byte boundaries and a
  header is eight bytes long, so that two headers never overlap partially. \<open>configASSERT\<close> and
  the failed-malloc hook are compiled out by \<^verbatim>\<open>FreeRTOSConfig.h\<close>.
\<close>

record xBlockLink =
  pxNextFreeBlock :: nat
  xBlockSize :: nat

text \<open>The file's statics. \<open>ucHeap\<close> and \<open>xStart\<close> are the link-time addresses of the objects.\<close>

record heap4 =
  blk :: "nat \<Rightarrow> xBlockLink"
  pxEnd :: nat
  xFreeBytesRemaining :: nat
  ucHeap :: nat
  xStart :: nat

definition heapSTRUCT_SIZE :: nat where
  "heapSTRUCT_SIZE = 8 + 8 - 8 mod 8"

definition heapMINIMUM_BLOCK_SIZE :: nat where
  "heapMINIMUM_BLOCK_SIZE = heapSTRUCT_SIZE * 2"

definition xTotalHeapSize :: nat where
  "xTotalHeapSize = (16 * 1024 - 8) div 8 * 8"

definition set_next :: "nat \<Rightarrow> nat \<Rightarrow> heap4 \<Rightarrow> heap4" where
  "set_next a v s = s\<lparr>blk := (blk s)(a := (blk s a)\<lparr>pxNextFreeBlock := v\<rparr>)\<rparr>"

definition set_size :: "nat \<Rightarrow> nat \<Rightarrow> heap4 \<Rightarrow> heap4" where
  "set_size a v s = s\<lparr>blk := (blk s)(a := (blk s a)\<lparr>xBlockSize := v\<rparr>)\<rparr>"

abbreviation nxt :: "heap4 \<Rightarrow> nat \<Rightarrow> nat" where "nxt s a \<equiv> pxNextFreeBlock (blk s a)"
abbreviation bsize :: "heap4 \<Rightarrow> nat \<Rightarrow> nat" where "bsize s a \<equiv> xBlockSize (blk s a)"

section \<open>Operations\<close>

text \<open>Clearing the alignment bits of an address is rounding down to a multiple of 8.\<close>

definition prvHeapInit :: "heap4 \<Rightarrow> heap4" where
  "prvHeapInit s =
    (let pucAlignedHeap = u32_add (ucHeap s) 8 div 8 * 8;
         s = set_size (xStart s) 0 (set_next (xStart s) pucAlignedHeap s);
         pucHeapEnd = u32_sub (u32_add pucAlignedHeap xTotalHeapSize) heapSTRUCT_SIZE;
         s = s\<lparr>pxEnd := pucHeapEnd\<rparr>;
         s = set_next (pxEnd s) 0 (set_size (pxEnd s) 0 s);
         s = set_size pucAlignedHeap (u32_sub xTotalHeapSize heapSTRUCT_SIZE) s;
         s = set_next pucAlignedHeap (pxEnd s) s
     in s\<lparr>xFreeBytesRemaining := u32_sub (xFreeBytesRemaining s) heapSTRUCT_SIZE\<rparr>)"

partial_function (option) insert_search :: "heap4 \<Rightarrow> nat \<Rightarrow> nat \<Rightarrow> nat option" where
  "insert_search s pxBlockToInsert pxIterator =
    (if nxt s pxIterator < pxBlockToInsert
     then insert_search s pxBlockToInsert (nxt s pxIterator)
     else Some pxIterator)"

definition prvInsertBlockIntoFreeList :: "nat \<Rightarrow> heap4 \<Rightarrow> heap4 option" where
  "prvInsertBlockIntoFreeList pxBlockToInsert s = do {
     pxIterator \<leftarrow> insert_search s pxBlockToInsert (xStart s);
     let (pxBlockToInsert, s) =
       (if u32_add pxIterator (bsize s pxIterator) = pxBlockToInsert
        then (pxIterator, set_size pxIterator (u32_add (bsize s pxIterator) (bsize s pxBlockToInsert)) s)
        else (pxBlockToInsert, s));
     let s =
       (if u32_add pxBlockToInsert (bsize s pxBlockToInsert) = nxt s pxIterator then
          (if nxt s pxIterator \<noteq> pxEnd s then
             (let s = set_size pxBlockToInsert
                        (u32_add (bsize s pxBlockToInsert) (bsize s (nxt s pxIterator))) s
              in set_next pxBlockToInsert (nxt s (nxt s pxIterator)) s)
           else set_next pxBlockToInsert (pxEnd s) s)
        else set_next pxBlockToInsert (nxt s pxIterator) s);
     Some (if pxIterator \<noteq> pxBlockToInsert then set_next pxIterator pxBlockToInsert s else s) }"

partial_function (option) fit_search :: "heap4 \<Rightarrow> nat \<Rightarrow> nat \<Rightarrow> nat \<Rightarrow> (nat \<times> nat) option" where
  "fit_search s xWantedSize pxPreviousBlock pxBlock =
    (if bsize s pxBlock < xWantedSize \<and> nxt s pxBlock \<noteq> 0
     then fit_search s xWantedSize pxBlock (nxt s pxBlock)
     else Some (pxPreviousBlock, pxBlock))"

definition adjust_size :: "nat \<Rightarrow> nat" where
  "adjust_size xWantedSize =
    (if 0 < xWantedSize then
       (let n = u32_add xWantedSize heapSTRUCT_SIZE
        in if n mod 8 \<noteq> 0 then u32_add n (8 - n mod 8) else n)
     else xWantedSize)"

definition take_block :: "nat \<Rightarrow> nat \<Rightarrow> nat \<Rightarrow> heap4 \<Rightarrow> (nat \<times> heap4) option" where
  "take_block xWantedSize pxPreviousBlock pxBlock s = do {
     let pvReturn = u32_add (nxt s pxPreviousBlock) heapSTRUCT_SIZE;
     let s = set_next pxPreviousBlock (nxt s pxBlock) s;
     s \<leftarrow> (if heapMINIMUM_BLOCK_SIZE < u32_sub (bsize s pxBlock) xWantedSize then
             (let pxNewBlockLink = u32_add pxBlock xWantedSize;
                  s = set_size pxNewBlockLink (u32_sub (bsize s pxBlock) xWantedSize) s;
                  s = set_size pxBlock xWantedSize s
              in prvInsertBlockIntoFreeList pxNewBlockLink s)
           else Some s);
     Some (pvReturn,
           s\<lparr>xFreeBytesRemaining := u32_sub (xFreeBytesRemaining s) (bsize s pxBlock)\<rparr>) }"

definition pvPortMalloc :: "nat \<Rightarrow> heap4 \<Rightarrow> (nat \<times> heap4) option" where
  "pvPortMalloc xWantedSize s = do {
     let s = (if pxEnd s = 0 then prvHeapInit s else s);
     let xWantedSize = adjust_size xWantedSize;
     if 0 < xWantedSize \<and> xWantedSize < xTotalHeapSize then do {
       (pxPreviousBlock, pxBlock) \<leftarrow> fit_search s xWantedSize (xStart s) (nxt s (xStart s));
       if pxBlock \<noteq> pxEnd s then take_block xWantedSize pxPreviousBlock pxBlock s
       else Some (0, s) }
     else Some (0, s) }"

definition vPortFree :: "nat \<Rightarrow> heap4 \<Rightarrow> heap4 option" where
  "vPortFree pv s =
    (if pv \<noteq> 0 then
       (let pxLink = u32_sub pv heapSTRUCT_SIZE;
            s = s\<lparr>xFreeBytesRemaining := u32_add (xFreeBytesRemaining s) (bsize s pxLink)\<rparr>
        in prvInsertBlockIntoFreeList pxLink s)
     else Some s)"

definition xPortGetFreeHeapSize :: "heap4 \<Rightarrow> nat" where
  "xPortGetFreeHeapSize s = xFreeBytesRemaining s"

text \<open>The statics' initial values: \<open>pxEnd\<close> is NULL until the first allocation.\<close>

definition heap_boot :: "nat \<Rightarrow> nat \<Rightarrow> heap4" where
  "heap_boot ucHeap_addr xStart_addr =
    \<lparr>blk = (\<lambda>_. \<lparr>pxNextFreeBlock = 0, xBlockSize = 0\<rparr>), pxEnd = 0,
     xFreeBytesRemaining = xTotalHeapSize, ucHeap = ucHeap_addr, xStart = xStart_addr\<rparr>"

lemmas heap_loops_code [code] = insert_search.simps fit_search.simps

lemma heap_consts [simp]:
  "heapSTRUCT_SIZE = 16" "heapMINIMUM_BLOCK_SIZE = 32" "xTotalHeapSize = 16376"
  by (simp_all add: heapSTRUCT_SIZE_def heapMINIMUM_BLOCK_SIZE_def xTotalHeapSize_def)

section \<open>Abstraction: the free list as a list of blocks\<close>

fun chain :: "(nat \<Rightarrow> xBlockLink) \<Rightarrow> nat \<Rightarrow> (nat \<times> nat) list \<Rightarrow> nat \<Rightarrow> bool" where
  "chain h a [] e \<longleftrightarrow> pxNextFreeBlock (h a) = e"
| "chain h a ((b, n) # fl) e \<longleftrightarrow> pxNextFreeBlock (h a) = b \<and> xBlockSize (h b) = n \<and> chain h b fl e"

definition first_of :: "(nat \<times> nat) list \<Rightarrow> nat \<Rightarrow> nat" where
  "first_of fl e = (case fl of [] \<Rightarrow> e | (b, _) # _ \<Rightarrow> b)"

definition last_of :: "nat \<Rightarrow> (nat \<times> nat) list \<Rightarrow> nat" where
  "last_of a fl = (if fl = [] then a else fst (last fl))"

text \<open>Free blocks are kept in address order and never touch: neighbours have been merged.\<close>

fun separated :: "(nat \<times> nat) list \<Rightarrow> bool" where
  "separated [] = True"
| "separated [_] = True"
| "separated ((a, n) # (b, m) # fl) \<longleftrightarrow> a + n < b \<and> separated ((b, m) # fl)"

definition cells :: "nat \<times> nat \<Rightarrow> nat set" where
  "cells x = {fst x ..< fst x + snd x}"

definition free_cells :: "(nat \<times> nat) list \<Rightarrow> nat set" where
  "free_cells fl = (\<Union>x\<in>set fl. cells x)"

text \<open>The specification of insertion: merge with the successor, then with the predecessor.\<close>

definition join_next :: "nat \<times> nat \<Rightarrow> (nat \<times> nat) list \<Rightarrow> (nat \<times> nat) list" where
  "join_next x fl =
    (case fl of
       [] \<Rightarrow> [x]
     | c # cs \<Rightarrow> if fst x + snd x = fst c then (fst x, snd x + snd c) # cs else x # fl)"

definition coalesce :: "nat \<times> nat \<Rightarrow> (nat \<times> nat) list \<Rightarrow> (nat \<times> nat) list" where
  "coalesce x fl =
    (let pre = takeWhile (\<lambda>c. fst c < fst x) fl; post = dropWhile (\<lambda>c. fst c < fst x) fl
     in if pre \<noteq> [] \<and> fst (last pre) + snd (last pre) = fst x
        then butlast pre @ join_next (fst (last pre), snd (last pre) + snd x) post
        else pre @ join_next x post)"

lemma chain_next: "chain h a fl e \<Longrightarrow> pxNextFreeBlock (h a) = first_of fl e"
  by (cases fl) (auto simp: first_of_def)

lemma chain_append:
  "chain h a (pre @ post) e \<longleftrightarrow> chain h a pre (first_of post e) \<and> chain h (last_of a pre) post e"
proof (induction pre arbitrary: a)
  case Nil
  show ?case using chain_next [of h a post e] by (auto simp: last_of_def)
next
  case (Cons x pre)
  show ?case using Cons.IH [of "fst x"] by (cases x) (auto simp: last_of_def)
qed

lemma in_fst: "(a, b) \<in> S \<Longrightarrow> a \<in> fst ` S"
  by force

lemma chain_size: "chain h a fl e \<Longrightarrow> (b, n) \<in> set fl \<Longrightarrow> xBlockSize (h b) = n"
  by (induction fl arbitrary: a) auto

lemma set_fields [simp]:
  "blk (set_next a v s) = (blk s)(a := (blk s a)\<lparr>pxNextFreeBlock := v\<rparr>)"
  "blk (set_size a v s) = (blk s)(a := (blk s a)\<lparr>xBlockSize := v\<rparr>)"
  "pxEnd (set_next a v s) = pxEnd s" "pxEnd (set_size a v s) = pxEnd s"
  "xStart (set_next a v s) = xStart s" "xStart (set_size a v s) = xStart s"
  "ucHeap (set_next a v s) = ucHeap s" "ucHeap (set_size a v s) = ucHeap s"
  "xFreeBytesRemaining (set_next a v s) = xFreeBytesRemaining s"
  "xFreeBytesRemaining (set_size a v s) = xFreeBytesRemaining s"
  by (simp_all add: set_next_def set_size_def)

lemma separated_append:
  "separated (pre @ post) \<longleftrightarrow> separated pre \<and> separated post \<and>
     (pre \<noteq> [] \<and> post \<noteq> [] \<longrightarrow> fst (last pre) + snd (last pre) < fst (hd post))"
proof (induction pre rule: separated.induct)
  case (2 x)
  then show ?case by (cases x; cases post) auto
qed auto

lemma separated_Cons_iff:
  "separated (x # fl) \<longleftrightarrow> (fl \<noteq> [] \<longrightarrow> fst x + snd x < fst (hd fl)) \<and> separated fl"
  by (cases x; cases fl) auto

lemma separated_after: "separated (x # fl) \<Longrightarrow> y \<in> set fl \<Longrightarrow> fst x + snd x < fst y"
proof (induction fl arbitrary: x)
  case (Cons z fl)
  then show ?case using Cons.IH [of z] by (fastforce simp: separated_Cons_iff)
qed simp

lemma separated_distinct: "separated fl \<Longrightarrow> distinct (map fst fl)"
proof (induction fl)
  case (Cons x fl)
  then show ?case using separated_after [of x fl] by (fastforce simp: separated_Cons_iff)
qed simp

lemma separated_before:
  assumes "separated (pre @ x # post)" "y \<in> set pre"
  shows "fst y + snd y < fst x"
proof -
  obtain p q where pre: "pre = p @ y # q" using assms(2) by (meson split_list)
  then have "separated (y # q @ x # post)" using assms(1) by (simp add: separated_append)
  from separated_after [OF this] show ?thesis by simp
qed

lemma chain_move:
  assumes "chain h a fl e" "pxNextFreeBlock (h' a') = pxNextFreeBlock (h a)"
    "\<And>b. b \<in> fst ` set fl \<Longrightarrow> h' b = h b"
  shows "chain h' a' fl e"
  using assms by (induction fl arbitrary: a a') auto

lemma chain_relink:
  assumes "chain h a fl e" "pxNextFreeBlock (h' (last_of a fl)) = e'" "distinct (a # map fst fl)"
    "\<And>b. b \<in> insert a (fst ` set fl) \<Longrightarrow> xBlockSize (h' b) = xBlockSize (h b)"
    "\<And>b. b \<in> insert a (fst ` set fl) \<Longrightarrow> b \<noteq> last_of a fl \<Longrightarrow>
      pxNextFreeBlock (h' b) = pxNextFreeBlock (h b)"
  shows "chain h' a fl e'"
  using assms
proof (induction fl arbitrary: a)
  case (Cons x fl)
  obtain b n where x: "x = (b, n)" by fastforce
  have l: "last_of a (x # fl) = last_of b fl" by (simp add: last_of_def x)
  have "a \<noteq> last_of b fl" using Cons.prems(3) by (auto simp: last_of_def x)
  moreover have "chain h' b fl e'"
    using Cons.prems l by (intro Cons.IH) (auto simp: x)
  ultimately show ?case using Cons.prems l by (auto simp: x)
qed (simp add: last_of_def)

lemma insert_search_spec:
  assumes "chain (blk s) a (pre @ post) e" "\<And>x. x \<in> set pre \<Longrightarrow> fst x < b" "b \<le> first_of post e"
  shows "insert_search s b a = Some (last_of a pre)"
  using assms
proof (induction pre arbitrary: a)
  case Nil
  then show ?case
    using chain_next [OF Nil(1)] by (simp add: insert_search.simps last_of_def)
next
  case (Cons x pre)
  then have "nxt s a = fst x" "chain (blk s) (fst x) (pre @ post) e" by (cases x; simp)+
  then show ?case
    using Cons.IH [of "fst x"] Cons.prems by (simp add: insert_search.simps [of s b a] last_of_def)
qed

lemma fit_search_spec:
  assumes "chain (blk s) a (pre @ post) e" "nxt s e = 0" "bsize s e < n"
    "\<And>x. x \<in> set pre \<Longrightarrow> snd x < n" "post \<noteq> [] \<Longrightarrow> n \<le> snd (hd post)"
    "\<And>x. x \<in> set (pre @ post) \<Longrightarrow> fst x \<noteq> 0" "e \<noteq> 0"
  shows "fit_search s n a (nxt s a) = Some (last_of a pre, first_of post e)"
  using assms
proof (induction pre arbitrary: a)
  case Nil
  show ?case
  proof (cases post)
    case Nil
    then show ?thesis using \<open>chain (blk s) a ([] @ post) e\<close> assms(2)
      by (simp add: fit_search.simps first_of_def last_of_def)
  next
    case (Cons x p)
    then show ?thesis using Nil.prems
      by (cases x) (auto simp: fit_search.simps first_of_def last_of_def)
  qed
next
  case (Cons x pre)
  obtain b m where x: "x = (b, m)" by fastforce
  have c: "nxt s a = b" "bsize s b = m" "chain (blk s) b (pre @ post) e"
    using Cons.prems(1) by (simp_all add: x)
  have "nxt s b = first_of (pre @ post) e" using chain_next [OF c(3)] .
  moreover have "\<forall>y\<in>set (pre @ post). fst y \<noteq> 0" using Cons.prems(6) by simp
  ultimately have "nxt s b \<noteq> 0"
    using Cons.prems(7) by (cases "pre @ post") (auto simp: first_of_def)
  then have "fit_search s n a (nxt s a) = fit_search s n b (nxt s b)"
    using c Cons.prems(4) [of x] by (simp add: fit_search.simps [of s n a b] x)
  then show ?case using Cons.IH [OF c(3)] Cons.prems by (auto simp: last_of_def x)
qed

section \<open>Insertion refines \<open>coalesce\<close>\<close>

text \<open>What \<open>prvInsertBlockIntoFreeList\<close> relies on: the block lies between free blocks.\<close>

definition insertable :: "heap4 \<Rightarrow> (nat \<times> nat) list \<Rightarrow> nat \<Rightarrow> nat \<Rightarrow> bool" where
  "insertable s fl b n \<longleftrightarrow>
     chain (blk s) (xStart s) fl (pxEnd s) \<and> separated fl \<and> bsize s b = n \<and> 0 < n \<and>
     b + n \<le> pxEnd s \<and> pxEnd s < 2 ^ 32 \<and> bsize s (xStart s) = 0 \<and> xStart s < 2 ^ 32 \<and>
     xStart s \<notin> insert b (insert (pxEnd s) (fst ` set fl)) \<and>
     (\<forall>x\<in>set fl. 0 < snd x \<and> fst x + snd x \<le> pxEnd s \<and> (fst x + snd x \<le> b \<or> b + n \<le> fst x))"

definition keeps_rest :: "heap4 \<Rightarrow> nat set \<Rightarrow> heap4 \<Rightarrow> bool" where
  "keeps_rest s F s' \<longleftrightarrow>
     pxEnd s' = pxEnd s \<and> xStart s' = xStart s \<and> ucHeap s' = ucHeap s \<and>
     xFreeBytesRemaining s' = xFreeBytesRemaining s \<and> bsize s' (xStart s) = bsize s (xStart s) \<and>
     (\<forall>a. a \<notin> F \<longrightarrow> blk s' a = blk s a)"

lemma keeps_rest_mono: "keeps_rest s F s' \<Longrightarrow> F \<subseteq> G \<Longrightarrow> keeps_rest s G s'"
  by (auto simp: keeps_rest_def)

text \<open>The part of the insertion after the search and the merge with the predecessor.\<close>

definition link_block :: "nat \<Rightarrow> nat \<Rightarrow> heap4 \<Rightarrow> heap4" where
  "link_block it b s =
    (let s = (if u32_add b (bsize s b) = nxt s it then
                (if nxt s it \<noteq> pxEnd s then
                   set_next b (nxt s (nxt s it)) (set_size b (u32_add (bsize s b) (bsize s (nxt s it))) s)
                 else set_next b (pxEnd s) s)
              else set_next b (nxt s it) s)
     in if it \<noteq> b then set_next it b s else s)"

lemma prvInsert_link:
  "prvInsertBlockIntoFreeList b s = Option.bind (insert_search s b (xStart s)) (\<lambda>it.
     Some (if u32_add it (bsize s it) = b
           then link_block it it (set_size it (u32_add (bsize s it) (bsize s b)) s)
           else link_block it b s))"
  unfolding prvInsertBlockIntoFreeList_def link_block_def
  by (cases "insert_search s b (xStart s)") (auto simp: Let_def)

lemma link_block_chain:
  assumes "nxt s it = first_of post (pxEnd s)" "chain (blk s) it post (pxEnd s)"
    "bsize s b = n" "b + n \<le> first_of post (pxEnd s)" "pxEnd s < 2 ^ 32" "b \<notin> fst ` set post" "it \<notin> fst ` set post"
    "\<forall>x\<in>set post. fst x + snd x \<le> pxEnd s \<and> 0 < snd x" "separated post"
    "xStart s \<noteq> b"
  shows "xBlockSize (blk (link_block it b s) b) = snd (hd (join_next (b, n) post))
    \<and> chain (blk (link_block it b s)) b (tl (join_next (b, n) post)) (pxEnd s)
    \<and> keeps_rest s {it, b} (link_block it b s)"
proof (cases post)
  case Nil
  then show ?thesis using assms
    by (auto simp: link_block_def keeps_rest_def first_of_def join_next_def Let_def)
next
  case (Cons x p)
  obtain c m where x: "x = (c, m)" by fastforce
  have c: "nxt s it = c" "bsize s c = m" "chain (blk s) c p (pxEnd s)" "c \<noteq> pxEnd s"
    "c \<noteq> b" "c \<noteq> it" "b + n \<le> c" "c + m < 2 ^ 32" "c \<notin> fst ` set p"
    using assms separated_distinct [OF assms(9)] by (auto simp: Cons x first_of_def)
  have p: "b \<notin> fst ` set p" "it \<notin> fst ` set p" using assms(6,7) by (auto simp: Cons)
  show ?thesis
  proof (cases "b + n = c")
    case True
    have "chain (blk (link_block it b s)) b p (pxEnd s)"
      using c p True assms(3) by (intro chain_move [OF c(3)]) (auto simp: link_block_def Let_def)
    then show ?thesis using c True assms(3,10)
      by (auto simp: Cons x link_block_def Let_def keeps_rest_def join_next_def)
  next
    case False
    have "chain (blk (link_block it b s)) c p (pxEnd s)"
      using c p False assms(3) by (intro chain_move [OF c(3)]) (auto simp: link_block_def Let_def)
    then show ?thesis using c False assms(3,10)
      by (auto simp: Cons x link_block_def Let_def keeps_rest_def join_next_def)
  qed
qed

lemma first_join_next [simp]: "first_of (join_next x post) e = fst x" "join_next x post \<noteq> []"
  "fst (hd (join_next x post)) = fst x"
  by (auto simp: join_next_def first_of_def split: list.splits)

lemma chain_of_hd:
  "fl \<noteq> [] \<Longrightarrow> chain h a fl e \<longleftrightarrow>
     pxNextFreeBlock (h a) = fst (hd fl) \<and> xBlockSize (h (fst (hd fl))) = snd (hd fl) \<and>
     chain h (fst (hd fl)) (tl fl) e"
  by (cases fl) auto

lemma insert_nomerge:
  assumes c: "chain (blk s) (xStart s) (pre @ post) (pxEnd s)" and sep: "separated (pre @ post)"
    and lt: "\<And>x. x \<in> set pre \<Longrightarrow> fst x + snd x < b"
    and b: "bsize s b = n" "b + n \<le> first_of post (pxEnd s)" "pxEnd s < 2 ^ 32" "b \<notin> fst ` set post"
    and x0: "xStart s \<notin> insert b (fst ` set (pre @ post))"
    and bd: "\<forall>x\<in>set post. fst x + snd x \<le> pxEnd s \<and> 0 < snd x"
  shows "chain (blk (link_block (last_of (xStart s) pre) b s)) (xStart s)
           (pre @ join_next (b, n) post) (pxEnd s)
    \<and> keeps_rest s {last_of (xStart s) pre, b} (link_block (last_of (xStart s) pre) b s)"
proof -
  let ?it = "last_of (xStart s) pre" let ?s' = "link_block ?it b s"
  have d: "distinct (map fst (pre @ post))" using separated_distinct [OF sep] .
  have bpre: "b \<notin> fst ` set pre" using lt by fastforce
  have "?it \<in> insert (xStart s) (fst ` set pre)" by (simp add: last_of_def)
  then have it: "?it \<notin> fst ` set post" "?it \<noteq> b" "b \<notin> fst ` set pre"
    using d x0 bpre by (auto simp: image_Un dest: in_fst)
  have cp: "chain (blk s) ?it post (pxEnd s)" "chain (blk s) (xStart s) pre (first_of post (pxEnd s))"
    using c by (auto simp: chain_append)
  have L: "xBlockSize (blk ?s' b) = snd (hd (join_next (b, n) post))"
    "chain (blk ?s') b (tl (join_next (b, n) post)) (pxEnd s)" "keeps_rest s {?it, b} ?s'"
    using link_block_chain [OF chain_next [OF cp(1)] cp(1) b(1,2,3,4) it(1) bd] sep x0
    by (auto simp: separated_append)
  have nb: "nxt ?s' ?it = b" "bsize ?s' ?it = bsize s ?it"
    using it(2) by (auto simp: link_block_def Let_def)
  have same: "blk ?s' a = blk s a" if "a \<noteq> ?it" "a \<noteq> b" for a
    using L(3) that by (simp add: keeps_rest_def)
  then have sz: "bsize ?s' a = bsize s a" if "a \<noteq> b" for a using nb(2) that by metis
  have ne: "a \<noteq> b" if "a \<in> insert (xStart s) (fst ` set pre)" for a using that x0 it(3) by auto
  have "chain (blk ?s') (xStart s) pre b"
  proof (rule chain_relink [OF cp(2)])
    show "distinct (xStart s # map fst pre)" using d x0 by (simp add: image_Un)
  qed (use ne nb(1) same sz in simp_all)
  then show ?thesis using L nb by (simp add: chain_append chain_of_hd)
qed

lemma insert_merge:
  assumes c: "chain (blk s) (xStart s) ((pre @ [(d, m)]) @ post) (pxEnd s)"
    and sep: "separated ((pre @ [(d, m)]) @ post)"
    and b: "d + k \<le> first_of post (pxEnd s)" "pxEnd s < 2 ^ 32"
    and x0: "xStart s \<notin> insert d (fst ` set (pre @ post))"
    and bd: "\<forall>x\<in>set post. fst x + snd x \<le> pxEnd s \<and> 0 < snd x"
  shows "chain (blk (link_block d d (set_size d k s))) (xStart s)
           (pre @ join_next (d, k) post) (pxEnd s)
    \<and> keeps_rest s {d} (link_block d d (set_size d k s))"
proof -
  let ?s0 = "set_size d k s" let ?s' = "link_block d d ?s0"
  have ds: "distinct (map fst (pre @ [(d, m)] @ post))" using separated_distinct [OF sep] by simp
  have cp: "chain (blk s) d post (pxEnd s)" "chain (blk s) (xStart s) pre d"
    using c by (auto simp: chain_append last_of_def first_of_def)
  have c0: "chain (blk ?s0) d post (pxEnd s)" using ds by (intro chain_move [OF cp(1)]) auto
  have L: "xBlockSize (blk ?s' d) = snd (hd (join_next (d, k) post))"
    "chain (blk ?s') d (tl (join_next (d, k) post)) (pxEnd s)" "keeps_rest ?s0 {d, d} ?s'"
    using link_block_chain [of ?s0 d post d k] chain_next [OF c0] c0 b x0 bd sep ds
    by (simp_all add: separated_append separated_Cons_iff)
  have k: "keeps_rest s {d} ?s'" using L(3) x0 by (auto simp: keeps_rest_def)
  have "chain (blk ?s') (xStart s) pre d"
    using ds x0 k by (intro chain_move [OF cp(2)]) (auto simp: keeps_rest_def)
  moreover from this have "nxt ?s' (last_of (xStart s) pre) = d"
    using chain_append [of "blk ?s'" "xStart s" pre "[]" d] by (simp add: first_of_def)
  ultimately show ?thesis using L k by (simp add: chain_append chain_of_hd)
qed

lemma separated_split:
  assumes "separated fl" "\<forall>x\<in>set fl. fst x + snd x \<le> b \<or> b < fst x" "\<forall>x\<in>set fl. 0 < snd x"
  obtains pre post where "fl = pre @ post" "takeWhile (\<lambda>c. fst c < b) fl = pre"
    "dropWhile (\<lambda>c. fst c < b) fl = post" "\<forall>x\<in>set pre. fst x + snd x \<le> b"
    "\<forall>x\<in>set post. b < fst x"
proof -
  let ?pre = "takeWhile (\<lambda>c. fst c < b) fl" let ?post = "dropWhile (\<lambda>c. fst c < b) fl"
  have fl: "fl = ?pre @ ?post" by simp
  have 1: "\<forall>x\<in>set ?pre. fst x + snd x \<le> b"
  proof
    fix x assume "x \<in> set ?pre"
    then have "x \<in> set fl" "fst x < b" using set_takeWhileD by fastforce+
    then show "fst x + snd x \<le> b" using assms(2) by fastforce
  qed
  have 2: "b < fst x" if "x \<in> set ?post" for x
  proof (cases ?post)
    case Nil
    then show ?thesis using that by (simp only: Nil list.set empty_iff)
  next
    case (Cons y p)
    then have y: "\<not> fst y < b" "y \<in> set fl"
      using dropWhile_eq_Cons_conv [of "\<lambda>c. fst c < b" fl y p] set_dropWhileD [of y "\<lambda>c. fst c < b" fl]
      by simp_all
    then have "b < fst y" using assms(2,3) by fastforce
    moreover have "separated (y # p)" using assms(1) fl Cons by (metis separated_append)
    ultimately show ?thesis using that separated_after [of y p x] Cons by fastforce
  qed
  show thesis by (rule that [of ?pre ?post]) (use 1 2 in auto)
qed

lemma prvInsert_coalesce:
  assumes "insertable s fl b n"
  shows "\<exists>s'. prvInsertBlockIntoFreeList b s = Some s' \<and>
    chain (blk s') (xStart s) (coalesce (b, n) fl) (pxEnd s) \<and>
    keeps_rest s (insert (xStart s) (insert b (fst ` set fl))) s'"
proof -
  note I = assms [unfolded insertable_def]
  have "\<forall>x\<in>set fl. fst x + snd x \<le> b \<or> b < fst x" using I by fastforce
  then obtain pre post where fl: "fl = pre @ post" "takeWhile (\<lambda>c. fst c < b) fl = pre"
    "dropWhile (\<lambda>c. fst c < b) fl = post" "\<forall>x\<in>set pre. fst x + snd x \<le> b" "\<forall>x\<in>set post. b < fst x"
    using separated_split [of fl b] I by blast
  have fp: "b + n \<le> first_of post (pxEnd s)"
    using I fl by (cases post) (force simp: first_of_def)+
  have bp: "b \<notin> fst ` set post" using fl(5) by fastforce
  have lt: "fst x < b" if "x \<in> set pre" for x
  proof -
    have "0 < snd x" using I fl(1) that by auto
    then show ?thesis using fl(4) that by fastforce
  qed
  have srch: "insert_search s b (xStart s) = Some (last_of (xStart s) pre)"
    by (rule insert_search_spec [of s _ pre post "pxEnd s"]) (use I fl(1) lt fp in auto)
  show ?thesis
  proof (cases "pre \<noteq> [] \<and> fst (last pre) + snd (last pre) = b")
    case True
    then obtain p d m where pre: "pre = p @ [(d, m)]" "d + m = b"
      by (metis append_butlast_last_id prod.collapse)
    have sz: "bsize s d = m" using I fl(1) pre by (auto intro: chain_size)
    have u: "u32_add d m = b" "u32_add m n = m + n" using pre I by simp_all
    have dk: "d + (m + n) \<le> first_of post (pxEnd s)" using fp pre by simp
    have "chain (blk (link_block d d (set_size d (m + n) s))) (xStart s)
        (p @ join_next (d, m + n) post) (pxEnd s)
      \<and> keeps_rest s {d} (link_block d d (set_size d (m + n) s))"
      by (rule insert_merge [where m = m]) (use I fl(1) pre dk in auto)
    moreover have "coalesce (b, n) fl = p @ join_next (d, m + n) post"
      using True pre fl by (simp add: coalesce_def)
    moreover have "last_of (xStart s) pre = d" by (simp add: pre last_of_def)
    ultimately show ?thesis
      using srch sz u I fl(1) pre by (auto simp: prvInsert_link elim!: keeps_rest_mono)
  next
    case False
    let ?it = "last_of (xStart s) pre"
    have lt': "fst x + snd x < b" if "x \<in> set pre" for x
      using that fl(4) False separated_before [of "butlast pre" "last pre" "[]" x] I fl(1)
      by (cases pre rule: rev_cases) (force simp: separated_append)+
    have "u32_add ?it (bsize s ?it) \<noteq> b"
    proof (cases pre rule: rev_cases)
      case Nil
      then show ?thesis using I by (auto simp: last_of_def)
    next
      case (snoc p x)
      then have "bsize s (fst x) = snd x" using I fl(1) by (auto intro: chain_size)
      moreover have "fst x + snd x < b" using lt' snoc by simp
      ultimately show ?thesis using I snoc by (simp add: last_of_def)
    qed
    moreover have "coalesce (b, n) fl = pre @ join_next (b, n) post"
      using False unfolding coalesce_def Let_def fst_conv snd_conv fl(2,3) by (simp only: if_False)
    moreover have "chain (blk (link_block ?it b s)) (xStart s) (pre @ join_next (b, n) post) (pxEnd s)
      \<and> keeps_rest s {?it, b} (link_block ?it b s)"
      by (rule insert_nomerge) (use I fl(1) lt' fp bp in auto)
    moreover have "?it \<in> insert (xStart s) (fst ` set fl)"
      using fl(1) by (auto simp: last_of_def)
    ultimately show ?thesis
      using srch by (auto simp: prvInsert_link elim!: keeps_rest_mono)
  qed
qed

section \<open>Facts about \<open>coalesce\<close>\<close>

lemma coalesce_cases:
  obtains (merge) p y post where "fl = p @ y # post" "fst y + snd y = fst x"
      "coalesce x fl = p @ join_next (fst y, snd y + snd x) post"
  | (insert) pre post where "fl = pre @ post" "coalesce x fl = pre @ join_next x post"
      "takeWhile (\<lambda>c. fst c < fst x) fl = pre" "dropWhile (\<lambda>c. fst c < fst x) fl = post"
      "pre = [] \<or> fst (last pre) + snd (last pre) \<noteq> fst x"
proof -
  let ?pre = "takeWhile (\<lambda>c. fst c < fst x) fl" let ?post = "dropWhile (\<lambda>c. fst c < fst x) fl"
  have fl: "fl = ?pre @ ?post" by simp
  show thesis
  proof (cases "?pre \<noteq> [] \<and> fst (last ?pre) + snd (last ?pre) = fst x")
    case True
    have "?pre = butlast ?pre @ [last ?pre]" using True by simp
    then have "fl = butlast ?pre @ last ?pre # ?post"
      using fl by (metis append.assoc append_Cons append_Nil)
    moreover have "coalesce x fl = butlast ?pre @ join_next (fst (last ?pre), snd (last ?pre) + snd x) ?post"
      unfolding coalesce_def Let_def by (rule if_P [OF True])
    ultimately show ?thesis using merge True by blast
  next
    case False
    have "coalesce x fl = ?pre @ join_next x ?post" unfolding coalesce_def Let_def by (simp only: False if_False)
    with False fl show ?thesis using insert by blast
  qed
qed

lemma free_cells_simps [simp]:
  "free_cells [] = {}" "free_cells (x # fl) = cells x \<union> free_cells fl"
  "free_cells (fl @ fl') = free_cells fl \<union> free_cells fl'"
  by (auto simp: free_cells_def)

lemma cells_join: "fst y = fst x + snd x \<Longrightarrow> cells (fst x, snd x + snd y) = cells x \<union> cells y"
  by (auto simp: cells_def)

lemma join_next_sums:
  "free_cells (join_next x fl) = cells x \<union> free_cells fl"
  "sum_list (map snd (join_next x fl)) = snd x + sum_list (map snd fl)"
  using cells_join [of "hd fl" x] by (auto simp: join_next_def split: list.splits)

lemma coalesce_cells: "free_cells (coalesce x fl) = cells x \<union> free_cells fl"
proof (cases rule: coalesce_cases [of fl x])
  case (merge p y post)
  then show ?thesis using cells_join [of x y] by (auto simp: join_next_sums)
qed (auto simp: join_next_sums)

lemma coalesce_sum: "sum_list (map snd (coalesce x fl)) = snd x + sum_list (map snd fl)"
  by (cases rule: coalesce_cases [of fl x]) (simp_all add: join_next_sums)

lemma join_next_all:
  assumes "\<And>a n m b. P (a, n) \<Longrightarrow> P (b, m) \<Longrightarrow> P (a, n + m)" "P x" "\<forall>y\<in>set fl. P y"
  shows "\<forall>y\<in>set (join_next x fl). P y"
  using assms(1) [of "fst x" "snd x" "fst (hd fl)" "snd (hd fl)"] assms(2,3)
  by (auto simp: join_next_def split: list.splits)

lemma coalesce_all:
  assumes P: "\<And>a n m b. P (a, n) \<Longrightarrow> P (b, m) \<Longrightarrow> P (a, n + m)" and "P x" "\<forall>y\<in>set fl. P y"
  shows "\<forall>y\<in>set (coalesce x fl). P y"
proof (cases rule: coalesce_cases [of fl x])
  case (merge p y post)
  have "P (fst y, snd y + snd x)"
    using P [of "fst y" "snd y" "fst x" "snd x"] assms(2,3) merge by simp
  moreover have "\<forall>y\<in>set (join_next (fst y, snd y + snd x) post). P y"
    by (rule join_next_all [of P]) (fact P, fact calculation, use merge assms(3) in simp)
  ultimately show ?thesis using merge assms(3) by auto
next
  case (insert pre post)
  moreover have "\<forall>y\<in>set (join_next x post). P y"
    by (rule join_next_all [of P]) (fact P, fact assms(2), use insert assms(3) in simp)
  ultimately show ?thesis using assms(3) by auto
qed

lemma join_next_separated:
  assumes "separated post" "post \<noteq> [] \<Longrightarrow> fst x + snd x \<le> fst (hd post)"
  shows "separated (join_next x post)"
proof (cases post)
  case (Cons y p)
  then show ?thesis using assms
    by (cases p) (auto simp: join_next_def separated_Cons_iff)
qed (simp add: join_next_def)

lemma coalesce_separated:
  assumes sep: "separated fl" and dis: "\<forall>y\<in>set fl. fst y + snd y \<le> fst x \<or> fst x + snd x \<le> fst y"
    and pos: "0 < snd x" "\<forall>y\<in>set fl. 0 < snd y"
  shows "separated (coalesce x fl)"
proof (cases rule: coalesce_cases [of fl x])
  case (merge p y post)
  have y: "separated (y # post)" "separated (p @ [y])"
    using sep merge by (auto simp: separated_append separated_Cons_iff)
  have "fst y + snd y + snd x \<le> fst (hd post)" if "post \<noteq> []"
  proof -
    have "fst y + snd y < fst (hd post)" "hd post \<in> set fl" using y(1) merge that by (simp_all add: separated_Cons_iff)
    then show ?thesis using dis merge(2) pos(2) by fastforce
  qed
  then have "separated (join_next (fst y, snd y + snd x) post)"
    using y by (intro join_next_separated) (auto simp: separated_Cons_iff)
  then show ?thesis using merge y by (auto simp: separated_append)
next
  case (insert pre post)
  have "\<forall>y\<in>set fl. fst y + snd y \<le> fst x \<or> fst x < fst y" using dis pos(1) by fastforce
  from separated_split [OF sep this pos(2)]
  have b: "\<forall>y\<in>set pre. fst y + snd y \<le> fst x" "\<forall>y\<in>set post. fst x < fst y"
    using insert(3,4) by metis+
  have h: "fst x + snd x \<le> fst (hd post)" if "post \<noteq> []"
  proof -
    have "hd post \<in> set fl" "fst x < fst (hd post)" using insert(1) b(2) that by auto
    then show ?thesis using dis pos(2) by fastforce
  qed
  have "separated (join_next x post)" using sep insert(1) h by (intro join_next_separated) (auto simp: separated_append)
  moreover have "fst (last pre) + snd (last pre) < fst x" if "pre \<noteq> []"
    using insert(5) b(1) that last_in_set by fastforce
  ultimately show ?thesis using sep insert by (auto simp: separated_append)
qed

lemma coalesce_between:
  assumes "separated (pre @ post)" "\<forall>y\<in>set pre. fst y < fst x" "\<forall>y\<in>set post. fst x < fst y"
    "pre \<noteq> [] \<Longrightarrow> fst (last pre) + snd (last pre) \<noteq> fst x"
  shows "coalesce x (pre @ post) = pre @ join_next x post"
proof -
  have "takeWhile (\<lambda>c. fst c < fst x) (pre @ post) = pre" "dropWhile (\<lambda>c. fst c < fst x) (pre @ post) = post"
    using assms(2,3) by (cases post; force simp: takeWhile_append dropWhile_append)+
  then show ?thesis using assms(4) by (auto simp: coalesce_def)
qed

section \<open>The heap invariant\<close>

definition heap_base :: "heap4 \<Rightarrow> nat" where
  "heap_base s = (ucHeap s + 8) div 8 * 8"

definition layout_ok :: "heap4 \<Rightarrow> bool" where
  "layout_ok s \<longleftrightarrow> 0 < ucHeap s \<and> ucHeap s + 16384 < 2 ^ 32 \<and> xStart s < 2 ^ 32 \<and>
     xStart s \<notin> {ucHeap s ..< ucHeap s + 16384}"

definition block_ok :: "nat \<times> nat \<Rightarrow> bool" where
  "block_ok x \<longleftrightarrow> 8 dvd fst x \<and> 8 dvd snd x \<and> 24 \<le> snd x"

text \<open>
  \<open>fl\<close> is the free list and \<open>A\<close> the set of blocks handed out. Together they tile the heap
  between its aligned base and the end marker: no byte is in two blocks, none is lost.
\<close>

definition heap_inv :: "heap4 \<Rightarrow> (nat \<times> nat) list \<Rightarrow> (nat \<times> nat) set \<Rightarrow> bool" where
  "heap_inv s fl A \<longleftrightarrow>
     layout_ok s \<and> pxEnd s = heap_base s + 16360 \<and> nxt s (pxEnd s) = 0 \<and> bsize s (pxEnd s) = 0 \<and>
     bsize s (xStart s) = 0 \<and> chain (blk s) (xStart s) fl (pxEnd s) \<and> separated fl \<and>
     (\<forall>x\<in>set fl \<union> A. block_ok x) \<and> (\<forall>x\<in>A. bsize s (fst x) = snd x) \<and>
     disjoint_family_on cells A \<and> (\<forall>x\<in>A. cells x \<inter> free_cells fl = {}) \<and>
     free_cells fl \<union> (\<Union>x\<in>A. cells x) = {heap_base s ..< heap_base s + 16360} \<and>
     xFreeBytesRemaining s = sum_list (map snd fl)"

lemma inv_parts:
  assumes "heap_inv s fl A"
  shows "chain (blk s) (xStart s) fl (pxEnd s)" "separated fl" "bsize s (xStart s) = 0" "layout_ok s"
    "pxEnd s = heap_base s + 16360" "xFreeBytesRemaining s = sum_list (map snd fl)"
  using assms unfolding heap_inv_def by auto

definition ready :: "heap4 \<Rightarrow> heap4" where
  "ready s = (if pxEnd s = 0 then prvHeapInit s else s)"

definition heap_ok :: "heap4 \<Rightarrow> (nat \<times> nat) list \<Rightarrow> (nat \<times> nat) set \<Rightarrow> bool" where
  "heap_ok s fl A \<longleftrightarrow> heap_inv (ready s) fl A \<and> (pxEnd s = 0 \<longrightarrow> A = {})"

text \<open>First fit with splitting, on the list of free blocks.\<close>

fun fl_alloc :: "nat \<Rightarrow> (nat \<times> nat) list \<Rightarrow> ((nat \<times> nat) \<times> (nat \<times> nat) list) option" where
  "fl_alloc w [] = None"
| "fl_alloc w ((b, k) # fl) =
    (if k < w then map_option (\<lambda>(x, fl'). (x, (b, k) # fl')) (fl_alloc w fl)
     else if 32 < k - w then Some ((b, w), (b + w, k - w) # fl)
     else Some ((b, k), fl))"

lemma fl_alloc_None: "fl_alloc w fl = None \<longleftrightarrow> (\<forall>x\<in>set fl. snd x < w)"
  by (induction w fl rule: fl_alloc.induct) auto

lemma fl_alloc_Some:
  assumes "fl_alloc w fl = Some (x, fl')"
  shows "\<exists>pre k post. fl = pre @ (fst x, k) # post \<and> (\<forall>y\<in>set pre. snd y < w) \<and> w \<le> k \<and>
    snd x = (if 32 < k - w then w else k) \<and>
    fl' = pre @ (if 32 < k - w then [(fst x + w, k - w)] else []) @ post"
  using assms
proof (induction w fl arbitrary: fl' rule: fl_alloc.induct)
  case (2 w b k fl)
  show ?case
  proof (cases "k < w")
    case True
    then obtain fl1 where fl1: "fl_alloc w fl = Some (x, fl1)" "fl' = (b, k) # fl1" using 2(2) by auto
    from 2(1) [OF True this(1)] obtain pre m post where
      "fl = pre @ (fst x, m) # post" "\<forall>y\<in>set pre. snd y < w" "w \<le> m"
      "snd x = (if 32 < m - w then w else m)"
      "fl1 = pre @ (if 32 < m - w then [(fst x + w, m - w)] else []) @ post" by blast
    then show ?thesis using True fl1(2) by (intro exI [of _ "(b, k) # pre"] exI [of _ m] exI [of _ post]) simp
  next
    case False
    then show ?thesis using 2(2) by (intro exI [of _ "[]"] exI [of _ k] exI [of _ fl]) (auto split: if_splits)
  qed
qed simp

lemma base_bounds:
  assumes "layout_ok s"
  shows "ucHeap s < heap_base s" "heap_base s + 16376 \<le> ucHeap s + 16384" "8 dvd heap_base s"
    "heap_base s + 16376 < 2 ^ 32"
proof -
  have "heap_base s \<le> ucHeap s + 8" "ucHeap s < heap_base s" unfolding heap_base_def by presburger+
  then show "ucHeap s < heap_base s" "heap_base s + 16376 \<le> ucHeap s + 16384" "8 dvd heap_base s"
    "heap_base s + 16376 < 2 ^ 32" using assms by (auto simp: layout_ok_def heap_base_def)
qed

lemma adjust_size_spec:
  assumes "n \<le> 2 ^ 32 - 16" "0 < adjust_size n"
  shows "n + 16 \<le> adjust_size n" "adjust_size n < n + 24" "8 dvd adjust_size n" "24 \<le> adjust_size n"
proof -
  have n: "0 < n" using assms(2) by (auto simp: adjust_size_def split: if_splits)
  have "n + 16 \<le> adjust_size n \<and> adjust_size n < n + 24 \<and> 8 dvd adjust_size n"
  proof (cases "n + 23 < 2 ^ 32")
    case True
    define r where "r = (n + 16) mod 8"
    have "r < 8" "8 dvd n + 16 + (8 - r)" unfolding r_def by (simp, presburger)
    moreover have "adjust_size n = (if r = 0 then n + 16 else n + 16 + (8 - r))"
      using n True by (simp add: adjust_size_def Let_def r_def [symmetric])
    ultimately show ?thesis by (cases "r = 0") (auto simp: r_def)
  next
    case False
    then have "n \<in> {2 ^ 32 - 23 .. 2 ^ 32 - 16}" using assms(1) by simp
    then have "n = 2 ^ 32 - 23 \<or> n = 2 ^ 32 - 22 \<or> n = 2 ^ 32 - 21 \<or> n = 2 ^ 32 - 20 \<or>
      n = 2 ^ 32 - 19 \<or> n = 2 ^ 32 - 18 \<or> n = 2 ^ 32 - 17 \<or> n = 2 ^ 32 - 16" by auto
    then show ?thesis using assms(2) by (auto simp: adjust_size_def u32_add_def Let_def)
  qed
  then show "n + 16 \<le> adjust_size n" "adjust_size n < n + 24" "8 dvd adjust_size n" by auto
  then show "24 \<le> adjust_size n" using n by auto
qed

lemma heap_init:
  assumes "layout_ok (heap_boot u x)"
  shows "heap_ok (heap_boot u x) [((u + 8) div 8 * 8, 16360)] {}"
proof -
  let ?b = "(u + 8) div 8 * 8"
  have B: "u < ?b" "?b + 16376 \<le> u + 16384" "8 dvd ?b" "?b + 16376 < 2 ^ 32"
    using base_bounds [OF assms] by (simp_all add: heap_base_def heap_boot_def)
  have L: "0 < u" "u + 16384 < 2 ^ 32" "x < 2 ^ 32" "x < u \<or> u + 16384 \<le> x"
    using assms by (auto simp: layout_ok_def heap_boot_def)
  have x: "x \<noteq> ?b" "x \<noteq> ?b + 16360" using L B by auto
  have u: "u32_add u 8 = u + 8" "u32_sub (u32_add ?b 16376) 16 = ?b + 16360" using L B by simp_all
  show ?thesis
    unfolding heap_ok_def heap_inv_def ready_def
    using x u L B
    by (auto simp: heap_boot_def prvHeapInit_def Let_def heap_base_def layout_ok_def block_ok_def
        disjoint_family_on_def cells_def)
qed

lemma cells_apart:
  assumes "cells x \<inter> cells y = {}" "0 < snd x" "0 < snd y"
  shows "fst x + snd x \<le> fst y \<or> fst y + snd y \<le> fst x"
proof (rule ccontr)
  assume "\<not> ?thesis"
  then have "max (fst x) (fst y) \<in> cells x \<inter> cells y" using assms(2,3) by (auto simp: cells_def max_def)
  with assms(1) show False by simp
qed

lemma separated_cells_card: "separated fl \<Longrightarrow> card (free_cells fl) = sum_list (map snd fl)"
proof (induction fl)
  case (Cons x fl)
  have "cells x \<inter> free_cells fl = {}"
    using separated_after [OF Cons.prems] by (force simp: cells_def free_cells_def)
  moreover have "finite (free_cells fl)" by (simp add: free_cells_def cells_def)
  moreover have "finite (cells x)" "card (cells x) = snd x" by (simp_all add: cells_def)
  ultimately show ?case using Cons by (simp add: card_Un_disjoint separated_Cons_iff)
qed (simp add: free_cells_def)

lemma inv_bounds:
  assumes "heap_inv s fl A" "x \<in> set fl \<union> A"
  shows "heap_base s \<le> fst x" "fst x + snd x \<le> pxEnd s" "0 < snd x" "8 dvd fst x" "8 dvd snd x"
    "fst x \<noteq> pxEnd s" "fst x \<noteq> xStart s" "fst x \<noteq> 0" "24 \<le> snd x"
proof -
  have b: "block_ok x" using assms by (auto simp: heap_inv_def)
  then show "0 < snd x" "8 dvd fst x" "8 dvd snd x" "24 \<le> snd x" by (auto simp: block_ok_def)
  have "free_cells fl \<union> (\<Union>x\<in>A. cells x) = {heap_base s ..< heap_base s + 16360}"
    using assms(1) by (simp add: heap_inv_def)
  then have "cells x \<subseteq> {heap_base s ..< heap_base s + 16360}"
    using assms(2) unfolding free_cells_def by blast
  moreover have "fst x \<in> cells x" "fst x + snd x - 1 \<in> cells x" using b by (auto simp: cells_def block_ok_def)
  ultimately have "fst x \<in> {heap_base s ..< heap_base s + 16360}"
    "fst x + snd x - 1 \<in> {heap_base s ..< heap_base s + 16360}" by blast+
  moreover have l: "layout_ok s" "pxEnd s = heap_base s + 16360" using assms(1) by (auto simp: heap_inv_def)
  ultimately show *: "heap_base s \<le> fst x" "fst x + snd x \<le> pxEnd s" "fst x \<noteq> pxEnd s"
    using \<open>0 < snd x\<close> by auto
  show "fst x \<noteq> xStart s" "fst x \<noteq> 0"
    using * base_bounds [OF l(1)] l \<open>0 < snd x\<close> by (auto simp: layout_ok_def)
qed

lemma inv_free:
  assumes "heap_inv s fl A"
  shows "xStart s \<notin> fst ` set fl" "pxEnd s \<notin> fst ` set fl"
    "\<forall>x\<in>set fl. 0 < snd x \<and> fst x + snd x \<le> pxEnd s"
  using inv_bounds(6,7) [OF assms] by (metis UnCI imageE, metis UnCI imageE)
    (use inv_bounds(2,3) [OF assms] in blast)

lemma inv_end:
  assumes "heap_inv s fl A"
  shows "pxEnd s < 2 ^ 32" "pxEnd s \<noteq> 0" "xStart s < 2 ^ 32" "xStart s \<noteq> pxEnd s"
    "sum_list (map snd fl) \<le> 16360"
proof -
  have "layout_ok s" using assms by (simp add: heap_inv_def)
  then show "pxEnd s < 2 ^ 32" "pxEnd s \<noteq> 0" "xStart s < 2 ^ 32" "xStart s \<noteq> pxEnd s"
    using base_bounds [of s] assms by (auto simp: heap_inv_def layout_ok_def)
  have "card (free_cells fl) \<le> card {heap_base s ..< heap_base s + 16360}"
    using assms by (intro card_mono) (auto simp: heap_inv_def)
  then show "sum_list (map snd fl) \<le> 16360"
    using assms by (simp add: heap_inv_def separated_cells_card)
qed

lemma inv_apart:
  assumes "heap_inv s fl A" "x \<in> A" "y \<in> set fl"
  shows "fst x + snd x \<le> fst y \<or> fst y + snd y \<le> fst x" "fst x \<noteq> fst y"
proof -
  have "cells x \<inter> cells y = {}" using assms by (force simp: heap_inv_def free_cells_def)
  then show "fst x + snd x \<le> fst y \<or> fst y + snd y \<le> fst x"
    using inv_bounds(3) [OF assms(1)] assms by (intro cells_apart) auto
  then show "fst x \<noteq> fst y" using inv_bounds(3) [OF assms(1)] assms by fastforce
qed

lemma inv_apart_A:
  assumes "heap_inv s fl A" "x \<in> A" "y \<in> A" "x \<noteq> y"
  shows "fst x + snd x \<le> fst y \<or> fst y + snd y \<le> fst x" "fst x \<noteq> fst y"
proof -
  have "cells x \<inter> cells y = {}" using assms by (auto simp: heap_inv_def disjoint_family_on_def)
  then show "fst x + snd x \<le> fst y \<or> fst y + snd y \<le> fst x"
    using inv_bounds(3) [OF assms(1)] assms by (intro cells_apart) auto
  then show "fst x \<noteq> fst y" using inv_bounds(3) [OF assms(1)] assms by fastforce
qed

lemma heap_ok_ready: "heap_ok s fl A \<Longrightarrow> A \<noteq> {} \<Longrightarrow> heap_inv s fl A \<and> pxEnd s \<noteq> 0"
  by (auto simp: heap_ok_def ready_def split: if_splits)

lemma heap_okI: "heap_inv s fl A \<Longrightarrow> heap_ok s fl A"
  using inv_end(2) [of s fl A] by (auto simp: heap_ok_def ready_def)

lemma block_ok_merge: "block_ok (a, n) \<Longrightarrow> block_ok (b, m) \<Longrightarrow> block_ok (a, n + m)"
  by (auto simp: block_ok_def)

lemma vPortFree_ok:
  assumes ok: "heap_ok s fl A" and x: "(b, k) \<in> A"
  shows "\<exists>s'. vPortFree (b + 16) s = Some s' \<and> heap_ok s' (coalesce (b, k) fl) (A - {(b, k)}) \<and>
    (\<forall>y\<in>A - {(b, k)}. blk s' (fst y) = blk s (fst y))"
proof -
  have inv: "heap_inv s fl A" using heap_ok_ready [OF ok] x by blast
  note I = inv [unfolded heap_inv_def] and E = inv_end [OF inv]
  have B: "heap_base s \<le> b" "b + k \<le> pxEnd s" "0 < k" "b \<noteq> pxEnd s" "b \<noteq> xStart s"
    using inv_bounds [OF inv, of "(b, k)"] x by auto
  have "cells (b, k) \<subseteq> {heap_base s ..< heap_base s + 16360}" using B I by (auto simp: cells_def)
  then have sub: "free_cells (coalesce (b, k) fl) \<subseteq> {heap_base s ..< heap_base s + 16360}"
    using I by (auto simp: coalesce_cells)
  have ap: "\<forall>y\<in>set fl. fst y + snd y \<le> b \<or> b + k \<le> fst y" using inv_apart [OF inv x] by fastforce
  have pos: "\<forall>y\<in>set fl. 0 < snd y" using inv_bounds [OF inv] by blast
  have sep: "separated (coalesce (b, k) fl)"
    using coalesce_separated [of fl "(b, k)"] I ap B(3) pos by simp
  have "card (free_cells (coalesce (b, k) fl)) \<le> 16360" using card_mono [OF _ sub] by simp
  then have sum: "k + sum_list (map snd fl) \<le> 16360"
    using separated_cells_card [OF sep] by (simp add: coalesce_sum)
  define s1 where "s1 = s\<lparr>xFreeBytesRemaining := xFreeBytesRemaining s + k\<rparr>"
  have "b + 16 < 2 ^ 32" using B(2,3) base_bounds(4) [of s] I by simp
  moreover have "bsize s b = k" using I x by fastforce
  ultimately have free: "vPortFree (b + 16) s = prvInsertBlockIntoFreeList b s1"
    using I sum by (simp add: vPortFree_def Let_def s1_def)
  have "insertable s1 fl b k"
    unfolding insertable_def using I E(1,3,4) B ap inv_free [OF inv] x by (auto simp: s1_def)
  from prvInsert_coalesce [OF this] obtain s' where s': "prvInsertBlockIntoFreeList b s1 = Some s'"
    "chain (blk s') (xStart s) (coalesce (b, k) fl) (pxEnd s)"
    "keeps_rest s1 (insert (xStart s) (insert b (fst ` set fl))) s'" by (auto simp: s1_def)
  have same: "blk s' a = blk s a" if "a \<notin> insert (xStart s) (insert b (fst ` set fl))" for a
    using s'(3) that by (simp add: keeps_rest_def s1_def)
  have A: "blk s' (fst y) = blk s (fst y)" if "y \<in> A - {(b, k)}" for y
    using that inv_bounds(7) [OF inv, of y] inv_apart(2) [OF inv, of y] inv_apart_A(2) [OF inv, of y "(b, k)"] x
    by (intro same) auto
  have e: "blk s' (pxEnd s) = blk s (pxEnd s)"
    using B(4) E(4) inv_free(2) [OF inv] by (intro same) auto
  have ok: "\<forall>y\<in>set (coalesce (b, k) fl). block_ok y"
    using I x by (intro coalesce_all block_ok_merge) auto
  have cov: "free_cells (coalesce (b, k) fl) \<union> (\<Union>y\<in>A - {(b, k)}. cells y) =
      free_cells fl \<union> (\<Union>y\<in>A. cells y)"
    using x by (auto simp: coalesce_cells)
  have dis: "\<forall>y\<in>A - {(b, k)}. cells y \<inter> free_cells (coalesce (b, k) fl) = {}"
  proof
    fix y assume y: "y \<in> A - {(b, k)}"
    then have "cells y \<inter> cells (b, k) = {}" "cells y \<inter> free_cells fl = {}"
      using I x disjoint_family_onD [of cells A y "(b, k)"] by auto
    then show "cells y \<inter> free_cells (coalesce (b, k) fl) = {}" by (auto simp: coalesce_cells)
  qed
  have "heap_inv s' (coalesce (b, k) fl) (A - {(b, k)})"
    unfolding heap_inv_def
    using I s'(2,3) sep A e ok cov dis
    by (auto simp: keeps_rest_def s1_def coalesce_sum layout_ok_def heap_base_def disjoint_family_on_def)
  then show ?thesis using free s'(1) A by (auto intro: heap_okI)
qed

lemma separated_remove: "separated (pre @ x # post) \<Longrightarrow> separated (pre @ post)"
  by (cases "pre = [] \<or> post = []") (auto simp: separated_append separated_Cons_iff)

lemma unlink_chain:
  assumes inv: "heap_inv s (pre @ (b, k) # post) A"
  shows "chain (blk (set_next (last_of (xStart s) pre) (nxt s b) s)) (xStart s) (pre @ post) (pxEnd s)"
proof -
  let ?prev = "last_of (xStart s) pre" let ?s = "set_next ?prev (nxt s b) s"
  have c: "chain (blk s) (xStart s) pre b" "chain (blk s) b post (pxEnd s)"
    using inv_parts(1) [OF inv] by (simp_all add: chain_append first_of_def)
  have d: "distinct (map fst (pre @ (b, k) # post))"
    using separated_distinct [OF inv_parts(2) [OF inv]] .
  have x: "xStart s \<notin> fst ` set (pre @ (b, k) # post)" using inv_free(1) [OF inv] .
  have p: "?prev \<in> insert (xStart s) (fst ` set pre)" by (simp add: last_of_def)
  have px: "fst ` set pre \<inter> fst ` set post = {}" "xStart s \<notin> fst ` set post"
    using d x by (simp_all add: image_Un)
  have "chain (blk ?s) (xStart s) pre (first_of post (pxEnd s))"
  proof (rule chain_relink [OF c(1)])
    show "distinct (xStart s # map fst pre)" using d x by (simp add: image_Un)
    show "nxt ?s ?prev = first_of post (pxEnd s)" using chain_next [OF c(2)] by simp
  qed simp_all
  moreover have "chain (blk ?s) ?prev post (pxEnd s)"
  proof (rule chain_move [OF c(2)])
    fix a assume "a \<in> fst ` set post"
    then have "a \<noteq> ?prev" using p px by (metis disjoint_iff insertE)
    then show "blk ?s a = blk s a" by simp
  qed simp
  ultimately show ?thesis by (simp add: chain_append)
qed

text \<open>
  The effect of taking block \<open>(b, k)\<close> for a request of \<open>w\<close> bytes: a state in which the
  remaining headers, the end marker and the start marker are untouched.
\<close>

lemma take_block_chain:
  assumes inv: "heap_inv s (pre @ (b, k) # post) A" and w: "w \<le> k" "0 < w" "8 dvd w"
    and prev: "prev = last_of (xStart s) pre" and k': "k' = (if 32 < k - w then w else k)"
  shows "\<exists>s'. take_block w prev b s = Some (b + 16, s') \<and>
    chain (blk s') (xStart s) (pre @ (if 32 < k - w then [(b + w, k - w)] else []) @ post) (pxEnd s) \<and>
    pxEnd s' = pxEnd s \<and> xStart s' = xStart s \<and> ucHeap s' = ucHeap s \<and> bsize s' (xStart s) = 0 \<and>
    bsize s' b = k' \<and> xFreeBytesRemaining s' = xFreeBytesRemaining s - k' \<and>
    (\<forall>a. a \<notin> insert (xStart s) (fst ` set (pre @ (b, k) # post)) \<and> \<not> (32 < k - w \<and> a = b + w) \<longrightarrow>
       blk s' a = blk s a)"
proof -
  note E = inv_end [OF inv]
  let ?s1 = "set_next prev (nxt s b) s"
  note sp = inv_parts(2) [OF inv] and x0 = inv_parts(3) [OF inv]
  have B: "heap_base s \<le> b" "b + k \<le> pxEnd s" "24 \<le> k" "b \<noteq> xStart s"
    using inv_bounds [OF inv, of "(b, k)"] by auto
  have c1: "chain (blk ?s1) (xStart s) (pre @ post) (pxEnd s)" using unlink_chain [OF inv] by (simp add: prev)
  have c: "chain (blk s) (xStart s) pre b" "bsize s b = k"
    using inv_parts(1) [OF inv] by (simp_all add: chain_append first_of_def)
  have pb: "nxt s prev = b"
    using chain_append [of "blk s" "xStart s" pre "[]" b] c(1) by (simp add: prev first_of_def)
  have sz: "bsize ?s1 a = bsize s a" for a by simp
  have p: "prev \<in> insert (xStart s) (fst ` set pre)" by (simp add: prev last_of_def)
  have b16: "u32_add b 16 = b + 16" "u32_sub k w = k - w" using B E(1) w by simp_all
  have kf: "k' \<le> xFreeBytesRemaining s" "xFreeBytesRemaining s < 2 ^ 32"
    using inv_parts(6) [OF inv] E(5) k' w by auto
  show ?thesis
  proof (cases "32 < k - w")
    case False
    then show ?thesis
      using c1 c b16 kf pb k' x0 p B
      by (auto simp: take_block_def Let_def)
  next
    case True
    let ?s3 = "set_size b w (set_size (b + w) (k - w) ?s1)"
    have out: "b \<notin> fst ` set (pre @ post)" "b + w \<notin> fst ` set (pre @ post)" "b + w \<noteq> xStart s"
      "b \<noteq> prev" "\<forall>y\<in>set pre. fst y + snd y < b" "\<forall>y\<in>set post. b + k < fst y"
    proof -
      show pre: "\<forall>y\<in>set pre. fst y + snd y < b" using separated_before [OF sp] by simp
      show post: "\<forall>y\<in>set post. b + k < fst y"
        using separated_after [of "(b, k)" post] sp by (simp add: separated_append)
      show "b \<notin> fst ` set (pre @ post)" "b + w \<notin> fst ` set (pre @ post)"
        using pre post w by force+
      show "b \<noteq> prev" using p pre B(4) by force
      show "b + w \<noteq> xStart s"
        using inv_parts(4,5) [OF inv] B w base_bounds [of s] True by (auto simp: layout_ok_def)
    qed
    have c3: "chain (blk ?s3) (xStart s) (pre @ post) (pxEnd s)"
    proof (rule chain_move [OF c1])
      fix a assume "a \<in> fst ` set (pre @ post)"
      then have "a \<noteq> b" "a \<noteq> b + w" using out(1,2) by blast+
      then show "blk ?s3 a = blk ?s1 a" by simp
    qed (use out(3) B(4) in simp)
    have sep: "separated (pre @ post)"
      using sp by (rule separated_remove)
    have "insertable ?s3 (pre @ post) (b + w) (k - w)"
      unfolding insertable_def
    proof (intro conjI ballI)
      fix y assume y: "y \<in> set (pre @ post)"
      then show "fst y + snd y \<le> b + w \<or> b + w + (k - w) \<le> fst y" using out(5,6) w by fastforce
      show "0 < snd y" "fst y + snd y \<le> pxEnd ?s3" using y inv_free(3) [OF inv] by auto
    next
      show "bsize ?s3 (xStart ?s3) = 0" using x0 out(3) B(4) by auto
      have "xStart s \<notin> fst ` set (pre @ post)" using inv_free(1) [OF inv] by (simp add: image_Un)
      then show "xStart ?s3 \<notin> insert (b + w) (insert (pxEnd ?s3) (fst ` set (pre @ post)))"
        using out(3) E(4) by (simp del: set_append)
    qed (use c3 sep True B E(1,3) w in simp_all)
    from prvInsert_coalesce [OF this] obtain s' where s': "prvInsertBlockIntoFreeList (b + w) ?s3 = Some s'"
      "chain (blk s') (xStart s) (coalesce (b + w, k - w) (pre @ post)) (pxEnd s)"
      "keeps_rest ?s3 (insert (xStart s) (insert (b + w) (fst ` set (pre @ post)))) s'" by auto
    moreover have "coalesce (b + w, k - w) (pre @ post) = pre @ join_next (b + w, k - w) post"
      using sep out(5,6) w by (intro coalesce_between) (use last_in_set in fastforce)+
    moreover have "join_next (b + w, k - w) post = (b + w, k - w) # post"
      using out(6) w by (auto simp: join_next_def split: list.splits)
    ultimately have "coalesce (b + w, k - w) (pre @ post) = pre @ [(b + w, k - w)] @ post" by simp
    then have chain': "chain (blk s') (xStart s) (pre @ [(b + w, k - w)] @ post) (pxEnd s)" using s'(2) by simp
    have K: "bsize s' (xStart s) = 0" "xFreeBytesRemaining s' = xFreeBytesRemaining s" "pxEnd s' = pxEnd s"
      "xStart s' = xStart s" "ucHeap s' = ucHeap s" using s'(3) x0 out(3) B(4) by (auto simp: keeps_rest_def)
    have same: "blk s' a = blk ?s3 a" if "a \<notin> insert (xStart s) (insert (b + w) (fst ` set (pre @ post)))" for a
      using s'(3) that by (simp add: keeps_rest_def)
    have bs: "bsize s' b = w" using same [of b] out(1) B(4) w by simp
    have t: "take_block w prev b s = Some (b + 16, s'\<lparr>xFreeBytesRemaining := xFreeBytesRemaining s - w\<rparr>)"
      using True c b16 kf pb k' B E(1) s'(1) K(2) bs w out(4) by (simp add: take_block_def Let_def)
    have fr: "blk s' a = blk s a" if "a \<notin> insert (xStart s) (fst ` set (pre @ (b, k) # post))" "a \<noteq> b + w" for a
    proof -
      have "a \<noteq> b" "a \<noteq> prev" "a \<notin> fst ` set (pre @ post)" using that(1) p by (auto simp del: in_fst)
      then show ?thesis using same [of a] that by simp
    qed
    show ?thesis
      using chain' K bs fr True k' by (intro exI [of _ "s'\<lparr>xFreeBytesRemaining := xFreeBytesRemaining s - w\<rparr>"]) (simp add: t)
  qed
qed

lemma separated_shrink:
  "separated (pre @ (b, k) # post) \<Longrightarrow> w \<le> k \<Longrightarrow> separated (pre @ (b + w, k - w) # post)"
  by (auto simp: separated_append separated_Cons_iff)

lemma pvPortMalloc_ready:
  assumes "heap_ok s fl A"
  shows "pvPortMalloc n s = pvPortMalloc n (ready s)" "ready (ready s) = ready s"
proof -
  have "pxEnd (ready s) \<noteq> 0" using assms inv_end(2) [of "ready s" fl A] by (simp add: heap_ok_def)
  then show "pvPortMalloc n s = pvPortMalloc n (ready s)" "ready (ready s) = ready s"
    by (simp_all add: pvPortMalloc_def ready_def Let_def)
qed

lemma take_block_inv:
  assumes inv: "heap_inv s (pre @ (b, k) # post) A" and w: "w \<le> k" "24 \<le> w" "8 dvd w"
    and prev: "prev = last_of (xStart s) pre" and k': "k' = (if 32 < k - w then w else k)"
  shows "\<exists>s'. take_block w prev b s = Some (b + 16, s') \<and>
    heap_inv s' (pre @ (if 32 < k - w then [(b + w, k - w)] else []) @ post) (insert (b, k') A) \<and>
    (\<forall>y\<in>A. blk s' (fst y) = blk s (fst y)) \<and> (b, k') \<notin> A"
proof -
  let ?fl = "pre @ (b, k) # post"
  let ?fl' = "pre @ (if 32 < k - w then [(b + w, k - w)] else []) @ post"
  have "0 < w" using w(2) by simp
  from take_block_chain [OF inv w(1) this w(3) prev k'] obtain s' where
    t: "take_block w prev b s = Some (b + 16, s')" and c: "chain (blk s') (xStart s) ?fl' (pxEnd s)"
    and f: "pxEnd s' = pxEnd s" "xStart s' = xStart s" "ucHeap s' = ucHeap s" "bsize s' (xStart s) = 0"
    "bsize s' b = k'" "xFreeBytesRemaining s' = xFreeBytesRemaining s - k'"
    and same: "\<forall>a. a \<notin> insert (xStart s) (fst ` set ?fl) \<and> \<not> (32 < k - w \<and> a = b + w) \<longrightarrow> blk s' a = blk s a"
    by (elim exE conjE) (rule that; assumption)
  have B: "b + k \<le> pxEnd s" "8 dvd b" "8 dvd k" "24 \<le> k" using inv_bounds [OF inv, of "(b, k)"] by auto
  have A: "blk s' (fst y) = blk s (fst y)" if y: "y \<in> A" for y
  proof -
    have "fst y \<noteq> xStart s" "24 \<le> snd y" using inv_bounds(7,9) [OF inv, of y] y by auto
    moreover have "fst y \<notin> fst ` set ?fl" using inv_apart(2) [OF inv y] by (metis imageE)
    moreover have "\<not> (32 < k - w \<and> fst y = b + w)"
      using inv_apart(1) [OF inv y, of "(b, k)"] w(2) calculation(2) by auto
    ultimately show ?thesis using same by blast
  qed
  have e: "blk s' (pxEnd s) = blk s (pxEnd s)"
  proof -
    have "\<not> (32 < k - w \<and> pxEnd s = b + w)" using B(1) by auto
    then show ?thesis using same inv_free(2) [OF inv] inv_end(4) [OF inv] by (simp del: set_append)
  qed
  have cells: "cells (b, k) = cells (b, k') \<union> free_cells (if 32 < k - w then [(b + w, k - w)] else [])"
    using k' w(1) by (auto simp: cells_def)
  have pre: "\<forall>y\<in>set pre. fst y + snd y < b" and post: "\<forall>y\<in>set post. b + k < fst y"
    using separated_before [OF inv_parts(2) [OF inv]] separated_after [of "(b, k)" post]
      inv_parts(2) [OF inv] by (auto simp: separated_append)
  have out: "cells (b, k') \<inter> free_cells ?fl' = {}"
    using pre post w(1) k' by (force simp: cells_def free_cells_def)
  have dis: "\<forall>y\<in>A. cells y \<inter> free_cells ?fl = {}" and cov: "free_cells ?fl \<union> (\<Union>y\<in>A. cells y) = {heap_base s ..< heap_base s + 16360}"
    and dA: "disjoint_family_on cells A" using inv unfolding heap_inv_def by auto
  have fc: "free_cells ?fl = cells (b, k') \<union> free_cells ?fl'" using cells by auto
  have nin: "(b, k') \<notin> A" using inv_apart(2) [OF inv, of "(b, k')" "(b, k)"] by auto
  have bo: "\<forall>x\<in>set ?fl'. block_ok x" "block_ok (b, k')"
  proof -
    have "\<forall>x\<in>set ?fl. block_ok x" using inv by (simp add: heap_inv_def)
    then show "\<forall>x\<in>set ?fl'. block_ok x" "block_ok (b, k')"
      using w B(2,3) k' by (auto simp: block_ok_def intro: dvd_diff_nat)
  qed
  have sep: "separated ?fl'"
    using separated_shrink [OF inv_parts(2) [OF inv] w(1)] separated_remove [OF inv_parts(2) [OF inv]]
    by simp
  have sum: "xFreeBytesRemaining s' = sum_list (map snd ?fl')"
    using inv_parts(6) [OF inv] f(6) k' w by auto
  have "heap_inv s' ?fl' (insert (b, k') A)"
    unfolding heap_inv_def
  proof (intro conjI)
    show "layout_ok s'" "pxEnd s' = heap_base s' + 16360"
      using inv_parts(4,5) [OF inv] f by (simp_all add: layout_ok_def heap_base_def)
    show "nxt s' (pxEnd s') = 0" "bsize s' (pxEnd s') = 0"
      using inv e f(1) by (auto simp: heap_inv_def)
    show "\<forall>x\<in>set ?fl' \<union> insert (b, k') A. block_ok x" using bo inv by (auto simp: heap_inv_def)
    show "\<forall>x\<in>insert (b, k') A. bsize s' (fst x) = snd x" using A f(5) inv by (auto simp: heap_inv_def)
    have new: "\<forall>y\<in>A. cells y \<inter> cells (b, k') = {} \<and> cells y \<inter> free_cells ?fl' = {}" using dis fc by blast
    then show "disjoint_family_on cells (insert (b, k') A)"
      using dA by (auto simp: disjoint_family_on_def)
    show "\<forall>x\<in>insert (b, k') A. cells x \<inter> free_cells ?fl' = {}" using new out by simp
    show "free_cells ?fl' \<union> (\<Union>x\<in>insert (b, k') A. cells x) = {heap_base s' ..< heap_base s' + 16360}"
      using cov fc f(3) unfolding heap_base_def by auto
    show "bsize s' (xStart s') = 0" "chain (blk s') (xStart s') ?fl' (pxEnd s')" using f c by simp_all
  qed (use sep sum in simp_all)
  then show ?thesis using t A nin by blast
qed

text \<open>The abstract allocator: what a request of \<open>n\<close> bytes does to the free list.\<close>

definition alloc_spec :: "nat \<Rightarrow> (nat \<times> nat) list \<Rightarrow> ((nat \<times> nat) \<times> (nat \<times> nat) list) option" where
  "alloc_spec n fl =
    (if n = 0 \<or> 16360 < n \<or> 16376 \<le> (n + 23) div 8 * 8 then None else fl_alloc ((n + 23) div 8 * 8) fl)"

lemma adjust_size_eq:
  assumes "n \<le> 2 ^ 32 - 16" "0 < adjust_size n"
  shows "adjust_size n = (n + 23) div 8 * 8"
  using adjust_size_spec [OF assms] by (auto elim!: dvdE)

lemma adjust_size_pos:
  assumes "0 < n" "n \<le> 2 ^ 32 - 24"
  shows "0 < adjust_size n"
proof (cases "n = 2 ^ 32 - 24")
  case False
  then show ?thesis using assms by (auto simp: adjust_size_def Let_def)
qed (simp add: adjust_size_def u32_add_def)

lemma pvPortMalloc_ok:
  assumes ok: "heap_ok s fl A" and n: "n \<le> 2 ^ 32 - 16"
  shows "case alloc_spec n fl of
      None \<Rightarrow> pvPortMalloc n s = Some (0, ready s) \<and> heap_ok (ready s) fl A
    | Some (x, fl') \<Rightarrow> \<exists>s'. pvPortMalloc n s = Some (fst x + 16, s') \<and> heap_ok s' fl' (insert x A) \<and>
        (\<forall>y\<in>A. blk s' (fst y) = blk s (fst y)) \<and> x \<notin> A"
proof -
  let ?s = "ready s" and ?w = "adjust_size n"
  have inv: "heap_inv ?s fl A" using ok by (simp add: heap_ok_def)
  note E = inv_end [OF inv]
  have m: "pvPortMalloc n s = pvPortMalloc n ?s" using pvPortMalloc_ready [OF ok] by simp
  have okr: "heap_ok ?s fl A" using inv by (rule heap_okI)
  have sel: "alloc_spec n fl = (if 0 < ?w \<and> ?w < 16376 then fl_alloc ?w fl else None)"
  proof (cases "0 < ?w")
    case True
    then have "0 < n" by (auto simp: adjust_size_def split: if_splits)
    then show ?thesis using True adjust_size_eq [OF n True] by (auto simp: alloc_spec_def)
  next
    case False
    then have "n = 0 \<or> 2 ^ 32 - 24 < n" using adjust_size_pos [of n] by force
    then show ?thesis using False by (auto simp: alloc_spec_def)
  qed
  show ?thesis
  proof (cases "0 < ?w \<and> ?w < 16376")
    case False
    then have "pvPortMalloc n ?s = Some (0, ?s)" using E(2) by (auto simp: pvPortMalloc_def Let_def)
    moreover have "alloc_spec n fl = None" using sel False by simp
    ultimately show ?thesis using m okr by simp
  next
    case True
    note W = adjust_size_spec [OF n] 
    have ends: "nxt ?s (pxEnd ?s) = 0" "bsize ?s (pxEnd ?s) = 0" using inv by (auto simp: heap_inv_def)
    have nz: "\<forall>y\<in>set fl. fst y \<noteq> 0" using inv_bounds(8) [OF inv] by auto
    show ?thesis
    proof (cases "fl_alloc ?w fl")
      case None
      then have "fit_search ?s ?w (xStart ?s) (nxt ?s (xStart ?s)) = Some (last_of (xStart ?s) fl, pxEnd ?s)"
        using fit_search_spec [of ?s "xStart ?s" fl "[]" "pxEnd ?s" ?w] inv_parts(1) [OF inv] ends True nz E(2)
        by (auto simp: fl_alloc_None first_of_def)
      then have "pvPortMalloc n ?s = Some (0, ?s)" using E(2) True by (simp add: pvPortMalloc_def)
      moreover have "alloc_spec n fl = None" using sel None by simp
      ultimately show ?thesis using m okr by simp
    next
      case (Some r)
      obtain x fl' where r: "r = (x, fl')" by fastforce
      from fl_alloc_Some [OF Some [unfolded r]] obtain pre k post where
        fl: "fl = pre @ (fst x, k) # post" "\<forall>y\<in>set pre. snd y < ?w" "?w \<le> k"
        "snd x = (if 32 < k - ?w then ?w else k)"
        "fl' = pre @ (if 32 < k - ?w then [(fst x + ?w, k - ?w)] else []) @ post" by blast
      have "fit_search ?s ?w (xStart ?s) (nxt ?s (xStart ?s)) = Some (last_of (xStart ?s) pre, fst x)"
        using fit_search_spec [of ?s "xStart ?s" pre "(fst x, k) # post" "pxEnd ?s" ?w] inv_parts(1) [OF inv]
          ends True nz E(2) fl by (auto simp: first_of_def)
      moreover have "fst x \<noteq> pxEnd ?s" using inv_bounds(6) [OF inv, of "(fst x, k)"] fl(1) by simp
      ultimately have "pvPortMalloc n ?s = take_block ?w (last_of (xStart ?s) pre) (fst x) ?s"
        using True E(2) by (simp add: pvPortMalloc_def Let_def)
      moreover obtain s' where "take_block ?w (last_of (xStart ?s) pre) (fst x) ?s = Some (fst x + 16, s')"
        "heap_inv s' fl' (insert x A)" "\<forall>y\<in>A. blk s' (fst y) = blk ?s (fst y)" "x \<notin> A"
        using take_block_inv [OF inv [unfolded fl(1)] fl(3) W(4,3) refl refl] True
        unfolding fl(5) fl(4) [symmetric] by auto
      moreover have "\<forall>y\<in>A. blk ?s (fst y) = blk s (fst y)" using ok by (auto simp: heap_ok_def ready_def)
      moreover have "alloc_spec n fl = Some (x, fl')" using sel Some True r by simp
      ultimately show ?thesis using m by (auto intro!: heap_okI)
    qed
  qed
qed

lemma alloc_spec_size: "alloc_spec n fl = Some (x, fl') \<Longrightarrow> n + 16 \<le> snd x"
  by (auto simp: alloc_spec_def split: if_splits dest!: fl_alloc_Some)

lemma coalesce_take:
  assumes "separated fl" "\<forall>y\<in>set fl. 0 < snd y" "fl_alloc w fl = Some (x, fl')" "0 < w"
  shows "coalesce x fl' = fl"
proof -
  from fl_alloc_Some [OF assms(3)] obtain pre k post where
    fl: "fl = pre @ (fst x, k) # post" "w \<le> k" "snd x = (if 32 < k - w then w else k)"
    "fl' = pre @ (if 32 < k - w then [(fst x + w, k - w)] else []) @ post" by blast
  have pre: "fst y + snd y < fst x" if "y \<in> set pre" for y
    using separated_before [of pre "(fst x, k)" post y] assms(1) that fl(1) by simp
  have post: "\<forall>y\<in>set post. fst x + k < fst y"
    using separated_after [of "(fst x, k)" post] assms(1) fl(1) by (simp add: separated_append)
  let ?rest = "(if 32 < k - w then [(fst x + w, k - w)] else []) @ post"
  have "separated (pre @ ?rest)"
    using separated_shrink [of pre "fst x" k post w] separated_remove [of pre "(fst x, k)" post] assms(1) fl(1,2)
    by auto
  moreover have "\<forall>y\<in>set pre. fst y < fst x" using pre by (meson add_lessD1)
  moreover have "\<forall>y\<in>set ?rest. fst x < fst y"
  proof
    fix y assume "y \<in> set ?rest"
    then have "y = (fst x + w, k - w) \<or> y \<in> set post" by (cases "32 < k - w") auto
    then show "fst x < fst y" using post assms(4) by auto
  qed
  moreover have "fst (last pre) + snd (last pre) \<noteq> fst x" if "pre \<noteq> []"
    using pre [of "last pre"] that by simp
  ultimately have "coalesce x (pre @ ?rest) = pre @ join_next x ?rest" by (rule coalesce_between)
  moreover have "join_next x ?rest = (fst x, k) # post"
    using post fl(2,3) by (cases x) (auto simp: join_next_def split: list.splits)
  ultimately show ?thesis using fl(1,4) by simp
qed

lemma free_list_when_empty:
  assumes "heap_inv s fl {}"
  shows "fl = [(heap_base s, 16360)]"
proof (cases fl)
  case Nil
  then show ?thesis using assms by (simp add: heap_inv_def)
next
  case (Cons x fl')
  have cov: "free_cells fl = {heap_base s ..< heap_base s + 16360}" using assms by (simp add: heap_inv_def)
  have sep: "separated fl" using inv_parts(2) [OF assms] .
  have "heap_base s \<in> free_cells fl" using cov by simp
  then have hb: "fst x = heap_base s"
    using separated_after [of x fl'] sep inv_bounds(1,3) [OF assms] Cons
    by (fastforce simp: free_cells_def cells_def)
  have "fst x + snd x = heap_base s + 16360"
  proof (rule ccontr)
    assume "\<not> ?thesis"
    then have "fst x + snd x \<in> free_cells fl"
      using cov inv_bounds(2,3) [OF assms, of x] inv_parts(5) [OF assms] Cons hb by auto
    then show False
      using separated_after [of x fl'] sep Cons by (fastforce simp: free_cells_def cells_def)
  qed
  moreover have "fl' = []"
  proof (rule ccontr)
    assume "fl' \<noteq> []"
    then have "hd fl' \<in> set fl" "fst x + snd x < fst (hd fl')"
      using sep Cons by (auto simp: separated_Cons_iff)
    then show False
      using inv_bounds(2) [OF assms, of "hd fl'"] calculation inv_parts(5) [OF assms] by auto
  qed
  ultimately show ?thesis using hb Cons by (cases x) auto
qed

section \<open>The allocator contract\<close>

text \<open>
  What the kernel's clients rely on: the set of live blocks, their disjointness, and the effect
  of the two operations on it. \<open>hdr\<close> is the size of the block header.
\<close>

locale allocator =
  fixes inv :: "'s \<Rightarrow> (nat \<times> nat) set \<Rightarrow> bool"
    and malloc :: "nat \<Rightarrow> 's \<Rightarrow> (nat \<times> 's) option"
    and free :: "nat \<Rightarrow> 's \<Rightarrow> 's option"
    and hdr :: nat and max_request :: nat
  assumes malloc_live: "inv s A \<Longrightarrow> n \<le> max_request \<Longrightarrow>
      \<exists>p s'. malloc n s = Some (p, s') \<and>
        (p = 0 \<and> inv s' A \<or>
         (\<exists>b k. p = b + hdr \<and> 0 < b \<and> n + hdr \<le> k \<and> (b, k) \<notin> A \<and> inv s' (insert (b, k) A)))"
    and free_live: "inv s A \<Longrightarrow> (b, k) \<in> A \<Longrightarrow> \<exists>s'. free (b + hdr) s = Some s' \<and> inv s' (A - {(b, k)})"
    and live_disjoint: "inv s A \<Longrightarrow> disjoint_family_on cells A"
begin

text \<open>
  Two allocations of which the first is given back when the second fails, as in
  \<open>xQueueGenericCreate\<close> and \<open>prvAllocateTCBAndStack\<close>: all or nothing, and never a leak.
\<close>

lemma alloc_both:
  assumes "inv s A" "n \<le> max_request" "m \<le> max_request"
  shows "(\<exists>s'. malloc n s = Some (0, s') \<and> inv s' A) \<or>
    (\<exists>b k s1. malloc n s = Some (b + hdr, s1) \<and> 0 < b \<and> n + hdr \<le> k \<and> (b, k) \<notin> A \<and> inv s1 (insert (b, k) A) \<and>
       ((\<exists>s2 s3. malloc m s1 = Some (0, s2) \<and> free (b + hdr) s2 = Some s3 \<and> inv s3 A) \<or>
        (\<exists>c j s2. malloc m s1 = Some (c + hdr, s2) \<and> 0 < c \<and> m + hdr \<le> j \<and>
           cells (b, k) \<inter> cells (c, j) = {} \<and> inv s2 (insert (c, j) (insert (b, k) A)))))"
proof -
  obtain p s1 where 1: "malloc n s = Some (p, s1)"
    "p = 0 \<and> inv s1 A \<or> (\<exists>b k. p = b + hdr \<and> 0 < b \<and> n + hdr \<le> k \<and> (b, k) \<notin> A \<and> inv s1 (insert (b, k) A))"
    using malloc_live [OF assms(1,2)] by blast
  show ?thesis
  proof (cases "p = 0 \<and> inv s1 A")
    case False
    then obtain b k where b: "p = b + hdr" "0 < b" "n + hdr \<le> k" "(b, k) \<notin> A" "inv s1 (insert (b, k) A)"
      using 1(2) by blast
    obtain q s2 where 2: "malloc m s1 = Some (q, s2)"
      "q = 0 \<and> inv s2 (insert (b, k) A) \<or>
       (\<exists>c j. q = c + hdr \<and> 0 < c \<and> m + hdr \<le> j \<and> (c, j) \<notin> insert (b, k) A \<and>
          inv s2 (insert (c, j) (insert (b, k) A)))"
      using malloc_live [OF b(5) assms(3)] by blast
    show ?thesis
    proof (cases "q = 0 \<and> inv s2 (insert (b, k) A)")
      case True
      moreover obtain s3 where "free (b + hdr) s2 = Some s3" "inv s3 (insert (b, k) A - {(b, k)})"
        using free_live [of s2 "insert (b, k) A" b k] True by auto
      ultimately show ?thesis using 1(1) 2(1) b by auto
    next
      case F: False
      then obtain c j where c: "q = c + hdr" "0 < c" "m + hdr \<le> j" "(c, j) \<noteq> (b, k)"
        "inv s2 (insert (c, j) (insert (b, k) A))" using 2(2) by blast
      have "cells (b, k) \<inter> cells (c, j) = {}"
        using disjoint_family_onD [OF live_disjoint [OF c(5)]] c(4) by blast
      then show ?thesis using 1(1) 2(1) b c by blast
    qed
  qed (use 1(1) in blast)
qed

end

definition heap_live :: "heap4 \<Rightarrow> (nat \<times> nat) set \<Rightarrow> bool" where
  "heap_live s A \<longleftrightarrow> (\<exists>fl. heap_ok s fl A)"

interpretation heap4: allocator heap_live pvPortMalloc vPortFree 16 "2 ^ 32 - 16"
proof
  fix s A n assume "heap_live s A" and n: "n \<le> (2 ^ 32 - 16 :: nat)"
  then obtain fl where ok: "heap_ok s fl A" by (auto simp: heap_live_def)
  show "\<exists>p s'. pvPortMalloc n s = Some (p, s') \<and>
      (p = 0 \<and> heap_live s' A \<or>
       (\<exists>b k. p = b + 16 \<and> 0 < b \<and> n + 16 \<le> k \<and> (b, k) \<notin> A \<and> heap_live s' (insert (b, k) A)))"
  proof (cases "alloc_spec n fl")
    case None
    then show ?thesis using pvPortMalloc_ok [OF ok n] by (auto simp: heap_live_def)
  next
    case (Some r)
    obtain b k fl' where r: "r = ((b, k), fl')" by (cases r) auto
    obtain s' where s': "pvPortMalloc n s = Some (b + 16, s')" "heap_ok s' fl' (insert (b, k) A)" "(b, k) \<notin> A"
      using pvPortMalloc_ok [OF ok n] Some r by auto
    have "0 < b"
      using heap_ok_ready [OF s'(2)] inv_bounds(8) [of s' fl' "insert (b, k) A" "(b, k)"] by simp
    then show ?thesis using s' alloc_spec_size [of n fl "(b, k)" fl'] Some r by (auto simp: heap_live_def)
  qed
next
  fix s A b k assume "heap_live s A" "(b, k) \<in> A"
  then show "\<exists>s'. vPortFree (b + 16) s = Some s' \<and> heap_live s' (A - {(b, k)})"
    using vPortFree_ok by (fastforce simp: heap_live_def)
next
  fix s A assume "heap_live s A"
  then show "disjoint_family_on cells A" by (auto simp: heap_live_def heap_ok_def heap_inv_def)
qed

section \<open>Reachable heaps\<close>

inductive heap_reach :: "nat \<Rightarrow> nat \<Rightarrow> heap4 \<Rightarrow> (nat \<times> nat) set \<Rightarrow> bool" for u x where
  boot: "heap_reach u x (heap_boot u x) {}"
| no_memory: "heap_reach u x s A \<Longrightarrow> n \<le> 2 ^ 32 - 16 \<Longrightarrow> pvPortMalloc n s = Some (0, s') \<Longrightarrow>
    heap_reach u x s' A"
| got: "heap_reach u x s A \<Longrightarrow> n \<le> 2 ^ 32 - 16 \<Longrightarrow> pvPortMalloc n s = Some (p, s') \<Longrightarrow> p \<noteq> 0 \<Longrightarrow>
    heap_reach u x s' (insert (p - 16, bsize s' (p - 16)) A)"
| freed: "heap_reach u x s A \<Longrightarrow> (b, k) \<in> A \<Longrightarrow> vPortFree (b + 16) s = Some s' \<Longrightarrow>
    heap_reach u x s' (A - {(b, k)})"

lemma layout_same:
  "pvPortMalloc n s = Some (p, s') \<Longrightarrow> heap_ok s fl A \<Longrightarrow> n \<le> 2 ^ 32 - 16 \<Longrightarrow>
   \<exists>fl' A'. heap_ok s' fl' A' \<and> (p = 0 \<longrightarrow> A' = A \<and> fl' = fl) \<and>
     (p \<noteq> 0 \<longrightarrow> A' = insert (p - 16, bsize s' (p - 16)) A \<and> n + 16 \<le> bsize s' (p - 16) \<and>
        (p - 16, bsize s' (p - 16)) \<notin> A \<and> alloc_spec n fl = Some ((p - 16, bsize s' (p - 16)), fl'))"
proof -
  assume m: "pvPortMalloc n s = Some (p, s')" and ok: "heap_ok s fl A" and n: "n \<le> 2 ^ 32 - 16"
  show ?thesis
  proof (cases "alloc_spec n fl")
    case None
    then show ?thesis using pvPortMalloc_ok [OF ok n] m by auto
  next
    case (Some r)
    obtain b k fl' where r: "r = ((b, k), fl')" by (cases r) auto
    have p: "p = b + 16" "heap_ok s' fl' (insert (b, k) A)" "(b, k) \<notin> A"
      using pvPortMalloc_ok [OF ok n] Some r m by auto
    then have "bsize s' b = k" using heap_ok_ready [OF p(2)] by (auto simp: heap_inv_def)
    then show ?thesis using p alloc_spec_size [of n fl "(b, k)" fl'] Some r by auto
  qed
qed

lemma link_block_layout:
  "ucHeap (link_block it b s) = ucHeap s" "pxEnd (link_block it b s) = pxEnd s"
  by (simp_all add: link_block_def Let_def)

lemma insert_layout:
  "prvInsertBlockIntoFreeList b s = Some s' \<Longrightarrow> ucHeap s' = ucHeap s \<and> pxEnd s' = pxEnd s"
  by (cases "insert_search s b (xStart s)") (auto simp: prvInsert_link link_block_layout split: if_splits)

lemma vPortFree_layout: "vPortFree p s = Some s' \<Longrightarrow> ucHeap s' = ucHeap s \<and> pxEnd s' = pxEnd s"
  by (auto simp: vPortFree_def Let_def split: if_splits dest!: insert_layout)

lemma pvPortMalloc_layout:
  assumes "pvPortMalloc n s = Some (p, s')"
  shows "ucHeap s' = ucHeap s"
proof -
  have "take_block w q b t = Some (p, s') \<Longrightarrow> ucHeap s' = ucHeap t" for w q b t
    by (auto simp: take_block_def Let_def bind_eq_Some_conv split: if_splits dest!: insert_layout)
  moreover have "ucHeap (prvHeapInit s) = ucHeap s" by (simp add: prvHeapInit_def Let_def)
  ultimately show ?thesis
    using assms by (auto simp: pvPortMalloc_def Let_def bind_eq_Some_conv split: if_splits)
qed

lemma heap_reach_ok:
  assumes "layout_ok (heap_boot u x)" "heap_reach u x s A"
  shows "heap_live s A \<and> ucHeap s = u"
  using assms(2)
proof induction
  case boot
  show ?case using heap_init [OF assms(1)] by (auto simp: heap_live_def heap_boot_def)
next
  case (no_memory s A n s')
  then obtain fl where "heap_ok s fl A" by (auto simp: heap_live_def)
  then show ?case
    using layout_same [OF no_memory(3)] no_memory pvPortMalloc_layout by (auto simp: heap_live_def)
next
  case (got s A n p s')
  then obtain fl where "heap_ok s fl A" by (auto simp: heap_live_def)
  then show ?case
    using layout_same [OF got(3)] got pvPortMalloc_layout by (fastforce simp: heap_live_def)
next
  case (freed s A b k s')
  then obtain fl where "heap_ok s fl A" by (auto simp: heap_live_def)
  from vPortFree_ok [OF this freed(2)] show ?case
    using freed vPortFree_layout [OF freed(3)] by (auto simp: heap_live_def)
qed

text \<open>Whether two requests, one after the other, can both be served.\<close>

definition both_fit :: "nat \<Rightarrow> nat \<Rightarrow> (nat \<times> nat) list \<Rightarrow> bool" where
  "both_fit n m fl \<longleftrightarrow> (case alloc_spec n fl of None \<Rightarrow> False | Some (x, fl') \<Rightarrow> alloc_spec m fl' \<noteq> None)"

text \<open>
  C4. \<open>pvPortMalloc\<close> is a first-fit allocator: on a well-formed heap every request up to
  \<open>2 ^ 32 - 16\<close> bytes returns; it takes the first free block that is large enough, rounded up to
  8 bytes plus the header, gives the rest back when more than 32 bytes are left over, and returns
  NULL exactly when no free block is large enough. The headers of all other live blocks are kept.
\<close>

theorem malloc_first_fit:
  assumes "heap_ok s fl A" "n \<le> 2 ^ 32 - 16"
  shows "case alloc_spec n fl of
      None \<Rightarrow> \<exists>s'. pvPortMalloc n s = Some (0, s') \<and> heap_ok s' fl A
    | Some (x, fl') \<Rightarrow> \<exists>s'. pvPortMalloc n s = Some (fst x + 16, s') \<and> heap_ok s' fl' (insert x A) \<and>
        n + 16 \<le> snd x \<and> x \<notin> A \<and> (\<forall>y\<in>A. blk s' (fst y) = blk s (fst y))"
  using pvPortMalloc_ok [OF assms] alloc_spec_size [of n fl] by (fastforce split: option.splits prod.splits)

text \<open>
  C5. \<open>vPortFree\<close> of a live block always returns and puts it back in address order, merged with
  the free blocks it touches on either side; the other live blocks keep their headers.
\<close>

theorem free_coalesces:
  assumes "heap_ok s fl A" "(b, k) \<in> A"
  shows "\<exists>s'. vPortFree (b + 16) s = Some s' \<and> heap_ok s' (coalesce (b, k) fl) (A - {(b, k)}) \<and>
    (\<forall>y\<in>A - {(b, k)}. blk s' (fst y) = blk s (fst y))"
  using assms by (rule vPortFree_ok)

text \<open>
  C6. In every heap reached from start-up by allocations and releases of live blocks, the live
  blocks are 8-byte aligned, lie inside the heap array, do not overlap each other, and
  \<open>xPortGetFreeHeapSize\<close> is the number of bytes of the heap that no live block covers.
\<close>

theorem heap_reachable_safe:
  assumes "layout_ok (heap_boot u x)" "heap_reach u x s A" "pxEnd s \<noteq> 0"
  shows "disjoint_family_on cells A \<and>
    (\<forall>y\<in>A. 8 dvd fst y \<and> u < fst y \<and> fst y + snd y \<le> u + 16384) \<and>
    xPortGetFreeHeapSize s = card ({heap_base s ..< heap_base s + 16360} - (\<Union>y\<in>A. cells y))"
proof -
  obtain fl where ok: "heap_ok s fl A" and us: "ucHeap s = u"
    using heap_reach_ok [OF assms(1,2)] by (auto simp: heap_live_def)
  have inv: "heap_inv s fl A" using ok assms(3) by (simp add: heap_ok_def ready_def)
  have B: "u < fst y \<and> fst y + snd y \<le> u + 16384 \<and> 8 dvd fst y" if "y \<in> A" for y
    using inv_bounds(1,2,4) [OF inv, of y] base_bounds [OF inv_parts(4) [OF inv]] inv_parts(5) [OF inv] us that
    by auto
  have "free_cells fl \<union> (\<Union>y\<in>A. cells y) = {heap_base s ..< heap_base s + 16360}"
    "\<forall>y\<in>A. cells y \<inter> free_cells fl = {}" "disjoint_family_on cells A" using inv by (auto simp: heap_inv_def)
  moreover from this have "{heap_base s ..< heap_base s + 16360} - (\<Union>y\<in>A. cells y) = free_cells fl" by blast
  ultimately show ?thesis
    using B inv_parts(6) [OF inv] separated_cells_card [OF inv_parts(2) [OF inv]]
    by (auto simp: xPortGetFreeHeapSize_def)
qed

text \<open>
  C7. Allocating a block and releasing it again restores the free list exactly, block by block,
  and the count of free bytes: no fragmentation is left behind.
\<close>

theorem malloc_free_roundtrip:
  assumes "heap_ok s fl A" "n \<le> 2 ^ 32 - 16" "pvPortMalloc n s = Some (p, s')" "p \<noteq> 0"
  shows "\<exists>s''. vPortFree p s' = Some s'' \<and> heap_ok s'' fl A"
proof -
  let ?x = "(p - 16, bsize s' (p - 16))"
  obtain fl' where ok: "heap_ok s' fl' (insert ?x A)" "?x \<notin> A" "alloc_spec n fl = Some (?x, fl')"
    "n + 16 \<le> bsize s' (p - 16)"
    using layout_same [OF assms(3,1,2)] assms(4) by auto
  have "16 \<le> p"
    using pvPortMalloc_ok [OF assms(1,2)] ok(3) assms(3) by auto
  have inv: "heap_inv (ready s) fl A" using assms(1) by (simp add: heap_ok_def)
  have "coalesce ?x fl' = fl"
    using ok(3) inv_parts(2) [OF inv] inv_free(3) [OF inv]
    by (intro coalesce_take) (auto simp: alloc_spec_def split: if_splits)
  then show ?thesis
    using vPortFree_ok [OF ok(1), of "p - 16" "bsize s' (p - 16)"] ok(2) \<open>16 \<le> p\<close> by auto
qed

text \<open>
  C8. Whenever every block has been released, the free list is again the single block that
  spans the heap, whatever the order of allocations and releases was.
\<close>

theorem heap_defragments:
  assumes "layout_ok (heap_boot u x)" "heap_reach u x s {}" "pxEnd s \<noteq> 0"
  shows "heap_ok s [(heap_base s, 16360)] {} \<and> xPortGetFreeHeapSize s = 16360"
proof -
  obtain fl where "heap_ok s fl {}" using heap_reach_ok [OF assms(1,2)] by (auto simp: heap_live_def)
  then have "heap_inv s fl {}" using assms(3) by (simp add: heap_ok_def ready_def)
  then show ?thesis
    using free_list_when_empty [of s fl] heap_okI [of s fl "{}"] inv_parts(6) [of s fl "{}"]
    by (simp add: xPortGetFreeHeapSize_def)
qed

lemma adjust_size_wraps:
  assumes "2 ^ 32 - 16 < n" "n < 2 ^ 32"
  shows "adjust_size n = 8 \<or> adjust_size n = 16"
proof -
  define i where "i = n - (2 ^ 32 - 16)"
  have i: "n = 2 ^ 32 - 16 + i" "0 < i" "i < 16" using assms by (auto simp: i_def)
  then have "u32_add n 16 = i" by (simp add: u32_add_def)
  then have a: "adjust_size n = (if i mod 8 \<noteq> 0 then u32_add i (8 - i mod 8) else i)"
    using assms by (simp add: adjust_size_def)
  show ?thesis
  proof (cases "i \<le> 8")
    case True
    then show ?thesis using i(2) a by (cases "i = 8") (simp_all add: u32_add_def)
  next
    case False
    then have "i mod 8 = i - 8" using i(3) by (simp add: mod_if)
    then show ?thesis using False i(3) a by (simp add: u32_add_def)
  qed
qed

text \<open>
  A request of more than \<open>2 ^ 32 - 16\<close> bytes is not refused: the size wraps around when the
  header and the alignment are added, and the caller gets a non-null pointer into a block of at
  most 16 bytes, header included.
\<close>

theorem malloc_size_wraps:
  assumes "heap_ok s ((b, k) # fl) A" "2 ^ 32 - 16 < n" "n < 2 ^ 32" "48 < k"
  shows "\<exists>s'. pvPortMalloc n s = Some (b + 16, s') \<and> bsize s' b \<le> 16"
proof -
  let ?s = "ready s" and ?w = "adjust_size n"
  have inv: "heap_inv ?s ((b, k) # fl) A" using assms(1) by (simp add: heap_ok_def)
  note E = inv_end [OF inv]
  have w: "?w = 8 \<or> ?w = 16" using adjust_size_wraps [OF assms(2,3)] .
  have c: "nxt ?s (xStart ?s) = b" "bsize ?s b = k" using inv_parts(1) [OF inv] by auto
  have "fit_search ?s ?w (xStart ?s) (nxt ?s (xStart ?s)) = Some (xStart ?s, b)"
    using c w assms(4) by (auto simp: fit_search.simps [of ?s ?w "xStart ?s" b])
  moreover have "b \<noteq> pxEnd ?s" using inv_bounds(6) [OF inv, of "(b, k)"] by simp
  ultimately have m: "pvPortMalloc n ?s = take_block ?w (xStart ?s) b ?s"
    using w E(2) by (auto simp: pvPortMalloc_def Let_def)
  have k: "?w \<le> k" "0 < ?w" "8 dvd ?w" "?w = (if 32 < k - ?w then ?w else k)" using w assms(4) by auto
  have "\<exists>s'. take_block ?w (xStart ?s) b ?s = Some (b + 16, s') \<and> bsize s' b = ?w"
    using take_block_chain [of ?s "[]" b k fl A, OF _ k(1,2,3) refl k(4)] inv by (auto simp: last_of_def)
  then show ?thesis using m w pvPortMalloc_ready(1) [OF assms(1), of n] by auto
qed

text \<open>Concrete runs, evaluated: a heap array and a start marker as the linker could place them.\<close>

definition demo_heap :: heap4 where
  "demo_heap = heap_boot 0x10000004 0x10008000"

lemma demo_layout: "layout_ok demo_heap"
  by (simp add: demo_heap_def heap_boot_def layout_ok_def)

lemma demo_heap_ok: "heap_ok demo_heap [(0x10000008, 16360)] {}"
  using heap_init [of "0x10000004" "0x10008000"] demo_layout by (simp add: demo_heap_def)

lemma demo_malloc: "\<exists>s'. pvPortMalloc 100 demo_heap = Some (0x10000018, s') \<and>
    heap_ok s' [(0x10000080, 16240)] {(0x10000008, 120)}"
  using pvPortMalloc_ok [OF demo_heap_ok, of 100] by (simp add: alloc_spec_def)

theorem malloc_first_fit_witness:
  "\<exists>s'. pvPortMalloc 100 demo_heap = Some (0x10000018, s') \<and> heap_ok s' [(0x10000080, 16240)] {(0x10000008, 120)}"
  using malloc_first_fit [OF demo_heap_ok, of 100] by (simp add: alloc_spec_def)

theorem free_coalesces_witness:
  "\<exists>s s'. heap_ok s [(0x10000080, 16240)] {(0x10000008, 120)} \<and> vPortFree 0x10000018 s = Some s' \<and>
     heap_ok s' [(0x10000008, 16360)] {}"
proof -
  obtain s where s: "heap_ok s [(0x10000080, 16240)] {(0x10000008, 120)}" using demo_malloc by blast
  have "coalesce (0x10000008, 120) [(0x10000080, 16240)] = [(0x10000008, 16360)]"
    by (simp add: coalesce_def join_next_def)
  then show ?thesis using free_coalesces [OF s, of "0x10000008" "120"] s by auto
qed

lemma demo_reach: "\<exists>s'. pvPortMalloc 100 demo_heap = Some (0x10000018, s') \<and> pxEnd s' \<noteq> 0 \<and>
    heap_reach 0x10000004 0x10008000 s' {(0x10000008, 120)}"
proof -
  obtain s' where s': "pvPortMalloc 100 demo_heap = Some (0x10000018, s')"
    "heap_ok s' [(0x10000080, 16240)] {(0x10000008, 120)}" using demo_malloc by blast
  have i: "heap_inv s' [(0x10000080, 16240)] {(0x10000008, 120)} \<and> pxEnd s' \<noteq> 0"
    using heap_ok_ready [OF s'(2)] by simp
  then have "bsize s' 0x10000008 = 120" by (auto simp: heap_inv_def)
  then show ?thesis
    using got [OF boot [of "0x10000004" "0x10008000"], of 100 "0x10000018" s'] s'(1) i by (simp add: demo_heap_def)
qed

theorem heap_reachable_safe_witness:
  "\<exists>s. heap_reach 0x10000004 0x10008000 s {(0x10000008, 120)} \<and> xPortGetFreeHeapSize s =
     card ({heap_base s ..< heap_base s + 16360} - {0x10000008 ..< 0x10000080})"
proof -
  obtain s where s: "heap_reach 0x10000004 0x10008000 s {(0x10000008, 120)}" "pxEnd s \<noteq> 0"
    using demo_reach by blast
  from heap_reachable_safe [OF demo_layout [unfolded demo_heap_def] this]
  show ?thesis using s(1) by (auto simp: cells_def)
qed

theorem malloc_free_roundtrip_witness:
  "\<exists>s' s''. pvPortMalloc 100 demo_heap = Some (0x10000018, s') \<and> vPortFree 0x10000018 s' = Some s'' \<and>
     heap_ok s'' [(0x10000008, 16360)] {}"
proof -
  obtain s' where s': "pvPortMalloc 100 demo_heap = Some (0x10000018, s')" using demo_malloc by blast
  from malloc_free_roundtrip [OF demo_heap_ok _ this] show ?thesis using s' by simp
qed

theorem heap_defragments_witness:
  "\<exists>s. heap_reach 0x10000004 0x10008000 s {} \<and> pxEnd s \<noteq> 0 \<and> xPortGetFreeHeapSize s = 16360"
proof -
  obtain s where s: "heap_reach 0x10000004 0x10008000 s {(0x10000008, 120)}" "pxEnd s \<noteq> 0"
    using demo_reach by blast
  obtain fl where ok: "heap_ok s fl {(0x10000008, 120)}"
    using heap_reach_ok [OF demo_layout [unfolded demo_heap_def] s(1)] by (auto simp: heap_live_def)
  then obtain s' where s': "vPortFree (0x10000008 + 16) s = Some s'" using vPortFree_ok by blast
  have r: "heap_reach 0x10000004 0x10008000 s' {}" using freed [OF s(1) _ s'] by simp
  have "pxEnd s' = pxEnd s"
    using vPortFree_layout [OF s'] by simp
  then have e: "pxEnd s' \<noteq> 0" using s(2) by simp
  show ?thesis using heap_defragments [OF demo_layout [unfolded demo_heap_def] r e] r e by blast
qed

theorem malloc_size_wraps_witness:
  "\<exists>s'. pvPortMalloc 0xFFFFFFF8 demo_heap = Some (0x10000018, s') \<and> bsize s' 0x10000008 \<le> 16"
  using malloc_size_wraps [OF demo_heap_ok, of "0xFFFFFFF8"] by simp

end
