(* ===== verification/Tasks.thy ===== *)
theory Tasks
  imports Lists Heap4
begin

text \<open>
  The scheduler, \<^verbatim>\<open>FreeRTOS/src/tasks.c\<close>, as \<^verbatim>\<open>FreeRTOSConfig.h\<close> configures it: five
  priorities, preemption, 32-bit ticks, mutexes, \<open>vTaskSuspend\<close> and \<open>vTaskDelete\<close> included, no
  run-time statistics, no queue sets, no tickless idle. The file's statics, the task control
  blocks, the list store, the heap and the bytes of RAM are one record.

  A task switch is requested by pending the PendSV exception (\<open>portYIELD_WITHIN_API\<close>), which runs
  \<open>vTaskSwitchContext\<close> once interrupts are enabled again; \<open>pendsv\<close> records the request. Critical
  sections only mask interrupts and are not part of the state. \<open>configASSERT\<close> and the trace
  macros are compiled out; \<open>vApplicationTickHook\<close> is the empty function of \<^verbatim>\<open>src/main.c\<close>.
\<close>

record tskTCB =
  pxTopOfStack :: u32
  uxPriority :: u32
  pxStack :: u32
  pcTaskName :: "u8 list"
  uxTCBNumber :: u32
  uxTaskNumber :: u32
  uxBasePriority :: u32

record kernel = list_store +
  tcb :: "u32 \<Rightarrow> tskTCB"
  kmem :: "u32 \<Rightarrow> u8"
  heap :: heap4
  pxCurrentTCB :: u32
  pxReadyTasksLists :: u32              \<comment> \<open>link-time address of the array of lists\<close>
  xDelayedTaskList1 :: u32              \<comment> \<open>link-time address, as the four below\<close>
  xDelayedTaskList2 :: u32
  xPendingReadyList :: u32
  xTasksWaitingTermination :: u32
  xSuspendedTaskList :: u32
  pxDelayedTaskList :: u32
  pxOverflowDelayedTaskList :: u32
  uxTasksDeleted :: u32
  uxCurrentNumberOfTasks :: u32
  xTickCount :: u32
  uxTopUsedPriority :: u32
  uxTopReadyPriority :: u32
  xSchedulerRunning :: bool
  uxSchedulerSuspended :: u32
  uxMissedTicks :: u32
  xMissedYield :: bool
  xNumOfOverflows :: u32
  uxTaskNumber_count :: u32             \<comment> \<open>the static \<open>uxTaskNumber\<close>\<close>
  xNextTaskUnblockTime :: u32
  pendsv :: bool

abbreviation (input) configMAX_PRIORITIES :: u32 where "configMAX_PRIORITIES \<equiv> 5"

text \<open>Offsets of the two list items in the control block and of a list in the array.\<close>

definition xGenericListItem :: "u32 \<Rightarrow> u32" where "xGenericListItem t = t + 4"
definition xEventListItem :: "u32 \<Rightarrow> u32" where "xEventListItem t = t + 24"

definition ready_list_at :: "'a kernel_scheme \<Rightarrow> u32 \<Rightarrow> u32" where
  "ready_list_at k p = pxReadyTasksLists k + 20 * p"

definition upd_tcb :: "u32 \<Rightarrow> (tskTCB \<Rightarrow> tskTCB) \<Rightarrow> 'a kernel_scheme \<Rightarrow> 'a kernel_scheme" where
  "upd_tcb t f k = k\<lparr>tcb := (tcb k)(t := f (tcb k t))\<rparr>"

definition list_empty :: "u32 \<Rightarrow> 'a list_store_scheme \<Rightarrow> bool" where
  "list_empty l k \<longleftrightarrow> uxNumberOfItems (lst k l) = 0"

definition set_item_value :: "u32 \<Rightarrow> u32 \<Rightarrow> 'a list_store_scheme \<Rightarrow> 'a list_store_scheme" where
  "set_item_value i v = upd_item i (\<lambda>x. x\<lparr>xItemValue := v\<rparr>)"

definition set_item_owner :: "u32 \<Rightarrow> u32 \<Rightarrow> 'a list_store_scheme \<Rightarrow> 'a list_store_scheme" where
  "set_item_owner i v = upd_item i (\<lambda>x. x\<lparr>pvOwner := v\<rparr>)"

definition portYIELD_WITHIN_API :: "'a kernel_scheme \<Rightarrow> 'a kernel_scheme" where
  "portYIELD_WITHIN_API k = k\<lparr>pendsv := True\<rparr>"

section \<open>Ready and delayed lists\<close>

definition prvAddTaskToReadyQueue :: "u32 \<Rightarrow> 'a kernel_scheme \<Rightarrow> 'a kernel_scheme" where
  "prvAddTaskToReadyQueue pxTCB k =
    (let p = uxPriority (tcb k pxTCB);
         k = (if uxTopReadyPriority k < p then k\<lparr>uxTopReadyPriority := p\<rparr> else k)
     in vListInsertEnd (ready_list_at k p) (xGenericListItem pxTCB) k)"

text \<open>The macro loops for ever when no list is populated: the counter wraps around.\<close>

partial_function (option) taskSELECT_HIGHEST_PRIORITY_TASK :: "'a kernel_scheme \<Rightarrow> 'a kernel_scheme option" where
  "taskSELECT_HIGHEST_PRIORITY_TASK k =
    (if list_empty (ready_list_at k (uxTopReadyPriority k)) k
     then taskSELECT_HIGHEST_PRIORITY_TASK (k\<lparr>uxTopReadyPriority := uxTopReadyPriority k - 1\<rparr>)
     else (let (t, k) = listGET_OWNER_OF_NEXT_ENTRY (ready_list_at k (uxTopReadyPriority k)) k
           in Some (k\<lparr>pxCurrentTCB := t\<rparr>)))"

text \<open>
  Removing a task's generic item. \<open>taskRESET_READY_PRIORITY\<close>, run when its list becomes empty,
  is an empty macro without port-optimised task selection.
\<close>

definition remove_generic :: "u32 \<Rightarrow> 'a kernel_scheme \<Rightarrow> 'a kernel_scheme" where
  "remove_generic pxTCB k = snd (uxListRemove (xGenericListItem pxTCB) k)"

definition remove_event :: "u32 \<Rightarrow> 'a kernel_scheme \<Rightarrow> 'a kernel_scheme" where
  "remove_event pxTCB k =
    (if pvContainer (itm k (xEventListItem pxTCB)) \<noteq> 0
     then snd (uxListRemove (xEventListItem pxTCB) k) else k)"

partial_function (option) wake_delayed :: "'a kernel_scheme \<Rightarrow> 'a kernel_scheme option" where
  "wake_delayed k =
    (if list_empty (pxDelayedTaskList k) k then Some (k\<lparr>xNextTaskUnblockTime := portMAX_DELAY\<rparr>)
     else
       (let pxTCB = listGET_OWNER_OF_HEAD_ENTRY (pxDelayedTaskList k) k;
            v = xItemValue (itm k (xGenericListItem pxTCB))
        in if xTickCount k < v then Some (k\<lparr>xNextTaskUnblockTime := v\<rparr>)
           else wake_delayed
                  (prvAddTaskToReadyQueue pxTCB (remove_event pxTCB (remove_generic pxTCB k)))))"

definition prvCheckDelayedTasks :: "'a kernel_scheme \<Rightarrow> 'a kernel_scheme option" where
  "prvCheckDelayedTasks k = (if xNextTaskUnblockTime k \<le> xTickCount k then wake_delayed k else Some k)"

definition prvAddCurrentTaskToDelayedList :: "u32 \<Rightarrow> 'a kernel_scheme \<Rightarrow> 'a kernel_scheme option" where
  "prvAddCurrentTaskToDelayedList xTimeToWake k =
    (let i = xGenericListItem (pxCurrentTCB k); k = set_item_value i xTimeToWake k in
     if xTimeToWake < xTickCount k then vListInsert (pxOverflowDelayedTaskList k) i k
     else do {
       k \<leftarrow> vListInsert (pxDelayedTaskList k) i k;
       Some (if xTimeToWake < xNextTaskUnblockTime k
             then k\<lparr>xNextTaskUnblockTime := xTimeToWake\<rparr> else k) })"

section \<open>Ticks and context switches\<close>

definition vTaskIncrementTick :: "'a kernel_scheme \<Rightarrow> 'a kernel_scheme option" where
  "vTaskIncrementTick k =
    (if uxSchedulerSuspended k = 0 then
       (let k = k\<lparr>xTickCount := xTickCount k + 1\<rparr>;
            k = (if xTickCount k = 0 then
                   (let k = k\<lparr>pxDelayedTaskList := pxOverflowDelayedTaskList k,
                              pxOverflowDelayedTaskList := pxDelayedTaskList k,
                              xNumOfOverflows := xNumOfOverflows k + 1\<rparr>
                    in if list_empty (pxDelayedTaskList k) k
                       then k\<lparr>xNextTaskUnblockTime := portMAX_DELAY\<rparr>
                       else k\<lparr>xNextTaskUnblockTime := xItemValue (itm k (xGenericListItem
                               (listGET_OWNER_OF_HEAD_ENTRY (pxDelayedTaskList k) k)))\<rparr>)
                 else k)
        in prvCheckDelayedTasks k)
     else Some (k\<lparr>uxMissedTicks := uxMissedTicks k + 1\<rparr>))"

text \<open>
  \<open>stack_check\<close> stands for the two stack-overflow checks: \<open>False\<close> runs the overflow hook of
  \<^verbatim>\<open>src/main.c\<close>, which never returns.
\<close>

definition stack_check :: "'a kernel_scheme \<Rightarrow> bool" where
  "stack_check k \<longleftrightarrow>
    (let t = tcb k (pxCurrentTCB k) in
     \<not> pxTopOfStack t \<le> pxStack t \<and> (\<forall>i\<in>set [0..<20]. kmem k (pxStack t + of_nat i) = 0xA5))"

definition vTaskSwitchContext :: "'a kernel_scheme \<Rightarrow> 'a kernel_scheme option" where
  "vTaskSwitchContext k =
    (if uxSchedulerSuspended k \<noteq> 0 then Some (k\<lparr>xMissedYield := True\<rparr>)
     else if stack_check k then taskSELECT_HIGHEST_PRIORITY_TASK k else None)"

definition vTaskSuspendAll :: "'a kernel_scheme \<Rightarrow> 'a kernel_scheme" where
  "vTaskSuspendAll k = k\<lparr>uxSchedulerSuspended := uxSchedulerSuspended k + 1\<rparr>"

partial_function (option) move_pending :: "bool \<Rightarrow> 'a kernel_scheme \<Rightarrow> (bool \<times> 'a kernel_scheme) option" where
  "move_pending xYieldRequired k =
    (if list_empty (xPendingReadyList k) k then Some (xYieldRequired, k)
     else
       (let pxTCB = listGET_OWNER_OF_HEAD_ENTRY (xPendingReadyList k) k;
            k = snd (uxListRemove (xEventListItem pxTCB) k);
            k = prvAddTaskToReadyQueue pxTCB (remove_generic pxTCB k)
        in move_pending
             (uxPriority (tcb k (pxCurrentTCB k)) \<le> uxPriority (tcb k pxTCB) \<or> xYieldRequired) k))"

partial_function (option) replay_ticks :: "'a kernel_scheme \<Rightarrow> 'a kernel_scheme option" where
  "replay_ticks k =
    (if 0 < uxMissedTicks k then
       Option.bind (vTaskIncrementTick k) (\<lambda>k.
         replay_ticks (k\<lparr>uxMissedTicks := uxMissedTicks k - 1\<rparr>))
     else Some k)"

definition xTaskResumeAll :: "'a kernel_scheme \<Rightarrow> (bool \<times> 'a kernel_scheme) option" where
  "xTaskResumeAll k =
    (let k = k\<lparr>uxSchedulerSuspended := uxSchedulerSuspended k - 1\<rparr> in
     if uxSchedulerSuspended k = 0 \<and> 0 < uxCurrentNumberOfTasks k then do {
       (xYieldRequired, k) \<leftarrow> move_pending False k;
       (xYieldRequired, k) \<leftarrow>
         (if 0 < uxMissedTicks k then do { k \<leftarrow> replay_ticks k; Some (True, k) }
          else Some (xYieldRequired, k));
       Some (if xYieldRequired \<or> xMissedYield k
             then (True, portYIELD_WITHIN_API (k\<lparr>xMissedYield := False\<rparr>))
             else (False, k)) }
     else Some (False, k))"

text \<open>PendSV: the pended switch is taken.\<close>

definition PendSV_Handler :: "'a kernel_scheme \<Rightarrow> 'a kernel_scheme option" where
  "PendSV_Handler k = vTaskSwitchContext (k\<lparr>pendsv := False\<rparr>)"

section \<open>Delays and timeouts\<close>

definition vTaskDelay :: "u32 \<Rightarrow> 'a kernel_scheme \<Rightarrow> 'a kernel_scheme option" where
  "vTaskDelay xTicksToDelay k = do {
     (xAlreadyYielded, k) \<leftarrow>
       (if 0 < xTicksToDelay then do {
          let k = vTaskSuspendAll k;
          let xTimeToWake = xTickCount k + xTicksToDelay;
          let k = remove_generic (pxCurrentTCB k) k;
          k \<leftarrow> prvAddCurrentTaskToDelayedList xTimeToWake k;
          xTaskResumeAll k }
        else Some (False, k));
     Some (if xAlreadyYielded then k else portYIELD_WITHIN_API k) }"

definition delay_until_decision :: "u32 \<Rightarrow> u32 \<Rightarrow> u32 \<Rightarrow> bool" where
  "delay_until_decision prev xTimeToWake now =
    (if now < prev then xTimeToWake < prev \<and> now < xTimeToWake
     else xTimeToWake < prev \<or> now < xTimeToWake)"

text \<open>\<open>*pxPreviousWakeTime\<close> is passed in and returned.\<close>

definition vTaskDelayUntil :: "u32 \<Rightarrow> u32 \<Rightarrow> 'a kernel_scheme \<Rightarrow> (u32 \<times> 'a kernel_scheme) option" where
  "vTaskDelayUntil prev xTimeIncrement k = do {
     let k = vTaskSuspendAll k;
     let xTimeToWake = prev + xTimeIncrement;
     k \<leftarrow> (if delay_until_decision prev xTimeToWake (xTickCount k)
           then prvAddCurrentTaskToDelayedList xTimeToWake (remove_generic (pxCurrentTCB k) k)
           else Some k);
     (xAlreadyYielded, k) \<leftarrow> xTaskResumeAll k;
     Some (xTimeToWake, if xAlreadyYielded then k else portYIELD_WITHIN_API k) }"

record xTimeOutType =
  xOverflowCount :: u32
  xTimeOnEntering :: u32

definition vTaskSetTimeOutState :: "'a kernel_scheme \<Rightarrow> xTimeOutType" where
  "vTaskSetTimeOutState k = \<lparr>xOverflowCount = xNumOfOverflows k, xTimeOnEntering = xTickCount k\<rparr>"

definition xTaskCheckForTimeOut :: "xTimeOutType \<Rightarrow> u32 \<Rightarrow> 'a kernel_scheme \<Rightarrow> bool \<times> xTimeOutType \<times> u32" where
  "xTaskCheckForTimeOut pxTimeOut ticks k =
    (if ticks = portMAX_DELAY then (False, pxTimeOut, ticks)
     else if xNumOfOverflows k \<noteq> xOverflowCount pxTimeOut \<and> xTimeOnEntering pxTimeOut \<le> xTickCount k
     then (True, pxTimeOut, ticks)
     else if xTickCount k - xTimeOnEntering pxTimeOut < ticks
     then (False, vTaskSetTimeOutState k, ticks - (xTickCount k - xTimeOnEntering pxTimeOut))
     else (True, pxTimeOut, ticks))"

definition vTaskMissedYield :: "'a kernel_scheme \<Rightarrow> 'a kernel_scheme" where
  "vTaskMissedYield k = k\<lparr>xMissedYield := True\<rparr>"

definition xTaskGetTickCount :: "'a kernel_scheme \<Rightarrow> u32" where
  "xTaskGetTickCount k = xTickCount k"

section \<open>Event lists\<close>

definition vTaskPlaceOnEventList :: "u32 \<Rightarrow> u32 \<Rightarrow> 'a kernel_scheme \<Rightarrow> 'a kernel_scheme option" where
  "vTaskPlaceOnEventList pxEventList xTicksToWait k = do {
     k \<leftarrow> vListInsert pxEventList (xEventListItem (pxCurrentTCB k)) k;
     let k = remove_generic (pxCurrentTCB k) k;
     if xTicksToWait = portMAX_DELAY
     then Some (vListInsertEnd (xSuspendedTaskList k) (xGenericListItem (pxCurrentTCB k)) k)
     else prvAddCurrentTaskToDelayedList (xTickCount k + xTicksToWait) k }"

definition vTaskPlaceOnEventListRestricted :: "u32 \<Rightarrow> u32 \<Rightarrow> 'a kernel_scheme \<Rightarrow> 'a kernel_scheme option" where
  "vTaskPlaceOnEventListRestricted pxEventList xTicksToWait k =
    (let k = vListInsertEnd pxEventList (xEventListItem (pxCurrentTCB k)) k;
         k = remove_generic (pxCurrentTCB k) k
     in prvAddCurrentTaskToDelayedList (xTickCount k + xTicksToWait) k)"

definition xTaskRemoveFromEventList :: "u32 \<Rightarrow> 'a kernel_scheme \<Rightarrow> bool \<times> 'a kernel_scheme" where
  "xTaskRemoveFromEventList pxEventList k =
    (let pxUnblockedTCB = listGET_OWNER_OF_HEAD_ENTRY pxEventList k;
         k = snd (uxListRemove (xEventListItem pxUnblockedTCB) k);
         k = (if uxSchedulerSuspended k = 0
              then prvAddTaskToReadyQueue pxUnblockedTCB (remove_generic pxUnblockedTCB k)
              else vListInsertEnd (xPendingReadyList k) (xEventListItem pxUnblockedTCB) k)
     in (uxPriority (tcb k (pxCurrentTCB k)) \<le> uxPriority (tcb k pxUnblockedTCB), k))"

section \<open>Priorities\<close>

definition prvGetTCBFromHandle :: "u32 \<Rightarrow> 'a kernel_scheme \<Rightarrow> u32" where
  "prvGetTCBFromHandle h k = (if h = 0 then pxCurrentTCB k else h)"

definition uxTaskPriorityGet :: "u32 \<Rightarrow> 'a kernel_scheme \<Rightarrow> u32" where
  "uxTaskPriorityGet xTask k = uxPriority (tcb k (prvGetTCBFromHandle xTask k))"

definition vTaskPrioritySet :: "u32 \<Rightarrow> u32 \<Rightarrow> 'a kernel_scheme \<Rightarrow> 'a kernel_scheme" where
  "vTaskPrioritySet xTask uxNewPriority k =
    (let uxNewPriority = (if configMAX_PRIORITIES \<le> uxNewPriority then configMAX_PRIORITIES - 1 else uxNewPriority);
         xTask = (if xTask = pxCurrentTCB k then 0 else xTask);
         pxTCB = prvGetTCBFromHandle xTask k;
         uxCurrentPriority = uxBasePriority (tcb k pxTCB)
     in if uxCurrentPriority \<noteq> uxNewPriority then
          (let xYieldRequired = (if uxCurrentPriority < uxNewPriority then xTask \<noteq> 0 else xTask = 0);
               k = (if uxBasePriority (tcb k pxTCB) = uxPriority (tcb k pxTCB)
                    then upd_tcb pxTCB (\<lambda>t. t\<lparr>uxPriority := uxNewPriority\<rparr>) k else k);
               k = upd_tcb pxTCB (\<lambda>t. t\<lparr>uxBasePriority := uxNewPriority\<rparr>) k;
               k = set_item_value (xEventListItem pxTCB) (configMAX_PRIORITIES - uxNewPriority) k;
               k = (if listIS_CONTAINED_WITHIN (ready_list_at k uxCurrentPriority) (xGenericListItem pxTCB) k
                    then prvAddTaskToReadyQueue pxTCB (remove_generic pxTCB k) else k)
           in if xYieldRequired then portYIELD_WITHIN_API k else k)
        else k)"

definition vTaskPriorityInherit :: "u32 \<Rightarrow> 'a kernel_scheme \<Rightarrow> 'a kernel_scheme" where
  "vTaskPriorityInherit pxTCB k =
    (if pxTCB \<noteq> 0 \<and> uxPriority (tcb k pxTCB) < uxPriority (tcb k (pxCurrentTCB k)) then
       (let p = uxPriority (tcb k (pxCurrentTCB k));
            k = set_item_value (xEventListItem pxTCB) (configMAX_PRIORITIES - p) k
        in if listIS_CONTAINED_WITHIN (ready_list_at k (uxPriority (tcb k pxTCB))) (xGenericListItem pxTCB) k
           then (let k = remove_generic pxTCB k;
                     k = upd_tcb pxTCB (\<lambda>t. t\<lparr>uxPriority := p\<rparr>) k
                 in prvAddTaskToReadyQueue pxTCB k)
           else upd_tcb pxTCB (\<lambda>t. t\<lparr>uxPriority := p\<rparr>) k)
     else k)"

definition vTaskPriorityDisinherit :: "u32 \<Rightarrow> 'a kernel_scheme \<Rightarrow> 'a kernel_scheme" where
  "vTaskPriorityDisinherit pxTCB k =
    (if pxTCB \<noteq> 0 \<and> uxPriority (tcb k pxTCB) \<noteq> uxBasePriority (tcb k pxTCB) then
       (let k = remove_generic pxTCB k;
            k = upd_tcb pxTCB (\<lambda>t. t\<lparr>uxPriority := uxBasePriority t\<rparr>) k;
            k = set_item_value (xEventListItem pxTCB) (configMAX_PRIORITIES - uxPriority (tcb k pxTCB)) k
        in prvAddTaskToReadyQueue pxTCB k)
     else k)"

section \<open>Suspending, resuming, deleting\<close>

definition vTaskSuspend :: "u32 \<Rightarrow> 'a kernel_scheme \<Rightarrow> 'a kernel_scheme option" where
  "vTaskSuspend xTaskToSuspend k =
    (let h = (if xTaskToSuspend = pxCurrentTCB k then 0 else xTaskToSuspend);
         pxTCB = prvGetTCBFromHandle h k;
         k = remove_event pxTCB (remove_generic pxTCB k);
         k = vListInsertEnd (xSuspendedTaskList k) (xGenericListItem pxTCB) k
     in if h = 0 then
          (if xSchedulerRunning k then Some (portYIELD_WITHIN_API k)
           else if uxNumberOfItems (lst k (xSuspendedTaskList k)) = uxCurrentNumberOfTasks k
           then Some (k\<lparr>pxCurrentTCB := 0\<rparr>)
           else vTaskSwitchContext k)
        else Some k)"

definition xTaskIsTaskSuspended :: "u32 \<Rightarrow> 'a kernel_scheme \<Rightarrow> bool" where
  "xTaskIsTaskSuspended pxTCB k \<longleftrightarrow>
     listIS_CONTAINED_WITHIN (xSuspendedTaskList k) (xGenericListItem pxTCB) k \<and>
     \<not> listIS_CONTAINED_WITHIN (xPendingReadyList k) (xEventListItem pxTCB) k \<and>
     listIS_CONTAINED_WITHIN 0 (xEventListItem pxTCB) k"

definition vTaskResume :: "u32 \<Rightarrow> 'a kernel_scheme \<Rightarrow> 'a kernel_scheme" where
  "vTaskResume pxTCB k =
    (if pxTCB \<noteq> 0 \<and> pxTCB \<noteq> pxCurrentTCB k \<and> xTaskIsTaskSuspended pxTCB k then
       (let k = prvAddTaskToReadyQueue pxTCB (remove_generic pxTCB k)
        in if uxPriority (tcb k (pxCurrentTCB k)) \<le> uxPriority (tcb k pxTCB)
           then portYIELD_WITHIN_API k else k)
     else k)"

definition xTaskResumeFromISR :: "u32 \<Rightarrow> 'a kernel_scheme \<Rightarrow> bool \<times> 'a kernel_scheme" where
  "xTaskResumeFromISR pxTCB k =
    (if xTaskIsTaskSuspended pxTCB k then
       (if uxSchedulerSuspended k = 0
        then (uxPriority (tcb k (pxCurrentTCB k)) \<le> uxPriority (tcb k pxTCB),
              prvAddTaskToReadyQueue pxTCB (remove_generic pxTCB k))
        else (False, vListInsertEnd (xPendingReadyList k) (xEventListItem pxTCB) k))
     else (False, k))"

definition vTaskDelete :: "u32 \<Rightarrow> 'a kernel_scheme \<Rightarrow> 'a kernel_scheme" where
  "vTaskDelete xTaskToDelete k =
    (let h = (if xTaskToDelete = pxCurrentTCB k then 0 else xTaskToDelete);
         pxTCB = prvGetTCBFromHandle h k;
         k = remove_event pxTCB (remove_generic pxTCB k);
         k = vListInsertEnd (xTasksWaitingTermination k) (xGenericListItem pxTCB) k;
         k = k\<lparr>uxTasksDeleted := uxTasksDeleted k + 1, uxTaskNumber_count := uxTaskNumber_count k + 1\<rparr>
     in if xSchedulerRunning k \<and> h = 0 then portYIELD_WITHIN_API k else k)"

definition prvDeleteTCB :: "u32 \<Rightarrow> 'a kernel_scheme \<Rightarrow> 'a kernel_scheme option" where
  "prvDeleteTCB pxTCB k = do {
     h \<leftarrow> vPortFree (unat (pxStack (tcb k pxTCB))) (heap k);
     h \<leftarrow> vPortFree (unat pxTCB) h;
     Some (k\<lparr>heap := h\<rparr>) }"

partial_function (option) prvCheckTasksWaitingTermination :: "'a kernel_scheme \<Rightarrow> 'a kernel_scheme option" where
  "prvCheckTasksWaitingTermination k =
    (if 0 < uxTasksDeleted k then
       (let k = vTaskSuspendAll k; xListIsEmpty = list_empty (xTasksWaitingTermination k) k in
        Option.bind (xTaskResumeAll k) (\<lambda>yk.
          let k = snd yk in
          if xListIsEmpty then prvCheckTasksWaitingTermination k
          else
            (let pxTCB = listGET_OWNER_OF_HEAD_ENTRY (xTasksWaitingTermination k) k;
                 k = remove_generic pxTCB k;
                 k = k\<lparr>uxCurrentNumberOfTasks := uxCurrentNumberOfTasks k - 1,
                       uxTasksDeleted := uxTasksDeleted k - 1\<rparr>
             in Option.bind (prvDeleteTCB pxTCB k) prvCheckTasksWaitingTermination)))
     else Some k)"

section \<open>Creating tasks\<close>

primrec fill_mem :: "u32 \<Rightarrow> u8 \<Rightarrow> nat \<Rightarrow> (u32 \<Rightarrow> u8) \<Rightarrow> (u32 \<Rightarrow> u8)" where
  "fill_mem a b 0 m = m"
| "fill_mem a b (Suc n) m = fill_mem (a + 1) b n (m(a := b))"

definition store32 :: "u32 \<Rightarrow> u32 \<Rightarrow> (u32 \<Rightarrow> u8) \<Rightarrow> (u32 \<Rightarrow> u8)" where
  "store32 a v m = m(a := ucast v, a + 1 := ucast (drop_bit 8 v),
                     a + 2 := ucast (drop_bit 16 v), a + 3 := ucast (drop_bit 24 v))"

definition prvAllocateTCBAndStack :: "u16 \<Rightarrow> u32 \<Rightarrow> 'a kernel_scheme \<Rightarrow> (u32 \<times> 'a kernel_scheme) option" where
  "prvAllocateTCBAndStack usStackDepth puxStackBuffer k = do {
     (p, h) \<leftarrow> pvPortMalloc 96 (heap k);
     let pxNewTCB = of_nat p;
     if pxNewTCB \<noteq> 0 then do {
       (q, h) \<leftarrow> (if puxStackBuffer = 0 then pvPortMalloc (unat usStackDepth * 4) h
                  else Some (unat puxStackBuffer, h));
       let k = upd_tcb pxNewTCB (\<lambda>t. t\<lparr>pxStack := of_nat q\<rparr>) k;
       if q = 0 then do {
         h \<leftarrow> vPortFree p h;
         Some (0, k\<lparr>heap := h\<rparr>) }
       else Some (pxNewTCB, k\<lparr>heap := h, kmem := fill_mem (of_nat q) 0xA5 (unat usStackDepth * 4) (kmem k)\<rparr>) }
     else Some (0, k\<lparr>heap := h\<rparr>) }"

definition strncpy :: "nat \<Rightarrow> u8 list \<Rightarrow> u8 list" where
  "strncpy n s = take n s @ replicate (n - length s) 0"

definition prvInitialiseTCBVariables :: "u32 \<Rightarrow> u8 list \<Rightarrow> u32 \<Rightarrow> 'a kernel_scheme \<Rightarrow> 'a kernel_scheme" where
  "prvInitialiseTCBVariables pxTCB pcName prio k =
    (let k = upd_tcb pxTCB (\<lambda>t. t\<lparr>pcTaskName := (strncpy 32 pcName)[31 := 0]\<rparr>) k;
         prio = (if configMAX_PRIORITIES \<le> prio then configMAX_PRIORITIES - 1 else prio);
         k = upd_tcb pxTCB (\<lambda>t. t\<lparr>uxPriority := prio\<rparr>) k;
         k = upd_tcb pxTCB (\<lambda>t. t\<lparr>uxBasePriority := prio\<rparr>) k;
         k = vListInitialiseItem (xGenericListItem pxTCB) k;
         k = vListInitialiseItem (xEventListItem pxTCB) k;
         k = set_item_owner (xGenericListItem pxTCB) pxTCB k;
         k = set_item_value (xEventListItem pxTCB) (configMAX_PRIORITIES - prio) k
     in set_item_owner (xEventListItem pxTCB) pxTCB k)"

definition pxPortInitialiseStack :: "u32 \<Rightarrow> u32 \<Rightarrow> u32 \<Rightarrow> (u32 \<Rightarrow> u8) \<Rightarrow> u32 \<times> (u32 \<Rightarrow> u8)" where
  "pxPortInitialiseStack sp pxCode pvParameters m =
    (let sp = sp - 4; m = store32 sp 0x01000000 m;
         sp = sp - 4; m = store32 sp pxCode m;
         sp = sp - 4; m = store32 sp 0 m;
         sp = sp - 5 * 4; m = store32 sp pvParameters m;
         sp = sp - 8 * 4
     in (sp, m))"

definition prvInitialiseTaskLists :: "'a kernel_scheme \<Rightarrow> 'a kernel_scheme" where
  "prvInitialiseTaskLists k =
    (let k = fold (\<lambda>p. vListInitialise (ready_list_at k p)) [0, 1, 2, 3, 4] k;
         k = vListInitialise (xDelayedTaskList1 k) k;
         k = vListInitialise (xDelayedTaskList2 k) k;
         k = vListInitialise (xPendingReadyList k) k;
         k = vListInitialise (xTasksWaitingTermination k) k;
         k = vListInitialise (xSuspendedTaskList k) k
     in k\<lparr>pxDelayedTaskList := xDelayedTaskList1 k, pxOverflowDelayedTaskList := xDelayedTaskList2 k\<rparr>)"

definition pdPASS :: int where "pdPASS = 1"
definition errCOULD_NOT_ALLOCATE_REQUIRED_MEMORY :: int where
  "errCOULD_NOT_ALLOCATE_REQUIRED_MEMORY = - 1"

text \<open>The critical section of \<open>xTaskGenericCreate\<close>: accounting and the ready list.\<close>

definition register_task :: "u32 \<Rightarrow> u32 \<Rightarrow> 'a kernel_scheme \<Rightarrow> 'a kernel_scheme" where
  "register_task pxNewTCB prio k =
    (let k = k\<lparr>uxCurrentNumberOfTasks := uxCurrentNumberOfTasks k + 1\<rparr>;
         k = (if pxCurrentTCB k = 0 then
                (let k = k\<lparr>pxCurrentTCB := pxNewTCB\<rparr>
                 in if uxCurrentNumberOfTasks k = 1 then prvInitialiseTaskLists k else k)
              else if \<not> xSchedulerRunning k \<and> uxPriority (tcb k (pxCurrentTCB k)) \<le> prio
              then k\<lparr>pxCurrentTCB := pxNewTCB\<rparr> else k);
         k = (if uxTopUsedPriority k < uxPriority (tcb k pxNewTCB)
              then k\<lparr>uxTopUsedPriority := uxPriority (tcb k pxNewTCB)\<rparr> else k);
         k = k\<lparr>uxTaskNumber_count := uxTaskNumber_count k + 1\<rparr>;
         k = upd_tcb pxNewTCB (\<lambda>t. t\<lparr>uxTCBNumber := uxTaskNumber_count k\<rparr>) k
     in prvAddTaskToReadyQueue pxNewTCB k)"

definition xTaskGenericCreate ::
  "u32 \<Rightarrow> u8 list \<Rightarrow> u16 \<Rightarrow> u32 \<Rightarrow> u32 \<Rightarrow> u32 \<Rightarrow> u32 \<Rightarrow> 'a kernel_scheme \<Rightarrow> (int \<times> 'a kernel_scheme) option" where
  "xTaskGenericCreate pxTaskCode pcName usStackDepth pvParameters prio pxCreatedTask puxStackBuffer k = do {
     (pxNewTCB, k) \<leftarrow> prvAllocateTCBAndStack usStackDepth puxStackBuffer k;
     if pxNewTCB \<noteq> 0 then do {
       let sp = pxStack (tcb k pxNewTCB) + 4 * (ucast usStackDepth - 1);
       let sp = sp AND NOT 7;
       let k = prvInitialiseTCBVariables pxNewTCB pcName prio k;
       let (sp, m) = pxPortInitialiseStack sp pxTaskCode pvParameters (kmem k);
       let k = upd_tcb pxNewTCB (\<lambda>t. t\<lparr>pxTopOfStack := sp\<rparr>) (k\<lparr>kmem := m\<rparr>);
       let k = (if pxCreatedTask \<noteq> 0 then k\<lparr>kmem := store32 pxCreatedTask pxNewTCB (kmem k)\<rparr> else k);
       let k = register_task pxNewTCB prio k;
       Some (pdPASS,
             if xSchedulerRunning k \<and> uxPriority (tcb k (pxCurrentTCB k)) < prio
             then portYIELD_WITHIN_API k else k) }
     else Some (errCOULD_NOT_ALLOCATE_REQUIRED_MEMORY, k) }"

datatype scheduler_state = taskSCHEDULER_NOT_STARTED | taskSCHEDULER_RUNNING | taskSCHEDULER_SUSPENDED

definition xTaskGetSchedulerState :: "'a kernel_scheme \<Rightarrow> scheduler_state" where
  "xTaskGetSchedulerState k =
    (if \<not> xSchedulerRunning k then taskSCHEDULER_NOT_STARTED
     else if uxSchedulerSuspended k = 0 then taskSCHEDULER_RUNNING else taskSCHEDULER_SUSPENDED)"

text \<open>\<open>xPortSysTickHandler\<close> of \<^verbatim>\<open>FreeRTOS/src/port.c\<close>: the tick interrupt.\<close>

definition xPortSysTickHandler :: "'a kernel_scheme \<Rightarrow> 'a kernel_scheme option" where
  "xPortSysTickHandler k = vTaskIncrementTick (k\<lparr>pendsv := True\<rparr>)"

text \<open>Stack bytes never written since the task was created, counted from the low end.\<close>

partial_function (option) free_stack_count :: "(u32 \<Rightarrow> u8) \<Rightarrow> u32 \<Rightarrow> u16 \<Rightarrow> u16 option" where
  "free_stack_count m p n = (if m p = 0xA5 then free_stack_count m (p + 1) (n + 1) else Some n)"

definition usTaskCheckFreeStackSpace :: "u32 \<Rightarrow> 'a kernel_scheme \<Rightarrow> u16 option" where
  "usTaskCheckFreeStackSpace pucStackByte k =
     map_option (\<lambda>n. n div 4) (free_stack_count (kmem k) pucStackByte 0)"

definition uxTaskGetStackHighWaterMark :: "u32 \<Rightarrow> 'a kernel_scheme \<Rightarrow> u32 option" where
  "uxTaskGetStackHighWaterMark xTask k =
     map_option ucast (usTaskCheckFreeStackSpace (pxStack (tcb k (prvGetTCBFromHandle xTask k))) k)"

lemmas task_loops_code [code] =
  taskSELECT_HIGHEST_PRIORITY_TASK.simps wake_delayed.simps move_pending.simps replay_ticks.simps
  prvCheckTasksWaitingTermination.simps free_stack_count.simps

end
