(* ===== verification/Queue.thy ===== *)
theory Queue
  imports Tasks
begin

text \<open>
  Queues, semaphores and mutexes, \<^verbatim>\<open>FreeRTOS/src/queue.c\<close>, without queue sets, co-routines and the
  alternative interface, which \<^verbatim>\<open>FreeRTOSConfig.h\<close> leaves out. The control blocks are a map over the
  kernel of the scheduler; the two lists of waiting tasks of a queue are kernel lists at fixed
  offsets in its control block, and the items are bytes in RAM.

  A blocking call loops. What other tasks and interrupts do meanwhile are two parameters of the
  loops, \<open>others\<close> and \<open>irqs\<close>; a schedule that varies keeps its own state in the record's extension.
\<close>

record xQUEUE =
  pcHead :: u32
  pcTail :: u32
  pcWriteTo :: u32
  pcReadFrom :: u32
  uxMessagesWaiting :: u32
  uxLength :: u32
  uxItemSize :: u32
  xRxLock :: int
  xTxLock :: int
  ucQueueNumber :: u8
  ucQueueType :: u8

record queues = kernel +
  que :: "u32 \<Rightarrow> xQUEUE"
  xQueueRegistry :: "(u32 \<times> u32) list"    \<comment> \<open>name and handle of each of the ten slots\<close>

text \<open>The union that the macros \<open>uxQueueType\<close>, \<open>pxMutexHolder\<close> and \<open>uxRecursiveCallCount\<close> make.\<close>

abbreviation uxQueueType :: "xQUEUE \<Rightarrow> u32" where "uxQueueType \<equiv> pcHead"
abbreviation pxMutexHolder :: "xQUEUE \<Rightarrow> u32" where "pxMutexHolder \<equiv> pcTail"
abbreviation uxRecursiveCallCount :: "xQUEUE \<Rightarrow> u32" where "uxRecursiveCallCount \<equiv> pcReadFrom"
abbreviation (input) queueQUEUE_IS_MUTEX :: u32 where "queueQUEUE_IS_MUTEX \<equiv> 0"
abbreviation (input) queueUNLOCKED :: int where "queueUNLOCKED \<equiv> - 1"
abbreviation (input) queueLOCKED_UNMODIFIED :: int where "queueLOCKED_UNMODIFIED \<equiv> 0"

datatype position = queueSEND_TO_BACK | queueSEND_TO_FRONT

definition errQUEUE_FULL :: int where "errQUEUE_FULL = 0"
definition errQUEUE_EMPTY :: int where "errQUEUE_EMPTY = 0"
definition pdFAIL :: int where "pdFAIL = 0"

definition xTasksWaitingToSend :: "u32 \<Rightarrow> u32" where "xTasksWaitingToSend q = q + 16"
definition xTasksWaitingToReceive :: "u32 \<Rightarrow> u32" where "xTasksWaitingToReceive q = q + 36"

definition upd_que :: "u32 \<Rightarrow> (xQUEUE \<Rightarrow> xQUEUE) \<Rightarrow> 'a queues_scheme \<Rightarrow> 'a queues_scheme" where
  "upd_que q f k = k\<lparr>que := (que k)(q := f (que k q))\<rparr>"

primrec store_bytes :: "u32 \<Rightarrow> u8 list \<Rightarrow> (u32 \<Rightarrow> u8) \<Rightarrow> (u32 \<Rightarrow> u8)" where
  "store_bytes a [] m = m"
| "store_bytes a (b # bs) m = store_bytes (a + 1) bs (m(a := b))"

definition load_bytes :: "u32 \<Rightarrow> nat \<Rightarrow> (u32 \<Rightarrow> u8) \<Rightarrow> u8 list" where
  "load_bytes a n m = map (\<lambda>i. m (a + of_nat i)) [0..<n]"

section \<open>Copying items\<close>

text \<open>
  The bytes at \<open>pvItemToQueue\<close> are passed as a list of which \<open>memcpy\<close> takes \<open>uxItemSize\<close>; the bytes
  a receiver finds in its buffer are returned.
\<close>

definition prvCopyDataToQueue :: "u32 \<Rightarrow> u8 list \<Rightarrow> position \<Rightarrow> 'a queues_scheme \<Rightarrow> 'a queues_scheme" where
  "prvCopyDataToQueue q item xPosition k =
    (let d = que k q; n = unat (uxItemSize d);
         k = (if uxItemSize d = 0 then
                (if uxQueueType d = queueQUEUE_IS_MUTEX
                 then upd_que q (\<lambda>d. d\<lparr>pcTail := 0\<rparr>) (vTaskPriorityDisinherit (pxMutexHolder d) k)
                 else k)
              else if xPosition = queueSEND_TO_BACK then
                (let w = pcWriteTo d + uxItemSize d
                 in upd_que q (\<lambda>d. d\<lparr>pcWriteTo := (if pcTail d \<le> w then pcHead d else w)\<rparr>)
                      (k\<lparr>kmem := store_bytes (pcWriteTo d) (take n item) (kmem k)\<rparr>))
              else
                (let r = pcReadFrom d - uxItemSize d
                 in upd_que q (\<lambda>d. d\<lparr>pcReadFrom := (if r < pcHead d then pcTail d - uxItemSize d else r)\<rparr>)
                      (k\<lparr>kmem := store_bytes (pcReadFrom d) (take n item) (kmem k)\<rparr>)))
     in upd_que q (\<lambda>d. d\<lparr>uxMessagesWaiting := uxMessagesWaiting d + 1\<rparr>) k)"

definition prvCopyDataFromQueue :: "u32 \<Rightarrow> 'a queues_scheme \<Rightarrow> u8 list \<times> 'a queues_scheme" where
  "prvCopyDataFromQueue q k =
    (let d = que k q in
     if uxQueueType d \<noteq> queueQUEUE_IS_MUTEX then
       (let r = pcReadFrom d + uxItemSize d;
            r = (if pcTail d \<le> r then pcHead d else r)
        in (load_bytes r (unat (uxItemSize d)) (kmem k), upd_que q (\<lambda>d. d\<lparr>pcReadFrom := r\<rparr>) k))
     else ([], k))"

section \<open>Locks\<close>

definition prvLockQueue :: "u32 \<Rightarrow> 'a queues_scheme \<Rightarrow> 'a queues_scheme" where
  "prvLockQueue q = upd_que q (\<lambda>d. d\<lparr>
     xRxLock := (if xRxLock d = queueUNLOCKED then queueLOCKED_UNMODIFIED else xRxLock d),
     xTxLock := (if xTxLock d = queueUNLOCKED then queueLOCKED_UNMODIFIED else xTxLock d)\<rparr>)"

text \<open>Waking the first waiter of a list; \<open>react\<close> is what happens when it should run first.\<close>

definition wake_waiter :: "('a queues_scheme \<Rightarrow> 'a queues_scheme) \<Rightarrow> u32 \<Rightarrow> 'a queues_scheme \<Rightarrow> 'a queues_scheme" where
  "wake_waiter react l k =
    (if list_empty l k then k
     else (let (hpw, k) = xTaskRemoveFromEventList l k in if hpw then react k else k))"

partial_function (option) unlock_tx :: "u32 \<Rightarrow> 'a queues_scheme \<Rightarrow> 'a queues_scheme option" where
  "unlock_tx q k =
    (if queueLOCKED_UNMODIFIED < xTxLock (que k q) \<and> \<not> list_empty (xTasksWaitingToReceive q) k
     then unlock_tx q (upd_que q (\<lambda>d. d\<lparr>xTxLock := xTxLock d - 1\<rparr>)
            (wake_waiter vTaskMissedYield (xTasksWaitingToReceive q) k))
     else Some (upd_que q (\<lambda>d. d\<lparr>xTxLock := queueUNLOCKED\<rparr>) k))"

partial_function (option) unlock_rx :: "u32 \<Rightarrow> 'a queues_scheme \<Rightarrow> 'a queues_scheme option" where
  "unlock_rx q k =
    (if queueLOCKED_UNMODIFIED < xRxLock (que k q) \<and> \<not> list_empty (xTasksWaitingToSend q) k
     then unlock_rx q (upd_que q (\<lambda>d. d\<lparr>xRxLock := xRxLock d - 1\<rparr>)
            (wake_waiter vTaskMissedYield (xTasksWaitingToSend q) k))
     else Some (upd_que q (\<lambda>d. d\<lparr>xRxLock := queueUNLOCKED\<rparr>) k))"

definition prvUnlockQueue :: "u32 \<Rightarrow> 'a queues_scheme \<Rightarrow> 'a queues_scheme option" where
  "prvUnlockQueue q k = Option.bind (unlock_tx q k) (unlock_rx q)"

definition prvIsQueueEmpty :: "u32 \<Rightarrow> 'a queues_scheme \<Rightarrow> bool" where
  "prvIsQueueEmpty q k \<longleftrightarrow> uxMessagesWaiting (que k q) = 0"

definition prvIsQueueFull :: "u32 \<Rightarrow> 'a queues_scheme \<Rightarrow> bool" where
  "prvIsQueueFull q k \<longleftrightarrow> uxMessagesWaiting (que k q) = uxLength (que k q)"

definition xQueueIsQueueEmptyFromISR :: "u32 \<Rightarrow> 'a queues_scheme \<Rightarrow> bool" where
  "xQueueIsQueueEmptyFromISR q k \<longleftrightarrow> uxMessagesWaiting (que k q) = 0"

definition xQueueIsQueueFullFromISR :: "u32 \<Rightarrow> 'a queues_scheme \<Rightarrow> bool" where
  "xQueueIsQueueFullFromISR q k \<longleftrightarrow> uxMessagesWaiting (que k q) = uxLength (que k q)"

definition uxQueueMessagesWaiting :: "u32 \<Rightarrow> 'a queues_scheme \<Rightarrow> u32" where
  "uxQueueMessagesWaiting q k = uxMessagesWaiting (que k q)"

definition uxQueueMessagesWaitingFromISR :: "u32 \<Rightarrow> 'a queues_scheme \<Rightarrow> u32" where
  "uxQueueMessagesWaitingFromISR q k = uxMessagesWaiting (que k q)"

section \<open>Sending and receiving\<close>

text \<open>
  The critical section of a successful send: the item is copied in and the first waiting
  receiver hpw.
\<close>

definition send_now :: "u32 \<Rightarrow> u8 list \<Rightarrow> position \<Rightarrow> 'a queues_scheme \<Rightarrow> 'a queues_scheme" where
  "send_now q item xCopyPosition k =
     wake_waiter portYIELD_WITHIN_API (xTasksWaitingToReceive q) (prvCopyDataToQueue q item xCopyPosition k)"

definition receive_now :: "u32 \<Rightarrow> bool \<Rightarrow> 'a queues_scheme \<Rightarrow> u8 list \<times> 'a queues_scheme" where
  "receive_now q xJustPeeking k =
    (let pcOriginalReadPosition = pcReadFrom (que k q);
         (bytes, k) = prvCopyDataFromQueue q k
     in if \<not> xJustPeeking then
          (let k = upd_que q (\<lambda>d. d\<lparr>uxMessagesWaiting := uxMessagesWaiting d - 1\<rparr>) k;
               k = (if uxQueueType (que k q) = queueQUEUE_IS_MUTEX
                    then upd_que q (\<lambda>d. d\<lparr>pcTail := pxCurrentTCB k\<rparr>) k else k)
           in (bytes, wake_waiter portYIELD_WITHIN_API (xTasksWaitingToSend q) k))
        else
          (let k = upd_que q (\<lambda>d. d\<lparr>pcReadFrom := pcOriginalReadPosition\<rparr>) k
           in (bytes, wake_waiter portYIELD_WITHIN_API (xTasksWaitingToReceive q) k)))"

text \<open>
  One trip through the part of the loops in which the scheduler is suspended and the queue locked.
  Interrupts stay enabled there: \<open>irqs\<close> is what they do, right after locking and right before
  unlocking. The first result says whether the wait is over.
\<close>

definition send_wait ::
  "('a queues_scheme \<Rightarrow> 'a queues_scheme) \<Rightarrow> u32 \<Rightarrow> u32 \<Rightarrow> xTimeOutType \<Rightarrow> 'a queues_scheme \<Rightarrow>
   (bool \<times> u32 \<times> xTimeOutType \<times> 'a queues_scheme) option" where
  "send_wait irqs q xTicksToWait xTimeOut k =
    (let k = irqs (prvLockQueue q (vTaskSuspendAll k));
         (timeout, xTimeOut, xTicksToWait) = xTaskCheckForTimeOut xTimeOut xTicksToWait k
     in if \<not> timeout then
          (if prvIsQueueFull q k then do {
             k \<leftarrow> vTaskPlaceOnEventList (xTasksWaitingToSend q) xTicksToWait k;
             k \<leftarrow> prvUnlockQueue q (irqs k);
             (yielded, k) \<leftarrow> xTaskResumeAll k;
             Some (False, xTicksToWait, xTimeOut, if \<not> yielded then portYIELD_WITHIN_API k else k) }
           else do {
             k \<leftarrow> prvUnlockQueue q (irqs k);
             (yielded, k) \<leftarrow> xTaskResumeAll k;
             Some (False, xTicksToWait, xTimeOut, k) })
        else do {
          k \<leftarrow> prvUnlockQueue q (irqs k);
          (yielded, k) \<leftarrow> xTaskResumeAll k;
          Some (True, xTicksToWait, xTimeOut, k) })"

definition receive_wait ::
  "('a queues_scheme \<Rightarrow> 'a queues_scheme) \<Rightarrow> u32 \<Rightarrow> u32 \<Rightarrow> xTimeOutType \<Rightarrow> 'a queues_scheme \<Rightarrow>
   (bool \<times> u32 \<times> xTimeOutType \<times> 'a queues_scheme) option" where
  "receive_wait irqs q xTicksToWait xTimeOut k =
    (let k = irqs (prvLockQueue q (vTaskSuspendAll k));
         (timeout, xTimeOut, xTicksToWait) = xTaskCheckForTimeOut xTimeOut xTicksToWait k
     in if \<not> timeout then
          (if prvIsQueueEmpty q k then do {
             let k = (if uxQueueType (que k q) = queueQUEUE_IS_MUTEX
                      then vTaskPriorityInherit (pxMutexHolder (que k q)) k else k);
             k \<leftarrow> vTaskPlaceOnEventList (xTasksWaitingToReceive q) xTicksToWait k;
             k \<leftarrow> prvUnlockQueue q (irqs k);
             (yielded, k) \<leftarrow> xTaskResumeAll k;
             Some (False, xTicksToWait, xTimeOut, if \<not> yielded then portYIELD_WITHIN_API k else k) }
           else do {
             k \<leftarrow> prvUnlockQueue q (irqs k);
             (yielded, k) \<leftarrow> xTaskResumeAll k;
             Some (False, xTicksToWait, xTimeOut, k) })
        else do {
          k \<leftarrow> prvUnlockQueue q (irqs k);
          (yielded, k) \<leftarrow> xTaskResumeAll k;
          Some (True, xTicksToWait, xTimeOut, k) })"

text \<open>
  The loops. \<open>others\<close> is what interrupts and other tasks do while the caller holds no lock: between
  the critical section and the suspension of the scheduler, and while the caller is blocked. Not
  coming back from there, or looping for ever, is the value \<open>None\<close>. \<open>xTimeOut\<close> is \<open>None\<close> until
  \<open>xEntryTimeSet\<close> is true.
\<close>

partial_function (option) send_loop ::
  "('a queues_scheme \<Rightarrow> 'a queues_scheme option) \<Rightarrow> ('a queues_scheme \<Rightarrow> 'a queues_scheme) \<Rightarrow> u32 \<Rightarrow> u8 list \<Rightarrow> u32 \<Rightarrow>
   position \<Rightarrow> xTimeOutType option \<Rightarrow> 'a queues_scheme \<Rightarrow> (int \<times> 'a queues_scheme) option" where
  "send_loop others irqs q item xTicksToWait xCopyPosition xTimeOut k =
    (if uxMessagesWaiting (que k q) < uxLength (que k q) then Some (pdPASS, send_now q item xCopyPosition k)
     else if xTicksToWait = 0 then Some (errQUEUE_FULL, k)
     else
       (let entered = (case xTimeOut of None \<Rightarrow> vTaskSetTimeOutState k | Some t \<Rightarrow> t) in
        Option.bind (others k) (\<lambda>k.
        Option.bind (send_wait irqs q xTicksToWait entered k) (\<lambda>(over, xTicksToWait, xTimeOut, k).
          if over then Some (errQUEUE_FULL, k)
          else Option.bind (others k) (send_loop others irqs q item xTicksToWait xCopyPosition (Some xTimeOut))))))"

partial_function (option) receive_loop ::
  "('a queues_scheme \<Rightarrow> 'a queues_scheme option) \<Rightarrow> ('a queues_scheme \<Rightarrow> 'a queues_scheme) \<Rightarrow> u32 \<Rightarrow> u32 \<Rightarrow>
   bool \<Rightarrow> xTimeOutType option \<Rightarrow> 'a queues_scheme \<Rightarrow> (int \<times> u8 list \<times> 'a queues_scheme) option" where
  "receive_loop others irqs q xTicksToWait xJustPeeking xTimeOut k =
    (if 0 < uxMessagesWaiting (que k q) then Some (pdPASS, receive_now q xJustPeeking k)
     else if xTicksToWait = 0 then Some (errQUEUE_EMPTY, [], k)
     else
       (let entered = (case xTimeOut of None \<Rightarrow> vTaskSetTimeOutState k | Some t \<Rightarrow> t) in
        Option.bind (others k) (\<lambda>k.
        Option.bind (receive_wait irqs q xTicksToWait entered k) (\<lambda>(over, xTicksToWait, xTimeOut, k).
          if over then Some (errQUEUE_EMPTY, [], k)
          else Option.bind (others k) (receive_loop others irqs q xTicksToWait xJustPeeking (Some xTimeOut))))))"

definition xQueueGenericSend where
  "xQueueGenericSend others irqs q item xTicksToWait xCopyPosition = send_loop others irqs q item xTicksToWait xCopyPosition None"

definition xQueueGenericReceive where
  "xQueueGenericReceive others irqs q xTicksToWait xJustPeeking = receive_loop others irqs q xTicksToWait xJustPeeking None"

text \<open>The versions for interrupt handlers return, second, the value of \<open>*pxHigherPriorityTaskWoken\<close>.\<close>

definition isr_wake :: "u32 \<Rightarrow> 'a queues_scheme \<Rightarrow> bool \<times> 'a queues_scheme" where
  "isr_wake l k = (if list_empty l k then (False, k) else xTaskRemoveFromEventList l k)"

definition xQueueGenericSendFromISR ::
  "u32 \<Rightarrow> u8 list \<Rightarrow> bool \<Rightarrow> position \<Rightarrow> 'a queues_scheme \<Rightarrow> int \<times> bool \<times> 'a queues_scheme" where
  "xQueueGenericSendFromISR q item hpw xCopyPosition k =
    (if uxMessagesWaiting (que k q) < uxLength (que k q) then
       (let k = prvCopyDataToQueue q item xCopyPosition k in
        if xTxLock (que k q) = queueUNLOCKED
        then (let (w, k) = isr_wake (xTasksWaitingToReceive q) k in (pdPASS, hpw \<or> w, k))
        else (pdPASS, hpw, upd_que q (\<lambda>d. d\<lparr>xTxLock := xTxLock d + 1\<rparr>) k))
     else (errQUEUE_FULL, hpw, k))"

definition xQueueReceiveFromISR :: "u32 \<Rightarrow> bool \<Rightarrow> 'a queues_scheme \<Rightarrow> int \<times> bool \<times> u8 list \<times> 'a queues_scheme" where
  "xQueueReceiveFromISR q hpw k =
    (if 0 < uxMessagesWaiting (que k q) then
       (let (bytes, k) = prvCopyDataFromQueue q k;
            k = upd_que q (\<lambda>d. d\<lparr>uxMessagesWaiting := uxMessagesWaiting d - 1\<rparr>) k
        in if xRxLock (que k q) = queueUNLOCKED
           then (let (w, k) = isr_wake (xTasksWaitingToSend q) k in (pdPASS, hpw \<or> w, bytes, k))
           else (pdPASS, hpw, bytes, upd_que q (\<lambda>d. d\<lparr>xRxLock := xRxLock d + 1\<rparr>) k))
     else (pdFAIL, hpw, [], k))"

text \<open>Waiting for a message without a loop, for the timer task; the scheduler is suspended by the caller.\<close>

definition vQueueWaitForMessageRestricted ::
  "('a queues_scheme \<Rightarrow> 'a queues_scheme) \<Rightarrow> u32 \<Rightarrow> u32 \<Rightarrow> 'a queues_scheme \<Rightarrow> 'a queues_scheme option" where
  "vQueueWaitForMessageRestricted irqs q xTicksToWait k = do {
     let k = irqs (prvLockQueue q k);
     k \<leftarrow> (if uxMessagesWaiting (que k q) = 0
           then vTaskPlaceOnEventListRestricted (xTasksWaitingToReceive q) xTicksToWait k else Some k);
     prvUnlockQueue q (irqs k) }"

section \<open>Creating and deleting\<close>

definition xQueueGenericReset :: "u32 \<Rightarrow> bool \<Rightarrow> 'a queues_scheme \<Rightarrow> 'a queues_scheme" where
  "xQueueGenericReset q xNewQueue k =
    (let k = upd_que q (\<lambda>d. d\<lparr>pcTail := pcHead d + uxLength d * uxItemSize d,
           uxMessagesWaiting := 0, pcWriteTo := pcHead d,
           pcReadFrom := pcHead d + (uxLength d - 1) * uxItemSize d,
           xRxLock := queueUNLOCKED, xTxLock := queueUNLOCKED\<rparr>) k
     in if \<not> xNewQueue then wake_waiter portYIELD_WITHIN_API (xTasksWaitingToSend q) k
        else vListInitialise (xTasksWaitingToReceive q) (vListInitialise (xTasksWaitingToSend q) k))"

definition xQueueGenericCreate :: "u32 \<Rightarrow> u32 \<Rightarrow> u8 \<Rightarrow> 'a queues_scheme \<Rightarrow> (u32 \<times> 'a queues_scheme) option" where
  "xQueueGenericCreate uxQueueLength uxItmSize ucType k =
    (if 0 < uxQueueLength then do {
       (p, h) \<leftarrow> pvPortMalloc 80 (heap k);
       let k = k\<lparr>heap := h\<rparr>;
       let q = of_nat p;
       if q \<noteq> 0 then do {
         let xQueueSizeInBytes = uxQueueLength * uxItmSize + 1;
         (b, h) \<leftarrow> pvPortMalloc (unat xQueueSizeInBytes) (heap k);
         let k = upd_que q (\<lambda>d. d\<lparr>pcHead := of_nat b\<rparr>) (k\<lparr>heap := h\<rparr>);
         if b \<noteq> 0 then do {
           let k = upd_que q (\<lambda>d. d\<lparr>uxLength := uxQueueLength, uxItemSize := uxItmSize\<rparr>) k;
           let k = xQueueGenericReset q True k;
           Some (q, upd_que q (\<lambda>d. d\<lparr>ucQueueType := ucType\<rparr>) k) }
         else do {
           h \<leftarrow> vPortFree p (heap k);
           Some (0, k\<lparr>heap := h\<rparr>) } }
       else Some (0, k) }
     else Some (0, k))"

definition xQueueCreateCountingSemaphore :: "u32 \<Rightarrow> u32 \<Rightarrow> 'a queues_scheme \<Rightarrow> (u32 \<times> 'a queues_scheme) option" where
  "xQueueCreateCountingSemaphore uxCountValue uxInitialCount k = do {
     (q, k) \<leftarrow> xQueueGenericCreate uxCountValue 0 2 k;
     Some (q, if q \<noteq> 0 then upd_que q (\<lambda>d. d\<lparr>uxMessagesWaiting := uxInitialCount\<rparr>) k else k) }"

definition xQueueCreateMutex ::
  "('a queues_scheme \<Rightarrow> 'a queues_scheme option) \<Rightarrow> ('a queues_scheme \<Rightarrow> 'a queues_scheme) \<Rightarrow> u8 \<Rightarrow>
   'a queues_scheme \<Rightarrow> (u32 \<times> 'a queues_scheme) option" where
  "xQueueCreateMutex others irqs ucType k = do {
     (p, h) \<leftarrow> pvPortMalloc 80 (heap k);
     let k = k\<lparr>heap := h\<rparr>;
     let q = of_nat p;
     if q \<noteq> 0 then do {
       let k = upd_que q (\<lambda>d. d\<lparr>pcTail := 0, pcHead := queueQUEUE_IS_MUTEX, pcWriteTo := 0, pcReadFrom := 0,
                 uxMessagesWaiting := 0, uxLength := 1, uxItemSize := 0, xRxLock := queueUNLOCKED, xTxLock := queueUNLOCKED,
                 ucQueueType := ucType\<rparr>) k;
       let k = vListInitialise (xTasksWaitingToReceive q) (vListInitialise (xTasksWaitingToSend q) k);
       (r, k) \<leftarrow> xQueueGenericSend others irqs q [] 0 queueSEND_TO_BACK k;
       Some (q, k) }
     else Some (q, k) }"

section \<open>Recursive mutexes\<close>

definition xQueueGiveMutexRecursive ::
  "('a queues_scheme \<Rightarrow> 'a queues_scheme option) \<Rightarrow> ('a queues_scheme \<Rightarrow> 'a queues_scheme) \<Rightarrow> u32 \<Rightarrow>
   'a queues_scheme \<Rightarrow> (int \<times> 'a queues_scheme) option" where
  "xQueueGiveMutexRecursive others irqs q k =
    (if pxMutexHolder (que k q) = pxCurrentTCB k then
       (let k = upd_que q (\<lambda>d. d\<lparr>pcReadFrom := pcReadFrom d - 1\<rparr>) k
        in if uxRecursiveCallCount (que k q) = 0
           then do { (r, k) \<leftarrow> xQueueGenericSend others irqs q [] 0 queueSEND_TO_BACK k; Some (pdPASS, k) }
           else Some (pdPASS, k))
     else Some (pdFAIL, k))"

definition xQueueTakeMutexRecursive ::
  "('a queues_scheme \<Rightarrow> 'a queues_scheme option) \<Rightarrow> ('a queues_scheme \<Rightarrow> 'a queues_scheme) \<Rightarrow> u32 \<Rightarrow> u32 \<Rightarrow>
   'a queues_scheme \<Rightarrow> (int \<times> 'a queues_scheme) option" where
  "xQueueTakeMutexRecursive others irqs q xBlockTime k =
    (if pxMutexHolder (que k q) = pxCurrentTCB k
     then Some (pdPASS, upd_que q (\<lambda>d. d\<lparr>pcReadFrom := pcReadFrom d + 1\<rparr>) k)
     else do {
       (r, bytes, k) \<leftarrow> xQueueGenericReceive others irqs q xBlockTime False k;
       Some (r, if r = pdPASS then upd_que q (\<lambda>d. d\<lparr>pcReadFrom := pcReadFrom d + 1\<rparr>) k else k) })"

section \<open>The registry\<close>

fun add_registry :: "u32 \<Rightarrow> u32 \<Rightarrow> (u32 \<times> u32) list \<Rightarrow> (u32 \<times> u32) list" where
  "add_registry name q [] = []"
| "add_registry name q ((n, h) # rs) = (if n = 0 then (name, q) # rs else (n, h) # add_registry name q rs)"

definition vQueueAddToRegistry :: "u32 \<Rightarrow> u32 \<Rightarrow> 'a queues_scheme \<Rightarrow> 'a queues_scheme" where
  "vQueueAddToRegistry q name k = k\<lparr>xQueueRegistry := add_registry name q (xQueueRegistry k)\<rparr>"

fun drop_registry :: "u32 \<Rightarrow> (u32 \<times> u32) list \<Rightarrow> (u32 \<times> u32) list" where
  "drop_registry q [] = []"
| "drop_registry q ((n, h) # rs) = (if h = q then (0, h) # rs else (n, h) # drop_registry q rs)"

definition prvQueueUnregisterQueue :: "u32 \<Rightarrow> 'a queues_scheme \<Rightarrow> 'a queues_scheme" where
  "prvQueueUnregisterQueue q k = k\<lparr>xQueueRegistry := drop_registry q (xQueueRegistry k)\<rparr>"

definition vQueueDelete :: "u32 \<Rightarrow> 'a queues_scheme \<Rightarrow> 'a queues_scheme option" where
  "vQueueDelete q k = do {
     let k = prvQueueUnregisterQueue q k;
     h \<leftarrow> vPortFree (unat (pcHead (que k q))) (heap k);
     h \<leftarrow> vPortFree (unat q) h;
     Some (k\<lparr>heap := h\<rparr>) }"

definition ucQueueGetQueueNumber :: "u32 \<Rightarrow> 'a queues_scheme \<Rightarrow> u8" where
  "ucQueueGetQueueNumber q k = ucQueueNumber (que k q)"

definition vQueueSetQueueNumber :: "u32 \<Rightarrow> u8 \<Rightarrow> 'a queues_scheme \<Rightarrow> 'a queues_scheme" where
  "vQueueSetQueueNumber q n = upd_que q (\<lambda>d. d\<lparr>ucQueueNumber := n\<rparr>)"

definition ucQueueGetQueueType :: "u32 \<Rightarrow> 'a queues_scheme \<Rightarrow> u8" where
  "ucQueueGetQueueType q k = ucQueueType (que k q)"

lemmas queue_loops_code [code] = unlock_tx.simps unlock_rx.simps send_loop.simps receive_loop.simps

end
