(* ===== verification/Timers.thy ===== *)
theory Timers
  imports Queue
begin

text \<open>
  Software timers, \<^verbatim>\<open>FreeRTOS/src/timers.c\<close>. Timers are kept on two lists, for expiry before and after
  the next wrap of the tick counter; a task of its own, which receives commands through a queue,
  files them, runs their callbacks and switches the lists.
\<close>

section \<open>Data\<close>

text \<open>A timer is a struct at the address that is its handle; its list item stands at offset 4.\<close>

record xTIMER =
  pcTimerName :: u32
  xTimerPeriodInTicks :: u32
  uxAutoReload :: u32
  pvTimerID :: u32
  pxCallbackFunction :: u32

record timers = queues +
  tmr :: "u32 \<Rightarrow> xTIMER"
  xActiveTimerList1 :: u32              \<comment> \<open>link-time address\<close>
  xActiveTimerList2 :: u32              \<comment> \<open>link-time address\<close>
  pxCurrentTimerList :: u32
  pxOverflowTimerList :: u32
  xTimerQueue :: u32
  xLastTime :: u32

record xTIMER_MESSAGE =
  xMessageID :: u32
  xMessageValue :: u32
  msg_pxTimer :: u32

text \<open>
  What the timer code does not control: \<open>others\<close> and \<open>irqs\<close>, the other tasks and the interrupts
  while a queue operation waits, and the functions that the timers name as their callbacks.
\<close>

record 'k timer_env =
  others :: "'k \<Rightarrow> 'k option"
  irqs :: "'k \<Rightarrow> 'k"
  callback :: "u32 \<Rightarrow> u32 \<Rightarrow> 'k \<Rightarrow> 'k option"

abbreviation (input) tmrCOMMAND_START :: u32 where "tmrCOMMAND_START \<equiv> 0"
abbreviation (input) tmrCOMMAND_STOP :: u32 where "tmrCOMMAND_STOP \<equiv> 1"
abbreviation (input) tmrCOMMAND_CHANGE_PERIOD :: u32 where "tmrCOMMAND_CHANGE_PERIOD \<equiv> 2"
abbreviation (input) tmrCOMMAND_DELETE :: u32 where "tmrCOMMAND_DELETE \<equiv> 3"
abbreviation (input) tmrNO_DELAY :: u32 where "tmrNO_DELAY \<equiv> 0"

definition xTimerListItem :: "u32 \<Rightarrow> u32" where "xTimerListItem t = t + 4"

definition upd_tmr :: "u32 \<Rightarrow> (xTIMER \<Rightarrow> xTIMER) \<Rightarrow> 'a timers_scheme \<Rightarrow> 'a timers_scheme" where
  "upd_tmr t f k = k\<lparr>tmr := (tmr k)(t := f (tmr k t))\<rparr>"

text \<open>Messages travel through the queue as 12 bytes.\<close>

definition word_to_bytes :: "u32 \<Rightarrow> u8 list" where
  "word_to_bytes w = [ucast w, ucast (drop_bit 8 w), ucast (drop_bit 16 w), ucast (drop_bit 24 w)]"

definition word_from_bytes :: "u8 list \<Rightarrow> u32" where
  "word_from_bytes b = ucast (b ! 0) OR push_bit 8 (ucast (b ! 1)) OR push_bit 16 (ucast (b ! 2)) OR push_bit 24 (ucast (b ! 3))"

definition message_bytes :: "xTIMER_MESSAGE \<Rightarrow> u8 list" where
  "message_bytes m = word_to_bytes (xMessageID m) @ word_to_bytes (xMessageValue m) @ word_to_bytes (msg_pxTimer m)"

definition message_of :: "u8 list \<Rightarrow> xTIMER_MESSAGE" where
  "message_of b = \<lparr>xMessageID = word_from_bytes (take 4 b), xMessageValue = word_from_bytes (take 4 (drop 4 b)),
     msg_pxTimer = word_from_bytes (take 4 (drop 8 b))\<rparr>"

section \<open>Commands\<close>

text \<open>\<open>pxHigherPriorityTaskWoken\<close> is \<open>None\<close> for \<open>NULL\<close>, and otherwise what it points to; the second result is its new value.\<close>

definition xTimerGenericCommand ::
  "('a timers_scheme) timer_env \<Rightarrow> u32 \<Rightarrow> u32 \<Rightarrow> u32 \<Rightarrow> bool option \<Rightarrow> u32 \<Rightarrow> 'a timers_scheme \<Rightarrow>
   (int \<times> bool option \<times> 'a timers_scheme) option" where
  "xTimerGenericCommand E xTimer xCommandID xOptionalValue pxHigherPriorityTaskWoken xBlockTime k =
    (if xTimerQueue k \<noteq> 0 then
       (let xMessage = message_bytes \<lparr>xMessageID = xCommandID, xMessageValue = xOptionalValue, msg_pxTimer = xTimer\<rparr>
        in case pxHigherPriorityTaskWoken of
             None \<Rightarrow> do {
               (xReturn, k) \<leftarrow>
                 (if xTaskGetSchedulerState k = taskSCHEDULER_RUNNING
                  then xQueueGenericSend (others E) (irqs E) (xTimerQueue k) xMessage xBlockTime queueSEND_TO_BACK k
                  else xQueueGenericSend (others E) (irqs E) (xTimerQueue k) xMessage tmrNO_DELAY queueSEND_TO_BACK k);
               Some (xReturn, None, k) }
           | Some w \<Rightarrow>
               (let (xReturn, w, k) = xQueueGenericSendFromISR (xTimerQueue k) xMessage w queueSEND_TO_BACK k
                in Some (xReturn, Some w, k)))
     else Some (pdFAIL, pxHigherPriorityTaskWoken, k))"

text \<open>The restart of a timer by the timer task itself; \<open>configASSERT\<close> is empty, the result is not used.\<close>

definition send_start :: "('a timers_scheme) timer_env \<Rightarrow> u32 \<Rightarrow> u32 \<Rightarrow> 'a timers_scheme \<Rightarrow> 'a timers_scheme option" where
  "send_start E pxTimer xTime k = do {
     (xResult, w, k) \<leftarrow> xTimerGenericCommand E pxTimer tmrCOMMAND_START xTime None tmrNO_DELAY k;
     Some k }"

section \<open>The active timers\<close>

definition prvInsertTimerInActiveList ::
  "u32 \<Rightarrow> u32 \<Rightarrow> u32 \<Rightarrow> u32 \<Rightarrow> 'a timers_scheme \<Rightarrow> (bool \<times> 'a timers_scheme) option" where
  "prvInsertTimerInActiveList pxTimer xNextExpiryTime xTimeNow xCommandTime k =
    (let k = set_item_value (xTimerListItem pxTimer) xNextExpiryTime k;
         k = set_item_owner (xTimerListItem pxTimer) pxTimer k
     in if xNextExpiryTime \<le> xTimeNow then
          (if xTimerPeriodInTicks (tmr k pxTimer) \<le> xTimeNow - xCommandTime then Some (True, k)
           else do { k \<leftarrow> vListInsert (pxOverflowTimerList k) (xTimerListItem pxTimer) k; Some (False, k) })
        else
          (if xTimeNow < xCommandTime \<and> xCommandTime \<le> xNextExpiryTime then Some (True, k)
           else do { k \<leftarrow> vListInsert (pxCurrentTimerList k) (xTimerListItem pxTimer) k; Some (False, k) }))"

text \<open>The macro \<open>listGET_ITEM_VALUE_OF_HEAD_ENTRY\<close>.\<close>

definition value_of_head :: "u32 \<Rightarrow> 'a list_store_scheme \<Rightarrow> u32" where
  "value_of_head l k = xItemValue (itm k (pxNext (itm k (xListEnd l))))"

text \<open>The loop of \<open>prvSwitchTimerLists\<close>, which lets the timers run out that the current list still holds.\<close>

partial_function (option) run_out :: "('a timers_scheme) timer_env \<Rightarrow> 'a timers_scheme \<Rightarrow> 'a timers_scheme option" where
  "run_out E k =
    (if list_empty (pxCurrentTimerList k) k then Some k
     else
       (let xNextExpireTime = value_of_head (pxCurrentTimerList k) k;
            pxTimer = listGET_OWNER_OF_HEAD_ENTRY (pxCurrentTimerList k) k;
            k = snd (uxListRemove (xTimerListItem pxTimer) k)
        in Option.bind (callback E (pxCallbackFunction (tmr k pxTimer)) pxTimer k) (\<lambda>k.
           if uxAutoReload (tmr k pxTimer) = 1 then
             (let xReloadTime = xNextExpireTime + xTimerPeriodInTicks (tmr k pxTimer) in
              if xNextExpireTime < xReloadTime then
                (let k = set_item_value (xTimerListItem pxTimer) xReloadTime k;
                     k = set_item_owner (xTimerListItem pxTimer) pxTimer k
                 in Option.bind (vListInsert (pxCurrentTimerList k) (xTimerListItem pxTimer) k) (run_out E))
              else Option.bind (send_start E pxTimer xNextExpireTime k) (run_out E))
           else run_out E k)))"

definition prvSwitchTimerLists :: "('a timers_scheme) timer_env \<Rightarrow> 'a timers_scheme \<Rightarrow> 'a timers_scheme option" where
  "prvSwitchTimerLists E k = do {
     k \<leftarrow> run_out E k;
     Some (k\<lparr>pxCurrentTimerList := pxOverflowTimerList k, pxOverflowTimerList := pxCurrentTimerList k\<rparr>) }"

definition prvSampleTimeNow :: "('a timers_scheme) timer_env \<Rightarrow> 'a timers_scheme \<Rightarrow> (u32 \<times> bool \<times> 'a timers_scheme) option" where
  "prvSampleTimeNow E k =
    (let xTimeNow = xTaskGetTickCount k in
     if xTimeNow < xLastTime k
     then do { k \<leftarrow> prvSwitchTimerLists E k; Some (xTimeNow, True, k\<lparr>xLastTime := xTimeNow\<rparr>) }
     else Some (xTimeNow, False, k\<lparr>xLastTime := xTimeNow\<rparr>))"

definition prvProcessExpiredTimer :: "('a timers_scheme) timer_env \<Rightarrow> u32 \<Rightarrow> u32 \<Rightarrow> 'a timers_scheme \<Rightarrow> 'a timers_scheme option" where
  "prvProcessExpiredTimer E xNextExpireTime xTimeNow k =
    (let pxTimer = listGET_OWNER_OF_HEAD_ENTRY (pxCurrentTimerList k) k;
         k = snd (uxListRemove (xTimerListItem pxTimer) k)
     in do {
       k \<leftarrow> (if uxAutoReload (tmr k pxTimer) = 1 then do {
               (expired, k) \<leftarrow> prvInsertTimerInActiveList pxTimer
                  (xNextExpireTime + xTimerPeriodInTicks (tmr k pxTimer)) xTimeNow xNextExpireTime k;
               if expired then send_start E pxTimer xNextExpireTime k else Some k }
             else Some k);
       callback E (pxCallbackFunction (tmr k pxTimer)) pxTimer k })"

definition prvGetNextExpireTime :: "'a timers_scheme \<Rightarrow> u32 \<times> bool" where
  "prvGetNextExpireTime k =
    (let xListWasEmpty = list_empty (pxCurrentTimerList k) k
     in (if \<not> xListWasEmpty then value_of_head (pxCurrentTimerList k) k else 0, xListWasEmpty))"

definition prvProcessTimerOrBlockTask :: "('a timers_scheme) timer_env \<Rightarrow> u32 \<Rightarrow> bool \<Rightarrow> 'a timers_scheme \<Rightarrow> 'a timers_scheme option" where
  "prvProcessTimerOrBlockTask E xNextExpireTime xListWasEmpty k = do {
     let k = vTaskSuspendAll k;
     (xTimeNow, xTimerListsWereSwitched, k) \<leftarrow> prvSampleTimeNow E k;
     if \<not> xTimerListsWereSwitched then
       (if \<not> xListWasEmpty \<and> xNextExpireTime \<le> xTimeNow then do {
          (yielded, k) \<leftarrow> xTaskResumeAll k;
          prvProcessExpiredTimer E xNextExpireTime xTimeNow k }
        else do {
          k \<leftarrow> vQueueWaitForMessageRestricted (irqs E) (xTimerQueue k) (xNextExpireTime - xTimeNow) k;
          (yielded, k) \<leftarrow> xTaskResumeAll k;
          others E (if \<not> yielded then portYIELD_WITHIN_API k else k) })
     else do {
       (yielded, k) \<leftarrow> xTaskResumeAll k;
       Some k } }"

section \<open>The timer task\<close>

definition process_command :: "('a timers_scheme) timer_env \<Rightarrow> xTIMER_MESSAGE \<Rightarrow> 'a timers_scheme \<Rightarrow> 'a timers_scheme option" where
  "process_command E xMessage k =
    (let pxTimer = msg_pxTimer xMessage; v = xMessageValue xMessage;
         k = (if \<not> listIS_CONTAINED_WITHIN 0 (xTimerListItem pxTimer) k
              then snd (uxListRemove (xTimerListItem pxTimer) k) else k)
     in do {
       (xTimeNow, switched, k) \<leftarrow> prvSampleTimeNow E k;
       if xMessageID xMessage = tmrCOMMAND_START then do {
         (expired, k) \<leftarrow> prvInsertTimerInActiveList pxTimer (v + xTimerPeriodInTicks (tmr k pxTimer)) xTimeNow v k;
         if expired then do {
           k \<leftarrow> callback E (pxCallbackFunction (tmr k pxTimer)) pxTimer k;
           if uxAutoReload (tmr k pxTimer) = 1
           then send_start E pxTimer (v + xTimerPeriodInTicks (tmr k pxTimer)) k else Some k }
         else Some k }
       else if xMessageID xMessage = tmrCOMMAND_STOP then Some k
       else if xMessageID xMessage = tmrCOMMAND_CHANGE_PERIOD then do {
         let k = upd_tmr pxTimer (\<lambda>t. t\<lparr>xTimerPeriodInTicks := v\<rparr>) k;
         (expired, k) \<leftarrow> prvInsertTimerInActiveList pxTimer (xTimeNow + xTimerPeriodInTicks (tmr k pxTimer)) xTimeNow xTimeNow k;
         Some k }
       else if xMessageID xMessage = tmrCOMMAND_DELETE then do {
         h \<leftarrow> vPortFree (unat pxTimer) (heap k);
         Some (k\<lparr>heap := h\<rparr>) }
       else Some k })"

partial_function (option) prvProcessReceivedCommands ::
  "('a timers_scheme) timer_env \<Rightarrow> 'a timers_scheme \<Rightarrow> 'a timers_scheme option" where
  "prvProcessReceivedCommands E k =
    Option.bind (xQueueGenericReceive (others E) (irqs E) (xTimerQueue k) tmrNO_DELAY False k) (\<lambda>(r, b, k).
      if r = pdFAIL then Some k
      else Option.bind (process_command E (message_of b) k) (prvProcessReceivedCommands E))"

text \<open>One pass of the loop of \<open>prvTimerTask\<close>, which has no end.\<close>

definition prvTimerTask_pass :: "('a timers_scheme) timer_env \<Rightarrow> 'a timers_scheme \<Rightarrow> 'a timers_scheme option" where
  "prvTimerTask_pass E k = do {
     let (xNextExpireTime, xListWasEmpty) = prvGetNextExpireTime k;
     k \<leftarrow> prvProcessTimerOrBlockTask E xNextExpireTime xListWasEmpty k;
     prvProcessReceivedCommands E k }"

section \<open>Creation\<close>

definition prvCheckForValidListAndQueue :: "'a timers_scheme \<Rightarrow> 'a timers_scheme option" where
  "prvCheckForValidListAndQueue k =
    (if xTimerQueue k = 0 then do {
       let k = vListInitialise (xActiveTimerList1 k) k;
       let k = vListInitialise (xActiveTimerList2 k) k;
       let k = k\<lparr>pxCurrentTimerList := xActiveTimerList1 k, pxOverflowTimerList := xActiveTimerList2 k\<rparr>;
       (q, k) \<leftarrow> xQueueGenericCreate 4 12 0 k;
       Some (k\<lparr>xTimerQueue := q\<rparr>) }
     else Some k)"

text \<open>\<open>code\<close> is the address of \<open>prvTimerTask\<close>; its priority is 1, its stack has 256 words.\<close>

definition xTimerCreateTimerTask :: "u32 \<Rightarrow> u8 list \<Rightarrow> 'a timers_scheme \<Rightarrow> (int \<times> 'a timers_scheme) option" where
  "xTimerCreateTimerTask code name k = do {
     k \<leftarrow> prvCheckForValidListAndQueue k;
     if xTimerQueue k \<noteq> 0 then xTaskGenericCreate code name 256 0 1 0 0 k else Some (pdFAIL, k) }"

definition xTimerCreate :: "u32 \<Rightarrow> u32 \<Rightarrow> u32 \<Rightarrow> u32 \<Rightarrow> u32 \<Rightarrow> 'a timers_scheme \<Rightarrow> (u32 \<times> 'a timers_scheme) option" where
  "xTimerCreate name xPeriod autoReload tid cbf k =
    (if xPeriod = 0 then Some (0, k)
     else do {
       (p, h) \<leftarrow> pvPortMalloc 40 (heap k);
       let k = k\<lparr>heap := h\<rparr>;
       let pxNewTimer = of_nat p;
       if pxNewTimer \<noteq> 0 then do {
         k \<leftarrow> prvCheckForValidListAndQueue k;
         let k = upd_tmr pxNewTimer (\<lambda>t. \<lparr>pcTimerName = name, xTimerPeriodInTicks = xPeriod, uxAutoReload = autoReload,
                   pvTimerID = tid, pxCallbackFunction = cbf\<rparr>) k;
         Some (pxNewTimer, vListInitialiseItem (xTimerListItem pxNewTimer) k) }
       else Some (0, k) })"

definition xTimerIsTimerActive :: "u32 \<Rightarrow> 'a timers_scheme \<Rightarrow> bool" where
  "xTimerIsTimerActive xTimer k \<longleftrightarrow> \<not> listIS_CONTAINED_WITHIN 0 (xTimerListItem xTimer) k"

definition pvTimerGetTimerID :: "u32 \<Rightarrow> 'a timers_scheme \<Rightarrow> u32" where
  "pvTimerGetTimerID xTimer k = pvTimerID (tmr k xTimer)"

lemmas timer_loops_code [code] = run_out.simps prvProcessReceivedCommands.simps

end
