(* ===== verification/Sched_Inv.thy ===== *)
theory Sched_Inv
  imports Tasks
begin

text \<open>
  The scheduler's invariant: every kernel list is well formed, every task's items are on the lists
  their fields say, ready lists hold tasks of their priority, and the lists of sleeping tasks are
  sorted by wake time. A ghost map \<open>M\<close> gives the contents of every list; the lemmas say what the
  list operations do to the map and that moving one task keeps the invariant. The selection loop
  of \<open>vTaskSwitchContext\<close> is shown to stop at the highest populated priority.
\<close>

section \<open>Where the items of a task are\<close>

definition members :: "list_map \<Rightarrow> u32 \<Rightarrow> u32 list" where
  "members M l = (case M l of None \<Rightarrow> [] | Some c \<Rightarrow> snd c @ fst c)"

definition in_order :: "list_map \<Rightarrow> u32 \<Rightarrow> u32 list" where
  "in_order M l = (case M l of None \<Rightarrow> [] | Some c \<Rightarrow> fst c @ snd c)"

abbreviation ready_lists :: "'a kernel_scheme \<Rightarrow> u32 list" where
  "ready_lists k \<equiv> map (ready_list_at k) [0, 1, 2, 3, 4]"

definition task_lists :: "'a kernel_scheme \<Rightarrow> u32 list" where
  "task_lists k = ready_lists k @ [xDelayedTaskList1 k, xDelayedTaskList2 k, xTasksWaitingTermination k, xSuspendedTaskList k]"

abbreviation gen :: "u32 \<Rightarrow> u32" where "gen \<equiv> xGenericListItem"
abbreviation evt :: "u32 \<Rightarrow> u32" where "evt \<equiv> xEventListItem"
abbreviation prio :: "'a kernel_scheme \<Rightarrow> u32 \<Rightarrow> u32" where "prio k t \<equiv> uxPriority (tcb k t)"
abbreviation val :: "'a list_store_scheme \<Rightarrow> u32 \<Rightarrow> u32" where "val k \<equiv> \<lambda>x. xItemValue (itm k x)"

definition layout :: "'a kernel_scheme \<Rightarrow> list_map \<Rightarrow> bool" where
  "layout k M \<longleftrightarrow>
     distinct (xPendingReadyList k # task_lists k) \<and> set (xPendingReadyList k # task_lists k) \<subseteq> dom M \<and> 0 \<notin> dom M \<and>
     (pxDelayedTaskList k = xDelayedTaskList1 k \<and> pxOverflowDelayedTaskList k = xDelayedTaskList2 k \<or>
      pxDelayedTaskList k = xDelayedTaskList2 k \<and> pxOverflowDelayedTaskList k = xDelayedTaskList1 k)"

text \<open>
  A task's items name it as their owner; its event item is on an event list exactly when its
  container field says so.
\<close>

definition task_ok :: "'a kernel_scheme \<Rightarrow> list_map \<Rightarrow> u32 \<Rightarrow> bool" where
  "task_ok k M t \<longleftrightarrow>
     pvOwner (itm k (gen t)) = t \<and> pvOwner (itm k (evt t)) = t \<and> prio k t < 5 \<and>
     (if pvContainer (itm k (evt t)) = 0 then free_item M (evt t)
      else pvContainer (itm k (evt t)) \<notin> set (task_lists k) \<and>
        evt t \<in> set (members M (pvContainer (itm k (evt t)))))"

definition items_ok :: "'a kernel_scheme \<Rightarrow> list_map \<Rightarrow> bool" where
  "items_ok k M \<longleftrightarrow>
     (\<forall>l\<in>set (task_lists k). \<forall>x\<in>set (members M l). \<exists>t. x = gen t \<and> task_ok k M t) \<and>
     (\<forall>l\<in>dom M - set (task_lists k). \<forall>x\<in>set (members M l). \<exists>t. x = evt t \<and> task_ok k M t \<and>
        (\<exists>l'\<in>set (task_lists k). gen t \<in> set (members M l')))"

definition ready_ok :: "'a kernel_scheme \<Rightarrow> list_map \<Rightarrow> bool" where
  "ready_ok k M \<longleftrightarrow> uxTopReadyPriority k < 5 \<and>
     (\<forall>p<5. \<forall>t. gen t \<in> set (members M (ready_list_at k p)) \<longrightarrow> prio k t = p \<and> p \<le> uxTopReadyPriority k)"

text \<open>The lists of sleeping tasks are sorted by wake time.\<close>

definition sleep_ok :: "'a kernel_scheme \<Rightarrow> list_map \<Rightarrow> bool" where
  "sleep_ok k M \<longleftrightarrow>
     sorted (map (val k) (in_order M (pxDelayedTaskList k))) \<and>
     sorted (map (val k) (in_order M (pxOverflowDelayedTaskList k)))"

definition sched_ok :: "'a kernel_scheme \<Rightarrow> list_map \<Rightarrow> bool" where
  "sched_ok k M \<longleftrightarrow> lists_ok k M \<and> layout k M \<and> items_ok k M \<and> ready_ok k M \<and> sleep_ok k M"

text \<open>
  The list in use holds wake times still ahead in this pass of the tick counter, the overflow
  list those of the next pass, and \<open>xNextTaskUnblockTime\<close> is not later than any wake time of this
  pass.
\<close>

definition clock_ok :: "'a kernel_scheme \<Rightarrow> list_map \<Rightarrow> bool" where
  "clock_ok k M \<longleftrightarrow>
     (\<forall>x\<in>set (members M (pxDelayedTaskList k)). xTickCount k < val k x \<and> xNextTaskUnblockTime k \<le> val k x) \<and>
     (\<forall>x\<in>set (members M (pxOverflowDelayedTaskList k)). val k x < xTickCount k)"

definition on_list :: "'a kernel_scheme \<Rightarrow> list_map \<Rightarrow> u32 \<Rightarrow> bool" where
  "on_list k M t \<longleftrightarrow> (\<exists>l\<in>set (task_lists k). gen t \<in> set (members M l))"

lemma set_in_order [simp]: "set (in_order M l) = set (members M l)"
  by (auto simp: in_order_def members_def split: option.splits)

lemma in_order_Nil: "in_order M l = [] \<longleftrightarrow> members M l = []"
  by (cases "M l") (auto simp: in_order_def members_def)

lemma in_order_upd: "in_order (M(l \<mapsto> c)) l' = (if l' = l then fst c @ snd c else in_order M l')"
  by (simp add: in_order_def)

lemma members_upd: "members (M(l \<mapsto> c)) l' = (if l' = l then snd c @ fst c else members M l')"
  by (simp add: members_def)

lemma member_dest: "x \<in> set (members M l) \<longleftrightarrow> (\<exists>c. M l = Some c \<and> x \<in> set (fst c @ snd c))"
  by (cases "M l") (auto simp: members_def)

lemma gen_inj [simp]: "gen t = gen t' \<longleftrightarrow> t = t'" and evt_inj [simp]: "evt t = evt t' \<longleftrightarrow> t = t'"
  and gen_evt [simp]: "gen t \<noteq> evt t" "evt t \<noteq> gen t"
  by (simp_all add: xGenericListItem_def xEventListItem_def)

lemma task_ok_gen_evt: "task_ok k M t \<Longrightarrow> task_ok k M t' \<Longrightarrow> gen t \<noteq> evt t'"
  unfolding task_ok_def by (metis gen_evt(1))

lemma free_item_members: "free_item M x \<longleftrightarrow> (\<forall>l\<in>dom M. x \<noteq> xListEnd l \<and> x \<notin> set (members M l))"
  unfolding free_item_def footprint_def member_dest by (simp add: Ball_def domIff) (metis option.exhaust option.inject)

lemma free_not_member: "free_item M x \<Longrightarrow> x \<notin> set (members M l)"
  unfolding free_item_members member_dest by blast

lemma member_unique:
  assumes "lists_ok s M" "x \<in> set (members M l)" "x \<in> set (members M l')"
  shows "l = l'"
proof (rule ccontr)
  assume "l \<noteq> l'"
  moreover obtain c c' where "M l = Some c" "M l' = Some c'" "x \<in> footprint l c" "x \<in> footprint l' c'"
    using assms(2,3) unfolding member_dest footprint_def by (metis list.set_intros(2))
  ultimately show False using assms(1) unfolding lists_ok_def by blast
qed

lemma member_container:
  assumes "lists_ok s M" "x \<in> set (members M l)"
  shows "pvContainer (itm s x) = l"
  using assms unfolding member_dest lists_ok_def list_rep_def by blast

lemma member_not_marker:
  assumes "lists_ok s M" "x \<in> set (members M l)" "l' \<in> dom M"
  shows "x \<noteq> xListEnd l'"
proof
  assume e: "x = xListEnd l'"
  obtain c where c: "M l = Some c" "x \<in> set (fst c @ snd c)"
    using assms(2) unfolding member_dest by blast
  obtain c' where c': "M l' = Some c'" using assms(3) by blast
  have "xListEnd l \<notin> set (fst c @ snd c)" using lists_okD [OF assms(1) c(1)] by (simp add: list_rep_def ring_def)
  then have "l \<noteq> l'" using c(2) e by auto
  moreover have "x \<in> footprint l c" "x \<in> footprint l' c'" using c(2) e by (auto simp: footprint_def)
  ultimately show False using assms(1) c(1) c' unfolding lists_ok_def by blast
qed

section \<open>Re-establishing the invariant after a move\<close>

lemma items_ok_move:
  assumes ok: "lists_ok k M" "items_ok k M" and t: "task_ok k M t"
    and ok': "lists_ok k' M'" and lists: "task_lists k' = task_lists k" and d: "dom M' = dom M" "0 \<notin> dom M" "set (task_lists k) \<subseteq> dom M"
    and owner: "\<And>y. pvOwner (itm k' y) = pvOwner (itm k y)"
    and cont: "\<And>y. y \<noteq> gen t \<Longrightarrow> y \<noteq> evt t \<Longrightarrow> pvContainer (itm k' y) = pvContainer (itm k y)"
    and pr: "\<And>t'. t' \<noteq> t \<Longrightarrow> prio k' t' = prio k t'" "prio k' t < 5"
    and mem: "\<And>y l. y \<noteq> gen t \<Longrightarrow> y \<noteq> evt t \<Longrightarrow> y \<in> set (members M' l) \<longleftrightarrow> y \<in> set (members M l)"
    and L: "L \<in> set (task_lists k)" "gen t \<in> set (members M' L)"
    and E: "pvContainer (itm k' (evt t)) = 0 \<and> free_item M' (evt t) \<or>
      (\<exists>e. e \<notin> set (task_lists k) \<and> evt t \<in> set (members M' e))"
  shows "items_ok k' M'" "task_ok k' M' t"
proof -
  have domm: "l \<in> dom M'" if "y \<in> set (members M' l)" for y l
    using that unfolding member_dest by blast
  show t': "task_ok k' M' t"
    using E
  proof (elim disjE exE conjE)
    fix e assume e: "e \<notin> set (task_lists k)" "evt t \<in> set (members M' e)"
    then have "pvContainer (itm k' (evt t)) = e" "e \<noteq> 0"
      using member_container [OF ok' e(2)] domm [OF e(2)] d(1,2) by auto
    then show ?thesis using t pr(2) e by (simp add: task_ok_def owner lists)
  qed (use t pr(2) in \<open>simp add: task_ok_def owner lists\<close>)
  have others: "task_ok k' M' u" if u: "task_ok k M u" "u \<noteq> t" for u
  proof -
    have ne: "evt u \<noteq> gen t" "evt u \<noteq> evt t" using task_ok_gen_evt [OF t u(1)] u(2) by auto
    have "free_item M (evt u) \<Longrightarrow> free_item M' (evt u)"
      using mem [OF ne] d(1) by (simp add: free_item_members)
    then show ?thesis using u(1) pr(1) [OF u(2)] mem [OF ne] cont [OF ne]
      unfolding task_ok_def owner lists by (auto split: if_splits)
  qed
  have gen_mem: "gen u \<in> set (members M' l) \<longleftrightarrow> gen u \<in> set (members M l)" if "task_ok k M u" "u \<noteq> t" for u l
    using mem [of "gen u" l] that task_ok_gen_evt [OF that(1) t] by auto
  have evt_only: "e \<notin> set (task_lists k)" if "evt t \<in> set (members M' e)" for e
    using E
  proof (elim disjE exE conjE)
    assume "free_item M' (evt t)"
    then show ?thesis using that domm [OF that] by (simp add: free_item_members)
  next
    fix e' assume "e' \<notin> set (task_lists k)" "evt t \<in> set (members M' e')"
    then show ?thesis using member_unique [OF ok' that] by simp
  qed
  have gen_only: "l = L" if "gen t \<in> set (members M' l)" for l
    using member_unique [OF ok' that L(2)] .
  show "items_ok k' M'"
    unfolding items_ok_def lists
  proof (intro conjI ballI)
    fix l x assume l: "l \<in> set (task_lists k)" and x: "x \<in> set (members M' l)"
    show "\<exists>u. x = gen u \<and> task_ok k' M' u"
    proof (cases "x = gen t \<or> x = evt t")
      case True
      then show ?thesis using t' evt_only [of l] l x by auto
    next
      case False
      then have "x \<in> set (members M l)" using mem x by blast
      then obtain u where u: "x = gen u" "task_ok k M u" using ok(2) l unfolding items_ok_def by blast
      then show ?thesis using others [of u] t' by (cases "u = t") auto
    qed
  next
    fix l x assume l: "l \<in> dom M' - set (task_lists k)" and x: "x \<in> set (members M' l)"
    show "\<exists>u. x = evt u \<and> task_ok k' M' u \<and> (\<exists>l'\<in>set (task_lists k). gen u \<in> set (members M' l'))"
    proof (cases "x = gen t \<or> x = evt t")
      case True
      then show ?thesis using t' L gen_only [of l] l x by auto
    next
      case False
      then have "x \<in> set (members M l)" using mem x by blast
      then obtain u where u: "x = evt u" "task_ok k M u" "\<exists>l'\<in>set (task_lists k). gen u \<in> set (members M l')"
        using ok(2) l d(1) unfolding items_ok_def by blast
      have "u \<noteq> t" using False u(1) by auto
      then show ?thesis using u others [OF u(2)] gen_mem [OF u(2)] by blast
    qed
  qed
qed

section \<open>List operations on the kernel state\<close>

text \<open>The list operations write list items and list headers only.\<close>

lemma more_frame:
  assumes "list_store.more k' = list_store.more k"
  shows "tcb k' = tcb k" "kmem k' = kmem k" "heap k' = heap k" "pxCurrentTCB k' = pxCurrentTCB k"
    "pxReadyTasksLists k' = pxReadyTasksLists k" "xDelayedTaskList1 k' = xDelayedTaskList1 k"
    "xDelayedTaskList2 k' = xDelayedTaskList2 k" "xPendingReadyList k' = xPendingReadyList k"
    "xTasksWaitingTermination k' = xTasksWaitingTermination k" "xSuspendedTaskList k' = xSuspendedTaskList k"
    "pxDelayedTaskList k' = pxDelayedTaskList k" "pxOverflowDelayedTaskList k' = pxOverflowDelayedTaskList k"
    "uxTasksDeleted k' = uxTasksDeleted k" "uxCurrentNumberOfTasks k' = uxCurrentNumberOfTasks k"
    "xTickCount k' = xTickCount k" "uxTopUsedPriority k' = uxTopUsedPriority k"
    "uxTopReadyPriority k' = uxTopReadyPriority k" "xSchedulerRunning k' = xSchedulerRunning k"
    "uxSchedulerSuspended k' = uxSchedulerSuspended k" "uxMissedTicks k' = uxMissedTicks k"
    "xMissedYield k' = xMissedYield k" "xNumOfOverflows k' = xNumOfOverflows k"
    "uxTaskNumber_count k' = uxTaskNumber_count k" "xNextTaskUnblockTime k' = xNextTaskUnblockTime k"
    "pendsv k' = pendsv k" "ready_list_at k' = ready_list_at k" "task_lists k' = task_lists k"
  using assms by (cases k; cases k'; simp add: ready_list_at_def fun_eq_iff task_lists_def)+

lemma more_InsertEnd [simp]: "list_store.more (vListInsertEnd l x k) = list_store.more k"
  by (simp add: vListInsertEnd_def upd_item_def upd_list_def Let_def)

lemma more_Remove [simp]: "list_store.more (snd (uxListRemove x k)) = list_store.more k"
  by (simp add: uxListRemove_def upd_item_def upd_list_def Let_def)

lemma more_next [simp]: "list_store.more (snd (listGET_OWNER_OF_NEXT_ENTRY l k)) = list_store.more k"
  by (simp add: listGET_OWNER_OF_NEXT_ENTRY_def upd_list_def Let_def)

lemma more_Insert: "vListInsert l x k = Some k' \<Longrightarrow> list_store.more k' = list_store.more k"
  by (auto simp: vListInsert_def upd_item_def upd_list_def Let_def split: if_splits Option.bind_splits)

lemmas kernel_frame [simp] = more_frame [OF more_InsertEnd] more_frame [OF more_Remove] more_frame [OF more_next]

lemma item_frame [simp]:
  "pvOwner (itm (vListInsertEnd l x k) y) = pvOwner (itm k y)" "val (vListInsertEnd l x k) y = val k y"
  "pvOwner (itm (snd (uxListRemove x k)) y) = pvOwner (itm k y)" "val (snd (uxListRemove x k)) y = val k y"
  "pvContainer (itm (vListInsertEnd l x k) y) = (if y = x then l else pvContainer (itm k y))"
  "pvContainer (itm (snd (uxListRemove x k)) y) = (if y = x then 0 else pvContainer (itm k y))"
  "itm (snd (listGET_OWNER_OF_NEXT_ENTRY l k)) = itm k"
  by (simp_all add: vListInsertEnd_def uxListRemove_def upd_item_def upd_list_def Let_def listGET_OWNER_OF_NEXT_ENTRY_def)

lemma container_Insert:
  "vListInsert l x k = Some k' \<Longrightarrow> pvContainer (itm k' y) = (if y = x then l else pvContainer (itm k y))"
  by (auto simp: vListInsert_def upd_item_def upd_list_def Let_def split: if_splits Option.bind_splits)

lemma lists_ok_cong: "itm k' = itm k \<Longrightarrow> lst k' = lst k \<Longrightarrow> lists_ok k' M = lists_ok k M"
  by (auto simp: lists_ok_def list_rep_def ring_def)

lemma list_rep_empty: "list_rep k l pre post \<Longrightarrow> list_empty l k \<longleftrightarrow> pre @ post = []"
proof -
  assume r: "list_rep k l pre post"
  then have "distinct (xListEnd l # pre @ post)" by (simp add: list_rep_def ring_def)
  then have "card (set (xListEnd l # pre @ post)) = Suc (length (pre @ post))" by (metis distinct_card length_Cons)
  moreover have "card (set (xListEnd l # pre @ post)) \<le> card (UNIV :: u32 set)" by (rule card_mono) auto
  ultimately have "length (pre @ post) < 2 ^ 32" by (simp add: card_word)
  then have "(of_nat (length (pre @ post)) :: u32) = 0 \<longleftrightarrow> length (pre @ post) = 0"
    by (auto simp: word_of_nat_eq_0_iff nat_dvd_not_less simp del: length_append of_nat_add)
  then show ?thesis using r by (simp add: list_rep_def list_empty_def del: length_append of_nat_add)
qed

lemma lists_empty: "lists_ok k M \<Longrightarrow> l \<in> dom M \<Longrightarrow> list_empty l k \<longleftrightarrow> in_order M l = []"
  by (auto simp: in_order_def dest!: lists_okD list_rep_empty)

text \<open>What the operations do to the map.\<close>

definition push :: "u32 \<Rightarrow> u32 \<Rightarrow> list_map \<Rightarrow> list_map" where
  "push l x M = M(l \<mapsto> (fst (the (M l)) @ [x], snd (the (M l))))"

definition drop_item :: "u32 \<Rightarrow> u32 \<Rightarrow> list_map \<Rightarrow> list_map" where
  "drop_item l x M = M(l \<mapsto> (remove1 x (fst (the (M l))), remove1 x (snd (the (M l)))))"

lemma dom_push [simp]: "l \<in> dom M \<Longrightarrow> dom (push l x M) = dom M"
  and dom_drop [simp]: "l \<in> dom M \<Longrightarrow> dom (drop_item l x M) = dom M"
  by (auto simp: push_def drop_item_def)

lemma members_push [simp]:
  "l \<in> dom M \<Longrightarrow> members (push l x M) l' = (if l' = l then members M l @ [x] else members M l')"
  by (auto simp: push_def members_def)

lemma in_order_push:
  "l \<in> dom M \<Longrightarrow> l' \<noteq> l \<Longrightarrow> in_order (push l x M) l' = in_order M l'"
  by (auto simp: push_def in_order_def)

lemma push_ok: "lists_ok k M \<Longrightarrow> l \<in> dom M \<Longrightarrow> free_item M x \<Longrightarrow> lists_ok (vListInsertEnd l x k) (push l x M)"
  using lists_insert_end [of k M l] by (auto simp: push_def)

lemma lists_distinct: "lists_ok k M \<Longrightarrow> distinct (members M l) \<and> distinct (in_order M l)"
  by (cases "M l") (auto simp: members_def in_order_def dest!: lists_okD simp: list_rep_def ring_def)

lemma remove1_two: "distinct (a @ b) \<Longrightarrow> remove1 x (a @ b) = remove1 x a @ remove1 x b"
  by (cases "x \<in> set a") (auto simp: remove1_append remove1_idem disjoint_iff)

lemma members_drop:
  assumes "lists_ok k M" "l \<in> dom M"
  shows "members (drop_item l x M) l' = (if l' = l then remove1 x (members M l) else members M l')"
    "in_order (drop_item l x M) l' = (if l' = l then remove1 x (in_order M l) else in_order M l')"
proof -
  obtain c where c: "M l = Some c" using assms(2) by blast
  show "members (drop_item l x M) l' = (if l' = l then remove1 x (members M l) else members M l')"
    "in_order (drop_item l x M) l' = (if l' = l then remove1 x (in_order M l) else in_order M l')"
    using c lists_distinct [OF assms(1), of l] remove1_two [of "snd c" "fst c" x] remove1_two [of "fst c" "snd c" x]
    by (simp_all add: members_def in_order_def drop_item_def)
qed

lemma set_drop:
  assumes "lists_ok k M" "l \<in> dom M"
  shows "set (members (drop_item l x M) l') = (if l' = l then set (members M l) - {x} else set (members M l'))"
  using lists_distinct [OF assms(1), of l] by (simp add: members_drop [OF assms] set_remove1_eq)

lemma drop_ok:
  assumes "lists_ok k M" "x \<in> set (members M l)"
  shows "lists_ok (snd (uxListRemove x k)) (drop_item l x M)" "free_item (drop_item l x M) x"
proof -
  obtain c where "M l = Some c" "x \<in> set (fst c @ snd c)" using assms(2) by (auto simp: member_dest)
  then show "lists_ok (snd (uxListRemove x k)) (drop_item l x M)" "free_item (drop_item l x M) x"
    using lists_remove [OF assms(1), of l "fst c" "snd c" x] by (simp_all add: drop_item_def)
qed

lemma free_push: "l \<in> dom M \<Longrightarrow> free_item (push l x M) y \<longleftrightarrow> free_item M y \<and> y \<noteq> x"
  by (auto simp: free_item_members)

lemma free_drop: "lists_ok k M \<Longrightarrow> l \<in> dom M \<Longrightarrow> free_item M y \<Longrightarrow> free_item (drop_item l x M) y"
  by (auto simp: free_item_members set_drop)

text \<open>\<open>vListInsert\<close> on the map.\<close>

lemma insert_ok:
  assumes "lists_ok k M" "l \<in> dom M" "free_item M x"
  obtains k' c where "vListInsert l x k = Some k'" "lists_ok k' (M(l \<mapsto> c))"
    "in_order (M(l \<mapsto> c)) l = ordered_insert (val k) x (in_order M l)"
    "\<And>l'. set (members (M(l \<mapsto> c)) l') = (if l' = l then insert x (set (members M l)) else set (members M l'))"
    "list_store.more k' = list_store.more k"
    "\<And>y. pvOwner (itm k' y) = pvOwner (itm k y)" "val k' = val k"
    "\<And>y. pvContainer (itm k' y) = (if y = x then l else pvContainer (itm k y))"
proof -
  obtain d where d: "M l = Some d" using assms(2) by blast
  then obtain k' c where kc: "vListInsert l x k = Some k'" "lists_ok k' (M(l \<mapsto> c))"
    "fst c @ snd c = ordered_insert (val k) x (fst d @ snd d)"
    "\<forall>a. val k' a = val k a \<and> pvOwner (itm k' a) = pvOwner (itm k a)"
    using lists_insert [OF assms(1), of l "fst d" "snd d" x] assms(3) by auto
  have "set (fst c @ snd c) = insert x (set (fst d @ snd d))" unfolding kc(3) by (rule ordered_insert_set)
  then have "set (snd c) \<union> set (fst c) = insert x (set (members M l))" using d by (simp add: members_def Un_commute)
  then have "set (members (M(l \<mapsto> c)) l') = (if l' = l then insert x (set (members M l)) else set (members M l'))" for l'
    by (simp add: members_upd)
  moreover have "in_order (M(l \<mapsto> c)) l = ordered_insert (val k) x (in_order M l)"
    using kc(3) d by (simp add: in_order_def)
  moreover have "val k' = val k" "\<And>y. pvOwner (itm k' y) = pvOwner (itm k y)" using kc(4) by (simp_all add: fun_eq_iff)
  ultimately show thesis
    using that [OF kc(1,2) _ _ more_Insert [OF kc(1)] _ _ container_Insert [OF kc(1)]] by blast
qed

section \<open>Selecting the next task\<close>

lemmas sched_parts = sched_ok_def [THEN iffD1, THEN conjunct1]
  sched_ok_def [THEN iffD1, THEN conjunct2, THEN conjunct1]
  sched_ok_def [THEN iffD1, THEN conjunct2, THEN conjunct2, THEN conjunct1]
  sched_ok_def [THEN iffD1, THEN conjunct2, THEN conjunct2, THEN conjunct2, THEN conjunct1]
  sched_ok_def [THEN iffD1, THEN conjunct2, THEN conjunct2, THEN conjunct2, THEN conjunct2]

lemma sched_ok_cong:
  assumes ok: "sched_ok k M" and l: "lists_ok k' M'" "dom M' = dom M" "\<And>l. set (members M' l) = set (members M l)"
    and s: "\<And>l. l \<in> {pxDelayedTaskList k, pxOverflowDelayedTaskList k} \<Longrightarrow> in_order M' l = in_order M l"
    and f: "itm k' = itm k" "tcb k' = tcb k" "task_lists k' = task_lists k" "xPendingReadyList k' = xPendingReadyList k"
      "xDelayedTaskList1 k' = xDelayedTaskList1 k" "xDelayedTaskList2 k' = xDelayedTaskList2 k"
      "pxDelayedTaskList k' = pxDelayedTaskList k" "pxOverflowDelayedTaskList k' = pxOverflowDelayedTaskList k"
    and r: "ready_ok k' M'"
  shows "sched_ok k' M'"
proof -
  have free: "free_item M' y \<longleftrightarrow> free_item M y" for y unfolding free_item_members l(2,3) by simp
  have t: "task_ok k' M' t \<longleftrightarrow> task_ok k M t" for t unfolding task_ok_def f l(3) free by simp
  have "items_ok k' M'" using sched_parts(3) [OF ok] unfolding items_ok_def f l(2,3) t .
  moreover have "layout k' M'" using sched_parts(2) [OF ok] unfolding layout_def f l(2) .
  moreover have "sleep_ok k' M'" using sched_parts(5) [OF ok] s unfolding sleep_ok_def f by simp
  ultimately show ?thesis using l(1) r by (simp add: sched_ok_def)
qed

lemma u32_below_5: "(p :: u32) < 5 \<Longrightarrow> p \<in> {0, 1, 2, 3, 4}"
proof -
  assume "p < 5"
  then have "unat p \<in> {0, 1, 2, 3, 4}" by (simp add: word_less_nat_alt) linarith
  then show ?thesis by (simp add: word_unat_eq_iff)
qed

lemma ready_list_neq: "p < 5 \<Longrightarrow> q < 5 \<Longrightarrow> ready_list_at k p = ready_list_at k q \<longleftrightarrow> p = q"
  by (drule u32_below_5, drule u32_below_5, elim insertE emptyE) (simp_all add: ready_list_at_def)

lemma ready_list_in: "p < 5 \<Longrightarrow> ready_list_at k p \<in> set (ready_lists k)"
  by (drule u32_below_5, elim insertE emptyE) simp_all

lemma layout_facts:
  assumes "layout k M"
  shows "p < 5 \<Longrightarrow> ready_list_at k p \<in> dom M" "p < 5 \<Longrightarrow> ready_list_at k p \<in> set (task_lists k)"
    "p < 5 \<Longrightarrow> ready_list_at k p \<notin> {pxDelayedTaskList k, pxOverflowDelayedTaskList k, xSuspendedTaskList k, xTasksWaitingTermination k, xPendingReadyList k}"
    "{pxDelayedTaskList k, pxOverflowDelayedTaskList k, xSuspendedTaskList k, xTasksWaitingTermination k} \<subseteq> set (task_lists k)"
    "set (task_lists k) \<subseteq> dom M" "xPendingReadyList k \<in> dom M" "xPendingReadyList k \<notin> set (task_lists k)"
    "pxDelayedTaskList k \<noteq> pxOverflowDelayedTaskList k" "0 \<notin> dom M"
    "{pxDelayedTaskList k, pxOverflowDelayedTaskList k} \<inter> {xSuspendedTaskList k, xTasksWaitingTermination k} = {}"
proof -
  define R where "R = ready_lists k"
  have t: "task_lists k = R @ [xDelayedTaskList1 k, xDelayedTaskList2 k, xTasksWaitingTermination k, xSuspendedTaskList k]"
    by (simp add: task_lists_def R_def)
  have p: "p < 5 \<Longrightarrow> ready_list_at k p \<in> set R" using ready_list_in [of p k] by (simp only: R_def)
  note L = assms [unfolded layout_def t]
  show "p < 5 \<Longrightarrow> ready_list_at k p \<in> dom M" "p < 5 \<Longrightarrow> ready_list_at k p \<in> set (task_lists k)"
    "p < 5 \<Longrightarrow> ready_list_at k p \<notin> {pxDelayedTaskList k, pxOverflowDelayedTaskList k, xSuspendedTaskList k, xTasksWaitingTermination k, xPendingReadyList k}"
    using p L unfolding t by auto
  show "{pxDelayedTaskList k, pxOverflowDelayedTaskList k, xSuspendedTaskList k, xTasksWaitingTermination k} \<subseteq> set (task_lists k)"
    "set (task_lists k) \<subseteq> dom M" "xPendingReadyList k \<in> dom M" "xPendingReadyList k \<notin> set (task_lists k)"
    "pxDelayedTaskList k \<noteq> pxOverflowDelayedTaskList k" "0 \<notin> dom M"
    "{pxDelayedTaskList k, pxOverflowDelayedTaskList k} \<inter> {xSuspendedTaskList k, xTasksWaitingTermination k} = {}"
    using L unfolding t by auto
qed

lemma generic_itemE:
  assumes "sched_ok k M" "l \<in> set (task_lists k)" "x \<in> set (members M l)"
  obtains t where "x = gen t" "task_ok k M t"
  using assms unfolding sched_ok_def items_ok_def by blast

lemma event_itemE:
  assumes "sched_ok k M" "l \<in> dom M" "l \<notin> set (task_lists k)" "x \<in> set (members M l)"
  obtains t l' where "x = evt t" "task_ok k M t" "l' \<in> set (task_lists k)" "gen t \<in> set (members M l')"
  using assms unfolding sched_ok_def items_ok_def by blast

text \<open>The highest priority with a ready task, and the task that is due to run at it.\<close>

definition top_priority :: "'a kernel_scheme \<Rightarrow> list_map \<Rightarrow> u32 \<Rightarrow> bool" where
  "top_priority k M p \<longleftrightarrow> p < 5 \<and> members M (ready_list_at k p) \<noteq> [] \<and>
     (\<forall>q<5. members M (ready_list_at k q) \<noteq> [] \<longrightarrow> q \<le> p)"

lemma ready_below_top:
  assumes ok: "sched_ok k M" and p: "p < 5" "members M (ready_list_at k p) \<noteq> []"
  shows "p \<le> uxTopReadyPriority k"
proof -
  obtain x where x: "x \<in> set (members M (ready_list_at k p))" using p(2) by (cases "members M (ready_list_at k p)") auto
  then obtain t where "x = gen t"
    using generic_itemE [OF ok layout_facts(2) [OF sched_parts(2) [OF ok] p(1)] x] by blast
  then show ?thesis using sched_parts(4) [OF ok] p(1) x unfolding ready_ok_def by blast
qed

lemma select_found:
  assumes ok: "sched_ok k M" and p: "p = uxTopReadyPriority k" "members M (ready_list_at k p) = x # xs"
  shows "\<exists>k' c. taskSELECT_HIGHEST_PRIORITY_TASK k = Some k' \<and> pxCurrentTCB k' = pvOwner (itm k x) \<and>
    sched_ok k' (M(ready_list_at k p \<mapsto> c)) \<and> snd c @ fst c = xs @ [x] \<and> itm k' = itm k \<and> tcb k' = tcb k \<and>
    ready_list_at k' = ready_list_at k"
proof -
  let ?l = "ready_list_at k p"
  have p5: "p < 5" and lo: "lists_ok k M" and ly: "layout k M"
    using ok p(1) by (auto simp: sched_ok_def ready_ok_def)
  have ld: "?l \<in> dom M" using layout_facts(1) [OF ly p5] .
  then obtain pre post where m: "M ?l = Some (pre, post)" "post @ pre = x # xs"
    using p(2) by (auto simp: members_def)
  obtain c where c: "lists_ok (snd (listGET_OWNER_OF_NEXT_ENTRY ?l k)) (M(?l \<mapsto> c))"
    "snd c @ fst c = xs @ [x]" "fst (listGET_OWNER_OF_NEXT_ENTRY ?l k) = pvOwner (itm k x)"
    using lists_next [OF lo m] by blast
  define k' where "k' = (snd (listGET_OWNER_OF_NEXT_ENTRY ?l k))\<lparr>pxCurrentTCB := pvOwner (itm k x)\<rparr>"
  have "\<not> list_empty ?l k" using lists_empty [OF lo ld] p(2) by (simp add: in_order_Nil)
  then have sel: "taskSELECT_HIGHEST_PRIORITY_TASK k = Some k'"
    using c(3) p(1) by (subst taskSELECT_HIGHEST_PRIORITY_TASK.simps) (simp add: k'_def split_beta)
  have f: "ready_list_at k' = ready_list_at k" "task_lists k' = task_lists k"
    by (simp_all add: k'_def ready_list_at_def fun_eq_iff task_lists_def)
  have mem: "set (members (M(?l \<mapsto> c)) l) = set (members M l)" for l
    using arg_cong [OF c(2), of set] p(2) by (auto simp: members_upd)
  have "lists_ok k' (M(?l \<mapsto> c))" using c(1) by (subst lists_ok_cong) (auto simp: k'_def)
  moreover have "ready_ok k' (M(?l \<mapsto> c))"
    using sched_parts(4) [OF ok] unfolding ready_ok_def mem f by (simp add: k'_def)
  ultimately have "sched_ok k' (M(?l \<mapsto> c))"
    using ld layout_facts(3) [OF ly p5] f
    by (intro sched_ok_cong [OF ok]) (auto simp: mem k'_def in_order_upd)
  then show ?thesis using sel c(2) f(1) by (intro exI [of _ k'] exI [of _ c]) (auto simp: k'_def)
qed

lemma select_skip:
  assumes ok: "sched_ok k M" and e: "members M (ready_list_at k (uxTopReadyPriority k)) = []"
    and ne: "p < 5" "members M (ready_list_at k p) \<noteq> []"
  shows "taskSELECT_HIGHEST_PRIORITY_TASK k =
      taskSELECT_HIGHEST_PRIORITY_TASK (k\<lparr>uxTopReadyPriority := uxTopReadyPriority k - 1\<rparr>)"
    "sched_ok (k\<lparr>uxTopReadyPriority := uxTopReadyPriority k - 1\<rparr>) M"
    "unat (uxTopReadyPriority k - 1) < unat (uxTopReadyPriority k)"
proof -
  let ?t = "uxTopReadyPriority k" and ?k = "k\<lparr>uxTopReadyPriority := uxTopReadyPriority k - 1\<rparr>"
  have t5: "?t < 5" and lo: "lists_ok k M" and ly: "layout k M" and r: "ready_ok k M"
    using ok by (auto simp: sched_ok_def ready_ok_def)
  have "in_order M (ready_list_at k ?t) = []" using e by (simp add: in_order_Nil)
  then have "list_empty (ready_list_at k ?t) k" using lists_empty [OF lo layout_facts(1) [OF ly t5]] by blast
  then show "taskSELECT_HIGHEST_PRIORITY_TASK k = taskSELECT_HIGHEST_PRIORITY_TASK ?k"
    by (subst taskSELECT_HIGHEST_PRIORITY_TASK.simps) simp
  have "p \<le> ?t" "p \<noteq> ?t" using ready_below_top [OF ok ne] ne e by auto
  then have "p < ?t" by simp
  then have t: "?t \<noteq> 0" by auto
  then have "0 < unat ?t" by (simp add: unat_gt_0)
  then show "unat (?t - 1) < unat ?t" using t by (simp add: unat_minus_one)
  have d: "q \<le> ?t - 1" if "q \<le> ?t" "q \<noteq> ?t" for q :: u32
    using that t by (simp add: word_le_nat_alt unat_minus_one word_unat_eq_iff)
  have "?t - 1 < 5" using t5 t by (simp add: word_less_nat_alt unat_minus_one)
  moreover have "prio k u = q \<and> q \<le> ?t - 1" if q: "q < 5" "gen u \<in> set (members M (ready_list_at k q))" for q u
  proof -
    have "prio k u = q" "q \<le> ?t" using r q unfolding ready_ok_def by blast+
    moreover have "q \<noteq> ?t" using q(2) e by force
    ultimately show ?thesis using d by blast
  qed
  ultimately have "ready_ok ?k M" unfolding ready_ok_def ready_list_at_def by simp
  moreover have "lists_ok ?k M" using lo by (subst lists_ok_cong) auto
  ultimately show "sched_ok ?k M"
    by (intro sched_ok_cong [OF ok]) (auto simp: task_lists_def ready_list_at_def)
qed

lemma select_runs:
  assumes "sched_ok k M" "top_priority k M p" "members M (ready_list_at k p) = x # xs"
  shows "\<exists>k' c. taskSELECT_HIGHEST_PRIORITY_TASK k = Some k' \<and> pxCurrentTCB k' = pvOwner (itm k x) \<and>
    sched_ok k' (M(ready_list_at k p \<mapsto> c)) \<and> snd c @ fst c = xs @ [x] \<and> itm k' = itm k \<and> tcb k' = tcb k \<and>
    ready_list_at k' = ready_list_at k"
  using assms
proof (induction "unat (uxTopReadyPriority k)" arbitrary: k rule: less_induct)
  case less
  have p: "p < 5" using less.prems(2) by (simp add: top_priority_def)
  have le: "p \<le> uxTopReadyPriority k" using ready_below_top [OF less.prems(1) p] less.prems(3) by simp
  show ?case
  proof (cases "p = uxTopReadyPriority k")
    case True
    then show ?thesis using select_found [OF less.prems(1) True less.prems(3)] by blast
  next
    case False
    let ?t = "uxTopReadyPriority k" and ?k = "k\<lparr>uxTopReadyPriority := uxTopReadyPriority k - 1\<rparr>"
    have "?t < 5" using less.prems(1) by (simp add: sched_ok_def ready_ok_def)
    then have e: "members M (ready_list_at k ?t) = []"
      using less.prems(2) le False unfolding top_priority_def by (meson order_antisym)
    note S = select_skip [OF less.prems(1) e p] less.prems(3)
    have r: "ready_list_at ?k = ready_list_at k" by (simp add: ready_list_at_def fun_eq_iff)
    have "\<exists>k' c. taskSELECT_HIGHEST_PRIORITY_TASK ?k = Some k' \<and> pxCurrentTCB k' = pvOwner (itm ?k x) \<and>
      sched_ok k' (M(ready_list_at ?k p \<mapsto> c)) \<and> snd c @ fst c = xs @ [x] \<and> itm k' = itm ?k \<and> tcb k' = tcb ?k \<and>
      ready_list_at k' = ready_list_at ?k"
      by (rule less.hyps) (use S less.prems(2,3) in \<open>simp_all add: r top_priority_def\<close>)
    then show ?thesis using S r by simp
  qed
qed

section \<open>Moving one task\<close>

text \<open>The parts of the state that no move changes.\<close>

definition same_frame :: "u32 \<Rightarrow> 'a kernel_scheme \<Rightarrow> 'a kernel_scheme \<Rightarrow> bool" where
  "same_frame t k k' \<longleftrightarrow>
     task_lists k' = task_lists k \<and> ready_list_at k' = ready_list_at k \<and> xPendingReadyList k' = xPendingReadyList k \<and>
     xDelayedTaskList1 k' = xDelayedTaskList1 k \<and> xDelayedTaskList2 k' = xDelayedTaskList2 k \<and>
     xSuspendedTaskList k' = xSuspendedTaskList k \<and> xTasksWaitingTermination k' = xTasksWaitingTermination k \<and>
     pxDelayedTaskList k' = pxDelayedTaskList k \<and> pxOverflowDelayedTaskList k' = pxOverflowDelayedTaskList k \<and>
     xTickCount k' = xTickCount k \<and> xNextTaskUnblockTime k' = xNextTaskUnblockTime k \<and>
     uxSchedulerSuspended k' = uxSchedulerSuspended k \<and> uxMissedTicks k' = uxMissedTicks k \<and>
     pxCurrentTCB k' = pxCurrentTCB k \<and> uxCurrentNumberOfTasks k' = uxCurrentNumberOfTasks k \<and>
     xNumOfOverflows k' = xNumOfOverflows k \<and> xMissedYield k' = xMissedYield k \<and>
     (\<forall>y. pvOwner (itm k' y) = pvOwner (itm k y)) \<and>
     (\<forall>y. y \<noteq> gen t \<longrightarrow> y \<noteq> evt t \<longrightarrow> pvContainer (itm k' y) = pvContainer (itm k y) \<and> val k' y = val k y) \<and>
     (\<forall>u. u \<noteq> t \<longrightarrow> prio k' u = prio k u)"

lemma sorted_remove1: "sorted (map f xs) \<Longrightarrow> sorted (map f (remove1 x xs))"
  by (induction xs) (auto dest!: set_mp [OF set_remove1_subset])

lemma sched_move:
  assumes ok: "sched_ok k M" and t: "task_ok k M t" and ok': "lists_ok k' M'" and d: "dom M' = dom M"
    and fr: "same_frame t k k'" and pr: "prio k' t < 5"
    and mem: "\<And>y l. y \<noteq> gen t \<Longrightarrow> y \<noteq> evt t \<Longrightarrow> y \<in> set (members M' l) \<longleftrightarrow> y \<in> set (members M l)"
    and L: "L \<in> set (task_lists k)" "gen t \<in> set (members M' L)"
      "\<And>q. q < 5 \<Longrightarrow> L = ready_list_at k q \<Longrightarrow> q = prio k' t \<and> q \<le> uxTopReadyPriority k'"
    and E: "pvContainer (itm k' (evt t)) = 0 \<and> free_item M' (evt t) \<or>
      (\<exists>e. e \<notin> set (task_lists k) \<and> evt t \<in> set (members M' e))"
    and top: "uxTopReadyPriority k \<le> uxTopReadyPriority k'" "uxTopReadyPriority k' < 5"
    and s: "sleep_ok k' M'"
  shows "sched_ok k' M'"
proof -
  note f = fr [unfolded same_frame_def]
  have ly: "layout k M" using sched_parts(2) [OF ok] .
  have it: "items_ok k' M'" "task_ok k' M' t"
    using items_ok_move [OF sched_parts(1) [OF ok] sched_parts(3) [OF ok] t ok', of L] f d layout_facts(5,9) [OF ly] pr mem L(1,2) E
    by simp_all
  have "layout k' M'" using ly f d unfolding layout_def by simp
  moreover have "ready_ok k' M'"
    unfolding ready_ok_def
  proof (intro conjI allI impI)
    fix q u assume q: "q < 5" "gen u \<in> set (members M' (ready_list_at k' q))"
    have rl: "ready_list_at k' q = ready_list_at k q" using f by simp
    have "prio k' u = q \<and> q \<le> uxTopReadyPriority k'"
    proof (cases "u = t")
      case True
      then have "L = ready_list_at k q" using member_unique [OF ok' L(2)] q(2) rl by simp
      from L(3) [OF q(1) this] show ?thesis using True by blast
    next
      case False
      have "\<exists>u'. gen u = gen u' \<and> task_ok k' M' u'"
        using it(1) q(2) layout_facts(2) [OF ly q(1)] f rl unfolding items_ok_def by metis
      then have "gen u \<noteq> evt t" using task_ok_gen_evt [OF _ it(2)] by auto
      then have "gen u \<in> set (members M (ready_list_at k q))" using mem [of "gen u"] False q(2) rl by auto
      then have "prio k u = q \<and> q \<le> uxTopReadyPriority k" using sched_parts(4) [OF ok] q(1) unfolding ready_ok_def by blast
      then show ?thesis using f False top(1) by auto
    qed
    then show "prio k' u = q" "q \<le> uxTopReadyPriority k'" by auto
  qed (rule top(2))
  ultimately show ?thesis using ok' it(1) s by (simp add: sched_ok_def)
qed

text \<open>Sorting by wake time is not disturbed by a task that leaves.\<close>

lemma sleeper_kept:
  assumes ok: "sched_ok k M" and t: "task_ok k M t" and fr: "same_frame t k k'"
    and D: "D \<in> {pxDelayedTaskList k, pxOverflowDelayedTaskList k}" and x: "x \<in> set (remove1 (gen t) (in_order M D))"
  shows "val k' x = val k x"
proof -
  have x: "x \<in> set (members M D)" "x \<noteq> gen t"
    using x lists_distinct [OF sched_parts(1) [OF ok], of D] by (auto simp: set_remove1_eq)
  have "D \<in> set (task_lists k)" using layout_facts(4) [OF sched_parts(2) [OF ok]] D by blast
  from generic_itemE [OF ok this x(1)] obtain u where u: "x = gen u" "task_ok k M u" by metis
  then have "x \<noteq> evt t" using task_ok_gen_evt [OF u(2) t] by simp
  then show ?thesis using fr x(2) by (simp add: same_frame_def)
qed

lemma sorted_kept:
  assumes ok: "sched_ok k M" and t: "task_ok k M t" and fr: "same_frame t k k'"
    and D: "D \<in> {pxDelayedTaskList k, pxOverflowDelayedTaskList k}"
  shows "sorted (map (val k') (remove1 (gen t) (in_order M D)))"
proof -
  have "sorted (map (val k) (remove1 (gen t) (in_order M D)))"
    using sched_parts(5) [OF ok] D by (auto simp: sleep_ok_def intro: sorted_remove1)
  moreover have "map (val k') (remove1 (gen t) (in_order M D)) = map (val k) (remove1 (gen t) (in_order M D))"
    by (rule map_cong [OF refl sleeper_kept [OF ok t fr D]])
  ultimately show ?thesis by metis
qed

lemma sleep_ok_left:
  assumes ok: "sched_ok k M" and t: "task_ok k M t" and fr: "same_frame t k k'"
    and s: "\<And>D. D \<in> {pxDelayedTaskList k, pxOverflowDelayedTaskList k} \<Longrightarrow> in_order M' D = remove1 (gen t) (in_order M D)"
  shows "sleep_ok k' M'"
proof -
  have "sorted (map (val k') (in_order M' D))" if D: "D \<in> {pxDelayedTaskList k, pxOverflowDelayedTaskList k}" for D
    unfolding s [OF D] by (rule sorted_kept [OF ok t fr D])
  then show ?thesis using fr unfolding sleep_ok_def same_frame_def by auto
qed

lemma event_item_kept:
  assumes "task_ok k M t" "pvContainer (itm k' (evt t)) = pvContainer (itm k (evt t))" "dom M' = dom M"
    "\<And>l. evt t \<in> set (members M' l) \<longleftrightarrow> evt t \<in> set (members M l)"
  shows "pvContainer (itm k' (evt t)) = 0 \<and> free_item M' (evt t) \<or> (\<exists>e. e \<notin> set (task_lists k) \<and> evt t \<in> set (members M' e))"
proof (cases "pvContainer (itm k (evt t)) = 0")
  case True
  then have "free_item M (evt t)" using assms(1) by (simp add: task_ok_def)
  then show ?thesis using True assms(2-4) by (simp add: free_item_members)
next
  case False
  then show ?thesis using assms(1,4) unfolding task_ok_def by metis
qed

text \<open>Adding a task to the ready list of its priority.\<close>

lemma prvAddTaskToReadyQueue_eq:
  "prvAddTaskToReadyQueue t k =
    vListInsertEnd (ready_list_at k (prio k t)) (gen t) (k\<lparr>uxTopReadyPriority := max (prio k t) (uxTopReadyPriority k)\<rparr>)"
  by (simp add: prvAddTaskToReadyQueue_def Let_def ready_list_at_def max_def not_less)

lemma upd_top_frame [simp]:
  "ready_list_at (k\<lparr>uxTopReadyPriority := p\<rparr>) = ready_list_at k"
  "task_lists (k\<lparr>uxTopReadyPriority := p\<rparr>) = task_lists k"
  by (simp_all add: ready_list_at_def fun_eq_iff task_lists_def)

lemma same_frame_refl [simp]: "same_frame t k k"
  by (simp add: same_frame_def)

lemma same_frame_trans: "same_frame t k k' \<Longrightarrow> same_frame t k' k'' \<Longrightarrow> same_frame t k k''"
  by (simp add: same_frame_def)

lemma add_ready_frame [simp]:
  "same_frame t k (prvAddTaskToReadyQueue t k)" "tcb (prvAddTaskToReadyQueue t k) = tcb k"
  "val (prvAddTaskToReadyQueue t k) = val k"
  "uxTopReadyPriority (prvAddTaskToReadyQueue t k) = max (prio k t) (uxTopReadyPriority k)"
  by (simp_all add: prvAddTaskToReadyQueue_eq same_frame_def fun_eq_iff)

lemma remove_frame [simp]:
  "same_frame t k (remove_generic t k)" "tcb (remove_generic t k) = tcb k" "val (remove_generic t k) = val k"
  "uxTopReadyPriority (remove_generic t k) = uxTopReadyPriority k"
  "same_frame t k (remove_event t k)" "tcb (remove_event t k) = tcb k" "val (remove_event t k) = val k"
  "uxTopReadyPriority (remove_event t k) = uxTopReadyPriority k"
  by (simp_all add: remove_generic_def remove_event_def same_frame_def fun_eq_iff)

lemma remove_containers [simp]:
  "pvContainer (itm (remove_generic t k) y) = (if y = gen t then 0 else pvContainer (itm k y))"
  "pvContainer (itm (remove_event t k) y) = (if y = evt t then 0 else pvContainer (itm k y))"
  "pvContainer (itm (prvAddTaskToReadyQueue t k) y) = (if y = gen t then ready_list_at k (prio k t) else pvContainer (itm k y))"
  by (simp_all add: remove_generic_def remove_event_def prvAddTaskToReadyQueue_eq)

text \<open>Taking both items of a task off their lists.\<close>

definition take_out :: "'a kernel_scheme \<Rightarrow> u32 \<Rightarrow> list_map \<Rightarrow> list_map" where
  "take_out k t M =
    (let M = drop_item (pvContainer (itm k (gen t))) (gen t) M
     in if pvContainer (itm k (evt t)) = 0 then M else drop_item (pvContainer (itm k (evt t))) (evt t) M)"

lemma on_list_task:
  assumes "sched_ok k M" "gen t \<in> set (members M l)" "l \<in> set (task_lists k)"
  shows "task_ok k M t" "pvContainer (itm k (gen t)) = l" "l \<in> dom M"
proof -
  have "\<exists>u. gen t = gen u \<and> task_ok k M u" using assms unfolding sched_ok_def items_ok_def by blast
  then show "task_ok k M t" by auto
  show "pvContainer (itm k (gen t)) = l" using member_container [OF sched_parts(1) [OF assms(1)] assms(2)] .
  show "l \<in> dom M" using layout_facts(5) [OF sched_parts(2) [OF assms(1)]] assms(3) by blast
qed

lemma drop_generic:
  assumes ok: "sched_ok k M" and t: "gen t \<in> set (members M l)" "l \<in> set (task_lists k)"
  defines "M' \<equiv> drop_item l (gen t) M"
  shows "lists_ok (remove_generic t k) M'" "free_item M' (gen t)" "dom M' = dom M"
    "members M' l' = remove1 (gen t) (members M l')" "in_order M' l' = remove1 (gen t) (in_order M l')"
    "set (members M' l') = set (members M l') - {gen t}"
proof -
  have lo: "lists_ok k M" and l: "l \<in> dom M" using sched_parts(1) [OF ok] on_list_task(3) [OF ok t] .
  show "lists_ok (remove_generic t k) M'" "free_item M' (gen t)"
    using drop_ok [OF lo t(1)] by (simp_all add: remove_generic_def M'_def)
  show "dom M' = dom M" using l by (simp add: M'_def)
  have other: "gen t \<notin> set (members M l')" if "l' \<noteq> l" for l' using member_unique [OF lo t(1)] that by blast
  then show "members M' l' = remove1 (gen t) (members M l')" "in_order M' l' = remove1 (gen t) (in_order M l')"
    using members_drop [OF lo l, of "gen t" l'] by (auto simp: M'_def remove1_idem)
  show "set (members M' l') = set (members M l') - {gen t}"
    using set_drop [OF lo l, of "gen t" l'] other [of l'] by (auto simp: M'_def)
qed

lemma take_out_ok:
  assumes ok: "sched_ok k M" and t: "gen t \<in> set (members M l)" "l \<in> set (task_lists k)"
  defines "k' \<equiv> remove_event t (remove_generic t k)" and "M' \<equiv> take_out k t M"
  shows "lists_ok k' M'" "dom M' = dom M" "free_item M' (gen t)" "free_item M' (evt t)"
    "set (members M' l') = set (members M l') - {gen t, evt t}"
    "l' \<in> set (task_lists k) \<Longrightarrow> members M' l' = remove1 (gen t) (members M l')"
    "l' \<in> set (task_lists k) \<Longrightarrow> in_order M' l' = remove1 (gen t) (in_order M l')"
proof -
  note T = on_list_task [OF ok t]
  have lo: "lists_ok k M" using sched_parts(1) [OF ok] .
  let ?k1 = "remove_generic t k" and ?M1 = "drop_item l (gen t) M"
  note G = drop_generic [OF ok t]
  note 1 = G(1,2) and d1 = G(3) and m1 = G(4,5) and s1 = G(6)
  let ?e = "pvContainer (itm k (evt t))"
  have "lists_ok k' M' \<and> dom M' = dom M \<and> free_item M' (gen t) \<and> free_item M' (evt t) \<and>
    (\<forall>l'. set (members M' l') = set (members M l') - {gen t, evt t}) \<and>
    (\<forall>l'\<in>set (task_lists k). members M' l' = remove1 (gen t) (members M l') \<and> in_order M' l' = remove1 (gen t) (in_order M l'))"
  proof (cases "?e = 0")
    case True
    then have f: "free_item M (evt t)" using T(1) by (simp add: task_ok_def)
    have "evt t \<notin> set (members M l')" for l' using f by (rule free_not_member)
    moreover have "free_item ?M1 (evt t)" using free_drop [OF lo T(3) f] .
    moreover have "k' = ?k1" "M' = ?M1" using True T(2) by (simp_all add: k'_def M'_def take_out_def remove_event_def)
    ultimately show ?thesis using 1 d1 m1 s1 by auto
  next
    case False
    then have e: "evt t \<in> set (members M ?e)" "?e \<notin> set (task_lists k)" using T(1) by (simp_all add: task_ok_def)
    then have e1: "evt t \<in> set (members ?M1 ?e)" "?e \<in> dom ?M1" using s1 [of ?e] d1 by (auto simp: member_dest)
    let ?M2 = "drop_item ?e (evt t) ?M1"
    have 2: "lists_ok k' ?M2" "free_item ?M2 (evt t)" "k' = snd (uxListRemove (evt t) ?k1)"
      using drop_ok [OF 1(1) e1(1)] False by (simp_all add: k'_def remove_event_def)
    have ev_other: "evt t \<notin> set (members M l')" if "l' \<noteq> ?e" for l' using member_unique [OF lo e(1)] that by blast
    have "set (members ?M2 l') = set (members M l') - {gen t, evt t}" for l'
      using set_drop [OF 1(1) e1(2), of "evt t" l'] s1 [of l'] ev_other [of l'] by auto
    moreover have "members ?M2 l' = members ?M1 l'" "in_order ?M2 l' = in_order ?M1 l'" if "l' \<in> set (task_lists k)" for l'
      using members_drop [OF 1(1) e1(2), of "evt t" l'] that e(2) by auto
    moreover have "M' = ?M2" using False T(2) by (simp add: M'_def take_out_def)
    ultimately show ?thesis using 2 free_drop [OF 1(1) e1(2) 1(2)] d1 e1(2) m1 by auto
  qed
  then show "lists_ok k' M'" "dom M' = dom M" "free_item M' (gen t)" "free_item M' (evt t)"
    "set (members M' l') = set (members M l') - {gen t, evt t}"
    "l' \<in> set (task_lists k) \<Longrightarrow> members M' l' = remove1 (gen t) (members M l')"
    "l' \<in> set (task_lists k) \<Longrightarrow> in_order M' l' = remove1 (gen t) (in_order M l')" by blast+
qed

text \<open>The two ways a blocked task becomes ready again.\<close>

definition make_ready :: "'a kernel_scheme \<Rightarrow> u32 \<Rightarrow> list_map \<Rightarrow> list_map" where
  "make_ready k t M = push (ready_list_at k (prio k t)) (gen t) (take_out k t M)"

lemma push_top_ok:
  assumes "lists_ok k M" "ready_list_at k (prio k t) \<in> dom M" "free_item M (gen t)"
  shows "lists_ok (prvAddTaskToReadyQueue t k) (push (ready_list_at k (prio k t)) (gen t) M)"
  unfolding prvAddTaskToReadyQueue_eq
proof (rule push_ok [OF _ assms(2,3)])
  show "lists_ok (k\<lparr>uxTopReadyPriority := max (prio k t) (uxTopReadyPriority k)\<rparr>) M"
    using assms(1) by (subst lists_ok_cong [where k = k]) simp_all
qed

text \<open>\<open>k1\<close> is the state in which both items of the task are off their lists.\<close>

lemma make_ready_from:
  assumes ok: "sched_ok k M" and t: "gen t \<in> set (members M l)" "l \<in> set (task_lists k)"
    and k1: "lists_ok k1 (take_out k t M)" "same_frame t k k1" "tcb k1 = tcb k" "val k1 = val k"
      "uxTopReadyPriority k1 = uxTopReadyPriority k" "pvContainer (itm k1 (evt t)) = 0"
  defines "k' \<equiv> prvAddTaskToReadyQueue t k1" and "M' \<equiv> make_ready k t M"
  shows "sched_ok k' M'" "dom M' = dom M" "same_frame t k k'" "tcb k' = tcb k" "val k' = val k"
    "l' \<in> set (task_lists k) \<Longrightarrow> members M' l' =
      remove1 (gen t) (members M l') @ (if l' = ready_list_at k (prio k t) then [gen t] else [])"
    "l' \<in> {pxDelayedTaskList k, pxOverflowDelayedTaskList k} \<Longrightarrow> in_order M' l' = remove1 (gen t) (in_order M l')"
    "set (members M' l') = set (members M l') - {gen t, evt t} \<union> (if l' = ready_list_at k (prio k t) then {gen t} else {})"
proof -
  note T = on_list_task [OF ok t]
  note O = take_out_ok [OF ok t]
  let ?M1 = "take_out k t M" and ?r = "ready_list_at k (prio k t)"
  have ly: "layout k M" using sched_parts(2) [OF ok] .
  have p5: "prio k t < 5" using T(1) by (simp add: task_ok_def)
  have r: "?r \<in> dom M" "?r \<in> set (task_lists k)" "?r \<notin> {pxDelayedTaskList k, pxOverflowDelayedTaskList k}"
    using layout_facts(1-3) [OF ly p5] by auto
  have f: "same_frame t k k'" unfolding k'_def by (rule same_frame_trans [OF k1(2)]) simp
  have r1: "ready_list_at k1 (prio k1 t) = ?r" using k1(2,3) by (simp add: same_frame_def)
  have lo: "lists_ok k' M'"
    using push_top_ok [OF k1(1), of t] O(2,3) r(1) unfolding r1 k'_def M'_def make_ready_def by simp
  have dm: "dom M' = dom M" using O(2) r(1) by (simp add: M'_def make_ready_def)
  have mm: "members M' l = members ?M1 l @ (if l = ?r then [gen t] else [])" for l
    using O(2) r(1) by (simp add: M'_def make_ready_def)
  then show ms: "set (members M' l') = set (members M l') - {gen t, evt t} \<union> (if l' = ?r then {gen t} else {})" for l'
    using O(5) [of l'] by auto
  show ml: "members M' l' = remove1 (gen t) (members M l') @ (if l' = ?r then [gen t] else [])" if "l' \<in> set (task_lists k)" for l'
    using mm [of l'] O(6) [OF that] by simp
  show io: "in_order M' l' = remove1 (gen t) (in_order M l')" if "l' \<in> {pxDelayedTaskList k, pxOverflowDelayedTaskList k}" for l'
  proof -
    have "l' \<in> set (task_lists k)" "l' \<noteq> ?r" using that layout_facts(4) [OF ly] r(3) by auto
    then show ?thesis using O(2) O(7) [of l'] r(1) by (simp add: M'_def make_ready_def in_order_push)
  qed
  have "ready_ok k M" using sched_parts(4) [OF ok] .
  then have top: "uxTopReadyPriority k \<le> uxTopReadyPriority k'" "uxTopReadyPriority k' < 5" "prio k t \<le> uxTopReadyPriority k'"
    using p5 k1(3,5) by (simp_all add: k'_def ready_ok_def)
  have tcb: "tcb k' = tcb k" by (simp add: k'_def k1(3))
  show "sched_ok k' M'"
  proof (rule sched_move [OF ok T(1) lo dm f _ _ r(2) _ _ disjI1 top(1,2) sleep_ok_left [OF ok T(1) f io]])
    show "pvContainer (itm k' (evt t)) = 0 \<and> free_item M' (evt t)"
      using O(2,4) r(1) k1(6) by (simp add: k'_def M'_def make_ready_def free_push)
    show "q = prio k' t \<and> q \<le> uxTopReadyPriority k'" if "q < 5" "?r = ready_list_at k q" for q
      using ready_list_neq [OF p5 that(1)] that(2) tcb top(3) by auto
  qed (use tcb p5 ms in auto)
  show "dom M' = dom M" "same_frame t k k'" "tcb k' = tcb k" "val k' = val k" using dm f tcb k1(4) by (simp_all add: k'_def)
qed

lemma removed_gen_evt:
  "same_frame t k (remove_event t (remove_generic t k))" "tcb (remove_event t (remove_generic t k)) = tcb k"
  "val (remove_event t (remove_generic t k)) = val k"
  "uxTopReadyPriority (remove_event t (remove_generic t k)) = uxTopReadyPriority k"
  "pvContainer (itm (remove_event t (remove_generic t k)) (evt t)) = 0"
  by (simp_all add: same_frame_def remove_generic_def remove_event_def fun_eq_iff)

lemma removed_evt_gen:
  "same_frame t k (remove_generic t (snd (uxListRemove (evt t) k)))"
  "tcb (remove_generic t (snd (uxListRemove (evt t) k))) = tcb k"
  "val (remove_generic t (snd (uxListRemove (evt t) k))) = val k"
  "uxTopReadyPriority (remove_generic t (snd (uxListRemove (evt t) k))) = uxTopReadyPriority k"
  "pvContainer (itm (remove_generic t (snd (uxListRemove (evt t) k))) (evt t)) = 0"
  by (simp_all add: same_frame_def remove_generic_def fun_eq_iff)

lemma drop_commute: "l \<noteq> e \<Longrightarrow> drop_item e y (drop_item l x M) = drop_item l x (drop_item e y M)"
  by (simp add: drop_item_def fun_upd_twist)

lemma take_out_alt:
  assumes ok: "sched_ok k M" and t: "gen t \<in> set (members M l)" "l \<in> set (task_lists k)"
    and e: "evt t \<in> set (members M e)"
  shows "lists_ok (remove_generic t (snd (uxListRemove (evt t) k))) (take_out k t M)"
proof -
  note T = on_list_task [OF ok t]
  have lo: "lists_ok k M" using sched_parts(1) [OF ok] .
  have c: "pvContainer (itm k (evt t)) = e" using member_container [OF lo e] .
  have ed: "e \<in> dom M" "e \<noteq> 0" using e layout_facts(9) [OF sched_parts(2) [OF ok]] by (auto simp: member_dest)
  then have le: "l \<noteq> e" using T(1) c t(2) by (auto simp: task_ok_def)
  let ?M1 = "drop_item e (evt t) M"
  have 1: "lists_ok (snd (uxListRemove (evt t) k)) ?M1" using drop_ok(1) [OF lo e] .
  have "gen t \<in> set (members ?M1 l)" using set_drop [OF lo ed(1), of "evt t" l] le t(1) by simp
  then have "lists_ok (remove_generic t (snd (uxListRemove (evt t) k))) (drop_item l (gen t) ?M1)"
    unfolding remove_generic_def by (rule drop_ok(1) [OF 1])
  then show ?thesis using T(2) c ed(2) le by (simp add: take_out_def drop_commute)
qed

end
