(* ===== verification/Sched_Ticks.thy ===== *)
theory Sched_Ticks
  imports Sched_Inv
begin

text \<open>
  Time: the tick interrupt wakes exactly the tasks whose time has come, across the wrap-around of
  the tick counter, and \<open>xTaskResumeAll\<close> moves the pending tasks and replays the ticks that were
  missed while the scheduler was suspended.
\<close>

section \<open>The tick\<close>

lemma head_entry:
  assumes "lists_ok k M" "in_order M l = x # xs"
  shows "listGET_OWNER_OF_HEAD_ENTRY l k = pvOwner (itm k x)"
proof -
  obtain c where c: "M l = Some c" "fst c @ snd c = x # xs" using assms(2) by (cases "M l") (auto simp: in_order_def)
  then have "ring k (xListEnd l) (x # xs)" using lists_okD [OF assms(1) c(1)] by (simp add: list_rep_def)
  then show ?thesis using ring_neighbours(1) [of k "xListEnd l" "[]" "x # xs"]
    by (simp add: listGET_OWNER_OF_HEAD_ENTRY_def)
qed

lemma sched_ok_upd:
  assumes "sched_ok k M" "itm k' = itm k" "lst k' = lst k" "tcb k' = tcb k" "uxTopReadyPriority k' = uxTopReadyPriority k"
    "pxReadyTasksLists k' = pxReadyTasksLists k" "xPendingReadyList k' = xPendingReadyList k"
    "xDelayedTaskList1 k' = xDelayedTaskList1 k" "xDelayedTaskList2 k' = xDelayedTaskList2 k"
    "xTasksWaitingTermination k' = xTasksWaitingTermination k" "xSuspendedTaskList k' = xSuspendedTaskList k"
    "pxDelayedTaskList k' = pxDelayedTaskList k" "pxOverflowDelayedTaskList k' = pxOverflowDelayedTaskList k"
  shows "sched_ok k' M"
proof (rule sched_ok_cong [OF assms(1)])
  have r: "ready_list_at k' = ready_list_at k" using assms(6) by (simp add: ready_list_at_def fun_eq_iff)
  then show "task_lists k' = task_lists k" using assms by (simp add: task_lists_def)
  show "ready_ok k' M" using sched_parts(4) [OF assms(1)] unfolding ready_ok_def r assms(4,5) .
  show "lists_ok k' M" using sched_parts(1) [OF assms(1)] lists_ok_cong [OF assms(2,3)] by blast
qed (use assms in simp_all)

lemma sched_ok_fields:
  assumes "sched_ok k M"
  shows "sched_ok (k\<lparr>xNextTaskUnblockTime := v\<rparr>) M" "sched_ok (k\<lparr>xTickCount := w\<rparr>) M"
    "sched_ok (k\<lparr>uxMissedTicks := w\<rparr>) M" "sched_ok (k\<lparr>uxSchedulerSuspended := w\<rparr>) M" "sched_ok (k\<lparr>pendsv := b\<rparr>) M"
    "sched_ok (k\<lparr>xMissedYield := b\<rparr>) M" "sched_ok (k\<lparr>pxCurrentTCB := v\<rparr>) M"
  by (rule sched_ok_upd [OF assms]; simp)+

text \<open>
  Waking the due tasks: those at the front of the sorted list whose time is not after the
  current tick go to the ready lists, in order.
\<close>

definition due :: "'a kernel_scheme \<Rightarrow> list_map \<Rightarrow> u32 list" where
  "due k M = takeWhile (\<lambda>x. val k x \<le> xTickCount k) (in_order M (pxDelayedTaskList k))"

definition tick_frame :: "'a kernel_scheme \<Rightarrow> 'a kernel_scheme \<Rightarrow> bool" where
  "tick_frame k k' \<longleftrightarrow>
     tcb k' = tcb k \<and> task_lists k' = task_lists k \<and> ready_list_at k' = ready_list_at k \<and>
     xTickCount k' = xTickCount k \<and> pxDelayedTaskList k' = pxDelayedTaskList k \<and>
     pxOverflowDelayedTaskList k' = pxOverflowDelayedTaskList k \<and> uxMissedTicks k' = uxMissedTicks k \<and>
     uxSchedulerSuspended k' = uxSchedulerSuspended k \<and> pxCurrentTCB k' = pxCurrentTCB k \<and>
     xPendingReadyList k' = xPendingReadyList k \<and> xSuspendedTaskList k' = xSuspendedTaskList k \<and>
     uxCurrentNumberOfTasks k' = uxCurrentNumberOfTasks k \<and> xNumOfOverflows k' = xNumOfOverflows k \<and> xMissedYield k' = xMissedYield k \<and>
     (\<forall>y. pvOwner (itm k' y) = pvOwner (itm k y) \<and> val k' y = val k y)"

definition woken :: "'a kernel_scheme \<Rightarrow> list_map \<Rightarrow> list_map \<Rightarrow> bool" where
  "woken k M M' \<longleftrightarrow>
     dom M' = dom M \<and>
     (\<forall>p<5. members M' (ready_list_at k p) =
        members M (ready_list_at k p) @ filter (\<lambda>x. prio k (pvOwner (itm k x)) = p) (due k M)) \<and>
     in_order M' (pxDelayedTaskList k) = dropWhile (\<lambda>x. val k x \<le> xTickCount k) (in_order M (pxDelayedTaskList k)) \<and>
     in_order M' (pxOverflowDelayedTaskList k) = in_order M (pxOverflowDelayedTaskList k) \<and>
     (\<forall>x l. (\<forall>y\<in>set (due k M). x \<noteq> y \<and> x \<noteq> evt (pvOwner (itm k y))) \<longrightarrow> x \<in> set (members M' l) \<longleftrightarrow> x \<in> set (members M l)) \<and>
     (\<forall>y\<in>set (due k M). \<forall>l. evt (pvOwner (itm k y)) \<notin> set (members M' l))"

lemma woken_refl: "due k M = [] \<Longrightarrow> woken k M M"
  by (simp add: woken_def due_def) (metis append_Nil takeWhile_dropWhile_id)

lemma woken_step:
  assumes ok: "sched_ok k M" and x: "in_order M (pxDelayedTaskList k) = gen t # xs" "val k (gen t) \<le> xTickCount k"
  defines "k1 \<equiv> prvAddTaskToReadyQueue t (remove_event t (remove_generic t k))" and "M1 \<equiv> make_ready k t M"
  assumes w: "woken k1 M1 M'"
  shows "woken k M M'" "tick_frame k k1"
proof -
  let ?D = "pxDelayedTaskList k" and ?O = "pxOverflowDelayedTaskList k"
  have ly: "layout k M" using sched_parts(2) [OF ok] .
  have D: "?D \<in> set (task_lists k)" "?O \<in> set (task_lists k)" "?D \<noteq> ?O" using layout_facts(4,8) [OF ly] by auto
  have tm: "gen t \<in> set (members M ?D)" using x(1) set_in_order [of M ?D] by (metis list.set_intros(1))
  note T = on_list_task [OF ok tm D(1)]
  have own: "pvOwner (itm k (gen t)) = t" using T(1) by (simp add: task_ok_def)
  note R = make_ready_from [OF ok tm D(1) take_out_ok(1) [OF ok tm D(1)] removed_gen_evt, folded k1_def M1_def]
  have f: "same_frame t k k1" using R(3) .
  have o: "gen t \<notin> set (members M l)" if "l \<noteq> ?D" for l using member_unique [OF sched_parts(1) [OF ok] tm] that by blast
  have "distinct (gen t # xs)" using lists_distinct [OF sched_parts(1) [OF ok], of ?D] x(1) by simp
  then have io: "in_order M1 ?D = xs" "in_order M1 ?O = in_order M ?O"
    using R(7) [of ?D] R(7) [of ?O] x(1) o [of ?O] D(3) by (simp_all add: remove1_idem)
  have v: "val k1 y = val k y" for y using fun_cong [OF R(5), of y] by simp
  have due: "due k M = gen t # due k1 M1" using x io(1) f by (simp add: due_def same_frame_def v)
  have ev: "pvOwner (itm k1 y) = pvOwner (itm k y)" for y using f by (simp add: same_frame_def)
  have rd: "members M1 (ready_list_at k p) = members M (ready_list_at k p) @ (if p = prio k t then [gen t] else [])" if "p < 5" for p
    using R(6) [OF layout_facts(2) [OF ly that]] o [of "ready_list_at k p"] layout_facts(3) [OF ly that]
      ready_list_neq [OF that, of "prio k t" k] T(1) by (simp add: remove1_idem task_ok_def)
  show tf: "tick_frame k k1" using f R(4) v by (simp add: tick_frame_def same_frame_def)
  have g: "ready_list_at k1 = ready_list_at k" "pxDelayedTaskList k1 = ?D" "pxOverflowDelayedTaskList k1 = ?O"
    "xTickCount k1 = xTickCount k" using tf by (simp_all add: tick_frame_def)
  note W = w [unfolded woken_def g v R(4) ev io R(2)]
  have "members M' (ready_list_at k p) = members M (ready_list_at k p) @ filter (\<lambda>x. prio k (pvOwner (itm k x)) = p) (due k M)"
    if "p < 5" for p using W rd [OF that] that own by (simp add: due)
  moreover have "x \<in> set (members M' l) \<longleftrightarrow> x \<in> set (members M l)"
    if "\<forall>y\<in>set (due k M). x \<noteq> y \<and> x \<noteq> evt (pvOwner (itm k y))" for x l
  proof -
    have "x \<in> set (members M' l) \<longleftrightarrow> x \<in> set (members M1 l)" using W that by (simp add: due)
    then show ?thesis using R(8) [of l] that own by (auto simp: due)
  qed
  moreover have "evt (pvOwner (itm k y)) \<notin> set (members M' l)" if y: "y \<in> set (due k M)" for y l
  proof (cases "y \<in> set (due k1 M1)")
    case True
    then show ?thesis using W by blast
  next
    case False
    then have "y = gen t" using y by (simp add: due)
    moreover have "evt t \<notin> set (members M1 l)" using R(8) [of l] by auto
    moreover have "evt t \<noteq> z \<and> evt t \<noteq> evt (pvOwner (itm k z))" if z: "z \<in> set (due k1 M1)" for z
    proof -
      have "z \<in> set xs" using z io(1) f by (auto simp: due_def same_frame_def dest: set_takeWhileD)
      then have zm: "z \<in> set (members M ?D)" "z \<noteq> gen t" using x(1) set_in_order [of M ?D] \<open>distinct (gen t # xs)\<close> by force+
      obtain u where u: "z = gen u" "task_ok k M u" using generic_itemE [OF ok D(1) zm(1)] by metis
      then show ?thesis using task_ok_gen_evt [OF u(2) T(1)] zm(2) by (auto simp: task_ok_def)
    qed
    ultimately show ?thesis using W own by simp
  qed
  moreover have "dropWhile (\<lambda>x. val k x \<le> xTickCount k) (in_order M ?D) = dropWhile (\<lambda>x. val k x \<le> xTickCount k) xs"
    using x by simp
  ultimately show "woken k M M'" using W unfolding woken_def by auto
qed

lemma tick_frame_refl [simp]: "tick_frame k k" "tick_frame k (k\<lparr>xNextTaskUnblockTime := v\<rparr>)"
  by (simp_all add: tick_frame_def task_lists_def ready_list_at_def fun_eq_iff)

lemma tick_frame_trans: "tick_frame k k' \<Longrightarrow> tick_frame k' k'' \<Longrightarrow> tick_frame k k''"
  by (simp add: tick_frame_def)

lemma wake_delayed_ok:
  assumes "sched_ok k M"
  shows "\<exists>k' M'. wake_delayed k = Some k' \<and> sched_ok k' M' \<and> woken k M M' \<and> tick_frame k k' \<and>
    xNextTaskUnblockTime k' = (case in_order M' (pxDelayedTaskList k) of [] \<Rightarrow> portMAX_DELAY | x # _ \<Rightarrow> val k x)"
  using assms
proof (induction "in_order M (pxDelayedTaskList k)" arbitrary: k M)
  case Nil
  let ?k = "k\<lparr>xNextTaskUnblockTime := portMAX_DELAY\<rparr>"
  have "pxDelayedTaskList k \<in> dom M" using layout_facts(4,5) [OF sched_parts(2) [OF Nil(2)]] by blast
  then have "list_empty (pxDelayedTaskList k) k" using lists_empty [OF sched_parts(1) [OF Nil(2)]] Nil(1) by simp
  then have "wake_delayed k = Some ?k" by (subst wake_delayed.simps) simp
  moreover have "woken k M M" by (rule woken_refl) (simp add: due_def Nil(1) [symmetric])
  ultimately show ?case using sched_ok_fields(1) [OF Nil(2)] Nil(1)
    by (intro exI [of _ ?k] exI [of _ M]) (simp add: Nil(1) [symmetric])
next
  case (Cons x xs)
  let ?D = "pxDelayedTaskList k"
  have ly: "layout k M" using sched_parts(2) [OF Cons(3)] .
  have D: "?D \<in> set (task_lists k)" "?D \<in> dom M" using layout_facts(4,5) [OF ly] by auto
  have x: "in_order M ?D = x # xs" using Cons(2) by simp
  then have xm: "x \<in> set (members M ?D)" using set_in_order [of M ?D] by (metis list.set_intros(1))
  obtain t where t: "x = gen t" "task_ok k M t" using generic_itemE [OF Cons(3) D(1) xm] by metis
  have own: "pvOwner (itm k (gen t)) = t" using t(2) by (simp add: task_ok_def)
  have ne: "\<not> list_empty ?D k" using lists_empty [OF sched_parts(1) [OF Cons(3)] D(2)] x by simp
  have hd: "listGET_OWNER_OF_HEAD_ENTRY ?D k = t" using head_entry [OF sched_parts(1) [OF Cons(3)] x] t(1) own by simp
  show ?case
  proof (cases "xTickCount k < val k x")
    case True
    let ?k = "k\<lparr>xNextTaskUnblockTime := val k x\<rparr>"
    have "wake_delayed k = Some ?k" using True ne hd t(1) by (subst wake_delayed.simps) (simp add: Let_def)
    moreover have "woken k M M" by (rule woken_refl) (use True x in \<open>simp add: due_def\<close>)
    ultimately show ?thesis using sched_ok_fields(1) [OF Cons(3)] x
      by (intro exI [of _ ?k] exI [of _ M]) simp
  next
    case False
    let ?k1 = "prvAddTaskToReadyQueue t (remove_event t (remove_generic t k))" and ?M1 = "make_ready k t M"
    have step: "wake_delayed k = wake_delayed ?k1" using False ne hd t(1) by (subst wake_delayed.simps) (simp add: Let_def)
    have tm: "gen t \<in> set (members M ?D)" using xm t(1) by simp
    note R = make_ready_from [OF Cons(3) tm D(1) take_out_ok(1) [OF Cons(3) tm D(1)] removed_gen_evt]
    have D1: "pxDelayedTaskList ?k1 = ?D" using R(3) by (simp add: same_frame_def)
    have "distinct (x # xs)" using lists_distinct [OF sched_parts(1) [OF Cons(3)], of ?D] x by simp
    then have "in_order ?M1 ?D = xs" using R(7) [of ?D] x t(1) by simp
    then have "xs = in_order ?M1 (pxDelayedTaskList ?k1)" using D1 by simp
    from Cons(1) [OF this R(1)] obtain k' M' where IH: "wake_delayed ?k1 = Some k'" "sched_ok k' M'" "woken ?k1 ?M1 M'"
      "tick_frame ?k1 k'"
      "xNextTaskUnblockTime k' = (case in_order M' (pxDelayedTaskList ?k1) of [] \<Rightarrow> portMAX_DELAY | x # _ \<Rightarrow> val ?k1 x)"
      by blast
    have xt: "in_order M ?D = gen t # xs" "val k (gen t) \<le> xTickCount k" using x t(1) False by auto
    note S = woken_step [OF Cons(3) xt IH(3)]
    have v: "val ?k1 y = val k y" for y using S(2) by (simp add: tick_frame_def)
    have "xNextTaskUnblockTime k' = (case in_order M' ?D of [] \<Rightarrow> portMAX_DELAY | x # _ \<Rightarrow> val k x)"
      using IH(5) unfolding D1 v .
    then show ?thesis using IH(1,2) step S(1) tick_frame_trans [OF S(2) IH(4)] by metis
  qed
qed

lemma sorted_dropWhile_gt:
  fixes f :: "'b \<Rightarrow> 'c::linorder"
  assumes "sorted (map f xs)" "x \<in> set (dropWhile (\<lambda>x. f x \<le> v) xs)"
  shows "v < f x"
proof (cases "dropWhile (\<lambda>x. f x \<le> v) xs")
  case (Cons y ys)
  then have y: "v < f y" by (metis dropWhile_eq_Cons_conv not_le)
  have "xs = takeWhile (\<lambda>x. f x \<le> v) xs @ y # ys" using Cons by (metis takeWhile_dropWhile_id)
  then have "sorted (map f (y # ys))" using assms(1) by (metis map_append sorted_append)
  then show ?thesis using y assms(2) Cons by fastforce
next
  case Nil
  then show ?thesis using assms(2) by (metis empty_iff list.set(1))
qed

lemma prvCheckDelayedTasks_ok:
  assumes ok: "sched_ok k M" and n: "\<forall>x\<in>set (members M (pxDelayedTaskList k)). xNextTaskUnblockTime k \<le> val k x"
  shows "\<exists>k' M'. prvCheckDelayedTasks k = Some k' \<and> sched_ok k' M' \<and> woken k M M' \<and> tick_frame k k' \<and>
    (\<forall>x\<in>set (members M' (pxDelayedTaskList k)). xTickCount k < val k x \<and> xNextTaskUnblockTime k' \<le> val k x)"
proof -
  let ?D = "pxDelayedTaskList k"
  have so: "sorted (map (val k) (in_order M ?D))" using sched_parts(5) [OF ok] by (simp add: sleep_ok_def)
  show ?thesis
  proof (cases "xNextTaskUnblockTime k \<le> xTickCount k")
    case True
    obtain k' M' where w: "wake_delayed k = Some k'" "sched_ok k' M'" "woken k M M'" "tick_frame k k'"
      "xNextTaskUnblockTime k' = (case in_order M' ?D of [] \<Rightarrow> portMAX_DELAY | x # _ \<Rightarrow> val k x)"
      using wake_delayed_ok [OF ok] by blast
    have d: "in_order M' ?D = dropWhile (\<lambda>x. val k x \<le> xTickCount k) (in_order M ?D)" using w(3) by (simp add: woken_def)
    then have s': "sorted (map (val k) (in_order M' ?D))" using so by (metis map_append sorted_append takeWhile_dropWhile_id)
    have "xTickCount k < val k x \<and> xNextTaskUnblockTime k' \<le> val k x" if x: "x \<in> set (in_order M' ?D)" for x
    proof
      show "xTickCount k < val k x" using sorted_dropWhile_gt [OF so] x unfolding d .
      obtain y ys where y: "in_order M' ?D = y # ys" using x by (cases "in_order M' ?D") auto
      then show "xNextTaskUnblockTime k' \<le> val k x" using s' w(5) x by auto
    qed
    then show ?thesis using True w by (auto simp: prvCheckDelayedTasks_def)
  next
    case False
    have gt: "xTickCount k < val k x" if "x \<in> set (members M ?D)" for x
      using n that False by (meson not_le order_less_le_trans)
    have "due k M = []" unfolding due_def takeWhile_eq_Nil_iff
      using gt set_in_order [of M ?D] by (metis hd_in_set not_le)
    then have "woken k M M" by (rule woken_refl)
    moreover have "prvCheckDelayedTasks k = Some k" using False by (simp add: prvCheckDelayedTasks_def)
    ultimately show ?thesis using ok n gt tick_frame_refl(1) by blast
  qed
qed

lemma in_order_of_set: "members M l = [] \<Longrightarrow> in_order M l = []"
  by (simp add: in_order_Nil)

lemma max_delay_top: "\<not> (0xFFFFFFFF :: u32) < x"
  using u32_le_max [of x] by (simp add: not_less)

lemma plus_one_zero: "(x :: u32) + 1 = 0 \<longleftrightarrow> x = 0xFFFFFFFF"
proof -
  have m: "(0xFFFFFFFF :: u32) = - 1" by simp
  show ?thesis unfolding m by (rule eq_neg_iff_add_eq_0 [symmetric])
qed

lemma word_le_inc: "(x :: u32) + 1 \<noteq> 0 \<Longrightarrow> y \<le> x \<Longrightarrow> y < x + 1"
  by (simp add: word_less_nat_alt word_le_nat_alt unatSuc add.commute)

text \<open>The state just after the counter has been advanced, before the delayed tasks are checked.\<close>

definition advance :: "'a kernel_scheme \<Rightarrow> 'a kernel_scheme" where
  "advance k =
    (let k = k\<lparr>xTickCount := xTickCount k + 1\<rparr> in
     if xTickCount k = 0 then
       (let k = k\<lparr>pxDelayedTaskList := pxOverflowDelayedTaskList k, pxOverflowDelayedTaskList := pxDelayedTaskList k,
                  xNumOfOverflows := xNumOfOverflows k + 1\<rparr>
        in if list_empty (pxDelayedTaskList k) k then k\<lparr>xNextTaskUnblockTime := portMAX_DELAY\<rparr>
           else k\<lparr>xNextTaskUnblockTime :=
                  val k (xGenericListItem (listGET_OWNER_OF_HEAD_ENTRY (pxDelayedTaskList k) k))\<rparr>)
     else k)"

lemma increment_advance:
  "uxSchedulerSuspended k = 0 \<Longrightarrow> vTaskIncrementTick k = prvCheckDelayedTasks (advance k)"
  by (simp add: vTaskIncrementTick_def advance_def Let_def)

lemma advance_frame [simp]:
  "tcb (advance k) = tcb k" "itm (advance k) = itm k" "task_lists (advance k) = task_lists k"
  "ready_list_at (advance k) = ready_list_at k" "xTickCount (advance k) = xTickCount k + 1"
  "uxMissedTicks (advance k) = uxMissedTicks k" "uxSchedulerSuspended (advance k) = uxSchedulerSuspended k"
  "pxCurrentTCB (advance k) = pxCurrentTCB k" "xPendingReadyList (advance k) = xPendingReadyList k"
  "xSuspendedTaskList (advance k) = xSuspendedTaskList k" "uxCurrentNumberOfTasks (advance k) = uxCurrentNumberOfTasks k"
  "xMissedYield (advance k) = xMissedYield k"
  by (simp_all add: advance_def Let_def task_lists_def ready_list_at_def fun_eq_iff)

lemma advance_ok:
  assumes ok: "sched_ok k M" and c: "clock_ok k M"
  shows "sched_ok (advance k) M"
    "\<forall>x\<in>set (members M (pxDelayedTaskList (advance k))). xNextTaskUnblockTime (advance k) \<le> val k x \<and> xTickCount k + 1 \<le> val k x"
    "\<forall>x\<in>set (members M (pxOverflowDelayedTaskList (advance k))). val k x < xTickCount k + 1"
    "{pxDelayedTaskList (advance k), pxOverflowDelayedTaskList (advance k)} = {pxDelayedTaskList k, pxOverflowDelayedTaskList k}"
proof -
  let ?D = "pxDelayedTaskList k" and ?O = "pxOverflowDelayedTaskList k" and ?a = "advance k"
  have ly: "layout k M" using sched_parts(2) [OF ok] .
  have lo: "lists_ok k M" using sched_parts(1) [OF ok] .
  have O: "?O \<in> set (task_lists k)" "?O \<in> dom M" using layout_facts(4,5) [OF ly] by auto
  have "sched_ok ?a M \<and> (\<forall>x\<in>set (members M (pxDelayedTaskList ?a)). xNextTaskUnblockTime ?a \<le> val k x \<and> xTickCount k + 1 \<le> val k x) \<and>
    (\<forall>x\<in>set (members M (pxOverflowDelayedTaskList ?a)). val k x < xTickCount k + 1) \<and> {pxDelayedTaskList ?a, pxOverflowDelayedTaskList ?a} = {?D, ?O}"
  proof (cases "xTickCount k + 1 = 0")
    case False
    then have a: "?a = k\<lparr>xTickCount := xTickCount k + 1\<rparr>" by (simp add: advance_def)
    have inc: "x \<le> xTickCount k \<Longrightarrow> x < xTickCount k + 1" "xTickCount k < x \<Longrightarrow> xTickCount k + 1 \<le> x" for x
      using word_le_inc [OF False] inc_le by auto
    then show ?thesis using c sched_ok_fields(2) [OF ok] unfolding a clock_ok_def by (auto intro: less_imp_le)
  next
    case True
    then have "xTickCount k = 0xFFFFFFFF" by (simp add: plus_one_zero)
    then have e: "members M ?D = []" using c max_delay_top unfolding clock_ok_def by (metis hd_in_set)
    define k1 where "k1 = k\<lparr>xTickCount := 0, pxDelayedTaskList := ?O, pxOverflowDelayedTaskList := ?D, xNumOfOverflows := xNumOfOverflows k + 1\<rparr>"
    have tl: "task_lists k1 = task_lists k" by (simp add: k1_def task_lists_def ready_list_at_def)
    have tt: "task_ok k1 M t \<longleftrightarrow> task_ok k M t" for t unfolding task_ok_def tl by (simp add: k1_def)
    have "lists_ok k1 M" using lo by (subst lists_ok_cong [where k = k]) (simp_all add: k1_def)
    moreover have "layout k1 M" using ly unfolding layout_def tl by (auto simp: k1_def)
    moreover have "items_ok k1 M" using sched_parts(3) [OF ok]
      by (simp add: items_ok_def tt tl)
    moreover have "ready_ok k1 M" using sched_parts(4) [OF ok] by (simp add: ready_ok_def k1_def ready_list_at_def)
    moreover have "sleep_ok k1 M" using sched_parts(5) [OF ok] by (simp add: sleep_ok_def k1_def)
    ultimately have ok1: "sched_ok k1 M" by (simp add: sched_ok_def)
    have emp: "list_empty ?O k \<longleftrightarrow> in_order M ?O = []" using lists_empty [OF lo O(2)] .
    have so: "sorted (map (val k) (in_order M ?O))" using sched_parts(5) [OF ok] by (simp add: sleep_ok_def)
    show ?thesis
    proof (cases "in_order M ?O")
      case Nil
      then have "?a = k1\<lparr>xNextTaskUnblockTime := portMAX_DELAY\<rparr>"
        using True emp by (simp add: advance_def Let_def k1_def list_empty_def)
      then show ?thesis using sched_ok_fields(1) [OF ok1] e Nil by (simp add: in_order_Nil k1_def insert_commute)
    next
      case (Cons x xs)
      then have xm: "x \<in> set (members M ?O)" using set_in_order [of M ?O] by (metis list.set_intros(1))
      obtain t where t: "x = gen t" "task_ok k M t" using generic_itemE [OF ok O(1) xm] by metis
      have "listGET_OWNER_OF_HEAD_ENTRY ?O k = t" using head_entry [OF lo Cons] t by (simp add: task_ok_def)
      then have "?a = k1\<lparr>xNextTaskUnblockTime := val k x\<rparr>"
        using True emp Cons t(1) by (simp add: advance_def Let_def k1_def list_empty_def listGET_OWNER_OF_HEAD_ENTRY_def)
      moreover have "val k x \<le> val k y" if "y \<in> set (members M ?O)" for y
        using so Cons that set_in_order [of M ?O] by auto
      ultimately show ?thesis using sched_ok_fields(1) [OF ok1] e True by (simp add: k1_def insert_commute)
    qed
  qed
  then show "sched_ok ?a M" "\<forall>x\<in>set (members M (pxDelayedTaskList ?a)). xNextTaskUnblockTime ?a \<le> val k x \<and> xTickCount k + 1 \<le> val k x"
    "\<forall>x\<in>set (members M (pxOverflowDelayedTaskList ?a)). val k x < xTickCount k + 1"
    "{pxDelayedTaskList ?a, pxOverflowDelayedTaskList ?a} = {?D, ?O}" by blast+
qed

text \<open>Ticks left until a sleeping task is woken, and the sleeping tasks.\<close>

definition remaining :: "'a kernel_scheme \<Rightarrow> u32 \<Rightarrow> nat" where
  "remaining k x = unat (val k x - xTickCount k)"

definition sleepers :: "'a kernel_scheme \<Rightarrow> list_map \<Rightarrow> u32 set" where
  "sleepers k M = set (members M (pxDelayedTaskList k)) \<union> set (members M (pxOverflowDelayedTaskList k))"

lemma set_sorted_while:
  fixes f :: "'b \<Rightarrow> 'c::linorder"
  assumes "sorted (map f xs)"
  shows "set (takeWhile (\<lambda>x. f x \<le> v) xs) = {x \<in> set xs. f x \<le> v}"
    "set (dropWhile (\<lambda>x. f x \<le> v) xs) = {x \<in> set xs. v < f x}"
proof -
  have s: "set xs = set (takeWhile (\<lambda>x. f x \<le> v) xs) \<union> set (dropWhile (\<lambda>x. f x \<le> v) xs)"
    by (metis set_append takeWhile_dropWhile_id)
  have t: "f x \<le> v" if "x \<in> set (takeWhile (\<lambda>x. f x \<le> v) xs)" for x using set_takeWhileD [OF that] by simp
  have d: "v < f x" if "x \<in> set (dropWhile (\<lambda>x. f x \<le> v) xs)" for x using sorted_dropWhile_gt [OF assms that] .
  have "x \<in> set (takeWhile (\<lambda>x. f x \<le> v) xs) \<longleftrightarrow> x \<in> set xs \<and> f x \<le> v"
    "x \<in> set (dropWhile (\<lambda>x. f x \<le> v) xs) \<longleftrightarrow> x \<in> set xs \<and> v < f x" for x
    using t [of x] d [of x] by (metis Un_iff leD s)+
  then show "set (takeWhile (\<lambda>x. f x \<le> v) xs) = {x \<in> set xs. f x \<le> v}"
    "set (dropWhile (\<lambda>x. f x \<le> v) xs) = {x \<in> set xs. v < f x}" by blast+
qed

lemma remaining_step:
  assumes "val k x \<noteq> xTickCount k"
  shows "remaining k x = Suc (unat (val k x - (xTickCount k + 1)))" "remaining k x = 1 \<longleftrightarrow> val k x = xTickCount k + 1"
proof -
  have n: "val k x - xTickCount k \<noteq> 0" using assms by simp
  have e: "val k x - (xTickCount k + 1) = val k x - xTickCount k - 1" by simp
  have "0 < unat (val k x - xTickCount k)" using n by (simp add: unat_gt_0)
  then show r: "remaining k x = Suc (unat (val k x - (xTickCount k + 1)))"
    unfolding e using n by (simp add: remaining_def unat_minus_one)
  show "remaining k x = 1 \<longleftrightarrow> val k x = xTickCount k + 1"
    unfolding r by (simp add: unat_eq_zero)
qed

definition tick_step :: "'a kernel_scheme \<Rightarrow> list_map \<Rightarrow> 'a kernel_scheme \<Rightarrow> list_map \<Rightarrow> bool" where
  "tick_step k M k' M' \<longleftrightarrow>
     xTickCount k' = xTickCount k + 1 \<and>
     (\<exists>ws. distinct ws \<and> set ws = {x \<in> sleepers k M. remaining k x = 1} \<and>
        (\<forall>p<5. members M' (ready_list_at k p) =
           members M (ready_list_at k p) @ filter (\<lambda>x. prio k (pvOwner (itm k x)) = p) ws) \<and>
        (\<forall>y\<in>set ws. \<forall>l. evt (pvOwner (itm k y)) \<notin> set (members M' l))) \<and>
     sleepers k' M' = {x \<in> sleepers k M. remaining k x \<noteq> 1} \<and>
     (\<forall>x\<in>sleepers k' M'. Suc (remaining k' x) = remaining k x)"

definition run_core :: "'a kernel_scheme \<Rightarrow> 'a kernel_scheme \<Rightarrow> bool" where
  "run_core k k' \<longleftrightarrow> tcb k' = tcb k \<and> ready_list_at k' = ready_list_at k \<and> task_lists k' = task_lists k \<and>
     uxSchedulerSuspended k' = uxSchedulerSuspended k \<and>
     pxCurrentTCB k' = pxCurrentTCB k \<and> xPendingReadyList k' = xPendingReadyList k \<and>
     xSuspendedTaskList k' = xSuspendedTaskList k \<and> uxCurrentNumberOfTasks k' = uxCurrentNumberOfTasks k \<and> xMissedYield k' = xMissedYield k \<and>
     (\<forall>y. pvOwner (itm k' y) = pvOwner (itm k y))"

definition run_frame :: "'a kernel_scheme \<Rightarrow> 'a kernel_scheme \<Rightarrow> bool" where
  "run_frame k k' \<longleftrightarrow> run_core k k' \<and> (\<forall>y. val k' y = val k y)"

lemma tick_ok:
  assumes ok: "sched_ok k M" and c: "clock_ok k M" and s: "uxSchedulerSuspended k = 0"
  shows "\<exists>k' M'. vTaskIncrementTick k = Some k' \<and> sched_ok k' M' \<and> clock_ok k' M' \<and> tick_step k M k' M' \<and>
    run_frame k k' \<and> uxMissedTicks k' = uxMissedTicks k \<and> dom M' = dom M \<and>
    (\<forall>l. members M l = [] \<longrightarrow> l \<notin> set (task_lists k) \<longrightarrow> members M' l = [])"
proof -
  let ?a = "advance k" and ?v = "xTickCount k + 1"
  let ?D = "pxDelayedTaskList ?a" and ?O = "pxOverflowDelayedTaskList ?a"
  note A = advance_ok [OF ok c]
  have va: "val ?a = val k" by simp
  obtain k' M' where w: "prvCheckDelayedTasks ?a = Some k'" "sched_ok k' M'" "woken ?a M M'" "tick_frame ?a k'"
    "\<forall>x\<in>set (members M' ?D). xTickCount ?a < val ?a x \<and> xNextTaskUnblockTime k' \<le> val ?a x"
    using prvCheckDelayedTasks_ok [OF A(1)] A(2) by auto
  have g: "pxDelayedTaskList k' = ?D" "pxOverflowDelayedTaskList k' = ?O" "xTickCount k' = ?v"
    using w(4) by (simp_all add: tick_frame_def)
  have vk: "val k' y = val k y" for y using w(4) by (simp add: tick_frame_def)
  have sl: "sleepers k M = set (members M ?D) \<union> set (members M ?O)" 
    using arg_cong [OF A(4), of "\<lambda>L. \<Union>l\<in>L. set (members M l)"] by (simp add: sleepers_def)
  have so: "sorted (map (val k) (in_order M ?D))" using sched_parts(5) [OF A(1)] by (simp add: sleep_ok_def)
  have due: "set (due ?a M) = {x \<in> set (members M ?D). val k x \<le> ?v}"
    using set_sorted_while(1) [OF so, of ?v] by (simp add: due_def)
  have ne: "val k x \<noteq> xTickCount k" if "x \<in> sleepers k M" for x
    using c that unfolding clock_ok_def sleepers_def by (metis Un_iff less_irrefl)
  have D: "val k x \<le> ?v \<longleftrightarrow> remaining k x = 1" if "x \<in> set (members M ?D)" for x
    using A(2) that remaining_step(2) [OF ne, of x] sl by (metis Un_iff dual_order.antisym order_refl)
  have O: "remaining k x \<noteq> 1" if "x \<in> set (members M ?O)" for x
    using A(3) that remaining_step(2) [OF ne, of x] sl by (metis Un_iff less_irrefl)
  have ws: "set (due ?a M) = {x \<in> sleepers k M. remaining k x = 1}" unfolding due sl using D O by blast
  have dis: "distinct (due ?a M)" using lists_distinct [OF sched_parts(1) [OF A(1)], of ?D] by (simp add: due_def distinct_takeWhile)
  have "set (members M' ?D) = {x \<in> set (members M ?D). ?v < val k x}"
    using set_sorted_while(2) [OF so, of ?v] w(3) set_in_order [of M' ?D] by (simp add: woken_def)
  then have D': "set (members M' ?D) = {x \<in> set (members M ?D). remaining k x \<noteq> 1}"
    using D by (auto simp: not_le [symmetric])
  have "in_order M' ?O = in_order M ?O" using w(3) by (simp add: woken_def)
  then have O': "set (members M' ?O) = set (members M ?O)" by (metis set_in_order)
  have sl': "sleepers k' M' = {x \<in> sleepers k M. remaining k x \<noteq> 1}"
    unfolding sleepers_def [of k'] g sl D' O' using O by blast
  have "clock_ok k' M'" unfolding clock_ok_def g vk O' using w(5) A(3) by simp
  moreover have "Suc (remaining k' x) = remaining k x" if "x \<in> sleepers k' M'" for x
    using remaining_step(1) [OF ne, of x] that sl' by (simp add: remaining_def g vk)
  moreover have "run_frame k k'" "uxMissedTicks k' = uxMissedTicks k" using w(4) by (simp_all add: run_frame_def run_core_def tick_frame_def)
  moreover have "members M' l = []" if l: "members M l = []" "l \<notin> set (task_lists k)" for l
  proof (rule ccontr)
    assume "members M' l \<noteq> []"
    then obtain x where x: "x \<in> set (members M' l)" by (cases "members M' l") auto
    have "x \<in> set (due ?a M)"
    proof (rule ccontr)
      assume n: "x \<notin> set (due ?a M)"
      have "x \<noteq> evt (pvOwner (itm k y))" if "y \<in> set (due ?a M)" for y using w(3) that x by (auto simp: woken_def)
      then have "\<forall>y\<in>set (due ?a M). x \<noteq> y \<and> x \<noteq> evt (pvOwner (itm k y))" using n by metis
      then have "x \<in> set (members M l)" using w(3) x by (simp add: woken_def)
      then show False using l(1) by simp
    qed
    then have xd: "x \<in> set (members M ?D)" using due by blast
    have "?D \<in> set (task_lists ?a)" using layout_facts(4) [OF sched_parts(2) [OF A(1)]] by blast
    then obtain u where u: "x = gen u" "task_ok ?a M u" using generic_itemE [OF A(1) _ xd] by metis
    let ?p = "prio k (pvOwner (itm k x))"
    have p5: "?p < 5" using u by (simp add: task_ok_def)
    then have "x \<in> set (members M' (ready_list_at k ?p))" using w(3) \<open>x \<in> set (due ?a M)\<close> by (simp add: woken_def)
    then have "l = ready_list_at k ?p" using member_unique [OF sched_parts(1) [OF w(2)] x] by simp
    then show False using l(2) layout_facts(2) [OF sched_parts(2) [OF ok] p5] by simp
  qed
  moreover have "tick_step k M k' M'"
    unfolding tick_step_def
  proof (intro conjI)
    show "\<exists>ws. distinct ws \<and> set ws = {x \<in> sleepers k M. remaining k x = 1} \<and>
        (\<forall>p<5. members M' (ready_list_at k p) =
           members M (ready_list_at k p) @ filter (\<lambda>x. prio k (pvOwner (itm k x)) = p) ws) \<and>
        (\<forall>y\<in>set ws. \<forall>l. evt (pvOwner (itm k y)) \<notin> set (members M' l))"
      by (rule exI [of _ "due ?a M"]) (use dis ws w(3) in \<open>simp add: woken_def\<close>)
  qed (use g(3) sl' calculation(2) in simp_all)
  moreover have "dom M' = dom M" using w(3) by (simp add: woken_def)
  ultimately show ?thesis using w(1,2) increment_advance [OF s] by auto
qed

section \<open>Resuming the scheduler\<close>

lemma run_frame_trans: "run_frame k k' \<Longrightarrow> run_frame k' k'' \<Longrightarrow> run_frame k k''"
  by (simp add: run_frame_def run_core_def)

lemma clock_ok_less:
  assumes c: "clock_ok k M" and f: "xTickCount k' = xTickCount k" "xNextTaskUnblockTime k' = xNextTaskUnblockTime k"
    "pxDelayedTaskList k' = pxDelayedTaskList k" "pxOverflowDelayedTaskList k' = pxOverflowDelayedTaskList k"
    and m: "\<And>l x. l \<in> {pxDelayedTaskList k, pxOverflowDelayedTaskList k} \<Longrightarrow> x \<in> set (members M' l) \<Longrightarrow>
      x \<in> set (members M l) \<and> val k' x = val k x"
  shows "clock_ok k' M'"
  unfolding clock_ok_def f using c m [of "pxDelayedTaskList k"] m [of "pxOverflowDelayedTaskList k"]
  by (simp add: clock_ok_def)

lemma same_frame_run:
  assumes "same_frame t k k'" "tcb k' = tcb k" "val k' = val k"
  shows "run_frame k k'" "uxMissedTicks k' = uxMissedTicks k" "xTickCount k' = xTickCount k" "xNextTaskUnblockTime k' = xNextTaskUnblockTime k"
    "pxDelayedTaskList k' = pxDelayedTaskList k" "pxOverflowDelayedTaskList k' = pxOverflowDelayedTaskList k"
  using assms fun_cong [OF assms(3)] by (simp_all add: same_frame_def run_frame_def run_core_def)

text \<open>
  What becomes ready when the tasks whose event items are \<open>E\<close> are made ready: each is on the
  ready list of its priority, none of them sleeps any longer, everyone else stays.
\<close>

definition readied :: "u32 set \<Rightarrow> 'a kernel_scheme \<Rightarrow> list_map \<Rightarrow> 'a kernel_scheme \<Rightarrow> list_map \<Rightarrow> bool" where
  "readied T k M k' M' \<longleftrightarrow>
     dom M' = dom M \<and> run_frame k k' \<and> xTickCount k' = xTickCount k \<and>
     uxMissedTicks k' = uxMissedTicks k \<and> sleepers k' M' = sleepers k M - gen ` T \<and>
     (\<forall>p<5. set (members M' (ready_list_at k p)) = set (members M (ready_list_at k p)) \<union> {gen t | t. t \<in> T \<and> prio k t = p})"

lemma readied_one:
  assumes ok: "sched_ok k M" "clock_ok k M" and t: "gen t \<in> set (members M l)" "l \<in> set (task_lists k)"
    and e: "evt t \<in> set (members M e)"
  defines "k' \<equiv> prvAddTaskToReadyQueue t (remove_generic t (snd (uxListRemove (evt t) k)))" and "M' \<equiv> make_ready k t M"
  shows "sched_ok k' M'" "clock_ok k' M'" "readied {t} k M k' M'" "in_order M' e = remove1 (evt t) (in_order M e)"
    "e' \<notin> set (task_lists k) \<Longrightarrow> e' \<noteq> e \<Longrightarrow> members M' e' = members M e'"
proof -
  note R = make_ready_from [OF ok(1) t take_out_alt [OF ok(1) t e] removed_evt_gen, folded k'_def M'_def]
  note F = same_frame_run [OF R(3-5)]
  note T = on_list_task [OF ok(1) t]
  have ly: "layout k M" and lo: "lists_ok k M" using ok(1) by (auto simp: sched_ok_def)
  let ?S = "{pxDelayedTaskList k, pxOverflowDelayedTaskList k}"
  have v: "val k' x = val k x" for x using fun_cong [OF R(5)] .
  have p5: "prio k t < 5" using T(1) by (simp add: task_ok_def)
  have S: "set (members M' l') = set (members M l') - {gen t}" if "l' \<in> ?S" for l'
    using R(6) [of l'] layout_facts(3) [OF ly p5] layout_facts(4) [OF ly] that lists_distinct [OF lo, of l']
    by (auto simp: set_remove1_eq)
  show "sched_ok k' M'" using R(1) .
  show "clock_ok k' M'" by (rule clock_ok_less [OF ok(2) F(3-6)]) (use S v in auto)
  have rd: "set (members M' (ready_list_at k p)) = set (members M (ready_list_at k p)) \<union> {gen u | u. u \<in> {t} \<and> prio k u = p}"
    if p: "p < 5" for p
  proof -
    have "gen t \<in> set (members M (ready_list_at k p)) \<Longrightarrow> prio k t = p" using sched_parts(4) [OF ok(1)] p unfolding ready_ok_def by blast
    then show ?thesis
      using R(6) [OF layout_facts(2) [OF ly p]] ready_list_neq [OF p p5, of k] lists_distinct [OF lo, of "ready_list_at k p"]
      by (auto simp: set_remove1_eq)
  qed
  moreover have "sleepers k' M' = sleepers k M - gen ` {t}" using S F(5,6) by (auto simp: sleepers_def)
  ultimately show "readied {t} k M k' M'" using R(2) F(1-3) by (simp add: readied_def)
  have c: "pvContainer (itm k (evt t)) = e" using member_container [OF lo e] .
  have ed: "e \<in> dom M" "e \<noteq> 0" using e layout_facts(9) [OF ly] by (auto simp: member_dest)
  have et: "e \<notin> set (task_lists k)" using T(1) c ed(2) by (simp add: task_ok_def)
  have le: "l \<noteq> e" using et t(2) by blast
  have M': "M' = push (ready_list_at k (prio k t)) (gen t) (drop_item l (gen t) (drop_item e (evt t) M))"
    using T(2) c ed(2) drop_commute [OF le] by (simp add: M'_def make_ready_def take_out_def)
  have o: "members M' e' = members (drop_item e (evt t) M) e' \<and> in_order M' e' = in_order (drop_item e (evt t) M) e'"
    if "e' \<notin> set (task_lists k)" for e'
  proof -
    have "e' \<noteq> ready_list_at k (prio k t)" "e' \<noteq> l" using that layout_facts(2) [OF ly p5] t(2) by auto
    then show ?thesis by (simp add: M' push_def drop_item_def members_def in_order_def)
  qed
  show "in_order M' e = remove1 (evt t) (in_order M e)" using o [OF et] members_drop(2) [OF lo ed(1)] by simp
  show "members M' e' = members M e'" if "e' \<notin> set (task_lists k)" "e' \<noteq> e"
    using o [OF that(1)] members_drop(1) [OF lo ed(1), of "evt t" e'] that(2) by simp
qed

lemma readied_trans:
  assumes "readied T k M k' M'" "readied U k' M' k'' M''"
  shows "readied (T \<union> U) k M k'' M''"
proof -
  have "tcb k' = tcb k" "ready_list_at k' = ready_list_at k" using assms(1) by (simp_all add: readied_def run_frame_def run_core_def)
  then show ?thesis using assms unfolding readied_def by (auto simp: run_frame_def run_core_def)
qed

lemma readied_none: "readied {} k M k M"
  by (simp add: readied_def run_frame_def run_core_def)

definition pending_tasks :: "'a kernel_scheme \<Rightarrow> list_map \<Rightarrow> u32 set" where
  "pending_tasks k M = (\<lambda>x. pvOwner (itm k x)) ` set (members M (xPendingReadyList k))"

lemma move_pending_ok:
  assumes "sched_ok k M" "clock_ok k M"
  shows "\<exists>k' M'. move_pending y k = Some (y \<or> (\<exists>t\<in>pending_tasks k M. prio k (pxCurrentTCB k) \<le> prio k t), k') \<and>
    sched_ok k' M' \<and> clock_ok k' M' \<and> members M' (xPendingReadyList k) = [] \<and> readied (pending_tasks k M) k M k' M'"
  using assms
proof (induction "in_order M (xPendingReadyList k)" arbitrary: k M y)
  case Nil
  let ?P = "xPendingReadyList k"
  have e: "members M ?P = []" using Nil(1) in_order_Nil [of M ?P] by simp
  have "list_empty ?P k" using lists_empty [OF sched_parts(1) [OF Nil(2)] layout_facts(6) [OF sched_parts(2) [OF Nil(2)]]] Nil(1) by simp
  then have "move_pending y k = Some (y, k)" by (subst move_pending.simps) simp
  moreover have "pending_tasks k M = {}" using e by (simp add: pending_tasks_def)
  ultimately show ?case using Nil(2,3) e readied_none by auto
next
  case (Cons x xs)
  let ?P = "xPendingReadyList k" and ?c = "prio k (pxCurrentTCB k)"
  have ly: "layout k M" and lo: "lists_ok k M" using Cons(3) by (auto simp: sched_ok_def)
  have P: "?P \<in> dom M" "?P \<notin> set (task_lists k)" using layout_facts(6,7) [OF ly] by auto
  have x: "in_order M ?P = x # xs" using Cons(2) by simp
  then have xm: "x \<in> set (members M ?P)" using set_in_order [of M ?P] by (metis list.set_intros(1))
  obtain t l where t: "x = evt t" "task_ok k M t" "l \<in> set (task_lists k)" "gen t \<in> set (members M l)"
    using event_itemE [OF Cons(3) P xm] by metis
  have own: "pvOwner (itm k x) = t" using t(1,2) by (simp add: task_ok_def)
  have em: "evt t \<in> set (members M ?P)" using xm t(1) by simp
  define k1 where "k1 = prvAddTaskToReadyQueue t (remove_generic t (snd (uxListRemove (evt t) k)))"
  define M1 where "M1 = make_ready k t M"
  note R = readied_one [OF Cons(3,4) t(4,3) em, folded k1_def M1_def]
  have f: "xPendingReadyList k1 = ?P" "tcb k1 = tcb k" "pxCurrentTCB k1 = pxCurrentTCB k" "\<And>z. pvOwner (itm k1 z) = pvOwner (itm k z)"
    using R(3) by (simp_all add: readied_def run_frame_def run_core_def)
  have "\<not> list_empty ?P k" using lists_empty [OF lo P(1)] x by simp
  moreover have "listGET_OWNER_OF_HEAD_ENTRY ?P k = t" using head_entry [OF lo x] own by simp
  ultimately have step: "move_pending y k = move_pending (?c \<le> prio k t \<or> y) k1"
    using f(2,3) by (subst move_pending.simps) (simp add: Let_def k1_def)
  have "distinct (x # xs)" using lists_distinct [OF lo, of ?P] x by simp
  then have io: "in_order M1 ?P = xs" using R(4) x t(1) by simp
  then have xs: "xs = in_order M1 (xPendingReadyList k1)" using f(1) by simp
  let ?U = "pending_tasks k1 M1" and ?T = "pending_tasks k M"
  obtain k' M' where IH: "move_pending (?c \<le> prio k t \<or> y) k1 = Some ((?c \<le> prio k t \<or> y) \<or> (\<exists>t\<in>?U. prio k1 (pxCurrentTCB k1) \<le> prio k1 t), k')"
    "sched_ok k' M'" "clock_ok k' M'" "members M' (xPendingReadyList k1) = []" "readied ?U k1 M1 k' M'"
    using Cons(1) [OF xs R(1,2)] by blast
  have "set (members M1 ?P) = set xs" using io by (metis set_in_order)
  moreover have "set (members M ?P) = insert x (set xs)" using x set_in_order [of M ?P] by simp
  ultimately have T: "?T = insert t ?U" using own f(1,4) by (simp add: pending_tasks_def)
  have r: "readied ?T k M k' M'" using readied_trans [OF R(3) IH(5)] unfolding T by simp
  have "((?c \<le> prio k t \<or> y) \<or> (\<exists>t\<in>?U. prio k1 (pxCurrentTCB k1) \<le> prio k1 t)) = (y \<or> (\<exists>t\<in>?T. ?c \<le> prio k t))"
    using f(2,3) by (auto simp: T)
  then show ?case using IH(1-4) step r f(1) by auto
qed

text \<open>\<open>n\<close> ticks at once.\<close>

definition ticks_passed :: "nat \<Rightarrow> 'a kernel_scheme \<Rightarrow> list_map \<Rightarrow> 'a kernel_scheme \<Rightarrow> list_map \<Rightarrow> bool" where
  "ticks_passed n k M k' M' \<longleftrightarrow>
     dom M' = dom M \<and> run_frame k k' \<and> xTickCount k' = xTickCount k + of_nat n \<and>
     sleepers k' M' = {x \<in> sleepers k M. n < remaining k x} \<and>
     (\<forall>x\<in>sleepers k' M'. remaining k' x + n = remaining k x) \<and>
     (\<forall>p<5. set (members M' (ready_list_at k p)) = set (members M (ready_list_at k p)) \<union>
        {x \<in> sleepers k M. remaining k x \<le> n \<and> prio k (pvOwner (itm k x)) = p})"

lemma remaining_pos: "clock_ok k M \<Longrightarrow> x \<in> sleepers k M \<Longrightarrow> 0 < remaining k x"
proof -
  assume "clock_ok k M" "x \<in> sleepers k M"
  then have "val k x \<noteq> xTickCount k" unfolding clock_ok_def sleepers_def by (metis Un_iff less_irrefl)
  then show ?thesis by (simp add: remaining_def unat_gt_0)
qed

lemma ticks_passed_0: "clock_ok k M \<Longrightarrow> ticks_passed 0 k M k M"
  using remaining_pos [of k M] by (fastforce simp: ticks_passed_def run_frame_def run_core_def)

lemma ticks_passed_Suc:
  assumes t: "tick_step k M k' M'" "run_frame k k'" "dom M' = dom M" and n: "ticks_passed n k' M' k'' M''"
  shows "ticks_passed (Suc n) k M k'' M''"
proof -
  have f: "tcb k' = tcb k" "ready_list_at k' = ready_list_at k" "\<And>y. pvOwner (itm k' y) = pvOwner (itm k y)"
    using t(2) by (simp_all add: run_frame_def run_core_def)
  have s1: "sleepers k' M' = {x \<in> sleepers k M. remaining k x \<noteq> 1}"
    and r1: "\<forall>x\<in>sleepers k' M'. Suc (remaining k' x) = remaining k x" and c1: "xTickCount k' = xTickCount k + 1"
    using t(1) by (auto simp: tick_step_def)
  obtain ws where ws: "set ws = {x \<in> sleepers k M. remaining k x = 1}"
    "\<forall>p<5. members M' (ready_list_at k p) = members M (ready_list_at k p) @ filter (\<lambda>x. prio k (pvOwner (itm k x)) = p) ws"
    using t(1) unfolding tick_step_def by blast
  note N = n [unfolded ticks_passed_def f]
  have s2: "sleepers k'' M'' = {x \<in> sleepers k' M'. n < remaining k' x}" using N by blast
  have pos: "n < remaining k' x \<longleftrightarrow> Suc n < remaining k x" "remaining k' x \<le> n \<longleftrightarrow> remaining k x \<le> Suc n"
    if "x \<in> sleepers k' M'" for x using r1 that by force+
  have "sleepers k'' M'' = {x \<in> sleepers k M. Suc n < remaining k x}" unfolding s2 using pos s1 by auto
  moreover have "remaining k'' x + Suc n = remaining k x" if "x \<in> sleepers k'' M''" for x
    using N r1 that s2 by fastforce
  moreover have "set (members M'' (ready_list_at k p)) = set (members M (ready_list_at k p)) \<union>
    {x \<in> sleepers k M. remaining k x \<le> Suc n \<and> prio k (pvOwner (itm k x)) = p}" if p: "p < 5" for p
  proof -
    have "{x \<in> sleepers k' M'. remaining k' x \<le> n \<and> prio k (pvOwner (itm k x)) = p} =
      {x \<in> sleepers k M. remaining k x \<noteq> 1 \<and> remaining k x \<le> Suc n \<and> prio k (pvOwner (itm k x)) = p}"
      using pos(2) s1 by auto
    moreover have "set (members M' (ready_list_at k p)) = set (members M (ready_list_at k p)) \<union>
      {x \<in> sleepers k M. remaining k x = 1 \<and> prio k (pvOwner (itm k x)) = p}" using ws p by auto
    moreover have "set (members M'' (ready_list_at k p)) = set (members M' (ready_list_at k p)) \<union>
      {x \<in> sleepers k' M'. remaining k' x \<le> n \<and> prio k (pvOwner (itm k x)) = p}" using N p by blast
    ultimately show ?thesis by auto
  qed
  ultimately show ?thesis
    using N t(2,3) c1 run_frame_trans unfolding ticks_passed_def by auto
qed

lemma missed_frame: "clock_ok (k\<lparr>uxMissedTicks := m\<rparr>) M = clock_ok k M" "ready_list_at (k\<lparr>uxMissedTicks := m\<rparr>) = ready_list_at k"
  "sleepers (k\<lparr>uxMissedTicks := m\<rparr>) M = sleepers k M" "remaining (k\<lparr>uxMissedTicks := m\<rparr>) = remaining k"
  "task_lists (k\<lparr>uxMissedTicks := m\<rparr>) = task_lists k"
  by (simp_all add: clock_ok_def sleepers_def remaining_def ready_list_at_def fun_eq_iff task_lists_def)

lemma ticks_passed_missed:
  "tick_step k M (k'\<lparr>uxMissedTicks := m\<rparr>) M' = tick_step k M k' M'" "run_frame k (k'\<lparr>uxMissedTicks := m\<rparr>) = run_frame k k'"
  by (simp_all add: tick_step_def run_frame_def run_core_def missed_frame)

lemma replay_ticks_ok:
  assumes "sched_ok k M" "clock_ok k M" "uxSchedulerSuspended k = 0"
  shows "\<exists>k' M'. replay_ticks k = Some k' \<and> sched_ok k' M' \<and> clock_ok k' M' \<and> uxMissedTicks k' = 0 \<and>
    ticks_passed (unat (uxMissedTicks k)) k M k' M' \<and>
    (\<forall>l. members M l = [] \<longrightarrow> l \<notin> set (task_lists k) \<longrightarrow> members M' l = [])"
  using assms
proof (induction "unat (uxMissedTicks k)" arbitrary: k M)
  case 0
  then have "uxMissedTicks k = 0" by (simp add: unat_eq_zero)
  moreover from this have "replay_ticks k = Some k" by (subst replay_ticks.simps) simp
  ultimately show ?case using 0 ticks_passed_0 [OF 0(3)] by auto
next
  case (Suc n)
  obtain k1 M1 where t: "vTaskIncrementTick k = Some k1" "sched_ok k1 M1" "clock_ok k1 M1" "tick_step k M k1 M1"
    "run_frame k k1" "uxMissedTicks k1 = uxMissedTicks k" "dom M1 = dom M"
    "\<forall>l. members M l = [] \<longrightarrow> l \<notin> set (task_lists k) \<longrightarrow> members M1 l = []" using tick_ok [OF Suc(3-5)] by blast
  let ?k = "k1\<lparr>uxMissedTicks := uxMissedTicks k - 1\<rparr>"
  have nz: "uxMissedTicks k \<noteq> 0" using Suc(2) by auto
  then have n: "n = unat (uxMissedTicks ?k)" using Suc(2) by (simp add: unat_minus_one)
  have s: "uxSchedulerSuspended ?k = 0" using t(5) Suc(5) by (simp add: run_frame_def run_core_def)
  have ck: "clock_ok ?k M1" using t(3) by (simp add: missed_frame)
  obtain k' M' where IH: "replay_ticks ?k = Some k'" "sched_ok k' M'" "clock_ok k' M'" "uxMissedTicks k' = 0"
    "ticks_passed (unat (uxMissedTicks ?k)) ?k M1 k' M'"
    "\<forall>l. members M1 l = [] \<longrightarrow> l \<notin> set (task_lists ?k) \<longrightarrow> members M' l = []"
    using Suc(1) [OF n sched_ok_fields(3) [OF t(2)] ck s] by blast
  have "ticks_passed (Suc n) k M k' M'"
    by (rule ticks_passed_Suc [of k M ?k M1]) (use t IH(5) n in \<open>simp_all add: ticks_passed_missed\<close>)
  moreover have "replay_ticks k = Some k'"
    using nz t(1,6) IH(1) by (subst replay_ticks.simps) (simp add: word_neq_0_conv)
  moreover have "task_lists ?k = task_lists k" using t(5) by (simp add: missed_frame run_frame_def run_core_def)
  ultimately show ?case using IH(2-4,6) t(8) Suc(2) by metis
qed

lemma resume_all_ok:
  assumes ok: "sched_ok k M" "clock_ok k M" and s: "uxSchedulerSuspended k = 1" "0 < uxCurrentNumberOfTasks k"
  defines "n \<equiv> unat (uxMissedTicks k)" and "P \<equiv> pending_tasks k M"
  shows "\<exists>y k' M'. xTaskResumeAll k = Some (y, k') \<and> sched_ok k' M' \<and> clock_ok k' M' \<and> dom M' = dom M \<and>
    uxSchedulerSuspended k' = 0 \<and> uxMissedTicks k' = 0 \<and> members M' (xPendingReadyList k) = [] \<and>
    pxCurrentTCB k' = pxCurrentTCB k \<and> ready_list_at k' = ready_list_at k \<and> tcb k' = tcb k \<and>
    y = (0 < n \<or> xMissedYield k \<or> (\<exists>t\<in>P. prio k (pxCurrentTCB k) \<le> prio k t)) \<and> (y \<longrightarrow> pendsv k') \<and>
    xTickCount k' = xTickCount k + uxMissedTicks k \<and>
    sleepers k' M' = {x \<in> sleepers k M - gen ` P. n < remaining k x} \<and>
    (\<forall>x\<in>sleepers k' M'. remaining k' x + n = remaining k x) \<and>
    (\<forall>p<5. set (members M' (ready_list_at k p)) = set (members M (ready_list_at k p)) \<union>
       {gen t | t. t \<in> P \<and> prio k t = p} \<union>
       {x \<in> sleepers k M - gen ` P. remaining k x \<le> n \<and> prio k (pvOwner (itm k x)) = p})"
proof -
  define k0 where "k0 = k\<lparr>uxSchedulerSuspended := 0\<rparr>"
  have f0: "sleepers k0 M = sleepers k M" "remaining k0 = remaining k" "ready_list_at k0 = ready_list_at k"
    "pending_tasks k0 M = P" "clock_ok k0 M"
    using ok(2) by (simp_all add: k0_def sleepers_def remaining_def fun_eq_iff ready_list_at_def pending_tasks_def P_def clock_ok_def)
  have ok0: "sched_ok k0 M" unfolding k0_def by (rule sched_ok_fields(4) [OF ok(1)])
  define b where "b \<longleftrightarrow> (\<exists>t\<in>P. prio k (pxCurrentTCB k) \<le> prio k t)"
  obtain k1 M1 where m: "move_pending False k0 = Some (b, k1)" "sched_ok k1 M1" "clock_ok k1 M1"
    "members M1 (xPendingReadyList k) = []" "readied P k0 M k1 M1"
    using move_pending_ok [OF ok0 f0(5), of False] unfolding f0(4) b_def by (auto simp: k0_def)
  have f1: "uxMissedTicks k1 = uxMissedTicks k" "uxSchedulerSuspended k1 = 0" "xMissedYield k1 = xMissedYield k"
    "pxCurrentTCB k1 = pxCurrentTCB k" "tcb k1 = tcb k" "ready_list_at k1 = ready_list_at k" "task_lists k1 = task_lists k0"
    "xTickCount k1 = xTickCount k" "\<And>x. pvOwner (itm k1 x) = pvOwner (itm k x) \<and> val k1 x = val k x" "dom M1 = dom M"
    "sleepers k1 M1 = sleepers k M - gen ` P" "xPendingReadyList k1 = xPendingReadyList k"
    using m(5) f0(1,3) by (simp_all add: readied_def run_frame_def run_core_def k0_def)
  have r1: "remaining k1 = remaining k" using f1(8,9) by (simp add: remaining_def fun_eq_iff)
  have q1: "\<forall>p<5. set (members M1 (ready_list_at k p)) = set (members M (ready_list_at k p)) \<union> {gen t | t. t \<in> P \<and> prio k t = p}"
    using m(5) f0(3) by (simp add: readied_def k0_def)
  have pl: "xPendingReadyList k \<notin> set (task_lists k1)" using layout_facts(7) [OF sched_parts(2) [OF m(2)]] f1(12) by simp
  obtain k2 M2 where t: "replay_ticks k1 = Some k2" "sched_ok k2 M2" "clock_ok k2 M2" "uxMissedTicks k2 = 0"
    "ticks_passed n k1 M1 k2 M2" "members M2 (xPendingReadyList k) = []"
    using replay_ticks_ok [OF m(2,3) f1(2)] m(4) pl unfolding f1(1) n_def by blast
  have f2: "run_frame k1 k2" "dom M2 = dom M" "xTickCount k2 = xTickCount k + uxMissedTicks k"
    using t(5) f1 by (simp_all add: ticks_passed_def n_def)
  have my: "xMissedYield k2 = xMissedYield k" using f2(1) f1(3) by (simp add: run_frame_def run_core_def)
  have run: "(if 0 < uxMissedTicks k1 then do { k \<leftarrow> replay_ticks k1; Some (True, k) } else Some (b, k1)) = Some (0 < n \<or> b, k2)"
  proof (cases "0 < uxMissedTicks k1")
    case True
    then show ?thesis using t(1) f1(1) by (simp add: n_def unat_gt_0 word_neq_0_conv)
  next
    case False
    then have "replay_ticks k1 = Some k1" by (subst replay_ticks.simps) simp
    then show ?thesis using t(1) False f1(1) by (simp add: n_def unat_gt_0 word_neq_0_conv)
  qed
  define y where "y \<longleftrightarrow> 0 < n \<or> xMissedYield k \<or> b"
  define k' where "k' = (if y then portYIELD_WITHIN_API (k2\<lparr>xMissedYield := False\<rparr>) else k2)"
  have "uxSchedulerSuspended k - 1 = 0" using s(1) by simp
  then have "xTaskResumeAll k = Some (y, k')"
    using s(2) m(1) run my f1(3) by (auto simp: xTaskResumeAll_def Let_def k0_def y_def k'_def)
  moreover have "sched_ok k' M2"
    using t(2) sched_ok_fields(5) [OF sched_ok_fields(6) [OF t(2)]] by (simp add: k'_def portYIELD_WITHIN_API_def)
  moreover have g: "clock_ok k' M2" "uxSchedulerSuspended k' = 0" "uxMissedTicks k' = 0" "pxCurrentTCB k' = pxCurrentTCB k"
    "ready_list_at k' = ready_list_at k" "tcb k' = tcb k" "xTickCount k' = xTickCount k + uxMissedTicks k"
    "sleepers k' M2 = sleepers k2 M2" "remaining k' = remaining k2" "y \<longrightarrow> pendsv k'"
    using t(3,4) f2 f1 by (simp_all add: k'_def portYIELD_WITHIN_API_def clock_ok_def sleepers_def remaining_def fun_eq_iff run_frame_def run_core_def ready_list_at_def)
  moreover have "sleepers k2 M2 = {x \<in> sleepers k M - gen ` P. n < remaining k x}"
    "\<forall>x\<in>sleepers k2 M2. remaining k2 x + n = remaining k x"
    using t(5) by (simp_all add: ticks_passed_def r1 f1(11))
  moreover have "\<forall>p<5. set (members M2 (ready_list_at k p)) = set (members M (ready_list_at k p)) \<union>
       {gen t | t. t \<in> P \<and> prio k t = p} \<union>
       {x \<in> sleepers k M - gen ` P. remaining k x \<le> n \<and> prio k (pvOwner (itm k x)) = p}"
    using t(5) q1 by (simp add: ticks_passed_def r1 f1(5,6,9,11))
  moreover have "y = (0 < n \<or> xMissedYield k \<or> (\<exists>t\<in>P. prio k (pxCurrentTCB k) \<le> prio k t))" by (simp add: y_def b_def)
  ultimately show ?thesis
    by (intro exI [of _ y] exI [of _ k'] exI [of _ M2] conjI) (simp_all only: f2(2) t(6))
qed

end
