(* ===== verification/Sched_Moves.thy ===== *)
theory Sched_Moves
  imports Sched_Ticks
begin

text \<open>
  The operations that move a task: sleeping (\<open>vTaskDelay\<close>, \<open>vTaskDelayUntil\<close>), entering the system,
  waking up from an event list, changes of priority, and blocking on an event list. Each keeps the
  scheduler's invariant; the lemmas say where the task ends up.
\<close>

section \<open>Going to sleep\<close>

lemma set_item_value_frame [simp]:
  "list_store.more (set_item_value x v k) = list_store.more k" "lst (set_item_value x v k) = lst k"
  "pvOwner (itm (set_item_value x v k) y) = pvOwner (itm k y)"
  "pvContainer (itm (set_item_value x v k) y) = pvContainer (itm k y)"
  "val (set_item_value x v k) y = (if y = x then v else val k y)"
  "nx (set_item_value x v k) = nx k" "pv (set_item_value x v k) = pv k"
  by (simp_all add: set_item_value_def upd_item_def fun_eq_iff)

lemmas set_item_value_kernel [simp] = more_frame [OF set_item_value_frame(1)]

lemma set_item_value_lists:
  assumes "lists_ok k M" "\<And>l. l \<in> dom M \<Longrightarrow> x \<noteq> xListEnd l"
  shows "lists_ok (set_item_value x v k) M"
proof -
  have "list_rep (set_item_value x v k) l p q" if "list_rep k l p q" "x \<noteq> xListEnd l" for l p q
    using that unfolding list_rep_def ring_def set_item_value_frame by simp
  then show ?thesis using assms unfolding lists_ok_def by blast
qed

text \<open>The task has been put to sleep for \<open>d\<close> ticks; the other sleepers are as before.\<close>

definition asleep :: "'a kernel_scheme \<Rightarrow> list_map \<Rightarrow> u32 \<Rightarrow> nat \<Rightarrow> 'a kernel_scheme \<Rightarrow> list_map \<Rightarrow> bool" where
  "asleep k M t d k' M' \<longleftrightarrow>
     dom M' = dom M \<and> tcb k' = tcb k \<and> ready_list_at k' = ready_list_at k \<and> xTickCount k' = xTickCount k \<and>
     sleepers k' M' = insert (gen t) (sleepers k M) \<and> remaining k' (gen t) = d \<and>
     (\<forall>x\<in>sleepers k M. x \<noteq> gen t \<longrightarrow> remaining k' x = remaining k x) \<and>
     (\<forall>p<5. members M' (ready_list_at k p) = remove1 (gen t) (members M (ready_list_at k p)))"

lemma sleep_step:
  assumes ok: "sched_ok k M" and t: "gen t \<in> set (members M l)" "l \<in> set (task_lists k)"
    and L: "L \<in> {pxDelayedTaskList k, pxOverflowDelayedTaskList k}"
  obtains k' M' where "vListInsert L (gen t) (set_item_value (gen t) w (remove_generic t k)) = Some k'"
    "sched_ok k' M'" "dom M' = dom M" "same_frame t k k'" "tcb k' = tcb k" "\<And>x. val k' x = (if x = gen t then w else val k x)"
    "\<And>l'. set (members M' l') = set (members M l') - {gen t} \<union> (if l' = L then {gen t} else {})"
    "\<And>l'. l' \<noteq> L \<Longrightarrow> l' \<in> dom M \<Longrightarrow> members M' l' = remove1 (gen t) (members M l') \<and> in_order M' l' = remove1 (gen t) (in_order M l')"
proof -
  note T = on_list_task [OF ok t]
  have ly: "layout k M" and lo: "lists_ok k M" using ok by (auto simp: sched_ok_def)
  have Lt: "L \<in> set (task_lists k)" "L \<in> dom M" using layout_facts(4,5) [OF ly] L by auto
  define k1 where "k1 = remove_generic t k"
  define k2 where "k2 = set_item_value (gen t) w k1"
  define M1 where "M1 = drop_item l (gen t) M"
  note G = drop_generic [OF ok t, folded k1_def M1_def]
  note 1 = G(1,2) and d1 = G(3) and m1 = G(4,5) and s1 = G(6)
  have lo2: "lists_ok k2 M1" unfolding k2_def by (rule set_item_value_lists [OF 1(1)]) (use 1(2) in \<open>simp add: free_item_members\<close>)
  have Ld: "L \<in> dom M1" using Lt(2) d1 by simp
  obtain k' c where I: "vListInsert L (gen t) k2 = Some k'" "lists_ok k' (M1(L \<mapsto> c))"
    "in_order (M1(L \<mapsto> c)) L = ordered_insert (val k2) (gen t) (in_order M1 L)"
    "\<And>l'. set (members (M1(L \<mapsto> c)) l') = (if l' = L then insert (gen t) (set (members M1 L)) else set (members M1 l'))"
    "list_store.more k' = list_store.more k2" "\<And>y. pvOwner (itm k' y) = pvOwner (itm k2 y)" "val k' = val k2"
    "\<And>y. pvContainer (itm k' y) = (if y = gen t then L else pvContainer (itm k2 y))"
    by (rule insert_ok [OF lo2 Ld 1(2)]) (rule that)
  define M' where "M' = M1(L \<mapsto> c)"
  have f1: "same_frame t k k2" unfolding k2_def k1_def
    by (simp add: same_frame_def remove_generic_def)
  have f': "same_frame t k2 k'" using more_frame [OF I(5)] I(6,8) fun_cong [OF I(7)] by (simp add: same_frame_def)
  have fr: "same_frame t k k'" using f1 f' by (rule same_frame_trans)
  have tcb: "tcb k' = tcb k" "uxTopReadyPriority k' = uxTopReadyPriority k"
    using more_frame [OF I(5)] by (simp_all add: k2_def k1_def)
  have v: "val k' x = (if x = gen t then w else val k x)" for x
    using fun_cong [OF I(7), of x] fun_cong [OF remove_frame(3), of t k x] by (simp add: k2_def k1_def)
  have dm: "dom M' = dom M" using d1 Lt(2) by (auto simp: M'_def)
  have mem: "set (members M' l') = set (members M l') - {gen t} \<union> (if l' = L then {gen t} else {})" for l'
    using I(4) [of l'] s1 [of l'] s1 [of L] by (auto simp: M'_def)
  have sl: "sleep_ok k' M'"
  proof -
    have "sorted (map (val k') (in_order M' D))" if D: "D \<in> {pxDelayedTaskList k, pxOverflowDelayedTaskList k}" for D
    proof (cases "D = L")
      case True
      have "sorted (map (val k') (in_order M1 L))" unfolding m1 by (rule sorted_kept [OF ok T(1) fr L])
      then show ?thesis using ordered_insert_sorted [of "val k'" "in_order M1 L" "gen t"] I(3,7) True by (simp add: M'_def)
    next
      case False
      then have "in_order M' D = in_order M1 D" by (simp add: M'_def in_order_def)
      then show ?thesis unfolding m1 using sorted_kept [OF ok T(1) fr D] by simp
    qed
    then show ?thesis using fr unfolding sleep_ok_def same_frame_def by auto
  qed
  have p5: "prio k t < 5" using T(1) by (simp add: task_ok_def)
  have "pvContainer (itm k' (evt t)) = pvContainer (itm k (evt t))" using I(8) [of "evt t"] by (simp add: k2_def k1_def)
  note E = event_item_kept [OF T(1) this dm]
  have rk: "ready_ok k M" using sched_parts(4) [OF ok] .
  have "sched_ok k' M'"
  proof (rule sched_move [OF ok T(1) _ dm fr _ _ Lt(1) _ _ E _ _ sl])
    show "lists_ok k' M'" using I(2) by (simp add: M'_def)
    show "q = prio k' t \<and> q \<le> uxTopReadyPriority k'" if "q < 5" "L = ready_list_at k q" for q
      using layout_facts(3) [OF ly that(1)] that(2) L by auto
  qed (use tcb p5 mem rk in \<open>auto simp: ready_ok_def\<close>)
  moreover have "members M' l' = remove1 (gen t) (members M l') \<and> in_order M' l' = remove1 (gen t) (in_order M l')" if "l' \<noteq> L" for l'
    using that m1 [of l'] by (simp add: M'_def members_def in_order_def)
  ultimately show thesis by (intro that [OF I(1) [unfolded k2_def k1_def] _ dm fr tcb(1) v mem])
qed

lemma plus_wrap: "(d :: u32) \<noteq> 0 \<Longrightarrow> \<not> c + d < c \<Longrightarrow> c < c + d"
  by (metis add_cancel_right_right linorder_neqE)

lemma prvAddCurrentTaskToDelayedList_ok:
  assumes ok: "sched_ok k M" "clock_ok k M" and t: "t = pxCurrentTCB k" "gen t \<in> set (members M l)" "l \<in> set (task_lists k)"
    and d: "d \<noteq> 0"
  shows "\<exists>k' M'. prvAddCurrentTaskToDelayedList (xTickCount k + d) (remove_generic t k) = Some k' \<and>
    sched_ok k' M' \<and> clock_ok k' M' \<and> asleep k M t (unat d) k' M' \<and> run_core k k' \<and> uxMissedTicks k' = uxMissedTicks k \<and>
    (\<forall>e\<in>dom M - set (task_lists k). members M' e = members M e) \<and> (\<forall>e\<in>dom M - set (task_lists k). in_order M' e = in_order M e)"
proof -
  let ?w = "xTickCount k + d" and ?D = "pxDelayedTaskList k" and ?O = "pxOverflowDelayedTaskList k"
  define L where "L = (if ?w < xTickCount k then ?O else ?D)"
  have ly: "layout k M" and lo: "lists_ok k M" using ok(1) by (auto simp: sched_ok_def)
  have L: "L \<in> {?D, ?O}" by (simp add: L_def)
  have Lt: "L \<in> set (task_lists k)" using layout_facts(4) [OF ly] L by auto
  obtain k1 M' where S: "vListInsert L (gen t) (set_item_value (gen t) ?w (remove_generic t k)) = Some k1"
    "sched_ok k1 M'" "dom M' = dom M" "same_frame t k k1" "tcb k1 = tcb k" "\<And>x. val k1 x = (if x = gen t then ?w else val k x)"
    "\<And>l'. set (members M' l') = set (members M l') - {gen t} \<union> (if l' = L then {gen t} else {})"
    "\<And>l'. l' \<noteq> L \<Longrightarrow> l' \<in> dom M \<Longrightarrow> members M' l' = remove1 (gen t) (members M l') \<and> in_order M' l' = remove1 (gen t) (in_order M l')"
    by (rule sleep_step [OF ok(1) t(2,3) L, of ?w]) (rule that)
  define k' where "k' = (if L = ?D \<and> ?w < xNextTaskUnblockTime k1 then k1\<lparr>xNextTaskUnblockTime := ?w\<rparr> else k1)"
  have f: "pxDelayedTaskList k1 = ?D" "pxOverflowDelayedTaskList k1 = ?O" "xTickCount k1 = xTickCount k"
    "xNextTaskUnblockTime k1 = xNextTaskUnblockTime k" "ready_list_at k1 = ready_list_at k" using S(4) by (simp_all add: same_frame_def)
  have f': "pxDelayedTaskList k' = ?D" "pxOverflowDelayedTaskList k' = ?O" "xTickCount k' = xTickCount k" "itm k' = itm k1"
    "tcb k' = tcb k" "ready_list_at k' = ready_list_at k" using f S(5) by (simp_all add: k'_def ready_list_at_def fun_eq_iff)
  have DO: "?D \<noteq> ?O" using layout_facts(8) [OF ly] .
  have cur: "pxCurrentTCB (remove_generic t k) = t" "xTickCount (remove_generic t k) = xTickCount k"
    "pxOverflowDelayedTaskList (remove_generic t k) = ?O" "pxDelayedTaskList (remove_generic t k) = ?D"
    using t(1) by (simp_all add: remove_generic_def)
  have run: "prvAddCurrentTaskToDelayedList ?w (remove_generic t k) = Some k'"
    using S(1) DO cur unfolding prvAddCurrentTaskToDelayedList_def Let_def k'_def
    by (auto simp: L_def set_item_value_kernel split: if_splits)
  have v: "val k' x = (if x = gen t then ?w else val k x)" for x using S(6) [of x] f'(4) by simp
  have sok: "sched_ok k' M'" using S(2) sched_ok_fields(1) [OF S(2)] by (simp add: k'_def)
  have nx: "xNextTaskUnblockTime k' \<le> xNextTaskUnblockTime k" "L = ?D \<Longrightarrow> xNextTaskUnblockTime k' \<le> ?w"
    using f(4) by (auto simp: k'_def)
  have c: "clock_ok k' M'"
    unfolding clock_ok_def f'(1-3)
  proof (intro conjI ballI)
    fix x assume x: "x \<in> set (members M' ?D)"
    have "xTickCount k < val k' x \<and> xNextTaskUnblockTime k' \<le> val k' x"
    proof (cases "x = gen t")
      case True
      then have "L = ?D" using x S(7) [of ?D] by (auto split: if_splits)
      moreover from this have "\<not> ?w < xTickCount k" using DO by (auto simp: L_def split: if_splits)
      ultimately show ?thesis using True v nx(2) plus_wrap [OF d] by simp
    next
      case False
      then have "x \<in> set (members M ?D)" using x S(7) [of ?D] by (auto split: if_splits)
      then show ?thesis using ok(2) nx(1) False v unfolding clock_ok_def by (metis order_trans)
    qed
    then show "xTickCount k < val k' x" "xNextTaskUnblockTime k' \<le> val k' x" by auto
  next
    fix x assume x: "x \<in> set (members M' ?O)"
    show "val k' x < xTickCount k"
    proof (cases "x = gen t")
      case True
      then have "L = ?O" using x S(7) [of ?O] by (auto split: if_splits)
      then show ?thesis using True v DO by (auto simp: L_def split: if_splits)
    next
      case False
      then have "x \<in> set (members M ?O)" using x S(7) [of ?O] by (auto split: if_splits)
      then show ?thesis using ok(2) False v unfolding clock_ok_def by metis
    qed
  qed
  have "sleepers k' M' = insert (gen t) (sleepers k M)"
    unfolding sleepers_def f'(1,2) using S(7) [of ?D] S(7) [of ?O] L by auto
  moreover have "members M' (ready_list_at k p) = remove1 (gen t) (members M (ready_list_at k p))" if "p < 5" for p
    using S(8) [of "ready_list_at k p"] layout_facts(1,3) [OF ly that] L by auto
  ultimately have "asleep k M t (unat d) k' M'"
    using S(3) f' v by (simp add: asleep_def remaining_def)
  moreover have "members M' e = members M e \<and> in_order M' e = in_order M e" if e: "e \<in> dom M - set (task_lists k)" for e
  proof -
    have "gen t \<notin> set (members M e)" using member_unique [OF lo t(2), of e] t(3) e by auto
    then show ?thesis using S(8) [of e] e Lt by (auto simp: remove1_idem)
  qed
  moreover have "run_core k k'" using S(4,5) by (simp add: k'_def same_frame_def run_core_def ready_list_at_def fun_eq_iff task_lists_def)
  moreover have "uxMissedTicks k' = uxMissedTicks k" using S(4) by (simp add: k'_def same_frame_def)
  ultimately show ?thesis using run sok c by blast
qed

section \<open>Delays\<close>

lemma suspend_all_frame:
  "sleepers (vTaskSuspendAll k) M = sleepers k M" "remaining (vTaskSuspendAll k) = remaining k"
  "ready_list_at (vTaskSuspendAll k) = ready_list_at k" "task_lists (vTaskSuspendAll k) = task_lists k"
  "clock_ok (vTaskSuspendAll k) M = clock_ok k M" "asleep (vTaskSuspendAll k) M t d k' M' = asleep k M t d k' M'"
  by (simp_all add: vTaskSuspendAll_def sleepers_def remaining_def fun_eq_iff ready_list_at_def task_lists_def clock_ok_def asleep_def)

lemma resume_quiet:
  assumes ok: "sched_ok k M" "clock_ok k M" and s: "uxSchedulerSuspended k = 1" "0 < uxCurrentNumberOfTasks k"
    and q: "uxMissedTicks k = 0" "members M (xPendingReadyList k) = []"
  shows "\<exists>k'. xTaskResumeAll k = Some (xMissedYield k, k') \<and> sched_ok k' M \<and> clock_ok k' M \<and> uxSchedulerSuspended k' = 0 \<and>
    sleepers k' M = sleepers k M \<and> remaining k' = remaining k \<and> ready_list_at k' = ready_list_at k \<and> tcb k' = tcb k \<and>
    xTickCount k' = xTickCount k \<and> (xMissedYield k \<longrightarrow> pendsv k') \<and> uxMissedTicks k' = 0"
proof -
  define k0 where "k0 = k\<lparr>uxSchedulerSuspended := 0\<rparr>"
  define k' where "k' = (if xMissedYield k then portYIELD_WITHIN_API (k0\<lparr>xMissedYield := False\<rparr>) else k0)"
  have ok0: "sched_ok k0 M" unfolding k0_def by (rule sched_ok_fields(4) [OF ok(1)])
  have "list_empty (xPendingReadyList k0) k0"
    using lists_empty [OF sched_parts(1) [OF ok0] layout_facts(6) [OF sched_parts(2) [OF ok0]]] q(2) by (simp add: k0_def in_order_Nil)
  then have "move_pending False k0 = Some (False, k0)" by (subst move_pending.simps) simp
  moreover have "uxSchedulerSuspended k - 1 = 0" using s(1) by simp
  ultimately have "xTaskResumeAll k = Some (xMissedYield k, k')"
    using s(2) q(1) by (auto simp: xTaskResumeAll_def Let_def k0_def k'_def)
  moreover have "sched_ok k' M"
    using ok0 sched_ok_fields(5) [OF sched_ok_fields(6) [OF ok0]] by (simp add: k'_def portYIELD_WITHIN_API_def)
  ultimately show ?thesis using ok(2) q(1)
    by (simp add: k'_def k0_def portYIELD_WITHIN_API_def clock_ok_def sleepers_def remaining_def fun_eq_iff ready_list_at_def)
qed

text \<open>A running task: it is on a list, the scheduler is not suspended and nothing is pending.\<close>

definition running :: "'a kernel_scheme \<Rightarrow> list_map \<Rightarrow> bool" where
  "running k M \<longleftrightarrow> sched_ok k M \<and> clock_ok k M \<and> on_list k M (pxCurrentTCB k) \<and> uxSchedulerSuspended k = 0 \<and>
     uxMissedTicks k = 0 \<and> members M (xPendingReadyList k) = [] \<and> 0 < uxCurrentNumberOfTasks k"

lemma sleep_and_resume:
  assumes r: "running k M" and d: "d \<noteq> 0"
  shows "\<exists>k1 y k' M'. prvAddCurrentTaskToDelayedList (xTickCount k + d) (remove_generic (pxCurrentTCB k) (vTaskSuspendAll k)) = Some k1 \<and>
    xTaskResumeAll k1 = Some (y, k') \<and> (y \<longrightarrow> pendsv k') \<and> sched_ok k' M' \<and> clock_ok k' M' \<and> uxSchedulerSuspended k' = 0 \<and>
    asleep k M (pxCurrentTCB k) (unat d) k' M'"
proof -
  let ?t = "pxCurrentTCB k" and ?k = "vTaskSuspendAll k"
  have ok: "sched_ok ?k M" unfolding vTaskSuspendAll_def using r by (intro sched_ok_fields(4)) (simp add: running_def)
  obtain l where l: "gen ?t \<in> set (members M l)" "l \<in> set (task_lists ?k)"
    using r by (auto simp: running_def on_list_def suspend_all_frame)
  have ck: "clock_ok ?k M" and cur: "?t = pxCurrentTCB ?k" and tk: "xTickCount ?k = xTickCount k" and P: "xPendingReadyList ?k = xPendingReadyList k"
    using r by (simp_all add: running_def suspend_all_frame) (simp_all add: vTaskSuspendAll_def)
  obtain k1 M' where 1: "prvAddCurrentTaskToDelayedList (xTickCount k + d) (remove_generic ?t ?k) = Some k1"
    "sched_ok k1 M'" "clock_ok k1 M'" "asleep ?k M ?t (unat d) k1 M'" "run_core ?k k1" "uxMissedTicks k1 = uxMissedTicks ?k"
    "\<forall>e\<in>dom M - set (task_lists ?k). members M' e = members M e"
    using prvAddCurrentTaskToDelayedList_ok [OF ok ck cur l d] unfolding tk by blast
  have "uxSchedulerSuspended k1 = 1" "0 < uxCurrentNumberOfTasks k1" "uxMissedTicks k1 = 0"
    using 1(5,6) r by (simp_all add: run_core_def vTaskSuspendAll_def running_def)
  moreover have "members M' (xPendingReadyList k1) = []"
    using 1(5,7) layout_facts(6,7) [OF sched_parts(2) [OF ok]] r P by (simp add: run_core_def running_def)
  ultimately obtain k' where 2: "xTaskResumeAll k1 = Some (xMissedYield k1, k')" "sched_ok k' M'" "clock_ok k' M'" "uxSchedulerSuspended k' = 0"
    "sleepers k' M' = sleepers k1 M'" "remaining k' = remaining k1" "ready_list_at k' = ready_list_at k1" "tcb k' = tcb k1"
    "xTickCount k' = xTickCount k1" "xMissedYield k1 \<longrightarrow> pendsv k'"
    using resume_quiet [OF 1(2,3)] by blast
  have "asleep k M ?t (unat d) k' M'" using 1(4) 2(5-9) unfolding suspend_all_frame by (simp add: asleep_def)
  then show ?thesis using 1(1) 2 by blast
qed

lemma yield_frame:
  "sched_ok (portYIELD_WITHIN_API k) M = sched_ok k M" "clock_ok (portYIELD_WITHIN_API k) M = clock_ok k M"
  "asleep k0 M0 t d (portYIELD_WITHIN_API k) M = asleep k0 M0 t d k M" "pendsv (portYIELD_WITHIN_API k)"
  "uxSchedulerSuspended (portYIELD_WITHIN_API k) = uxSchedulerSuspended k" "tcb (portYIELD_WITHIN_API k) = tcb k"
proof -
  show "sched_ok (portYIELD_WITHIN_API k) M = sched_ok k M"
  proof
    assume "sched_ok (portYIELD_WITHIN_API k) M"
    from sched_ok_fields(5) [OF this, of "pendsv k"] show "sched_ok k M" by (simp add: portYIELD_WITHIN_API_def)
  qed (simp add: portYIELD_WITHIN_API_def sched_ok_fields(5))
qed (simp_all add: portYIELD_WITHIN_API_def clock_ok_def asleep_def sleepers_def remaining_def ready_list_at_def fun_eq_iff)

lemma vTaskDelay_ok:
  assumes "running k M" "d \<noteq> 0"
  shows "\<exists>k' M'. vTaskDelay d k = Some k' \<and> sched_ok k' M' \<and> clock_ok k' M' \<and> uxSchedulerSuspended k' = 0 \<and> pendsv k' \<and>
    asleep k M (pxCurrentTCB k) (unat d) k' M'"
proof -
  obtain k1 y k' M' where S: "prvAddCurrentTaskToDelayedList (xTickCount k + d) (remove_generic (pxCurrentTCB k) (vTaskSuspendAll k)) = Some k1"
    "xTaskResumeAll k1 = Some (y, k')" "y \<longrightarrow> pendsv k'" "sched_ok k' M'" "clock_ok k' M'" "uxSchedulerSuspended k' = 0"
    "asleep k M (pxCurrentTCB k) (unat d) k' M'" using sleep_and_resume [OF assms] by blast
  let ?k = "if y then k' else portYIELD_WITHIN_API k'"
  have "pxCurrentTCB (vTaskSuspendAll k) = pxCurrentTCB k" "xTickCount (vTaskSuspendAll k) = xTickCount k"
    by (simp_all add: vTaskSuspendAll_def)
  then have "vTaskDelay d k = Some ?k" using S(1,2) assms(2) by (simp add: vTaskDelay_def Let_def word_neq_0_conv)
  then show ?thesis using S(3-7) by (intro exI [of _ ?k] exI [of _ M']) (auto simp: yield_frame)
qed

primrec tick_times :: "nat \<Rightarrow> 'a kernel_scheme \<Rightarrow> 'a kernel_scheme option" where
  "tick_times 0 k = Some k"
| "tick_times (Suc n) k = Option.bind (vTaskIncrementTick k) (tick_times n)"

lemma tick_times_ok:
  assumes "sched_ok k M" "clock_ok k M" "uxSchedulerSuspended k = 0"
  shows "\<exists>k' M'. tick_times n k = Some k' \<and> sched_ok k' M' \<and> clock_ok k' M' \<and> ticks_passed n k M k' M'"
  using assms
proof (induction n arbitrary: k M)
  case 0
  then show ?case using ticks_passed_0 [of k M] by auto
next
  case (Suc n)
  obtain k1 M1 where t: "vTaskIncrementTick k = Some k1" "sched_ok k1 M1" "clock_ok k1 M1" "tick_step k M k1 M1" "run_frame k k1" "dom M1 = dom M"
    using tick_ok [OF Suc(2-4)] by blast
  have "uxSchedulerSuspended k1 = 0" using t(5) Suc(4) by (simp add: run_frame_def run_core_def)
  from Suc(1) [OF t(2,3) this] obtain k' M' where "tick_times n k1 = Some k'" "sched_ok k' M'" "clock_ok k' M'" "ticks_passed n k1 M1 k' M'"
    by blast
  then show ?case using t ticks_passed_Suc [OF t(4-6)] by auto
qed

lemma delay_until_exact: "delay_until_decision prev (prev + inc) now \<longleftrightarrow> now - prev < inc"
  using unat_u32_less [of prev] unat_u32_less [of inc] unat_u32_less [of now]
  by (auto simp: delay_until_decision_def word_less_nat_alt unat_plus_if' unat_sub_if' split: if_splits)

section \<open>The first lists and new tasks\<close>

lemma xListEnd_inj [simp]: "xListEnd l = xListEnd l' \<longleftrightarrow> l = l'"
  by (simp add: xListEnd_def)

definition empty_lists :: "u32 list \<Rightarrow> list_map" where
  "empty_lists ls = (\<lambda>l. if l \<in> set ls then Some ([], []) else None)"

lemma vListInitialise_more [simp]: "list_store.more (vListInitialise l k) = list_store.more k"
  by (simp add: vListInitialise_def upd_item_def upd_list_def Let_def)

lemmas vListInitialise_kernel [simp] = more_frame [OF vListInitialise_more]

lemma vListInitialise_items:
  "a \<noteq> xListEnd l \<Longrightarrow> itm (vListInitialise l k) a = itm k a" "l' \<noteq> l \<Longrightarrow> lst (vListInitialise l k) l' = lst k l'"
  by (simp_all add: vListInitialise_def upd_item_def upd_list_def Let_def)

lemma init_lists_ok:
  "lists_ok (fold vListInitialise ls k) (empty_lists ls) \<and> list_store.more (fold vListInitialise ls k) = list_store.more k"
proof (induction ls rule: rev_induct)
  case (snoc l ls)
  let ?s = "fold vListInitialise ls k"
  have "list_rep (vListInitialise l ?s) l' [] []" if "l' \<in> set (ls @ [l])" for l'
  proof (cases "l' = l")
    case False
    then have "empty_lists ls l' = Some ([], [])" using that by (simp add: empty_lists_def)
    then have "list_rep ?s l' [] []" using lists_okD [of ?s "empty_lists ls" l'] snoc by fastforce
    then show ?thesis by (rule list_rep_frame) (use False in \<open>simp_all add: vListInitialise_items\<close>)
  qed (simp add: vListInitialise_rep)
  then have "lists_ok (vListInitialise l ?s) (empty_lists (ls @ [l]))"
    by (auto simp: lists_ok_def empty_lists_def footprint_def split: if_splits)
  then show ?case using snoc by simp
qed (simp add: lists_ok_def empty_lists_def)

lemma prvInitialiseTaskLists_eq:
  "prvInitialiseTaskLists k = (fold vListInitialise (ready_lists k @ [xDelayedTaskList1 k, xDelayedTaskList2 k, xPendingReadyList k,
     xTasksWaitingTermination k, xSuspendedTaskList k]) k)
     \<lparr>pxDelayedTaskList := xDelayedTaskList1 k, pxOverflowDelayedTaskList := xDelayedTaskList2 k\<rparr>"
  by (simp add: prvInitialiseTaskLists_def Let_def)

lemma init_sched_ok:
  assumes d: "distinct (xPendingReadyList k # task_lists k)" "0 \<notin> set (xPendingReadyList k # task_lists k)"
    and top: "uxTopReadyPriority k < 5"
  shows "sched_ok (prvInitialiseTaskLists k) (empty_lists (xPendingReadyList k # task_lists k))"
    "clock_ok (prvInitialiseTaskLists k) (empty_lists (xPendingReadyList k # task_lists k))"
proof -
  let ?ls = "ready_lists k @ [xDelayedTaskList1 k, xDelayedTaskList2 k, xPendingReadyList k, xTasksWaitingTermination k, xSuspendedTaskList k]"
  let ?s = "fold vListInitialise ?ls k" and ?k = "prvInitialiseTaskLists k"
  let ?M = "empty_lists (xPendingReadyList k # task_lists k)"
  have M: "?M = empty_lists ?ls" by (auto simp: empty_lists_def task_lists_def fun_eq_iff)
  have m: "list_store.more ?s = list_store.more k" and l: "lists_ok ?s ?M" using init_lists_ok [of ?ls k] M by auto
  note f = more_frame [OF m]
  have e: "members ?M l = []" "in_order ?M l = []" for l by (simp_all add: members_def in_order_def empty_lists_def)
  have dm: "dom ?M = set (xPendingReadyList k # task_lists k)" by (auto simp: empty_lists_def split: if_splits)
  have g: "task_lists ?k = task_lists k" "xPendingReadyList ?k = xPendingReadyList k" "uxTopReadyPriority ?k = uxTopReadyPriority k"
    "pxDelayedTaskList ?k = xDelayedTaskList1 k" "pxOverflowDelayedTaskList ?k = xDelayedTaskList2 k"
    "xDelayedTaskList1 ?k = xDelayedTaskList1 k" "xDelayedTaskList2 ?k = xDelayedTaskList2 k"
    unfolding prvInitialiseTaskLists_eq using f by (simp_all add: task_lists_def ready_list_at_def)
  have "lists_ok ?k ?M" using l unfolding prvInitialiseTaskLists_eq by (subst lists_ok_cong [where k = ?s]) simp_all
  then show "sched_ok ?k ?M"
    unfolding sched_ok_def layout_def items_ok_def ready_ok_def sleep_ok_def e dm g using d top by simp
  show "clock_ok ?k ?M" by (simp add: clock_ok_def e)
qed

lemma new_task_ok:
  assumes ok: "sched_ok k M" "clock_ok k M" and t: "task_ok k M t" "pvContainer (itm k (evt t)) = 0" "free_item M (gen t)"
  defines "k' \<equiv> prvAddTaskToReadyQueue t k" and "M' \<equiv> push (ready_list_at k (prio k t)) (gen t) M"
  shows "sched_ok k' M'" "clock_ok k' M'" "dom M' = dom M"
    "members M' l = members M l @ (if l = ready_list_at k (prio k t) then [gen t] else [])"
    "sleepers k' M' = sleepers k M"
proof -
  let ?r = "ready_list_at k (prio k t)"
  have ly: "layout k M" and lo: "lists_ok k M" and rk: "ready_ok k M" using ok(1) by (auto simp: sched_ok_def)
  have p5: "prio k t < 5" using t(1) by (simp add: task_ok_def)
  have r: "?r \<in> dom M" "?r \<in> set (task_lists k)" "?r \<notin> {pxDelayedTaskList k, pxOverflowDelayedTaskList k}"
    using layout_facts(1-3) [OF ly p5] by auto
  have fr: "same_frame t k k'" by (simp add: k'_def)
  show dm: "dom M' = dom M" using r(1) by (simp add: M'_def)
  show mm: "members M' l = members M l @ (if l = ?r then [gen t] else [])" for l using r(1) by (simp add: M'_def)
  have io: "in_order M' D = in_order M D" if "D \<in> {pxDelayedTaskList k, pxOverflowDelayedTaskList k}" for D
    unfolding M'_def by (rule in_order_push [OF r(1)]) (use that r(3) in auto)
  have ng: "gen t \<notin> set (members M l)" for l using free_not_member [OF t(3)] .
  have "free_item M (evt t)" using t(1,2) by (simp add: task_ok_def)
  then have fe: "pvContainer (itm k' (evt t)) = 0 \<and> free_item M' (evt t)"
    using t(2) r(1) by (simp add: k'_def M'_def free_push)
  have "sleep_ok k' M'" by (rule sleep_ok_left [OF ok(1) t(1) fr]) (use io ng in \<open>simp add: remove1_idem\<close>)
  then show "sched_ok k' M'"
  proof (rule sched_move [OF ok(1) t(1) _ dm fr _ _ r(2) _ _ disjI1 [OF fe], rotated -1])
    show "lists_ok k' M'" using push_top_ok [OF lo r(1) t(3)] by (simp add: k'_def M'_def)
    show "q = prio k' t \<and> q \<le> uxTopReadyPriority k'" if "q < 5" "?r = ready_list_at k q" for q
      using ready_list_neq [OF p5 that(1)] that(2) by (auto simp: k'_def)
  qed (use p5 mm rk in \<open>auto simp: k'_def ready_ok_def\<close>)
  have v: "val k' x = val k x" for x using fun_cong [OF add_ready_frame(3), of t k x] by (simp add: k'_def)
  have dl: "members M' D = members M D" if "D \<in> {pxDelayedTaskList k, pxOverflowDelayedTaskList k}" for D using mm [of D] r(3) that by auto
  show "clock_ok k' M'"
    by (rule clock_ok_less [OF ok(2)]) (use fr v dl in \<open>auto simp: same_frame_def\<close>)
  show "sleepers k' M' = sleepers k M" using fr dl by (simp add: sleepers_def same_frame_def)
qed

text \<open>Initialising a control block in memory that no list and no task uses.\<close>

definition fresh :: "'a kernel_scheme \<Rightarrow> list_map \<Rightarrow> u32 \<Rightarrow> bool" where
  "fresh k M t \<longleftrightarrow> free_item M (gen t) \<and> free_item M (evt t) \<and>
     (\<forall>u. on_list k M u \<longrightarrow> u \<noteq> t \<and> evt u \<noteq> gen t \<and> evt u \<noteq> evt t)"

lemma lists_ok_frame:
  assumes "lists_ok k M" "\<And>a. \<not> free_item M a \<Longrightarrow> itm k' a = itm k a" "lst k' = lst k"
  shows "lists_ok k' M"
proof -
  have "list_rep k' l (fst c) (snd c)" if c: "M l = Some c" for l c
  proof (rule list_rep_frame [OF lists_okD [OF assms(1) c]])
    fix a assume "a \<in> set (xListEnd l # fst c @ snd c)"
    then have "\<not> free_item M a" using c unfolding free_item_def footprint_def by blast
    then show "itm k' a = itm k a" by (rule assms(2))
  qed (simp add: assms(3))
  then show ?thesis using assms(1) unfolding lists_ok_def by blast
qed

lemma init_tcb_eqs:
  fixes t name p k
  defines "k' \<equiv> prvInitialiseTCBVariables t name p k" and "q \<equiv> if 5 \<le> p then 4 else p"
  shows "lst k' = lst k" "a \<noteq> gen t \<Longrightarrow> a \<noteq> evt t \<Longrightarrow> itm k' a = itm k a" "u \<noteq> t \<Longrightarrow> tcb k' u = tcb k u"
    "pvOwner (itm k' (gen t)) = t" "pvOwner (itm k' (evt t)) = t" "pvContainer (itm k' (evt t)) = 0" "pvContainer (itm k' (gen t)) = 0"
    "prio k' t = q" "uxBasePriority (tcb k' t) = q" "val k' (evt t) = 5 - q" "pcTaskName (tcb k' t) = (strncpy 32 name)[31 := 0]"
    "pxStack (tcb k' t) = pxStack (tcb k t)"
    "task_lists k' = task_lists k" "ready_list_at k' = ready_list_at k" "xPendingReadyList k' = xPendingReadyList k"
    "xDelayedTaskList1 k' = xDelayedTaskList1 k" "xDelayedTaskList2 k' = xDelayedTaskList2 k"
    "pxDelayedTaskList k' = pxDelayedTaskList k" "pxOverflowDelayedTaskList k' = pxOverflowDelayedTaskList k"
    "uxTopReadyPriority k' = uxTopReadyPriority k" "xTickCount k' = xTickCount k" "xNextTaskUnblockTime k' = xNextTaskUnblockTime k"
    "uxSchedulerSuspended k' = uxSchedulerSuspended k" "uxMissedTicks k' = uxMissedTicks k" "pxCurrentTCB k' = pxCurrentTCB k"
    "uxCurrentNumberOfTasks k' = uxCurrentNumberOfTasks k" "heap k' = heap k" "kmem k' = kmem k" "xSchedulerRunning k' = xSchedulerRunning k"
  by (simp_all add: k'_def q_def prvInitialiseTCBVariables_def Let_def upd_tcb_def vListInitialiseItem_def set_item_owner_def
      set_item_value_def upd_item_def task_lists_def ready_list_at_def fun_eq_iff)

lemma init_tcb_ok:
  fixes name p
  assumes ok: "sched_ok k M" "clock_ok k M" and f: "fresh k M t"
  defines "k' \<equiv> prvInitialiseTCBVariables t name p k"
  shows "sched_ok k' M" "clock_ok k' M" "task_ok k' M t"
proof -
  note I = init_tcb_eqs [where t = t and name = name and p = p and k = k, folded k'_def]
  have ly: "layout k M" and lo: "lists_ok k M" and rk: "ready_ok k M" and io: "items_ok k M" and sl: "sleep_ok k M"
    using ok(1) by (auto simp: sched_ok_def)
  have ft: "free_item M (gen t)" "free_item M (evt t)" using f by (simp_all add: fresh_def)
  have same: "itm k' a = itm k a" if "\<not> free_item M a" for a using that ft I(2) [of a] by metis
  have lo': "lists_ok k' M" using lo same I(1) by (rule lists_ok_frame)
  have on: "x \<in> set (members M l) \<Longrightarrow> \<not> free_item M x" for x l using free_not_member by blast
  have other: "task_ok k' M u" if u: "task_ok k M u" "on_list k M u" for u
  proof -
    have ne: "u \<noteq> t" "evt u \<noteq> gen t" "evt u \<noteq> evt t" using f u(2) by (auto simp: fresh_def)
    have "itm k' (gen u) = itm k (gen u)" using same on u(2) unfolding on_list_def by blast
    then show ?thesis using u(1) I(2) [OF ne(2,3)] I(3) [OF ne(1)] I(13) by (simp add: task_ok_def)
  qed
  have "items_ok k' M"
    unfolding items_ok_def I(13)
  proof (intro conjI ballI)
    fix l x assume l: "l \<in> set (task_lists k)" and x: "x \<in> set (members M l)"
    obtain u where u: "x = gen u" "task_ok k M u" using generic_itemE [OF ok(1) l x] by metis
    then show "\<exists>u. x = gen u \<and> task_ok k' M u" using other [OF u(2)] l x by (auto simp: on_list_def)
  next
    fix l x assume l: "l \<in> dom M - set (task_lists k)" and x: "x \<in> set (members M l)"
    obtain u l' where u: "x = evt u" "task_ok k M u" "l' \<in> set (task_lists k)" "gen u \<in> set (members M l')"
      using event_itemE [OF ok(1) _ _ x] l by blast
    then show "\<exists>u. x = evt u \<and> task_ok k' M u \<and> (\<exists>l'\<in>set (task_lists k). gen u \<in> set (members M l'))"
      using other [OF u(2)] by (auto simp: on_list_def)
  qed
  moreover have "ready_ok k' M"
    unfolding ready_ok_def I(14,20)
  proof (intro conjI allI impI)
    fix q u assume q: "q < 5" "gen u \<in> set (members M (ready_list_at k q))"
    have "on_list k M u" using q layout_facts(2) [OF ly q(1)] by (auto simp: on_list_def)
    then have "u \<noteq> t" using f by (auto simp: fresh_def)
    then show "prio k' u = q" "q \<le> uxTopReadyPriority k" using rk q I(3) by (auto simp: ready_ok_def)
  qed (use rk in \<open>simp add: ready_ok_def\<close>)
  moreover have vs: "val k' x = val k x" if "x \<in> set (members M l)" for x l using same [OF on [OF that]] by simp
  moreover have mp: "map (val k') (in_order M D) = map (val k) (in_order M D)" for D
    by (rule map_cong [OF refl], rule vs [of _ D]) simp
  moreover have "sleep_ok k' M" using sl unfolding sleep_ok_def I(18,19) mp .
  moreover have "layout k' M" using ly by (simp add: layout_def I)
  ultimately show "sched_ok k' M" using lo' by (simp add: sched_ok_def)
  show "clock_ok k' M" using ok(2) vs by (simp add: clock_ok_def I)
  show "task_ok k' M t" using ft(2) by (simp add: task_ok_def I not_le)
qed

section \<open>Event lists\<close>

lemma event_wakes_ok:
  assumes ok: "sched_ok k M" "clock_ok k M" and s: "uxSchedulerSuspended k = 0"
    and e: "e \<in> dom M" "e \<notin> set (task_lists k)" "in_order M e = evt t # es"
  shows "\<exists>k' M'. xTaskRemoveFromEventList e k = (prio k (pxCurrentTCB k) \<le> prio k t, k') \<and> sched_ok k' M' \<and> clock_ok k' M' \<and>
    in_order M' e = es \<and> readied {t} k M k' M' \<and> (\<forall>e'. e' \<notin> set (task_lists k) \<longrightarrow> e' \<noteq> e \<longrightarrow> members M' e' = members M e')"
proof -
  have lo: "lists_ok k M" using sched_parts(1) [OF ok(1)] .
  have em: "evt t \<in> set (members M e)" using e(3) set_in_order [of M e] by (metis list.set_intros(1))
  obtain u l where u: "evt t = evt u" "task_ok k M u" "l \<in> set (task_lists k)" "gen u \<in> set (members M l)"
    using event_itemE [OF ok(1) e(1,2) em] by metis
  then have t: "task_ok k M t" "gen t \<in> set (members M l)" by auto
  define k' where "k' = prvAddTaskToReadyQueue t (remove_generic t (snd (uxListRemove (evt t) k)))"
  note R = readied_one [OF ok t(2) u(3) em, folded k'_def]
  have "listGET_OWNER_OF_HEAD_ENTRY e k = t" using head_entry [OF lo e(3)] t(1) by (simp add: task_ok_def)
  moreover have "tcb k' = tcb k" "pxCurrentTCB k' = pxCurrentTCB k" using R(3) by (simp_all add: readied_def run_frame_def run_core_def)
  ultimately have "xTaskRemoveFromEventList e k = (prio k (pxCurrentTCB k) \<le> prio k t, k')"
    using s by (simp add: xTaskRemoveFromEventList_def Let_def k'_def)
  moreover have "distinct (evt t # es)" using lists_distinct [OF lo, of e] e(3) by simp
  then have "in_order (make_ready k t M) e = es" using R(4) e(3) by simp
  ultimately show ?thesis using R(1-3,5) by blast
qed

text \<open>While the scheduler is suspended the woken task waits on the pending list instead.\<close>

lemma event_pends_ok:
  assumes ok: "sched_ok k M" "clock_ok k M" and s: "uxSchedulerSuspended k \<noteq> 0"
    and e: "e \<in> dom M" "e \<notin> set (task_lists k)" "e \<noteq> xPendingReadyList k" "in_order M e = evt t # es"
  shows "\<exists>k' M'. xTaskRemoveFromEventList e k = (prio k (pxCurrentTCB k) \<le> prio k t, k') \<and> sched_ok k' M' \<and> clock_ok k' M' \<and>
    in_order M' e = es \<and> members M' (xPendingReadyList k) = members M (xPendingReadyList k) @ [evt t] \<and>
    (\<forall>l. l \<noteq> e \<longrightarrow> l \<noteq> xPendingReadyList k \<longrightarrow> M' l = M l) \<and> dom M' = dom M \<and> run_frame k k'"
proof -
  let ?P = "xPendingReadyList k"
  have ly: "layout k M" and lo: "lists_ok k M" and rk: "ready_ok k M" using ok(1) by (auto simp: sched_ok_def)
  have P: "?P \<in> dom M" "?P \<notin> set (task_lists k)" using layout_facts(6,7) [OF ly] by auto
  have em: "evt t \<in> set (members M e)" using e(4) set_in_order [of M e] by (metis list.set_intros(1))
  obtain u l where u: "evt t = evt u" "task_ok k M u" "l \<in> set (task_lists k)" "gen u \<in> set (members M l)"
    using event_itemE [OF ok(1) e(1,2) em] by metis
  then have t: "task_ok k M t" "gen t \<in> set (members M l)" by auto
  define k1 where "k1 = snd (uxListRemove (evt t) k)"
  define k' where "k' = vListInsertEnd ?P (evt t) k1"
  define M1 where "M1 = drop_item e (evt t) M"
  define M' where "M' = push ?P (evt t) M1"
  have 1: "lists_ok k1 M1" "free_item M1 (evt t)" using drop_ok [OF lo em] by (simp_all add: k1_def M1_def)
  have d1: "dom M1 = dom M" using e(1) by (simp add: M1_def)
  have lo': "lists_ok k' M'" unfolding k'_def M'_def by (rule push_ok [OF 1(1) _ 1(2)]) (use P(1) d1 in simp)
  have dm: "dom M' = dom M" using P(1) d1 by (simp add: M'_def)
  have m1: "members M1 l' = (if l' = e then remove1 (evt t) (members M e) else members M l')"
    "in_order M1 l' = (if l' = e then remove1 (evt t) (in_order M e) else in_order M l')" for l'
    using members_drop [OF lo e(1)] by (simp_all add: M1_def)
  have m': "members M' l' = (if l' = ?P then members M ?P @ [evt t] else if l' = e then remove1 (evt t) (members M e) else members M l')" for l'
    using P(1) d1 e(3) by (simp add: M'_def m1)
  have i': "in_order M' l' = (if l' = e then remove1 (evt t) (in_order M e) else in_order M l')" if "l' \<noteq> ?P" for l'
    using in_order_push [of ?P M1 l' "evt t"] that P(1) d1 by (simp add: M'_def m1)
  have fr: "same_frame t k k'" by (simp add: k'_def k1_def same_frame_def)
  have tc: "tcb k' = tcb k" "uxTopReadyPriority k' = uxTopReadyPriority k" "val k' = val k" by (simp_all add: k'_def k1_def fun_eq_iff)
  have D: "{pxDelayedTaskList k, pxOverflowDelayedTaskList k} \<subseteq> set (task_lists k)" using layout_facts(4) [OF ly] by blast
  have "sleep_ok k' M'" using sched_parts(5) [OF ok(1)] i' D P(2) e(2) fr
    unfolding sleep_ok_def tc(3) same_frame_def by (metis insert_subset)
  then have "sched_ok k' M'"
  proof (rule sched_move [OF ok(1) t(1) lo' dm fr _ _ u(3) _ _ disjI2, rotated -1])
    show "q = prio k' t \<and> q \<le> uxTopReadyPriority k'" if "q < 5" "l = ready_list_at k q" for q
      using rk t(2) that tc by (auto simp: ready_ok_def)
    show "\<exists>e. e \<notin> set (task_lists k) \<and> evt t \<in> set (members M' e)" using P(2) m' [of ?P] by force
    show "y \<in> set (members M' l') \<longleftrightarrow> y \<in> set (members M l')" if "y \<noteq> gen t" "y \<noteq> evt t" for y l'
      using that(2) m' [of l'] lists_distinct [OF lo, of e] by (auto simp: set_remove1_eq)
  qed (use t u(3) tc rk m' [of l] P(2) e(2) in \<open>auto simp: task_ok_def ready_ok_def\<close>)
  moreover have dl: "members M' l' = members M l'" if "l' \<in> {pxDelayedTaskList k, pxOverflowDelayedTaskList k}" for l'
  proof -
    have "l' \<in> set (task_lists k)" using that D by blast
    then have "l' \<noteq> ?P" "l' \<noteq> e" using P(2) e(2) by auto
    then show ?thesis using m' [of l'] by simp
  qed
  then have "clock_ok k' M'"
    by (intro clock_ok_less [OF ok(2)]) (use fr tc(3) in \<open>simp_all add: same_frame_def fun_eq_iff\<close>)
  moreover have "listGET_OWNER_OF_HEAD_ENTRY e k = t" using head_entry [OF lo e(4)] t(1) by (simp add: task_ok_def)
  then have "xTaskRemoveFromEventList e k = (prio k (pxCurrentTCB k) \<le> prio k t, k')"
    using s by (simp add: xTaskRemoveFromEventList_def Let_def k'_def k1_def)
  moreover have "distinct (evt t # es)" using lists_distinct [OF lo, of e] e(4) by simp
  then have "in_order M' e = es" using i' [OF e(3)] e(4) by simp
  moreover have "run_frame k k'" using same_frame_run(1) [OF fr tc(1,3)] .
  moreover have "M' l' = M l'" if "l' \<noteq> e" "l' \<noteq> ?P" for l' using that by (simp add: M'_def M1_def push_def drop_item_def)
  ultimately show ?thesis using m' dm by (intro exI [of _ k'] exI [of _ M']) simp
qed

section \<open>Priorities\<close>

text \<open>
  Putting a task that stays in the system on the ready list of a possibly new priority; its event
  item is not touched.
\<close>

lemma requeue_ok:
  assumes ok: "sched_ok k M" "clock_ok k M" and t: "gen t \<in> set (members M l)" "l \<in> set (task_lists k)"
    and k1: "lists_ok k1 (drop_item l (gen t) M)" "same_frame t k k1" "uxTopReadyPriority k1 = uxTopReadyPriority k"
      "pvContainer (itm k1 (evt t)) = pvContainer (itm k (evt t))" "prio k1 t < 5"
  defines "k' \<equiv> prvAddTaskToReadyQueue t k1" and "M' \<equiv> push (ready_list_at k (prio k1 t)) (gen t) (drop_item l (gen t) M)"
  shows "sched_ok k' M'" "clock_ok k' M'" "dom M' = dom M" "same_frame t k k'"
    "members M' l' = remove1 (gen t) (members M l') @ (if l' = ready_list_at k (prio k1 t) then [gen t] else [])"
proof -
  note T = on_list_task [OF ok(1) t]
  let ?M1 = "drop_item l (gen t) M" and ?r = "ready_list_at k (prio k1 t)"
  have ly: "layout k M" and lo: "lists_ok k M" and rk: "ready_ok k M" using ok(1) by (auto simp: sched_ok_def)
  have r: "?r \<in> dom M" "?r \<in> set (task_lists k)" "?r \<notin> {pxDelayedTaskList k, pxOverflowDelayedTaskList k}"
    using layout_facts(1-3) [OF ly k1(5)] by auto
  note G = drop_generic [OF ok(1) t]
  note fg = G(2) and d1 = G(3) and m1 = G(4,5)
  have r1: "ready_list_at k1 (prio k1 t) = ?r" using k1(2) by (simp add: same_frame_def)
  have lo': "lists_ok k' M'" using push_top_ok [OF k1(1), of t] fg r(1) d1 unfolding r1 k'_def M'_def by simp
  show fr: "same_frame t k k'" unfolding k'_def by (rule same_frame_trans [OF k1(2)]) simp
  show dm: "dom M' = dom M" using d1 r(1) by (simp add: M'_def)
  show mm: "members M' l' = remove1 (gen t) (members M l') @ (if l' = ?r then [gen t] else [])" for l'
    using d1 r(1) m1(1) [of l'] m1(1) [of ?r] by (simp add: M'_def)
  have sm: "set (members M' l') = set (members M l') - {gen t} \<union> (if l' = ?r then {gen t} else {})" for l'
    using mm [of l'] lists_distinct [OF lo, of l'] by (auto simp: set_remove1_eq)
  have io: "in_order M' D = remove1 (gen t) (in_order M D)" if "D \<in> {pxDelayedTaskList k, pxOverflowDelayedTaskList k}" for D
    using in_order_push [of ?r ?M1 D "gen t"] that r(1,3) d1 m1(2) [of D] by (auto simp: M'_def)
  have "pvContainer (itm k' (evt t)) = pvContainer (itm k (evt t))" using k1(4) by (simp add: k'_def)
  note E = event_item_kept [OF T(1) this dm]
  have tc: "prio k' t = prio k1 t" "uxTopReadyPriority k \<le> uxTopReadyPriority k'" "uxTopReadyPriority k' < 5" "prio k1 t \<le> uxTopReadyPriority k'"
    using k1(3,5) rk by (simp_all add: k'_def ready_ok_def)
  show "sched_ok k' M'"
  proof (rule sched_move [OF ok(1) T(1) lo' dm fr _ _ r(2) _ _ E tc(2,3) sleep_ok_left [OF ok(1) T(1) fr io]])
    show "q = prio k' t \<and> q \<le> uxTopReadyPriority k'" if "q < 5" "?r = ready_list_at k q" for q
      using ready_list_neq [OF k1(5) that(1)] that(2) tc by auto
  qed (use tc k1(5) sm in auto)
  show "clock_ok k' M'"
  proof (rule clock_ok_less [OF ok(2)])
    fix D x assume D: "D \<in> {pxDelayedTaskList k, pxOverflowDelayedTaskList k}" and "x \<in> set (members M' D)"
    then have x: "x \<in> set (remove1 (gen t) (in_order M D))" using io [OF D] by (metis set_in_order)
    then show "x \<in> set (members M D) \<and> val k' x = val k x"
      using sleeper_kept [OF ok(1) T(1) fr D x] set_mp [OF set_remove1_subset x] by simp
  qed (use fr in \<open>simp_all add: same_frame_def\<close>)
qed

lemma upd_tcb_frame [simp]:
  "itm (upd_tcb t f k) = itm k" "lst (upd_tcb t f k) = lst k" "tcb (upd_tcb t f k) = (tcb k)(t := f (tcb k t))"
  "task_lists (upd_tcb t f k) = task_lists k" "ready_list_at (upd_tcb t f k) = ready_list_at k"
  "pxCurrentTCB (upd_tcb t f k) = pxCurrentTCB k" "uxTopReadyPriority (upd_tcb t f k) = uxTopReadyPriority k"
  "same_frame t k' (upd_tcb t f k) = same_frame t k' k" "clock_ok (upd_tcb t f k) M = clock_ok k M"
  by (simp_all add: upd_tcb_def task_lists_def ready_list_at_def fun_eq_iff same_frame_def clock_ok_def)

lemma upd_tcb_lists [simp]: "lists_ok (upd_tcb t f k) M = lists_ok k M"
  by (rule lists_ok_cong) simp_all

lemma task_not_marker:
  assumes "lists_ok k M" "task_ok k M t" "l \<in> dom M"
  shows "evt t \<noteq> xListEnd l"
proof (cases "pvContainer (itm k (evt t)) = 0")
  case True
  then show ?thesis using assms(2,3) by (simp add: task_ok_def free_item_members)
next
  case False
  then have "evt t \<in> set (members M (pvContainer (itm k (evt t))))" using assms(2) by (simp add: task_ok_def)
  from member_not_marker [OF assms(1) this assms(3)] show ?thesis .
qed

text \<open>A change of the event item's value and of the priority of a task that is not ready.\<close>

lemma reprio_blocked_ok:
  fixes v :: u32
  assumes ok: "sched_ok k M" "clock_ok k M" and t: "gen t \<in> set (members M l)" "l \<in> set (task_lists k)" "l \<notin> set (ready_lists k)"
    and p: "prio k' t < 5" and k': "k' = upd_tcb t f (set_item_value (evt t) v k)"
  shows "sched_ok k' M" "clock_ok k' M"
proof -
  note T = on_list_task [OF ok(1) t(1,2)]
  have ly: "layout k M" and lo: "lists_ok k M" and rk: "ready_ok k M" using ok(1) by (auto simp: sched_ok_def)
  have fr: "same_frame t k k'" unfolding k' upd_tcb_frame by (simp add: same_frame_def)
  have lo': "lists_ok k' M" unfolding k' upd_tcb_lists
    by (rule set_item_value_lists [OF lo]) (rule task_not_marker [OF lo T(1)])
  have vs: "val k' x = val k x" if x: "x \<in> set (members M D)" "D \<in> {pxDelayedTaskList k, pxOverflowDelayedTaskList k}" for x D
  proof -
    have "D \<in> set (task_lists k)" using layout_facts(4) [OF ly] x(2) by blast
    then obtain u where "x = gen u" "task_ok k M u" using generic_itemE [OF ok(1) _ x(1)] by metis
    then have "x \<noteq> evt t" using task_ok_gen_evt [OF _ T(1)] by metis
    then show ?thesis by (simp add: k')
  qed
  have mp: "map (val k') (in_order M D) = map (val k) (in_order M D)" if "D \<in> {pxDelayedTaskList k, pxOverflowDelayedTaskList k}" for D
    by (rule map_cong [OF refl]) (use vs that in simp)
  have D: "pxDelayedTaskList k' = pxDelayedTaskList k" "pxOverflowDelayedTaskList k' = pxOverflowDelayedTaskList k"
    using fr by (simp_all add: same_frame_def)
  have sl: "sleep_ok k' M" using sched_parts(5) [OF ok(1)] mp [of "pxDelayedTaskList k"] mp [of "pxOverflowDelayedTaskList k"]
    unfolding sleep_ok_def D by (metis insertCI)
  have E: "pvContainer (itm k' (evt t)) = 0 \<and> free_item M (evt t) \<or> (\<exists>e. e \<notin> set (task_lists k) \<and> evt t \<in> set (members M e))"
    using T(1) unfolding task_ok_def k' by (auto split: if_splits)
  show "sched_ok k' M"
  proof (rule sched_move [OF ok(1) T(1) lo' refl fr p _ t(2,1) _ E _ _ sl])
    show "q = prio k' t \<and> q \<le> uxTopReadyPriority k'" if "q < 5" "l = ready_list_at k q" for q
      using t(3) ready_list_in [OF that(1), of k] that(2) by blast
  qed (use rk in \<open>simp_all add: k' ready_ok_def\<close>)
  show "clock_ok k' M" by (rule clock_ok_less [OF ok(2)]) (use fr vs in \<open>simp_all add: same_frame_def\<close>)
qed

lemma reprio_ready_ok:
  fixes v :: u32
  assumes ok: "sched_ok k M" "clock_ok k M" and t: "gen t \<in> set (members M (ready_list_at k (prio k t)))" and p5: "prio k t < 5"
    and p: "p < 5" and k1: "k1 = set_item_value (evt t) v (upd_tcb t f (remove_generic t k)) \<or>
      k1 = upd_tcb t f (remove_generic t (set_item_value (evt t) v k))" and f: "uxPriority (f (tcb k t)) = p"
  defines "k' \<equiv> prvAddTaskToReadyQueue t k1"
  shows "\<exists>M'. sched_ok k' M' \<and> clock_ok k' M' \<and> dom M' = dom M \<and> tcb k' = (tcb k)(t := f (tcb k t)) \<and> same_frame t k k' \<and>
    (\<forall>e. e \<notin> set (task_lists k) \<longrightarrow> M' e = M e) \<and>
    (\<forall>l. members M' l = remove1 (gen t) (members M l) @ (if l = ready_list_at k p then [gen t] else []))"
proof -
  let ?l = "ready_list_at k (prio k t)"
  have ly: "layout k M" and lo: "lists_ok k M" using ok(1) by (auto simp: sched_ok_def)
  have l: "?l \<in> set (task_lists k)" "?l \<in> dom M" using layout_facts(1,2) [OF ly p5] by auto
  have T: "task_ok k M t" using on_list_task(1) [OF ok(1) t l(1)] .
  have nm: "x \<in> dom M \<Longrightarrow> evt t \<noteq> xListEnd x" for x by (rule task_not_marker [OF lo T])
  have "lists_ok k1 (drop_item ?l (gen t) M)"
    using k1
  proof
    assume e: "k1 = set_item_value (evt t) v (upd_tcb t f (remove_generic t k))"
    have "lists_ok (upd_tcb t f (remove_generic t k)) (drop_item ?l (gen t) M)" using drop_ok(1) [OF lo t] by (simp add: remove_generic_def)
    then show ?thesis unfolding e by (rule set_item_value_lists) (use nm l(2) in simp)
  next
    assume e: "k1 = upd_tcb t f (remove_generic t (set_item_value (evt t) v k))"
    have "lists_ok (set_item_value (evt t) v k) M" by (rule set_item_value_lists [OF lo nm])
    from drop_ok(1) [OF this t] show ?thesis unfolding e by (simp add: remove_generic_def)
  qed
  moreover have "same_frame t k k1" "uxTopReadyPriority k1 = uxTopReadyPriority k" "tcb k1 = (tcb k)(t := f (tcb k t))"
    "pvContainer (itm k1 (evt t)) = pvContainer (itm k (evt t))"
    using k1 by (auto simp: same_frame_def remove_generic_def upd_tcb_def task_lists_def ready_list_at_def fun_eq_iff)
  moreover have "prio k1 t = p" using calculation(4) f by simp
  moreover have "ready_list_at k p \<in> set (task_lists k)" using layout_facts(2) [OF ly p] .
  then have "push (ready_list_at k p) (gen t) (drop_item ?l (gen t) M) e = M e" if "e \<notin> set (task_lists k)" for e
    using that l(1) by (auto simp: push_def drop_item_def)
  ultimately show ?thesis
    using requeue_ok [OF ok t l(1), of k1] p unfolding k'_def
    by (intro exI [of _ "push (ready_list_at k p) (gen t) (drop_item ?l (gen t) M)"]) simp
qed

lemma vTaskPriorityInherit_ok:
  assumes ok: "sched_ok k M" "clock_ok k M" and t: "gen t \<in> set (members M l)" "l \<in> set (task_lists k)"
    and c: "t \<noteq> 0" "prio k t < prio k (pxCurrentTCB k)" "prio k (pxCurrentTCB k) < 5"
  defines "k' \<equiv> vTaskPriorityInherit t k" and "p \<equiv> prio k (pxCurrentTCB k)"
  shows "\<exists>M'. sched_ok k' M' \<and> clock_ok k' M' \<and> dom M' = dom M \<and> same_frame t k k' \<and>
    (\<forall>e. e \<notin> set (task_lists k) \<longrightarrow> M' e = M e) \<and> tcb k' = (tcb k)(t := (tcb k t)\<lparr>uxPriority := p\<rparr>) \<and> pxCurrentTCB k' = pxCurrentTCB k \<and>
    (if l = ready_list_at k (prio k t) then \<forall>l'. members M' l' = remove1 (gen t) (members M l') @ (if l' = ready_list_at k p then [gen t] else [])
     else M' = M) \<and> ready_list_at k' = ready_list_at k"
proof -
  note T = on_list_task [OF ok(1) t]
  have p0: "prio k t < 5" using T(1) by (simp add: task_ok_def)
  have "t \<noteq> pxCurrentTCB k" using c(2) by auto
  then have in': "listIS_CONTAINED_WITHIN (ready_list_at k (prio k t)) (gen t) (set_item_value (evt t) v k) \<longleftrightarrow> l = ready_list_at k (prio k t)" for v
    using T(2) by (auto simp: listIS_CONTAINED_WITHIN_def)
  let ?f = "\<lambda>t. t\<lparr>uxPriority := p\<rparr>" and ?v = "5 - p"
  show ?thesis
  proof (cases "l = ready_list_at k (prio k t)")
    case True
    have "k' = prvAddTaskToReadyQueue t (upd_tcb t ?f (remove_generic t (set_item_value (evt t) ?v k)))"
      using c True in' by (simp add: k'_def p_def vTaskPriorityInherit_def Let_def)
    then show ?thesis
      using reprio_ready_ok [OF ok t(1) [unfolded True] p0 c(3) disjI2 [OF refl], of ?f ?v] True
      by (auto simp: p_def same_frame_def)
  next
    case False
    have k': "k' = upd_tcb t ?f (set_item_value (evt t) ?v k)"
      using c False in' by (simp add: k'_def p_def vTaskPriorityInherit_def Let_def)
    have nr: "l \<notin> set (ready_lists k)"
    proof
      assume "l \<in> set (ready_lists k)"
      then obtain q where q: "q \<in> {0, 1, 2, 3, 4}" "l = ready_list_at k q" by auto
      then have "q < 5" by auto
      then show False using sched_parts(4) [OF ok(1)] t(1) q(2) False unfolding ready_ok_def by metis
    qed
    have "prio k' t < 5" using c(3) by (simp add: k' p_def)
    from reprio_blocked_ok [OF ok t nr this k'] show ?thesis using False by (intro exI [of _ M]) (simp add: k' same_frame_def [of t k "set_item_value (evt t) ?v k"])
  qed
qed

lemma vTaskPriorityDisinherit_ok:
  assumes ok: "sched_ok k M" "clock_ok k M" and t: "gen t \<in> set (members M (ready_list_at k (prio k t)))" "prio k t < 5"
    and c: "t \<noteq> 0" "prio k t \<noteq> uxBasePriority (tcb k t)" "uxBasePriority (tcb k t) < 5"
  defines "k' \<equiv> vTaskPriorityDisinherit t k" and "p \<equiv> uxBasePriority (tcb k t)"
  shows "\<exists>M'. sched_ok k' M' \<and> clock_ok k' M' \<and> dom M' = dom M \<and> same_frame t k k' \<and>
    (\<forall>e. e \<notin> set (task_lists k) \<longrightarrow> M' e = M e) \<and> tcb k' = (tcb k)(t := (tcb k t)\<lparr>uxPriority := p\<rparr>) \<and> pxCurrentTCB k' = pxCurrentTCB k \<and>
    (\<forall>l'. members M' l' = remove1 (gen t) (members M l') @ (if l' = ready_list_at k p then [gen t] else []))"
proof -
  let ?f = "\<lambda>t. t\<lparr>uxPriority := uxBasePriority t\<rparr>"
  have "k' = prvAddTaskToReadyQueue t (set_item_value (evt t) (5 - p) (upd_tcb t ?f (remove_generic t k)))"
    using c by (simp add: k'_def p_def vTaskPriorityDisinherit_def Let_def)
  then show ?thesis
    using reprio_ready_ok [OF ok t c(3) disjI1 [OF refl], of ?f "5 - p"] by (auto simp: p_def same_frame_def)
qed

text \<open>What changing the priority does to the list items of the control blocks.\<close>

lemma reprio_items:
  shows "val (prvAddTaskToReadyQueue t k) y = val k y" "pvOwner (itm (prvAddTaskToReadyQueue t k) y) = pvOwner (itm k y)"
    "pvContainer (itm (prvAddTaskToReadyQueue t k) y) = (if y = gen t then ready_list_at k (prio k t) else pvContainer (itm k y))"
  by (simp_all add: prvAddTaskToReadyQueue_def Let_def ready_list_at_def)

lemma upd_tcb_items: "itm (upd_tcb t f k) = itm k" "lst (upd_tcb t f k) = lst k" "ready_list_at (upd_tcb t f k) = ready_list_at k"
  by (simp_all add: upd_tcb_def ready_list_at_def fun_eq_iff)

lemma inherit_items:
  assumes "t \<noteq> 0" "prio k t < prio k (pxCurrentTCB k)" "pvContainer (itm k (gen t)) = ready_list_at k (prio k t)"
  defines "k' \<equiv> vTaskPriorityInherit t k" and "p \<equiv> prio k (pxCurrentTCB k)"
  shows "val k' y = (if y = evt t then 5 - p else val k y)" "pvOwner (itm k' y) = pvOwner (itm k y)"
    "pvContainer (itm k' y) = (if y = gen t then ready_list_at k p else pvContainer (itm k y))"
  using assms(1-3) unfolding k'_def p_def vTaskPriorityInherit_def Let_def listIS_CONTAINED_WITHIN_def
  by (simp_all add: reprio_items upd_tcb_items remove_generic_def)

lemma disinherit_items:
  assumes "t \<noteq> 0" "prio k t \<noteq> uxBasePriority (tcb k t)"
  defines "k' \<equiv> vTaskPriorityDisinherit t k" and "p \<equiv> uxBasePriority (tcb k t)"
  shows "val k' y = (if y = evt t then 5 - p else val k y)" "pvOwner (itm k' y) = pvOwner (itm k y)"
    "pvContainer (itm k' y) = (if y = gen t then ready_list_at k p else pvContainer (itm k y))"
  using assms(1-2) unfolding k'_def p_def vTaskPriorityDisinherit_def Let_def
  by (simp_all add: reprio_items upd_tcb_items remove_generic_def)
section \<open>Blocking on an event list\<close>

lemma event_insert_ok:
  assumes ok: "sched_ok k M" "clock_ok k M" and t: "gen t \<in> set (members M l)" "l \<in> set (task_lists k)" "pvContainer (itm k (evt t)) = 0"
    and e: "e \<in> dom M" "e \<notin> set (task_lists k)"
  obtains k' M' where "vListInsert e (evt t) k = Some k'" "sched_ok k' M'" "clock_ok k' M'" "dom M' = dom M"
    "in_order M' e = ordered_insert (val k) (evt t) (in_order M e)" "\<And>l'. l' \<noteq> e \<Longrightarrow> members M' l' = members M l'"
    "list_store.more k' = list_store.more k" "\<And>y. pvOwner (itm k' y) = pvOwner (itm k y)" "val k' = val k"
proof -
  note T = on_list_task [OF ok(1) t(1,2)]
  have ly: "layout k M" and lo: "lists_ok k M" and rk: "ready_ok k M" using ok(1) by (auto simp: sched_ok_def)
  have fe: "free_item M (evt t)" using T(1) t(3) by (simp add: task_ok_def)
  obtain k' c where I: "vListInsert e (evt t) k = Some k'" "lists_ok k' (M(e \<mapsto> c))"
    "in_order (M(e \<mapsto> c)) e = ordered_insert (val k) (evt t) (in_order M e)"
    "\<And>l'. set (members (M(e \<mapsto> c)) l') = (if l' = e then insert (evt t) (set (members M e)) else set (members M l'))"
    "list_store.more k' = list_store.more k" "\<And>y. pvOwner (itm k' y) = pvOwner (itm k y)" "val k' = val k"
    "\<And>y. pvContainer (itm k' y) = (if y = evt t then e else pvContainer (itm k y))"
    by (rule insert_ok [OF lo e(1) fe]) (rule that)
  define M' where "M' = M(e \<mapsto> c)"
  have dm: "dom M' = dom M" using e(1) by (auto simp: M'_def)
  have mm: "members M' l' = members M l'" "in_order M' l' = in_order M l'" if "l' \<noteq> e" for l'
    using that by (simp_all add: M'_def members_def in_order_def)
  note f = more_frame [OF I(5)]
  have fr: "same_frame t k k'" using f I(6,8) fun_cong [OF I(7)] by (simp add: same_frame_def)
  have D: "pxDelayedTaskList k \<noteq> e" "pxOverflowDelayedTaskList k \<noteq> e" using layout_facts(4) [OF ly] e(2) by auto
  have sl: "sleep_ok k' M'" using sched_parts(5) [OF ok(1)] unfolding sleep_ok_def f I(7) mm(2) [OF D(1)] mm(2) [OF D(2)] .
  have "sched_ok k' M'"
  proof (rule sched_move [OF ok(1) T(1) _ dm fr _ _ t(2) _ _ disjI2 _ _ sl])
    show "lists_ok k' M'" using I(2) by (simp add: M'_def)
    show "q = prio k' t \<and> q \<le> uxTopReadyPriority k'" if "q < 5" "l = ready_list_at k q" for q
      using rk t(1) that f by (auto simp: ready_ok_def)
    show "\<exists>e. e \<notin> set (task_lists k) \<and> evt t \<in> set (members M' e)" using e(2) I(4) [of e] by (auto simp: M'_def)
  qed (use I(4) t mm(1) [of l] e(2) f T(1) rk in \<open>auto simp: M'_def ready_ok_def task_ok_def\<close>)
  moreover have "clock_ok k' M'"
    using ok(2) unfolding clock_ok_def f mm(1) [OF D(1)] mm(1) [OF D(2)] fun_cong [OF I(7)] .
  ultimately show thesis by (rule that [OF I(1) _ _ dm I(3) [folded M'_def] mm(1) I(5-7)])
qed

lemma to_suspended_ok:
  assumes ok: "sched_ok k M" "clock_ok k M" and t: "gen t \<in> set (members M l)" "l \<in> set (task_lists k)"
  defines "S \<equiv> xSuspendedTaskList k"
  defines "k' \<equiv> vListInsertEnd S (gen t) (remove_generic t k)" and "M' \<equiv> push S (gen t) (drop_item l (gen t) M)"
  shows "sched_ok k' M'" "clock_ok k' M'" "dom M' = dom M" "same_frame t k k'" "tcb k' = tcb k"
    "members M' l' = remove1 (gen t) (members M l') @ (if l' = S then [gen t] else [])"
proof -
  note T = on_list_task [OF ok(1) t]
  have ly: "layout k M" and lo: "lists_ok k M" and rk: "ready_ok k M" using ok(1) by (auto simp: sched_ok_def)
  have S: "S \<in> dom M" "S \<in> set (task_lists k)" "S \<notin> {pxDelayedTaskList k, pxOverflowDelayedTaskList k}"
    using layout_facts(4,5,10) [OF ly] by (auto simp: S_def)
  let ?k1 = "remove_generic t k" and ?M1 = "drop_item l (gen t) M"
  note G = drop_generic [OF ok(1) t]
  note 1 = G(1,2) and d1 = G(3) and m1 = G(4,5)
  have lo': "lists_ok k' M'" unfolding k'_def M'_def by (rule push_ok [OF 1(1) _ 1(2)]) (use S(1) d1 in simp)
  show dm: "dom M' = dom M" using S(1) d1 by (simp add: M'_def)
  show mm: "members M' l' = remove1 (gen t) (members M l') @ (if l' = S then [gen t] else [])" for l'
    using S(1) d1 m1(1) [of l'] m1(1) [of S] by (simp add: M'_def)
  have sm: "set (members M' l') = set (members M l') - {gen t} \<union> (if l' = S then {gen t} else {})" for l'
    using mm [of l'] lists_distinct [OF lo, of l'] by (auto simp: set_remove1_eq)
  show fr: "same_frame t k k'" unfolding k'_def by (simp add: same_frame_def remove_generic_def)
  show tc: "tcb k' = tcb k" by (simp add: k'_def)
  have io: "in_order M' D = remove1 (gen t) (in_order M D)" if "D \<in> {pxDelayedTaskList k, pxOverflowDelayedTaskList k}" for D
    using in_order_push [of S ?M1 D "gen t"] that S(1,3) d1 m1(2) [of D] by (auto simp: M'_def)
  have "pvContainer (itm k' (evt t)) = pvContainer (itm k (evt t))" by (simp add: k'_def)
  note E = event_item_kept [OF T(1) this dm]
  have top: "uxTopReadyPriority k' = uxTopReadyPriority k" by (simp add: k'_def)
  show "sched_ok k' M'"
  proof (rule sched_move [OF ok(1) T(1) lo' dm fr _ _ S(2) _ _ E _ _ sleep_ok_left [OF ok(1) T(1) fr io]])
    show "q = prio k' t \<and> q \<le> uxTopReadyPriority k'" if "q < 5" "S = ready_list_at k q" for q
      using layout_facts(3) [OF ly that(1)] that(2) by (auto simp: S_def)
  qed (use tc top rk sm T(1) in \<open>auto simp: ready_ok_def task_ok_def\<close>)
  show "clock_ok k' M'"
  proof (rule clock_ok_less [OF ok(2)])
    fix D x assume D: "D \<in> {pxDelayedTaskList k, pxOverflowDelayedTaskList k}" and "x \<in> set (members M' D)"
    then have x: "x \<in> set (remove1 (gen t) (in_order M D))" using io [OF D] by (metis set_in_order)
    then show "x \<in> set (members M D) \<and> val k' x = val k x"
      using sleeper_kept [OF ok(1) T(1) fr D x] set_mp [OF set_remove1_subset x] by simp
  qed (use fr in \<open>simp_all add: same_frame_def\<close>)
qed

lemma place_on_event_list_ok:
  assumes ok: "sched_ok k M" "clock_ok k M" and t: "t = pxCurrentTCB k" "gen t \<in> set (members M l)" "l \<in> set (task_lists k)"
    "pvContainer (itm k (evt t)) = 0" and e: "e \<in> dom M" "e \<notin> set (task_lists k)" and w: "w \<noteq> 0"
  shows "\<exists>k' M'. vTaskPlaceOnEventList e w k = Some k' \<and> sched_ok k' M' \<and> clock_ok k' M' \<and> dom M' = dom M \<and> run_core k k' \<and>
    uxMissedTicks k' = uxMissedTicks k \<and> in_order M' e = ordered_insert (val k) (evt t) (in_order M e) \<and>
    (\<forall>e'\<in>dom M - set (task_lists k). e' \<noteq> e \<longrightarrow> members M' e' = members M e') \<and>
    (\<forall>p<5. members M' (ready_list_at k p) = remove1 (gen t) (members M (ready_list_at k p))) \<and>
    (if w = portMAX_DELAY then gen t \<in> set (members M' (xSuspendedTaskList k))
     else gen t \<in> sleepers k' M' \<and> remaining k' (gen t) = unat w)"
proof -
  have ly: "layout k M" and lo: "lists_ok k M" using ok(1) by (auto simp: sched_ok_def)
  obtain k1 M1 where I: "vListInsert e (evt t) k = Some k1" "sched_ok k1 M1" "clock_ok k1 M1" "dom M1 = dom M"
    "in_order M1 e = ordered_insert (val k) (evt t) (in_order M e)" "\<And>l'. l' \<noteq> e \<Longrightarrow> members M1 l' = members M l'"
    "list_store.more k1 = list_store.more k" "\<And>y. pvOwner (itm k1 y) = pvOwner (itm k y)" "val k1 = val k"
    by (rule event_insert_ok [OF ok t(2-4) e]) (rule that)
  note f = more_frame [OF I(7)]
  have le: "l \<noteq> e" using t(3) e(2) by blast
  have l: "gen t \<in> set (members M1 l)" "l \<in> set (task_lists k1)" 
    using I(6) [of l] t(2,3) le by (simp_all add: f)
  have cur: "pxCurrentTCB k1 = t" "t = pxCurrentTCB k1" using f t(1) by simp_all
  have rl: "members M1 (ready_list_at k p) = members M (ready_list_at k p)" if "p < 5" for p
    using layout_facts(2) [OF ly that] e(2) by (intro I(6)) blast
  have run: "vTaskPlaceOnEventList e w k = (if w = portMAX_DELAY then Some (vListInsertEnd (xSuspendedTaskList k1) (gen t) (remove_generic t k1))
      else prvAddCurrentTaskToDelayedList (xTickCount k1 + w) (remove_generic t k1))"
    using I(1) cur(1) t(1) [symmetric] by (simp add: vTaskPlaceOnEventList_def Let_def remove_generic_def)
  show ?thesis
  proof (cases "w = portMAX_DELAY")
    case True
    note S = to_suspended_ok [OF I(2,3) l]
    let ?k = "vListInsertEnd (xSuspendedTaskList k1) (gen t) (remove_generic t k1)"
    let ?M = "push (xSuspendedTaskList k1) (gen t) (drop_item l (gen t) M1)"
    have se: "xSuspendedTaskList k1 \<in> set (task_lists k)" using layout_facts(4) [OF ly] by (simp add: f)
    have ng: "gen t \<notin> set (members M1 l')" if "l' \<notin> set (task_lists k)" for l'
      using member_unique [OF sched_parts(1) [OF I(2)] l(1), of l'] that t(3) by auto
    note G = drop_generic [OF I(2) l]
    have nse: "e \<noteq> xSuspendedTaskList k1" using se e(2) by blast
    have sd: "xSuspendedTaskList k1 \<in> dom (drop_item l (gen t) M1)" using G(3) I(4) layout_facts(5) [OF ly] se by blast
    have "in_order ?M e = remove1 (gen t) (in_order M1 e)" using in_order_push [OF sd nse] G(5) [of e] by simp
    then have eo1: "in_order ?M e = in_order M1 e" using ng [OF e(2)] by (simp add: remove1_idem)
    have eo2: "members ?M e' = members M1 e'" if e': "e' \<in> dom M - set (task_lists k)" for e'
    proof -
      have "e' \<noteq> xSuspendedTaskList k1" using se e' by blast
      then show ?thesis using S(6) [of e'] ng [of e'] e' by (simp add: remove1_idem)
    qed
    have "run_core k ?k" "uxMissedTicks ?k = uxMissedTicks k"
      using S(4,5) f I(8) by (simp_all add: run_core_def same_frame_def)
    moreover have "members ?M (ready_list_at k p) = remove1 (gen t) (members M (ready_list_at k p))" if "p < 5" for p
      using S(6) [of "ready_list_at k p"] rl [OF that] layout_facts(3) [OF ly that] by (simp add: f)
    moreover have "gen t \<in> set (members ?M (xSuspendedTaskList k))" using S(6) [of "xSuspendedTaskList k1"] f by simp
    ultimately show ?thesis using True run S(1-3) I(4,5,6) eo1 eo2 by (intro exI [of _ ?k] exI [of _ ?M]) simp
  next
    case False
    obtain k' M' where A: "prvAddCurrentTaskToDelayedList (xTickCount k1 + w) (remove_generic t k1) = Some k'" "sched_ok k' M'" "clock_ok k' M'"
      "asleep k1 M1 t (unat w) k' M'" "run_core k1 k'" "uxMissedTicks k' = uxMissedTicks k1" "\<forall>e\<in>dom M1 - set (task_lists k1). members M' e = members M1 e"
      "\<forall>e\<in>dom M1 - set (task_lists k1). in_order M' e = in_order M1 e"
      using prvAddCurrentTaskToDelayedList_ok [OF I(2,3) cur(2) l w] by blast
    have "run_core k k'" "uxMissedTicks k' = uxMissedTicks k" using A(5,6) f I(8) by (simp_all add: run_core_def)
    moreover have "in_order M' e = ordered_insert (val k) (evt t) (in_order M e)" using A(8) e I(4,5) f by simp
    moreover have "\<forall>e'\<in>dom M - set (task_lists k). e' \<noteq> e \<longrightarrow> members M' e' = members M e'" using A(7) I(4,6) f by simp
    moreover have "\<forall>p<5. members M' (ready_list_at k p) = remove1 (gen t) (members M (ready_list_at k p))"
      using A(4) f rl by (simp add: asleep_def)
    ultimately show ?thesis using False run A(1-4) I(4) by (intro exI [of _ k'] exI [of _ M']) (simp add: asleep_def)
  qed
qed

end
