(* ===== verification/Sched_Create.thy ===== *)
theory Sched_Create
  imports Sched_Moves
begin

text \<open>
  Entering the system: \<open>xTaskGenericCreate\<close> either changes nothing or adds one ready task with two
  disjoint heap blocks, and a fresh list becomes an event list of the kernel.
\<close>

section \<open>Creating a task\<close>

lemma sched_ok_tcb:
  assumes ok: "sched_ok k M" and f: "itm k' = itm k" "lst k' = lst k" "uxTopReadyPriority k' = uxTopReadyPriority k"
    "pxReadyTasksLists k' = pxReadyTasksLists k" "xPendingReadyList k' = xPendingReadyList k"
    "xDelayedTaskList1 k' = xDelayedTaskList1 k" "xDelayedTaskList2 k' = xDelayedTaskList2 k"
    "xTasksWaitingTermination k' = xTasksWaitingTermination k" "xSuspendedTaskList k' = xSuspendedTaskList k"
    "pxDelayedTaskList k' = pxDelayedTaskList k" "pxOverflowDelayedTaskList k' = pxOverflowDelayedTaskList k"
    and p: "\<And>u. on_list k M u \<Longrightarrow> prio k' u = prio k u"
  shows "sched_ok k' M"
proof -
  have r: "ready_list_at k' = ready_list_at k" using f(4) by (simp add: ready_list_at_def fun_eq_iff)
  have tl: "task_lists k' = task_lists k" using f r by (simp add: task_lists_def)
  have lo: "lists_ok k' M" using sched_parts(1) [OF ok] lists_ok_cong [OF f(1,2)] by blast
  have t: "task_ok k' M u" if "task_ok k M u" "on_list k M u" for u
    using that p by (simp add: task_ok_def f(1) tl)
  have "items_ok k' M"
    unfolding items_ok_def tl
  proof (intro conjI ballI)
    fix l x assume l: "l \<in> set (task_lists k)" and x: "x \<in> set (members M l)"
    obtain u where u: "x = gen u" "task_ok k M u" using generic_itemE [OF ok l x] by metis
    then show "\<exists>u. x = gen u \<and> task_ok k' M u" using t [OF u(2)] l x by (auto simp: on_list_def)
  next
    fix l x assume l: "l \<in> dom M - set (task_lists k)" and x: "x \<in> set (members M l)"
    obtain u l' where u: "x = evt u" "task_ok k M u" "l' \<in> set (task_lists k)" "gen u \<in> set (members M l')"
      using event_itemE [OF ok _ _ x] l by blast
    then show "\<exists>u. x = evt u \<and> task_ok k' M u \<and> (\<exists>l'\<in>set (task_lists k). gen u \<in> set (members M l'))"
      using t [OF u(2)] by (auto simp: on_list_def)
  qed
  moreover have "ready_ok k' M"
    using sched_parts(4) [OF ok] p layout_facts(2) [OF sched_parts(2) [OF ok]] unfolding ready_ok_def r f(3) on_list_def by blast
  moreover have "layout k' M" using sched_parts(2) [OF ok] by (simp add: layout_def f tl)
  moreover have "sleep_ok k' M" using sched_parts(5) [OF ok] by (simp add: sleep_ok_def f)
  ultimately show ?thesis using lo by (simp add: sched_ok_def)
qed

text \<open>
  The addresses the scheduler uses: list markers, items on lists, and the control blocks of its
  tasks. Where such an address lies in the heap array, it lies in a block that is handed out.
\<close>

definition heap_region :: "heap4 \<Rightarrow> nat set" where
  "heap_region s = {heap_base s ..< heap_base s + 16360}"

definition objects :: "'a kernel_scheme \<Rightarrow> list_map \<Rightarrow> u32 set" where
  "objects k M = {x. \<not> free_item M x} \<union> {x. \<exists>u. on_list k M u \<and> (x = u \<or> x = evt u)}"

definition objects_live :: "'a kernel_scheme \<Rightarrow> list_map \<Rightarrow> (nat \<times> nat) set \<Rightarrow> bool" where
  "objects_live k M A \<longleftrightarrow> (\<forall>x\<in>objects k M. unat x \<in> heap_region (heap k) \<longrightarrow> unat x \<in> (\<Union>y\<in>A. cells y))"

lemma live_block:
  assumes "heap_live s A" "(b, n) \<in> A"
  shows "cells (b, n) \<subseteq> heap_region s" "b + n < 2 ^ 32"
proof -
  obtain fl where "heap_ok s fl A" using assms(1) by (auto simp: heap_live_def)
  then have inv: "heap_inv s fl A" using heap_ok_ready assms(2) by blast
  show "cells (b, n) \<subseteq> heap_region s" using inv assms(2) unfolding heap_inv_def heap_region_def by blast
  have "b + n \<le> pxEnd s" "pxEnd s = heap_base s + 16360" "layout_ok s"
    using inv_bounds(2) [OF inv, of "(b, n)"] inv_parts(4,5) [OF inv] assms(2) by auto
  then show "b + n < 2 ^ 32" by (auto simp: layout_ok_def heap_base_def)
qed

lemma new_block_unused:
  assumes live: "heap_live s' (insert (b, n) A)" "(b, n) \<notin> A" and base: "heap_base s' = heap_base (heap k)"
    and obj: "objects_live k M A" and x: "unat x \<in> cells (b, n)"
  shows "x \<notin> objects k M"
proof
  assume "x \<in> objects k M"
  moreover have "unat x \<in> heap_region (heap k)" using live_block(1) [OF live(1), of b n] x base by (auto simp: heap_region_def)
  ultimately have "unat x \<in> (\<Union>y\<in>A. cells y)" using obj unfolding objects_live_def by blast
  then obtain y where y: "y \<in> A" "unat x \<in> cells y" by blast
  have "disjoint_family_on cells (insert (b, n) A)" using heap4.live_disjoint [OF live(1)] .
  then have "cells (b, n) \<inter> cells y = {}" by (rule disjoint_family_onD) (use y live(2) in auto)
  then show False using x y(2) by blast
qed

lemma new_block_fresh:
  assumes live: "heap_live s' (insert (b, n) A)" "(b, n) \<notin> A" "112 \<le> n" and base: "heap_base s' = heap_base (heap k)"
    and obj: "objects_live k M A"
  defines "t \<equiv> of_nat (b + 16) :: u32"
  shows "fresh k M t" "t \<noteq> 0" "unat t = b + 16" "unat (gen t) = b + 20" "unat (evt t) = b + 40"
proof -
  have lt: "b + n < 2 ^ 32" using live_block(2) [OF live(1), of b n] by simp
  then show ut: "unat t = b + 16" using live(3) by (simp add: t_def unat_of_nat del: of_nat_add)
  then show "t \<noteq> 0" by auto
  show ug: "unat (gen t) = b + 20" and ue: "unat (evt t) = b + 40"
    using lt live(3) ut by (simp_all add: xGenericListItem_def xEventListItem_def unat_plus_if')
  have "unat t \<in> cells (b, n)" "unat (gen t) \<in> cells (b, n)" "unat (evt t) \<in> cells (b, n)"
    using live(3) ut ug ue by (simp_all add: cells_def)
  from this [THEN new_block_unused [OF live(1,2) base obj]] show "fresh k M t" by (auto simp: fresh_def objects_def)
qed

text \<open>What \<open>xTaskGenericCreate\<close> has done once the two blocks are there.\<close>

definition outfit :: "u32 \<Rightarrow> u32 \<Rightarrow> u8 list \<Rightarrow> u16 \<Rightarrow> u32 \<Rightarrow> u32 \<Rightarrow> u32 \<Rightarrow> 'a kernel_scheme \<Rightarrow> 'a kernel_scheme" where
  "outfit t pxTaskCode pcName usStackDepth pvParameters uxp pxCreatedTask k =
    (let sp = pxStack (tcb k t) + 4 * (ucast usStackDepth - 1);
         sp = sp AND NOT 7;
         k = prvInitialiseTCBVariables t pcName uxp k;
         (sp, m) = pxPortInitialiseStack sp pxTaskCode pvParameters (kmem k);
         k = upd_tcb t (\<lambda>t. t\<lparr>pxTopOfStack := sp\<rparr>) (k\<lparr>kmem := m\<rparr>);
         k = (if pxCreatedTask \<noteq> 0 then k\<lparr>kmem := store32 pxCreatedTask t (kmem k)\<rparr> else k);
         k = register_task t uxp k
     in if xSchedulerRunning k \<and> uxPriority (tcb k (pxCurrentTCB k)) < uxp then portYIELD_WITHIN_API k else k)"

lemma create_outfit:
  "xTaskGenericCreate c nm d a p h b k =
    Option.bind (prvAllocateTCBAndStack d b k) (\<lambda>(t, k).
      if t \<noteq> 0 then Some (pdPASS, outfit t c nm d a p h k) else Some (errCOULD_NOT_ALLOCATE_REQUIRED_MEMORY, k))"
  by (simp add: xTaskGenericCreate_def outfit_def Let_def split_beta cong: if_cong)

lemma outfit_ok:
  fixes c nm d a p h
  assumes ok: "sched_ok k M" "clock_ok k M" and t: "fresh k M t" and cur: "pxCurrentTCB k \<noteq> 0"
  defines "k' \<equiv> outfit t c nm d a p h k" and "q \<equiv> if 5 \<le> p then 4 else p"
  shows "\<exists>M'. sched_ok k' M' \<and> clock_ok k' M' \<and> dom M' = dom M \<and>
    (\<forall>l. members M' l = members M l @ (if l = ready_list_at k q then [gen t] else [])) \<and>
    prio k' t = q \<and> uxBasePriority (tcb k' t) = q \<and> pcTaskName (tcb k' t) = (strncpy 32 nm)[31 := 0] \<and>
    heap k' = heap k \<and> uxCurrentNumberOfTasks k' = uxCurrentNumberOfTasks k + 1 \<and> task_lists k' = task_lists k"
proof -
  define k1 where "k1 = prvInitialiseTCBVariables t nm p k"
  note I = init_tcb_eqs [where t = t and name = nm and p = p and k = k, folded k1_def]
  note N = init_tcb_ok [OF ok t, of nm p, folded k1_def]
  obtain sp m where st: "pxPortInitialiseStack ((pxStack (tcb k t) + 4 * (ucast d - 1)) AND NOT 7) c a (kmem k1) = (sp, m)"
    by (cases "pxPortInitialiseStack ((pxStack (tcb k t) + 4 * (ucast d - 1)) AND NOT 7) c a (kmem k1)") auto
  define k2 where "k2 = upd_tcb t (\<lambda>t. t\<lparr>pxTopOfStack := sp\<rparr>) (k1\<lparr>kmem := m\<rparr>)"
  define k3 where "k3 = (if h \<noteq> 0 then k2\<lparr>kmem := store32 h t (kmem k2)\<rparr> else k2)"
  define k4 where "k4 = (let k = k3\<lparr>uxCurrentNumberOfTasks := uxCurrentNumberOfTasks k3 + 1\<rparr>;
         k = (if \<not> xSchedulerRunning k \<and> uxPriority (tcb k (pxCurrentTCB k)) \<le> p then k\<lparr>pxCurrentTCB := t\<rparr> else k);
         k = (if uxTopUsedPriority k < uxPriority (tcb k t) then k\<lparr>uxTopUsedPriority := uxPriority (tcb k t)\<rparr> else k);
         k = k\<lparr>uxTaskNumber_count := uxTaskNumber_count k + 1\<rparr>
     in upd_tcb t (\<lambda>t. t\<lparr>uxTCBNumber := uxTaskNumber_count k\<rparr>) k)"
  define k5 where "k5 = prvAddTaskToReadyQueue t k4"
  have cur3: "pxCurrentTCB k3 \<noteq> 0" using cur I(25) by (simp add: k3_def k2_def upd_tcb_def)
  have k': "k' = (if xSchedulerRunning k5 \<and> uxPriority (tcb k5 (pxCurrentTCB k5)) < p then portYIELD_WITHIN_API k5 else k5)"
    using st cur3 by (simp add: k'_def outfit_def Let_def k1_def [symmetric] k2_def [symmetric] k3_def [symmetric] register_task_def k5_def k4_def cong: if_cong)
  have f: "itm k4 = itm k1" "lst k4 = lst k1" "tcb k4 = (tcb k1)(t := (tcb k1 t)\<lparr>pxTopOfStack := sp, uxTCBNumber := uxTaskNumber_count k1 + 1\<rparr>)"
    "uxTopReadyPriority k4 = uxTopReadyPriority k1" "task_lists k4 = task_lists k1" "ready_list_at k4 = ready_list_at k1"
    "xPendingReadyList k4 = xPendingReadyList k1" "xDelayedTaskList1 k4 = xDelayedTaskList1 k1" "xDelayedTaskList2 k4 = xDelayedTaskList2 k1"
    "pxDelayedTaskList k4 = pxDelayedTaskList k1" "pxOverflowDelayedTaskList k4 = pxOverflowDelayedTaskList k1"
    "xTickCount k4 = xTickCount k1" "xNextTaskUnblockTime k4 = xNextTaskUnblockTime k1" "heap k4 = heap k"
    "uxCurrentNumberOfTasks k4 = uxCurrentNumberOfTasks k + 1" "pxReadyTasksLists k4 = pxReadyTasksLists k1"
    "xTasksWaitingTermination k4 = xTasksWaitingTermination k1" "xSuspendedTaskList k4 = xSuspendedTaskList k1"
    using I(26,27) by (simp_all add: k4_def k3_def k2_def Let_def upd_tcb_def task_lists_def ready_list_at_def fun_eq_iff)
  have p4: "prio k4 u = prio k1 u" for u by (simp add: f(3))
  have ok4: "sched_ok k4 M" by (rule sched_ok_tcb [OF N(1)]) (use f p4 in simp_all)
  have c4: "clock_ok k4 M" using N(2) by (simp add: clock_ok_def f)
  have t4: "task_ok k4 M t" using N(3) by (simp add: task_ok_def f p4)
  have z: "pvContainer (itm k4 (evt t)) = 0" "free_item M (gen t)" using I(6) f(1) t by (simp_all add: fresh_def)
  note A = new_task_ok [OF ok4 c4 t4 z, folded k5_def]
  have r: "ready_list_at k4 = ready_list_at k" "prio k4 t = q" using f(6) I(14) p4 I(8) by (simp_all add: q_def)
  let ?M = "push (ready_list_at k4 (prio k4 t)) (gen t) M"
  have "sched_ok k' ?M" "clock_ok k' ?M" using A(1,2) by (simp_all add: k' yield_frame)
  moreover have "tcb k' = tcb k4" by (simp add: k' yield_frame k5_def)
  moreover have "heap k' = heap k" "uxCurrentNumberOfTasks k' = uxCurrentNumberOfTasks k + 1" "task_lists k' = task_lists k"
    using f(5,14,15) I(13) by (simp_all add: k' portYIELD_WITHIN_API_def k5_def prvAddTaskToReadyQueue_eq task_lists_def ready_list_at_def)
  moreover have "members ?M l = members M l @ (if l = ready_list_at k q then [gen t] else [])" for l using A(4) [of l] r by simp
  ultimately show ?thesis using A(3) r(2) I(9,11) f(3)
    by (intro exI [of _ ?M]) (simp add: q_def)
qed

lemma alloc_tcb_frame:
  assumes "sched_ok k M" "clock_ok k M" "\<not> on_list k M t"
    and k': "k' = (upd_tcb t f k)\<lparr>heap := hp, kmem := m\<rparr>"
  shows "sched_ok k' M" "clock_ok k' M" "on_list k' M u = on_list k M u" "ready_list_at k' = ready_list_at k"
    "task_lists k' = task_lists k" "pxCurrentTCB k' = pxCurrentTCB k" "uxCurrentNumberOfTasks k' = uxCurrentNumberOfTasks k"
proof -
  have "prio k' u = prio k u" if "on_list k M u" for u using that assms(3) by (auto simp: k' upd_tcb_def)
  then show "sched_ok k' M" by (intro sched_ok_tcb [OF assms(1)]) (simp_all add: k' upd_tcb_def)
qed (use assms(2) in \<open>simp_all add: k' clock_ok_def on_list_def upd_tcb_def task_lists_def ready_list_at_def fun_eq_iff\<close>)

lemma pvPortMalloc_base: "pvPortMalloc n s = Some (p, s') \<Longrightarrow> heap_base s' = heap_base s"
  using pvPortMalloc_layout by (simp add: heap_base_def)

lemma vPortFree_base: "vPortFree p s = Some s' \<Longrightarrow> heap_base s' = heap_base s"
  using vPortFree_layout by (simp add: heap_base_def)

lemma fresh_cong: "fresh k M t \<Longrightarrow> (\<And>u. on_list k' M u = on_list k M u) \<Longrightarrow> fresh k' M t"
  by (simp add: fresh_def)

text \<open>
  The outcome of a successful creation: two new heap blocks, control block \<open>(b, m)\<close> and stack
  \<open>(s, n)\<close>, and the new task at the end of the ready list of its clamped priority \<open>q\<close>.
\<close>

lemma fill_mem_other:
  assumes "unat a + n < 2 ^ 32" "unat x < unat a \<or> unat a + n \<le> unat x"
  shows "fill_mem a b n m x = m x"
  using assms
proof (induction n arbitrary: a m)
  case (Suc n)
  have u: "unat (a + 1) = unat a + 1" using Suc.prems by (simp add: unat_word_ariths)
  have "x \<noteq> a" using Suc.prems by auto
  have "fill_mem (a + 1) b n (m(a := b)) x = (m(a := b)) x" by (rule Suc.IH) (use Suc.prems u in auto)
  then show ?case using \<open>x \<noteq> a\<close> by simp
qed simp

lemma store32_other:
  assumes "unat a + 4 < 2 ^ 32" "unat x < unat a \<or> unat a + 4 \<le> unat x"
  shows "store32 a v m x = m x"
proof -
  have "unat (a + 1) = unat a + 1" "unat (a + 2) = unat a + 2" "unat (a + 3) = unat a + 3"
    using assms(1) by (simp_all add: unat_word_ariths)
  then have "x \<noteq> a" "x \<noteq> a + 1" "x \<noteq> a + 2" "x \<noteq> a + 3" using assms(2) by auto
  then show ?thesis by (simp add: store32_def)
qed

text \<open>The initial frame fits below the top of a stack of at least 19 words.\<close>

lemma initial_frame:
  fixes d :: u16
  assumes d: "19 \<le> d" and b: "b + unat d * 4 < 2 ^ 32"
  defines "tos \<equiv> (of_nat b + 4 * (ucast d - 1)) AND NOT 7"
  shows "b \<le> unat (fst (pxPortInitialiseStack tos c a m))" "unat (fst (pxPortInitialiseStack tos c a m)) + 64 \<le> b + unat d * 4"
    "unat x < b \<or> b + unat d * 4 \<le> unat x \<Longrightarrow> snd (pxPortInitialiseStack tos c a m) x = m x"
proof -
  have d19: "19 \<le> unat d" using d by (simp add: word_le_nat_alt)
  have d16: "unat d < 2 ^ 16" using unsigned_less [of d] by simp
  have ud: "unat (ucast d - 1 :: u32) = unat d - 1"
  proof -
    have "unat (ucast d :: u32) = unat d" using d16 by (simp add: unsigned_ucast_eq take_bit_nat_eq_self_iff)
    then show ?thesis using d19 by (subst unat_sub) (simp_all add: word_le_nat_alt)
  qed
  have m4: "unat (4 * e) = 4 * unat e" if "unat e < 2 ^ 30" for e :: u32 using that by (simp add: unat_word_ariths)
  have l4: "unat (ucast d - 1 :: u32) < 2 ^ 30" using d16 unfolding ud by simp
  have u4: "unat (4 * (ucast d - 1) :: u32) = 4 * (unat d - 1)" unfolding m4 [OF l4] ud by simp
  have ub: "unat (of_nat b :: u32) = b" using b by (simp add: unat_of_nat)
  have w: "unat (of_nat b + 4 * (ucast d - 1) :: u32) = b + 4 * (unat d - 1)"
    using b d19 by (subst unat_add_lem [THEN iffD1]) (simp_all only: u4 ub, simp_all)
  then have t: "unat tos \<le> b + 4 * (unat d - 1)" "b + 4 * (unat d - 1) - 7 \<le> unat tos"
    using unat_align_down [of "of_nat b + 4 * (ucast d - 1)"] d19 unfolding tos_def by simp_all
  have dec: "unat (tos - of_nat n) = unat tos - n" if "n \<le> 64" for n
    using that t(2) d19 unat_of_nat [of n, where 'a = 32] by (subst unat_sub) (simp_all add: word_le_nat_alt)
  have dec': "unat (tos - 4) = unat tos - 4" "unat (tos - 8) = unat tos - 8" "unat (tos - 12) = unat tos - 12"
    "unat (tos - 32) = unat tos - 32" "unat (tos - 64) = unat tos - 64"
    using dec [of 4] dec [of 8] dec [of 12] dec [of 32] dec [of 64] by simp_all
  have s: "pxPortInitialiseStack tos c a m = (tos - 64, store32 (tos - 32) a (store32 (tos - 12) 0 (store32 (tos - 8) c (store32 (tos - 4) 0x01000000 m))))"
    by (simp add: pxPortInitialiseStack_def Let_def)
  show "b \<le> unat (fst (pxPortInitialiseStack tos c a m))" "unat (fst (pxPortInitialiseStack tos c a m)) + 64 \<le> b + unat d * 4"
    using t d19 dec' by (simp_all add: s)
  assume x: "unat x < b \<or> b + unat d * 4 \<le> unat x"
  have "store32 (tos - i) v m' x = m' x" if "unat (tos - i) = unat tos - n" "4 \<le> n" "n \<le> 32" for i v m' n
    using x t d19 that b by (intro store32_other) linarith+
  from this [OF dec'(1)] this [OF dec'(2)] this [OF dec'(3)] this [OF dec'(4)]
  show "snd (pxPortInitialiseStack tos c a m) x = m x" by (simp add: s)
qed

lemma init_tcb_kmem: "kmem (prvInitialiseTCBVariables t nm p k) = kmem k"
  by (simp add: prvInitialiseTCBVariables_def Let_def upd_tcb_def vListInitialiseItem_def set_item_owner_def set_item_value_def upd_item_def)

lemma register_kmem:
  assumes "pxCurrentTCB k \<noteq> 0"
  shows "kmem (register_task t p k) = kmem k" "pxTopOfStack (tcb (register_task t p k) t) = pxTopOfStack (tcb k t)"
  using assms by (simp_all add: register_task_def Let_def upd_tcb_def prvAddTaskToReadyQueue_def)

lemma outfit_kmem:
  fixes d :: u16 and t :: u32
  assumes "pxCurrentTCB k \<noteq> 0"
  defines "tos \<equiv> (pxStack (tcb k t) + 4 * (ucast d - 1)) AND NOT 7"
  shows "kmem (outfit t c nm d a p h k) = (let m = snd (pxPortInitialiseStack tos c a (kmem k)) in if h \<noteq> 0 then store32 h t m else m)"
    "pxTopOfStack (tcb (outfit t c nm d a p h k) t) = fst (pxPortInitialiseStack tos c a (kmem k))"
proof -
  have c: "pxCurrentTCB (prvInitialiseTCBVariables t nm p k) = pxCurrentTCB k"
    by (simp add: prvInitialiseTCBVariables_def Let_def upd_tcb_def vListInitialiseItem_def set_item_owner_def set_item_value_def upd_item_def)
  show "kmem (outfit t c nm d a p h k) = (let m = snd (pxPortInitialiseStack tos c a (kmem k)) in if h \<noteq> 0 then store32 h t m else m)"
    "pxTopOfStack (tcb (outfit t c nm d a p h k) t) = fst (pxPortInitialiseStack tos c a (kmem k))"
    unfolding tos_def outfit_def using assms(1) c
    by (simp_all add: Let_def split_beta register_kmem init_tcb_kmem upd_tcb_def portYIELD_WITHIN_API_def)
qed

lemma created_stack:
  fixes d :: u16 and c a p h t :: u32 and nm :: "u8 list"
  assumes k1: "k1 = (upd_tcb t (\<lambda>t. t\<lparr>pxStack := of_nat (s + 16)\<rparr>) k)\<lparr>heap := s2, kmem := fill_mem (of_nat (s + 16)) 0xA5 (unat d * 4) (kmem k)\<rparr>"
    and cur: "pxCurrentTCB k \<noteq> 0" and d: "19 \<le> d" and b: "s + 16 + unat d * 4 < 2 ^ 32"
  defines "k' \<equiv> outfit t c nm d a p h k1"
  shows "s + 16 \<le> unat (pxTopOfStack (tcb k' t))" "unat (pxTopOfStack (tcb k' t)) + 64 \<le> s + 16 + unat d * 4"
    "unat x < s + 16 \<or> s + 16 + unat d * 4 \<le> unat x \<Longrightarrow> h \<noteq> 0 \<longrightarrow> x \<notin> {h, h + 1, h + 2, h + 3} \<Longrightarrow> kmem k' x = kmem k x"
proof -
  have c1: "pxCurrentTCB k1 \<noteq> 0" and st: "pxStack (tcb k1 t) = of_nat (s + 16)" and km: "kmem k1 = fill_mem (of_nat (s + 16)) 0xA5 (unat d * 4) (kmem k)"
    using cur by (simp_all add: k1 upd_tcb_def)
  note O = outfit_kmem [OF c1, where t = t and d = d and c = c and nm = nm and a = a and p = p and h = h, folded k'_def, unfolded st]
  note I = initial_frame [OF d b, where c = c and a = a and m = "kmem k1"]
  show "s + 16 \<le> unat (pxTopOfStack (tcb k' t))" "unat (pxTopOfStack (tcb k' t)) + 64 \<le> s + 16 + unat d * 4"
    unfolding O(2) by (rule I(1), rule I(2))
  assume x: "unat x < s + 16 \<or> s + 16 + unat d * 4 \<le> unat x" and h: "h \<noteq> 0 \<longrightarrow> x \<notin> {h, h + 1, h + 2, h + 3}"
  have u: "unat (of_nat (s + 16) :: u32) = s + 16" using b by (simp add: unat_of_nat del: of_nat_add)
  have "kmem k1 x = kmem k x" unfolding km by (rule fill_mem_other) (use b x u in simp_all)
  then show "kmem k' x = kmem k x" using I(3) [OF x] h unfolding O(1) Let_def by (auto simp: store32_def)
qed

definition created ::
  "'a kernel_scheme \<Rightarrow> list_map \<Rightarrow> (nat \<times> nat) set \<Rightarrow> u16 \<Rightarrow> u8 list \<Rightarrow> u32 \<Rightarrow> u32 \<Rightarrow> 'a kernel_scheme \<Rightarrow> bool" where
  "created k M A d nm q h k' \<longleftrightarrow> (\<exists>b m s n M'. let t = of_nat (b + 16) in
     heap_live (heap k') (insert (s, n) (insert (b, m) A)) \<and> cells (b, m) \<inter> cells (s, n) = {} \<and>
     96 + 16 \<le> m \<and> unat d * 4 + 16 \<le> n \<and> fresh k M t \<and> sched_ok k' M' \<and> clock_ok k' M' \<and>
     (\<forall>l. members M' l = members M l @ (if l = ready_list_at k q then [gen t] else [])) \<and>
     prio k' t = q \<and> uxBasePriority (tcb k' t) = q \<and> pcTaskName (tcb k' t) = (strncpy 32 nm)[31 := 0] \<and>
     uxCurrentNumberOfTasks k' = uxCurrentNumberOfTasks k + 1 \<and>
     s + 16 \<le> unat (pxTopOfStack (tcb k' t)) \<and> unat (pxTopOfStack (tcb k' t)) + 64 \<le> s + 16 + unat d * 4 \<and>
     (\<forall>x. unat x < s + 16 \<or> s + 16 + unat d * 4 \<le> unat x \<longrightarrow> (h \<noteq> 0 \<longrightarrow> x \<notin> {h, h + 1, h + 2, h + 3}) \<longrightarrow> kmem k' x = kmem k x))"

lemma create_ok:
  fixes c nm d a p h
  assumes ok: "sched_ok k M" "clock_ok k M" and hp: "heap_live (heap k) A" "objects_live k M A" and cur: "pxCurrentTCB k \<noteq> 0"
    and d: "19 \<le> d"
  defines "q \<equiv> if 5 \<le> p then 4 else p"
  shows "\<exists>r k'. xTaskGenericCreate c nm d a p h 0 k = Some (r, k') \<and>
    (r = errCOULD_NOT_ALLOCATE_REQUIRED_MEMORY \<and> sched_ok k' M \<and> clock_ok k' M \<and> heap_live (heap k') A \<and>
       uxCurrentNumberOfTasks k' = uxCurrentNumberOfTasks k \<or>
     r = pdPASS \<and> created k M A d nm q h k')"
proof -
  have "unat d < 2 ^ 16" using unsigned_less [of d] by simp
  then have nd: "unat d * 4 \<le> 2 ^ 32 - 16" by simp
  have n96: "96 \<le> (2 ^ 32 - 16 :: nat)" by simp
  let ?r = "xTaskGenericCreate c nm d a p h 0 k"
  consider
    (none) s' where "pvPortMalloc 96 (heap k) = Some (0, s')" "heap_live s' A"
  | (half) b m s1 s2 s3 where "pvPortMalloc 96 (heap k) = Some (b + 16, s1)" "0 < b" "96 + 16 \<le> m" "heap_live s1 (insert (b, m) A)" "(b, m) \<notin> A"
      "pvPortMalloc (unat d * 4) s1 = Some (0, s2)" "vPortFree (b + 16) s2 = Some s3" "heap_live s3 A"
  | (both) b m s1 s n s2 where "pvPortMalloc 96 (heap k) = Some (b + 16, s1)" "0 < b" "96 + 16 \<le> m" "heap_live s1 (insert (b, m) A)" "(b, m) \<notin> A"
      "pvPortMalloc (unat d * 4) s1 = Some (s + 16, s2)" "0 < s" "unat d * 4 + 16 \<le> n" "cells (b, m) \<inter> cells (s, n) = {}"
      "heap_live s2 (insert (s, n) (insert (b, m) A))"
    using heap4.alloc_both [OF hp(1) n96 nd]
    by (elim disjE exE conjE) ((rule that(1), assumption+) | (rule that(2), assumption+) | (rule that(3), assumption+))+
  then show ?thesis
  proof cases
    case none
    have "?r = Some (errCOULD_NOT_ALLOCATE_REQUIRED_MEMORY, k\<lparr>heap := s'\<rparr>)"
      using none by (simp add: create_outfit prvAllocateTCBAndStack_def Let_def)
    moreover have "sched_ok (k\<lparr>heap := s'\<rparr>) M" by (rule sched_ok_upd [OF ok(1)]) simp_all
    moreover have "clock_ok (k\<lparr>heap := s'\<rparr>) M" using ok(2) by (simp add: clock_ok_def)
    ultimately show ?thesis using none(2) by simp
  next
    case half
    note F = new_block_fresh [OF half(4,5) _ pvPortMalloc_base [OF half(1)] hp(2)]
    let ?t = "of_nat (b + 16) :: u32"
    have F: "fresh k M ?t" "?t \<noteq> 0" "unat ?t = b + 16" using F(1-3) half(3) by simp_all
    define k1 where "k1 = (upd_tcb ?t (\<lambda>t. t\<lparr>pxStack := 0\<rparr>) k)\<lparr>heap := s3, kmem := kmem k\<rparr>"
    have "?r = Some (errCOULD_NOT_ALLOCATE_REQUIRED_MEMORY, k1)"
      using half F(2) by (simp add: create_outfit prvAllocateTCBAndStack_def Let_def k1_def upd_tcb_def del: of_nat_add)
    moreover have "\<not> on_list k M ?t" using F(1) by (auto simp: fresh_def)
    note A = alloc_tcb_frame [OF ok this k1_def]
    ultimately show ?thesis using A half(8) by (auto simp: k1_def)
  next
    case both
    let ?t = "of_nat (b + 16) :: u32"
    have F: "fresh k M ?t" "?t \<noteq> 0" "unat ?t = b + 16"
      using new_block_fresh(1-3) [OF both(4,5) _ pvPortMalloc_base [OF both(1)] hp(2)] both(3) by simp_all
    define k1 where "k1 = (upd_tcb ?t (\<lambda>t. t\<lparr>pxStack := of_nat (s + 16)\<rparr>) k)\<lparr>heap := s2,
      kmem := fill_mem (of_nat (s + 16)) 0xA5 (unat d * 4) (kmem k)\<rparr>"
    have nt: "\<not> on_list k M ?t" using F(1) by (auto simp: fresh_def)
    note A = alloc_tcb_frame [OF ok nt k1_def]
    have r: "?r = Some (pdPASS, outfit ?t c nm d a p h k1)"
      using both F(2) by (simp add: create_outfit prvAllocateTCBAndStack_def Let_def k1_def upd_tcb_def del: of_nat_add)
    have fr: "fresh k1 M ?t" using fresh_cong [OF F(1)] A(3) by blast
    have "pxCurrentTCB k1 \<noteq> 0" using cur A(6) by simp
    define k' where "k' = outfit ?t c nm d a p h k1"
    obtain M' where M': "sched_ok k' M'" "clock_ok k' M'" "\<forall>l. members M' l = members M l @ (if l = ready_list_at k q then [gen ?t] else [])"
      "prio k' ?t = q" "uxBasePriority (tcb k' ?t) = q" "pcTaskName (tcb k' ?t) = (strncpy 32 nm)[31 := 0]" "heap k' = heap k1"
      "uxCurrentNumberOfTasks k' = uxCurrentNumberOfTasks k + 1"
      using outfit_ok [OF A(1,2) fr \<open>pxCurrentTCB k1 \<noteq> 0\<close>, of c nm d a p h] unfolding A(4,7) q_def [symmetric] k'_def by blast
    have "heap k' = s2" using M'(7) by (simp add: k1_def)
    moreover have "s + n < 2 ^ 32" by (rule live_block(2) [OF both(10)]) simp
    then have "s + 16 + unat d * 4 < 2 ^ 32" using both(8) by linarith
    note S = created_stack [OF k1_def cur d this, where c = c and nm = nm and a = a and p = p and h = h, folded k'_def]
    ultimately have "created k M A d nm q h k'" unfolding created_def
      by (intro exI [of _ b] exI [of _ m] exI [of _ s] exI [of _ n] exI [of _ M'])
        (use M' both F(1) S in \<open>simp add: Let_def del: of_nat_add\<close>)
    then show ?thesis using r by (simp add: k'_def)
  qed
qed

text \<open>Whether two blocks can be allocated depends on the free list only.\<close>

lemma malloc_result:
  assumes ok: "heap_ok s fl A" and n: "n \<le> 2 ^ 32 - 16"
  shows "case alloc_spec n fl of None \<Rightarrow> \<exists>s'. pvPortMalloc n s = Some (0, s') \<and> heap_ok s' fl A
    | Some (x, fl') \<Rightarrow> \<exists>s'. pvPortMalloc n s = Some (fst x + 16, s') \<and> heap_ok s' fl' (insert x A) \<and> (of_nat (fst x + 16) :: u32) \<noteq> 0"
proof (cases "alloc_spec n fl")
  case None
  then show ?thesis using pvPortMalloc_ok [OF ok n] by auto
next
  case (Some y)
  obtain x fl' where y: "y = (x, fl')" by (cases y)
  obtain s' where s': "pvPortMalloc n s = Some (fst x + 16, s')" "heap_ok s' fl' (insert x A)"
    using pvPortMalloc_ok [OF ok n] Some y by auto
  have "heap_live s' (insert x A)" using s'(2) by (auto simp: heap_live_def)
  then have "fst x + snd x < 2 ^ 32" using live_block(2) [of s' "insert x A" "fst x" "snd x"] by simp
  moreover have "16 \<le> snd x" using alloc_spec_size [of n fl] Some y by (cases x) auto
  ultimately have "fst x + 16 < 2 ^ 32" by linarith
  then have "unat (of_nat (fst x + 16) :: u32) = fst x + 16" by (simp add: unat_of_nat del: of_nat_add)
  then have "(of_nat (fst x + 16) :: u32) \<noteq> 0" by auto
  then show ?thesis using s' Some y by (simp del: of_nat_add)
qed

lemma malloc_both_result:
  assumes ok: "heap_ok s fl A" and n: "n \<le> 2 ^ 32 - 16" "m \<le> 2 ^ 32 - 16"
  obtains (both) p s1 q s2 where "both_fit n m fl" "pvPortMalloc n s = Some (p, s1)" "(of_nat p :: u32) \<noteq> 0" "pvPortMalloc m s1 = Some (q, s2)" "q \<noteq> 0"
  | (none) s1 where "\<not> both_fit n m fl" "pvPortMalloc n s = Some (0, s1)"
  | (half) p s1 s2 s3 where "\<not> both_fit n m fl" "pvPortMalloc n s = Some (p, s1)" "(of_nat p :: u32) \<noteq> 0" "pvPortMalloc m s1 = Some (0, s2)" "vPortFree p s2 = Some s3"
proof (cases "alloc_spec n fl")
  case None
  then show thesis using malloc_result [OF ok n(1)] none by (auto simp: both_fit_def)
next
  case (Some y)
  obtain x fl' where y: "y = (x, fl')" by (cases y)
  obtain s1 where s1: "pvPortMalloc n s = Some (fst x + 16, s1)" "heap_ok s1 fl' (insert x A)" "(of_nat (fst x + 16) :: u32) \<noteq> 0"
    using malloc_result [OF ok n(1)] Some y by auto
  show thesis
  proof (cases "alloc_spec m fl'")
    case None
    then obtain s2 where s2: "pvPortMalloc m s1 = Some (0, s2)" "heap_ok s2 fl' (insert x A)"
      using malloc_result [OF s1(2) n(2)] by auto
    obtain s3 where "vPortFree (fst x + 16) s2 = Some s3" using vPortFree_ok [OF s2(2), of "fst x" "snd x"] by auto
    then show thesis using half [OF _ s1(1,3) s2(1)] None Some y by (simp add: both_fit_def)
  next
    case b: (Some z)
    obtain z1 z2 where z: "z = (z1, z2)" by (cases z)
    then obtain s2 where s2: "pvPortMalloc m s1 = Some (fst z1 + 16, s2)" using malloc_result [OF s1(2) n(2)] b by auto
    have "both_fit n m fl" using b Some y z by (simp add: both_fit_def)
    then show thesis by (rule both [OF _ s1(1,3) s2]) simp
  qed
qed

lemma create_result:
  fixes d :: u16
  assumes "heap_ok (heap k) fl A"
  shows "\<exists>r k'. xTaskGenericCreate c nm d a p h 0 k = Some (r, k') \<and> (r = pdPASS \<longleftrightarrow> both_fit 96 (unat d * 4) fl)"
proof -
  have ne: "errCOULD_NOT_ALLOCATE_REQUIRED_MEMORY \<noteq> pdPASS" by (simp add: pdPASS_def errCOULD_NOT_ALLOCATE_REQUIRED_MEMORY_def)
  have "unat d < 2 ^ 16" using unsigned_less [of d] by simp
  then have n: "96 \<le> (2 ^ 32 - 16 :: nat)" "unat d * 4 \<le> 2 ^ 32 - 16" by simp_all
  from assms n show ?thesis
  proof (cases rule: malloc_both_result)
    case both
    then show ?thesis by (simp add: create_outfit prvAllocateTCBAndStack_def Let_def)
  next
    case none
    then show ?thesis using ne by (simp add: create_outfit prvAllocateTCBAndStack_def Let_def)
  next
    case half
    then show ?thesis using ne by (simp add: create_outfit prvAllocateTCBAndStack_def Let_def)
  qed
qed

section \<open>New event lists\<close>

text \<open>Initialising a list in memory that the scheduler does not use, as queues do.\<close>

lemma new_list_ok:
  assumes ok: "sched_ok k M" "clock_ok k M" and l: "l \<notin> dom M" "l \<noteq> 0" "free_item M (xListEnd l)"
    and u: "\<And>u. on_list k M u \<Longrightarrow> evt u \<noteq> xListEnd l"
  defines "k' \<equiv> vListInitialise l k" and "M' \<equiv> M(l \<mapsto> ([], []))"
  shows "sched_ok k' M'" "clock_ok k' M'" "members M' l' = members M l'" "in_order M' l' = in_order M l'" "dom M' = insert l (dom M)"
proof -
  have ly: "layout k M" and lo: "lists_ok k M" and rk: "ready_ok k M" and sl: "sleep_ok k M"
    using ok(1) by (auto simp: sched_ok_def)
  have ml: "members M l = []" "in_order M l = []" using l(1) by (cases "M l"; auto simp: members_def in_order_def)+
  show mm: "members M' l' = members M l'" "in_order M' l' = in_order M l'" for l'
    using ml by (simp_all add: M'_def members_upd in_order_upd)
  show dm: "dom M' = insert l (dom M)" by (simp add: M'_def)
  have it: "itm k' a = itm k a" if "a \<noteq> xListEnd l" for a using that by (simp add: k'_def vListInitialise_items)
  have rep: "list_rep k' j (fst c) (snd c)" if "M' j = Some c" for j c
  proof (cases "j = l")
    case True
    then show ?thesis using that by (auto simp: M'_def k'_def vListInitialise_rep)
  next
    case False
    then have c: "M j = Some c" using that by (simp add: M'_def)
    show ?thesis
    proof (rule list_rep_frame [OF lists_okD [OF lo c]])
      fix a assume "a \<in> set (xListEnd j # fst c @ snd c)"
      then have "a \<noteq> xListEnd l" using l(3) c unfolding free_item_def footprint_def by blast
      then show "itm k' a = itm k a" by (rule it)
    qed (use False in \<open>simp add: k'_def vListInitialise_items\<close>)
  qed
  have "footprint j c \<inter> footprint j' c' = {}" if "M' j = Some c" "M' j' = Some c'" "j \<noteq> j'" for j c j' c'
  proof -
    have nf: "xListEnd l \<notin> footprint i d" if "M i = Some d" for i d using l(3) that unfolding free_item_def by blast
    have fl: "footprint l ([], []) = {xListEnd l}" by (simp add: footprint_def)
    consider "j = l" | "j' = l" "j \<noteq> l" | "j \<noteq> l" "j' \<noteq> l" by blast
    then show ?thesis
    proof cases
      case 1
      then show ?thesis using that nf [of j' c'] fl by (simp add: M'_def split: if_splits)
    next
      case 2
      then show ?thesis using that nf [of j c] fl by (simp add: M'_def split: if_splits)
    next
      case 3
      then have "M j = Some c" "M j' = Some c'" using that(1,2) by (simp_all add: M'_def)
      then show ?thesis using that(3) lo unfolding lists_ok_def by blast
    qed
  qed
  then have lo': "lists_ok k' M'" using rep unfolding lists_ok_def by blast
  have f: "tcb k' = tcb k" "task_lists k' = task_lists k" "ready_list_at k' = ready_list_at k" by (simp_all add: k'_def)
  have tl: "l \<notin> set (task_lists k)" using l(1) layout_facts(5) [OF ly] by blast
  have gl: "x \<in> set (members M j) \<Longrightarrow> x \<noteq> xListEnd l" for x j using l(3) free_not_member by blast
  have tk: "task_ok k' M' t" if t: "task_ok k M t" "on_list k M t" for t
  proof -
    have g: "gen t \<noteq> xListEnd l" using t(2) gl unfolding on_list_def by blast
    have "free_item M (evt t) \<Longrightarrow> free_item M' (evt t)" using u [OF t(2)] dm mm ml by (simp add: free_item_members)
    then show ?thesis using t(1) it [OF g] it [OF u [OF t(2)]] by (simp add: task_ok_def f mm)
  qed
  have "items_ok k' M'"
    unfolding items_ok_def f mm dm
  proof (intro conjI ballI)
    fix j x assume j: "j \<in> set (task_lists k)" and x: "x \<in> set (members M j)"
    obtain t where t: "x = gen t" "task_ok k M t" using generic_itemE [OF ok(1) j x] by metis
    then show "\<exists>t. x = gen t \<and> task_ok k' M' t" using tk [OF t(2)] j x by (auto simp: on_list_def)
  next
    fix j x assume j: "j \<in> insert l (dom M) - set (task_lists k)" and x: "x \<in> set (members M j)"
    then have "j \<in> dom M" using ml by auto
    then obtain t l' where t: "x = evt t" "task_ok k M t" "l' \<in> set (task_lists k)" "gen t \<in> set (members M l')"
      using event_itemE [OF ok(1) _ _ x] j by blast
    then show "\<exists>t. x = evt t \<and> task_ok k' M' t \<and> (\<exists>l'\<in>set (task_lists k). gen t \<in> set (members M l'))"
      using tk [OF t(2)] by (auto simp: on_list_def)
  qed
  moreover have "layout k' M'" using ly l(2) by (auto simp: layout_def k'_def dm task_lists_def ready_list_at_def)
  moreover have "ready_ok k' M'" using rk unfolding ready_ok_def mm f by (simp add: k'_def)
  moreover have v: "val k' x = val k x" if "x \<in> set (members M j)" for x j using it [OF gl [OF that]] by simp
  have mp: "map (val k') (in_order M D) = map (val k) (in_order M D)" for D by (rule map_cong [OF refl], rule v [of _ D]) simp
  have g: "pxDelayedTaskList k' = pxDelayedTaskList k" "pxOverflowDelayedTaskList k' = pxOverflowDelayedTaskList k"
    "xTickCount k' = xTickCount k" "xNextTaskUnblockTime k' = xNextTaskUnblockTime k" by (simp_all add: k'_def)
  have "sleep_ok k' M'" using sl unfolding sleep_ok_def mm g mp .
  ultimately show "sched_ok k' M'" using lo' by (simp add: sched_ok_def)
  show "clock_ok k' M'" by (rule clock_ok_less [OF ok(2) g(3,4,1,2)]) (use v mm in simp)
qed

end
