(* ===== verification/Scheduler.thy ===== *)
theory Scheduler
  imports Sched_Create
begin

text \<open>
  What the scheduler promises: the highest ready priority runs, in rotation; ticks, delays and
  timeouts are exact across the wrap-around of the tick counter; suspending the scheduler loses
  nothing; event lists are served by priority; inherited priorities are given back; creating a
  task is all or nothing. The witnesses run on a kernel with two tasks and an event list.
\<close>

section \<open>Auxiliary facts\<close>

lemma sleeper_owner:
  assumes "sched_ok k M" "gen t \<in> sleepers k M"
  shows "pvOwner (itm k (gen t)) = t"
proof -
  obtain l where "gen t \<in> set (members M l)" "l \<in> set (task_lists k)"
    using assms layout_facts(4) [OF sched_parts(2) [OF assms(1)]] unfolding sleepers_def by blast
  from on_list_task(1) [OF assms(1) this] show ?thesis by (simp add: task_ok_def)
qed

text \<open>\<open>N\<close> ticks have passed since the counters were zero.\<close>

definition clock_at :: "nat \<Rightarrow> 'a kernel_scheme \<Rightarrow> bool" where
  "clock_at N k \<longleftrightarrow> xTickCount k = of_nat N \<and> xNumOfOverflows k = of_nat (N div 2 ^ 32)"

lemma overflow_count:
  fixes N N0 :: nat
  assumes "N0 \<le> N" "N - N0 \<le> 2 ^ 32"
  shows "(of_nat (N div 2 ^ 32) \<noteq> (of_nat (N0 div 2 ^ 32) :: u32)) \<and> N0 mod 2 ^ 32 \<le> N mod 2 ^ 32 \<longleftrightarrow> N - N0 = 2 ^ 32"
proof -
  define q r Q R where d: "q = N0 div 2 ^ 32" "r = N0 mod 2 ^ 32" "Q = N div 2 ^ 32" "R = N mod 2 ^ 32"
  have N: "N0 = q * 2 ^ 32 + r" "N = Q * 2 ^ 32 + R" unfolding d by (simp_all only: div_mult_mod_eq)
  have r: "r < 2 ^ 32" "R < 2 ^ 32" unfolding d by simp_all
  have Q: "q \<le> Q" "Q \<le> q + 1"
  proof -
    show "q \<le> Q" unfolding d by (rule div_le_mono [OF assms(1)])
    have "Q \<le> (N0 + 2 ^ 32) div 2 ^ 32" unfolding d using assms by (intro div_le_mono) simp
    then show "Q \<le> q + 1" by (simp add: d)
  qed
  then have "Q = q \<or> Q = Suc q" by arith
  then have "(of_nat Q \<noteq> (of_nat q :: u32)) \<longleftrightarrow> Q = q + 1" by (elim disjE) simp_all
  moreover have "Q = q + 1 \<and> r \<le> R \<longleftrightarrow> N - N0 = 2 ^ 32"
  proof (cases "Q = q + 1")
    case True
    then have "N - N0 = 2 ^ 32 + R - r" "N - N0 \<le> 2 ^ 32" using N assms(2) by simp_all
    then show ?thesis using True r by auto
  next
    case False
    then show ?thesis using Q N r assms by auto
  qed
  ultimately show ?thesis unfolding d by simp
qed

lemma empty_map_facts: "dom (empty_lists ls) = set ls" "members (empty_lists ls) l = []" "in_order (empty_lists ls) l = []"
  by (auto simp: empty_lists_def members_def in_order_def split: if_splits)

section \<open>Properties\<close>

text \<open>
  C12. A context switch of a running scheduler returns and picks the task due next at the highest
  priority that has a ready task, and puts that task at the end of its rotation; no other list
  changes and the scheduler's invariant is kept.
\<close>

theorem switch_runs_highest:
  assumes "sched_ok k M" "uxSchedulerSuspended k = 0" "stack_check k"
    "top_priority k M p" "members M (ready_list_at k p) = gen t # xs"
  shows "\<exists>k' M'. vTaskSwitchContext k = Some k' \<and> pxCurrentTCB k' = t \<and> sched_ok k' M' \<and>
    members M' (ready_list_at k p) = xs @ [gen t] \<and> (\<forall>l. l \<noteq> ready_list_at k p \<longrightarrow> members M' l = members M l)"
proof -
  have p: "p < 5" using assms(4) by (simp add: top_priority_def)
  have "gen t \<in> set (members M (ready_list_at k p))" using assms(5) by simp
  from on_list_task(1) [OF assms(1) this layout_facts(2) [OF sched_parts(2) [OF assms(1)] p]]
  have own: "pvOwner (itm k (gen t)) = t" by (simp add: task_ok_def)
  obtain k' c where "taskSELECT_HIGHEST_PRIORITY_TASK k = Some k'" "pxCurrentTCB k' = t"
    "sched_ok k' (M(ready_list_at k p \<mapsto> c))" "snd c @ fst c = xs @ [gen t]"
    using select_runs [OF assms(1,4,5)] own by auto
  then show ?thesis using assms(2,3)
    by (intro exI [of _ k'] exI [of _ "M(ready_list_at k p \<mapsto> c)"]) (simp add: vTaskSwitchContext_def members_upd)
qed

text \<open>
  C10. The tick interrupt always returns, keeps the scheduler's invariant, and is exact, also when
  the 32-bit tick counter wraps around: a sleeping task with one tick left goes to the end of the
  ready list of its priority and off its event list, every other sleeping task has one tick less.
\<close>

theorem tick_exact:
  assumes "sched_ok k M" "clock_ok k M" "uxSchedulerSuspended k = 0"
  shows "\<exists>k' M'. vTaskIncrementTick k = Some k' \<and> sched_ok k' M' \<and> clock_ok k' M' \<and> xTickCount k' = xTickCount k + 1 \<and>
    (\<exists>ws. distinct ws \<and> set ws = {x \<in> sleepers k M. remaining k x = 1} \<and>
       (\<forall>p<5. members M' (ready_list_at k p) = members M (ready_list_at k p) @ filter (\<lambda>x. prio k (pvOwner (itm k x)) = p) ws) \<and>
       (\<forall>y\<in>set ws. \<forall>l. evt (pvOwner (itm k y)) \<notin> set (members M' l))) \<and>
    sleepers k' M' = {x \<in> sleepers k M. remaining k x \<noteq> 1} \<and>
    (\<forall>x\<in>sleepers k' M'. Suc (remaining k' x) = remaining k x)"
  using tick_ok [OF assms] unfolding tick_step_def by blast

text \<open>
  C11. A task that calls \<open>vTaskDelay d\<close> is taken off the ready list, a task switch is requested, and
  for every number \<open>n\<close> of ticks that follow: before \<open>d\<close> ticks it is asleep with \<open>d - n\<close> ticks to go,
  from the \<open>d\<close>-th tick on it is on the ready list of its priority, whether or not the tick
  counter wrapped around in between.
\<close>

theorem delay_wakes_on_time:
  assumes "running k M" "d \<noteq> 0"
  defines "t \<equiv> pxCurrentTCB k"
  shows "\<exists>k1. vTaskDelay d k = Some k1 \<and> pendsv k1 \<and>
    (\<forall>n. \<exists>k2 M2. tick_times n k1 = Some k2 \<and> sched_ok k2 M2 \<and>
       (if n < unat d then gen t \<in> sleepers k2 M2 \<and> remaining k2 (gen t) = unat d - n
        else gen t \<in> set (members M2 (ready_list_at k (prio k t)))))"
proof -
  obtain k1 M1 where d: "vTaskDelay d k = Some k1" "sched_ok k1 M1" "clock_ok k1 M1" "uxSchedulerSuspended k1 = 0" "pendsv k1"
    "asleep k M t (unat d) k1 M1" using vTaskDelay_ok [OF assms(1,2)] by (auto simp: t_def)
  obtain l where l: "gen t \<in> set (members M l)" "l \<in> set (task_lists k)" "sched_ok k M"
    using assms(1) by (auto simp: running_def on_list_def t_def)
  have t: "task_ok k M t" using on_list_task(1) [OF l(3,1,2)] .
  have s: "gen t \<in> sleepers k1 M1" "remaining k1 (gen t) = unat d" "ready_list_at k1 = ready_list_at k" "tcb k1 = tcb k"
    using d(6) by (simp_all add: asleep_def)
  have own: "pvOwner (itm k1 (gen t)) = t" using sleeper_owner [OF d(2) s(1)] .
  have "\<exists>k2 M2. tick_times n k1 = Some k2 \<and> sched_ok k2 M2 \<and>
       (if n < unat d then gen t \<in> sleepers k2 M2 \<and> remaining k2 (gen t) = unat d - n
        else gen t \<in> set (members M2 (ready_list_at k (prio k t))))" for n
  proof -
    obtain k2 M2 where n: "tick_times n k1 = Some k2" "sched_ok k2 M2" "ticks_passed n k1 M1 k2 M2"
      using tick_times_ok [OF d(2-4)] by blast
    show ?thesis
    proof (cases "n < unat d")
      case True
      then have "gen t \<in> sleepers k2 M2" using n(3) s(1,2) by (simp add: ticks_passed_def)
      moreover from this have "remaining k2 (gen t) + n = unat d" using n(3) s(2) by (simp add: ticks_passed_def)
      ultimately show ?thesis using n True by (intro exI [of _ k2] exI [of _ M2]) simp
    next
      case False
      have "prio k t < 5" using t by (simp add: task_ok_def)
      then have "gen t \<in> set (members M2 (ready_list_at k (prio k t)))"
        using n(3) s own False by (simp add: ticks_passed_def)
      then show ?thesis using n False by (intro exI [of _ k2] exI [of _ M2]) simp
    qed
  qed
  then show ?thesis using d(1,5) by blast
qed

text \<open>
  C17. Called while the scheduler is running (not suspended, no tick missed, nothing pending),
  \<open>vTaskDelayUntil\<close> returns and stores the next wake time \<open>prev + inc\<close> whatever the jitter of the
  caller. The caller sleeps exactly when fewer than \<open>inc\<close> ticks have passed since \<open>prev\<close> (counted modulo \<open>2 ^ 32\<close>), and
  then for the ticks that are left; otherwise no list changes. In both cases a task switch is
  requested. The wrap of the tick counter changes nothing.
\<close>

theorem delay_until_periodic:
  fixes prev inc :: u32
  assumes "running k M"
  defines "t \<equiv> pxCurrentTCB k" and "e \<equiv> xTickCount k - prev"
  shows "\<exists>k' M'. vTaskDelayUntil prev inc k = Some (prev + inc, k') \<and> sched_ok k' M' \<and> clock_ok k' M' \<and> pendsv k' \<and>
    (if e < inc then asleep k M t (unat (inc - e)) k' M' else sleepers k' M' = sleepers k M \<and> M' = M)"
proof (cases "e < inc")
  case True
  have "inc - e \<noteq> 0" using True by auto
  from sleep_and_resume [OF assms(1) this] obtain k1 y k' M' where
    S: "prvAddCurrentTaskToDelayedList (xTickCount k + (inc - e)) (remove_generic (pxCurrentTCB k) (vTaskSuspendAll k)) = Some k1"
      "xTaskResumeAll k1 = Some (y, k')" "y \<longrightarrow> pendsv k'" "sched_ok k' M'" "clock_ok k' M'" "asleep k M t (unat (inc - e)) k' M'"
    unfolding t_def by blast
  have w: "xTickCount k + (inc - e) = prev + inc" by (simp add: e_def)
  have "pxCurrentTCB (vTaskSuspendAll k) = pxCurrentTCB k" "xTickCount (vTaskSuspendAll k) = xTickCount k"
    by (simp_all add: vTaskSuspendAll_def)
  then have "vTaskDelayUntil prev inc k = Some (prev + inc, if y then k' else portYIELD_WITHIN_API k')"
    using S(1) [unfolded w] S(2) True by (simp add: vTaskDelayUntil_def Let_def delay_until_exact e_def)
  then show ?thesis using S(3-6) True
    by (intro exI [of _ "if y then k' else portYIELD_WITHIN_API k'"] exI [of _ M']) (auto simp: yield_frame)
next
  case False
  let ?k = "vTaskSuspendAll k"
  have r: "sched_ok k M" "clock_ok k M" "uxSchedulerSuspended k = 0" "0 < uxCurrentNumberOfTasks k" "uxMissedTicks k = 0"
    "members M (xPendingReadyList k) = []" using assms(1) by (simp_all add: running_def)
  have "sched_ok ?k M" unfolding vTaskSuspendAll_def by (rule sched_ok_fields(4) [OF r(1)])
  moreover have "clock_ok ?k M" using r(2) by (simp add: suspend_all_frame)
  moreover have "uxSchedulerSuspended ?k = 1" "0 < uxCurrentNumberOfTasks ?k" "uxMissedTicks ?k = 0"
    "members M (xPendingReadyList ?k) = []" using r(3-6) by (simp_all add: vTaskSuspendAll_def)
  ultimately obtain k' where S: "xTaskResumeAll ?k = Some (xMissedYield ?k, k')" "sched_ok k' M" "clock_ok k' M"
    "sleepers k' M = sleepers ?k M" "xMissedYield ?k \<longrightarrow> pendsv k'"
    using resume_quiet by blast
  let ?k' = "if xMissedYield ?k then k' else portYIELD_WITHIN_API k'"
  have "xTickCount ?k = xTickCount k" by (simp add: vTaskSuspendAll_def)
  then have "vTaskDelayUntil prev inc k = Some (prev + inc, ?k')"
    using S(1) False by (simp add: vTaskDelayUntil_def Let_def delay_until_exact e_def)
  moreover have "sleepers (portYIELD_WITHIN_API k') M = sleepers k' M" by (simp add: portYIELD_WITHIN_API_def sleepers_def)
  ultimately show ?thesis using S(2-5) False
    by (intro exI [of _ ?k'] exI [of _ M]) (auto simp: yield_frame suspend_all_frame)
qed

text \<open>
  C16. Timeouts: with true times \<open>N0\<close> at \<open>vTaskSetTimeOutState\<close> and \<open>N\<close> now, at most \<open>2 ^ 32\<close> ticks
  apart, \<open>xTaskCheckForTimeOut\<close> reports a timeout exactly when the requested ticks have passed, and
  otherwise stores the ticks that are left together with the current time.
\<close>

theorem timeout_exact:
  assumes "clock_at N0 k0" "clock_at N k" "N0 \<le> N" "N - N0 \<le> 2 ^ 32" "ticks \<noteq> portMAX_DELAY"
  shows "xTaskCheckForTimeOut (vTaskSetTimeOutState k0) ticks k =
    (if unat ticks \<le> N - N0 then (True, vTaskSetTimeOutState k0, ticks)
     else (False, vTaskSetTimeOutState k, ticks - of_nat (N - N0)))"
proof -
  let ?n = "xTickCount k" and ?a = "xTickCount k0"
  have n: "?n = of_nat N" "?a = of_nat N0" using assms(1,2) by (simp_all add: clock_at_def)
  have tk: "unat ?n = N mod 2 ^ 32" "unat ?a = N0 mod 2 ^ 32" unfolding n by (simp_all add: unat_of_nat)
  have df: "?n - ?a = of_nat (N - N0)" unfolding n using assms(3) by (simp add: of_nat_diff)
  have lt: "unat ticks < 2 ^ 32" using unat_u32_less [of ticks] by simp
  have wrapped: "xNumOfOverflows k \<noteq> xNumOfOverflows k0 \<and> ?a \<le> ?n \<longleftrightarrow> N - N0 = 2 ^ 32"
    unfolding word_le_nat_alt tk using overflow_count [OF assms(3,4)] assms(1,2) by (simp only: clock_at_def)
  show ?thesis
  proof (cases "N - N0 = 2 ^ 32")
    case True
    then show ?thesis using wrapped lt assms(5) by (simp add: xTaskCheckForTimeOut_def vTaskSetTimeOutState_def)
  next
    case False
    then have "unat (of_nat (N - N0) :: u32) = N - N0" using assms(4) by (simp add: unat_of_nat)
    then have "?n - ?a < ticks \<longleftrightarrow> N - N0 < unat ticks" by (simp add: word_less_nat_alt df)
    then show ?thesis using wrapped False assms(5) df by (auto simp: xTaskCheckForTimeOut_def vTaskSetTimeOutState_def)
  qed
qed

text \<open>
  C13. When the last \<open>xTaskResumeAll\<close> resumes the scheduler, every task made ready meanwhile is moved
  to the ready list of its priority, all ticks missed meanwhile are replayed so that no sleeping task
  oversleeps, the counter is what it would have been, and the result says exactly whether a switch
  is due: a tick was missed, a yield was, or a task of at least the running task's priority got ready.
\<close>

theorem resume_replays:
  assumes "sched_ok k M" "clock_ok k M" "uxSchedulerSuspended k = 1" "0 < uxCurrentNumberOfTasks k"
  defines "n \<equiv> unat (uxMissedTicks k)" and "P \<equiv> pending_tasks k M"
  shows "\<exists>y k' M'. xTaskResumeAll k = Some (y, k') \<and> sched_ok k' M' \<and> clock_ok k' M' \<and> dom M' = dom M \<and>
    uxSchedulerSuspended k' = 0 \<and> uxMissedTicks k' = 0 \<and> members M' (xPendingReadyList k) = [] \<and>
    pxCurrentTCB k' = pxCurrentTCB k \<and> ready_list_at k' = ready_list_at k \<and> tcb k' = tcb k \<and>
    y = (0 < n \<or> xMissedYield k \<or> (\<exists>t\<in>P. prio k (pxCurrentTCB k) \<le> prio k t)) \<and> (y \<longrightarrow> pendsv k') \<and>
    xTickCount k' = xTickCount k + uxMissedTicks k \<and>
    sleepers k' M' = {x \<in> sleepers k M - gen ` P. n < remaining k x} \<and>
    (\<forall>x\<in>sleepers k' M'. remaining k' x + n = remaining k x) \<and>
    (\<forall>p<5. set (members M' (ready_list_at k p)) = set (members M (ready_list_at k p)) \<union>
       {gen t | t. t \<in> P \<and> prio k t = p} \<union>
       {x \<in> sleepers k M - gen ` P. remaining k x \<le> n \<and> prio k (pvOwner (itm k x)) = p})"
  unfolding n_def P_def by (rule resume_all_ok [OF assms(1-4)])

text \<open>
  A task that blocks on an event list is filed there by priority behind the tasks of the same
  priority, leaves its ready list, and sleeps for exactly the ticks it is willing to wait, or
  without limit when it waits \<open>portMAX_DELAY\<close>; no other event list changes.
\<close>

theorem block_on_event:
  assumes "running k M" "pvContainer (itm k (evt (pxCurrentTCB k))) = 0" "e \<in> dom M" "e \<notin> set (task_lists k)" "w \<noteq> 0"
    "sorted (map (val k) (in_order M e))"
  defines "t \<equiv> pxCurrentTCB k"
  shows "\<exists>k' M'. vTaskPlaceOnEventList e w k = Some k' \<and> sched_ok k' M' \<and> clock_ok k' M' \<and>
    in_order M' e = ordered_insert (val k) (evt t) (in_order M e) \<and> sorted (map (val k) (in_order M' e)) \<and>
    (\<forall>e'\<in>dom M - set (task_lists k). e' \<noteq> e \<longrightarrow> members M' e' = members M e') \<and>
    (\<forall>p<5. members M' (ready_list_at k p) = remove1 (gen t) (members M (ready_list_at k p))) \<and>
    (if w = portMAX_DELAY then gen t \<in> set (members M' (xSuspendedTaskList k))
     else gen t \<in> sleepers k' M' \<and> remaining k' (gen t) = unat w)"
proof -
  have ok: "sched_ok k M" "clock_ok k M" using assms(1) by (simp_all add: running_def)
  obtain l where l: "gen t \<in> set (members M l)" "l \<in> set (task_lists k)"
    using assms(1) by (auto simp: running_def on_list_def t_def)
  obtain k' M' where p: "vTaskPlaceOnEventList e w k = Some k'" "sched_ok k' M'" "clock_ok k' M'"
    "in_order M' e = ordered_insert (val k) (evt t) (in_order M e)"
    "\<forall>e'\<in>dom M - set (task_lists k). e' \<noteq> e \<longrightarrow> members M' e' = members M e'"
    "\<forall>p<5. members M' (ready_list_at k p) = remove1 (gen t) (members M (ready_list_at k p))"
    "if w = portMAX_DELAY then gen t \<in> set (members M' (xSuspendedTaskList k))
     else gen t \<in> sleepers k' M' \<and> remaining k' (gen t) = unat w"
    using place_on_event_list_ok [OF ok meta_eq_to_obj_eq [OF t_def] l assms(2) [folded t_def] assms(3-5)] by (elim exE conjE)
  have "sorted (map (val k) (in_order M' e))" unfolding p(4) by (rule ordered_insert_sorted [OF assms(6)])
  with p show ?thesis by (intro exI [of _ k'] exI [of _ M'] conjI)
qed

text \<open>
  Waking an event list takes the task at its front, the one of the highest priority that has
  waited longest. With the scheduler running it goes to its ready list at once and is not asleep
  any more; with the scheduler suspended it is filed on the pending list and no task list changes.
  The result says whether it should run before the running task.
\<close>

theorem event_wakes_first:
  assumes "sched_ok k M" "clock_ok k M" "e \<in> dom M" "e \<notin> set (task_lists k)" "e \<noteq> xPendingReadyList k"
    "in_order M e = evt t # es"
  shows "\<exists>k' M'. xTaskRemoveFromEventList e k = (prio k (pxCurrentTCB k) \<le> prio k t, k') \<and> sched_ok k' M' \<and> clock_ok k' M' \<and>
    in_order M' e = es \<and>
    (if uxSchedulerSuspended k = 0
     then set (members M' (ready_list_at k (prio k t))) = insert (gen t) (set (members M (ready_list_at k (prio k t)))) \<and>
       sleepers k' M' = sleepers k M - {gen t}
     else members M' (xPendingReadyList k) = members M (xPendingReadyList k) @ [evt t] \<and>
       (\<forall>l\<in>set (task_lists k). members M' l = members M l))"
proof (cases "uxSchedulerSuspended k = 0")
  case True
  obtain k' M' where w: "xTaskRemoveFromEventList e k = (prio k (pxCurrentTCB k) \<le> prio k t, k')" "sched_ok k' M'"
    "clock_ok k' M'" "in_order M' e = es" "readied {t} k M k' M'"
    using event_wakes_ok [OF assms(1,2) True assms(3,4,6)] by blast
  have "evt t \<in> set (members M e)" using assms(6) set_in_order [of M e] by (metis list.set_intros(1))
  then obtain u where "evt t = evt u" "task_ok k M u" using event_itemE [OF assms(1,3,4)] by metis
  then have "prio k t < 5" by (simp add: task_ok_def)
  then have "set (members M' (ready_list_at k (prio k t))) = insert (gen t) (set (members M (ready_list_at k (prio k t))))"
    "sleepers k' M' = sleepers k M - {gen t}" using w(5) by (simp_all add: readied_def)
  with w(1-4) True show ?thesis by (intro exI [of _ k'] exI [of _ M']) simp
next
  case False
  obtain k' M' where w: "xTaskRemoveFromEventList e k = (prio k (pxCurrentTCB k) \<le> prio k t, k')" "sched_ok k' M'"
    "clock_ok k' M'" "in_order M' e = es" "members M' (xPendingReadyList k) = members M (xPendingReadyList k) @ [evt t]"
    "\<forall>l. l \<noteq> e \<longrightarrow> l \<noteq> xPendingReadyList k \<longrightarrow> M' l = M l"
    using event_pends_ok [OF assms(1,2) False assms(3-6)] by (elim exE conjE)
  have "members M' l = members M l" if "l \<in> set (task_lists k)" for l
  proof -
    have "l \<noteq> e" "l \<noteq> xPendingReadyList k" using that assms(4) layout_facts(7) [OF sched_parts(2) [OF assms(1)]] by auto
    then show ?thesis using w(6) by (simp add: members_def)
  qed
  with w(1-5) False show ?thesis by (intro exI [of _ k'] exI [of _ M']) simp
qed

text \<open>
  C14. Priority inheritance: while a higher-priority task waits for a mutex, its ready holder is moved
  to the ready list of that priority and the value of its event item, which orders it on event
  lists, follows; when the holder gives the mutex back every control block is what it was, the
  values, owners and containers of its two list items included, the holder is at the end of the
  ready list of its own priority and all other lists are unchanged. (The holder starts with its own
  priority and the event item value that belongs to it, as \<open>prvInitialiseTCBVariables\<close> sets it.)
\<close>

theorem inherit_disinherit:
  fixes t :: u32
  assumes "sched_ok k M" "clock_ok k M" "gen t \<in> set (members M (ready_list_at k (prio k t)))" "t \<noteq> 0"
    "prio k t < prio k (pxCurrentTCB k)" "prio k (pxCurrentTCB k) < 5" "uxBasePriority (tcb k t) = prio k t"
    "val k (evt t) = 5 - prio k t"
  defines "p \<equiv> prio k (pxCurrentTCB k)" and "k1 \<equiv> vTaskPriorityInherit t k"
  defines "k2 \<equiv> vTaskPriorityDisinherit t k1"
  shows "\<exists>M1 M2. sched_ok k1 M1 \<and> sched_ok k2 M2 \<and> clock_ok k2 M2 \<and> prio k1 t = p \<and> val k1 (evt t) = 5 - p \<and> tcb k2 = tcb k \<and>
    (\<forall>y. val k2 y = val k y \<and> pvOwner (itm k2 y) = pvOwner (itm k y) \<and> pvContainer (itm k2 y) = pvContainer (itm k y)) \<and>
    (\<forall>l. members M1 l = remove1 (gen t) (members M l) @ (if l = ready_list_at k p then [gen t] else [])) \<and>
    (\<forall>l. members M2 l = (if l = ready_list_at k (prio k t) then remove1 (gen t) (members M l) @ [gen t] else members M l))"
proof -
  have pt: "prio k t < 5" using assms(5,6) by auto
  have lt: "ready_list_at k (prio k t) \<in> set (task_lists k)" using layout_facts(2) [OF sched_parts(2) [OF assms(1)] pt] .
  obtain M1 where i: "sched_ok k1 M1" "clock_ok k1 M1" "tcb k1 = (tcb k)(t := (tcb k t)\<lparr>uxPriority := p\<rparr>)"
    "\<And>l. members M1 l = remove1 (gen t) (members M l) @ (if l = ready_list_at k p then [gen t] else [])" "ready_list_at k1 = ready_list_at k"
    using vTaskPriorityInherit_ok [OF assms(1,2,3) lt assms(4-6)] unfolding k1_def p_def by auto
  have ne: "p \<noteq> prio k t" and p: "p < 5" using assms(5,6) by (auto simp: p_def)
  have "gen t \<in> set (members M1 (ready_list_at k1 (prio k1 t)))" "prio k1 t < 5" "prio k1 t \<noteq> uxBasePriority (tcb k1 t)"
    "uxBasePriority (tcb k1 t) < 5" using i(3-5) p ne pt assms(7) by simp_all
  from vTaskPriorityDisinherit_ok [OF i(1,2) this(1,2) assms(4) this(3,4), folded k2_def]
  obtain M2 where d: "sched_ok k2 M2" "clock_ok k2 M2" "tcb k2 = (tcb k1)(t := (tcb k1 t)\<lparr>uxPriority := prio k t\<rparr>)"
    "\<And>l. members M2 l = remove1 (gen t) (members M1 l) @ (if l = ready_list_at k (prio k t) then [gen t] else [])"
    using assms(7) i(3,5) by auto
  have gc: "pvContainer (itm k (gen t)) = ready_list_at k (prio k t)" by (rule member_container [OF sched_parts(1) [OF assms(1)] assms(3)])
  note I = inherit_items [OF assms(4,5) gc, folded k1_def p_def]
  have b1: "prio k1 t \<noteq> uxBasePriority (tcb k1 t)" "uxBasePriority (tcb k1 t) = prio k t" using i(3) ne assms(7) by simp_all
  note D = disinherit_items [OF assms(4) b1(1), folded k2_def, unfolded b1(2) i(5)]
  have "val k1 (evt t) = 5 - p" by (simp add: I(1))
  moreover have "\<forall>y. val k2 y = val k y \<and> pvOwner (itm k2 y) = pvOwner (itm k y) \<and> pvContainer (itm k2 y) = pvContainer (itm k y)"
    using assms(8) gc by (simp add: D I)
  moreover have "tcb k2 = tcb k" using d(3) i(3) by (simp add: fun_eq_iff)
  moreover have "members M2 l = (if l = ready_list_at k (prio k t) then remove1 (gen t) (members M l) @ [gen t] else members M l)" for l
  proof -
    have dj: "ready_list_at k p \<noteq> ready_list_at k (prio k t)" using ready_list_neq [OF p pt] ne by simp
    have nm: "gen t \<notin> set (remove1 (gen t) (members M l))" using lists_distinct [OF sched_parts(1) [OF assms(1)], of l] by simp
    have un: "gen t \<notin> set (members M l)" if "l \<noteq> ready_list_at k (prio k t)"
      using member_unique [OF sched_parts(1) [OF assms(1)] assms(3), of l] that by blast
    show ?thesis using dj nm un by (auto simp: d(4) i(4) remove1_append remove1_idem)
  qed
  ultimately show ?thesis using i d(1,2) by (intro exI [of _ M1] exI [of _ M2]) simp
qed

text \<open>
  C15. Creating a task whose stack comes from the heap and has at least 19 words, when it is not the
  first task: it fails exactly when the control block and then the stack do not both fit the heap's
  free list, with the error code, the heap holding exactly the blocks it held and no list changed.
  Otherwise it adds one task: two new disjoint heap blocks of at least the sizes of a control block
  and of the stack, the priority clamped to the highest one, the name truncated and terminated,
  the task at the end of the ready list of its priority, and the initial register frame inside the
  stack; memory outside of the stack, and of the place for the handle, is not written.
\<close>

theorem create_all_or_nothing:
  fixes c a p h :: u32 and nm :: "u8 list" and d :: u16
  assumes "sched_ok k M" "clock_ok k M" "heap_ok (heap k) fl A" "objects_live k M A" "pxCurrentTCB k \<noteq> 0" "19 \<le> d"
  defines "q \<equiv> if 5 \<le> p then 4 else p"
  shows "\<exists>r k'. xTaskGenericCreate c nm d a p h 0 k = Some (r, k') \<and>
    (if both_fit 96 (unat d * 4) fl then r = pdPASS \<and> created k M A d nm q h k'
     else r = errCOULD_NOT_ALLOCATE_REQUIRED_MEMORY \<and> sched_ok k' M \<and> clock_ok k' M \<and> heap_live (heap k') A \<and>
       uxCurrentNumberOfTasks k' = uxCurrentNumberOfTasks k)"
proof -
  have hl: "heap_live (heap k) A" using assms(3) by (auto simp: heap_live_def)
  obtain r k' where r: "xTaskGenericCreate c nm d a p h 0 k = Some (r, k')"
    "r = errCOULD_NOT_ALLOCATE_REQUIRED_MEMORY \<and> sched_ok k' M \<and> clock_ok k' M \<and> heap_live (heap k') A \<and>
       uxCurrentNumberOfTasks k' = uxCurrentNumberOfTasks k \<or> r = pdPASS \<and> created k M A d nm q h k'"
    using create_ok [OF assms(1,2) hl assms(4-6), of c nm a p h] unfolding q_def by blast
  have "r = pdPASS \<longleftrightarrow> both_fit 96 (unat d * 4) fl"
    using create_result [OF assms(3), of c nm d a p h] r(1) by simp
  moreover have "pdPASS \<noteq> errCOULD_NOT_ALLOCATE_REQUIRED_MEMORY" by (simp add: pdPASS_def errCOULD_NOT_ALLOCATE_REQUIRED_MEMORY_def)
  ultimately show ?thesis using r by auto
qed

text \<open>
  The lists that \<open>prvInitialiseTaskLists\<close> sets up satisfy the scheduler's invariant, whatever
  was in memory before, when the linker has given the lists distinct addresses.
\<close>

theorem boot_establishes_invariant:
  fixes k :: "'a kernel_scheme"
  assumes "distinct (xPendingReadyList k # task_lists k)" "0 \<notin> set (xPendingReadyList k # task_lists k)" "uxTopReadyPriority k < 5"
  defines "M \<equiv> empty_lists (xPendingReadyList k # task_lists k)"
  shows "sched_ok (prvInitialiseTaskLists k) M \<and> clock_ok (prvInitialiseTaskLists k) M \<and> (\<forall>l. members M l = [])"
  unfolding M_def using init_sched_ok [OF assms(1-3)] by (simp add: empty_map_facts)

text \<open>A kernel for the witnesses: two ready tasks, two event lists, one tick before the counter wraps.\<close>

definition spawn :: "u32 \<Rightarrow> u32 \<Rightarrow> 'a kernel_scheme \<Rightarrow> 'a kernel_scheme" where
  "spawn t p k = prvAddTaskToReadyQueue t (prvInitialiseTCBVariables t [] p k)"

lemma spawn_ok:
  fixes p
  assumes ok: "sched_ok k M" "clock_ok k M" and f: "fresh k M t" and p: "p < 5"
  defines "M' \<equiv> push (ready_list_at k p) (gen t) M"
  shows "sched_ok (spawn t p k) M'" "clock_ok (spawn t p k) M'" "dom M' = dom M"
    "members M' l = members M l @ (if l = ready_list_at k p then [gen t] else [])"
    "prio (spawn t p k) t = p" "val (spawn t p k) (evt t) = 5 - p" "uxBasePriority (tcb (spawn t p k) t) = p"
    "u \<noteq> t \<Longrightarrow> tcb (spawn t p k) u = tcb k u" "pvContainer (itm (spawn t p k) (evt t)) = 0"
    "pxStack (tcb (spawn t p k) t) = pxStack (tcb k t)"
proof -
  let ?k = "prvInitialiseTCBVariables t [] p k"
  note I = init_tcb_ok [OF ok f, of "[]" p] and E = init_tcb_eqs [where t = t and name = "[]" and p = p and k = k]
  have pr: "prio ?k t = p" and r: "ready_list_at ?k = ready_list_at k" using E(8,14) p by auto
  have fr: "free_item M (gen t)" using f by (simp add: fresh_def)
  have np: "\<not> 5 \<le> p" using p by simp
  note N = new_task_ok [OF I E(6) fr, unfolded pr r, folded spawn_def M'_def]
  show "sched_ok (spawn t p k) M'" "clock_ok (spawn t p k) M'" "dom M' = dom M"
    "members M' l = members M l @ (if l = ready_list_at k p then [gen t] else [])" by (fact N)+
  show "prio (spawn t p k) t = p" "val (spawn t p k) (evt t) = 5 - p" "uxBasePriority (tcb (spawn t p k) t) = p"
    "u \<noteq> t \<Longrightarrow> tcb (spawn t p k) u = tcb k u" "pxStack (tcb (spawn t p k) t) = pxStack (tcb k t)"
    "pvContainer (itm (spawn t p k) (evt t)) = 0"
    using np E(3,6,8-10,12) by (simp_all add: spawn_def prvAddTaskToReadyQueue_eq)
qed

lemma spawn_frame [simp]:
  "ready_list_at (spawn t p k) = ready_list_at k" "task_lists (spawn t p k) = task_lists k"
  "xPendingReadyList (spawn t p k) = xPendingReadyList k" "pxCurrentTCB (spawn t p k) = pxCurrentTCB k"
  "uxSchedulerSuspended (spawn t p k) = uxSchedulerSuspended k" "uxMissedTicks (spawn t p k) = uxMissedTicks k"
  "uxCurrentNumberOfTasks (spawn t p k) = uxCurrentNumberOfTasks k" "heap (spawn t p k) = heap k" "kmem (spawn t p k) = kmem k"
  "xTickCount (spawn t p k) = xTickCount k" "xSchedulerRunning (spawn t p k) = xSchedulerRunning k"
proof -
  note E = init_tcb_eqs [where t = t and name = "[]" and p = p and k = k]
  have "same_frame t (prvInitialiseTCBVariables t [] p k) (spawn t p k)" by (simp add: spawn_def)
  then show "ready_list_at (spawn t p k) = ready_list_at k" "task_lists (spawn t p k) = task_lists k"
    "xPendingReadyList (spawn t p k) = xPendingReadyList k" "pxCurrentTCB (spawn t p k) = pxCurrentTCB k"
    "uxSchedulerSuspended (spawn t p k) = uxSchedulerSuspended k" "uxMissedTicks (spawn t p k) = uxMissedTicks k"
    "uxCurrentNumberOfTasks (spawn t p k) = uxCurrentNumberOfTasks k" "xTickCount (spawn t p k) = xTickCount k"
    unfolding same_frame_def E(13-15,21,23-26) by simp_all
  show "heap (spawn t p k) = heap k" "kmem (spawn t p k) = kmem k" "xSchedulerRunning (spawn t p k) = xSchedulerRunning k"
    using E(27-29) by (simp_all add: spawn_def prvAddTaskToReadyQueue_eq)
qed

definition reset_kernel :: "'a \<Rightarrow> 'a kernel_scheme" where
  "reset_kernel x = \<lparr>itm = (\<lambda>_. \<lparr>xItemValue = 0, pxNext = 0, pxPrevious = 0, pvOwner = 0, pvContainer = 0\<rparr>),
     lst = (\<lambda>_. \<lparr>uxNumberOfItems = 0, pxIndex = 0\<rparr>),
     tcb = (\<lambda>_. \<lparr>pxTopOfStack = 0x2007F800, uxPriority = 0, pxStack = 0x2007F700, pcTaskName = [], uxTCBNumber = 0,
                 uxTaskNumber = 0, uxBasePriority = 0\<rparr>),
     kmem = (\<lambda>_. 0xA5), heap = demo_heap, pxCurrentTCB = 0x2007F100, pxReadyTasksLists = 0x2007C000,
     xDelayedTaskList1 = 0x2007C100, xDelayedTaskList2 = 0x2007C200, xPendingReadyList = 0x2007C300,
     xTasksWaitingTermination = 0x2007C400, xSuspendedTaskList = 0x2007C500, pxDelayedTaskList = 0, pxOverflowDelayedTaskList = 0,
     uxTasksDeleted = 0, uxCurrentNumberOfTasks = 2, xTickCount = 0xFFFFFFFF, uxTopUsedPriority = 0, uxTopReadyPriority = 0,
     xSchedulerRunning = True, uxSchedulerSuspended = 0, uxMissedTicks = 0, xMissedYield = False, xNumOfOverflows = 0,
     uxTaskNumber_count = 2, xNextTaskUnblockTime = 0xFFFFFFFF, pendsv = False, \<dots> = x\<rparr>"

definition kernel_lists :: "u32 list" where
  "kernel_lists = [0x2007C300, 0x2007C000, 0x2007C014, 0x2007C028, 0x2007C03C,
     0x2007C050, 0x2007C100, 0x2007C200, 0x2007C400, 0x2007C500]"

definition base_kernel :: "'a \<Rightarrow> 'a kernel_scheme" where
  "base_kernel x = vListInitialise 0x2007E000 (vListInitialise 0x2007DFEC (prvInitialiseTaskLists (reset_kernel x)))"

definition base_map :: list_map where
  "base_map = (empty_lists kernel_lists)(0x2007DFEC \<mapsto> ([], []), 0x2007E000 \<mapsto> ([], []))"

definition demo_kernel :: "'a \<Rightarrow> 'a kernel_scheme" where
  "demo_kernel x = spawn 0x2007F000 1 (spawn 0x2007F100 3 (base_kernel x))"

definition demo_map :: list_map where
  "demo_map = push 0x2007C014 (gen 0x2007F000) (push 0x2007C03C (gen 0x2007F100) base_map)"

lemma reset_lists: "xPendingReadyList (reset_kernel x) # task_lists (reset_kernel x) = kernel_lists"
  by (simp add: reset_kernel_def task_lists_def ready_list_at_def kernel_lists_def)

lemma base_ok:
  "sched_ok (base_kernel x) base_map" "clock_ok (base_kernel x) base_map" "members base_map l = []" "in_order base_map l = []"
  "dom base_map = {0x2007E000, 0x2007DFEC} \<union> set kernel_lists"
proof -
  let ?k = "prvInitialiseTaskLists (reset_kernel x)" and ?M = "empty_lists kernel_lists"
  have d: "distinct kernel_lists" "0 \<notin> set kernel_lists" "uxTopReadyPriority (reset_kernel x) < 5"
    by (simp_all add: kernel_lists_def reset_kernel_def)
  have i: "sched_ok ?k ?M" "clock_ok ?k ?M"
    using init_sched_ok [of "reset_kernel x"] d unfolding reset_lists by blast+
  have "0x2007DFEC \<notin> dom ?M" "free_item ?M (xListEnd 0x2007DFEC)" "\<And>u. on_list ?k ?M u \<Longrightarrow> evt u \<noteq> xListEnd 0x2007DFEC"
    by (simp_all only: free_item_members on_list_def empty_map_facts) (simp_all add: xListEnd_def kernel_lists_def)
  note A = new_list_ok [OF i this(1) _ this(2,3), simplified]
  let ?k1 = "vListInitialise 0x2007DFEC ?k" and ?M1 = "?M(0x2007DFEC \<mapsto> ([], []))"
  have m: "members ?M1 l = []" "in_order ?M1 l = []" "dom ?M1 = insert 0x2007DFEC (set kernel_lists)" for l
    using A(3-5) by (simp_all add: empty_map_facts)
  have "0x2007E000 \<notin> dom ?M1" "free_item ?M1 (xListEnd 0x2007E000)" "\<And>u. on_list ?k1 ?M1 u \<Longrightarrow> evt u \<noteq> xListEnd 0x2007E000"
    unfolding free_item_members on_list_def m by (simp_all add: xListEnd_def kernel_lists_def)
  from new_list_ok [OF A(1,2) this(1) _ this(2,3)]
  show "sched_ok (base_kernel x) base_map" "clock_ok (base_kernel x) base_map" "members base_map l = []" "in_order base_map l = []"
    "dom base_map = {0x2007E000, 0x2007DFEC} \<union> set kernel_lists"
    unfolding base_kernel_def base_map_def by (simp_all add: m empty_map_facts)
qed

lemma base_frame:
  "ready_list_at (base_kernel x) p = 0x2007C000 + 20 * p" "task_lists (base_kernel x) = tl kernel_lists"
  "xPendingReadyList (base_kernel x) = 0x2007C300" "pxCurrentTCB (base_kernel x) = 0x2007F100" "uxSchedulerSuspended (base_kernel x) = 0"
  "uxMissedTicks (base_kernel x) = 0" "uxCurrentNumberOfTasks (base_kernel x) = 2" "xTickCount (base_kernel x) = 0xFFFFFFFF"
  "heap (base_kernel x) = demo_heap" "kmem (base_kernel x) = (\<lambda>_. 0xA5)" "tcb (base_kernel x) = tcb (reset_kernel x)"
  by (simp_all add: base_kernel_def prvInitialiseTaskLists_eq ready_list_at_def task_lists_def more_frame [OF conjunct2 [OF init_lists_ok]])
     (simp_all add: reset_kernel_def kernel_lists_def)

lemma base_free:
  "free_item base_map x \<longleftrightarrow> x \<notin> {0x2007E008, 0x2007DFF4, 0x2007C308, 0x2007C008, 0x2007C01C, 0x2007C030, 0x2007C044,
     0x2007C058, 0x2007C108, 0x2007C208, 0x2007C408, 0x2007C508}"
  unfolding free_item_members base_ok(3,5) kernel_lists_def by (auto simp: xListEnd_def)

lemma base_fresh: "t \<in> {0x2007F000, 0x2007F100} \<Longrightarrow> fresh (base_kernel x) base_map t"
  by (auto simp: fresh_def base_free xGenericListItem_def xEventListItem_def on_list_def base_ok(3))

lemma demo_ok:
  "sched_ok (demo_kernel x) demo_map" "clock_ok (demo_kernel x) demo_map" "dom demo_map = dom base_map"
  "members demo_map l = (if l = 0x2007C014 then [gen 0x2007F000] else if l = 0x2007C03C then [gen 0x2007F100] else [])"
  "prio (demo_kernel x) 0x2007F000 = 1" "prio (demo_kernel x) 0x2007F100 = 3" "pvContainer (itm (demo_kernel x) (evt 0x2007F100)) = 0"
  "uxBasePriority (tcb (demo_kernel x) 0x2007F000) = 1" "pxStack (tcb (demo_kernel x) 0x2007F100) = 0x2007F700"
  "uxBasePriority (tcb (demo_kernel x) 0x2007F100) = 3" "val (demo_kernel x) (evt 0x2007F000) = 4"
proof -
  let ?k = "spawn 0x2007F100 3 (base_kernel x)" and ?M = "push 0x2007C03C (gen 0x2007F100) base_map"
  have dm: "0x2007C03C \<in> dom base_map" by (simp add: base_ok(5) kernel_lists_def)
  note A = spawn_ok [OF base_ok(1,2) base_fresh [of "0x2007F100"], of 3, simplified, unfolded base_frame(1), simplified]
  have fr: "fresh ?k ?M 0x2007F000"
    using base_fresh [of "0x2007F000" x] dm
    by (auto simp: fresh_def free_push on_list_def base_ok(3) xGenericListItem_def xEventListItem_def split: if_splits)
  note B = spawn_ok [OF A(1,2) fr, of 1, simplified, unfolded base_frame(1), simplified, folded demo_kernel_def demo_map_def]
  show "sched_ok (demo_kernel x) demo_map" "clock_ok (demo_kernel x) demo_map" "dom demo_map = dom base_map"
    "prio (demo_kernel x) 0x2007F000 = 1" "prio (demo_kernel x) 0x2007F100 = 3" "uxBasePriority (tcb (demo_kernel x) 0x2007F000) = 1"
    "pxStack (tcb (demo_kernel x) 0x2007F100) = 0x2007F700" "uxBasePriority (tcb (demo_kernel x) 0x2007F100) = 3"
    using A(3,5,7) A(10) [of x] B by (simp_all add: base_frame) (simp_all add: reset_kernel_def)
  show "members demo_map l = (if l = 0x2007C014 then [gen 0x2007F000] else if l = 0x2007C03C then [gen 0x2007F100] else [])"
    using A(4) B(4) by (simp add: base_frame base_ok(3))
  show "val (demo_kernel x) (evt 0x2007F000) = 4" using B(6) by simp
  show "pvContainer (itm (demo_kernel x) (evt 0x2007F100)) = 0"
  proof -
    have "pvContainer (itm (demo_kernel x) (evt 0x2007F100)) = pvContainer (itm ?k (evt 0x2007F100))"
      using init_tcb_eqs(2) [of "evt 0x2007F100" "0x2007F000" "[]" 1 ?k]
      by (simp add: demo_kernel_def spawn_def [of "0x2007F000"] prvAddTaskToReadyQueue_eq xGenericListItem_def xEventListItem_def)
    then show ?thesis using A(9) by simp
  qed
qed

lemma demo_frame:
  "ready_list_at (demo_kernel x) p = 0x2007C000 + 20 * p" "task_lists (demo_kernel x) = tl kernel_lists"
  "xPendingReadyList (demo_kernel x) = 0x2007C300" "pxCurrentTCB (demo_kernel x) = 0x2007F100" "uxSchedulerSuspended (demo_kernel x) = 0"
  "uxMissedTicks (demo_kernel x) = 0" "uxCurrentNumberOfTasks (demo_kernel x) = 2" "xTickCount (demo_kernel x) = 0xFFFFFFFF"
  "heap (demo_kernel x) = demo_heap" "kmem (demo_kernel x) = (\<lambda>_. 0xA5)"
  by (simp_all add: demo_kernel_def base_frame)

lemma demo_task_lists:
  "set (task_lists (demo_kernel x)) = {0x2007C000, 0x2007C014, 0x2007C028, 0x2007C03C,
     0x2007C050, 0x2007C100, 0x2007C200, 0x2007C400, 0x2007C500}"
  by (simp add: demo_frame kernel_lists_def)

lemma demo_running: "running (demo_kernel x) demo_map"
  by (simp add: running_def demo_ok demo_frame on_list_def demo_task_lists del: demo_frame(2)) 

section \<open>Witnesses\<close>

lemma demo_top: "top_priority (demo_kernel ()) demo_map 3"
proof -
  have "q \<le> 3" if "q < 5" "members demo_map (ready_list_at (demo_kernel ()) q) \<noteq> []" for q
    using that u32_below_5 [of q] by (auto simp: demo_ok(4) demo_frame split: if_splits)
  then show ?thesis by (simp add: top_priority_def demo_ok(4) demo_frame)
qed

lemma demo_stack: "stack_check (demo_kernel ())"
proof -
  have "pxTopOfStack (tcb (demo_kernel ()) 0x2007F100) = 0x2007F800"
    by (simp add: demo_kernel_def spawn_def prvAddTaskToReadyQueue_eq prvInitialiseTCBVariables_def Let_def upd_tcb_def
        vListInitialiseItem_def set_item_owner_def set_item_value_def upd_item_def base_frame) (simp add: reset_kernel_def)
  then show ?thesis by (simp add: stack_check_def demo_frame demo_ok(9))
qed

theorem switch_runs_highest_witness: "\<exists>k'. vTaskSwitchContext (demo_kernel ()) = Some k' \<and> pxCurrentTCB k' = 0x2007F100"
  using switch_runs_highest [where k = "demo_kernel ()", OF demo_ok(1) demo_frame(5) demo_stack demo_top, of "0x2007F100" "[]"]
  by (auto simp: demo_ok(4) demo_frame)

theorem tick_exact_witness:
  "\<exists>k' M'. vTaskIncrementTick (demo_kernel ()) = Some k' \<and> sched_ok k' M' \<and> xTickCount k' = 0"
  using tick_exact [where k = "demo_kernel ()", OF demo_ok(1,2) demo_frame(5)] by (auto simp: demo_frame)

theorem delay_wakes_on_time_witness:
  "\<exists>k1. vTaskDelay 5 (demo_kernel ()) = Some k1 \<and> (\<exists>k2 M2. tick_times 5 k1 = Some k2 \<and>
     gen 0x2007F100 \<in> set (members M2 (ready_list_at (demo_kernel ()) 3)))"
proof -
  obtain k1 where d: "vTaskDelay 5 (demo_kernel ()) = Some k1"
    "\<forall>n. \<exists>k2 M2. tick_times n k1 = Some k2 \<and> sched_ok k2 M2 \<and>
       (if n < unat (5 :: u32) then gen (pxCurrentTCB (demo_kernel ())) \<in> sleepers k2 M2 \<and> remaining k2 (gen (pxCurrentTCB (demo_kernel ()))) = unat (5 :: u32) - n
        else gen (pxCurrentTCB (demo_kernel ())) \<in> set (members M2 (ready_list_at (demo_kernel ()) (prio (demo_kernel ()) (pxCurrentTCB (demo_kernel ()))))))"
    using delay_wakes_on_time [where k = "demo_kernel ()", OF demo_running, of 5] by auto
  from d(2) [rule_format, of 5] d(1) show ?thesis by (auto simp: demo_frame(4) demo_ok(6))
qed

theorem delay_until_periodic_witness:
  "\<exists>k'. vTaskDelayUntil 0xFFFFFFFE 10 (demo_kernel ()) = Some (8, k') \<and> pendsv k'"
  using delay_until_periodic [where k = "demo_kernel ()", OF demo_running, of "0xFFFFFFFE" 10] by auto

theorem timeout_exact_witness:
  "xTaskCheckForTimeOut (vTaskSetTimeOutState (demo_kernel ())) 10 ((demo_kernel ())\<lparr>xTickCount := 4, xNumOfOverflows := 1\<rparr>) =
     (False, \<lparr>xOverflowCount = 1, xTimeOnEntering = 4\<rparr>, 5)"
proof -
  have "xNumOfOverflows (demo_kernel ()) = 0"
    by (simp add: demo_kernel_def spawn_def prvAddTaskToReadyQueue_eq prvInitialiseTCBVariables_def Let_def upd_tcb_def
        vListInitialiseItem_def set_item_owner_def set_item_value_def upd_item_def base_kernel_def prvInitialiseTaskLists_eq
        more_frame [OF conjunct2 [OF init_lists_ok]]) (simp add: reset_kernel_def)
  then have "clock_at 0xFFFFFFFF (demo_kernel ())" "clock_at 0x100000004 ((demo_kernel ())\<lparr>xTickCount := 4, xNumOfOverflows := 1\<rparr>)"
    by (simp_all add: clock_at_def demo_frame)
  from timeout_exact [OF this, of 10] show ?thesis by (simp add: vTaskSetTimeOutState_def)
qed

theorem resume_replays_witness:
  "\<exists>y k'. xTaskResumeAll ((demo_kernel ())\<lparr>uxSchedulerSuspended := 1, uxMissedTicks := 3\<rparr>) = Some (y, k') \<and> y \<and> pendsv k' \<and> xTickCount k' = 2"
proof -
  let ?k = "(demo_kernel ())\<lparr>uxSchedulerSuspended := 1, uxMissedTicks := 3\<rparr>"
  have "sched_ok ?k demo_map" "clock_ok ?k demo_map"
    using sched_ok_fields(3) [OF sched_ok_fields(4) [OF demo_ok(1), of 1], of 3] demo_ok(2) by (simp_all add: clock_ok_def)
  from resume_replays [OF this] show ?thesis by (auto simp: demo_frame)
qed

lemma demo_event: "0x2007E000 \<in> dom demo_map" "0x2007E000 \<notin> set (task_lists (demo_kernel x))" "in_order demo_map 0x2007E000 = []"
  "0x2007E000 \<noteq> xPendingReadyList (demo_kernel x)"
proof -
  have "members demo_map 0x2007E000 = []" by (simp add: demo_ok(4))
  then show "in_order demo_map 0x2007E000 = []" by (simp only: in_order_Nil)
qed (simp_all add: demo_ok(3) base_ok(5) demo_task_lists demo_frame(3))

theorem block_on_event_witness:
  "\<exists>k' M'. vTaskPlaceOnEventList 0x2007E000 10 (demo_kernel ()) = Some k' \<and> in_order M' 0x2007E000 = [evt 0x2007F100] \<and>
     gen 0x2007F100 \<in> sleepers k' M' \<and> remaining k' (gen 0x2007F100) = 10"
  using block_on_event [where k = "demo_kernel ()", OF demo_running _ demo_event(1,2), of 10] demo_ok(7) [of "()"] demo_event(3)
  by (auto simp: demo_frame(4) ordered_insert_def)

lemma demo_blocked:
  "\<exists>k M. vTaskPlaceOnEventList 0x2007E000 10 (demo_kernel x) = Some k \<and> sched_ok k M \<and> clock_ok k M \<and>
     in_order M 0x2007E000 = [evt 0x2007F100] \<and> dom M = dom demo_map \<and> run_core (demo_kernel x) k"
proof -
  have l: "gen 0x2007F100 \<in> set (members demo_map 0x2007C03C)" "0x2007C03C \<in> set (task_lists (demo_kernel x))"
    by (simp_all add: demo_ok(4) demo_task_lists)
  show ?thesis
    using place_on_event_list_ok [where k = "demo_kernel x", OF demo_ok(1,2) demo_frame(4) [symmetric] l demo_ok(7) demo_event(1,2), of 10] demo_event(3)
    by (auto simp: ordered_insert_def)
qed

theorem event_wakes_first_witness:
  "\<exists>k k' M' y. vTaskPlaceOnEventList 0x2007E000 10 (demo_kernel ()) = Some k \<and> xTaskRemoveFromEventList 0x2007E000 k = (y, k') \<and>
     in_order M' 0x2007E000 = [] \<and> gen 0x2007F100 \<in> set (members M' (ready_list_at (demo_kernel ()) 3))"
proof -
  obtain k M where b: "vTaskPlaceOnEventList 0x2007E000 10 (demo_kernel ()) = Some k" "sched_ok k M" "clock_ok k M"
    "in_order M 0x2007E000 = [evt 0x2007F100]" "dom M = dom demo_map" "run_core (demo_kernel ()) k" using demo_blocked [of "()"] by blast
  have f: "task_lists k = task_lists (demo_kernel ())" "xPendingReadyList k = xPendingReadyList (demo_kernel ())"
    "uxSchedulerSuspended k = 0" "prio k 0x2007F100 = 3" "ready_list_at k = ready_list_at (demo_kernel ())"
    using b(6) demo_ok(6) by (simp_all add: run_core_def demo_frame(5))
  from event_wakes_first [OF b(2,3) _ _ _ b(4)] demo_event(1,3) demo_event(2,4) [of "()"] b(1,5) f show ?thesis by auto
qed

theorem inherit_disinherit_witness:
  "tcb (vTaskPriorityDisinherit 0x2007F000 (vTaskPriorityInherit 0x2007F000 (demo_kernel ()))) = tcb (demo_kernel ()) \<and>
   val (vTaskPriorityInherit 0x2007F000 (demo_kernel ())) (evt 0x2007F000) = 2 \<and>
   val (vTaskPriorityDisinherit 0x2007F000 (vTaskPriorityInherit 0x2007F000 (demo_kernel ()))) (evt 0x2007F000) = 4"
proof -
  have h: "gen 0x2007F000 \<in> set (members demo_map (ready_list_at (demo_kernel ()) (prio (demo_kernel ()) 0x2007F000)))" "(0x2007F000 :: u32) \<noteq> 0"
    "prio (demo_kernel ()) 0x2007F000 < prio (demo_kernel ()) (pxCurrentTCB (demo_kernel ()))" "prio (demo_kernel ()) (pxCurrentTCB (demo_kernel ())) < 5"
    "uxBasePriority (tcb (demo_kernel ()) 0x2007F000) = prio (demo_kernel ()) 0x2007F000"
    "val (demo_kernel ()) (evt 0x2007F000) = 5 - prio (demo_kernel ()) 0x2007F000" by (simp_all add: demo_ok demo_frame)
  from inherit_disinherit [OF demo_ok(1,2) h] show ?thesis by (clarsimp simp: demo_ok demo_frame)
qed

lemma demo_objects: "objects_live (demo_kernel x) demo_map {}"
proof -
  have "unat y \<notin> heap_region demo_heap" if "y \<in> objects (demo_kernel x) demo_map" for y
  proof -
    have fr: "\<not> free_item demo_map z \<Longrightarrow> 0x10008000 \<le> z" for z
      unfolding demo_map_def by (auto simp: free_push base_free xGenericListItem_def base_ok(5) kernel_lists_def)
    have on: "on_list (demo_kernel x) demo_map u \<Longrightarrow> u = 0x2007F000 \<or> u = 0x2007F100" for u
      by (auto simp: on_list_def demo_ok(4) split: if_splits)
    have lo: "0x10008000 \<le> y" using that fr on unfolding objects_def by (fastforce simp: xEventListItem_def)
    have "heap_base demo_heap + 16360 \<le> 0x10008000" by (simp add: demo_heap_def heap_boot_def heap_base_def)
    then show ?thesis using lo by (auto simp: heap_region_def word_le_nat_alt)
  qed
  then show ?thesis by (simp add: objects_live_def demo_frame)
qed

theorem create_all_or_nothing_witness:
  "\<exists>k'. xTaskGenericCreate 0x1234 [] 128 0 9 0 0 (demo_kernel ()) = Some (pdPASS, k') \<and>
     created (demo_kernel ()) demo_map {} 128 [] 4 0 k'"
proof -
  have h: "heap_ok (heap (demo_kernel ())) [(0x10000008, 16360)] {}" using demo_heap_ok by (simp add: demo_frame)
  have "both_fit 96 512 [(0x10000008, 16360)]" by (simp add: both_fit_def alloc_spec_def)
  then show ?thesis
    using create_all_or_nothing [where k = "demo_kernel ()" and d = 128 and c = "0x1234" and nm = "[]" and a = 0 and p = 9 and h = 0, OF demo_ok(1,2) h demo_objects]
    by (auto simp: demo_frame)
qed

theorem boot_establishes_invariant_witness:
  "sched_ok (prvInitialiseTaskLists (reset_kernel ())) (empty_lists (xPendingReadyList (reset_kernel ()) # task_lists (reset_kernel ())))"
proof -
  have "distinct (xPendingReadyList (reset_kernel ()) # task_lists (reset_kernel ()))"
    "0 \<notin> set (xPendingReadyList (reset_kernel ()) # task_lists (reset_kernel ()))" "uxTopReadyPriority (reset_kernel ()) < 5"
    by (simp_all only: reset_lists) (simp_all add: reset_kernel_def kernel_lists_def)
  from boot_establishes_invariant [OF this] show ?thesis by simp
qed

end
