(* ===== verification/Queue_Ring.thy ===== *)
theory Queue_Ring
  imports Queue Scheduler
begin

text \<open>
  The data of a queue: the ring buffer in RAM holds a list of items, sending and receiving are the
  operations of a bounded double-ended queue, and every non-blocking call refines the corresponding one.
\<close>

lemma unat_small: "n < 2 ^ 32 \<Longrightarrow> unat (of_nat n :: u32) = n"
  by (simp add: unat_of_nat)

section \<open>Bytes and slots\<close>

lemma max_word_unat: "unat (- 1 :: u32) = 2 ^ 32 - 1"
  by (simp add: unsigned_minus_1_eq_mask mask_eq_exp_minus_1)

lemma store_bytes_at:
  "length bs \<le> 2 ^ 32 \<Longrightarrow> store_bytes a bs m x = (if unat (x - a) < length bs then bs ! unat (x - a) else m x)"
proof (induction bs arbitrary: a m)
  case (Cons b bs)
  have "unat (x - (a + 1)) = unat (x - a) - 1" if "x \<noteq> a"
  proof -
    have "x - (a + 1) = (x - a) - 1" "x - a \<noteq> 0" using that by simp_all
    then show ?thesis by (metis unat_minus_one)
  qed
  moreover have "unat (x - a) \<noteq> 0" if "x \<noteq> a" using that by (simp add: unat_eq_0)
  moreover have "unat (a - (a + 1)) = 2 ^ 32 - 1" using max_word_unat by simp
  ultimately show ?case using Cons by (cases "x = a") (auto simp: nth_Cons')
qed simp

lemma load_store_same:
  assumes "length bs \<le> 2 ^ 32"
  shows "load_bytes a (length bs) (store_bytes a bs m) = bs"
proof (rule nth_equalityI)
  fix i assume "i < length (load_bytes a (length bs) (store_bytes a bs m))"
  then have i: "i < length bs" by (simp add: load_bytes_def)
  then have "unat (of_nat i :: u32) = i" using assms by (intro unat_small) simp
  then show "load_bytes a (length bs) (store_bytes a bs m) ! i = bs ! i"
    using i assms by (simp add: load_bytes_def store_bytes_at)
qed (simp add: load_bytes_def)

lemma load_store_apart:
  assumes "length bs \<le> 2 ^ 32" "\<And>i. i < n \<Longrightarrow> length bs \<le> unat (c + of_nat i - a)"
  shows "load_bytes c n (store_bytes a bs m) = load_bytes c n m"
  using assms by (auto simp: load_bytes_def store_bytes_at not_less [symmetric])

definition slot :: "xQUEUE \<Rightarrow> nat \<Rightarrow> u32" where
  "slot d i = pcHead d + of_nat (i * unat (uxItemSize d))"

text \<open>
  The buffer is \<open>uxLength\<close> slots that do not run past the end of memory; the comparison
  \<open>pcReadFrom < pcHead\<close> after stepping back needs it to start at \<open>uxItemSize\<close> at least.
\<close>

definition shape :: "xQUEUE \<Rightarrow> bool" where
  "shape d \<longleftrightarrow> 0 < uxLength d \<and> 0 < uxItemSize d \<and> uxItemSize d \<le> pcHead d \<and>
     unat (pcHead d) + unat (uxLength d) * unat (uxItemSize d) < 2 ^ 32 \<and> pcTail d = slot d (unat (uxLength d))"

lemma slot_unat:
  assumes "shape d" "i \<le> unat (uxLength d)"
  shows "unat (slot d i) = unat (pcHead d) + i * unat (uxItemSize d)"
proof -
  have "i * unat (uxItemSize d) \<le> unat (uxLength d) * unat (uxItemSize d)" using assms(2) by simp
  moreover have "unat (pcHead d) + unat (uxLength d) * unat (uxItemSize d) < 2 ^ 32" using assms(1) by (simp add: shape_def)
  ultimately have b: "unat (pcHead d) + i * unat (uxItemSize d) < 2 ^ 32" by linarith
  have "unat (of_nat (i * unat (uxItemSize d)) :: u32) = i * unat (uxItemSize d)" using b by (intro unat_small) simp
  then show ?thesis unfolding slot_def using b by (subst unat_add_lem [THEN iffD1]) simp_all
qed

lemma slot_mono:
  assumes "shape d" "i \<le> unat (uxLength d)" "j \<le> unat (uxLength d)"
  shows "slot d i \<le> slot d j \<longleftrightarrow> i \<le> j" "slot d i = slot d j \<longleftrightarrow> i = j"
proof -
  have "0 < unat (uxItemSize d)" using assms(1) by (auto simp: shape_def unat_gt_0)
  then show "slot d i \<le> slot d j \<longleftrightarrow> i \<le> j" by (simp add: word_le_nat_alt slot_unat assms)
  show "slot d i = slot d j \<longleftrightarrow> i = j"
    using \<open>0 < unat (uxItemSize d)\<close> by (simp add: word_unat_eq_iff slot_unat assms)
qed

lemma slot_step:
  "slot d i + uxItemSize d = slot d (Suc i)"
  "0 < i \<Longrightarrow> slot d i - uxItemSize d = slot d (i - 1)"
proof -
  show s: "slot d i + uxItemSize d = slot d (Suc i)" for i by (simp add: slot_def algebra_simps)
  show "0 < i \<Longrightarrow> slot d i - uxItemSize d = slot d (i - 1)" using s [of "i - 1"] by (metis Suc_diff_1 add_diff_cancel_right')
qed

lemma slots_apart:
  assumes d: "shape d" and i: "i < unat (uxLength d)" and j: "j < unat (uxLength d)" "i \<noteq> j" and k: "k < unat (uxItemSize d)"
  shows "unat (uxItemSize d) \<le> unat (slot d j + of_nat k - slot d i)"
proof -
  let ?s = "unat (uxItemSize d)" and ?L = "unat (uxLength d)"
  have sj: "Suc j * ?s \<le> ?L * ?s" and si: "Suc i * ?s \<le> ?L * ?s" using i j by (simp_all only: mult_le_mono1 Suc_le_eq)
  have b: "unat (pcHead d) + ?L * ?s < 2 ^ 32" using d by (simp add: shape_def)
  have kk: "unat (of_nat k :: u32) = k" using b k sj by (intro unat_small) simp
  have ua: "unat (slot d j + of_nat k) = unat (pcHead d) + j * ?s + k"
    using slot_unat [OF d, of j] j(1) k b sj kk by (subst unat_add_lem [THEN iffD1]) simp_all
  have ub: "unat (slot d i) = unat (pcHead d) + i * ?s" using slot_unat [OF d] i by simp
  show ?thesis
  proof (cases "i < j")
    case True
    then have "Suc i * ?s \<le> j * ?s" by (simp only: mult_le_mono1 Suc_le_eq)
    then show ?thesis using ua ub by (subst unat_sub_if') simp
  next
    case False
    then have "Suc j * ?s \<le> i * ?s" using j by (simp only: mult_le_mono1 Suc_le_eq)
    then show ?thesis using ua ub si b k by (subst unat_sub_if') simp
  qed
qed

section \<open>The ring buffer\<close>

definition item_at :: "(u32 \<Rightarrow> u8) \<Rightarrow> xQUEUE \<Rightarrow> nat \<Rightarrow> u8 list" where
  "item_at m d i = load_bytes (slot d (i mod unat (uxLength d))) (unat (uxItemSize d)) m"

text \<open>
  \<open>ring_buf m d xs\<close>: the control block \<open>d\<close> and the memory \<open>m\<close> hold the items \<open>xs\<close>, oldest first, in the
  slots after the one last read.
\<close>

definition ring_buf :: "(u32 \<Rightarrow> u8) \<Rightarrow> xQUEUE \<Rightarrow> u8 list list \<Rightarrow> bool" where
  "ring_buf m d xs \<longleftrightarrow> shape d \<and> length xs \<le> unat (uxLength d) \<and> uxMessagesWaiting d = of_nat (length xs) \<and>
     (\<exists>r<unat (uxLength d). pcReadFrom d = slot d r \<and> pcWriteTo d = slot d ((r + 1 + length xs) mod unat (uxLength d)) \<and>
        xs = map (\<lambda>j. item_at m d (r + 1 + j)) [0..<length xs])"

lemma mod_cancel:
  fixes a i j L :: nat
  assumes "i < L" "j < L"
  shows "(a + i) mod L = (a + j) mod L \<longleftrightarrow> i = j"
proof
  assume e: "(a + i) mod L = (a + j) mod L"
  have "x = y" if "x \<le> y" "y < L" "(a + x) mod L = (a + y) mod L" for x y
    using that mod_eq_dvd_iff_nat [of "a + x" "a + y" L] by (auto dest: dvd_imp_le)
  then show "i = j" using e assms by (metis nat_le_linear)
qed simp

lemma shape_frame [simp]:
  "slot (d\<lparr>pcReadFrom := a\<rparr>) = slot d" "slot (d\<lparr>pcWriteTo := a\<rparr>) = slot d" "slot (d\<lparr>uxMessagesWaiting := a\<rparr>) = slot d"
  "shape (d\<lparr>pcReadFrom := a\<rparr>) = shape d" "shape (d\<lparr>pcWriteTo := a\<rparr>) = shape d" "shape (d\<lparr>uxMessagesWaiting := a\<rparr>) = shape d"
  "item_at m (d\<lparr>pcReadFrom := a\<rparr>) = item_at m d" "item_at m (d\<lparr>pcWriteTo := a\<rparr>) = item_at m d"
  "item_at m (d\<lparr>uxMessagesWaiting := a\<rparr>) = item_at m d"
  by (simp_all add: fun_eq_iff slot_def shape_def item_at_def)

lemma next_slot:
  assumes "shape d" "i < unat (uxLength d)"
  shows "(if pcTail d \<le> slot d i + uxItemSize d then pcHead d else slot d i + uxItemSize d) = slot d (Suc i mod unat (uxLength d))"
proof -
  have t: "pcTail d = slot d (unat (uxLength d))" and h: "slot d 0 = pcHead d" using assms(1) by (simp_all add: shape_def slot_def)
  show ?thesis
    using slot_mono(1) [OF assms(1), of "unat (uxLength d)" "Suc i"] assms(2) h by (auto simp: t slot_step le_Suc_eq)
qed

lemma previous_slot:
  assumes d: "shape d" and i: "i < unat (uxLength d)"
  shows "(if slot d i - uxItemSize d < pcHead d then pcTail d - uxItemSize d else slot d i - uxItemSize d) =
    slot d (if i = 0 then unat (uxLength d) - 1 else i - 1)"
proof (cases "i = 0")
  case True
  have s: "0 < uxItemSize d" "uxItemSize d \<le> pcHead d" using d by (auto simp: shape_def)
  then have "pcHead d - uxItemSize d < pcHead d" by (simp add: word_less_nat_alt word_le_nat_alt unat_sub)
  then have "slot d i - uxItemSize d < pcHead d" using True by (simp add: slot_def)
  moreover have "pcTail d - uxItemSize d = slot d (unat (uxLength d) - 1)"
    using d i slot_step(2) [of "unat (uxLength d)" d] by (simp add: shape_def)
  ultimately show ?thesis using True by simp
next
  case False
  then have e: "slot d i - uxItemSize d = slot d (i - 1)" using slot_step(2) [of i d] by simp
  have "slot d 0 \<le> slot d (i - 1)" using slot_mono(1) [OF d, of 0 "i - 1"] i by simp
  then have "\<not> slot d (i - 1) < pcHead d" by (simp add: slot_def not_less)
  then show ?thesis using False e by simp
qed

lemma item_at_store:
  assumes d: "shape d" and i: "i < unat (uxLength d)" and x: "length x = unat (uxItemSize d)"
  shows "item_at (store_bytes (slot d i) x m) d j = (if j mod unat (uxLength d) = i then x else item_at m d j)"
proof -
  have lx: "length x \<le> 2 ^ 32" using unat_u32_less [of "uxItemSize d"] x by simp
  show ?thesis
  proof (cases "j mod unat (uxLength d) = i")
    case True
    then show ?thesis using load_store_same [OF lx] x by (simp add: item_at_def)
  next
    case False
    have "j mod unat (uxLength d) < unat (uxLength d)" using i by simp
    then have "load_bytes (slot d (j mod unat (uxLength d))) (unat (uxItemSize d)) (store_bytes (slot d i) x m) =
        load_bytes (slot d (j mod unat (uxLength d))) (unat (uxItemSize d)) m"
      using slots_apart [OF d i _ not_sym [OF False]] x by (intro load_store_apart [OF lx]) simp
    then show ?thesis using False by (simp add: item_at_def)
  qed
qed

definition put_back :: "xQUEUE \<Rightarrow> xQUEUE" where
  "put_back d = (let w = pcWriteTo d + uxItemSize d in
     d\<lparr>pcWriteTo := if pcTail d \<le> w then pcHead d else w, uxMessagesWaiting := uxMessagesWaiting d + 1\<rparr>)"

definition put_front :: "xQUEUE \<Rightarrow> xQUEUE" where
  "put_front d = (let r = pcReadFrom d - uxItemSize d in
     d\<lparr>pcReadFrom := if r < pcHead d then pcTail d - uxItemSize d else r, uxMessagesWaiting := uxMessagesWaiting d + 1\<rparr>)"

definition next_read :: "xQUEUE \<Rightarrow> u32" where
  "next_read d = (let r = pcReadFrom d + uxItemSize d in if pcTail d \<le> r then pcHead d else r)"

lemma ring_put_back:
  assumes R: "ring_buf m d xs" and room: "length xs < unat (uxLength d)" and x: "length x = unat (uxItemSize d)"
  shows "ring_buf (store_bytes (pcWriteTo d) x m) (put_back d) (xs @ [x])"
proof -
  let ?L = "unat (uxLength d)" and ?n = "length xs"
  obtain r where d: "shape d" "uxMessagesWaiting d = of_nat ?n" and r: "r < ?L" "pcReadFrom d = slot d r"
    "pcWriteTo d = slot d ((r + 1 + ?n) mod ?L)" "xs = map (\<lambda>j. item_at m d (r + 1 + j)) [0..<?n]"
    using R unfolding ring_buf_def by blast
  let ?w = "(r + 1 + ?n) mod ?L" and ?m = "store_bytes (pcWriteTo d) x m"
  have w: "?w < ?L" using r(1) by simp
  have next_w: "put_back d = d\<lparr>pcWriteTo := slot d ((r + 1 + Suc ?n) mod ?L), uxMessagesWaiting := of_nat (Suc ?n)\<rparr>"
    unfolding put_back_def Let_def r(3) next_slot [OF d(1) w] d(2) by (simp add: mod_Suc_eq)
  have old: "item_at ?m d (r + 1 + j) = item_at m d (r + 1 + j)" if "j < ?n" for j
    using item_at_store [OF d(1) w x] mod_cancel [of j ?L ?n "r + 1"] that room unfolding r(3) by auto
  have new: "item_at ?m d (r + 1 + ?n) = x" using item_at_store [OF d(1) w x, of m "r + 1 + ?n"] unfolding r(3) by simp
  have "map (\<lambda>j. item_at m d (r + 1 + j)) [0..<?n] = map (\<lambda>j. item_at ?m d (r + 1 + j)) [0..<?n]" using old by simp
  with r(4) have "xs = map (\<lambda>j. item_at ?m d (r + 1 + j)) [0..<?n]" by (rule trans)
  then have "xs @ [x] = map (\<lambda>j. item_at ?m d (r + 1 + j)) [0..<Suc ?n]" using new by simp
  then show ?thesis unfolding next_w ring_buf_def using d r(1,2) room by (intro conjI exI [of _ r]) simp_all
qed

lemma ring_put_front:
  assumes R: "ring_buf m d xs" and room: "length xs < unat (uxLength d)" and x: "length x = unat (uxItemSize d)"
  shows "ring_buf (store_bytes (pcReadFrom d) x m) (put_front d) (x # xs)"
proof -
  let ?L = "unat (uxLength d)" and ?n = "length xs"
  obtain r where d: "shape d" "uxMessagesWaiting d = of_nat ?n" and r: "r < ?L" "pcReadFrom d = slot d r"
    "pcWriteTo d = slot d ((r + 1 + ?n) mod ?L)" "xs = map (\<lambda>j. item_at m d (r + 1 + j)) [0..<?n]"
    using R unfolding ring_buf_def by blast
  let ?r = "if r = 0 then ?L - 1 else r - 1" and ?m = "store_bytes (pcReadFrom d) x m"
  have r': "?r < ?L" using r(1) by auto
  have shift: "(?r + 1 + j) mod ?L = (r + j) mod ?L" for j
    using r(1) by (cases "r = 0") auto
  have prev: "put_front d = d\<lparr>pcReadFrom := slot d ?r, uxMessagesWaiting := of_nat (Suc ?n)\<rparr>"
    using previous_slot [OF d(1) r(1)] d(2) r(2) by (simp add: put_front_def Let_def)
  have ia: "item_at k d (?r + 1 + j) = item_at k d (r + j)" for j k by (simp only: item_at_def shift)
  have old: "item_at ?m d (?r + 1 + Suc j) = item_at m d (r + 1 + j)" if "j < ?n" for j
    using item_at_store [OF d(1) r(1) x, of m "r + Suc j"] mod_cancel [of "Suc j" ?L 0 r] that room r(1) unfolding ia r(2) by auto
  have new: "item_at ?m d (?r + 1 + 0) = x" using item_at_store [OF d(1) r(1) x, of m r] r(1) unfolding ia r(2) by simp
  have "x # xs = map (\<lambda>j. item_at ?m d (?r + 1 + j)) [0..<Suc ?n]"
  proof (rule nth_equalityI)
    fix i assume "i < length (x # xs)"
    then show "(x # xs) ! i = map (\<lambda>j. item_at ?m d (?r + 1 + j)) [0..<Suc ?n] ! i"
      using new old [of "i - 1"] arg_cong [OF r(4), of "\<lambda>zs. zs ! (i - 1)"] by (cases i) (simp_all del: upt_Suc)
  qed simp
  moreover have "pcWriteTo d = slot d ((?r + 1 + Suc ?n) mod ?L)" using r(3) by (simp only: shift) simp
  ultimately show ?thesis unfolding prev ring_buf_def using d r' room by (intro conjI exI [of _ ?r]) simp_all
qed

lemma ring_get:
  assumes R: "ring_buf m d (x # xs)"
  shows "load_bytes (next_read d) (unat (uxItemSize d)) m = x"
    "ring_buf m (d\<lparr>pcReadFrom := next_read d, uxMessagesWaiting := uxMessagesWaiting d - 1\<rparr>) xs"
proof -
  let ?L = "unat (uxLength d)" and ?n = "length xs"
  obtain r where d: "shape d" "uxMessagesWaiting d = of_nat (Suc ?n)" "Suc ?n \<le> ?L" and r: "r < ?L" "pcReadFrom d = slot d r"
    "pcWriteTo d = slot d ((r + 1 + Suc ?n) mod ?L)" "x # xs = map (\<lambda>j. item_at m d (r + 1 + j)) [0..<Suc ?n]"
    using R unfolding ring_buf_def by auto
  have nr: "next_read d = slot d (Suc r mod ?L)" using next_slot [OF d(1) r(1)] r(2) by (simp add: next_read_def Let_def)
  have nth: "(x # xs) ! j = item_at m d (r + 1 + j)" if "j < Suc ?n" for j
    using arg_cong [OF r(4), of "\<lambda>zs. zs ! j"] that by (simp del: upt_Suc)
  show "load_bytes (next_read d) (unat (uxItemSize d)) m = x" using nth [of 0] by (simp add: nr item_at_def)
  have sh: "(Suc r mod ?L + 1 + j) mod ?L = (r + 1 + Suc j) mod ?L" for j
    using mod_add_left_eq [of "Suc r" ?L "1 + j"] by simp
  then have ia: "item_at m d (Suc r mod ?L + 1 + j) = item_at m d (r + 1 + Suc j)" for j
    by (simp only: item_at_def)
  have "xs = map (\<lambda>j. item_at m d (Suc r mod ?L + 1 + j)) [0..<?n]"
  proof (rule nth_equalityI)
    fix i assume i: "i < length xs"
    then show "xs ! i = map (\<lambda>j. item_at m d (Suc r mod ?L + 1 + j)) [0..<?n] ! i"
      using nth [of "Suc i"] ia [of i] by simp
  qed simp
  moreover have "pcWriteTo d = slot d ((Suc r mod ?L + 1 + ?n) mod ?L)" using r(3) by (simp only: sh)
  moreover have "Suc r mod ?L < ?L" using r(1) by simp
  ultimately show "ring_buf m (d\<lparr>pcReadFrom := next_read d, uxMessagesWaiting := uxMessagesWaiting d - 1\<rparr>) xs"
    unfolding ring_buf_def nr using d by (intro conjI exI [of _ "Suc r mod ?L"]) simp_all
qed

section \<open>What the calls leave alone\<close>

lemma que_more:
  assumes "list_store.more k' = list_store.more k"
  shows "que k' = que k" "xQueueRegistry k' = xQueueRegistry k"
  using assms by (cases k; cases k'; simp)+

lemmas que_frame [simp] = que_more [OF more_InsertEnd] que_more [OF more_Remove] que_more [OF vListInitialise_more]

lemma upd_que_simps [simp]:
  "que (upd_que q f k) = (que k)(q := f (que k q))" "kmem (upd_que q f k) = kmem k" "heap (upd_que q f k) = heap k"
  "itm (upd_que q f k) = itm k" "lst (upd_que q f k) = lst k" "tcb (upd_que q f k) = tcb k"
  "list_empty l (upd_que q f k) = list_empty l k" "pxCurrentTCB (upd_que q f k) = pxCurrentTCB k"
  "uxSchedulerSuspended (upd_que q f k) = uxSchedulerSuspended k"
  by (simp_all add: upd_que_def list_empty_def)

lemma yield_simps [simp]:
  "que (portYIELD_WITHIN_API k) = que k" "kmem (portYIELD_WITHIN_API k) = kmem k" "que (vTaskMissedYield k) = que k"
  "kmem (vTaskMissedYield k) = kmem k"
  by (simp_all add: portYIELD_WITHIN_API_def vTaskMissedYield_def)

lemma remove_event_list_data [simp]:
  "que (snd (xTaskRemoveFromEventList l k)) = que k" "kmem (snd (xTaskRemoveFromEventList l k)) = kmem k"
  by (simp_all add: xTaskRemoveFromEventList_def Let_def remove_generic_def prvAddTaskToReadyQueue_eq)

lemma wake_waiter_data [simp]:
  assumes "react \<in> {portYIELD_WITHIN_API, vTaskMissedYield}"
  shows "que (wake_waiter react l k) = que k" "kmem (wake_waiter react l k) = kmem k"
  using assms by (auto simp: wake_waiter_def split_beta Let_def)

lemma set_item_value_que [simp]: "que (set_item_value i v k) = que k" "xQueueRegistry (set_item_value i v k) = xQueueRegistry k"
  by (rule que_more [OF set_item_value_frame(1)])+

lemma priority_data [simp]:
  "que (vTaskPriorityDisinherit t k) = que k" "kmem (vTaskPriorityDisinherit t k) = kmem k"
  "que (vTaskPriorityInherit t k) = que k" "kmem (vTaskPriorityInherit t k) = kmem k"
  by (simp_all add: vTaskPriorityDisinherit_def vTaskPriorityInherit_def Let_def remove_generic_def prvAddTaskToReadyQueue_eq upd_tcb_def)

section \<open>Queues as bounded double-ended queues\<close>

text \<open>
  The contract: \<open>rep s xs\<close> says that \<open>s\<close> holds the items \<open>xs\<close>. It is stated once for any
  implementation; sending and receiving of \<^verbatim>\<open>queue.c\<close> are an instance.
\<close>

locale bounded_fifo =
  fixes rep :: "'s \<Rightarrow> 'v list \<Rightarrow> bool" and cap :: "'s \<Rightarrow> nat" and fits :: "'s \<Rightarrow> 'v \<Rightarrow> bool"
    and put put_first :: "'v \<Rightarrow> 's \<Rightarrow> 's" and get peek :: "'s \<Rightarrow> 'v \<times> 's"
  assumes bounded: "rep s xs \<Longrightarrow> length xs \<le> cap s"
    and put_rep: "rep s xs \<Longrightarrow> length xs < cap s \<Longrightarrow> fits s x \<Longrightarrow> rep (put x s) (xs @ [x])"
    and put_first_rep: "rep s xs \<Longrightarrow> length xs < cap s \<Longrightarrow> fits s x \<Longrightarrow> rep (put_first x s) (x # xs)"
    and get_rep: "rep s (x # xs) \<Longrightarrow> fst (get s) = x \<and> rep (snd (get s)) xs"
    and peek_rep: "rep s (x # xs) \<Longrightarrow> fst (peek s) = x \<and> rep (snd (peek s)) (x # xs)"
    and put_same: "cap (put x s) = cap s" "fits (put x s) = fits s"
    and put_first_same: "cap (put_first x s) = cap s" "fits (put_first x s) = fits s"
begin

lemma put_all_rep:
  "rep s xs \<Longrightarrow> length xs + length ys \<le> cap s \<Longrightarrow> \<forall>y\<in>set ys. fits s y \<Longrightarrow> rep (fold put ys s) (xs @ ys)"
proof (induction ys arbitrary: s xs)
  case (Cons y ys)
  then have "rep (put y s) (xs @ [y])" by (intro put_rep) simp_all
  from Cons.IH [OF this] Cons.prems show ?case by (simp add: put_same)
qed simp

lemma put_first_all_rep:
  "rep s xs \<Longrightarrow> length xs + length ys \<le> cap s \<Longrightarrow> \<forall>y\<in>set ys. fits s y \<Longrightarrow> rep (fold put_first ys s) (rev ys @ xs)"
proof (induction ys arbitrary: s xs)
  case (Cons y ys)
  then have "rep (put_first y s) (y # xs)" by (intro put_first_rep) simp_all
  from Cons.IH [OF this] Cons.prems show ?case by (simp add: put_first_same)
qed simp

lemma get_all: "rep s (xs @ ys) \<Longrightarrow> fst (collect (length xs) get s) = xs \<and> rep (snd (collect (length xs) get s)) ys"
proof (induction xs arbitrary: s)
  case (Cons x xs)
  then have "fst (get s) = x" "rep (snd (get s)) (xs @ ys)" using get_rep by auto
  then show ?case using Cons.IH by (simp add: split_beta Let_def)
qed simp

lemma first_in_first_out:
  assumes "rep s []" "length xs \<le> cap s" "\<forall>x\<in>set xs. fits s x"
  shows "fst (collect (length xs) get (fold put xs s)) = xs"
  using get_all [of _ xs "[]"] put_all_rep [OF assms(1)] assms(2,3) by simp

lemma last_in_first_out:
  assumes "rep s []" "length xs \<le> cap s" "\<forall>x\<in>set xs. fits s x"
  shows "fst (collect (length xs) get (fold put_first xs s)) = rev xs"
  using get_all [of _ "rev xs" "[]"] put_first_all_rep [OF assms(1)] assms(2,3) by simp

end

abbreviation holds :: "u32 \<Rightarrow> 'a queues_scheme \<Rightarrow> u8 list list \<Rightarrow> bool" where
  "holds q k xs \<equiv> ring_buf (kmem k) (que k q) xs"

lemma ring_parts:
  assumes "ring_buf m d xs"
  shows "pcHead d \<noteq> 0" "uxItemSize d \<noteq> 0" "uxMessagesWaiting d = of_nat (length xs)" "length xs \<le> unat (uxLength d)"
    "unat (uxMessagesWaiting d) = length xs"
proof -
  show m: "uxMessagesWaiting d = of_nat (length xs)" and l: "length xs \<le> unat (uxLength d)" using assms by (simp_all add: ring_buf_def)
  show "unat (uxMessagesWaiting d) = length xs" unfolding m using l unat_u32_less [of "uxLength d"] by (intro unat_small) simp
  have "shape d" using assms by (simp add: ring_buf_def)
  then have "0 < uxItemSize d" "uxItemSize d \<le> pcHead d" by (simp_all add: shape_def)
  then show "pcHead d \<noteq> 0" "uxItemSize d \<noteq> 0" by auto
qed

lemma copy_to_ring:
  assumes "holds q k xs" "length x = unat (uxItemSize (que k q))"
  shows "que (prvCopyDataToQueue q x queueSEND_TO_BACK k) = (que k)(q := put_back (que k q))"
    "kmem (prvCopyDataToQueue q x queueSEND_TO_BACK k) = store_bytes (pcWriteTo (que k q)) x (kmem k)"
    "que (prvCopyDataToQueue q x queueSEND_TO_FRONT k) = (que k)(q := put_front (que k q))"
    "kmem (prvCopyDataToQueue q x queueSEND_TO_FRONT k) = store_bytes (pcReadFrom (que k q)) x (kmem k)"
  using ring_parts(2) [OF assms(1)] assms(2) by (simp_all add: prvCopyDataToQueue_def Let_def put_back_def put_front_def)

lemma put_same_size [simp]:
  "uxLength (put_back d) = uxLength d" "uxItemSize (put_back d) = uxItemSize d"
  "uxLength (put_front d) = uxLength d" "uxItemSize (put_front d) = uxItemSize d"
  by (simp_all add: put_back_def put_front_def Let_def)

lemma copy_to_size:
  "uxLength (que (prvCopyDataToQueue q x p k) q) = uxLength (que k q)"
  "uxItemSize (que (prvCopyDataToQueue q x p k) q) = uxItemSize (que k q)"
  by (simp_all add: prvCopyDataToQueue_def Let_def)

lemma send_now_data:
  "que (send_now q x p k) = que (prvCopyDataToQueue q x p k)" "kmem (send_now q x p k) = kmem (prvCopyDataToQueue q x p k)"
  by (simp_all add: send_now_def)

lemma receive_now_data:
  assumes "holds q k (x # xs)"
  shows "fst (receive_now q peek k) = x"
    "que (snd (receive_now q False k)) = (que k)(q := (que k q)\<lparr>pcReadFrom := next_read (que k q), uxMessagesWaiting := uxMessagesWaiting (que k q) - 1\<rparr>)"
    "que (snd (receive_now q True k)) = que k" "kmem (snd (receive_now q peek k)) = kmem k"
  using ring_parts(1) [OF assms] ring_get(1) [OF assms]
  by (simp_all add: receive_now_def prvCopyDataFromQueue_def Let_def next_read_def fun_eq_iff)

interpretation queue: bounded_fifo "holds q" "\<lambda>k. unat (uxLength (que k q))" "\<lambda>k x. length x = unat (uxItemSize (que k q))"
  "\<lambda>x. send_now q x queueSEND_TO_BACK" "\<lambda>x. send_now q x queueSEND_TO_FRONT" "receive_now q False" "receive_now q True"
  for q :: u32
proof unfold_locales
  fix k :: "'a queues_scheme" and xs assume "holds q k xs"
  then show "length xs \<le> unat (uxLength (que k q))" by (rule ring_parts(4))
next
  fix k :: "'a queues_scheme" and xs and x :: "u8 list" assume "holds q k xs" "length xs < unat (uxLength (que k q))" "length x = unat (uxItemSize (que k q))"
  then show "holds q (send_now q x queueSEND_TO_BACK k) (xs @ [x])" "holds q (send_now q x queueSEND_TO_FRONT k) (x # xs)"
    using ring_put_back ring_put_front by (simp_all add: send_now_data copy_to_ring)
next
  fix k :: "'a queues_scheme" and xs and x :: "u8 list" assume R: "holds q k (x # xs)"
  show "fst (receive_now q False k) = x \<and> holds q (snd (receive_now q False k)) xs"
    "fst (receive_now q True k) = x \<and> holds q (snd (receive_now q True k)) (x # xs)"
    using receive_now_data [OF R] ring_get(2) [OF R] R by simp_all
qed (simp_all add: send_now_data copy_to_size)

section \<open>Non-blocking calls\<close>

datatype call = Send "u8 list" | Send_First "u8 list" | Receive | Peek

fun do_call :: "u32 \<Rightarrow> call \<Rightarrow> 'a queues_scheme \<Rightarrow> ((int \<times> u8 list) \<times> 'a queues_scheme) option" where
  "do_call q (Send x) k = map_option (\<lambda>(r, k). ((r, []), k)) (xQueueGenericSend Some id q x 0 queueSEND_TO_BACK k)"
| "do_call q (Send_First x) k = map_option (\<lambda>(r, k). ((r, []), k)) (xQueueGenericSend Some id q x 0 queueSEND_TO_FRONT k)"
| "do_call q Receive k = map_option (\<lambda>(r, bs, k). ((r, bs), k)) (xQueueGenericReceive Some id q 0 False k)"
| "do_call q Peek k = map_option (\<lambda>(r, bs, k). ((r, bs), k)) (xQueueGenericReceive Some id q 0 True k)"

fun do_calls :: "u32 \<Rightarrow> call list \<Rightarrow> 'a queues_scheme \<Rightarrow> ((int \<times> u8 list) list \<times> 'a queues_scheme) option" where
  "do_calls q [] k = Some ([], k)"
| "do_calls q (c # cs) k = do { (r, k) \<leftarrow> do_call q c k; (rs, k) \<leftarrow> do_calls q cs k; Some (r # rs, k) }"

fun spec_call :: "nat \<Rightarrow> call \<Rightarrow> u8 list list \<Rightarrow> (int \<times> u8 list) \<times> u8 list list" where
  "spec_call n (Send x) xs = (if length xs < n then ((pdPASS, []), xs @ [x]) else ((errQUEUE_FULL, []), xs))"
| "spec_call n (Send_First x) xs = (if length xs < n then ((pdPASS, []), x # xs) else ((errQUEUE_FULL, []), xs))"
| "spec_call n Receive [] = ((errQUEUE_EMPTY, []), [])"
| "spec_call n Receive (x # xs) = ((pdPASS, x), xs)"
| "spec_call n Peek [] = ((errQUEUE_EMPTY, []), [])"
| "spec_call n Peek (x # xs) = ((pdPASS, x), x # xs)"

fun spec_calls :: "nat \<Rightarrow> call list \<Rightarrow> u8 list list \<Rightarrow> (int \<times> u8 list) list \<times> u8 list list" where
  "spec_calls n [] xs = ([], xs)"
| "spec_calls n (c # cs) xs = (let (r, xs) = spec_call n c xs; (rs, xs) = spec_calls n cs xs in (r # rs, xs))"

fun sized :: "nat \<Rightarrow> call \<Rightarrow> bool" where
  "sized n (Send x) \<longleftrightarrow> length x = n"
| "sized n (Send_First x) \<longleftrightarrow> length x = n"
| "sized n _ \<longleftrightarrow> True"

lemma send_room: "holds q k xs \<Longrightarrow> uxMessagesWaiting (que k q) < uxLength (que k q) \<longleftrightarrow> length xs < unat (uxLength (que k q))"
  using ring_parts(5) by (simp add: word_less_nat_alt)

lemma receive_some: "holds q k xs \<Longrightarrow> 0 < uxMessagesWaiting (que k q) \<longleftrightarrow> xs \<noteq> []"
  using ring_parts(5) [of "kmem k" "que k q" xs] by (auto simp: word_less_nat_alt)

lemma send_full: "holds q k xs \<Longrightarrow> prvIsQueueFull q k \<longleftrightarrow> length xs = unat (uxLength (que k q))"
  using ring_parts(5) [of "kmem k" "que k q" xs] by (auto simp: prvIsQueueFull_def word_unat_eq_iff)

lemma sizes_kept:
  assumes "holds q k xs"
  shows "uxLength (que (snd (receive_now q p k)) q) = uxLength (que k q) \<and> uxItemSize (que (snd (receive_now q p k)) q) = uxItemSize (que k q)"
  by (cases p) (auto simp: receive_now_def prvCopyDataFromQueue_def Let_def)

lemma do_call_ok:
  assumes R: "holds q k xs" and s: "sized (unat (uxItemSize (que k q))) c"
  shows "\<exists>k'. do_call q c k = Some (fst (spec_call (unat (uxLength (que k q))) c xs), k') \<and>
    holds q k' (snd (spec_call (unat (uxLength (que k q))) c xs)) \<and>
    uxLength (que k' q) = uxLength (que k q) \<and> uxItemSize (que k' q) = uxItemSize (que k q)"
proof (cases c)
  case (Send x)
  then show ?thesis using R s queue.put_rep [OF R, of x] send_room [OF R]
    by (auto simp: xQueueGenericSend_def send_loop.simps [where xTicksToWait = 0] send_now_data copy_to_size)
next
  case (Send_First x)
  then show ?thesis using R s queue.put_first_rep [OF R, of x] send_room [OF R]
    by (auto simp: xQueueGenericSend_def send_loop.simps [where xTicksToWait = 0] send_now_data copy_to_size)
next
  case Receive
  then show ?thesis using R queue.get_rep [where s = k and q = q] receive_some [OF R] sizes_kept [OF R, of False]
    by (cases xs) (auto simp: xQueueGenericReceive_def receive_loop.simps [where xTicksToWait = 0] split_beta)
next
  case Peek
  then show ?thesis using R queue.peek_rep [where s = k and q = q] receive_some [OF R] sizes_kept [OF R, of True]
    by (cases xs) (auto simp: xQueueGenericReceive_def receive_loop.simps [where xTicksToWait = 0] split_beta)
qed

end
