(* ===== verification/Queue_Sched.thy ===== *)
theory Queue_Sched
  imports Queue_Ring
begin

text \<open>
  Queues and the scheduler: what a call does to the items and to the tasks that wait. Sending wakes
  the first receiver and receiving the first sender; a caller that has to wait is blocked by
  priority and with its time limit, and a mutex holder inherits the waiter's priority; unlocking
  wakes the tasks interrupts have counted; recursive mutexes and the creation of queues.
\<close>

section \<open>Queues and the scheduler\<close>

lemma data_sched:
  assumes "sched_ok k M"
  shows "sched_ok (upd_que q f k) M" "sched_ok (k\<lparr>kmem := m\<rparr>) M"
  by (rule sched_ok_upd [OF assms]; simp add: upd_que_def)+

lemma data_frame [simp]:
  "clock_ok (upd_que q f k) M = clock_ok k M" "clock_ok (k\<lparr>kmem := m\<rparr>) M = clock_ok k M"
  "sleepers (upd_que q f k) M = sleepers k M" "remaining (upd_que q f k) = remaining k"
  "ready_list_at (upd_que q f k) = ready_list_at k" "task_lists (upd_que q f k) = task_lists k"
  "xPendingReadyList (upd_que q f k) = xPendingReadyList k" "xTickCount (upd_que q f k) = xTickCount k"
  "uxMissedTicks (upd_que q f k) = uxMissedTicks k" "uxCurrentNumberOfTasks (upd_que q f k) = uxCurrentNumberOfTasks k"
  "pendsv (upd_que q f k) = pendsv k" "xMissedYield (upd_que q f k) = xMissedYield k"
  "xNumOfOverflows (upd_que q f k) = xNumOfOverflows k" "xSuspendedTaskList (upd_que q f k) = xSuspendedTaskList k"
  "on_list (upd_que q f k) M t = on_list k M t"
  by (simp_all add: upd_que_def clock_ok_def sleepers_def remaining_def ready_list_at_def task_lists_def fun_eq_iff on_list_def)

lemma upd_que_twice: "upd_que q g (upd_que q f k) = upd_que q (g \<circ> f) k"
  by (simp add: upd_que_def)

text \<open>What waking the first waiter of \<open>l\<close> does, if there is one.\<close>

definition first_woken :: "'a kernel_scheme \<Rightarrow> list_map \<Rightarrow> u32 \<Rightarrow> 'a kernel_scheme \<Rightarrow> list_map \<Rightarrow> bool" where
  "first_woken k M l k' M' \<longleftrightarrow>
    (case in_order M l of [] \<Rightarrow> M' = M \<and> pendsv k' = pendsv k
     | e # es \<Rightarrow> (\<exists>t. e = evt t \<and> in_order M' l = es \<and> sleepers k' M' = sleepers k M - {gen t} \<and>
         gen t \<in> set (members M' (ready_list_at k (prio k t))) \<and> (pendsv k' \<longleftrightarrow> pendsv k \<or> prio k (pxCurrentTCB k) \<le> prio k t)))"

lemma more_pendsv: "list_store.more k' = list_store.more k \<Longrightarrow> pendsv k' = pendsv k"
  by (fact more_frame)
lemma remove_event_pendsv:
  assumes "xTaskRemoveFromEventList l k = (b, k')" shows "pendsv k' = pendsv k"
proof -
  have r: "pendsv (snd (uxListRemove x k)) = pendsv k" "pendsv (vListInsertEnd j x k) = pendsv k" for x j and k :: "'a kernel_scheme"
    by (rule more_pendsv; simp)+
  have a: "pendsv (prvAddTaskToReadyQueue t k) = pendsv k" for t and k :: "'a kernel_scheme"
    unfolding prvAddTaskToReadyQueue_eq r by simp
  have "k' = snd (xTaskRemoveFromEventList l k)" using assms by simp
  then show ?thesis unfolding xTaskRemoveFromEventList_def remove_generic_def Let_def snd_conv by (simp only: r a split: if_split) simp
qed

lemma wake_waiter_ok:
  assumes ok: "sched_ok k M" "clock_ok k M" and s: "uxSchedulerSuspended k = 0" and l: "l \<in> dom M" "l \<notin> set (task_lists k)"
  shows "\<exists>M'. sched_ok (wake_waiter portYIELD_WITHIN_API l k) M' \<and> clock_ok (wake_waiter portYIELD_WITHIN_API l k) M' \<and>
    first_woken k M l (wake_waiter portYIELD_WITHIN_API l k) M'"
proof (cases "in_order M l")
  case Nil
  then have "list_empty l k" using lists_empty [OF sched_parts(1) [OF ok(1)] l(1)] by simp
  then show ?thesis using ok Nil by (intro exI [of _ M]) (simp add: wake_waiter_def first_woken_def)
next
  case (Cons e es)
  then have ne: "\<not> list_empty l k" using lists_empty [OF sched_parts(1) [OF ok(1)] l(1)] by simp
  have em: "e \<in> set (members M l)" using Cons set_in_order [of M l] by (metis list.set_intros(1))
  obtain t where t: "e = evt t" "task_ok k M t" using event_itemE [OF ok(1) l em] by metis
  then have p: "prio k t < 5" by (simp add: task_ok_def)
  obtain k' M' where w: "xTaskRemoveFromEventList l k = (prio k (pxCurrentTCB k) \<le> prio k t, k')" "sched_ok k' M'" "clock_ok k' M'"
    "in_order M' l = es" "readied {t} k M k' M'"
    using event_wakes_ok [OF ok s l] Cons t(1) by metis
  have r: "sleepers k' M' = sleepers k M - {gen t}" "gen t \<in> set (members M' (ready_list_at k (prio k t)))"
    using w(5) p by (simp_all add: readied_def)
  have y: "sleepers (portYIELD_WITHIN_API k') M' = sleepers k' M'" by (simp add: sleepers_def portYIELD_WITHIN_API_def)
  have "pendsv k' = pendsv k" by (rule remove_event_pendsv [OF w(1)])
  then show ?thesis using ne w(1-4) r t(1) Cons
    by (intro exI [of _ M']) (auto simp: wake_waiter_def first_woken_def yield_frame y)
qed

lemma quiet_data:
  assumes "uxSchedulerSuspended k = 1" "0 < uxCurrentNumberOfTasks k" "uxMissedTicks k = 0" "list_empty (xPendingReadyList k) k"
    "xTaskResumeAll k = Some (y, k')"
  shows "que k' = que k \<and> kmem k' = kmem k"
proof -
  let ?k = "k\<lparr>uxSchedulerSuspended := 0\<rparr>"
  have "move_pending False ?k = Some (False, ?k)" using assms(4) by (subst move_pending.simps) (simp add: list_empty_def)
  then show ?thesis using assms(1-3,5) by (auto simp: xTaskResumeAll_def Let_def split: if_splits)
qed

lemma place_data:
  assumes "vTaskPlaceOnEventList e w k = Some k'"
  shows "que k' = que k" "kmem k' = kmem k"
proof -
  have insert: "que k2 = que k1 \<and> kmem k2 = kmem k1" if "vListInsert l x k1 = Some k2" for l x and k1 k2 :: "'a queues_scheme"
    using more_Insert [OF that] que_more more_frame(2) by metis
  have "que k2 = que k1 \<and> kmem k2 = kmem k1" if "prvAddCurrentTaskToDelayedList v k1 = Some k2" for v and k1 k2 :: "'a queues_scheme"
    using that insert by (fastforce simp: prvAddCurrentTaskToDelayedList_def Let_def split: if_splits Option.bind_splits)
  then show "que k' = que k" "kmem k' = kmem k" using assms insert
    by (fastforce simp: vTaskPlaceOnEventList_def remove_generic_def Let_def split: if_splits Option.bind_splits)+
qed

lemma first_woken_data:
  "first_woken (upd_que q f k) M l k' M' = first_woken k M l k' M'" "first_woken (k\<lparr>kmem := m\<rparr>) M l k' M' = first_woken k M l k' M'"
  by (cases "in_order M l"; simp add: first_woken_def sleepers_def ready_list_at_def upd_que_def)+

lemma copy_to_sched:
  assumes "sched_ok k M" "holds q k xs" "length x = unat (uxItemSize (que k q))"
  shows "sched_ok (prvCopyDataToQueue q x p k) M" "clock_ok (prvCopyDataToQueue q x p k) M = clock_ok k M"
    "first_woken (prvCopyDataToQueue q x p k) M l k' M' = first_woken k M l k' M'" "task_lists (prvCopyDataToQueue q x p k) = task_lists k"
    "uxSchedulerSuspended (prvCopyDataToQueue q x p k) = uxSchedulerSuspended k"
proof -
  obtain f m where e: "prvCopyDataToQueue q x p k = upd_que q f (k\<lparr>kmem := m\<rparr>)"
    using ring_parts(2) [OF assms(2)] that by (cases p) (simp_all add: prvCopyDataToQueue_def Let_def upd_que_twice)
  have t: "task_lists (k\<lparr>kmem := m\<rparr>) = task_lists k" by (simp add: task_lists_def ready_list_at_def)
  show "sched_ok (prvCopyDataToQueue q x p k) M" unfolding e by (intro data_sched assms(1))
  show "clock_ok (prvCopyDataToQueue q x p k) M = clock_ok k M" "task_lists (prvCopyDataToQueue q x p k) = task_lists k"
    "first_woken (prvCopyDataToQueue q x p k) M l k' M' = first_woken k M l k' M'"
    "uxSchedulerSuspended (prvCopyDataToQueue q x p k) = uxSchedulerSuspended k"
    unfolding e by (simp_all add: t first_woken_data)
qed


text \<open>
  A receive from a queue that holds an item returns it at once; the item is gone, or still the
  first one after a peek, and the task waiting to send (after a peek: to receive) is woken.
\<close>

theorem receive_wakes_waiter:
  assumes "sched_ok k M" "clock_ok k M" "uxSchedulerSuspended k = 0" "holds q k (x # xs)"
    "xTasksWaitingToSend q \<in> dom M - set (task_lists k)" "xTasksWaitingToReceive q \<in> dom M - set (task_lists k)"
  shows "\<exists>k' M'. xQueueGenericReceive others irqs q w peek k = Some (pdPASS, x, k') \<and>
    holds q k' (if peek then x # xs else xs) \<and> sched_ok k' M' \<and> clock_ok k' M' \<and>
    first_woken k M (if peek then xTasksWaitingToReceive q else xTasksWaitingToSend q) k' M'"
proof -
  let ?l = "if peek then xTasksWaitingToReceive q else xTasksWaitingToSend q"
  obtain f where e: "snd (receive_now q peek k) = wake_waiter portYIELD_WITHIN_API ?l (upd_que q f k)"
    using ring_parts(1) [OF assms(4)]
    by (cases peek) (auto simp: receive_now_def prvCopyDataFromQueue_def Let_def upd_que_twice)
  have "0 < uxMessagesWaiting (que k q)" using receive_some [OF assms(4)] by simp
  then have r: "xQueueGenericReceive others irqs q w peek k = Some (pdPASS, receive_now q peek k)"
    by (simp add: xQueueGenericReceive_def receive_loop.simps)
  have d: "fst (receive_now q peek k) = x" "holds q (snd (receive_now q peek k)) (if peek then x # xs else xs)"
    using queue.get_rep [OF assms(4)] queue.peek_rep [OF assms(4)] by (cases peek; simp)+
  have l: "?l \<in> dom M" "?l \<notin> set (task_lists (upd_que q f k))" using assms(5,6) by simp_all
  have c: "clock_ok (upd_que q f k) M" "uxSchedulerSuspended (upd_que q f k) = 0" using assms(2,3) by simp_all
  obtain M' where "sched_ok (snd (receive_now q peek k)) M'" "clock_ok (snd (receive_now q peek k)) M'"
    "first_woken k M ?l (snd (receive_now q peek k)) M'"
    using wake_waiter_ok [OF data_sched(1) [OF assms(1)] c l] unfolding e first_woken_data by blast
  then show ?thesis using r d by (intro exI [of _ "snd (receive_now q peek k)"] exI [of _ M']) (simp add: prod_eq_iff)
qed

section \<open>Blocking\<close>

text \<open>\<open>blocked k M e w k' M'\<close>: the running task of \<open>k\<close> waits on the event list \<open>e\<close>, for \<open>w\<close> ticks at most.\<close>

definition blocked :: "'a kernel_scheme \<Rightarrow> list_map \<Rightarrow> u32 \<Rightarrow> u32 \<Rightarrow> 'a kernel_scheme \<Rightarrow> list_map \<Rightarrow> bool" where
  "blocked k M e w k' M' \<longleftrightarrow> sched_ok k' M' \<and> clock_ok k' M' \<and> uxSchedulerSuspended k' = 0 \<and> pendsv k' \<and>
     in_order M' e = ordered_insert (val k) (evt (pxCurrentTCB k)) (in_order M e) \<and>
     (\<forall>p<5. gen (pxCurrentTCB k) \<notin> set (members M' (ready_list_at k p))) \<and>
     (w \<noteq> portMAX_DELAY \<longrightarrow> gen (pxCurrentTCB k) \<in> sleepers k' M' \<and> remaining k' (gen (pxCurrentTCB k)) = unat w) \<and>
     (w = portMAX_DELAY \<longrightarrow> gen (pxCurrentTCB k) \<in> set (members M' (xSuspendedTaskList k)))"

lemma yield_sleep [simp]:
  "sleepers (portYIELD_WITHIN_API k) M = sleepers k M" "remaining (portYIELD_WITHIN_API k) = remaining k"
  by (simp_all add: sleepers_def remaining_def portYIELD_WITHIN_API_def fun_eq_iff)

text \<open>The trip through a loop: the caller blocks and gives up the processor.\<close>

lemma wait_trip:
  fixes k :: "'a queues_scheme"
  assumes ok: "sched_ok k M" "clock_ok k M" and t: "on_list k M (pxCurrentTCB k)" "pvContainer (itm k (evt (pxCurrentTCB k))) = 0"
    and s: "uxSchedulerSuspended k = 1" "0 < uxCurrentNumberOfTasks k" "uxMissedTicks k = 0" "members M (xPendingReadyList k) = []"
    and e: "e \<in> dom M" "e \<notin> set (task_lists k)" "e \<noteq> xPendingReadyList k" and w: "w \<noteq> 0"
  obtains k1 y k2 M2 where "vTaskPlaceOnEventList e w k = Some k1" "que k1 = que k" "xTaskResumeAll (upd_que q f k1) = Some (y, k2)"
    "blocked k M e w (if y then k2 else portYIELD_WITHIN_API k2) M2" "que k2 = (que k)(q := f (que k q))" "kmem k2 = kmem k" "tcb k2 = tcb k"
    "\<And>p. p < 5 \<Longrightarrow> members M2 (ready_list_at k p) = remove1 (gen (pxCurrentTCB k)) (members M (ready_list_at k p))"
proof -
  let ?t = "pxCurrentTCB k"
  obtain l where l: "gen ?t \<in> set (members M l)" "l \<in> set (task_lists k)" using t(1) by (auto simp: on_list_def)
  obtain k1 M1 where P: "vTaskPlaceOnEventList e w k = Some k1" "sched_ok k1 M1" "clock_ok k1 M1" "run_core k k1" "uxMissedTicks k1 = uxMissedTicks k"
    "in_order M1 e = ordered_insert (val k) (evt ?t) (in_order M e)"
    "\<forall>e'\<in>dom M - set (task_lists k). e' \<noteq> e \<longrightarrow> members M1 e' = members M e'"
    "\<forall>p<5. members M1 (ready_list_at k p) = remove1 (gen ?t) (members M (ready_list_at k p))"
    "if w = portMAX_DELAY then gen ?t \<in> set (members M1 (xSuspendedTaskList k)) else gen ?t \<in> sleepers k1 M1 \<and> remaining k1 (gen ?t) = unat w"
    using place_on_event_list_ok [OF ok refl l t(2) e(1,2) w] by (elim exE conjE)
  note D = place_data [OF P(1)]
  let ?k = "upd_que q f k1"
  have m: "members M1 (xPendingReadyList k) = []"
    using P(7) s(4) e(3) layout_facts(6,7) [OF sched_parts(2) [OF ok(1)]] by simp
  have s1: "uxSchedulerSuspended ?k = 1" "0 < uxCurrentNumberOfTasks ?k" "uxMissedTicks ?k = 0" "members M1 (xPendingReadyList ?k) = []"
    and ok1: "sched_ok ?k M1" "clock_ok ?k M1"
    using P(2-5) s m data_sched(1) by (simp_all add: run_core_def)
  obtain k2 where R: "xTaskResumeAll ?k = Some (xMissedYield ?k, k2)" "sched_ok k2 M1" "clock_ok k2 M1" "uxSchedulerSuspended k2 = 0"
    "sleepers k2 M1 = sleepers ?k M1" "remaining k2 = remaining ?k" "tcb k2 = tcb ?k" "xMissedYield ?k \<longrightarrow> pendsv k2"
    using resume_quiet [OF ok1 s1] by blast
  have "list_empty (xPendingReadyList ?k) ?k"
    using lists_empty [OF sched_parts(1) [OF ok1(1)] layout_facts(6) [OF sched_parts(2) [OF ok1(1)]]] s1(4) by (simp only: in_order_Nil)
  then have "que k2 = que ?k \<and> kmem k2 = kmem ?k" using quiet_data [OF s1(1-3) _ R(1)] by simp
  then have q: "que k2 = (que k)(q := f (que k q))" "kmem k2 = kmem k" "tcb k2 = tcb k" using D R(7) P(4) by (simp_all add: run_core_def)
  have "distinct (members M l')" for l' using lists_distinct [OF sched_parts(1) [OF ok(1)]] by simp
  then have "blocked k M e w (if xMissedYield ?k then k2 else portYIELD_WITHIN_API k2) M1"
    using R(2-6,8) P(6,8,9) by (simp add: blocked_def yield_frame split: if_splits)
  then show thesis using that P(1,8) D(1) R(1) q by metis
qed

lemma check_at_once:
  assumes "w \<noteq> 0" "xTickCount k' = xTickCount k" "xNumOfOverflows k' = xNumOfOverflows k"
  shows "xTaskCheckForTimeOut (vTaskSetTimeOutState k) w k' = (False, vTaskSetTimeOutState k, w)"
  using assms by (auto simp: xTaskCheckForTimeOut_def vTaskSetTimeOutState_def word_neq_0_conv)

lemma unlock_unmodified:
  assumes "xTxLock (que k q) = 0" "xRxLock (que k q) = 0"
  shows "prvUnlockQueue q k = Some (upd_que q (\<lambda>d. d\<lparr>xTxLock := - 1, xRxLock := - 1\<rparr>) k)"
  using assms by (simp add: prvUnlockQueue_def unlock_tx.simps unlock_rx.simps upd_que_twice comp_def)

text \<open>The state in which the caller has suspended the scheduler and locked the queue.\<close>

lemma locked_state:
  assumes r: "running k M" and lk: "xTxLock (que k q) = - 1" "xRxLock (que k q) = - 1"
  defines "k0 \<equiv> prvLockQueue q (vTaskSuspendAll k)"
  shows "sched_ok k0 M" "clock_ok k0 M" "on_list k0 M (pxCurrentTCB k0)" "uxSchedulerSuspended k0 = 1" "0 < uxCurrentNumberOfTasks k0"
    "uxMissedTicks k0 = 0" "members M (xPendingReadyList k0) = []" "que k0 = (que k)(q := (que k q)\<lparr>xRxLock := 0, xTxLock := 0\<rparr>)"
    "kmem k0 = kmem k" "tcb k0 = tcb k" "itm k0 = itm k" "pxCurrentTCB k0 = pxCurrentTCB k" "task_lists k0 = task_lists k"
    "ready_list_at k0 = ready_list_at k" "xPendingReadyList k0 = xPendingReadyList k" "xTickCount k0 = xTickCount k"
    "xNumOfOverflows k0 = xNumOfOverflows k" "xSuspendedTaskList k0 = xSuspendedTaskList k"
proof -
  have s: "sched_ok (vTaskSuspendAll k) M" unfolding vTaskSuspendAll_def using r by (intro sched_ok_fields(4)) (simp add: running_def)
  show "sched_ok k0 M" unfolding k0_def prvLockQueue_def by (rule data_sched(1) [OF s])
  show "que k0 = (que k)(q := (que k q)\<lparr>xRxLock := 0, xTxLock := 0\<rparr>)"
    using lk by (simp add: k0_def prvLockQueue_def vTaskSuspendAll_def)
  show "clock_ok k0 M" "on_list k0 M (pxCurrentTCB k0)" "uxSchedulerSuspended k0 = 1" "0 < uxCurrentNumberOfTasks k0"
    "uxMissedTicks k0 = 0" "members M (xPendingReadyList k0) = []"
    "kmem k0 = kmem k" "tcb k0 = tcb k" "itm k0 = itm k" "pxCurrentTCB k0 = pxCurrentTCB k" "task_lists k0 = task_lists k"
    "ready_list_at k0 = ready_list_at k" "xPendingReadyList k0 = xPendingReadyList k" "xTickCount k0 = xTickCount k"
    "xNumOfOverflows k0 = xNumOfOverflows k" "xSuspendedTaskList k0 = xSuspendedTaskList k"
    using r by (simp_all add: k0_def prvLockQueue_def running_def suspend_all_frame on_list_def) (simp_all add: vTaskSuspendAll_def)
qed

text \<open>
  C20. A send to a full queue that may wait blocks: the caller is filed by priority on the list of
  senders, off the ready lists, for the ticks it may wait; the queue is unchanged and unlocked
  again, and a task switch is pending. When the caller runs again it goes round the loop once
  more with the time that is left.
\<close>

theorem send_blocks:
  fixes w :: u32
  assumes "running k M" "pvContainer (itm k (evt (pxCurrentTCB k))) = 0" "holds q k xs" "length xs = unat (uxLength (que k q))"
    "xTxLock (que k q) = - 1" "xRxLock (que k q) = - 1" "w \<noteq> 0"
    "xTasksWaitingToSend q \<in> dom M - set (task_lists k)" "xTasksWaitingToSend q \<noteq> xPendingReadyList k"
  shows "\<exists>k' M'. (\<forall>others x p. others k = Some k \<longrightarrow> xQueueGenericSend others id q x w p k =
      Option.bind (others k') (send_loop others id q x w p (Some (vTaskSetTimeOutState k)))) \<and>
    que k' = que k \<and> kmem k' = kmem k \<and> blocked k M (xTasksWaitingToSend q) w k' M'"
proof -
  let ?k = "prvLockQueue q (vTaskSuspendAll k)" and ?t = "pxCurrentTCB k" and ?u = "\<lambda>d. d\<lparr>xTxLock := - 1, xRxLock := - 1\<rparr> :: xQUEUE"
  note S = locked_state [OF assms(1,5,6)]
  have full: "prvIsQueueFull q ?k" using send_full [OF assms(3)] assms(4) S(8) by (simp add: prvIsQueueFull_def)
  have e: "xTasksWaitingToSend q \<in> dom M" "xTasksWaitingToSend q \<notin> set (task_lists ?k)" "xTasksWaitingToSend q \<noteq> xPendingReadyList ?k"
    "pvContainer (itm ?k (evt (pxCurrentTCB ?k))) = 0" using assms(2,8,9) S(11-13,15) by simp_all
  obtain k1 y k2 M2 where W: "vTaskPlaceOnEventList (xTasksWaitingToSend q) w ?k = Some k1" "que k1 = que ?k"
    "xTaskResumeAll (upd_que q ?u k1) = Some (y, k2)"
    "blocked ?k M (xTasksWaitingToSend q) w (if y then k2 else portYIELD_WITHIN_API k2) M2"
    "que k2 = (que ?k)(q := ?u (que ?k q))" "kmem k2 = kmem ?k"
    using wait_trip [OF S(1-3) e(4) S(4-7) e(1-3) assms(7), of q ?u] by metis
  let ?k' = "if y then k2 else portYIELD_WITHIN_API k2"
  have "prvUnlockQueue q k1 = Some (upd_que q ?u k1)" using W(2) S(8) by (intro unlock_unmodified) simp_all
  then have sw: "send_wait id q w (vTaskSetTimeOutState k) k = Some (False, w, vTaskSetTimeOutState k, ?k')"
    using full W(1,3) check_at_once [OF assms(7) S(16,17)] by (simp add: send_wait_def Let_def)
  have "\<not> uxMessagesWaiting (que k q) < uxLength (que k q)" using send_room [OF assms(3)] assms(4) by simp
  then have "xQueueGenericSend others id q x w p k =
      Option.bind (others ?k') (send_loop others id q x w p (Some (vTaskSetTimeOutState k)))" if "others k = Some k" for others x p
    using that sw assms(7) by (simp add: xQueueGenericSend_def send_loop.simps [of others id q x w p None k])
  moreover have "que ?k' = que k" "kmem ?k' = kmem k" using W(5,6) S(8,9) assms(5,6) by auto
  moreover have "blocked k M (xTasksWaitingToSend q) w ?k' M2" using W(4) by (simp add: blocked_def S(11,12,14,18))
  ultimately show ?thesis by blast
qed

lemma ordered_insert_cong: "(\<And>y. y \<in> insert x (set xs) \<Longrightarrow> f y = g y) \<Longrightarrow> ordered_insert f x xs = ordered_insert g x xs"
  by (auto simp: ordered_insert_def cong: takeWhile_cong dropWhile_cong)

lemma inherit_state:
  assumes ok: "sched_ok k M" "clock_ok k M" and t: "on_list k M (pxCurrentTCB k)" "pvContainer (itm k (evt (pxCurrentTCB k))) = 0"
    and h: "h \<noteq> 0" "gen h \<in> set (members M l)" "l \<in> set (task_lists k)" "prio k h < prio k (pxCurrentTCB k)"
    and m: "members M (xPendingReadyList k) = []"
  defines "k1 \<equiv> vTaskPriorityInherit h k" and "t \<equiv> pxCurrentTCB k"
  shows "\<exists>M1. sched_ok k1 M1 \<and> clock_ok k1 M1 \<and> dom M1 = dom M \<and> on_list k1 M1 t \<and> pvContainer (itm k1 (evt t)) = 0 \<and>
    members M1 (xPendingReadyList k) = [] \<and> same_frame h k k1 \<and> tcb k1 = (tcb k)(h := (tcb k h)\<lparr>uxPriority := prio k t\<rparr>) \<and>
    (\<forall>e. e \<notin> set (task_lists k) \<longrightarrow> M1 e = M e) \<and>
    (l = ready_list_at k (prio k h) \<longrightarrow> gen h \<in> set (members M1 (ready_list_at k (prio k t))))"
proof -
  obtain lt where lt: "gen t \<in> set (members M lt)" "lt \<in> set (task_lists k)" using t(1) by (auto simp: on_list_def t_def)
  have p5: "prio k t < 5" using on_list_task(1) [OF ok(1) lt] by (simp add: task_ok_def)
  have ne: "t \<noteq> h" using h(4) by (auto simp: t_def)
  obtain M1 where I: "sched_ok k1 M1" "clock_ok k1 M1" "dom M1 = dom M" "same_frame h k k1"
    "\<forall>e. e \<notin> set (task_lists k) \<longrightarrow> M1 e = M e" "tcb k1 = (tcb k)(h := (tcb k h)\<lparr>uxPriority := prio k t\<rparr>)"
    "if l = ready_list_at k (prio k h) then \<forall>l'. members M1 l' = remove1 (gen h) (members M l') @ (if l' = ready_list_at k (prio k t) then [gen h] else [])
     else M1 = M"
    using vTaskPriorityInherit_ok [OF ok h(2,3,1,4) p5 [unfolded t_def]] unfolding k1_def t_def by blast
  have "gen t \<in> set (members M1 lt)" using lt(1) I(7) ne by (simp split: if_splits)
  then have "on_list k1 M1 t" using lt(2) I(4) by (auto simp: on_list_def same_frame_def)
  moreover have "evt t \<noteq> gen h" using task_ok_gen_evt [OF on_list_task(1) [OF ok(1) h(2,3)] on_list_task(1) [OF ok(1) lt]] by simp
  then have "pvContainer (itm k1 (evt t)) = 0" using I(4) t(2) ne by (simp add: same_frame_def t_def)
  moreover have "members M1 (xPendingReadyList k) = []"
    using I(5) layout_facts(7) [OF sched_parts(2) [OF ok(1)]] m by (simp add: members_def)
  moreover have "l = ready_list_at k (prio k h) \<longrightarrow> gen h \<in> set (members M1 (ready_list_at k (prio k t)))" using I(7) by simp
  ultimately show ?thesis using I(1-6) by blast
qed

lemma running_task: "running k M \<Longrightarrow> task_ok k M (pxCurrentTCB k)"
  using on_list_task(1) by (auto simp: running_def on_list_def)

lemma running_prio: "running k M \<Longrightarrow> prio k (pxCurrentTCB k) < 5"
  using running_task [of k M] by (simp add: task_ok_def)

text \<open>A holder that is not waiting on the list itself does not change its order by inheriting.\<close>

lemma inherit_order:
  assumes r: "running k M" and h: "gen h \<in> set (members M l)" "l \<in> set (task_lists k)" "prio k h < prio k (pxCurrentTCB k)"
    "evt h \<notin> set (members M e)" and f: "same_frame h k0 k1" "itm k0 = itm k" and e: "e \<in> dom M - set (task_lists k)"
  shows "ordered_insert (val k1) (evt (pxCurrentTCB k)) (in_order M e) = ordered_insert (val k) (evt (pxCurrentTCB k)) (in_order M e)"
proof (rule ordered_insert_cong)
  fix y assume y: "y \<in> insert (evt (pxCurrentTCB k)) (set (in_order M e))"
  have ok: "sched_ok k M" using r by (simp add: running_def)
  have "e \<noteq> l" using e h(2) by auto
  then have "gen h \<notin> set (members M e)" using member_unique [OF sched_parts(1) [OF ok] h(1), of e] by auto
  moreover have "evt (pxCurrentTCB k) \<noteq> gen h" "evt (pxCurrentTCB k) \<noteq> evt h"
    using task_ok_gen_evt [OF on_list_task(1) [OF ok h(1,2)] running_task [OF r]] h(3) by auto
  ultimately have "y \<noteq> gen h" "y \<noteq> evt h" using y h(4) by auto
  then show "val k1 y = val k y" using f by (simp add: same_frame_def)
qed

text \<open>
  C21. A task that waits for a mutex held by a task of lower priority blocks on the list of receivers
  for the ticks it may wait, and the holder has its priority: if the holder was ready it is now
  on the ready list of the waiter's priority, so that it runs before any task in between.
\<close>

theorem mutex_wait_inherits:
  fixes w :: u32
  assumes "running k M" "pvContainer (itm k (evt (pxCurrentTCB k))) = 0"
    "uxQueueType (que k q) = 0" "uxMessagesWaiting (que k q) = 0" "xTxLock (que k q) = - 1" "xRxLock (que k q) = - 1" "w \<noteq> 0"
    "xTasksWaitingToReceive q \<in> dom M - set (task_lists k)" "xTasksWaitingToReceive q \<noteq> xPendingReadyList k"
    "h = pxMutexHolder (que k q)" "h \<noteq> 0" "gen h \<in> set (members M l)" "l \<in> set (task_lists k)" "prio k h < prio k (pxCurrentTCB k)"
    "evt h \<notin> set (members M (xTasksWaitingToReceive q))"
  shows "\<exists>k' M'. (\<forall>others. others k = Some k \<longrightarrow> xQueueGenericReceive others id q w False k =
      Option.bind (others k') (receive_loop others id q w False (Some (vTaskSetTimeOutState k)))) \<and>
    que k' = que k \<and> prio k' h = prio k (pxCurrentTCB k) \<and> uxBasePriority (tcb k' h) = uxBasePriority (tcb k h) \<and>
    blocked k M (xTasksWaitingToReceive q) w k' M' \<and>
    (l = ready_list_at k (prio k h) \<longrightarrow> gen h \<in> set (members M' (ready_list_at k (prio k (pxCurrentTCB k)))))"
proof -
  let ?k = "prvLockQueue q (vTaskSuspendAll k)" and ?t = "pxCurrentTCB k" and ?u = "\<lambda>d. d\<lparr>xTxLock := - 1, xRxLock := - 1\<rparr> :: xQUEUE"
  let ?k1 = "vTaskPriorityInherit h ?k" and ?e = "xTasksWaitingToReceive q"
  note S = locked_state [OF assms(1,5,6)]
  have c0: "pvContainer (itm ?k (evt (pxCurrentTCB ?k))) = 0" using assms(2) S(11,12) by simp
  have hh: "l \<in> set (task_lists ?k)" "prio ?k h < prio ?k (pxCurrentTCB ?k)" using assms(13,14) S(10,12,13) by simp_all
  obtain M1 where I: "sched_ok ?k1 M1" "clock_ok ?k1 M1" "dom M1 = dom M" "on_list ?k1 M1 ?t" "pvContainer (itm ?k1 (evt ?t)) = 0"
    "members M1 (xPendingReadyList ?k) = []" "same_frame h ?k ?k1" "tcb ?k1 = (tcb k)(h := (tcb k h)\<lparr>uxPriority := prio k ?t\<rparr>)"
    "\<forall>e. e \<notin> set (task_lists k) \<longrightarrow> M1 e = M e"
    "l = ready_list_at k (prio k h) \<longrightarrow> gen h \<in> set (members M1 (ready_list_at k (prio k ?t)))"
    using inherit_state [OF S(1-3) c0 assms(11,12) hh S(7)] unfolding S(10,12,13,14) by blast
  have F: "uxSchedulerSuspended ?k1 = 1" "0 < uxCurrentNumberOfTasks ?k1" "uxMissedTicks ?k1 = 0" "xPendingReadyList ?k1 = xPendingReadyList k"
    "pxCurrentTCB ?k1 = ?t" "task_lists ?k1 = task_lists k" "ready_list_at ?k1 = ready_list_at k" "xSuspendedTaskList ?k1 = xSuspendedTaskList k"
    using I(7) S(4-6,12-15,18) by (simp_all add: same_frame_def)
  have T: "on_list ?k1 M1 (pxCurrentTCB ?k1)" "pvContainer (itm ?k1 (evt (pxCurrentTCB ?k1))) = 0" "members M1 (xPendingReadyList ?k1) = []"
    "?e \<in> dom M1" "?e \<notin> set (task_lists ?k1)" "?e \<noteq> xPendingReadyList ?k1"
    using I(3-6) F(4-6) S(15) assms(8,9) by simp_all
  obtain k2 y k3 M2 where W: "vTaskPlaceOnEventList ?e w ?k1 = Some k2" "que k2 = que ?k1"
    "xTaskResumeAll (upd_que q ?u k2) = Some (y, k3)" "blocked ?k1 M1 ?e w (if y then k3 else portYIELD_WITHIN_API k3) M2"
    "que k3 = (que ?k1)(q := ?u (que ?k1 q))" "tcb k3 = tcb ?k1"
    "\<And>p. p < 5 \<Longrightarrow> members M2 (ready_list_at ?k1 p) = remove1 (gen (pxCurrentTCB ?k1)) (members M1 (ready_list_at ?k1 p))"
    using wait_trip [OF I(1,2) T(1,2) F(1-3) T(3-6) assms(7), of q ?u] by metis
  let ?k' = "if y then k3 else portYIELD_WITHIN_API k3"
  have "prvUnlockQueue q k2 = Some (upd_que q ?u k2)" using W(2) S(8) by (intro unlock_unmodified) simp_all
  moreover have "prvIsQueueEmpty q ?k" "uxQueueType (que ?k q) = 0" "pxMutexHolder (que ?k q) = h"
    using assms(3,4,10) S(8) by (simp_all add: prvIsQueueEmpty_def)
  ultimately have sw: "receive_wait id q w (vTaskSetTimeOutState k) k = Some (False, w, vTaskSetTimeOutState k, ?k')"
    using W(1,3) check_at_once [OF assms(7) S(16,17)] by (simp add: receive_wait_def Let_def)
  have "xQueueGenericReceive others id q w False k =
      Option.bind (others ?k') (receive_loop others id q w False (Some (vTaskSetTimeOutState k)))" if "others k = Some k" for others
    using that sw assms(4,7) by (simp add: xQueueGenericReceive_def receive_loop.simps [of others id q w False None k])
  moreover have "que ?k' = que k" using W(5) S(8) assms(5,6) by auto
  moreover have "tcb ?k' = (tcb k)(h := (tcb k h)\<lparr>uxPriority := prio k ?t\<rparr>)" using W(6) I(8) by (simp add: yield_frame)
  moreover have "h \<noteq> ?t" using assms(14) by auto
  then have "l = ready_list_at k (prio k h) \<longrightarrow> gen h \<in> set (members M2 (ready_list_at k (prio k ?t)))"
    using I(10) W(7) running_prio [OF assms(1)] F(5,7) by simp
  moreover have "blocked k M ?e w ?k' M2"
    using W(4) inherit_order [OF assms(1,12-15) I(7) S(11)] assms(8) I(9) by (simp add: blocked_def F(5,7,8) in_order_def)
  ultimately show ?thesis by (intro exI [of _ ?k'] exI [of _ M2] conjI) simp_all
qed

section \<open>Recursive mutexes\<close>

fun repeat_call :: "('s \<Rightarrow> (int \<times> 's) option) \<Rightarrow> nat \<Rightarrow> 's \<Rightarrow> 's option" where
  "repeat_call f 0 k = Some k"
| "repeat_call f (Suc n) k = do { (r, k) \<leftarrow> f k; if r = pdPASS then repeat_call f n k else None }"

lemma repeat_call_add: "repeat_call f (m + n) k = Option.bind (repeat_call f m k) (repeat_call f n)"
proof (induction m arbitrary: k)
  case (Suc m)
  then show ?case by (cases "f k") auto
qed simp

lemma upd_que_cong: "f (que k q) = g (que k q) \<Longrightarrow> upd_que q f k = upd_que q g k"
  by (simp add: upd_que_def)

text \<open>A free mutex nobody waits for, and the same mutex after the running task has taken it \<open>n\<close> times.\<close>

definition free_mutex :: "u32 \<Rightarrow> 'a queues_scheme \<Rightarrow> bool" where
  "free_mutex q k \<longleftrightarrow> uxQueueType (que k q) = 0 \<and> pxMutexHolder (que k q) = 0 \<and> uxRecursiveCallCount (que k q) = 0 \<and>
     uxMessagesWaiting (que k q) = 1 \<and> uxLength (que k q) = 1 \<and> uxItemSize (que k q) = 0 \<and>
     list_empty (xTasksWaitingToSend q) k \<and> list_empty (xTasksWaitingToReceive q) k \<and>
     pxCurrentTCB k \<noteq> 0 \<and> prio k (pxCurrentTCB k) = uxBasePriority (tcb k (pxCurrentTCB k))"

definition taken :: "u32 \<Rightarrow> nat \<Rightarrow> 'a queues_scheme \<Rightarrow> 'a queues_scheme" where
  "taken q n k = upd_que q (\<lambda>d. d\<lparr>pcTail := pxCurrentTCB k, pcReadFrom := of_nat n, uxMessagesWaiting := 0\<rparr>) k"

lemma taken_facts [simp]:
  "que (taken q n k) q = (que k q)\<lparr>pcTail := pxCurrentTCB k, pcReadFrom := of_nat n, uxMessagesWaiting := 0\<rparr>"
  "pxCurrentTCB (taken q n k) = pxCurrentTCB k"
  by (simp_all add: taken_def)

lemma take_first: "free_mutex q k \<Longrightarrow> xQueueTakeMutexRecursive others irqs q w k = Some (pdPASS, taken q 1 k)"
  by (simp add: xQueueTakeMutexRecursive_def free_mutex_def xQueueGenericReceive_def receive_loop.simps receive_now_def
      prvCopyDataFromQueue_def wake_waiter_def Let_def upd_que_twice comp_def taken_def)
     (rule upd_que_cong, rule xQUEUE.equality, simp_all)

lemma take_again: "xQueueTakeMutexRecursive others irqs q w (taken q n k) = Some (pdPASS, taken q (Suc n) k)"
  by (simp add: xQueueTakeMutexRecursive_def) (simp add: taken_def upd_que_twice comp_def, rule upd_que_cong, rule xQUEUE.equality, simp_all)

lemma give_inner:
  assumes "0 < n" "Suc n < 2 ^ 32"
  shows "xQueueGiveMutexRecursive others irqs q (taken q (Suc n) k) = Some (pdPASS, taken q n k)"
proof -
  have "of_nat n \<noteq> (0 :: u32)" using assms unat_small [of n] by auto
  then show ?thesis by (simp add: xQueueGiveMutexRecursive_def Let_def) (simp add: taken_def upd_que_twice comp_def, rule upd_que_cong, rule xQUEUE.equality, simp_all)
qed

lemma give_last:
  assumes "free_mutex q k"
  shows "xQueueGiveMutexRecursive others irqs q (taken q 1 k) = Some (pdPASS, k)"
proof -
  let ?k = "upd_que q (\<lambda>d. d\<lparr>pcTail := pxCurrentTCB k, pcReadFrom := 0, uxMessagesWaiting := 0\<rparr>) k"
  have g: "upd_que q (\<lambda>d. d\<lparr>pcReadFrom := pcReadFrom d - 1\<rparr>) (taken q 1 k) = ?k"
    by (simp add: taken_def upd_que_twice comp_def, rule upd_que_cong, rule xQUEUE.equality, simp_all)
  have "vTaskPriorityDisinherit (pxCurrentTCB k) ?k = ?k" using assms by (simp add: vTaskPriorityDisinherit_def free_mutex_def)
  moreover have "(que k q)\<lparr>pcReadFrom := 0, pcTail := 0, uxMessagesWaiting := 1\<rparr> = que k q"
    using assms by (intro xQUEUE.equality) (simp_all add: free_mutex_def)
  then have "upd_que q (\<lambda>d. d\<lparr>pcReadFrom := 0, pcTail := 0, uxMessagesWaiting := 1\<rparr>) k = k" by (simp add: upd_que_def)
  ultimately have "send_now q [] queueSEND_TO_BACK ?k = k"
    using assms by (simp add: send_now_def prvCopyDataToQueue_def free_mutex_def Let_def upd_que_twice comp_def wake_waiter_def)
  moreover have "uxMessagesWaiting (que ?k q) < uxLength (que ?k q)" using assms by (simp add: free_mutex_def)
  ultimately have "xQueueGenericSend others irqs q [] 0 queueSEND_TO_BACK ?k = Some (pdPASS, k)"
    unfolding xQueueGenericSend_def by (subst send_loop.simps) simp
  then show ?thesis using g by (simp add: xQueueGiveMutexRecursive_def Let_def)
qed

lemma take_many: "free_mutex q k \<Longrightarrow> repeat_call (xQueueTakeMutexRecursive others irqs q w) (Suc n) k = Some (taken q (Suc n) k)"
proof -
  assume f: "free_mutex q k"
  have "repeat_call (xQueueTakeMutexRecursive others irqs q w) n (taken q m k) = Some (taken q (n + m) k)" for m
    by (induction n arbitrary: m) (simp_all add: take_again)
  then show ?thesis using take_first [OF f, of others irqs w] by simp
qed

lemma give_many:
  "j < m \<Longrightarrow> m < 2 ^ 32 \<Longrightarrow> repeat_call (xQueueGiveMutexRecursive others irqs q) j (taken q m k) = Some (taken q (m - j) k)"
proof (induction j arbitrary: m)
  case (Suc j)
  then obtain n where m: "m = Suc n" "0 < n" by (cases m) auto
  then show ?case using Suc.IH [of n] Suc.prems give_inner [of n others irqs q k] by simp
qed simp

text \<open>
  C22. A recursive mutex taken \<open>n\<close> times by the running task stays with it until it has been given
  back \<open>n\<close> times, for every \<open>n\<close> below \<open>2 ^ 32\<close>; then the whole kernel is as before.
\<close>

theorem recursive_mutex_balanced:
  assumes "free_mutex q k" "0 < n" "n < 2 ^ 32"
  shows "\<exists>k1. repeat_call (xQueueTakeMutexRecursive others irqs q w) n k = Some k1 \<and>
    (\<forall>j<n. \<exists>k2. repeat_call (xQueueGiveMutexRecursive others irqs q) j k1 = Some k2 \<and>
       pxMutexHolder (que k2 q) = pxCurrentTCB k \<and> uxMessagesWaiting (que k2 q) = 0) \<and>
    repeat_call (xQueueGiveMutexRecursive others irqs q) n k1 = Some k"
proof -
  obtain m where n: "n = Suc m" using assms(2) by (cases n) auto
  have "repeat_call (xQueueGiveMutexRecursive others irqs q) m (taken q n k) = Some (taken q 1 k)"
    using give_many [of m n others irqs q k] assms(3) n by simp
  then have "repeat_call (xQueueGiveMutexRecursive others irqs q) n (taken q n k) = Some k"
    using repeat_call_add [of "xQueueGiveMutexRecursive others irqs q" m 1 "taken q n k"] give_last [OF assms(1), of others irqs] by (simp add: n)
  then show ?thesis using take_many [OF assms(1), of others irqs w m] give_many [of _ n others irqs q k] assms(3) n
    by (intro exI [of _ "taken q n k"]) auto
qed

section \<open>Unlocking\<close>

text \<open>
  \<open>pended k M l n k' M'\<close>: the first \<open>n\<close> tasks that wait on \<open>l\<close> have moved to the pending list, in
  order, and the yield is remembered if one of them should run before the running task.
\<close>

definition urgent :: "'a kernel_scheme \<Rightarrow> u32 \<Rightarrow> bool" where
  "urgent k x \<longleftrightarrow> prio k (pxCurrentTCB k) \<le> prio k (pvOwner (itm k x))"

definition pended :: "'a kernel_scheme \<Rightarrow> list_map \<Rightarrow> u32 \<Rightarrow> nat \<Rightarrow> 'a kernel_scheme \<Rightarrow> list_map \<Rightarrow> bool" where
  "pended k M l n k' M' \<longleftrightarrow> sched_ok k' M' \<and> clock_ok k' M' \<and> dom M' = dom M \<and>
     task_lists k' = task_lists k \<and> xPendingReadyList k' = xPendingReadyList k \<and> uxSchedulerSuspended k' = uxSchedulerSuspended k \<and>
     urgent k' = urgent k \<and> xMissedYield k' = (xMissedYield k \<or> (\<exists>x\<in>set (take n (in_order M l)). urgent k x)) \<and>
     in_order M' l = drop n (in_order M l) \<and>
     members M' (xPendingReadyList k) = members M (xPendingReadyList k) @ take n (in_order M l) \<and>
     (\<forall>j. j \<noteq> l \<longrightarrow> j \<noteq> xPendingReadyList k \<longrightarrow> M' j = M j)"

definition waiting_list :: "'a kernel_scheme \<Rightarrow> list_map \<Rightarrow> u32 \<Rightarrow> bool" where
  "waiting_list k M l \<longleftrightarrow> l \<in> dom M \<and> l \<notin> set (task_lists k) \<and> l \<noteq> xPendingReadyList k"

lemma pended_refl: "sched_ok k M \<Longrightarrow> clock_ok k M \<Longrightarrow> n = 0 \<or> in_order M l = [] \<Longrightarrow> pended k M l n k M"
  by (auto simp: pended_def)

lemma pended_upd:
  "pended k M l n (upd_que q f k') M' \<longleftrightarrow> pended k M l n k' M'" "pended (upd_que q f k) M l n k' M' \<longleftrightarrow> pended k M l n k' M'"
proof -
  have s: "sched_ok (upd_que q f k') M' \<longleftrightarrow> sched_ok k' M'"
  proof
    assume "sched_ok (upd_que q f k') M'"
    then show "sched_ok k' M'" by (rule sched_ok_upd) (simp_all add: upd_que_def)
  qed (rule data_sched(1))
  have u: "urgent (upd_que q f j) = urgent j" for j :: "'a queues_scheme" by (simp add: urgent_def fun_eq_iff)
  show "pended k M l n (upd_que q f k') M' \<longleftrightarrow> pended k M l n k' M'" by (simp add: pended_def s u)
  show "pended (upd_que q f k) M l n k' M' \<longleftrightarrow> pended k M l n k' M'" by (simp add: pended_def u)
qed

lemma pend_one:
  assumes ok: "sched_ok k M" "clock_ok k M" "uxSchedulerSuspended k \<noteq> 0" and l: "waiting_list k M l" "in_order M l = x # xs"
  shows "\<exists>M'. pended k M l 1 (wake_waiter vTaskMissedYield l k) M'"
proof -
  have w: "l \<in> dom M" "l \<notin> set (task_lists k)" "l \<noteq> xPendingReadyList k" using l(1) by (simp_all add: waiting_list_def)
  have "x \<in> set (members M l)" using l(2) set_in_order [of M l] by (metis list.set_intros(1))
  then obtain t where t: "x = evt t" "task_ok k M t" using event_itemE [OF ok(1) w(1,2)] by metis
  obtain k' M' where e: "xTaskRemoveFromEventList l k = (prio k (pxCurrentTCB k) \<le> prio k t, k')" "sched_ok k' M'" "clock_ok k' M'"
    "in_order M' l = xs" "members M' (xPendingReadyList k) = members M (xPendingReadyList k) @ [evt t]"
    "\<forall>j. j \<noteq> l \<longrightarrow> j \<noteq> xPendingReadyList k \<longrightarrow> M' j = M j" "dom M' = dom M" "run_frame k k'"
    using event_pends_ok [OF ok w l(2) [unfolded t(1)]] by (elim exE conjE)
  have ne: "\<not> list_empty l k" using lists_empty [OF sched_parts(1) [OF ok(1)] w(1)] l(2) by simp
  let ?k = "if urgent k x then vTaskMissedYield k' else k'"
  have ur: "urgent k x \<longleftrightarrow> prio k (pxCurrentTCB k) \<le> prio k t" using t by (simp add: urgent_def task_ok_def)
  have "wake_waiter vTaskMissedYield l k = ?k" using ne e(1) ur by (simp add: wake_waiter_def)
  moreover have f: "task_lists k' = task_lists k" "xPendingReadyList k' = xPendingReadyList k" "uxSchedulerSuspended k' = uxSchedulerSuspended k"
    "urgent k' = urgent k" "xMissedYield k' = xMissedYield k" using e(8) by (simp_all add: run_frame_def run_core_def urgent_def fun_eq_iff)
  have "pended k M l 1 k' M' \<or> urgent k x" using e(2-7) f l(2) t(1) by (cases "urgent k x") (simp_all add: pended_def)
  moreover have "sched_ok (vTaskMissedYield k') M'" using sched_ok_fields(6) [OF e(2)] by (simp add: vTaskMissedYield_def)
  then have "pended k M l 1 (vTaskMissedYield k') M' \<or> \<not> urgent k x"
    using e(3-7) f l(2) t(1)
    by (simp add: pended_def) (simp add: vTaskMissedYield_def clock_ok_def task_lists_def ready_list_at_def urgent_def fun_eq_iff)
  ultimately show ?thesis by (intro exI [of _ M']) auto
qed

lemma pended_trans:
  assumes "pended k M l 1 k1 M1" "pended k1 M1 l n k2 M2" "in_order M l = x # xs" "l \<noteq> xPendingReadyList k"
  shows "pended k M l (Suc n) k2 M2"
  using assms by (simp add: pended_def drop_Suc take_Suc) 

lemma pended_waiting: "pended k M l n k' M' \<Longrightarrow> waiting_list k M j \<Longrightarrow> waiting_list k' M' j"
  by (simp add: pended_def waiting_list_def)

text \<open>Both loops of \<open>prvUnlockQueue\<close> have this shape.\<close>

lemma unlock_loop:
  fixes F :: "'a queues_scheme \<Rightarrow> 'a queues_scheme option"
  assumes F: "\<And>k. F k = (if 0 < lock (que k q) \<and> \<not> list_empty l k then F (upd_que q dec (wake_waiter vTaskMissedYield l k))
      else Some (upd_que q fin k))"
    and d: "\<And>d. lock (dec d) = lock d - (1 :: int)" "\<And>d. fin (dec d) = fin d"
    and k: "sched_ok k M" "clock_ok k M" "uxSchedulerSuspended k \<noteq> 0" "waiting_list k M l" "lock (que k q) = int n"
  shows "\<exists>k' M'. F k = Some k' \<and> pended k M l n k' M' \<and> que k' = (que k)(q := fin (que k q))"
  using k
proof (induction n arbitrary: k M)
  case 0
  then have "F k = Some (upd_que q fin k)" by (subst F) simp
  then show ?case using 0 by (intro exI [of _ "upd_que q fin k"] exI [of _ M]) (simp add: pended_upd pended_refl)
next
  case (Suc n)
  let ?w = "wake_waiter vTaskMissedYield l k"
  have e: "list_empty l k \<longleftrightarrow> in_order M l = []"
    using lists_empty [OF sched_parts(1) [OF Suc.prems(1)]] Suc.prems(4) by (simp add: waiting_list_def)
  show ?case
  proof (cases "in_order M l")
    case Nil
    then have "F k = Some (upd_que q fin k)" using e by (subst F) simp
    then show ?thesis using Suc.prems Nil by (intro exI [of _ "upd_que q fin k"] exI [of _ M]) (simp add: pended_upd pended_refl)
  next
    case (Cons x xs)
    obtain M1 where 1: "pended k M l 1 ?w M1" using pend_one [OF Suc.prems(1-4) Cons] by blast
    let ?k1 = "upd_que q dec ?w"
    have w: "waiting_list ?w M1 l" by (rule pended_waiting [OF 1 Suc.prems(4)])
    have "sched_ok ?k1 M1" using data_sched(1) 1 by (auto simp: pended_def)
    moreover have "clock_ok ?k1 M1" "uxSchedulerSuspended ?k1 \<noteq> 0" using 1 Suc.prems(3) by (simp_all add: pended_def)
    moreover have "waiting_list ?k1 M1 l" using w by (simp add: waiting_list_def)
    moreover have "lock (que ?k1 q) = int n" using Suc.prems(5) d(1) by simp
    ultimately obtain k' M' where 2: "F ?k1 = Some k'" "pended ?k1 M1 l n k' M'" "que k' = (que ?k1)(q := fin (que ?k1 q))"
      using Suc.IH [of ?k1 M1] by blast
    have "F k = Some k'" using 2(1) e Cons Suc.prems(5) by (subst F) simp
    moreover have "pended k M l (Suc n) k' M'"
      by (rule pended_trans [OF 1 2(2) [unfolded pended_upd] Cons]) (use Suc.prems(4) in \<open>simp add: waiting_list_def\<close>)
    ultimately show ?thesis using 2(3) d(2) by auto
  qed
qed

text \<open>
  C23. Unlocking a queue ends. It wakes as many waiting receivers as items were sent from interrupts
  while the queue was locked, and as many senders as items were taken, each in the order in which
  they wait and as long as there are any; they go to the pending list since the scheduler is
  suspended, the need to yield is remembered, and the queue is unlocked.
\<close>

theorem unlock_wakes_counted:
  assumes "sched_ok k M" "clock_ok k M" "uxSchedulerSuspended k \<noteq> 0"
    "waiting_list k M (xTasksWaitingToReceive q)" "waiting_list k M (xTasksWaitingToSend q)"
    "xTxLock (que k q) = int n" "xRxLock (que k q) = int m"
  shows "\<exists>k1 M1 k' M'. prvUnlockQueue q k = Some k' \<and> pended k M (xTasksWaitingToReceive q) n k1 M1 \<and>
    pended k1 M1 (xTasksWaitingToSend q) m k' M' \<and> que k' = (que k)(q := (que k q)\<lparr>xTxLock := - 1, xRxLock := - 1\<rparr>)"
proof -
  obtain k1 M1 where 1: "unlock_tx q k = Some k1" "pended k M (xTasksWaitingToReceive q) n k1 M1"
    "que k1 = (que k)(q := (que k q)\<lparr>xTxLock := - 1\<rparr>)"
    using unlock_loop [OF unlock_tx.simps _ _ assms(1-4,6)] by auto
  have s: "sched_ok k1 M1" "clock_ok k1 M1" "uxSchedulerSuspended k1 \<noteq> 0" "waiting_list k1 M1 (xTasksWaitingToSend q)" "xRxLock (que k1 q) = int m"
    using 1(2,3) assms(3,7) pended_waiting [OF 1(2) assms(5)] by (simp_all add: pended_def)
  obtain k' M' where 2: "unlock_rx q k1 = Some k'" "pended k1 M1 (xTasksWaitingToSend q) m k' M'"
    "que k' = (que k1)(q := (que k1 q)\<lparr>xRxLock := - 1\<rparr>)"
    using unlock_loop [OF unlock_rx.simps _ _ s] by auto
  then show ?thesis using 1 by (intro exI [of _ k1] exI [of _ M1] exI [of _ k'] exI [of _ M']) (simp add: prvUnlockQueue_def)
qed

section \<open>Creating queues\<close>

lemma unused_list:
  assumes "xListEnd l \<notin> objects k M"
  shows "l \<notin> dom M" "free_item M (xListEnd l)" "on_list k M u \<Longrightarrow> evt u \<noteq> xListEnd l"
  using assms by (auto simp: objects_def free_item_members)

text \<open>The two lists of waiting tasks of a control block in unused memory.\<close>

lemma new_waiting_lists:
  assumes ok: "sched_ok k M" "clock_ok k M" and u: "xListEnd l1 \<notin> objects k M" "xListEnd l2 \<notin> objects k M" and l: "l1 \<noteq> 0" "l2 \<noteq> 0" "l1 \<noteq> l2"
  defines "k' \<equiv> vListInitialise l2 (vListInitialise l1 k)" and "M' \<equiv> M(l1 \<mapsto> ([], []), l2 \<mapsto> ([], []))"
  shows "sched_ok k' M'" "clock_ok k' M'" "members M' j = members M j" "in_order M' l1 = []" "in_order M' l2 = []" "dom M' = {l1, l2} \<union> dom M"
proof -
  let ?k1 = "vListInitialise l1 k" and ?M1 = "M(l1 \<mapsto> ([], []))"
  note A = new_list_ok [OF ok unused_list(1) [OF u(1)] l(1) unused_list(2,3) [OF u(1)], simplified]
  have m1: "members M l1 = []" using unused_list(1) [OF u(1)] by (cases "M l1") (auto simp: members_def)
  have tl: "task_lists ?k1 = task_lists k" by simp
  have "on_list ?k1 ?M1 t \<longleftrightarrow> on_list k M t" for t by (simp add: on_list_def tl A(3))
  then have x: "\<And>t. on_list ?k1 ?M1 t \<Longrightarrow> evt t \<noteq> xListEnd l2" using unused_list(3) [OF u(2)] by blast
  have "l2 \<notin> dom ?M1" "free_item ?M1 (xListEnd l2)" using unused_list(1,2) [OF u(2)] l(3) A(3) m1 by (auto simp: free_item_members)
  note B = new_list_ok [OF A(1,2) this(1) l(2) this(2) x, simplified, folded k'_def]
  show "sched_ok k' M'" "clock_ok k' M'" "members M' j = members M j" "in_order M' l1 = []" "in_order M' l2 = []" "dom M' = {l1, l2} \<union> dom M"
    using B A l(3) by (auto simp: M'_def in_order_def)
qed

definition queue_made :: "'a queues_scheme \<Rightarrow> list_map \<Rightarrow> (nat \<times> nat) set \<Rightarrow> u32 \<Rightarrow> u32 \<Rightarrow> u32 \<Rightarrow> 'a queues_scheme \<Rightarrow> bool" where
  "queue_made k M A len sz q k' \<longleftrightarrow> (\<exists>b m c n M'. q = of_nat (b + 16) \<and> pcHead (que k' q) = of_nat (c + 16) \<and>
     heap_live (heap k') (insert (c, n) (insert (b, m) A)) \<and> cells (b, m) \<inter> cells (c, n) = {} \<and>
     80 + 16 \<le> m \<and> unat len * unat sz + 1 + 16 \<le> n \<and> sched_ok k' M' \<and> clock_ok k' M' \<and>
     in_order M' (xTasksWaitingToSend q) = [] \<and> in_order M' (xTasksWaitingToReceive q) = [] \<and>
     dom M' = {xTasksWaitingToSend q, xTasksWaitingToReceive q} \<union> dom M \<and> (\<forall>l. members M' l = members M l) \<and>
     uxLength (que k' q) = len \<and> uxItemSize (que k' q) = sz \<and> uxMessagesWaiting (que k' q) = 0 \<and>
     xTxLock (que k' q) = - 1 \<and> xRxLock (que k' q) = - 1 \<and> (sz \<noteq> 0 \<longrightarrow> holds q k' []))"

definition reset_block :: "xQUEUE \<Rightarrow> xQUEUE" where
  "reset_block d = d\<lparr>pcTail := pcHead d + uxLength d * uxItemSize d, uxMessagesWaiting := 0, pcWriteTo := pcHead d,
     pcReadFrom := pcHead d + (uxLength d - 1) * uxItemSize d, xRxLock := - 1, xTxLock := - 1\<rparr>"

lemma reset_ring:
  assumes "0 < uxLength d" "0 < uxItemSize d" "uxItemSize d \<le> pcHead d"
    "unat (pcHead d) + unat (uxLength d) * unat (uxItemSize d) < 2 ^ 32"
  shows "ring_buf m (reset_block d) []"
proof -
  let ?d = "reset_block d"
  have s: "slot ?d i = pcHead d + of_nat i * uxItemSize d" for i by (simp add: slot_def reset_block_def)
  have L: "unat (uxLength d) = Suc (unat (uxLength d) - 1)" using assms(1) by (simp add: word_less_nat_alt)
  then have p: "of_nat (unat (uxLength d) - 1) = uxLength d - 1" by (subst of_nat_diff) simp_all
  have f: "uxLength ?d = uxLength d" "uxItemSize ?d = uxItemSize d" "pcHead ?d = pcHead d" by (simp_all add: reset_block_def)
  have "shape ?d" unfolding shape_def s f using assms by (simp add: reset_block_def)
  moreover have "pcReadFrom ?d = slot ?d (unat (uxLength d) - 1)" unfolding s p by (simp add: reset_block_def)
  moreover have "pcWriteTo ?d = slot ?d ((unat (uxLength d) - 1 + 1 + 0) mod unat (uxLength d))"
    unfolding s using L by (simp add: reset_block_def)
  ultimately show ?thesis unfolding ring_buf_def f using L
    by (intro conjI exI [of _ "unat (uxLength d) - 1"]) (simp_all add: reset_block_def)
qed

text \<open>The state \<open>xQueueGenericCreate\<close> builds once both blocks are there.\<close>

lemma build_queue:
  fixes k :: "'a queues_scheme" and len sz h :: u32 and s :: heap4 and ty :: u8
  assumes ok: "sched_ok k M" "clock_ok k M" and u: "xListEnd (xTasksWaitingToSend q) \<notin> objects k M" "xListEnd (xTasksWaitingToReceive q) \<notin> objects k M"
    and q: "xTasksWaitingToSend q \<noteq> 0" "xTasksWaitingToReceive q \<noteq> 0"
  defines "k1 \<equiv> upd_que q (\<lambda>d. d\<lparr>uxLength := len, uxItemSize := sz\<rparr>) (upd_que q (\<lambda>d. d\<lparr>pcHead := h\<rparr>) (k\<lparr>heap := s\<rparr>))"
  defines "k' \<equiv> upd_que q (\<lambda>d. d\<lparr>ucQueueType := ty\<rparr>) (xQueueGenericReset q True k1)"
  defines "M' \<equiv> M(xTasksWaitingToSend q \<mapsto> ([], []), xTasksWaitingToReceive q \<mapsto> ([], []))"
  shows "sched_ok k' M'" "clock_ok k' M'" "members M' l = members M l" "in_order M' (xTasksWaitingToSend q) = []" "in_order M' (xTasksWaitingToReceive q) = []"
    "dom M' = {xTasksWaitingToSend q, xTasksWaitingToReceive q} \<union> dom M" "heap k' = s" "kmem k' = kmem k"
    "que k' q = (reset_block ((que k q)\<lparr>pcHead := h, uxLength := len, uxItemSize := sz\<rparr>))\<lparr>ucQueueType := ty\<rparr>"
proof -
  let ?k0 = "upd_que q reset_block k1"
  have k': "k' = upd_que q (\<lambda>d. d\<lparr>ucQueueType := ty\<rparr>) (vListInitialise (xTasksWaitingToReceive q) (vListInitialise (xTasksWaitingToSend q) ?k0))"
    by (simp add: k'_def xQueueGenericReset_def reset_block_def [abs_def] Let_def)
  have "sched_ok (k\<lparr>heap := s\<rparr>) M" by (rule sched_ok_upd [OF ok(1)]) simp_all
  then have ok0: "sched_ok ?k0 M" unfolding k1_def by (intro data_sched(1))
  have cl: "clock_ok ?k0 M" using ok(2) by (simp add: k1_def) (simp add: clock_ok_def)
  have "objects ?k0 M = objects k M" by (simp add: objects_def k1_def) (simp add: on_list_def task_lists_def ready_list_at_def)
  then have u0: "xListEnd (xTasksWaitingToSend q) \<notin> objects ?k0 M" "xListEnd (xTasksWaitingToReceive q) \<notin> objects ?k0 M" using u by simp_all
  have ne: "xTasksWaitingToSend q \<noteq> xTasksWaitingToReceive q" by (simp add: xTasksWaitingToSend_def xTasksWaitingToReceive_def)
  note N = new_waiting_lists [OF ok0 cl u0 q ne, folded M'_def]
  show "sched_ok k' M'" unfolding k' by (rule data_sched(1) [OF N(1)])
  show "clock_ok k' M'" unfolding k' using N(2) by simp
  show "members M' l = members M l" "in_order M' (xTasksWaitingToSend q) = []" "in_order M' (xTasksWaitingToReceive q) = []"
    "dom M' = {xTasksWaitingToSend q, xTasksWaitingToReceive q} \<union> dom M" by (fact N)+
  show "heap k' = s" "kmem k' = kmem k" "que k' q = (reset_block ((que k q)\<lparr>pcHead := h, uxLength := len, uxItemSize := sz\<rparr>))\<lparr>ucQueueType := ty\<rparr>"
    by (simp_all add: k' k1_def)
qed

lemma both_blocks:
  fixes k :: "'a queues_scheme"
  assumes ok: "sched_ok k M" "clock_ok k M" and hp: "objects_live k M A" "16384 \<le> heap_base (heap k)" "0 < len"
    and sz: "unat (len * sz + 1) = unat len * unat sz + 1"
    and both: "pvPortMalloc 80 (heap k) = Some (b + 16, s1)" "80 + 16 \<le> m" "heap_live s1 (insert (b, m) A)" "(b, m) \<notin> A"
      "pvPortMalloc (unat (len * sz + 1)) s1 = Some (c + 16, s2)" "unat (len * sz + 1) + 16 \<le> n" "cells (b, m) \<inter> cells (c, n) = {}"
      "heap_live s2 (insert (c, n) (insert (b, m) A))"
  shows "\<exists>q k'. xQueueGenericCreate len sz ty k = Some (q, k') \<and> q \<noteq> 0 \<and> queue_made k M A len sz q k'"
proof -
  let ?q = "of_nat (b + 16) :: u32" and ?h = "of_nat (c + 16) :: u32"
  have bd: "b + m < 2 ^ 32" "c + n < 2 ^ 32" using live_block(2) [OF both(3), of b m] live_block(2) [OF both(8), of c n] by simp_all
  have uq: "unat ?q = b + 16" and uh: "unat ?h = c + 16" using bd both(2,6) by (intro unat_small; simp)+
  have q0: "?q \<noteq> 0" using uq by auto
  have a: "unat (?q + of_nat i) = b + 16 + i" if "i < 80" for i
    using that bd(1) both(2) unat_small [of "b + 16 + i"] by (simp add: add.assoc)
  have ls: "unat (xListEnd (xTasksWaitingToSend ?q)) = b + 40" "unat (xListEnd (xTasksWaitingToReceive ?q)) = b + 60"
    "unat (xTasksWaitingToSend ?q) = b + 32" "unat (xTasksWaitingToReceive ?q) = b + 52"
    using a [of 24] a [of 44] a [of 16] a [of 36] by (simp_all add: xListEnd_def xTasksWaitingToSend_def xTasksWaitingToReceive_def add.assoc)
  have u: "xListEnd (xTasksWaitingToSend ?q) \<notin> objects k M" "xListEnd (xTasksWaitingToReceive ?q) \<notin> objects k M"
    using new_block_unused [OF both(3,4) pvPortMalloc_base [OF both(1)] hp(1)] ls both(2) by (auto simp: cells_def)
  have l0: "xTasksWaitingToSend ?q \<noteq> 0" "xTasksWaitingToReceive ?q \<noteq> 0" using ls(3,4) by auto
  note Q = build_queue [OF ok u l0]
  let ?d = "(que k ?q)\<lparr>pcHead := ?h, uxLength := len, uxItemSize := sz\<rparr>"
  have base: "heap_base (heap k) \<le> c" "n \<le> 16360"
  proof -
    have "cells (c, n) \<subseteq> heap_region s2" using live_block(1) [OF both(8), of c n] by simp
    then have "{c..<c + n} \<subseteq> {heap_base s2..<heap_base s2 + 16360}" by (simp add: cells_def heap_region_def)
    moreover have "0 < n" using both(6) by simp
    ultimately have "heap_base s2 \<le> c" "c + n \<le> heap_base s2 + 16360" by simp_all
    then show "heap_base (heap k) \<le> c" "n \<le> 16360"
      using pvPortMalloc_base [OF both(1)] pvPortMalloc_base [OF both(5)] by simp_all
  qed
  have ring: "ring_buf m' (reset_block ?d) []" if "sz \<noteq> 0" for m'
  proof (rule reset_ring)
    have "unat sz \<le> unat len * unat sz" using hp(3) by (simp add: word_less_nat_alt)
    then have "unat sz \<le> c + 16" using sz both(6) base hp(2) by linarith
    then show "uxItemSize ?d \<le> pcHead ?d" by (simp add: word_le_nat_alt uh del: of_nat_add)
    show "unat (pcHead ?d) + unat (uxLength ?d) * unat (uxItemSize ?d) < 2 ^ 32" using uh sz bd(2) both(6) by (simp del: of_nat_add)
  qed (use hp(3) that in \<open>simp_all add: word_neq_0_conv\<close>)
  let ?k1 = "upd_que ?q (\<lambda>d. d\<lparr>uxLength := len, uxItemSize := sz\<rparr>) (upd_que ?q (\<lambda>d. d\<lparr>pcHead := ?h\<rparr>) (k\<lparr>heap := s2\<rparr>))"
  let ?k' = "upd_que ?q (\<lambda>d. d\<lparr>ucQueueType := ty\<rparr>) (xQueueGenericReset ?q True ?k1)"
  have r: "xQueueGenericCreate len sz ty k = Some (?q, ?k')"
    using both q0 hp(3) by (simp add: xQueueGenericCreate_def Let_def del: of_nat_add)
  moreover have "ring_buf m' (d\<lparr>ucQueueType := y\<rparr>) xs = ring_buf m' d xs" for m' d y xs
    by (simp add: ring_buf_def shape_def slot_def item_at_def)
  then have "queue_made k M A len sz ?q ?k'" unfolding queue_made_def
    using Q both ring sz by (intro exI [of _ b] exI [of _ m] exI [of _ c] exI [of _ n]
      exI [of _ "M(xTasksWaitingToSend ?q \<mapsto> ([], []), xTasksWaitingToReceive ?q \<mapsto> ([], []))"]) (simp add: reset_block_def del: of_nat_add)
  ultimately show ?thesis using q0 by blast
qed

lemma create_cases:
  fixes k :: "'a queues_scheme"
  assumes "sched_ok k M" "clock_ok k M" "heap_live (heap k) A" "objects_live k M A" "16384 \<le> heap_base (heap k)"
    "0 < len" and sz: "unat (len * sz + 1) = unat len * unat sz + 1" and nn: "unat (len * sz + 1) \<le> 2 ^ 32 - 16"
  shows "\<exists>q k'. xQueueGenericCreate len sz ty k = Some (q, k') \<and>
    (q = 0 \<and> sched_ok k' M \<and> clock_ok k' M \<and> heap_live (heap k') A \<or> q \<noteq> 0 \<and> queue_made k M A len sz q k')"
proof -
  let ?n = "unat (len * sz + 1)"
  have n80: "80 \<le> (2 ^ 32 - 16 :: nat)" by simp
  have frame: "sched_ok (k\<lparr>heap := s\<rparr>) M" "clock_ok (k\<lparr>heap := s\<rparr>) M"
    "sched_ok ((upd_que q f (k\<lparr>heap := s'\<rparr>))\<lparr>heap := s\<rparr>) M" "clock_ok ((upd_que q f (k\<lparr>heap := s'\<rparr>))\<lparr>heap := s\<rparr>) M" for q f s s'
    using assms(2) by (auto intro!: sched_ok_upd [OF assms(1)] simp: upd_que_def clock_ok_def)
  consider
    (none) s' where "pvPortMalloc 80 (heap k) = Some (0, s')" "heap_live s' A"
  | (half) b m s1 s2 s3 where "pvPortMalloc 80 (heap k) = Some (b + 16, s1)" "0 < b" "80 + 16 \<le> m" "heap_live s1 (insert (b, m) A)" "(b, m) \<notin> A"
      "pvPortMalloc ?n s1 = Some (0, s2)" "vPortFree (b + 16) s2 = Some s3" "heap_live s3 A"
  | (both) b m s1 c n s2 where "pvPortMalloc 80 (heap k) = Some (b + 16, s1)" "0 < b" "80 + 16 \<le> m" "heap_live s1 (insert (b, m) A)" "(b, m) \<notin> A"
      "pvPortMalloc ?n s1 = Some (c + 16, s2)" "0 < c" "?n + 16 \<le> n" "cells (b, m) \<inter> cells (c, n) = {}"
      "heap_live s2 (insert (c, n) (insert (b, m) A))"
    using heap4.alloc_both [OF assms(3) n80 nn]
    by (elim disjE exE conjE) ((rule that(1), assumption+) | (rule that(2), assumption+) | (rule that(3), assumption+))+
  then show ?thesis
  proof cases
    case none
    then show ?thesis using assms(6) frame(1,2) by (simp add: xQueueGenericCreate_def Let_def)
  next
    case half
    have "b + m < 2 ^ 32" using live_block(2) [OF half(4), of b m] by simp
    then have "(of_nat (b + 16) :: u32) \<noteq> 0" using unat_small [of "b + 16"] half(3) by auto
    then show ?thesis using half assms(6) frame(3,4) by (simp add: xQueueGenericCreate_def Let_def del: of_nat_add)
  next
    case both
    from both_blocks [OF assms(1,2,4-6) sz both(1,3-6,8-10)] show ?thesis by blast
  qed
qed

lemma create_fits:
  fixes k :: "'a queues_scheme"
  assumes "heap_ok (heap k) fl A" "unat (len * sz + 1) \<le> 2 ^ 32 - 16"
  shows "\<exists>q k'. xQueueGenericCreate len sz ty k = Some (q, k') \<and> (q \<noteq> 0 \<longleftrightarrow> 0 < len \<and> both_fit 80 (unat (len * sz + 1)) fl)"
proof -
  have n80: "80 \<le> (2 ^ 32 - 16 :: nat)" by simp
  from assms(1) n80 assms(2) show ?thesis
    by (cases rule: malloc_both_result) (simp_all add: xQueueGenericCreate_def Let_def)
qed

text \<open>
  C24. Creating a queue whose storage size, length times item size plus one, is at most \<open>2 ^ 32 - 16\<close>,
  so that neither the product nor the allocator's arithmetic wraps, from a heap at an address not
  below 16384: when the length is not zero and a control block and then the storage both fit the
  heap's free list, the result is a new empty queue of that length and item size, in two new
  disjoint heap blocks of sufficient size, no tasks waiting, unlocked. Otherwise, and only then,
  the handle is null and the heap holds exactly the blocks it held. The scheduler's invariant is
  kept in both cases.
\<close>

theorem queue_create_all_or_nothing:
  fixes k :: "'a queues_scheme"
  assumes "sched_ok k M" "clock_ok k M" "heap_ok (heap k) fl A" "objects_live k M A" "16384 \<le> heap_base (heap k)"
    "unat len * unat sz + 1 \<le> 2 ^ 32 - 16"
  shows "\<exists>q k'. xQueueGenericCreate len sz ty k = Some (q, k') \<and>
    (if 0 < len \<and> both_fit 80 (unat len * unat sz + 1) fl then q \<noteq> 0 \<and> queue_made k M A len sz q k'
     else q = 0 \<and> sched_ok k' M \<and> clock_ok k' M \<and> heap_live (heap k') A)"
proof (cases "0 < len")
  case False
  then show ?thesis using assms(1-3) by (auto simp: xQueueGenericCreate_def heap_live_def)
next
  case True
  have hl: "heap_live (heap k) A" using assms(3) by (auto simp: heap_live_def)
  have sz: "unat (len * sz + 1) = unat len * unat sz + 1"
  proof -
    have "unat (len * sz) = unat len * unat sz" using assms(6) by (intro unat_mult_lem [THEN iffD1]) simp
    then show ?thesis using assms(6) by (subst unat_add_lem [THEN iffD1]) simp_all
  qed
  have nn: "unat (len * sz + 1) \<le> 2 ^ 32 - 16" using assms(6) sz by simp
  obtain q k' where r: "xQueueGenericCreate len sz ty k = Some (q, k')"
    "q = 0 \<and> sched_ok k' M \<and> clock_ok k' M \<and> heap_live (heap k') A \<or> q \<noteq> 0 \<and> queue_made k M A len sz q k'"
    using create_cases [OF assms(1,2) hl assms(4,5) True sz nn] by blast
  have "q \<noteq> 0 \<longleftrightarrow> both_fit 80 (unat len * unat sz + 1) fl"
    using create_fits [OF assms(3) nn, of ty] r(1) True sz by simp
  then show ?thesis using r True by auto
qed

text \<open>
  C18. For a queue that holds the items \<open>xs\<close>, any sequence of non-blocking sends (to the back or to the
  front), receives and peeks returns exactly what a bounded double-ended queue of the queue's
  length returns, the error codes on a full or empty queue included, and leaves the queue
  holding its contents: the ring buffer in RAM refines the list.
\<close>

theorem queue_refines_deque:
  assumes "holds q k xs" "\<forall>c\<in>set cs. sized (unat (uxItemSize (que k q))) c"
  defines "n \<equiv> unat (uxLength (que k q))"
  shows "\<exists>k'. do_calls q cs k = Some (fst (spec_calls n cs xs), k') \<and> holds q k' (snd (spec_calls n cs xs))"
  using assms(1,2) unfolding n_def
proof (induction cs arbitrary: k xs)
  case (Cons c cs)
  let ?n = "unat (uxLength (que k q))"
  obtain k1 where c: "do_call q c k = Some (fst (spec_call ?n c xs), k1)" "holds q k1 (snd (spec_call ?n c xs))"
    "uxLength (que k1 q) = uxLength (que k q)" "uxItemSize (que k1 q) = uxItemSize (que k q)"
    using do_call_ok [OF Cons.prems(1), of c] Cons.prems(2) by auto
  from Cons.IH [OF c(2)] c(1,3,4) Cons.prems(2) show ?case by (auto simp: split_beta Let_def)
qed simp

section \<open>Witnesses\<close>

definition demo_ctrl :: xQUEUE where
  "demo_ctrl = \<lparr>pcHead = 0x10001000, pcTail = 0x10001004, pcWriteTo = 0x10001000, pcReadFrom = 0x10001000, uxMessagesWaiting = 1,
     uxLength = 1, uxItemSize = 4, xRxLock = - 1, xTxLock = - 1, ucQueueNumber = 0, ucQueueType = 0\<rparr>"

definition demo_mutex :: "u32 \<Rightarrow> u32 \<Rightarrow> xQUEUE" where
  "demo_mutex holder n = \<lparr>pcHead = 0, pcTail = holder, pcWriteTo = 0, pcReadFrom = 0, uxMessagesWaiting = n,
     uxLength = 1, uxItemSize = 0, xRxLock = - 1, xTxLock = - 1, ucQueueNumber = 0, ucQueueType = 1\<rparr>"

definition demo_queue :: "xQUEUE \<Rightarrow> queues" where
  "demo_queue d = demo_kernel (queues.fields (\<lambda>_. d) [])"

lemma demo_queue_data [simp]: "que (demo_queue d) q = d" "kmem (demo_queue d) = (\<lambda>_. 0xA5)"
proof -
  have "que (demo_kernel (queues.fields f r)) = f" for f r
    by (simp add: demo_kernel_def spawn_def prvAddTaskToReadyQueue_eq prvInitialiseTCBVariables_def Let_def upd_tcb_def
        vListInitialiseItem_def set_item_owner_def set_item_value_def upd_item_def base_kernel_def prvInitialiseTaskLists_eq
        que_more [OF conjunct2 [OF init_lists_ok]]) (simp add: reset_kernel_def queues.fields_def)
  then show "que (demo_queue d) q = d" by (simp add: demo_queue_def)
qed (simp add: demo_queue_def demo_frame)

lemmas demo_queue_ok = demo_ok(1,2) [where x = "queues.fields (\<lambda>_. d) []" for d, folded demo_queue_def]
lemmas demo_queue_frame = demo_frame [where x = "queues.fields (\<lambda>_. d) []" for d, folded demo_queue_def]

lemma demo_item: "load_bytes a 4 (\<lambda>_. b) = [b, b, b, b]"
  by (simp add: load_bytes_def upt_rec)

lemma demo_holds: "holds q (demo_queue demo_ctrl) [[0xA5, 0xA5, 0xA5, 0xA5]]"
  by (simp add: ring_buf_def shape_def slot_def item_at_def demo_ctrl_def demo_item)

lemma demo_waiting: "xTasksWaitingToSend 0x2007DFDC = 0x2007DFEC" "xTasksWaitingToReceive 0x2007DFDC = 0x2007E000"
  "0x2007DFEC \<in> dom demo_map" "0x2007E000 \<in> dom demo_map" "0x2007DFEC \<notin> set (task_lists (demo_queue d))" "0x2007E000 \<notin> set (task_lists (demo_queue d))"
  by (simp_all add: xTasksWaitingToSend_def xTasksWaitingToReceive_def demo_ok(3) base_ok(5) demo_queue_frame(2) kernel_lists_def)

theorem queue_refines_deque_witness:
  "\<exists>k'. do_calls 0x2007DFDC [Receive, Send [1, 2, 3, 4], Peek, Send [5, 6, 7, 8]] (demo_queue demo_ctrl) =
     Some ([(pdPASS, [0xA5, 0xA5, 0xA5, 0xA5]), (pdPASS, []), (pdPASS, [1, 2, 3, 4]), (errQUEUE_FULL, [])], k')"
proof -
  have "\<forall>c\<in>set [Receive, Send [1, 2, 3, 4], Peek, Send [5, 6, 7, 8]]. sized (unat (uxItemSize (que (demo_queue demo_ctrl) 0x2007DFDC))) c"
    by (simp add: demo_ctrl_def)
  from queue_refines_deque [OF demo_holds this]
  show ?thesis by (simp add: demo_ctrl_def del: do_calls.simps) blast
qed


theorem receive_wakes_waiter_witness:
  "\<exists>k'. xQueueGenericReceive Some id 0x2007DFDC 0 False (demo_queue demo_ctrl) = Some (pdPASS, [0xA5, 0xA5, 0xA5, 0xA5], k') \<and>
     holds 0x2007DFDC k' []"
  using receive_wakes_waiter [OF demo_queue_ok demo_queue_frame(5) demo_holds [of "0x2007DFDC"], where others = Some and irqs = id and w = 0 and peek = False]
    demo_waiting by auto

lemma demo_queue_running: "running (demo_queue d) demo_map"
  using demo_running by (simp add: demo_queue_def)

lemma demo_queue_event: "pvContainer (itm (demo_queue d) (evt (pxCurrentTCB (demo_queue d)))) = 0"
  using demo_ok(7) by (simp add: demo_queue_def demo_frame(4))

theorem send_blocks_witness:
  "\<exists>(k' :: queues) M'. que k' = que (demo_queue demo_ctrl) \<and> blocked (demo_queue demo_ctrl) demo_map 0x2007DFEC 10 k' M'"
  using send_blocks [OF demo_queue_running demo_queue_event demo_holds [of "0x2007DFDC"], where w = 10] demo_waiting
  by (auto simp: demo_ctrl_def demo_queue_frame(3))

theorem mutex_wait_inherits_witness:
  "\<exists>(k' :: queues) M'. que k' = que (demo_queue (demo_mutex 0x2007F000 0)) \<and> prio k' 0x2007F000 = 3 \<and>
     gen 0x2007F000 \<in> set (members M' 0x2007C03C)"
proof -
  let ?k = "demo_queue (demo_mutex 0x2007F000 0)"
  have h: "gen 0x2007F000 \<in> set (members demo_map 0x2007C014)" "0x2007C014 \<in> set (task_lists ?k)" "prio ?k 0x2007F000 = 1" "prio ?k 0x2007F100 = 3"
    using demo_ok(5,6) by (simp_all add: demo_ok(4) demo_task_lists demo_queue_def)
  have e: "evt 0x2007F000 \<notin> set (members demo_map (xTasksWaitingToReceive 0x2007DFDC))" by (simp add: demo_ok(4) demo_waiting)
  have w: "xTasksWaitingToReceive 0x2007DFDC \<in> dom demo_map - set (task_lists ?k)" "xTasksWaitingToReceive 0x2007DFDC \<noteq> xPendingReadyList ?k"
    using demo_waiting by (simp_all add: demo_queue_frame(3))
  have m: "uxQueueType (que ?k 0x2007DFDC) = 0" "uxMessagesWaiting (que ?k 0x2007DFDC) = 0" "xTxLock (que ?k 0x2007DFDC) = - 1"
    "xRxLock (que ?k 0x2007DFDC) = - 1" "0x2007F000 = pxMutexHolder (que ?k 0x2007DFDC)" by (simp_all add: demo_mutex_def)
  have p: "prio ?k 0x2007F000 < prio ?k (pxCurrentTCB ?k)" using h(3,4) by (simp add: demo_queue_frame(4))
  have n: "(10 :: u32) \<noteq> 0" "(0x2007F000 :: u32) \<noteq> 0" by simp_all
  obtain k' :: queues and M' where "que k' = que ?k" "prio k' 0x2007F000 = prio ?k (pxCurrentTCB ?k)"
    "0x2007C014 = ready_list_at ?k (prio ?k 0x2007F000) \<longrightarrow> gen 0x2007F000 \<in> set (members M' (ready_list_at ?k (prio ?k (pxCurrentTCB ?k))))"
    using mutex_wait_inherits [OF demo_queue_running demo_queue_event m(1-4) n(1) w m(5) n(2) h(1,2) p e] by blast
  then show ?thesis using h(3,4) by (intro exI [of _ k'] exI [of _ M']) (simp add: demo_queue_frame(1,4))
qed

lemma demo_free_mutex: "free_mutex 0x2007DFDC (demo_queue (demo_mutex 0 1))"
proof -
  let ?k = "demo_queue (demo_mutex 0 1)"
  have "members demo_map 0x2007DFEC = []" "members demo_map 0x2007E000 = []" by (simp_all add: demo_ok(4))
  then have "list_empty 0x2007DFEC ?k" "list_empty 0x2007E000 ?k"
    using lists_empty [OF sched_parts(1) [OF demo_queue_ok(1)]] demo_waiting(3,4) by (simp_all only: in_order_Nil)
  moreover have "uxBasePriority (tcb ?k 0x2007F100) = 3" "prio ?k 0x2007F100 = 3" using demo_ok(6,10) by (simp_all add: demo_queue_def)
  ultimately show ?thesis by (simp add: free_mutex_def demo_waiting demo_mutex_def demo_queue_frame(4))
qed

theorem recursive_mutex_balanced_witness:
  "\<exists>k1. repeat_call (xQueueTakeMutexRecursive Some id 0x2007DFDC 0) 3 (demo_queue (demo_mutex 0 1)) = Some k1 \<and>
     repeat_call (xQueueGiveMutexRecursive Some id 0x2007DFDC) 3 k1 = Some (demo_queue (demo_mutex 0 1))"
  using recursive_mutex_balanced [where n = 3 and q = "0x2007DFDC" and k = "demo_queue (demo_mutex 0 1)" and others = Some and irqs = id and w = 0]
    demo_free_mutex by auto

theorem unlock_wakes_counted_witness:
  "\<exists>k1 M1 k' M'. prvUnlockQueue 0x2007DFDC ((demo_queue (demo_ctrl\<lparr>xTxLock := 2, xRxLock := 1\<rparr>))\<lparr>uxSchedulerSuspended := 1\<rparr>) = Some k' \<and>
     pended k1 M1 0x2007DFEC 1 k' M' \<and> xTxLock (que k' 0x2007DFDC) = - 1"
proof -
  let ?q = "demo_queue (demo_ctrl\<lparr>xTxLock := 2, xRxLock := 1\<rparr>)"
  let ?k = "?q\<lparr>uxSchedulerSuspended := 1\<rparr>"
  have ok: "sched_ok ?k demo_map" "clock_ok ?k demo_map" using sched_ok_fields(4) [OF demo_queue_ok(1)] demo_queue_ok(2) by (simp_all add: clock_ok_def)
  have w: "waiting_list ?k demo_map 0x2007DFEC" "waiting_list ?k demo_map 0x2007E000"
    using demo_waiting(3,4) demo_waiting(5,6) [of "demo_ctrl\<lparr>xTxLock := 2, xRxLock := 1\<rparr>"] demo_queue_frame(3)
    by (simp_all add: waiting_list_def) (simp_all add: task_lists_def ready_list_at_def)
  have l: "xTxLock (que ?k 0x2007DFDC) = int 2" "xRxLock (que ?k 0x2007DFDC) = int 1" "uxSchedulerSuspended ?k \<noteq> 0" by simp_all
  obtain k1 M1 k' M' where "prvUnlockQueue 0x2007DFDC ?k = Some k'" "pended k1 M1 0x2007DFEC 1 k' M'"
    "que k' = (que ?k)(0x2007DFDC := (que ?k 0x2007DFDC)\<lparr>xTxLock := - 1, xRxLock := - 1\<rparr>)"
    using unlock_wakes_counted [where q = "0x2007DFDC", OF ok l(3) _ _ l(1,2), unfolded demo_waiting(1,2), OF w(2,1)] by (elim exE conjE)
  then show ?thesis by (intro exI [of _ k1] exI [of _ M1] exI [of _ k'] exI [of _ M']) simp
qed

theorem queue_create_all_or_nothing_witness:
  "\<exists>q k'. xQueueGenericCreate 8 4 0 (demo_queue demo_ctrl) = Some (q, k') \<and> q \<noteq> 0 \<and>
     queue_made (demo_queue demo_ctrl) demo_map {} 8 4 q k'"
proof -
  have "heap_ok (heap (demo_queue demo_ctrl)) [(0x10000008, 16360)] {}" using demo_heap_ok by (simp add: demo_queue_frame)
  moreover have "objects_live (demo_queue demo_ctrl) demo_map {}" using demo_objects by (simp add: demo_queue_def)
  moreover have "16384 \<le> heap_base (heap (demo_queue demo_ctrl))"
    by (simp add: demo_queue_frame demo_heap_def heap_boot_def heap_base_def)
  moreover have "both_fit 80 33 [(0x10000008, 16360)]" by (simp add: both_fit_def alloc_spec_def)
  ultimately show ?thesis
    using queue_create_all_or_nothing [where k = "demo_queue demo_ctrl" and fl = "[(0x10000008, 16360)]" and A = "{}" and len = 8 and sz = 4 and ty = 0, OF demo_queue_ok] by simp
qed

end
