(* ===== verification/Timer_Lists.thy ===== *)
theory Timer_Lists
  imports Timers Queue_Sched
begin

text \<open>
  The two lists of active timers (\<^verbatim>\<open>FreeRTOS/src/timers.c\<close>): their invariant, the exactness of expiry
  times across the wrap of the tick counter, and what the timer task runs.
\<close>

section \<open>The invariant of the timer lists\<close>

text \<open>
  Both active lists are well formed and sorted by expiry time, and every item on them belongs to the
  timer it is part of. \<open>M\<close> may hold further lists.
\<close>

definition timers_ok :: "'a timers_scheme \<Rightarrow> list_map \<Rightarrow> bool" where
  "timers_ok k M \<longleftrightarrow> lists_ok k M \<and> pxCurrentTimerList k \<noteq> pxOverflowTimerList k \<and>
     (\<forall>l \<in> {pxCurrentTimerList k, pxOverflowTimerList k}. l \<in> dom M \<and> sorted (map (val k) (in_order M l)) \<and>
       (\<forall>x \<in> set (in_order M l). x = xTimerListItem (pvOwner (itm k x))))"

lemma tmr_more:
  assumes "list_store.more k' = list_store.more k"
  shows "tmr k' = tmr k" "pxCurrentTimerList k' = pxCurrentTimerList k" "pxOverflowTimerList k' = pxOverflowTimerList k"
    "xTimerQueue k' = xTimerQueue k" "xLastTime k' = xLastTime k" "timers.more k' = timers.more k"
  using assms by (cases k; cases k'; simp)+

lemma set_item_owner_frame [simp]:
  "list_store.more (set_item_owner x v k) = list_store.more k" "lst (set_item_owner x v k) = lst k"
  "pvOwner (itm (set_item_owner x v k) y) = (if y = x then v else pvOwner (itm k y))"
  "pvContainer (itm (set_item_owner x v k) y) = pvContainer (itm k y)"
  "val (set_item_owner x v k) y = val k y"
  "nx (set_item_owner x v k) = nx k" "pv (set_item_owner x v k) = pv k"
  by (simp_all add: set_item_owner_def upd_item_def fun_eq_iff)

lemmas timer_frame [simp] = tmr_more [OF more_Remove] tmr_more [OF set_item_value_frame(1)] tmr_more [OF set_item_owner_frame(1)]

lemma set_item_owner_lists:
  assumes "lists_ok k M"
  shows "lists_ok (set_item_owner x v k) M"
proof -
  have "list_rep (set_item_owner x v k) l p q" if "list_rep k l p q" for l p q
    using that unfolding list_rep_def ring_def set_item_owner_frame by simp
  then show ?thesis using assms unfolding lists_ok_def by blast
qed

lemma free_not_end: "free_item M x \<Longrightarrow> l \<in> dom M \<Longrightarrow> x \<noteq> xListEnd l"
  by (auto simp: free_item_def footprint_def)

lemma free_not_in_order: "free_item M x \<Longrightarrow> x \<notin> set (in_order M l)"
  by (cases "M l") (auto simp: free_item_def footprint_def in_order_def)

text \<open>The two settings that come in front of every insertion.\<close>

definition aim :: "u32 \<Rightarrow> u32 \<Rightarrow> 'a timers_scheme \<Rightarrow> 'a timers_scheme" where
  "aim t v k = set_item_owner (xTimerListItem t) t (set_item_value (xTimerListItem t) v k)"

lemma aim_simps [simp]:
  "list_store.more (aim t v k) = list_store.more k"
  "val (aim t v k) y = (if y = xTimerListItem t then v else val k y)"
  "pvOwner (itm (aim t v k) y) = (if y = xTimerListItem t then t else pvOwner (itm k y))"
  by (simp_all add: aim_def)

lemmas aim_frame [simp] = tmr_more [OF aim_simps(1)]

lemma aim_ok:
  assumes ok: "timers_ok k M" and x: "free_item M (xTimerListItem t)"
  shows "timers_ok (aim t v k) M"
proof -
  have same: "val (aim t v k) y = val k y" "pvOwner (itm (aim t v k) y) = pvOwner (itm k y)" if "y \<in> set (in_order M l)" for y l
    using free_not_in_order [OF x, of l] that by auto
  have vals: "map (val (aim t v k)) (in_order M l) = map (val k) (in_order M l)" for l
    using same(1) by (rule map_cong [OF refl])
  have "lists_ok (aim t v k) M"
    using ok free_not_end [OF x] by (simp add: aim_def timers_ok_def set_item_owner_lists set_item_value_lists)
  then show ?thesis using ok same(2) unfolding timers_ok_def aim_frame vals by metis
qed

text \<open>An item that is free may join one of the two lists.\<close>

lemma insert_timer_ok:
  assumes ok: "timers_ok k M" and x: "free_item M (xTimerListItem t)" and l: "l \<in> {pxCurrentTimerList k, pxOverflowTimerList k}"
  obtains k' c where "vListInsert l (xTimerListItem t) (aim t v k) = Some k'" "timers_ok k' (M(l \<mapsto> c))"
    "in_order (M(l \<mapsto> c)) l = ordered_insert (val k') (xTimerListItem t) (in_order M l)"
    "val k' = (val k)(xTimerListItem t := v)" "list_store.more k' = list_store.more k"
proof -
  let ?x = "xTimerListItem t" and ?k = "aim t v k"
  have ok': "timers_ok ?k M" by (rule aim_ok [OF ok x])
  then have lk: "lists_ok ?k M" and ld: "l \<in> dom M" and s: "sorted (map (val ?k) (in_order M l))"
    using l unfolding timers_ok_def aim_frame by blast+
  obtain k' c where k': "vListInsert l ?x ?k = Some k'" "lists_ok k' (M(l \<mapsto> c))"
    "in_order (M(l \<mapsto> c)) l = ordered_insert (val ?k) ?x (in_order M l)" "list_store.more k' = list_store.more ?k"
    "\<And>y. pvOwner (itm k' y) = pvOwner (itm ?k y)" "val k' = val ?k"
    by (rule insert_ok [OF lk ld x]) (rule that; assumption)
  note more = k'(4) [unfolded aim_simps(1)]
  have new: "sorted (map (val k') (in_order (M(l \<mapsto> c)) l))"
    unfolding k'(3,6) by (rule ordered_insert_sorted [OF s])
  have "timers_ok k' (M(l \<mapsto> c))"
    unfolding timers_ok_def tmr_more [OF more]
  proof (intro conjI ballI)
    fix l' assume l': "l' \<in> {pxCurrentTimerList k, pxOverflowTimerList k}"
    show "l' \<in> dom (M(l \<mapsto> c))" using l' ok by (auto simp: timers_ok_def)
    have "sorted (map (val ?k) (in_order M l'))" using ok' l' unfolding timers_ok_def aim_frame by blast
    then show "sorted (map (val k') (in_order (M(l \<mapsto> c)) l'))"
      using new k'(6) by (cases "l' = l") (simp_all add: in_order_upd)
    fix y assume y: "y \<in> set (in_order (M(l \<mapsto> c)) l')"
    have "set (in_order (M(l \<mapsto> c)) l') \<subseteq> insert ?x (set (in_order M l'))"
      using k'(3) by (cases "l' = l") (auto simp: in_order_upd ordered_insert_set simp del: set_in_order)
    then have "y = ?x \<or> y \<in> set (in_order M l')" using y by blast
    then have "y = xTimerListItem (pvOwner (itm ?k y))" 
    proof
      assume "y \<in> set (in_order M l')"
      then show ?thesis using ok' l' unfolding timers_ok_def aim_frame by blast
    qed simp
    then show "y = xTimerListItem (pvOwner (itm k' y))" using k'(5) by simp
  qed (use k'(2) ok in \<open>auto simp: timers_ok_def\<close>)
  moreover have "val k' = (val k)(?x := v)" using k'(6) by (simp add: fun_eq_iff)
  ultimately show thesis using that [OF k'(1)] k'(3) more unfolding k'(6) by blast
qed

section \<open>Expiry times\<close>

text \<open>
  The two tests of \<open>prvInsertTimerInActiveList\<close> decide, whatever side of the wrap of the tick
  counter the times are on, whether the period has passed since the command.
\<close>

lemma expiry_test:
  fixes cmd p now :: u32
  shows "(if cmd + p \<le> now then p \<le> now - cmd else now < cmd \<and> cmd \<le> cmd + p) \<longleftrightarrow> p \<le> now - cmd"
  using unat_u32_less [of cmd] unat_u32_less [of p] unat_u32_less [of now]
  by (auto simp: word_le_nat_alt word_less_nat_alt unat_plus_if' unat_sub_if' split: if_splits)

lemma time_left:
  fixes cmd p now :: u32
  assumes "\<not> p \<le> now - cmd"
  shows "unat (cmd + p - now) = unat p - unat (now - cmd)"
    "cmd + p \<le> now \<longleftrightarrow> 2 ^ 32 \<le> unat now + (unat p - unat (now - cmd))"
  using assms unat_u32_less [of cmd] unat_u32_less [of p] unat_u32_less [of now]
  by (auto simp: word_le_nat_alt word_less_nat_alt unat_plus_if' unat_sub_if' split: if_splits)

text \<open>
  The timer list on which an expiry that is \<open>left\<close> ticks ahead belongs: the overflow list if the
  tick counter wraps until then.
\<close>

definition list_for :: "u32 \<Rightarrow> nat \<Rightarrow> 'a timers_scheme \<Rightarrow> u32" where
  "list_for now left k = (if unat now + left < 2 ^ 32 then pxCurrentTimerList k else pxOverflowTimerList k)"

definition filed :: "u32 \<Rightarrow> u32 \<Rightarrow> u32 \<Rightarrow> 'a timers_scheme \<Rightarrow> list_map \<Rightarrow> 'a timers_scheme \<Rightarrow> list_map \<Rightarrow> bool" where
  "filed l t v k M k' M' \<longleftrightarrow> (\<exists>c. M' = M(l \<mapsto> c)) \<and> timers_ok k' M' \<and> val k' = (val k)(xTimerListItem t := v) \<and>
     in_order M' l = ordered_insert (val k') (xTimerListItem t) (in_order M l)"

lemma prvInsertTimer_eq:
  assumes "p = xTimerPeriodInTicks (tmr k t)"
  shows "prvInsertTimerInActiveList t (cmd + p) now cmd k =
    (if p \<le> now - cmd then Some (True, aim t (cmd + p) k)
     else map_option (\<lambda>k. (False, k))
       (vListInsert (if cmd + p \<le> now then pxOverflowTimerList k else pxCurrentTimerList k) (xTimerListItem t) (aim t (cmd + p) k)))"
  using expiry_test [of cmd p now] assms
  by (auto simp: prvInsertTimerInActiveList_def Let_def simp flip: aim_def split: if_splits Option.bind_splits)

lemma insert_timer:
  assumes ok: "timers_ok k M" and x: "free_item M (xTimerListItem t)" and p: "p = xTimerPeriodInTicks (tmr k t)"
  shows "p \<le> now - cmd \<Longrightarrow> prvInsertTimerInActiveList t (cmd + p) now cmd k = Some (True, aim t (cmd + p) k)"
    and "\<not> p \<le> now - cmd \<Longrightarrow> \<exists>k' M'. prvInsertTimerInActiveList t (cmd + p) now cmd k = Some (False, k') \<and>
      filed (list_for now (unat p - unat (now - cmd)) k) t (cmd + p) k M k' M' \<and> list_store.more k' = list_store.more k"
proof -
  show "prvInsertTimerInActiveList t (cmd + p) now cmd k = Some (True, aim t (cmd + p) k)" if "p \<le> now - cmd"
    using that by (simp add: prvInsertTimer_eq [OF p])
  assume n: "\<not> p \<le> now - cmd"
  let ?l = "list_for now (unat p - unat (now - cmd)) k"
  have l: "(if cmd + p \<le> now then pxOverflowTimerList k else pxCurrentTimerList k) = ?l"
    using time_left(2) [OF n] by (simp add: list_for_def not_less)
  have "?l \<in> {pxCurrentTimerList k, pxOverflowTimerList k}" by (simp add: list_for_def)
  then obtain k' c where k': "vListInsert ?l (xTimerListItem t) (aim t (cmd + p) k) = Some k'" "timers_ok k' (M(?l \<mapsto> c))"
    "in_order (M(?l \<mapsto> c)) ?l = ordered_insert (val k') (xTimerListItem t) (in_order M ?l)"
    "val k' = (val k)(xTimerListItem t := cmd + p)" "list_store.more k' = list_store.more k"
    by (rule insert_timer_ok [OF ok x])
  have "prvInsertTimerInActiveList t (cmd + p) now cmd k = Some (False, k')"
    unfolding prvInsertTimer_eq [OF p] l using n k'(1) by simp
  moreover have "filed ?l t (cmd + p) k M k' (M(?l \<mapsto> c))" using k'(2,3,4) unfolding filed_def by blast
  ultimately show "\<exists>k' M'. prvInsertTimerInActiveList t (cmd + p) now cmd k = Some (False, k') \<and>
      filed ?l t (cmd + p) k M k' M' \<and> list_store.more k' = list_store.more k" using k'(5) by blast
qed

section \<open>Taking a timer off its list\<close>

text \<open>The first timer of a list; what is left after it is taken off.\<close>

lemma value_of_head_eq:
  assumes "lists_ok k M" "in_order M l = x # xs"
  shows "value_of_head l k = val k x"
proof -
  obtain c where c: "M l = Some c" "fst c @ snd c = x # xs" using assms(2) by (cases "M l") (auto simp: in_order_def)
  then have "ring k (xListEnd l) (x # xs)" using lists_okD [OF assms(1) c(1)] by (simp add: list_rep_def)
  then show ?thesis using ring_neighbours(1) [of k "xListEnd l" "[]" "x # xs"]
    by (simp add: value_of_head_def)
qed

lemma take_timer:
  assumes ok: "timers_ok k M" and l: "l \<in> {pxCurrentTimerList k, pxOverflowTimerList k}" and h: "in_order M l = x # xs"
  defines "M' \<equiv> drop_item l x M"
  shows "x = xTimerListItem (listGET_OWNER_OF_HEAD_ENTRY l k)" "value_of_head l k = val k x" "\<not> list_empty l k"
    "timers_ok (snd (uxListRemove x k)) M'" "free_item M' x" "in_order M' l = xs"
    "l' \<noteq> l \<Longrightarrow> in_order M' l' = in_order M l'" "\<forall>y \<in> set xs. val k x \<le> val k y"
proof -
  have lk: "lists_ok k M" and ld: "l \<in> dom M" and s: "sorted (map (val k) (x # xs))"
    using ok l unfolding timers_ok_def h [symmetric] by blast+
  have xin: "x \<in> set (in_order M l)" unfolding h by simp
  then have own: "x = xTimerListItem (pvOwner (itm k x))" using ok l unfolding timers_ok_def by blast
  show "x = xTimerListItem (listGET_OWNER_OF_HEAD_ENTRY l k)" using own head_entry [OF lk h] by simp
  show "value_of_head l k = val k x" by (rule value_of_head_eq [OF lk h])
  show "\<forall>y \<in> set xs. val k x \<le> val k y" using s by simp
  obtain c where c: "M l = Some c" "fst c @ snd c = x # xs" using ld h by (auto simp: in_order_def)
  show "\<not> list_empty l k" using list_rep_empty [OF lists_okD [OF lk c(1)]] c(2) by simp
  have m: "x \<in> set (members M l)" using xin by (simp only: set_in_order)
  show "free_item M' x" unfolding M'_def by (rule drop_ok(2) [OF lk m])
  have d: "distinct (x # xs)" using lists_okD [OF lk c(1)] c(2) by (simp add: list_rep_def ring_def)
  show io: "in_order M' l = xs"
  proof -
    have "remove1 x (fst c) @ remove1 x (snd c) = xs"
      using c(2) d by (cases "fst c") (auto simp: remove1_idem)
    then show ?thesis using c(1) by (simp add: M'_def drop_item_def in_order_def)
  qed
  show oth: "in_order M' l' = in_order M l'" if "l' \<noteq> l" for l' using that by (simp add: M'_def drop_item_def in_order_def)
  show "timers_ok (snd (uxListRemove x k)) M'"
    unfolding timers_ok_def timer_frame
  proof (intro conjI ballI)
    show "lists_ok (snd (uxListRemove x k)) M'" unfolding M'_def by (rule drop_ok(1) [OF lk m])
    show "pxCurrentTimerList k \<noteq> pxOverflowTimerList k" using ok by (simp add: timers_ok_def)
    fix l' assume l': "l' \<in> {pxCurrentTimerList k, pxOverflowTimerList k}"
    show "l' \<in> dom M'" using l' ok ld by (auto simp: timers_ok_def M'_def)
    have sub: "set (in_order M' l') \<subseteq> set (in_order M l')" "sorted (map (val k) (in_order M' l'))"
    proof -
      show "set (in_order M' l') \<subseteq> set (in_order M l')" using io oth [of l'] h by (cases "l' = l") (auto simp del: set_in_order)
      have "sorted (map (val k) (in_order M l'))" using ok l' unfolding timers_ok_def by blast
      then show "sorted (map (val k) (in_order M' l'))" using io oth [of l'] s by (cases "l' = l") simp_all
    qed
    then show "sorted (map (val (snd (uxListRemove x k))) (in_order M' l'))" by (simp only: item_frame)
    fix y assume "y \<in> set (in_order M' l')"
    then have "y = xTimerListItem (pvOwner (itm k y))" using sub(1) ok l' unfolding timers_ok_def by blast
    then show "y = xTimerListItem (pvOwner (itm (snd (uxListRemove x k)) y))" by simp
  qed
qed

section \<open>What the timer task runs\<close>

text \<open>
  Callbacks that only change the application's state, which is the part of the state behind the
  kernel's; and a queue on which no task waits to receive, which is the case whenever the timer
  task, its only receiver, runs.
\<close>

definition quiet :: "('a timers_scheme) timer_env \<Rightarrow> (u32 \<Rightarrow> u32 \<Rightarrow> 'a \<Rightarrow> 'a) \<Rightarrow> bool" where
  "quiet E c \<longleftrightarrow> (\<forall>f t k. callback E f t k = Some (timers.more_update (c f t) k))"

definition no_receiver :: "'a timers_scheme \<Rightarrow> bool" where
  "no_receiver k \<longleftrightarrow> list_empty (xTasksWaitingToReceive (xTimerQueue k)) k \<and> uxItemSize (que k (xTimerQueue k)) = 12"

definition same_timers :: "'a timers_scheme \<Rightarrow> 'a timers_scheme \<Rightarrow> bool" where
  "same_timers k k' \<longleftrightarrow> itm k' = itm k \<and> lst k' = lst k \<and> tmr k' = tmr k \<and> pxCurrentTimerList k' = pxCurrentTimerList k \<and>
     pxOverflowTimerList k' = pxOverflowTimerList k \<and> xTimerQueue k' = xTimerQueue k \<and> xLastTime k' = xLastTime k \<and>
     timers.more k' = timers.more k \<and> uxItemSize (que k' (xTimerQueue k)) = uxItemSize (que k (xTimerQueue k))"

lemma same_timers_refl [simp]: "same_timers k k"
  by (simp add: same_timers_def)

lemma same_timers_ok: "same_timers k k' \<Longrightarrow> timers_ok k M \<Longrightarrow> timers_ok k' M"
  by (simp add: same_timers_def timers_ok_def lists_ok_def list_rep_def ring_def)

lemma same_timers_no_receiver: "same_timers k k' \<Longrightarrow> no_receiver k \<Longrightarrow> no_receiver k'"
  by (simp add: same_timers_def no_receiver_def list_empty_def)

lemma copy_same_timers:
  fixes k :: "'a timers_scheme"
  assumes "q = xTimerQueue k" "uxItemSize (que k q) \<noteq> 0"
  shows "same_timers k (prvCopyDataToQueue q item queueSEND_TO_BACK k)"
  using assms by (simp add: prvCopyDataToQueue_def same_timers_def upd_que_def Let_def)

lemma send_same_timers:
  fixes k :: "'a timers_scheme"
  assumes "no_receiver k"
  shows "\<exists>k'. send_start E t v k = Some k' \<and> same_timers k k'"
proof -
  let ?q = "xTimerQueue k"
  have now: "same_timers k (send_now ?q item queueSEND_TO_BACK k)" for item
  proof -
    have c: "same_timers k (prvCopyDataToQueue ?q item queueSEND_TO_BACK k)"
      by (rule copy_same_timers) (use assms in \<open>simp_all add: no_receiver_def\<close>)
    then have "list_empty (xTasksWaitingToReceive ?q) (prvCopyDataToQueue ?q item queueSEND_TO_BACK k)"
      using assms by (simp add: no_receiver_def list_empty_def same_timers_def)
    then show ?thesis using c by (simp add: send_now_def wake_waiter_def)
  qed
  have "\<exists>r k'. xQueueGenericSend (others E) (irqs E) ?q item 0 queueSEND_TO_BACK k = Some (r, k') \<and> same_timers k k'" for item
    unfolding xQueueGenericSend_def by (subst send_loop.simps) (use now [of item] in auto)
  then obtain r k' where s: "xQueueGenericSend (others E) (irqs E) ?q
      (message_bytes \<lparr>xMessageID = tmrCOMMAND_START, xMessageValue = v, msg_pxTimer = t\<rparr>) 0 queueSEND_TO_BACK k = Some (r, k')"
    "same_timers k k'" by blast
  show ?thesis
  proof (cases "?q = 0")
    case False
    then have "send_start E t v k = Some k'" using s(1) by (simp add: send_start_def xTimerGenericCommand_def Let_def)
    then show ?thesis using s(2) by simp
  qed (simp add: send_start_def xTimerGenericCommand_def)
qed

text \<open>Whether the loop puts a timer back on the current list: it reloads and the next expiry is still before the wrap.\<close>

definition again :: "'a timers_scheme \<Rightarrow> u32 \<Rightarrow> u32 \<Rightarrow> bool" where
  "again k t v \<longleftrightarrow> uxAutoReload (tmr k t) = 1 \<and> v < v + xTimerPeriodInTicks (tmr k t)"

definition timer_fields :: "'a timers_scheme \<Rightarrow> (u32 \<Rightarrow> xTIMER) \<times> u32 \<times> u32 \<times> u32 \<times> u32" where
  "timer_fields k = (tmr k, pxCurrentTimerList k, pxOverflowTimerList k, xTimerQueue k, xLastTime k)"

text \<open>
  One trip of the loop. The waiting list of the timer queue is a list of its own, so that its header
  does not change either.
\<close>

definition apart :: "'a timers_scheme \<Rightarrow> bool" where
  "apart k \<longleftrightarrow> xTasksWaitingToReceive (xTimerQueue k) \<notin> {pxCurrentTimerList k, pxOverflowTimerList k}"

lemma more_update_simps [simp]:
  "itm (timers.more_update g k) = itm k" "lst (timers.more_update g k) = lst k" "tmr (timers.more_update g k) = tmr k"
  "pxCurrentTimerList (timers.more_update g k) = pxCurrentTimerList k"
  "pxOverflowTimerList (timers.more_update g k) = pxOverflowTimerList k"
  "xTimerQueue (timers.more_update g k) = xTimerQueue k" "xLastTime (timers.more_update g k) = xLastTime k"
  "que (timers.more_update g k) = que k" "timers.more (timers.more_update g k) = g (timers.more k)"
  by (cases k; simp)+

lemma timers_ok_more_update: "timers_ok (timers.more_update g k) M \<longleftrightarrow> timers_ok k M"
  by (simp add: timers_ok_def lists_ok_def list_rep_def ring_def)

lemma lst_Insert: "vListInsert l x k = Some k' \<Longrightarrow> l' \<noteq> l \<Longrightarrow> lst k' l' = lst k l'"
  by (auto simp: vListInsert_def upd_item_def upd_list_def Let_def split: if_splits Option.bind_splits)

lemma lst_aim [simp]: "lst (aim t v k) = lst k"
  by (simp add: aim_def)

lemma no_receiver_frame:
  assumes "no_receiver k" "apart k" "que k' = que k" "xTimerQueue k' = xTimerQueue k"
    "\<And>l. l \<notin> {pxCurrentTimerList k, pxOverflowTimerList k} \<Longrightarrow> lst k' l = lst k l"
  shows "no_receiver k'"
  using assms by (simp add: no_receiver_def apart_def list_empty_def)

lemma take_frame:
  assumes ok: "timers_ok k M" and l: "l \<in> {pxCurrentTimerList k, pxOverflowTimerList k}" and h: "in_order M l = x # xs"
    and l': "l' \<notin> {pxCurrentTimerList k, pxOverflowTimerList k}"
  shows "lst (snd (uxListRemove x k)) l' = lst k l'"
proof -
  obtain c where c: "M l = Some c" "fst c @ snd c = x # xs" using h by (cases "M l") (auto simp: in_order_def)
  have lk: "lists_ok k M" using ok by (simp add: timers_ok_def)
  have r: "list_rep k l (fst c) (snd c)" by (rule lists_okD [OF lk c(1)])
  have "x \<in> set (fst c @ snd c)" unfolding c(2) by simp
  moreover have "l' \<noteq> l" using l l' by blast
  ultimately show ?thesis using uxListRemove_rep(5) [OF r] by blast
qed

text \<open>The state in front of the reload: the timer is off its list and its callback has run.\<close>

definition called :: "(u32 \<Rightarrow> u32 \<Rightarrow> 'a \<Rightarrow> 'a) \<Rightarrow> u32 \<Rightarrow> 'a timers_scheme \<Rightarrow> 'a timers_scheme" where
  "called c t k = timers.more_update (c (pxCallbackFunction (tmr k t)) t) (snd (uxListRemove (xTimerListItem t) k))"

lemma called_simps [simp]:
  "itm (called c t k) = itm (snd (uxListRemove (xTimerListItem t) k))" "lst (called c t k) = lst (snd (uxListRemove (xTimerListItem t) k))"
  "tmr (called c t k) = tmr k" "pxCurrentTimerList (called c t k) = pxCurrentTimerList k"
  "pxOverflowTimerList (called c t k) = pxOverflowTimerList k" "xTimerQueue (called c t k) = xTimerQueue k"
  "xLastTime (called c t k) = xLastTime k" "que (called c t k) = que k"
  "timers.more (called c t k) = c (pxCallbackFunction (tmr k t)) t (timers.more k)"
  by (simp_all add: called_def que_more [OF more_Remove])

lemma run_out_unfold:
  assumes q: "quiet E c" and ne: "\<not> list_empty (pxCurrentTimerList k) k"
    and t: "t = listGET_OWNER_OF_HEAD_ENTRY (pxCurrentTimerList k) k" and v: "v = value_of_head (pxCurrentTimerList k) k"
  shows "run_out E k =
    (if again k t v
     then Option.bind (vListInsert (pxCurrentTimerList k) (xTimerListItem t) (aim t (v + xTimerPeriodInTicks (tmr k t)) (called c t k))) (run_out E)
     else if uxAutoReload (tmr k t) = 1 then Option.bind (send_start E t v (called c t k)) (run_out E)
     else run_out E (called c t k))"
proof -
  have cb: "callback E (pxCallbackFunction (tmr k t)) t (snd (uxListRemove (xTimerListItem t) k)) = Some (called c t k)"
    using q by (simp add: quiet_def called_def)
  show ?thesis
    by (subst run_out.simps) (simp add: ne cb again_def Let_def flip: t v aim_def)
qed

lemma run_out_step:
  assumes ok: "timers_ok k M" and h: "in_order M (pxCurrentTimerList k) = x # xs" and q: "quiet E c"
    and r: "no_receiver k" "apart k"
  defines "t \<equiv> listGET_OWNER_OF_HEAD_ENTRY (pxCurrentTimerList k) k"
  obtains k' M' where "run_out E k = run_out E k'" "timers_ok k' M'" "timer_fields k' = timer_fields k" "no_receiver k'"
    "timers.more k' = c (pxCallbackFunction (tmr k t)) t (timers.more k)"
    "in_order M' (pxOverflowTimerList k) = in_order M (pxOverflowTimerList k)"
    "val k' = (if again k t (val k x) then (val k)(x := val k x + xTimerPeriodInTicks (tmr k t)) else val k)"
    "in_order M' (pxCurrentTimerList k) = (if again k t (val k x) then ordered_insert (val k') x xs else xs)"
    "x = xTimerListItem t"
proof -
  let ?l = "pxCurrentTimerList k" and ?k = "called c t k" and ?M = "drop_item (pxCurrentTimerList k) x M"
    and ?v = "val k x" and ?p = "xTimerPeriodInTicks (tmr k t)"
  note T = take_timer [OF ok _ h, simplified]
  have x: "x = xTimerListItem t" unfolding t_def by (rule T(1))
  have ne: "?l \<noteq> pxOverflowTimerList k" using ok by (simp add: timers_ok_def)
  have run: "run_out E k = (if again k t ?v
     then Option.bind (vListInsert ?l x (aim t (?v + ?p) ?k)) (run_out E)
     else if uxAutoReload (tmr k t) = 1 then Option.bind (send_start E t ?v ?k) (run_out E) else run_out E ?k)"
    unfolding x by (rule run_out_unfold [OF q T(3) t_def [THEN meta_eq_to_obj_eq]]) (simp add: T(2) flip: x)
  have ok1: "timers_ok ?k ?M" using T(4) by (simp add: called_def timers_ok_more_update flip: x)
  have v1: "val ?k = val k" by (simp flip: x)
  have nr: "no_receiver ?k"
    by (rule no_receiver_frame [OF r]) (use take_frame [OF ok _ h] in \<open>auto simp flip: x\<close>)
  have ap: "apart ?k" using r(2) by (simp add: apart_def)
  have io1: "in_order ?M ?l = xs" "in_order ?M (pxOverflowTimerList k) = in_order M (pxOverflowTimerList k)"
    using T(6,7) ne by auto
  show thesis
  proof (cases "again k t ?v")
    case True
    have fr: "free_item ?M (xTimerListItem t)" using T(5) x by simp
    have lc: "?l \<in> {pxCurrentTimerList ?k, pxOverflowTimerList ?k}" by simp
    obtain k' d where k': "vListInsert ?l (xTimerListItem t) (aim t (?v + ?p) ?k) = Some k'" "timers_ok k' (?M(?l \<mapsto> d))"
      "in_order (?M(?l \<mapsto> d)) ?l = ordered_insert (val k') (xTimerListItem t) (in_order ?M ?l)"
      "val k' = (val ?k)(xTimerListItem t := ?v + ?p)" "list_store.more k' = list_store.more ?k"
      by (rule insert_timer_ok [OF ok1 fr lc])
    have "no_receiver k'"
      by (rule no_receiver_frame [OF nr ap])
        (use que_more [OF k'(5)] tmr_more [OF k'(5)] lst_Insert [OF k'(1)] in auto)
    moreover have "timer_fields k' = timer_fields k" using tmr_more [OF k'(5)] by (simp add: timer_fields_def)
    moreover have "timers.more k' = c (pxCallbackFunction (tmr k t)) t (timers.more k)" using tmr_more [OF k'(5)] by simp
    moreover have "in_order (?M(?l \<mapsto> d)) (pxOverflowTimerList k) = in_order M (pxOverflowTimerList k)"
      using io1(2) ne by (simp add: in_order_upd)
    moreover have "run_out E k = run_out E k'" using run True k'(1) x by simp
    ultimately show thesis using that [of k' "?M(?l \<mapsto> d)"] True k'(2,3,4) io1(1) v1 x by simp
  next
    case False
    show thesis
    proof (cases "uxAutoReload (tmr k t) = 1")
      case True
      obtain k' where k': "send_start E t ?v ?k = Some k'" "same_timers ?k k'" using send_same_timers [OF nr] by blast
      have "timers_ok k' ?M" "no_receiver k'"
        using same_timers_ok [OF k'(2) ok1] same_timers_no_receiver [OF k'(2) nr] by simp_all
      moreover have "run_out E k = run_out E k'" using run False True k'(1) by simp
      ultimately show thesis using that [of k' ?M] k'(2) False io1 v1 x by (simp add: same_timers_def timer_fields_def)
    next
      case n: False
      then have "run_out E k = run_out E ?k" using run False by simp
      then show thesis using that [of ?k ?M] ok1 nr False io1 v1 x by (simp add: timer_fields_def)
    qed
  qed
qed

text \<open>
  How often a timer that expires at \<open>v\<close> runs until the tick counter wraps: once, and for a reloading
  timer at every further period that ends before the wrap.
\<close>

definition calls :: "xTIMER \<Rightarrow> u32 \<Rightarrow> nat" where
  "calls r v = (if uxAutoReload r = 1 then Suc ((2 ^ 32 - 1 - unat v) div unat (xTimerPeriodInTicks r)) else 1)"

lemma calls_step:
  assumes "uxAutoReload (tmr k t) = 1 \<Longrightarrow> xTimerPeriodInTicks (tmr k t) \<noteq> 0"
  shows "calls (tmr k t) v = (if again k t v then Suc (calls (tmr k t) (v + xTimerPeriodInTicks (tmr k t))) else 1)"
proof (cases "uxAutoReload (tmr k t) = 1")
  case True
  let ?p = "xTimerPeriodInTicks (tmr k t)"
  have p: "0 < unat ?p" using assms [OF True] by (simp add: unat_gt_0)
  have lt: "unat v < 2 ^ 32" "unat ?p < 2 ^ 32" by (rule unat_u32_less)+
  have ag: "again k t v \<longleftrightarrow> unat v + unat ?p < 2 ^ 32"
    using p lt True by (auto simp: again_def word_less_nat_alt unat_plus_if')
  show ?thesis
  proof (cases "again k t v")
    case y: True
    then have s: "unat (v + ?p) = unat v + unat ?p" using ag by (simp add: unat_plus_if')
    have "2 ^ 32 - 1 - unat v = unat ?p + (2 ^ 32 - 1 - unat (v + ?p))" using s ag y by linarith
    then have "(2 ^ 32 - 1 - unat v) div unat ?p = Suc ((2 ^ 32 - 1 - unat (v + ?p)) div unat ?p)"
      using p by (simp add: div_add_self1)
    then show ?thesis using y True by (simp add: calls_def)
  next
    case n: False
    then have "\<not> unat v + unat ?p < 2 ^ 32" using ag by simp
    then have "2 ^ 32 - 1 - unat v < unat ?p" using p by linarith
    then show ?thesis using n True by (simp add: calls_def)
  qed
qed (simp add: calls_def again_def)

definition ticks_left :: "'a timers_scheme \<Rightarrow> list_map \<Rightarrow> nat" where
  "ticks_left k M = sum_list (map (\<lambda>x. 2 ^ 32 - unat (val k x)) (in_order M (pxCurrentTimerList k)))"

lemma sum_ordered_insert: "sum_list (map f (ordered_insert v x xs)) = f x + sum_list (map f xs)" for f :: "u32 \<Rightarrow> nat"
proof -
  have "sum_list (map f xs) = sum_list (map f (takeWhile (\<lambda>y. v y \<le> v x) xs)) + sum_list (map f (dropWhile (\<lambda>y. v y \<le> v x) xs))"
    by (metis map_append sum_list_append takeWhile_dropWhile_id)
  then show ?thesis by (simp add: ordered_insert_def)
qed

lemma ticks_left_step:
  assumes "in_order M l = x # xs" "x \<notin> set xs" "l = pxCurrentTimerList k" "l = pxCurrentTimerList k'"
    "val k' = (if again k t (val k x) then (val k)(x := val k x + xTimerPeriodInTicks (tmr k t)) else val k)"
    "in_order M' l = (if again k t (val k x) then ordered_insert (val k') x xs else xs)"
  shows "ticks_left k' M' < ticks_left k M"
proof (cases "again k t (val k x)")
  case True
  let ?v = "val k x" and ?p = "xTimerPeriodInTicks (tmr k t)"
  have v: "val k' = (val k)(x := ?v + ?p)" using assms(5) True by simp
  let ?S = "sum_list (map (\<lambda>x. 2 ^ 32 - unat (val k x)) xs)"
  have "map (\<lambda>x. 2 ^ 32 - unat (val k' x)) xs = map (\<lambda>x. 2 ^ 32 - unat (val k x)) xs"
    using assms(2) by (auto simp: fun_cong [OF v])
  then have a: "ticks_left k' M' = (2 ^ 32 - unat (val k' x)) + ?S"
    using assms(4,6) True unfolding ticks_left_def by (simp only: if_True sum_ordered_insert flip: assms(4))
  have "val k' x = ?v + ?p" by (simp add: fun_cong [OF v])
  note a [unfolded this]
  moreover have "ticks_left k M = (2 ^ 32 - unat ?v) + ?S" using assms(1,3) by (simp add: ticks_left_def)
  moreover have "unat ?v < unat (?v + ?p)" using True by (simp add: again_def word_less_nat_alt)
  moreover have "unat (?v + ?p) < 2 ^ 32" by (rule unat_u32_less)
  ultimately show ?thesis by linarith
next
  case False
  then have "val k' = val k" using assms(5) by simp
  then have "val k' y = val k y" for y by (rule fun_cong)
  then show ?thesis using False assms(1,3,4,6) unat_u32_less [of "val k x"] by (simp add: ticks_left_def)
qed

lemma item_inj [simp]: "xTimerListItem s = xTimerListItem t \<longleftrightarrow> s = t"
  by (simp add: xTimerListItem_def)

definition count_calls :: "'a timers_scheme \<Rightarrow> u32 list \<Rightarrow> u32 \<Rightarrow> nat" where
  "count_calls k xs s = (if xTimerListItem s \<in> set xs then calls (tmr k s) (val k (xTimerListItem s)) else 0)"

lemma run_out_ok:
  assumes "timers_ok k M" "quiet E c" "no_receiver k" "apart k"
    "\<forall>t. uxAutoReload (tmr k t) = 1 \<longrightarrow> xTimerPeriodInTicks (tmr k t) \<noteq> 0"
  shows "\<exists>k' M' ts. run_out E k = Some k' \<and> timers_ok k' M' \<and> timer_fields k' = timer_fields k \<and>
    in_order M' (pxCurrentTimerList k) = [] \<and> in_order M' (pxOverflowTimerList k) = in_order M (pxOverflowTimerList k) \<and>
    timers.more k' = fold (\<lambda>t. c (pxCallbackFunction (tmr k t)) t) ts (timers.more k) \<and>
    (\<forall>s. count_list ts s = count_calls k (in_order M (pxCurrentTimerList k)) s)"
  using assms
proof (induction "ticks_left k M" arbitrary: k M rule: less_induct)
  case less
  let ?l = "pxCurrentTimerList k"
  show ?case
  proof (cases "in_order M ?l")
    case Nil
    have lk: "lists_ok k M" and "?l \<in> dom M" using less.prems(1) by (simp_all add: timers_ok_def)
    then obtain d where d: "M ?l = Some d" by blast
    have "list_empty ?l k" using list_rep_empty [OF lists_okD [OF lk d]] d Nil by (simp add: in_order_def)
    then have "run_out E k = Some k" by (subst run_out.simps) simp
    then show ?thesis using less.prems(1) Nil by (intro exI [of _ k] exI [of _ M] exI [of _ "[]"]) (simp add: count_calls_def)
  next
    case (Cons x xs)
    define t where "t = listGET_OWNER_OF_HEAD_ENTRY ?l k"
    obtain k1 M1 where k1: "run_out E k = run_out E k1" "timers_ok k1 M1" "timer_fields k1 = timer_fields k" "no_receiver k1"
      "timers.more k1 = c (pxCallbackFunction (tmr k t)) t (timers.more k)"
      "in_order M1 (pxOverflowTimerList k) = in_order M (pxOverflowTimerList k)"
      "val k1 = (if again k t (val k x) then (val k)(x := val k x + xTimerPeriodInTicks (tmr k t)) else val k)"
      "in_order M1 ?l = (if again k t (val k x) then ordered_insert (val k1) x xs else xs)"
      "x = xTimerListItem t"
      unfolding t_def by (rule run_out_step [OF less.prems(1) Cons less.prems(2,3,4)])
    have f: "tmr k1 = tmr k" "pxCurrentTimerList k1 = ?l" "pxOverflowTimerList k1 = pxOverflowTimerList k" "xTimerQueue k1 = xTimerQueue k"
      using k1(3) by (simp_all add: timer_fields_def)
    have xs: "x \<notin> set xs"
      using take_timer(5,6) [OF less.prems(1) _ Cons] free_not_in_order by (metis insertI1)
    have "ticks_left k1 M1 < ticks_left k M"
      by (rule ticks_left_step [OF Cons xs refl f(2) [symmetric] k1(7,8)])
    moreover have "apart k1" using less.prems(4) f by (simp add: apart_def)
    ultimately obtain k' M' ts where k': "run_out E k1 = Some k'" "timers_ok k' M'" "timer_fields k' = timer_fields k1"
      "in_order M' ?l = []" "in_order M' (pxOverflowTimerList k) = in_order M1 (pxOverflowTimerList k)"
      "timers.more k' = fold (\<lambda>t. c (pxCallbackFunction (tmr k t)) t) ts (timers.more k1)"
      "\<forall>s. count_list ts s = count_calls k1 (in_order M1 ?l) s"
      using less.hyps [of k1 M1] k1(2,4) less.prems(2,5) unfolding f by blast
    have "count_list (t # ts) s = count_calls k (in_order M ?l) s" for s
    proof (cases "s = t")
      case True
      have p: "uxAutoReload (tmr k t) = 1 \<Longrightarrow> xTimerPeriodInTicks (tmr k t) \<noteq> 0" using less.prems(5) by blast
      have "val k1 x = (if again k t (val k x) then val k x + xTimerPeriodInTicks (tmr k t) else val k x)"
        using fun_cong [OF k1(7), of x] by simp
      then have "count_list ts t = (if again k t (val k x) then calls (tmr k t) (val k x + xTimerPeriodInTicks (tmr k t)) else 0)"
        using k'(7) f(1) k1(8,9) xs by (simp add: count_calls_def ordered_insert_set)
      then show ?thesis using True calls_step [OF p, of "val k x"] Cons k1(9) by (simp add: count_calls_def del: set_in_order)
    next
      case False
      then have "xTimerListItem s \<noteq> x" using k1(9) by simp
      moreover from this have "val k1 (xTimerListItem s) = val k (xTimerListItem s)"
        using fun_cong [OF k1(7), of "xTimerListItem s"] by simp
      ultimately show ?thesis
        using k'(7) f(1) k1(8) Cons False by (simp add: count_calls_def ordered_insert_set del: set_in_order)
    qed
    then show ?thesis using k1(1,3,5,6) k'
      by (intro exI [of _ k'] exI [of _ M'] exI [of _ "t # ts"]) simp
  qed
qed

section \<open>Properties\<close>

text \<open>
  C25. Starting a timer takes effect exactly \<open>p\<close> ticks after the command was given, whatever time has
  passed until the timer task handles it, and on either side of a wrap of the tick counter: if
  the period is over the timer is reported as expired at once and stays off the lists; otherwise it is
  filed, in order of expiry, on the current list, or on the overflow list if the counter wraps first,
  with an expiry time that is exactly the rest of the period ahead.
\<close>

theorem timer_start_exact:
  fixes now cmd :: u32
  assumes "timers_ok k M" "free_item M (xTimerListItem t)"
  defines "p \<equiv> xTimerPeriodInTicks (tmr k t)"
  defines "left \<equiv> unat p - unat (now - cmd)"
  shows "\<exists>k' M'. prvInsertTimerInActiveList t (cmd + p) now cmd k = Some (unat p \<le> unat (now - cmd), k') \<and> timers_ok k' M' \<and>
    tmr k' = tmr k \<and>
    (if unat p \<le> unat (now - cmd) then M' = M
     else filed (list_for now left k) t (cmd + p) k M k' M' \<and> unat (val k' (xTimerListItem t) - now) = left)"
proof (cases "p \<le> now - cmd")
  case True
  have "prvInsertTimerInActiveList t (cmd + p) now cmd k = Some (True, aim t (cmd + p) k)"
    by (rule insert_timer(1) [OF assms(1,2) _ True]) (simp add: p_def)
  then show ?thesis using True aim_ok [OF assms(1,2)] by (auto simp: word_le_nat_alt)
next
  case False
  have "\<exists>k' M'. prvInsertTimerInActiveList t (cmd + p) now cmd k = Some (False, k') \<and>
      filed (list_for now left k) t (cmd + p) k M k' M' \<and> list_store.more k' = list_store.more k"
    unfolding left_def by (rule insert_timer(2) [OF assms(1,2) _ False]) (simp add: p_def)
  then obtain k' M' where k': "prvInsertTimerInActiveList t (cmd + p) now cmd k = Some (False, k')"
    "filed (list_for now left k) t (cmd + p) k M k' M'" "list_store.more k' = list_store.more k" by blast
  have "val k' (xTimerListItem t) = cmd + p" "timers_ok k' M'"
    using k'(2) unfolding filed_def by (metis fun_upd_same, blast)
  then show ?thesis using k' tmr_more(1) [OF k'(3)] time_left(1) [OF False] False
    by (auto simp: word_le_nat_alt left_def intro!: exI [of _ k'] exI [of _ M'])
qed

text \<open>
  C26. When the tick counter has wrapped, switching the timer lists returns. Every timer that was still
  on the current list has run, a reloading one once for each of its periods that ended before the
  wrap; the overflow list, unchanged, has become the current list, and the new overflow list is
  empty. (Callbacks change only the application's state, reloading timers have a period, and no task
  waits on the command queue, whose only receiver is the timer task.)
\<close>

theorem timer_lists_switched:
  assumes "timers_ok k M" "quiet E c" "no_receiver k" "apart k"
    "\<forall>t. uxAutoReload (tmr k t) = 1 \<longrightarrow> xTimerPeriodInTicks (tmr k t) \<noteq> 0"
  shows "\<exists>k' M' ts. prvSwitchTimerLists E k = Some k' \<and> timers_ok k' M' \<and> tmr k' = tmr k \<and>
    pxCurrentTimerList k' = pxOverflowTimerList k \<and> pxOverflowTimerList k' = pxCurrentTimerList k \<and>
    in_order M' (pxCurrentTimerList k') = in_order M (pxOverflowTimerList k) \<and> in_order M' (pxOverflowTimerList k') = [] \<and>
    timers.more k' = fold (\<lambda>t. c (pxCallbackFunction (tmr k t)) t) ts (timers.more k) \<and>
    (\<forall>s. count_list ts s = (if xTimerListItem s \<in> set (in_order M (pxCurrentTimerList k))
       then calls (tmr k s) (val k (xTimerListItem s)) else 0))"
proof -
  obtain k1 M' ts where k1: "run_out E k = Some k1" "timers_ok k1 M'" "timer_fields k1 = timer_fields k"
    "in_order M' (pxCurrentTimerList k) = []" "in_order M' (pxOverflowTimerList k) = in_order M (pxOverflowTimerList k)"
    "timers.more k1 = fold (\<lambda>t. c (pxCallbackFunction (tmr k t)) t) ts (timers.more k)"
    "\<forall>s. count_list ts s = count_calls k (in_order M (pxCurrentTimerList k)) s"
    using run_out_ok [OF assms] by blast
  define k' where "k' = k1\<lparr>pxCurrentTimerList := pxOverflowTimerList k1, pxOverflowTimerList := pxCurrentTimerList k1\<rparr>"
  have "timers_ok k' M'"
    using k1(2) by (auto simp: k'_def timers_ok_def lists_ok_def list_rep_def ring_def)
  moreover have "prvSwitchTimerLists E k = Some k'" using k1(1) by (simp add: prvSwitchTimerLists_def k'_def)
  ultimately show ?thesis using k1(3-7)
    by (intro exI [of _ k'] exI [of _ M'] exI [of _ ts]) (simp add: k'_def timer_fields_def count_calls_def)
qed

text \<open>
  An expired timer runs once. A reloading timer is filed for one period after the time it was due,
  not after the time it was handled, so that delays of the timer task do not add up; if the next expiry
  is over as well, the timer is left to a command that restarts it, and a timer that does not
  reload is off the lists.
\<close>

theorem expired_timer_reloads:
  fixes now :: u32
  assumes ok: "timers_ok k M" and h: "in_order M (pxCurrentTimerList k) = x # xs" and q: "quiet E c"
    and r: "no_receiver k" "apart k"
  defines "t \<equiv> listGET_OWNER_OF_HEAD_ENTRY (pxCurrentTimerList k) k" and "v \<equiv> val k x"
  defines "p \<equiv> xTimerPeriodInTicks (tmr k t)"
  shows "\<exists>k' M'. prvProcessExpiredTimer E v now k = Some k' \<and> timers_ok k' M' \<and>
    timers.more k' = c (pxCallbackFunction (tmr k t)) t (timers.more k) \<and>
    (if uxAutoReload (tmr k t) = 1 \<and> now - v < p
     then x \<in> set (in_order M' (list_for now (unat p - unat (now - v)) k)) \<and> val k' x = v + p
     else free_item M' x)"
proof -
  let ?l = "pxCurrentTimerList k" and ?k = "snd (uxListRemove x k)" and ?M = "drop_item (pxCurrentTimerList k) x M"
  let ?run = "\<lambda>k :: 'a timers_scheme. timers.more_update (c (pxCallbackFunction (tmr k t)) t) k"
  note T = take_timer [OF ok _ h, simplified]
  have x: "x = xTimerListItem t" unfolding t_def by (rule T(1))
  have fr: "free_item ?M (xTimerListItem t)" using T(5) x by simp
  have cb: "callback E f t k = Some (timers.more_update (c f t) k)" for f k using q by (simp add: quiet_def)
  have unf: "prvProcessExpiredTimer E v now k = (if uxAutoReload (tmr k t) = 1
      then Option.bind (prvInsertTimerInActiveList t (v + p) now v ?k)
        (\<lambda>(e, k). Option.bind (if e then send_start E t v k else Some k) (\<lambda>k. Some (?run k)))
      else Some (?run ?k))"
    by (auto simp: prvProcessExpiredTimer_def Let_def cb p_def x simp flip: t_def split: Option.bind_splits)
  have p: "p = xTimerPeriodInTicks (tmr ?k t)" by (simp add: p_def)
  show ?thesis
  proof (cases "uxAutoReload (tmr k t) = 1")
    case False
    then have "prvProcessExpiredTimer E v now k = Some (?run ?k)" using unf by simp
    then show ?thesis using T(4,5) False
      by (intro exI [of _ "?run ?k"] exI [of _ ?M]) (simp add: timers_ok_more_update)
  next
    case auto: True
    show ?thesis
    proof (cases "p \<le> now - v")
      case True
      have ins: "prvInsertTimerInActiveList t (v + p) now v ?k = Some (True, aim t (v + p) ?k)"
        by (rule insert_timer(1) [OF T(4) fr p True])
      have n: "\<not> now - v < p" using True by (simp add: not_less)
      have nr: "no_receiver (aim t (v + p) ?k)"
        by (rule no_receiver_frame [OF r]) (use take_frame [OF ok _ h] in \<open>auto simp: que_more [OF aim_simps(1)]\<close>)
      obtain k' where k': "send_start E t v (aim t (v + p) ?k) = Some k'" "same_timers (aim t (v + p) ?k) k'"
        using send_same_timers [OF nr] by blast
      have "timers_ok k' ?M" by (rule same_timers_ok [OF k'(2) aim_ok [OF T(4) fr]])
      moreover have "prvProcessExpiredTimer E v now k = Some (?run k')" using unf auto ins k'(1) by simp
      ultimately show ?thesis using T(5) k'(2)
        by (intro exI [of _ "?run k'"] exI [of _ ?M]) (simp add: timers_ok_more_update same_timers_def n)
    next
      case False
      obtain k' M' where k': "prvInsertTimerInActiveList t (v + p) now v ?k = Some (False, k')"
        "filed (list_for now (unat p - unat (now - v)) ?k) t (v + p) ?k ?M k' M'" "list_store.more k' = list_store.more ?k"
        using insert_timer(2) [OF T(4) fr p False] by blast
      have l: "list_for now n ?k = list_for now n k" for n by (simp add: list_for_def)
      note F = k'(2) [unfolded filed_def l]
      have "val k' = (val ?k)(x := v + p)" using F unfolding x by blast
      then have "val k' x = v + p" using fun_cong [of "val k'" _ x] by simp
      moreover have "in_order M' (list_for now (unat p - unat (now - v)) k)
          = ordered_insert (val k') x (in_order ?M (list_for now (unat p - unat (now - v)) k))" using F unfolding x by blast
      then have "x \<in> set (in_order M' (list_for now (unat p - unat (now - v)) k))"
        by (simp add: ordered_insert_set del: set_in_order)
      moreover have "timers_ok k' M'" using F by blast
      moreover have "prvProcessExpiredTimer E v now k = Some (?run k')" using unf auto k'(1) by simp
      ultimately show ?thesis using auto False tmr_more [OF k'(3)]
        by (intro exI [of _ "?run k'"] exI [of _ M']) (simp add: timers_ok_more_update not_le)
    qed
  qed
qed

text \<open>
  The restart commands that the timer task sends to its own queue, which has room for four, are not
  repeated: when the queue is full the command is dropped, and the timer stays off the lists.
\<close>

theorem restart_lost_when_full:
  assumes "\<not> uxMessagesWaiting (que k (xTimerQueue k)) < uxLength (que k (xTimerQueue k))"
  shows "send_start E t v k = Some k"
proof -
  have "xQueueGenericSend (others E) (irqs E) (xTimerQueue k) m 0 queueSEND_TO_BACK k = Some (errQUEUE_FULL, k)" for m
    unfolding xQueueGenericSend_def by (subst send_loop.simps) (use assms in simp)
  then show ?thesis by (simp add: send_start_def xTimerGenericCommand_def Let_def)
qed

section \<open>Example\<close>

text \<open>
  Two timers on the current list shortly before the wrap, one of which reloads every 64 ticks, and a
  third that is not active; the application's state is the list of timers called.
\<close>

definition demo_items :: list_store where
  "demo_items =
    (let blank = \<lparr>itm = (\<lambda>a. \<lparr>xItemValue = a + 0xFFFFCEFC, pxNext = 0, pxPrevious = 0, pvOwner = a - 4, pvContainer = 0\<rparr>),
                  lst = (\<lambda>_. \<lparr>uxNumberOfItems = 0, pxIndex = 0\<rparr>)\<rparr>;
         s = vListInitialise 0x2000 (vListInitialise 0x1000 blank)
     in vListInsertEnd 0x1000 0x3024 (vListInsertEnd 0x1000 0x3004 s))"

definition demo_timer :: "u32 \<Rightarrow> xTIMER" where
  "demo_timer t = \<lparr>pcTimerName = 0, xTimerPeriodInTicks = 64, uxAutoReload = (if t = 0x3000 then 1 else 0), pvTimerID = 0,
     pxCallbackFunction = 0\<rparr>"

definition demo_timers :: "(u32 list) timers_scheme" where
  "demo_timers = timers.extend (queues.extend
      (reset_kernel (queues.fields (\<lambda>_. demo_ctrl\<lparr>uxItemSize := 12\<rparr>) [])\<lparr>itm := itm demo_items, lst := lst demo_items\<rparr>)
      (timers.fields demo_timer 0x1000 0x2000 0x1000 0x2000 0x4000 0)) []"

definition demo_env :: "((u32 list) timers_scheme) timer_env" where
  "demo_env = \<lparr>others = Some, irqs = (\<lambda>k. k), callback = (\<lambda>f t k. Some (timers.more_update ((#) t) k))\<rparr>"

definition demo_timer_map :: list_map where
  "demo_timer_map = [0x1000 \<mapsto> ([0x3004, 0x3024], []), 0x2000 \<mapsto> ([], [])]"

lemma demo_timers_fields [simp]:
  "itm demo_timers = itm demo_items" "lst demo_timers = lst demo_items" "tmr demo_timers = demo_timer"
  "pxCurrentTimerList demo_timers = 0x1000" "pxOverflowTimerList demo_timers = 0x2000" "xTimerQueue demo_timers = 0x4000"
  "que demo_timers = (\<lambda>_. demo_ctrl\<lparr>uxItemSize := 12\<rparr>)" "timers.more demo_timers = []"
  by (simp_all add: demo_timers_def timers.extend_def queues.extend_def timers.fields_def queues.fields_def reset_kernel_def)

lemma demo_items_rep:
  "list_rep demo_items 0x1000 [0x3004, 0x3024] []" "list_rep demo_items 0x2000 [] []"
  "val demo_items 0x3004 = 0xFFFFFF00" "val demo_items 0x3024 = 0xFFFFFF20"
  "pvOwner (itm demo_items 0x3004) = 0x3000" "pvOwner (itm demo_items 0x3024) = 0x3020"
  "uxNumberOfItems (lst demo_items 0x4024) = 0"
  by code_simp+

lemma demo_timers_ok: "timers_ok demo_timers demo_timer_map"
proof -
  have "list_rep demo_timers l p q \<longleftrightarrow> list_rep demo_items l p q" for l p q by (simp add: list_rep_def ring_def)
  then have "lists_ok demo_timers demo_timer_map"
    using demo_items_rep(1,2) by (auto simp: lists_ok_def demo_timer_map_def footprint_def xListEnd_def split: if_splits)
  then show ?thesis
    using demo_items_rep by (simp add: timers_ok_def demo_timer_map_def in_order_def xTimerListItem_def)
qed

lemma demo_free: "free_item demo_timer_map (xTimerListItem 0x3040)"
  by (auto simp: free_item_def demo_timer_map_def footprint_def xListEnd_def xTimerListItem_def split: if_splits)

theorem timer_start_exact_witness:
  "\<exists>k' M'. prvInsertTimerInActiveList 0x3040 0x30 0xFFFFFFF8 0xFFFFFFF0 demo_timers = Some (False, k') \<and>
     timers_ok k' M' \<and> in_order M' 0x2000 = [0x3044] \<and> unat (val k' 0x3044 - 0xFFFFFFF8) = 56"
proof -
  have e: "(0xFFFFFFF0 :: u32) + 64 = 0x30" by code_simp
  have "xTimerPeriodInTicks (tmr demo_timers 0x3040) = 64" by (simp add: demo_timer_def)
  then obtain k' M' where k': "prvInsertTimerInActiveList 0x3040 0x30 0xFFFFFFF8 0xFFFFFFF0 demo_timers = Some (False, k')"
    "timers_ok k' M'" "filed 0x2000 0x3040 0x30 demo_timers demo_timer_map k' M'"
    "unat (val k' (xTimerListItem 0x3040) - 0xFFFFFFF8) = 56"
    using timer_start_exact [OF demo_timers_ok demo_free, where now = "0xFFFFFFF8" and cmd = "0xFFFFFFF0"]
    unfolding e [symmetric] by (auto simp: list_for_def simp del: demo_timers_fields(3))
  have "in_order M' 0x2000 = [xTimerListItem 0x3040]"
    using k'(3) by (simp add: filed_def demo_timer_map_def in_order_def ordered_insert_def)
  then show ?thesis using k'(1,2,4) by (auto simp: xTimerListItem_def)
qed

theorem timer_lists_switched_witness:
  "\<exists>k' M' ts. prvSwitchTimerLists demo_env demo_timers = Some k' \<and> pxCurrentTimerList k' = 0x2000 \<and>
     in_order M' (pxOverflowTimerList k') = [] \<and> timers.more k' = fold (#) ts [] \<and> count_list ts 0x3000 = 4 \<and> count_list ts 0x3020 = 1"
proof -
  have q: "quiet demo_env (\<lambda>f. (#))" by (simp add: quiet_def demo_env_def)
  have r: "no_receiver demo_timers" "apart demo_timers"
    using demo_items_rep(7) by (simp_all add: no_receiver_def apart_def list_empty_def xTasksWaitingToReceive_def demo_ctrl_def)
  have p: "\<forall>t. uxAutoReload (tmr demo_timers t) = 1 \<longrightarrow> xTimerPeriodInTicks (tmr demo_timers t) \<noteq> 0" by (simp add: demo_timer_def)
  have c: "calls (demo_timer 0x3000) (val demo_items 0x3004) = 4" "calls (demo_timer 0x3020) (val demo_items 0x3024) = 1"
    by (simp_all add: calls_def demo_timer_def demo_items_rep)
  have i: "in_order demo_timer_map 0x1000 = [0x3004, 0x3024]" by (simp add: demo_timer_map_def in_order_def)
  obtain k' M' ts where k': "prvSwitchTimerLists demo_env demo_timers = Some k'" "pxCurrentTimerList k' = 0x2000"
    "in_order M' (pxOverflowTimerList k') = []" "timers.more k' = fold (#) ts []"
    "\<forall>s. count_list ts s = (if xTimerListItem s \<in> set (in_order demo_timer_map 0x1000)
       then calls (demo_timer s) (val demo_items (xTimerListItem s)) else 0)"
    using timer_lists_switched [OF demo_timers_ok q r p] unfolding demo_timers_fields by blast
  have "xTimerListItem 0x3000 = 0x3004" "xTimerListItem 0x3020 = 0x3024" by (simp_all add: xTimerListItem_def)
  then have "count_list ts 0x3000 = 4" "count_list ts 0x3020 = 1"
    unfolding k'(5) [rule_format] i using c by simp_all
  then show ?thesis using k'(1-4) by blast
qed

end
