(* ===== verification/Pbuf.thy ===== *)
theory Pbuf
  imports Prelude
begin

text \<open>
  Packet buffers, \<^verbatim>\<open>lwIP/core/pbuf.c\<close>, and the fixed-size pools they come from, \<^verbatim>\<open>lwIP/core/memp.c\<close>. A
  pbuf is a struct in a store indexed by its address, 0 is \<open>NULL\<close>; the payload is in the byte memory
  \<open>bmem\<close>. The free list of a pool is threaded through the first word of its elements, which is also
  the field \<open>next\<close> of a pbuf (\<open>MEMP_SIZE\<close> is 0), so a released pbuf has its \<open>next\<close> overwritten here too.

  What the pbuf code calls outside of these two files is an argument, a record \<open>pbuf_env\<close>: the heap
  of \<^verbatim>\<open>lwIP/core/mem.c\<close> (sizes are 16 bits there: \<open>MEM_SIZE\<close> is 6 KB), the function that a custom pbuf names for its release, and the request to the
  TCP/IP thread to drop out-of-sequence segments. A failed \<open>LWIP_ASSERT\<close> calls \<open>abort\<close> and does not
  return (\<open>None\<close>); a failed \<open>LWIP_ERROR\<close> runs its handler. The assertions on the alignment of fresh pool
  elements, which the layout of the pools guarantees, are left out.
\<close>

section \<open>Data\<close>

datatype pbuf_type = PBUF_RAM | PBUF_ROM | PBUF_REF | PBUF_POOL

datatype pbuf_layer = PBUF_TRANSPORT | PBUF_IP | PBUF_LINK | PBUF_RAW

datatype memp_t = MEMP_PBUF | MEMP_PBUF_POOL

datatype err_t = ERR_OK | ERR_ARG | ERR_VAL

record pbuf =
  pnext :: u32
  payload :: u32
  tot_len :: u16
  plen :: u16
  ptype :: pbuf_type
  flags :: u8
  ref :: u16

record 'h pbufs =
  pb :: "u32 \<Rightarrow> pbuf"
  bmem :: "u32 \<Rightarrow> u8"
  memp_tab :: "memp_t \<Rightarrow> u32"
  pbuf_free_ooseq_queued :: bool
  env_state :: 'h

record 'h pbuf_env =
  mem_malloc :: "u16 \<Rightarrow> 'h \<Rightarrow> u32 \<times> 'h"
  mem_free :: "u32 \<Rightarrow> 'h \<Rightarrow> 'h"
  mem_trim :: "u32 \<Rightarrow> u16 \<Rightarrow> 'h \<Rightarrow> u32 \<times> 'h"
  custom_free_function :: "u32 \<Rightarrow> 'h \<Rightarrow> 'h"
  tcpip_callback_with_block :: "'h \<Rightarrow> bool \<times> 'h"

abbreviation (input) PBUF_FLAG_IS_CUSTOM :: u8 where "PBUF_FLAG_IS_CUSTOM \<equiv> 0x02"
abbreviation (input) SIZEOF_STRUCT_PBUF :: nat where "SIZEOF_STRUCT_PBUF \<equiv> 16"
abbreviation (input) PBUF_POOL_BUFSIZE_ALIGNED :: nat where "PBUF_POOL_BUFSIZE_ALIGNED \<equiv> 1516"

definition upd_pb :: "u32 \<Rightarrow> (pbuf \<Rightarrow> pbuf) \<Rightarrow> 'h pbufs \<Rightarrow> 'h pbufs" where
  "upd_pb p f s = s\<lparr>pb := (pb s)(p := f (pb s p))\<rparr>"

definition LWIP_MEM_ALIGN_SIZE :: "nat \<Rightarrow> nat" where
  "LWIP_MEM_ALIGN_SIZE n = (n + 3) div 4 * 4"

definition LWIP_MEM_ALIGN :: "u32 \<Rightarrow> u32" where
  "LWIP_MEM_ALIGN a = (a + 3) AND NOT 3"

text \<open>\<open>memcpy\<close> of \<open>n\<close> bytes between regions that do not overlap.\<close>

definition mem_copy :: "u32 \<Rightarrow> u32 \<Rightarrow> u16 \<Rightarrow> (u32 \<Rightarrow> u8) \<Rightarrow> (u32 \<Rightarrow> u8)" where
  "mem_copy dst src n m = (\<lambda>a. if a - dst < ucast n then m (src + (a - dst)) else m a)"

section \<open>Pools\<close>

definition memp_malloc :: "memp_t \<Rightarrow> 'h pbufs \<Rightarrow> u32 \<times> 'h pbufs" where
  "memp_malloc type s =
    (let memp = memp_tab s type in
     if memp \<noteq> 0 then (memp, s\<lparr>memp_tab := (memp_tab s)(type := pnext (pb s memp))\<rparr>)
     else (memp, s))"

definition memp_free :: "memp_t \<Rightarrow> u32 \<Rightarrow> 'h pbufs \<Rightarrow> 'h pbufs" where
  "memp_free type mem s =
    (if mem = 0 then s
     else (let s = upd_pb mem (\<lambda>p. p\<lparr>pnext := memp_tab s type\<rparr>) s
           in s\<lparr>memp_tab := (memp_tab s)(type := mem)\<rparr>))"

definition pbuf_pool_is_empty :: "'h pbuf_env \<Rightarrow> 'h pbufs \<Rightarrow> 'h pbufs" where
  "pbuf_pool_is_empty env s =
    (let queued = pbuf_free_ooseq_queued s; s = s\<lparr>pbuf_free_ooseq_queued := True\<rparr> in
     if \<not> queued then
       (let (ok, h) = tcpip_callback_with_block env (env_state s); s = s\<lparr>env_state := h\<rparr>
        in if \<not> ok then s\<lparr>pbuf_free_ooseq_queued := False\<rparr> else s)
     else s)"

section \<open>Releasing\<close>

text \<open>One turn of the loop of \<open>pbuf_free\<close> for a pbuf whose count has reached 0.\<close>

definition pbuf_release :: "'h pbuf_env \<Rightarrow> u32 \<Rightarrow> 'h pbufs \<Rightarrow> 'h pbufs" where
  "pbuf_release env p s =
    (if flags (pb s p) AND PBUF_FLAG_IS_CUSTOM \<noteq> 0
     then s\<lparr>env_state := custom_free_function env p (env_state s)\<rparr>
     else if ptype (pb s p) = PBUF_POOL then memp_free MEMP_PBUF_POOL p s
     else if ptype (pb s p) = PBUF_ROM \<or> ptype (pb s p) = PBUF_REF then memp_free MEMP_PBUF p s
     else s\<lparr>env_state := mem_free env p (env_state s)\<rparr>)"

partial_function (option) pbuf_free_loop :: "'h pbuf_env \<Rightarrow> u32 \<Rightarrow> u8 \<Rightarrow> 'h pbufs \<Rightarrow> (u8 \<times> 'h pbufs) option" where
  "pbuf_free_loop env p count s =
    (if p = 0 then Some (count, s)
     else if ref (pb s p) = 0 then None
     else (let s = upd_pb p (\<lambda>b. b\<lparr>ref := ref b - 1\<rparr>) s
           in if ref (pb s p) = 0
              then pbuf_free_loop env (pnext (pb s p)) (count + 1) (pbuf_release env p s)
              else Some (count, s)))"

text \<open>\<open>pbuf_free(NULL)\<close> fails an assertion.\<close>

definition pbuf_free :: "'h pbuf_env \<Rightarrow> u32 \<Rightarrow> 'h pbufs \<Rightarrow> (u8 \<times> 'h pbufs) option" where
  "pbuf_free env p s = (if p = 0 then None else pbuf_free_loop env p 0 s)"

definition pbuf_ref :: "u32 \<Rightarrow> 'h pbufs \<Rightarrow> 'h pbufs" where
  "pbuf_ref p s = (if p \<noteq> 0 then upd_pb p (\<lambda>b. b\<lparr>ref := ref b + 1\<rparr>) s else s)"

section \<open>Allocation\<close>

definition layer_offset :: "pbuf_layer \<Rightarrow> nat" where
  "layer_offset layer = (case layer of PBUF_TRANSPORT \<Rightarrow> 20 + 20 + 14 | PBUF_IP \<Rightarrow> 20 + 14 | PBUF_LINK \<Rightarrow> 14 | PBUF_RAW \<Rightarrow> 0)"

text \<open>The loop that appends pool pbufs behind \<open>r\<close> until \<open>rem_len\<close> bytes fit; it fails with \<open>NULL\<close>.\<close>

partial_function (option) pool_chain_loop ::
  "'h pbuf_env \<Rightarrow> u32 \<Rightarrow> u32 \<Rightarrow> nat \<Rightarrow> 'h pbufs \<Rightarrow> (u32 \<times> 'h pbufs) option" where
  "pool_chain_loop env p r rem_len s =
    (if 0 < rem_len then
       (let qs = memp_malloc MEMP_PBUF_POOL s; q = fst qs; s = snd qs in
        if q = 0 then Option.bind (pbuf_free env p (pbuf_pool_is_empty env s)) (\<lambda>cs. Some (0, snd cs))
        else (let n = min rem_len PBUF_POOL_BUFSIZE_ALIGNED;
                  s = upd_pb q (\<lambda>b. b\<lparr>ptype := PBUF_POOL, flags := 0, pnext := 0\<rparr>) s;
                  s = upd_pb r (\<lambda>b. b\<lparr>pnext := q\<rparr>) s;
                  s = upd_pb q (\<lambda>b. b\<lparr>tot_len := of_nat rem_len, plen := of_nat n,
                        payload := q + of_nat SIZEOF_STRUCT_PBUF, ref := 1\<rparr>) s
              in pool_chain_loop env p q (rem_len - n) s))
     else Some (p, s))"

definition pbuf_alloc ::
  "'h pbuf_env \<Rightarrow> pbuf_layer \<Rightarrow> u16 \<Rightarrow> pbuf_type \<Rightarrow> 'h pbufs \<Rightarrow> (u32 \<times> 'h pbufs) option" where
  "pbuf_alloc env layer n_bytes type s =
    (let offset = layer_offset layer;
         finish = (\<lambda>p s. upd_pb p (\<lambda>b. b\<lparr>ref := 1, flags := 0\<rparr>) s)
     in case type of
       PBUF_POOL \<Rightarrow>
         (let (p, s) = memp_malloc MEMP_PBUF_POOL s in
          if p = 0 then Some (0, pbuf_pool_is_empty env s)
          else
            (let n = min (unat n_bytes) (PBUF_POOL_BUFSIZE_ALIGNED - LWIP_MEM_ALIGN_SIZE offset);
                 s = upd_pb p (\<lambda>b. b\<lparr>ptype := PBUF_POOL, pnext := 0,
                       payload := LWIP_MEM_ALIGN (p + of_nat (SIZEOF_STRUCT_PBUF + offset)),
                       tot_len := n_bytes, plen := of_nat n, ref := 1\<rparr>) s
             in do {
               (p, s) \<leftarrow> pool_chain_loop env p p (unat n_bytes - n) s;
               Some (p, if p = 0 then s else finish p s) }))
     | PBUF_RAM \<Rightarrow>
         (let (p, h) = mem_malloc env (of_nat (LWIP_MEM_ALIGN_SIZE (SIZEOF_STRUCT_PBUF + offset)
                + LWIP_MEM_ALIGN_SIZE (unat n_bytes))) (env_state s);
              s = s\<lparr>env_state := h\<rparr>
          in if p = 0 then Some (0, s)
             else Some (p, finish p (upd_pb p (\<lambda>b. b\<lparr>
               payload := LWIP_MEM_ALIGN (p + of_nat (SIZEOF_STRUCT_PBUF + offset)),
               plen := n_bytes, tot_len := n_bytes, pnext := 0, ptype := type\<rparr>) s)))
     | _ \<Rightarrow>
         (let (p, s) = memp_malloc MEMP_PBUF s
          in if p = 0 then Some (0, s)
             else Some (p, finish p (upd_pb p (\<lambda>b. b\<lparr>payload := 0, plen := n_bytes, tot_len := n_bytes,
               pnext := 0, ptype := type\<rparr>) s))))"

definition pbuf_alloced_custom ::
  "pbuf_layer \<Rightarrow> u16 \<Rightarrow> pbuf_type \<Rightarrow> u32 \<Rightarrow> u32 \<Rightarrow> u16 \<Rightarrow> 'h pbufs \<Rightarrow> u32 \<times> 'h pbufs" where
  "pbuf_alloced_custom l n_bytes type p payload_mem payload_mem_len s =
    (let offset = layer_offset l in
     if LWIP_MEM_ALIGN_SIZE offset + unat n_bytes < unat payload_mem_len then (0, s)
     else (p, upd_pb p (\<lambda>b. b\<lparr>pnext := 0,
            payload := (if payload_mem \<noteq> 0 then LWIP_MEM_ALIGN (payload_mem + of_nat offset) else 0),
            flags := PBUF_FLAG_IS_CUSTOM, plen := n_bytes, tot_len := n_bytes, ptype := type, ref := 1\<rparr>) s))"

section \<open>Changing lengths\<close>

text \<open>
  \<open>pbuf_header\<close>: \<open>True\<close> is the return value 1, failure. The payload pointer of pbufs with their own
  memory may not move into the struct.
\<close>

definition pbuf_header :: "u32 \<Rightarrow> int \<Rightarrow> 'h pbufs \<Rightarrow> (bool \<times> 'h pbufs) option" where
  "pbuf_header p header_size_increment s =
    (if p = 0 then None
     else if header_size_increment = 0 then Some (False, s)
     else if header_size_increment < 0 \<and> uint (plen (pb s p)) < - header_size_increment then Some (True, s)
     else
       (let b = pb s p; new = payload b - of_int header_size_increment;
            grow = (\<lambda>b. b\<lparr>payload := new, plen := plen b + of_int header_size_increment,
                     tot_len := tot_len b + of_int header_size_increment\<rparr>)
        in if ptype b = PBUF_RAM \<or> ptype b = PBUF_POOL then
             (if new < p + of_nat SIZEOF_STRUCT_PBUF then Some (True, s) else Some (False, upd_pb p grow s))
           else if header_size_increment < 0 then Some (False, upd_pb p grow s)
           else Some (True, s)))"

text \<open>The loop of \<open>pbuf_realloc\<close>: the pbuf in which the packet now ends, and how much of it remains.\<close>

partial_function (option) realloc_loop ::
  "u32 \<Rightarrow> u16 \<Rightarrow> u16 \<Rightarrow> 'h pbufs \<Rightarrow> (u32 \<times> u16 \<times> 'h pbufs) option" where
  "realloc_loop q rem_len grow s =
    (if plen (pb s q) < rem_len then
       (let n = plen (pb s q); q' = pnext (pb s q); s = upd_pb q (\<lambda>b. b\<lparr>tot_len := tot_len b + grow\<rparr>) s
        in if q' = 0 then None else realloc_loop q' (rem_len - n) grow s)
     else Some (q, rem_len, s))"

definition pbuf_realloc :: "'h pbuf_env \<Rightarrow> u32 \<Rightarrow> u16 \<Rightarrow> 'h pbufs \<Rightarrow> 'h pbufs option" where
  "pbuf_realloc env p new_len s =
    (if p = 0 then None
     else if tot_len (pb s p) \<le> new_len then Some s
     else do {
       (q, rem_len, s) \<leftarrow> realloc_loop p new_len (new_len - tot_len (pb s p)) s;
       (q, s) \<leftarrow> (if ptype (pb s q) = PBUF_RAM \<and> rem_len \<noteq> plen (pb s q) then
                   (let (q', h) = mem_trim env q (ucast (payload (pb s q) - q) + rem_len) (env_state s)
                    in if q' = 0 then None else Some (q', s\<lparr>env_state := h\<rparr>))
                 else Some (q, s));
       let s = upd_pb q (\<lambda>b. b\<lparr>plen := rem_len, tot_len := rem_len\<rparr>) s;
       s \<leftarrow> (if pnext (pb s q) \<noteq> 0 then Option.bind (pbuf_free env (pnext (pb s q)) s) (\<lambda>cs. Some (snd cs)) else Some s);
       Some (upd_pb q (\<lambda>b. b\<lparr>pnext := 0\<rparr>) s) })"

section \<open>Chains\<close>

partial_function (option) clen_loop :: "u32 \<Rightarrow> u8 \<Rightarrow> 'h pbufs \<Rightarrow> u8 option" where
  "clen_loop p n s = (if p = 0 then Some n else clen_loop (pnext (pb s p)) (n + 1) s)"

definition pbuf_clen :: "u32 \<Rightarrow> 'h pbufs \<Rightarrow> u8 option" where
  "pbuf_clen p s = clen_loop p 0 s"

partial_function (option) cat_loop :: "u32 \<Rightarrow> u32 \<Rightarrow> 'h pbufs \<Rightarrow> (u32 \<times> 'h pbufs) option" where
  "cat_loop p t s =
    (if pnext (pb s p) \<noteq> 0
     then cat_loop (pnext (pb s p)) t (upd_pb p (\<lambda>b. b\<lparr>tot_len := tot_len b + tot_len (pb s t)\<rparr>) s)
     else Some (p, s))"

definition pbuf_cat :: "u32 \<Rightarrow> u32 \<Rightarrow> 'h pbufs \<Rightarrow> 'h pbufs option" where
  "pbuf_cat h t s =
    (if h = 0 \<or> t = 0 then Some s
     else do {
       (p, s) \<leftarrow> cat_loop h t s;
       if tot_len (pb s p) \<noteq> plen (pb s p) then None
       else Some (upd_pb p (\<lambda>b. b\<lparr>tot_len := tot_len b + tot_len (pb s t), pnext := t\<rparr>) s) })"

definition pbuf_chain :: "u32 \<Rightarrow> u32 \<Rightarrow> 'h pbufs \<Rightarrow> 'h pbufs option" where
  "pbuf_chain h t s = Option.bind (pbuf_cat h t s) (\<lambda>s. Some (pbuf_ref t s))"

definition pbuf_dechain :: "'h pbuf_env \<Rightarrow> u32 \<Rightarrow> 'h pbufs \<Rightarrow> (u32 \<times> 'h pbufs) option" where
  "pbuf_dechain env p s =
    (let q = pnext (pb s p) in
     if q \<noteq> 0 then
       (if tot_len (pb s q) \<noteq> tot_len (pb s p) - plen (pb s p) then None
        else do {
          let s = upd_pb q (\<lambda>b. b\<lparr>tot_len := tot_len (pb s p) - plen (pb s p)\<rparr>) s;
          let s = upd_pb p (\<lambda>b. b\<lparr>pnext := 0, tot_len := plen b\<rparr>) s;
          (tail_gone, s) \<leftarrow> pbuf_free env q s;
          Some (if 0 < tail_gone then 0 else q, s) })
     else if tot_len (pb s p) \<noteq> plen (pb s p) then None
     else Some (0, s))"

section \<open>Reading and writing the payload of a chain\<close>

partial_function (option) copy_loop ::
  "u32 \<Rightarrow> u32 \<Rightarrow> u16 \<Rightarrow> u16 \<Rightarrow> 'h pbufs \<Rightarrow> (err_t \<times> 'h pbufs) option" where
  "copy_loop p_to p_from offset_to offset_from s =
    (if p_to = 0 then None
     else
       (let room = plen (pb s p_to) - offset_to; have' = plen (pb s p_from) - offset_from;
            n = (if have' \<le> room then have' else room);
            s = s\<lparr>bmem := mem_copy (payload (pb s p_to) + ucast offset_to) (payload (pb s p_from) + ucast offset_from) n (bmem s)\<rparr>;
            t = (if offset_to + n = plen (pb s p_to) then (pnext (pb s p_to), 0) else (p_to, offset_to + n));
            f = (if plen (pb s p_from) \<le> offset_from + n then (pnext (pb s p_from), 0) else (p_from, offset_from + n))
        in if fst f \<noteq> 0 \<and> plen (pb s (fst f)) = tot_len (pb s (fst f)) \<and> pnext (pb s (fst f)) \<noteq> 0 then Some (ERR_VAL, s)
           else if fst t \<noteq> 0 \<and> plen (pb s (fst t)) = tot_len (pb s (fst t)) \<and> pnext (pb s (fst t)) \<noteq> 0 then Some (ERR_VAL, s)
           else if fst f \<noteq> 0 then copy_loop (fst t) (fst f) (snd t) (snd f) s
           else Some (ERR_OK, s)))"

definition pbuf_copy :: "u32 \<Rightarrow> u32 \<Rightarrow> 'h pbufs \<Rightarrow> (err_t \<times> 'h pbufs) option" where
  "pbuf_copy p_to p_from s =
    (if p_to = 0 \<or> p_from = 0 \<or> tot_len (pb s p_to) < tot_len (pb s p_from) then Some (ERR_ARG, s)
     else copy_loop p_to p_from 0 0 s)"

partial_function (option) copy_partial_loop ::
  "u32 \<Rightarrow> u32 \<Rightarrow> u16 \<Rightarrow> u16 \<Rightarrow> u16 \<Rightarrow> 'h pbufs \<Rightarrow> (u16 \<times> 'h pbufs) option" where
  "copy_partial_loop p dataptr len offset copied s =
    (if len \<noteq> 0 \<and> p \<noteq> 0 then
       (if offset \<noteq> 0 \<and> plen (pb s p) \<le> offset
        then copy_partial_loop (pnext (pb s p)) dataptr len (offset - plen (pb s p)) copied s
        else
          (let n = plen (pb s p) - offset; n = (if len < n then len else n);
               s = s\<lparr>bmem := mem_copy (dataptr + ucast copied) (payload (pb s p) + ucast offset) n (bmem s)\<rparr>
           in copy_partial_loop (pnext (pb s p)) dataptr (len - n) 0 (copied + n) s))
     else Some (copied, s))"

definition pbuf_copy_partial :: "u32 \<Rightarrow> u32 \<Rightarrow> u16 \<Rightarrow> u16 \<Rightarrow> 'h pbufs \<Rightarrow> (u16 \<times> 'h pbufs) option" where
  "pbuf_copy_partial buf dataptr len offset s =
    (if buf = 0 \<or> dataptr = 0 then Some (0, s) else copy_partial_loop buf dataptr len offset 0 s)"

partial_function (option) take_loop :: "u32 \<Rightarrow> u32 \<Rightarrow> u16 \<Rightarrow> u16 \<Rightarrow> 'h pbufs \<Rightarrow> 'h pbufs option" where
  "take_loop p dataptr total_copy_len copied s =
    (if total_copy_len \<noteq> 0 then
       (if p = 0 then None
        else (let n = (if plen (pb s p) < total_copy_len then plen (pb s p) else total_copy_len);
                  s = s\<lparr>bmem := mem_copy (payload (pb s p)) (dataptr + ucast copied) n (bmem s)\<rparr>
              in take_loop (pnext (pb s p)) dataptr (total_copy_len - n) (copied + n) s))
     else Some s)"

definition pbuf_take :: "u32 \<Rightarrow> u32 \<Rightarrow> u16 \<Rightarrow> 'h pbufs \<Rightarrow> (err_t \<times> 'h pbufs) option" where
  "pbuf_take buf dataptr len s =
    (if buf = 0 \<or> dataptr = 0 then Some (ERR_OK, s)
     else if tot_len (pb s buf) < len then Some (ERR_ARG, s)
     else Option.bind (take_loop buf dataptr len 0 s) (\<lambda>s. Some (ERR_OK, s)))"

definition pbuf_coalesce :: "'h pbuf_env \<Rightarrow> u32 \<Rightarrow> pbuf_layer \<Rightarrow> 'h pbufs \<Rightarrow> (u32 \<times> 'h pbufs) option" where
  "pbuf_coalesce env p layer s =
    (if pnext (pb s p) = 0 then Some (p, s)
     else do {
       (q, s) \<leftarrow> pbuf_alloc env layer (tot_len (pb s p)) PBUF_RAM s;
       if q = 0 then Some (p, s)
       else do {
         (err, s) \<leftarrow> pbuf_copy q p s;
         if err \<noteq> ERR_OK then None
         else do { (_, s) \<leftarrow> pbuf_free env p s; Some (q, s) } } })"

text \<open>The search for the pbuf that holds an offset, shared by \<open>pbuf_get_at\<close> and \<open>pbuf_memcmp\<close>.\<close>

partial_function (option) skip_loop :: "u32 \<Rightarrow> u16 \<Rightarrow> 'h pbufs \<Rightarrow> (u32 \<times> u16) option" where
  "skip_loop q copy_from s =
    (if q \<noteq> 0 \<and> plen (pb s q) \<le> copy_from
     then skip_loop (pnext (pb s q)) (copy_from - plen (pb s q)) s
     else Some (q, copy_from))"

definition pbuf_get_at :: "u32 \<Rightarrow> u16 \<Rightarrow> 'h pbufs \<Rightarrow> u8 option" where
  "pbuf_get_at p offset s = do {
     (q, copy_from) \<leftarrow> skip_loop p offset s;
     Some (if q \<noteq> 0 then bmem s (payload (pb s q) + ucast copy_from) else 0) }"

fun memcmp_loop :: "u32 \<Rightarrow> u16 \<Rightarrow> u32 \<Rightarrow> nat list \<Rightarrow> 'h pbufs \<Rightarrow> u16 option" where
  "memcmp_loop q start s2 [] s = Some 0"
| "memcmp_loop q start s2 (i # is) s = do {
     a \<leftarrow> pbuf_get_at q (start + of_nat i) s;
     if a \<noteq> bmem s (s2 + of_nat i) then Some (of_nat i + 1) else memcmp_loop q start s2 is s }"

definition pbuf_memcmp :: "u32 \<Rightarrow> u16 \<Rightarrow> u32 \<Rightarrow> u16 \<Rightarrow> 'h pbufs \<Rightarrow> u16 option" where
  "pbuf_memcmp p offset s2 n s = do {
     (q, start) \<leftarrow> skip_loop p offset s;
     if q \<noteq> 0 then memcmp_loop q start s2 [0..<unat n] s else Some 0xFFFF }"

partial_function (option) memfind_loop :: "u32 \<Rightarrow> u32 \<Rightarrow> u16 \<Rightarrow> u16 \<Rightarrow> u16 \<Rightarrow> 'h pbufs \<Rightarrow> u16 option" where
  "memfind_loop p mem mem_len max_i i s =
    (if i \<le> max_i then
       Option.bind (pbuf_memcmp p i mem mem_len s) (\<lambda>plus.
         if plus = 0 then Some i else memfind_loop p mem mem_len max_i (i + plus) s)
     else Some 0xFFFF)"

definition pbuf_memfind :: "u32 \<Rightarrow> u32 \<Rightarrow> u16 \<Rightarrow> u16 \<Rightarrow> 'h pbufs \<Rightarrow> u16 option" where
  "pbuf_memfind p mem mem_len start_offset s =
    (if unat mem_len + unat start_offset \<le> unat (tot_len (pb s p))
     then memfind_loop p mem mem_len (tot_len (pb s p) - mem_len) start_offset s
     else Some 0xFFFF)"

partial_function (option) strlen :: "u32 \<Rightarrow> nat \<Rightarrow> (u32 \<Rightarrow> u8) \<Rightarrow> nat option" where
  "strlen a n m = (if m a = 0 then Some n else strlen (a + 1) (n + 1) m)"

definition pbuf_strstr :: "u32 \<Rightarrow> u32 \<Rightarrow> 'h pbufs \<Rightarrow> u16 option" where
  "pbuf_strstr p substr s =
    (if substr = 0 \<or> bmem s substr = 0 \<or> tot_len (pb s p) = 0xFFFF then Some 0xFFFF
     else do {
       substr_len \<leftarrow> strlen substr 0 (bmem s);
       if 0xFFFF \<le> substr_len then Some 0xFFFF else pbuf_memfind p substr (of_nat substr_len) 0 s })"

lemmas pbuf_loops_code [code] = pbuf_free_loop.simps pool_chain_loop.simps realloc_loop.simps clen_loop.simps
  cat_loop.simps copy_loop.simps copy_partial_loop.simps take_loop.simps skip_loop.simps memfind_loop.simps strlen.simps

end
