(* ===== verification/Pbuf_Chain.thy ===== *)
theory Pbuf_Chain
  imports Pbuf
begin

text \<open>
  Chains of packet buffers (\<^verbatim>\<open>lwIP/core/pbuf.c\<close>) and the bytes they hold. A chain is the list of the
  pbufs that \<open>next\<close> leads through; the bytes of a packet are the payloads of its chain, concatenated.
\<close>

section \<open>Bytes in memory\<close>

definition bytes :: "(u32 \<Rightarrow> u8) \<Rightarrow> u32 \<Rightarrow> nat \<Rightarrow> u8 list" where
  "bytes m a n = map (\<lambda>i. m (a + of_nat i)) [0..<n]"

lemma bytes_0 [simp]: "bytes m a 0 = []"
  by (simp add: bytes_def)

lemma bytes_Suc: "bytes m a (Suc n) = m a # bytes m (a + 1) n"
  by (simp add: bytes_def map_upt_Suc del: upt_Suc) (simp add: algebra_simps)

lemma length_bytes [simp]: "length (bytes m a n) = n"
  by (simp add: bytes_def)

lemma bytes_snoc: "bytes m a (Suc n) = bytes m a n @ [m (a + of_nat n)]"
  by (simp add: bytes_def)

lemma bytes_append: "bytes m a (i + j) = bytes m a i @ bytes m (a + of_nat i) j"
proof (induction j)
  case (Suc j)
  have "bytes m a (i + Suc j) = bytes m a (i + j) @ [m (a + of_nat (i + j))]" unfolding add_Suc_right by (rule bytes_snoc)
  then show ?case unfolding Suc.IH bytes_snoc by (simp only: of_nat_add add.assoc append_assoc)
qed simp

lemma unat_u16_less: "unat (x :: u16) < 65536"
  using unsigned_less [of x] by simp

section \<open>Chains\<close>

primrec chain :: "'h pbufs \<Rightarrow> u32 \<Rightarrow> u32 list \<Rightarrow> bool" where
  "chain s p [] \<longleftrightarrow> p = 0"
| "chain s p (q # qs) \<longleftrightarrow> p = q \<and> q \<noteq> 0 \<and> chain s (pnext (pb s q)) qs"

definition pbuf_bytes :: "'h pbufs \<Rightarrow> u32 \<Rightarrow> u8 list" where
  "pbuf_bytes s q = bytes (bmem s) (payload (pb s q)) (unat (plen (pb s q)))"

definition chain_bytes :: "'h pbufs \<Rightarrow> u32 list \<Rightarrow> u8 list" where
  "chain_bytes s ps = concat (map (pbuf_bytes s) ps)"

lemma chain_bytes_simps [simp]:
  "chain_bytes s [] = []" "chain_bytes s (q # qs) = pbuf_bytes s q @ chain_bytes s qs"
  by (simp_all add: chain_bytes_def)

lemma length_pbuf_bytes [simp]: "length (pbuf_bytes s q) = unat (plen (pb s q))"
  by (simp add: pbuf_bytes_def)

lemma chain_bytes_append [simp]: "chain_bytes s (ps @ qs) = chain_bytes s ps @ chain_bytes s qs"
  by (simp add: chain_bytes_def)

lemma take_bytes: "k \<le> n \<Longrightarrow> take k (bytes m a n) = bytes m a k"
  by (simp add: bytes_def take_map)

end
