(* ===== verification/Chksum_Words.thy ===== *)
theory Chksum_Words
  imports Inet_Chksum Pbuf_Chain
begin

text \<open>
  One's complement sums on lists of bytes, and the lemmas that relate the words of
  \<^verbatim>\<open>lwIP/core/ipv4/inet_chksum.c\<close> to them: folding of carries, byte swapping, half-word loads and the
  loop over half-words.
\<close>

section \<open>The reference: one's complement sums of bytes\<close>

text \<open>
  \<open>be_sum\<close> is the sum of RFC 1071: the bytes in network order, two to a word, padded with a zero;
  \<open>ocs\<close> reduces a sum to 16 bits with end-around carry (0 only for 0). \<open>poly\<close> is the value of the
  bytes to the base 256; all sums agree with it modulo 65535.
\<close>

definition ocs :: "nat \<Rightarrow> nat" where
  "ocs n = (if n = 0 then 0 else (n + 65534) mod 65535 + 1)"

fun be_sum :: "u8 list \<Rightarrow> nat" where
  "be_sum [] = 0"
| "be_sum [b] = 256 * unat b"
| "be_sum (b # c # bs) = 256 * unat b + unat c + be_sum bs"

fun le_sum :: "u8 list \<Rightarrow> nat" where
  "le_sum [] = 0"
| "le_sum [b] = unat b"
| "le_sum (b # c # bs) = unat b + 256 * unat c + le_sum bs"

primrec poly :: "u8 list \<Rightarrow> nat" where
  "poly [] = 0"
| "poly (b # bs) = unat b + 256 * poly bs"

lemma ocs_cong: "a = 0 \<longleftrightarrow> b = 0 \<Longrightarrow> a mod 65535 = b mod 65535 \<Longrightarrow> ocs a = ocs b"
  unfolding ocs_def by (metis mod_add_left_eq)

lemma ocs_small: "n \<le> 65535 \<Longrightarrow> ocs n = n"
  by (cases n) (auto simp: ocs_def)

lemma ocs_0 [simp]: "ocs n = 0 \<longleftrightarrow> n = 0" "ocs 0 = 0"
  by (simp_all add: ocs_def)

lemma ocs_le: "ocs n \<le> 65535"
proof -
  have "(n + 65534) mod 65535 < 65535" by simp
  then show ?thesis by (simp add: ocs_def del: mod_less_divisor)
qed

lemma ocs_mod [simp]: "ocs n mod 65535 = n mod 65535"
proof -
  have "((n + 65534) mod 65535 + 1) mod 65535 = (n + 65535) mod 65535" by (simp add: mod_Suc_eq)
  then show ?thesis by (simp add: ocs_def)
qed

lemma ocs_add: "ocs (ocs a + b) = ocs (a + b)" "ocs (a + ocs b) = ocs (a + b)"
  by (rule ocs_cong; (simp; fail)?; metis mod_add_eq ocs_mod)+

lemma ocs_mult: "ocs (k * ocs a) = ocs (k * a)"
  by (rule ocs_cong; (simp; fail)?; metis mod_mult_right_eq ocs_mod)

text \<open>Folding the carries and swapping the bytes, on numbers.\<close>

definition fold16 :: "nat \<Rightarrow> nat" where
  "fold16 n = n div 65536 + n mod 65536"

definition swap16 :: "nat \<Rightarrow> nat" where
  "swap16 n = n mod 256 * 256 + n div 256"

lemma ocs_fold16: "ocs (fold16 n) = ocs n"
proof (rule ocs_cong)
  have n: "n = 65536 * (n div 65536) + n mod 65536" by simp
  show "fold16 n = 0 \<longleftrightarrow> n = 0" unfolding fold16_def using n by auto
  have "n = fold16 n + 65535 * (n div 65536)" unfolding fold16_def using mult_div_mod_eq [of 65536 n] by linarith
  then show "fold16 n mod 65535 = n mod 65535" by (metis mod_mult_self2)
qed

lemma fold16_twice: "n < 2 ^ 32 \<Longrightarrow> fold16 (fold16 n) = ocs n"
proof -
  assume "n < 2 ^ 32"
  then have "n div 65536 < 65536" by (simp add: div_less_iff_less_mult)
  moreover have "n mod 65536 < 65536" by simp
  ultimately have f: "fold16 n \<le> 131070" unfolding fold16_def by linarith
  have "fold16 (fold16 n) \<le> 65535"
  proof (cases "fold16 n < 65536")
    case True
    then show ?thesis by (simp add: fold16_def [of "fold16 n"])
  next
    case False
    with f have "fold16 n div 65536 = 1" "fold16 n mod 65536 = fold16 n - 65536" by (auto simp: mod_if)
    with f show ?thesis by (simp add: fold16_def [of "fold16 n"])
  qed
  then show ?thesis using ocs_small ocs_fold16 by metis
qed

lemma swap16_ocs: "swap16 (ocs n) = ocs (256 * n)"
proof -
  let ?x = "ocs n"
  have x: "?x \<le> 65535" by (rule ocs_le)
  have d: "?x div 256 < 256" using x by (simp add: div_less_iff_less_mult)
  have s: "swap16 ?x \<le> 65535"
  proof -
    have "?x mod 256 \<le> 255" using mod_less_divisor [of 256 ?x] by linarith
    then show ?thesis unfolding swap16_def using d by linarith
  qed
  have e: "256 * ?x = 65535 * (?x div 256) + swap16 ?x"
    unfolding swap16_def using mult_div_mod_eq [of 256 ?x] by linarith
  have "swap16 ?x mod 65535 = (256 * ?x) mod 65535" unfolding e by simp
  moreover have "swap16 ?x = 0 \<longleftrightarrow> 256 * ?x = 0"
    unfolding swap16_def using mult_div_mod_eq [of 256 ?x] by auto
  ultimately have "ocs (swap16 ?x) = ocs (256 * ?x)" by (intro ocs_cong)
  then show ?thesis using ocs_small [OF s] ocs_mult by simp
qed

text \<open>The sums of a list of bytes.\<close>

lemma le_sum_poly: "le_sum bs mod 65535 = poly bs mod 65535" "le_sum bs = 0 \<longleftrightarrow> poly bs = 0"
proof (induction bs rule: le_sum.induct)
  case (3 b c bs)
  have "poly (b # c # bs) = unat b + 256 * unat c + poly bs + 65535 * poly bs" by (simp add: algebra_simps)
  then have "poly (b # c # bs) mod 65535 = (unat b + 256 * unat c + poly bs) mod 65535" by (simp only: mod_mult_self2)
  also have "\<dots> = (unat b + 256 * unat c + le_sum bs) mod 65535" using "3.IH"(1) by (metis mod_add_right_eq)
  finally show "le_sum (b # c # bs) mod 65535 = poly (b # c # bs) mod 65535" by simp
  show "le_sum (b # c # bs) = 0 \<longleftrightarrow> poly (b # c # bs) = 0" using "3.IH"(2) by auto
qed simp_all

lemma be_sum_poly: "be_sum bs mod 65535 = 256 * poly bs mod 65535" "be_sum bs = 0 \<longleftrightarrow> poly bs = 0"
proof (induction bs rule: be_sum.induct)
  case (3 b c bs)
  have "256 * poly (b # c # bs) = 256 * unat b + unat c + 256 * poly bs + 65535 * (unat c + 256 * poly bs)"
    by (simp add: algebra_simps)
  then have "256 * poly (b # c # bs) mod 65535 = (256 * unat b + unat c + 256 * poly bs) mod 65535"
    by (simp only: mod_mult_self2)
  also have "\<dots> = (256 * unat b + unat c + be_sum bs) mod 65535" using "3.IH"(1) by (metis mod_add_right_eq)
  finally show "be_sum (b # c # bs) mod 65535 = 256 * poly (b # c # bs) mod 65535" by simp
  show "be_sum (b # c # bs) = 0 \<longleftrightarrow> poly (b # c # bs) = 0" using "3.IH"(2) by auto
qed simp_all

lemma ocs_le_sum: "ocs (le_sum bs) = ocs (poly bs)"
  by (rule ocs_cong) (simp_all add: le_sum_poly)

lemma ocs_be_sum: "ocs (be_sum bs) = ocs (256 * poly bs)"
  by (rule ocs_cong) (simp_all add: be_sum_poly)

lemma ocs_swap_poly: "ocs (256 * (256 * poly bs)) = ocs (poly bs)"
proof (rule ocs_cong)
  have "256 * (256 * poly bs) = poly bs + 65535 * poly bs" by simp
  then show "256 * (256 * poly bs) mod 65535 = poly bs mod 65535" by (simp only: mod_mult_self2)
qed simp

section \<open>The words compute these sums\<close>

lemma and_mask: "(x :: 'a::len word) AND 0xFFFF = take_bit 16 x" "x AND 0xFF = take_bit 8 x"
  by (simp_all add: take_bit_eq_mask mask_eq_exp_minus_1)

lemma unat_and_FFFF: "unat ((x :: u32) AND 0xFFFF) = unat x mod 65536"
  by (simp only: and_mask unsigned_take_bit_eq) (simp add: take_bit_eq_mod)

lemma take_bit_unat [simp]: "take_bit LENGTH('a) (unat (x :: 'a::len word)) = unat x"
  by (simp add: take_bit_nat_eq_self_iff)

lemmas take_bit_unat_num [simp] = take_bit_unat [where 'a = 32, simplified] take_bit_unat [where 'a = 16, simplified] take_bit_unat [where 'a = 8, simplified]

lemma unat_shift16: "unat (drop_bit 16 (x :: u32)) = unat x div 65536"
  by (simp only: unsigned_drop_bit_eq) (simp add: drop_bit_eq_div)

lemma unat_FOLD: "unat (FOLD_U32T u) = fold16 (unat u)"
proof -
  have u: "unat u < 2 ^ 32" by (rule unat_u32_less)
  then have "unat u div 65536 < 65536" by (simp add: div_less_iff_less_mult)
  moreover have "unat u mod 65536 < 65536" by simp
  ultimately have "unat u div 65536 + unat u mod 65536 < 131072" by linarith
  then have "unat u div 65536 + unat u mod 65536 < 2 ^ LENGTH(32)" by simp
  then show ?thesis unfolding FOLD_U32T_def fold16_def
    by (subst unat_add_lem [THEN iffD1]) (simp_all only: unat_and_FFFF unat_shift16)
qed

lemma unat_byte: "unat (b :: u8) < 256"
proof -
  have "unat b < 2 ^ LENGTH(8)" by (rule unsigned_less)
  then show ?thesis by simp
qed

lemma or_shift_nat:
  fixes x y :: nat
  assumes "x < 2 ^ k"
  shows "x OR push_bit k y = x + 2 ^ k * y" "push_bit k y OR x = x + 2 ^ k * y"
proof -
  have t: "take_bit k x = x" using assms by (simp add: take_bit_nat_eq_self_iff)
  have "x AND push_bit k y = 0"
    by (rule bit_eqI) (metis t bit_and_iff bit_take_bit_iff bit_push_bit_iff bit_0_eq bot_apply bot_bool_def not_le)
  then have "x + push_bit k y = x OR push_bit k y" by (rule disjunctive_add_eq_or)
  then show "x OR push_bit k y = x + 2 ^ k * y" by (simp add: push_bit_eq_mult mult.commute)
  then show "push_bit k y OR x = x + 2 ^ k * y" by (simp add: or.commute)
qed

lemma unat_ucast8 [simp]:
  "unat (ucast (b :: u8) :: u32) = unat b" "unat (ucast (b :: u8) :: u16) = unat b" "unat (ucast (h :: u16) :: u32) = unat h"
proof -
  have "unat b < 2 ^ 32" "unat b < 2 ^ 16" using unat_byte [of b] by simp_all
  moreover have "unat h < 2 ^ LENGTH(16)" by (rule unsigned_less)
  ultimately show "unat (ucast b :: u32) = unat b" "unat (ucast b :: u16) = unat b" "unat (ucast h :: u32) = unat h"
    by (simp_all add: unsigned_ucast_eq take_bit_nat_eq_self_iff)
qed

lemma unat_pair: "unat (ucast (b :: u8) OR push_bit 8 (ucast (c :: u8)) :: u32) = unat b + 256 * unat c"
proof -
  have "256 * unat c < 2 ^ 32" using unat_byte [of c] by simp
  then have p: "unat (push_bit 8 (ucast c :: u32)) = push_bit 8 (unat c)"
    by (simp only: unsigned_push_bit_eq unat_ucast8) (simp add: push_bit_eq_mult take_bit_nat_eq_self_iff mult.commute)
  show ?thesis using or_shift_nat(1) [of "unat b" 8 "unat c"] unat_byte [of b]
    by (simp only: unsigned_or_eq p unat_ucast8) simp
qed

lemma unat_load16: "unat (load16 m a) = unat (m a) + 256 * unat (m (a + 1))"
  unfolding load16_def by (rule unat_pair)

lemma sum16_loop_spec:
  "sum16_loop m ps len sm = (sm + of_nat (le_sum (bytes m ps (2 * (len div 2)))), ps + of_nat (2 * (len div 2)), len mod 2)"
proof (induction len arbitrary: ps sm rule: less_induct)
  case (less len)
  show ?case
  proof (cases "1 < len")
    case True
    then have "len = Suc (Suc (len - 2))" by simp
    then obtain k where k: "len = Suc (Suc k)" by (rule that)
    define X where "X = unat (m ps) + 256 * unat (m (ps + 1))"
    define Y where "Y = le_sum (bytes m (ps + 2) (2 * (k div 2)))"
    have l: "load16 m ps = of_nat X" unfolding X_def unat_load16 [symmetric] by simp
    have d: "2 * (len div 2) = Suc (Suc (2 * (k div 2)))" "len mod 2 = k mod 2" "len - 2 = k" by (simp_all add: k)
    have "ps + 1 + 1 = ps + 2" by (simp add: add.assoc)
    then have Y: "le_sum (bytes m ps (2 * (len div 2))) = X + Y"
      unfolding d(1) bytes_Suc X_def Y_def by (simp only: le_sum.simps)
    have p: "ps + of_nat (2 * (len div 2)) = ps + 2 + of_nat (2 * (k div 2))" unfolding d(1) by simp
    have "sum16_loop m ps len sm = sum16_loop m (ps + 2) k (sm + of_nat X)"
      using True by (subst sum16_loop.simps) (simp only: d l if_True)
    also have "\<dots> = (sm + of_nat X + of_nat Y, ps + 2 + of_nat (2 * (k div 2)), k mod 2)"
      unfolding Y_def by (rule less.IH) (simp add: k)
    finally show ?thesis unfolding Y p d(2) by (simp only: of_nat_add add.assoc)
  next
    case False
    then have "2 * (len div 2) = 0" "len mod 2 = len" by simp_all
    with False show ?thesis by (subst sum16_loop.simps) (simp only: if_False bytes_0 le_sum.simps, simp)
  qed
qed

lemma le_sum_snoc: "even (length xs) \<Longrightarrow> le_sum (xs @ [b]) = le_sum xs + unat b"
  by (induction xs rule: le_sum.induct) simp_all

lemma le_sum_bytes: "le_sum (bytes m a n) =
  le_sum (bytes m a (2 * (n div 2))) + (if n mod 2 = 0 then 0 else unat (m (a + of_nat (2 * (n div 2)))))"
proof -
  obtain k where "n = 2 * k \<or> n = Suc (2 * k)" using oddE [of n] evenE [of n] by (metis Suc_eq_plus1)
  then consider "n = 2 * k" | "n = Suc (2 * k)" by blast
  then show ?thesis
  proof cases
    case 1
    then have "n div 2 = k" "n mod 2 = 0" by simp_all
    with 1 show ?thesis by (simp only: if_True add_0_right refl)
  next
    case 2
    then have d: "n div 2 = k" "n mod 2 = 1" by simp_all
    have "le_sum (bytes m a (Suc (2 * k))) = le_sum (bytes m a (2 * k)) + unat (m (a + of_nat (2 * k)))"
      unfolding bytes_snoc by (rule le_sum_snoc) (simp)
    then show ?thesis unfolding d using 2 by (simp only: one_neq_zero if_False)
  qed
qed

lemma le_sum_bound: "le_sum bs \<le> 65535 * ((length bs + 1) div 2)"
proof (induction bs rule: le_sum.induct)
  case (2 b)
  then show ?case using unat_byte [of b] by simp
next
  case (3 b c bs)
  then show ?case using unat_byte [of b] unat_byte [of c] by simp
qed simp

lemma unat_of_nat_u32: "n < 2 ^ 32 \<Longrightarrow> unat (of_nat n :: u32) = n"
  by (simp add: unat_of_nat take_bit_nat_eq_self_iff)

lemma unat_SWAP: "unat w \<le> 65535 \<Longrightarrow> unat (SWAP_BYTES_IN_WORD w) = swap16 (unat w)"
proof -
  assume w: "unat w \<le> 65535"
  have m: "(0xFF00 :: u32) = push_bit 8 (mask 8)" by (simp add: mask_eq_exp_minus_1)
  have l: "unat (w AND 0xFF) = unat w mod 256"
    by (simp only: and_mask unsigned_take_bit_eq) (simp add: take_bit_eq_mod)
  have "unat (push_bit 8 (w AND 0xFF)) = push_bit 8 (unat w mod 256)"
  proof -
    have "unat w mod 256 * 256 < 2 ^ 32" using mod_less_divisor [of 256 "unat w"] by simp
    then show ?thesis by (simp only: unsigned_push_bit_eq l) (simp add: push_bit_eq_mult take_bit_nat_eq_self_iff)
  qed
  moreover have "drop_bit 8 (w AND 0xFF00) = take_bit 8 (drop_bit 8 w)"
    unfolding m by (rule bit_word_eqI) (auto simp: bit_simps)
  moreover have "unat (take_bit 8 (drop_bit 8 w)) = unat w div 256"
  proof -
    have "unat w div 256 < 256" using w by (simp add: div_less_iff_less_mult)
    then show ?thesis by (simp only: unsigned_take_bit_eq unsigned_drop_bit_eq)
      (simp add: drop_bit_eq_div take_bit_eq_mod)
  qed
  ultimately have "unat (SWAP_BYTES_IN_WORD w) = push_bit 8 (unat w mod 256) OR (unat w div 256)"
    by (simp only: SWAP_BYTES_IN_WORD_def unsigned_or_eq)
  also have "\<dots> = unat w div 256 + 2 ^ 8 * (unat w mod 256)"
    by (rule or_shift_nat) (use w in \<open>simp add: div_less_iff_less_mult\<close>)
  finally show ?thesis by (simp add: swap16_def)
qed

end
