(* ===== verification/Chksum_Versions.thy ===== *)
theory Chksum_Versions
  imports Chksum_Words
begin

text \<open>
  The three versions of the checksum of a block of bytes in \<^verbatim>\<open>lwIP/core/ipv4/inet_chksum.c\<close> and the
  reference definition of RFC 1071 that all of them compute.
\<close>

section \<open>The compiled version\<close>

lemma unat_of_nat_mono: "unat (x :: u32) = k \<Longrightarrow> x = of_nat k"
  by auto

lemma unat_add_u32: "unat x + unat y < 2 ^ 32 \<Longrightarrow> unat (x + y :: u32) = unat x + unat y"
  by (rule unat_add_lem [THEN iffD1]) simp

lemma tail_byte:
  fixes t :: u16 and c :: u8
  assumes "unat t = 256 * b" "b < 256"
  shows "unat (ucast ((t AND 0xFF00) OR ucast c) :: u32) = 256 * b + unat c"
proof -
  have m: "(0xFF00 :: u16) = NOT (mask 8)" by (simp add: mask_eq_exp_minus_1)
  have t: "t AND 0xFF00 = push_bit 8 (of_nat b)"
  proof -
    have "t = of_nat (256 * b)" by (simp only: assms(1) [symmetric] of_nat_unat ucast_id)
    then have "t = push_bit 8 (of_nat b)" by (simp add: push_bit_eq_mult mult.commute)
    moreover have "push_bit 8 (of_nat b :: u16) AND NOT (mask 8) = push_bit 8 (of_nat b)"
      by (rule bit_word_eqI) (auto simp: bit_simps)
    ultimately show ?thesis unfolding m by simp
  qed
  have "unat (push_bit 8 (of_nat b :: u16)) = push_bit 8 b"
    using assms(2) by (simp only: unsigned_push_bit_eq) (simp add: push_bit_eq_mult unat_of_nat take_bit_nat_eq_self_iff)
  then show ?thesis unfolding t using or_shift_nat(2) [of "unat c" 8 b] unat_byte [of c]
    by (simp only: unat_ucast8 unsigned_or_eq) simp
qed

text \<open>
  What follows the summation of whole words in versions 2 and 3: an odd first byte is in the high
  half of \<open>t\<close>, a last byte goes into the low half.
\<close>

lemma sum_tail:
  fixes t :: u16 and sm :: u32
  assumes t: "unat t = 256 * b" "b < 256" and bound: "unat sm + le_sum (bytes m pl n) + 65535 < 2 ^ 32"
    and l: "sum16_loop m pl n sm = (sm', ps, n')"
  shows "unat (sm' + ucast (if 0 < n' then (t AND 0xFF00) OR ucast (m ps) else t))
    = unat sm + le_sum (bytes m pl n) + 256 * b"
proof -
  define Y where "Y = le_sum (bytes m pl (2 * (n div 2)))"
  define c where "c = (if n mod 2 = 0 then 0 else unat (m (pl + of_nat (2 * (n div 2)))))"
  have l': "sm' = sm + of_nat Y" "ps = pl + of_nat (2 * (n div 2))" "n' = n mod 2"
    using l unfolding sum16_loop_spec Y_def by simp_all
  have S: "le_sum (bytes m pl n) = Y + c" unfolding Y_def c_def by (rule le_sum_bytes)
  have Y: "unat (of_nat Y :: u32) = Y" by (rule unat_of_nat_u32) (use bound S in linarith)
  have 1: "unat sm' = unat sm + Y" unfolding l'(1) by (subst unat_add_u32) (use bound S Y in linarith)+
  have t2: "unat (ucast (if 0 < n' then (t AND 0xFF00) OR ucast (m ps) else t) :: u32) = 256 * b + c"
    unfolding l'(2,3) c_def using tail_byte [OF t] t(1) by simp
  show ?thesis
  proof (subst unat_add_u32)
    show "unat sm' + unat (ucast (if 0 < n' then (t AND 0xFF00) OR ucast (m ps) else t) :: u32) < 2 ^ 32"
      using bound t(2) unfolding t2 1 S by linarith
  qed (simp only: t2 1 S)
qed

lemma unat_double_fold: "unat (FOLD_U32T (FOLD_U32T x)) = ocs (unat x)"
  unfolding unat_FOLD by (rule fold16_twice) (rule unat_u32_less)

lemma unat_ucast16: "unat (x :: u32) \<le> 65535 \<Longrightarrow> unat (ucast x :: u16) = unat x"
  by (simp add: unsigned_ucast_eq take_bit_nat_eq_self_iff)

lemma ocs_cons: "ocs (256 * (256 * b + le_sum bs)) = ocs (b + 256 * poly bs)"
proof (rule ocs_cong)
  have "256 * (256 * b + le_sum bs) = b + 256 * le_sum bs + 65535 * b" by (simp add: algebra_simps)
  then have "256 * (256 * b + le_sum bs) mod 65535 = (b + 256 * le_sum bs) mod 65535" by (simp only: mod_mult_self2)
  then show "256 * (256 * b + le_sum bs) mod 65535 = (b + 256 * poly bs) mod 65535"
    using mod_add_cong [OF refl mod_mult_cong [OF refl le_sum_poly(1)]] by simp
  show "256 * (256 * b + le_sum bs) = 0 \<longleftrightarrow> b + 256 * poly bs = 0" using le_sum_poly(2) [of bs] by simp
qed

text \<open>The end of versions 2 and 3, for either parity of the address.\<close>

lemma sum_finish:
  assumes "is_odd \<Longrightarrow> ocs (unat x) = ocs (256 * b + le_sum bs) \<and> ocs (poly all) = ocs (b + 256 * poly bs)"
    and "\<not> is_odd \<Longrightarrow> ocs (unat x) = ocs (poly all)"
  shows "unat (ucast (let sm = FOLD_U32T (FOLD_U32T x) in if is_odd then SWAP_BYTES_IN_WORD sm else sm) :: u16) = ocs (poly all)"
proof -
  let ?f = "FOLD_U32T (FOLD_U32T x)"
  have f: "unat ?f = ocs (unat x)" "unat ?f \<le> 65535" by (simp_all only: unat_double_fold ocs_le)
  have "unat (if is_odd then SWAP_BYTES_IN_WORD ?f else ?f) = ocs (poly all)"
  proof (cases is_odd)
    case True
    have "unat (SWAP_BYTES_IN_WORD ?f) = ocs (256 * unat x)"
      using unat_SWAP [OF f(2)] unfolding f(1) by (simp only: swap16_ocs)
    also have "\<dots> = ocs (256 * (256 * b + le_sum bs))" using assms(1) [OF True] by (metis ocs_mult)
    finally show ?thesis using assms(1) [OF True] True ocs_cons by simp
  next
    case False
    then show ?thesis using assms(2) f(1) by simp
  qed
  then show ?thesis using ocs_le unat_ucast16 by (simp add: Let_def)
qed

lemma unat_hi_byte: "unat (push_bit 8 (ucast (c :: u8)) :: u16) = 256 * unat c"
  using unat_byte [of c]
  by (simp only: unsigned_push_bit_eq unat_ucast8) (simp add: push_bit_eq_mult take_bit_nat_eq_self_iff mult.commute)

lemma le_sum_room: "k < 65536 \<Longrightarrow> le_sum (bytes m b k) + 262143 < 2 ^ 32"
  using le_sum_bound [of "bytes m b k"] div_le_mono [of "Suc k" 65536 2] by simp

lemma poly_bytes_Suc: "poly (bytes m a (Suc k)) = unat (m a) + 256 * poly (bytes m (a + 1) k)"
  by (simp add: bytes_Suc)

lemma lwip_standard_chksum_spec:
  assumes n: "n < 65536"
  shows "unat (lwip_standard_chksum m a n) = ocs (poly (bytes m a n))"
proof (cases "a AND 1 \<noteq> 0 \<and> 0 < n")
  case True
  then obtain k where k: "n = Suc k" by (cases n) auto
  obtain sm ps n' where l: "sum16_loop m (a + 1) k 0 = (sm, ps, n')" by (cases "sum16_loop m (a + 1) k 0") auto
  let ?t = "push_bit 8 (ucast (m a)) :: u16"
  let ?x = "sm + ucast (if 0 < n' then (?t AND 0xFF00) OR ucast (m ps) else ?t)"
  have "unat ?x = unat (0 :: u32) + le_sum (bytes m (a + 1) k) + 256 * unat (m a)"
    by (rule sum_tail [OF unat_hi_byte unat_byte _ l]) (use le_sum_room [of k m "a + 1"] n k in simp)
  then have x: "ocs (unat ?x) = ocs (256 * unat (m a) + le_sum (bytes m (a + 1) k))" by (simp add: add.commute)
  have "lwip_standard_chksum m a n
      = ucast (let sm = FOLD_U32T (FOLD_U32T ?x) in if True then SWAP_BYTES_IN_WORD sm else sm)"
    unfolding lwip_standard_chksum_def Let_def
    by (simp only: True k l if_True simp_thms prod.case diff_Suc_1 zero_less_Suc)
  then show ?thesis using sum_finish [of True ?x "unat (m a)" "bytes m (a + 1) k" "bytes m a n"] x
    unfolding k poly_bytes_Suc by simp
next
  case False
  obtain sm ps n' where l: "sum16_loop m a n 0 = (sm, ps, n')" by (cases "sum16_loop m a n 0") auto
  let ?x = "sm + ucast (if 0 < n' then ((0 :: u16) AND 0xFF00) OR ucast (m ps) else 0)"
  have "unat ?x = unat (0 :: u32) + le_sum (bytes m a n) + 256 * 0"
    by (rule sum_tail [OF _ _ _ l]) (use le_sum_room [of n m a] n in simp_all)
  then have x: "unat ?x = le_sum (bytes m a n)" by simp
  have "lwip_standard_chksum m a n
      = ucast (let sm = FOLD_U32T (FOLD_U32T ?x) in if a AND 1 \<noteq> 0 then SWAP_BYTES_IN_WORD sm else sm)"
    unfolding lwip_standard_chksum_def Let_def
    by (simp only: False l if_False simp_thms prod.case)
  moreover have "a AND 1 \<noteq> 0 \<Longrightarrow> n = 0" using False by simp
  then have "unat (ucast (let sm = FOLD_U32T (FOLD_U32T ?x) in if a AND 1 \<noteq> 0 then SWAP_BYTES_IN_WORD sm else sm) :: u16)
      = ocs (poly (bytes m a n))"
    by (intro sum_finish [of _ _ 0 "[]"]) (simp_all add: x ocs_le_sum)
  ultimately show ?thesis by simp
qed

section \<open>The other two versions\<close>

lemma unat_pair_be: "unat (ucast ((push_bit 8 (ucast (b :: u8)) OR ucast (c :: u8)) :: u16) :: u32) = 256 * unat b + unat c"
proof -
  have "unat (push_bit 8 (ucast b) :: u16) = push_bit 8 (unat b)"
    using unat_hi_byte [of b] by (simp add: push_bit_eq_mult mult.commute)
  then show ?thesis using or_shift_nat(2) [of "unat c" 8 "unat b"] unat_byte [of c]
    by (simp only: unat_ucast8 unsigned_or_eq) simp
qed

lemma chksum1_loop_spec:
  "chksum1_loop m p len acc =
    (acc + of_nat (be_sum (bytes m p (2 * (len div 2)))), p + of_nat (2 * (len div 2)), len mod 2)"
proof (induction len arbitrary: p acc rule: less_induct)
  case (less len)
  show ?case
  proof (cases "1 < len")
    case True
    then have "len = Suc (Suc (len - 2))" by simp
    then obtain k where k: "len = Suc (Suc k)" by (rule that)
    define X where "X = 256 * unat (m p) + unat (m (p + 1))"
    define Y where "Y = be_sum (bytes m (p + 2) (2 * (k div 2)))"
    have l: "ucast ((push_bit 8 (ucast (m p)) OR ucast (m (p + 1))) :: u16) = (of_nat X :: u32)"
      unfolding X_def by (rule unat_of_nat_mono) (rule unat_pair_be)
    have d: "2 * (len div 2) = Suc (Suc (2 * (k div 2)))" "len mod 2 = k mod 2" "len - 2 = k" by (simp_all add: k)
    have "p + 1 + 1 = p + 2" by (simp add: add.assoc)
    then have Y: "be_sum (bytes m p (2 * (len div 2))) = X + Y"
      unfolding d(1) bytes_Suc X_def Y_def by (simp only: be_sum.simps)
    have p: "p + of_nat (2 * (len div 2)) = p + 2 + of_nat (2 * (k div 2))" unfolding d(1) by simp
    have "chksum1_loop m p len acc = chksum1_loop m (p + 2) k (acc + of_nat X)"
      using True by (subst chksum1_loop.simps) (simp only: d l if_True)
    also have "\<dots> = (acc + of_nat X + of_nat Y, p + 2 + of_nat (2 * (k div 2)), k mod 2)"
      unfolding Y_def by (rule less.IH) (simp add: k)
    finally show ?thesis unfolding Y p d(2) by (simp only: of_nat_add add.assoc)
  next
    case False
    then have "2 * (len div 2) = 0" "len mod 2 = len" by simp_all
    with False show ?thesis by (subst chksum1_loop.simps) (simp only: if_False bytes_0 be_sum.simps, simp)
  qed
qed

lemma be_sum_snoc: "even (length xs) \<Longrightarrow> be_sum (xs @ [b]) = be_sum xs + 256 * unat b"
  by (induction xs rule: be_sum.induct) simp_all

lemma be_sum_bound: "be_sum bs \<le> 65535 * ((length bs + 1) div 2)"
proof (induction bs rule: be_sum.induct)
  case (2 b)
  then show ?case using unat_byte [of b] by simp
next
  case (3 b c bs)
  then show ?case using unat_byte [of b] unat_byte [of c] by simp
qed simp

lemma be_sum_bytes: "be_sum (bytes m a n) =
  be_sum (bytes m a (2 * (n div 2))) + (if n mod 2 = 0 then 0 else 256 * unat (m (a + of_nat (2 * (n div 2)))))"
proof -
  obtain k where "n = 2 * k \<or> n = Suc (2 * k)" using oddE [of n] evenE [of n] by (metis Suc_eq_plus1)
  then consider "n = 2 * k" | "n = Suc (2 * k)" by blast
  then show ?thesis
  proof cases
    case 1
    then have "n div 2 = k" "n mod 2 = 0" by simp_all
    with 1 show ?thesis by (simp only: if_True add_0_right refl)
  next
    case 2
    then have d: "n div 2 = k" "n mod 2 = 1" by simp_all
    have "be_sum (bytes m a (Suc (2 * k))) = be_sum (bytes m a (2 * k)) + 256 * unat (m (a + of_nat (2 * k)))"
      unfolding bytes_snoc by (rule be_sum_snoc) simp
    then show ?thesis unfolding d using 2 by (simp only: one_neq_zero if_False)
  qed
qed

lemma htons_swap: "lwip_htons x = ucast (SWAP_BYTES_IN_WORD (ucast x))"
proof -
  have m: "(0xFF00 :: u16) = push_bit 8 (mask 8)" "(0xFF :: u16) = mask 8"
    "(0xFF00 :: u32) = push_bit 8 (mask 8)" "(0xFF :: u32) = mask 8" by (simp_all add: mask_eq_exp_minus_1)
  show ?thesis unfolding lwip_htons_def SWAP_BYTES_IN_WORD_def m
    by (rule bit_word_eqI) (auto simp: bit_simps)
qed

lemma unat_htons: "unat (lwip_htons x) = swap16 (unat x)"
proof -
  have "unat x < 2 ^ LENGTH(16)" by (rule unsigned_less)
  then have x: "unat x \<le> 65535" by simp
  then have s: "unat (SWAP_BYTES_IN_WORD (ucast x)) = swap16 (unat x)" by (subst unat_SWAP) simp_all
  have "swap16 (unat x) \<le> 65535" using ocs_le [of "256 * unat x"] swap16_ocs [of "unat x"] ocs_small [OF x] by simp
  then show ?thesis unfolding htons_swap by (subst unat_ucast16) (simp_all add: s)
qed

lemma FOLD_id: "acc AND 0xFFFF0000 = 0 \<Longrightarrow> FOLD_U32T acc = acc"
proof -
  assume a: "acc AND 0xFFFF0000 = 0"
  have m: "(0xFFFF0000 :: u32) = push_bit 16 (mask 16)" by (simp add: mask_eq_exp_minus_1)
  have "drop_bit 16 acc = drop_bit 16 (acc AND push_bit 16 (mask 16))"
    by (rule bit_word_eqI) (auto simp: bit_simps dest: bit_imp_le_length)
  then have "drop_bit 16 acc = 0" using a unfolding m by simp
  then have "unat acc div 65536 = 0" using unat_shift16 [of acc] by simp
  then have "unat (FOLD_U32T acc) = unat acc" unfolding unat_FOLD fold16_def using mult_div_mod_eq [of 65536 "unat acc"] by simp
  then show ?thesis by (simp only: word_unat_eq_iff)
qed

lemma FOLD_if: "(if acc AND 0xFFFF0000 \<noteq> 0 then FOLD_U32T acc else acc) = FOLD_U32T acc"
  by (cases "acc AND 0xFFFF0000 = 0") (simp_all only: FOLD_id simp_thms if_True if_False)

lemma lwip_chksum_1_spec:
  assumes n: "n < 65536"
  shows "unat (lwip_chksum_1 m a n) = ocs (poly (bytes m a n))"
proof -
  define Y where "Y = be_sum (bytes m a (2 * (n div 2)))"
  define c where "c = (if n mod 2 = 0 then 0 else 256 * unat (m (a + of_nat (2 * (n div 2)))))"
  have S: "be_sum (bytes m a n) = Y + c" unfolding Y_def c_def by (rule be_sum_bytes)
  have bound: "be_sum (bytes m a n) < 2 ^ 32"
    using be_sum_bound [of "bytes m a n"] div_le_mono [of "Suc n" 65536 2] n by simp
  have Y: "unat (of_nat Y :: u32) = Y" by (rule unat_of_nat_u32) (use bound S in linarith)
  let ?c = "ucast (push_bit 8 (ucast (m (a + of_nat (2 * (n div 2)))) :: u16)) :: u32"
  let ?x = "if 0 < n mod 2 then of_nat Y + ?c else of_nat Y"
  have c: "n mod 2 \<noteq> 0 \<Longrightarrow> unat ?c = c" unfolding c_def unat_ucast8 unat_hi_byte by simp
  have x: "unat ?x = be_sum (bytes m a n)"
  proof (cases "0 < n mod 2")
    case True
    then show ?thesis using c bound Y S by (subst if_P, simp) (subst unat_add_u32, simp_all)
  next
    case False
    then show ?thesis unfolding S c_def using Y by simp
  qed
  have e: "lwip_chksum_1 m a n = lwip_htons (ucast (FOLD_U32T (FOLD_U32T ?x)))"
    unfolding lwip_chksum_1_def Let_def chksum1_loop_spec Y_def [symmetric] prod.case add_0 FOLD_if ..
  have "unat (lwip_chksum_1 m a n) = swap16 (ocs (be_sum (bytes m a n)))"
    unfolding e unat_htons by (subst unat_ucast16) (simp_all only: unat_double_fold x ocs_le)
  then show ?thesis unfolding ocs_be_sum swap16_ocs ocs_swap_poly .
qed

text \<open>Version 3 adds words of 32 bits; the end-around carry keeps the sum modulo 65535.\<close>

lemma ocs_add2: "ocs a = ocs a' \<Longrightarrow> ocs b = ocs b' \<Longrightarrow> ocs (a + b) = ocs (a' + b')"
  using ocs_add by metis

lemma ocs_add_carry: "ocs (unat (add_carry sm x)) = ocs (unat sm + unat x)"
proof (cases "unat sm + unat x < 2 ^ 32")
  case True
  then have s: "unat (sm + x) = unat sm + unat x" by (rule unat_add_u32)
  then have "\<not> sm + x < sm" by (simp add: word_less_nat_alt)
  then show ?thesis using s by (simp add: add_carry_def Let_def)
next
  case False
  define d where "d = unat sm + unat x - 2 ^ 32"
  have b: "unat sm < 2 ^ 32" "unat x < 2 ^ 32" by (rule unat_u32_less)+
  have s: "unat (sm + x) = d"
    unfolding unat_word_ariths(1) d_def using False b by (simp add: mod_if)
  have "sm + x < sm" unfolding word_less_nat_alt s d_def using b False by linarith
  moreover have "unat (sm + x + 1) = d + 1" unfolding s [symmetric]
    by (subst unat_add_u32) (use b False in \<open>simp_all add: s d_def\<close>)
  ultimately have u: "unat (add_carry sm x) = d + 1" by (simp add: add_carry_def Let_def)
  have "unat sm + unat x = d + 1 + 65535 * 65537" using False unfolding d_def by simp
  then show ?thesis unfolding u by (intro ocs_cong) (simp_all only: mod_mult_self2, simp)
qed

lemma poly_append: "poly (xs @ ys) = poly xs + 256 ^ length xs * poly ys"
  by (induction xs) (simp_all add: algebra_simps)

lemma ocs_power: "even k \<Longrightarrow> ocs (256 ^ k * x) = ocs x"
proof -
  assume "even k"
  then obtain j where j: "k = 2 * j" by (rule evenE)
  have "(256 :: nat) ^ k mod 65535 = (256 ^ 2 mod 65535) ^ j mod 65535"
    unfolding j power_mult by (rule power_mod [symmetric])
  then have "256 ^ k mod 65535 = (1 :: nat)" by simp
  then have "256 ^ k * x mod 65535 = 1 * x mod 65535" by (intro mod_mult_cong) simp_all
  then show ?thesis by (intro ocs_cong) simp_all
qed

lemma ocs_poly_append: "even (length xs) \<Longrightarrow> ocs (poly (xs @ ys)) = ocs (poly xs + poly ys)"
  unfolding poly_append by (rule ocs_add2 [OF refl ocs_power])

lemma ocs_bytes_split: "even i \<Longrightarrow> ocs (poly (bytes m a (i + j))) = ocs (poly (bytes m a i) + poly (bytes m (a + of_nat i) j))"
  unfolding bytes_append by (rule ocs_poly_append) simp

lemma unat_load32: "unat (load32 m a) = poly (bytes m a 4)"
proof -
  have l: "unat (load16 m b) < 65536" for b
    unfolding unat_load16 using unat_byte [of "m b"] unat_byte [of "m (b + 1)"] by linarith
  have p: "unat (push_bit 16 (load16 m (a + 2))) = push_bit 16 (unat (load16 m (a + 2)))"
    using l [of "a + 2"] by (simp only: unsigned_push_bit_eq) (simp add: push_bit_eq_mult take_bit_nat_eq_self_iff)
  have "unat (load32 m a) = unat (load16 m a) + 65536 * unat (load16 m (a + 2))"
    unfolding load32_def using or_shift_nat(1) [of "unat (load16 m a)" 16 "unat (load16 m (a + 2))"] l [of a]
    by (simp only: unsigned_or_eq p) simp
  moreover have "bytes m a 4 = [m a, m (a + 1), m (a + 2), m (a + 2 + 1)]" by (simp add: bytes_def upt_rec add.commute)
  ultimately show ?thesis by (simp add: unat_load16)
qed

lemma chksum3_loop_spec:
  "\<exists>sm'. chksum3_loop m pl len sm = (sm', pl + of_nat (8 * (len div 8)), len mod 8)
    \<and> ocs (unat sm') = ocs (unat sm + poly (bytes m pl (8 * (len div 8))))"
proof (induction len arbitrary: pl sm rule: less_induct)
  case (less len)
  show ?case
  proof (cases "7 < len")
    case True
    define k where "k = len - 8"
    have k: "len = 8 + k" using True by (simp add: k_def)
    define sm2 where "sm2 = add_carry (add_carry sm (load32 m pl)) (load32 m (pl + 4))"
    have d: "8 * (len div 8) = 8 + 8 * (k div 8)" "len mod 8 = k mod 8" "len - 8 = k"
      unfolding k by (subst div_add_self1; simp) simp_all
    have p: "pl + of_nat (8 + 8 * (k div 8)) = pl + 8 + of_nat (8 * (k div 8))"
      by (simp only: of_nat_add of_nat_numeral add.assoc)
    have "k < len" by (simp add: k)
    from less.IH [OF this, of "pl + 8" sm2] obtain sm' where
      i: "chksum3_loop m (pl + 8) k sm2 = (sm', pl + 8 + of_nat (8 * (k div 8)), k mod 8)"
        "ocs (unat sm') = ocs (unat sm2 + poly (bytes m (pl + 8) (8 * (k div 8))))" by blast
    have "ocs (unat sm2) = ocs (unat (add_carry sm (load32 m pl)) + poly (bytes m (pl + 4) 4))"
      unfolding sm2_def ocs_add_carry unat_load32 ..
    also have "\<dots> = ocs (unat sm + poly (bytes m pl 4) + poly (bytes m (pl + 4) 4))"
      by (rule ocs_add2 [OF _ refl]) (simp only: ocs_add_carry unat_load32)
    also have "\<dots> = ocs (unat sm + (poly (bytes m pl 4) + poly (bytes m (pl + of_nat 4) 4)))"
      by (simp only: add.assoc of_nat_numeral)
    also have "\<dots> = ocs (unat sm + poly (bytes m pl (4 + 4)))"
      by (rule ocs_add2 [OF refl]) (simp only: ocs_bytes_split even_numeral)
    finally have s2: "ocs (unat sm2) = ocs (unat sm + poly (bytes m pl 8))" by simp
    have "ocs (unat sm') = ocs (unat sm + poly (bytes m pl 8) + poly (bytes m (pl + of_nat 8) (8 * (k div 8))))"
      unfolding i(2) of_nat_numeral by (rule ocs_add2 [OF s2 refl])
    also have "\<dots> = ocs (unat sm + poly (bytes m pl (8 + 8 * (k div 8))))"
      unfolding add.assoc by (rule ocs_add2 [OF refl]) (simp only: ocs_bytes_split even_numeral)
    finally have "ocs (unat sm') = ocs (unat sm + poly (bytes m pl (8 + 8 * (k div 8))))" .
    moreover have "chksum3_loop m pl len sm = (sm', pl + of_nat (8 + 8 * (k div 8)), k mod 8)"
      using True unfolding p i(1) [symmetric] sm2_def by (subst chksum3_loop.simps) (simp only: if_True d(3))
    ultimately show ?thesis unfolding d(1,2) by blast
  next
    case False
    then have "8 * (len div 8) = 0" "len mod 8 = len" by simp_all
    with False show ?thesis by (subst chksum3_loop.simps) (simp only: if_False bytes_0 poly.simps, simp)
  qed
qed

text \<open>Version 3 between the two treatments of an odd address.\<close>

lemma chksum3_core:
  fixes t :: u16
  assumes t: "unat t = 256 * b" "b < 256"
    and first: "(if p0 AND 3 \<noteq> 0 \<and> 1 < len then (load16 m p0, p0 + 2, len - 2) else (0, p0, len)) = (sm1, ps1, len1)"
    and loop: "chksum3_loop m ps1 len1 sm1 = (sm2, ps2, len2)"
    and rest: "sum16_loop m ps2 len2 (FOLD_U32T sm2) = (sm3, ps3, len3)"
  shows "ocs (unat (sm3 + ucast (if 0 < len3 then (t AND 0xFF00) OR ucast (m ps3) else t)))
    = ocs (256 * b + poly (bytes m p0 len))"
proof -
  have a: "ocs (poly (bytes m p0 len)) = ocs (unat sm1 + poly (bytes m ps1 len1))"
  proof (cases "p0 AND 3 \<noteq> 0 \<and> 1 < len")
    case True
    then obtain k where k: "len = 2 + k" using le_Suc_ex [of 2 len] by auto
    have f: "sm1 = load16 m p0" "ps1 = p0 + of_nat 2" "len1 = k"
      using first unfolding k by (simp_all only: True [unfolded k] simp_thms if_True) simp_all
    have "unat sm1 = poly (bytes m p0 2)" unfolding f(1) unat_load16 by (simp add: bytes_def upt_rec)
    then show ?thesis unfolding k f(2,3) by (simp only: ocs_bytes_split even_numeral)
  next
    case False
    with first show ?thesis by (simp only: if_False) simp
  qed
  from chksum3_loop_spec [of m ps1 len1 sm1] loop
  have l: "ps2 = ps1 + of_nat (8 * (len1 div 8))" "len2 = len1 mod 8"
    and o2: "ocs (unat sm2) = ocs (unat sm1 + poly (bytes m ps1 (8 * (len1 div 8))))" by auto
  have "even (8 * (len1 div 8))" by simp
  from ocs_bytes_split [OF this, of m ps1 "len1 mod 8"]
  have c: "ocs (poly (bytes m ps1 len1)) = ocs (poly (bytes m ps1 (8 * (len1 div 8))) + poly (bytes m ps2 len2))"
    unfolding l mult_div_mod_eq .
  have F: "unat (FOLD_U32T sm2) \<le> 131070"
  proof -
    have u: "unat sm2 < 2 ^ 32" by (rule unat_u32_less)
    then have "unat sm2 div 65536 < 65536" by (simp add: div_less_iff_less_mult)
    moreover have "unat sm2 mod 65536 < 65536" by simp
    ultimately show ?thesis unfolding unat_FOLD fold16_def by linarith
  qed
  have "len2 < 8" unfolding l(2) by simp
  then have L: "unat (FOLD_U32T sm2) + le_sum (bytes m ps2 len2) + 65535 < 2 ^ 32"
    using F le_sum_room [of len2 m ps2] by linarith
  have "ocs (unat (sm3 + ucast (if 0 < len3 then (t AND 0xFF00) OR ucast (m ps3) else t)))
      = ocs (unat (FOLD_U32T sm2) + le_sum (bytes m ps2 len2) + 256 * b)"
    unfolding sum_tail [OF t L rest] ..
  also have "\<dots> = ocs (unat sm2 + poly (bytes m ps2 len2) + 256 * b)"
    unfolding unat_FOLD by (intro ocs_add2 ocs_fold16 ocs_le_sum refl)
  also have "\<dots> = ocs (unat sm1 + poly (bytes m ps1 (8 * (len1 div 8))) + poly (bytes m ps2 len2) + 256 * b)"
    by (intro ocs_add2 o2 refl)
  also have "\<dots> = ocs (unat sm1 + poly (bytes m ps1 len1) + 256 * b)"
    unfolding add.assoc [of "unat sm1"] by (intro ocs_add2 c [symmetric] refl)
  also have "\<dots> = ocs (poly (bytes m p0 len) + 256 * b)" by (intro ocs_add2 a [symmetric] refl)
  finally show ?thesis by (simp only: add.commute)
qed

lemma lwip_chksum_3_spec: "unat (lwip_chksum_3 m a n) = ocs (poly (bytes m a n))"
proof -
  define o' where "o' = (a AND 1 \<noteq> 0)"
  define c where "c = (if o' \<and> 0 < n then unat (m a) else 0)"
  obtain t p0 len where i: "(if o' \<and> 0 < n then (push_bit 8 (ucast (m a)), a + 1, n - 1) else (0 :: u16, a, n)) = (t, p0, len)"
    by (rule prod_cases3)
  obtain sm1 ps1 len1 where f: "(if p0 AND 3 \<noteq> 0 \<and> 1 < len then (load16 m p0, p0 + 2, len - 2) else (0, p0, len)) = (sm1, ps1, len1)"
    by (rule prod_cases3)
  obtain sm2 ps2 len2 where l: "chksum3_loop m ps1 len1 sm1 = (sm2, ps2, len2)" by (rule prod_cases3)
  obtain sm3 ps3 len3 where r: "sum16_loop m ps2 len2 (FOLD_U32T sm2) = (sm3, ps3, len3)" by (rule prod_cases3)
  let ?x = "sm3 + ucast (if 0 < len3 then (t AND 0xFF00) OR ucast (m ps3) else t)"
  have t: "unat t = 256 * c" "c < 256"
    using i unat_byte [of "m a"] unat_hi_byte [of "m a"] unfolding c_def by (auto split: if_splits)
  have x: "ocs (unat ?x) = ocs (256 * c + poly (bytes m p0 len))" by (rule chksum3_core [OF t f l r])
  have e: "lwip_chksum_3 m a n = ucast (let sm = FOLD_U32T (FOLD_U32T ?x) in if o' then SWAP_BYTES_IN_WORD sm else sm)"
    unfolding lwip_chksum_3_def Let_def o'_def [symmetric] i prod.case f l r ..
  have "ocs (poly (bytes m a n)) = ocs (c + 256 * poly (bytes m p0 len))" if o'
  proof (cases n)
    case 0
    then show ?thesis using i c_def by simp
  next
    case (Suc k)
    then have "c = unat (m a)" "p0 = a + 1" "len = k" using that i unfolding c_def by simp_all
    then show ?thesis unfolding Suc poly_bytes_Suc by simp
  qed
  moreover have "c = 0" "p0 = a" "len = n" if "\<not> o'" using that i unfolding c_def by simp_all
  moreover have "ocs (256 * c + poly (bytes m p0 len)) = ocs (256 * c + le_sum (bytes m p0 len))"
    by (intro ocs_add2 ocs_le_sum [symmetric] refl)
  ultimately show ?thesis unfolding e using x by (intro sum_finish [of _ _ c "bytes m p0 len"]) auto
qed

section \<open>The three versions and RFC 1071\<close>

text \<open>
  The definition of the checksum in RFC 1071: the bytes in network order, two to a 16-bit word, an odd
  last byte padded with zero; the words are added and the carries out of the top are added back
  until none is left.
\<close>

function end_around :: "nat \<Rightarrow> nat" where
  "end_around n = (if n < 65536 then n else end_around (n div 65536 + n mod 65536))"
  by auto
termination
proof (relation "measure id")
  fix n :: nat
  assume "\<not> n < 65536"
  then have "0 < n div 65536" by (simp add: div_greater_zero_iff)
  then show "(n div 65536 + n mod 65536, n) \<in> measure id"
    using mult_div_mod_eq [of 65536 n] unfolding in_measure id_apply by linarith
qed simp

declare end_around.simps [simp del]

definition rfc1071_sum :: "u8 list \<Rightarrow> u16" where
  "rfc1071_sum bs = of_nat (end_around (be_sum bs))"

lemma end_around_ocs: "end_around n = ocs n"
proof (induction n rule: end_around.induct)
  case (1 n)
  show ?case
  proof (cases "n < 65536")
    case True
    then show ?thesis by (subst end_around.simps) (simp add: ocs_small)
  next
    case False
    then show ?thesis using "1.IH" ocs_fold16 [of n] by (subst end_around.simps) (simp add: fold16_def)
  qed
qed

lemma rfc1071_eqI:
  assumes "unat x = ocs (poly bs)"
  shows "lwip_ntohs x = rfc1071_sum bs"
proof -
  have "unat (lwip_ntohs x) = ocs (be_sum bs)"
    unfolding lwip_ntohs_def unat_htons assms swap16_ocs ocs_be_sum ..
  then show ?thesis unfolding rfc1071_sum_def end_around_ocs by (metis of_nat_unat ucast_id)
qed

text \<open>
  C35. The three implementations of the Internet checksum in the source are equivalent: for every
  memory, every address (aligned or not) and every length that fits 16 bits, each of them returns,
  once brought into host order, the one's complement sum that RFC 1071 defines on the bytes of
  the block. In particular the 32-bit accumulators never lose a carry.
\<close>

theorem chksum_versions_agree:
  "n < 65536 \<Longrightarrow> lwip_ntohs (lwip_standard_chksum m a n) = rfc1071_sum (bytes m a n)
    \<and> lwip_ntohs (lwip_chksum_1 m a n) = rfc1071_sum (bytes m a n)
    \<and> lwip_ntohs (lwip_chksum_3 m a n) = rfc1071_sum (bytes m a n)"
  using rfc1071_eqI [OF lwip_standard_chksum_spec] rfc1071_eqI [OF lwip_chksum_1_spec]
    rfc1071_eqI [OF lwip_chksum_3_spec] by blast

theorem chksum_versions_agree_witness:
  "lwip_ntohs (lwip_standard_chksum (\<lambda>a. ucast a) 0x101 5) = rfc1071_sum (bytes (\<lambda>a. ucast a) 0x101 5)
    \<and> rfc1071_sum (bytes (\<lambda>a. ucast a) 0x101 5) = 0x0906"
proof
  show "lwip_ntohs (lwip_standard_chksum (\<lambda>a. ucast a) 0x101 5) = rfc1071_sum (bytes (\<lambda>a. ucast a) 0x101 5)"
    by (rule chksum_versions_agree [THEN conjunct1]) simp
  show "rfc1071_sum (bytes (\<lambda>a. ucast a) 0x101 5) = 0x0906"
    by (simp add: rfc1071_sum_def bytes_def upt_rec end_around.simps)
qed

end
