(* ===== verification/Chksum_Chain.thy ===== *)
theory Chksum_Chain
  imports Chksum_Versions
begin

text \<open>
  Checksums of packets: the routines of \<^verbatim>\<open>lwIP/core/ipv4/inet_chksum.c\<close> that walk a chain of buffers, with
  and without the pseudo header of UDP and TCP, against RFC 1071 on the bytes of the packet, and
  what that gives to a receiver.
\<close>

section \<open>The running sum\<close>

lemma ocs_parity: "even (i + j) \<Longrightarrow> ocs (256 ^ i * x) = ocs (256 ^ j * x)"
proof -
  assume e: "even (i + j)"
  have "ocs (256 ^ (i + i) * (256 ^ j * x)) = ocs (256 ^ (i + j) * (256 ^ i * x))"
    by (simp add: power_add ac_simps)
  then show ?thesis using ocs_power [OF e, of "256 ^ i * x"] ocs_power [of "i + i" "256 ^ j * x"] by simp
qed

text \<open>
  The accumulator after \<open>L\<close> bytes of value \<open>X\<close> holds the sum, byte-swapped when \<open>L\<close> is odd. One turn of
  the loops adds a block; \<open>k\<close> stands for the length that decides about the swap.
\<close>

definition acc_is :: "u32 \<Rightarrow> nat \<Rightarrow> nat \<Rightarrow> bool" where
  "acc_is acc L X \<longleftrightarrow> unat acc = ocs (256 ^ L * X)"

lemma FOLD_sum:
  assumes "unat acc = ocs x" "unat (c :: u16) = ocs y"
  shows "unat (FOLD_U32T (acc + ucast c)) = ocs (x + y)"
proof -
  have le: "ocs x \<le> 65535" "ocs y \<le> 65535" by (rule ocs_le)+
  have s: "unat (acc + ucast c) = ocs x + ocs y"
    by (subst unat_add_u32) (use le in \<open>simp_all add: assms\<close>)
  have "fold16 (ocs x + ocs y) \<le> 65535"
  proof (cases "ocs x + ocs y < 65536")
    case False
    with le have "(ocs x + ocs y) div 65536 = 1" "(ocs x + ocs y) mod 65536 = ocs x + ocs y - 65536" by (auto simp: mod_if)
    with le show ?thesis by (simp add: fold16_def)
  qed (simp add: fold16_def)
  then have "fold16 (ocs x + ocs y) = ocs (ocs x + ocs y)" using ocs_small ocs_fold16 by metis
  then show ?thesis unfolding unat_FOLD s ocs_add by simp
qed

lemma acc_swap: "acc_is acc L X \<Longrightarrow> acc_is (SWAP_BYTES_IN_WORD acc) (Suc L) X"
proof -
  assume a: "acc_is acc L X"
  then have "unat acc \<le> 65535" by (simp add: acc_is_def ocs_le)
  then show ?thesis using a unat_SWAP [of acc] by (simp add: acc_is_def swap16_ocs mult.assoc)
qed

lemma acc_parity: "acc_is acc L X \<Longrightarrow> even (L + L') \<Longrightarrow> acc_is acc L' X"
  unfolding acc_is_def using ocs_parity [of L L' X] by simp

lemma acc_step:
  assumes a: "acc_is acc L X" and n: "n < 65536" and acc': "acc' = FOLD_U32T (acc + ucast (lwip_standard_chksum m p n))"
    and x: "X' = X + 256 ^ L * poly (bytes m p n)"
  shows "odd k \<Longrightarrow> acc_is (SWAP_BYTES_IN_WORD acc') (L + k) X'" "even k \<Longrightarrow> acc_is acc' (L + k) X'"
proof -
  have "unat acc' = ocs (256 ^ L * X + poly (bytes m p n))"
    unfolding acc' by (rule FOLD_sum) (use a in \<open>simp_all only: acc_is_def lwip_standard_chksum_spec [OF n]\<close>)
  also have "\<dots> = ocs (256 ^ L * X + 256 ^ (L + L) * poly (bytes m p n))"
    by (rule ocs_add2 [OF refl]) (simp only: ocs_power even_add simp_thms)
  also have "\<dots> = ocs (256 ^ L * X')" unfolding x by (simp add: power_add distrib_left mult.assoc)
  finally have s: "acc_is acc' L X'" unfolding acc_is_def .
  show "odd k \<Longrightarrow> acc_is (SWAP_BYTES_IN_WORD acc') (L + k) X'"
    by (rule acc_parity [OF acc_swap [OF s]]) simp
  show "even k \<Longrightarrow> acc_is acc' (L + k) X'"
    by (rule acc_parity [OF s]) simp
qed

text \<open>The final swap.\<close>

lemma acc_final: "acc_is acc L X \<Longrightarrow> unat (if odd L then SWAP_BYTES_IN_WORD acc else acc) = ocs X"
  using acc_parity [OF acc_swap [of acc L X], of 0] acc_parity [of acc L X 0] by (simp add: acc_is_def)

lemma odd_word: "(n :: u16) mod 2 \<noteq> 0 \<longleftrightarrow> odd (unat n)"
proof -
  have "unat (n mod 2) = unat n mod 2" by (simp add: unat_mod)
  then show ?thesis by (metis even_iff_mod_2_eq_zero unat_eq_zero)
qed

lemma chain_sum_spec:
  "chain s q qs \<Longrightarrow> acc_is acc L X \<Longrightarrow>
    \<exists>acc' L'. chain_sum q acc (odd L) s = Some (acc', odd L') \<and> acc_is acc' L' (X + 256 ^ L * poly (chain_bytes s qs))"
proof (induction qs arbitrary: q acc L X)
  case Nil
  then show ?case by (subst chain_sum.simps) auto
next
  case (Cons a qs)
  then have q: "q = a" "a \<noteq> 0" and c: "chain s (pnext (pb s a)) qs" by simp_all
  define n where "n = plen (pb s a)"
  define acc' where "acc' = FOLD_U32T (acc + ucast (lwip_standard_chksum (bmem s) (payload (pb s a)) (unat n)))"
  define X' where "X' = X + 256 ^ L * poly (bytes (bmem s) (payload (pb s a)) (unat n))"
  note st = acc_step [OF Cons.prems(2) unat_u16_less acc'_def X'_def, of "unat n"]
  have x: "X' + 256 ^ (L + unat n) * poly (chain_bytes s qs) = X + 256 ^ L * poly (chain_bytes s (a # qs))"
    by (simp add: X'_def n_def pbuf_bytes_def poly_append power_add distrib_left mult.assoc)
  show ?case
  proof (cases "n mod 2 \<noteq> 0")
    case True
    then have o: "odd (unat n)" by (metis odd_word)
    have "chain_sum q acc (odd L) s = chain_sum (pnext (pb s a)) (SWAP_BYTES_IN_WORD acc') (odd (L + unat n)) s"
      using True o q by (subst chain_sum.simps) (simp add: Let_def n_def [symmetric] acc'_def [symmetric])
    then show ?thesis using Cons.IH [OF c st(1) [OF o]] unfolding x by simp
  next
    case False
    then have o: "even (unat n)" by (metis odd_word)
    have "chain_sum q acc (odd L) s = chain_sum (pnext (pb s a)) acc' (odd (L + unat n)) s"
      using False o q by (subst chain_sum.simps) (simp add: Let_def n_def [symmetric] acc'_def [symmetric])
    then show ?thesis using Cons.IH [OF c st(2) [OF o]] unfolding x by simp
  qed
qed

text \<open>The same for the first \<open>n\<close> bytes of the chain, with the final swap.\<close>

lemma chain_sum_partial_step:
  assumes "q \<noteq> 0" "n \<noteq> 0" and k: "k = plen (pb s q)" and l: "l = (if n < k then n else k)"
    and a: "acc' = FOLD_U32T (acc + ucast (lwip_standard_chksum (bmem s) (payload (pb s q)) (unat l)))"
    and "\<not> 0x7FFF \<le> n - l"
  shows "chain_sum_partial q n acc sw s =
    (if k mod 2 \<noteq> 0 then chain_sum_partial (pnext (pb s q)) (n - l) (SWAP_BYTES_IN_WORD acc') (\<not> sw) s
     else chain_sum_partial (pnext (pb s q)) (n - l) acc' sw s)"
  using assms(1,2,6) unfolding a
  by (subst chain_sum_partial.simps) (simp only: Let_def k [symmetric] l [symmetric] if_False simp_thms)

lemma chain_sum_partial_spec:
  "chain s q qs \<Longrightarrow> acc_is acc L X \<Longrightarrow> unat n < 0x7FFF \<Longrightarrow>
    \<exists>acc' sw'. chain_sum_partial q n acc (odd L) s = Some (acc', sw')
      \<and> unat (if sw' then SWAP_BYTES_IN_WORD acc' else acc') = ocs (X + 256 ^ L * poly (take (unat n) (chain_bytes s qs)))"
proof (induction qs arbitrary: q acc L X n)
  case Nil
  then show ?case using acc_final [of acc L X] by (subst chain_sum_partial.simps) simp
next
  case (Cons a qs)
  show ?case
  proof (cases "n = 0")
    case True
    then show ?thesis using acc_final [OF Cons.prems(2)] by (subst chain_sum_partial.simps) simp
  next
    case False
    from Cons have q: "q = a" "a \<noteq> 0" and c: "chain s (pnext (pb s a)) qs" by simp_all
    define k where "k = plen (pb s a)"
    define l where "l = (if n < k then n else k)"
    have l: "unat l = min (unat n) (unat k)" by (simp add: l_def word_less_nat_alt min_def)
    have rest: "unat (n - l) = unat n - unat l"
      by (rule unat_sub) (simp add: word_le_nat_alt l)
    then have small: "unat (n - l) < 0x7FFF" using Cons.prems(3) by linarith
    define acc' where "acc' = FOLD_U32T (acc + ucast (lwip_standard_chksum (bmem s) (payload (pb s a)) (unat l)))"
    define X' where "X' = X + 256 ^ L * poly (bytes (bmem s) (payload (pb s a)) (unat l))"
    note st = acc_step [OF Cons.prems(2) unat_u16_less acc'_def X'_def, of "unat k"]
    have x: "X' + 256 ^ (L + unat k) * poly (take (unat (n - l)) (chain_bytes s qs))
        = X + 256 ^ L * poly (take (unat n) (chain_bytes s (a # qs)))"
    proof (cases "unat n \<le> unat k")
      case True
      then have "take (unat n) (pbuf_bytes s a) = bytes (bmem s) (payload (pb s a)) (unat l)"
        by (simp add: l pbuf_bytes_def k_def bytes_def take_map take_upt)
      with True show ?thesis by (simp add: rest l X'_def k_def)
    next
      case False
      then have "unat l = unat k" by (simp add: l)
      with False show ?thesis
        by (simp add: rest X'_def k_def pbuf_bytes_def poly_append power_add distrib_left mult.assoc)
    qed
    have ns: "\<not> 0x7FFF \<le> n - l" using small by (simp add: word_le_nat_alt)
    note step = chain_sum_partial_step [OF q(2) False k_def l_def acc'_def ns, of "odd L"]
    have "\<exists>acc2. chain_sum_partial q n acc (odd L) s = chain_sum_partial (pnext (pb s a)) (n - l) acc2 (odd (L + unat k)) s
        \<and> acc_is acc2 (L + unat k) X'"
    proof (cases "odd (unat k)")
      case True
      then have "k mod 2 \<noteq> 0" by (metis odd_word)
      moreover from True have "odd (L + unat k) = (\<not> odd L)" by simp
      ultimately show ?thesis using st(1) [OF True] unfolding q(1) step by (intro exI conjI) (simp_all only: if_True simp_thms)
    next
      case e: False
      then have "k mod 2 = 0" by (metis odd_word)
      moreover from e have "odd (L + unat k) = odd L" by simp
      moreover from e have "acc_is acc' (L + unat k) X'" by (intro st(2)) simp
      ultimately show ?thesis unfolding q(1) step by (intro exI conjI) (simp_all only: simp_thms if_False)
    qed
    then obtain acc2 where a2: "chain_sum_partial q n acc (odd L) s = chain_sum_partial (pnext (pb s a)) (n - l) acc2 (odd (L + unat k)) s"
      "acc_is acc2 (L + unat k) X'" by blast
    show ?thesis using Cons.IH [OF c a2(2) small] unfolding x a2(1) .
  qed
qed

section \<open>The checksum fields\<close>

lemma complement_field: "ucast (NOT (acc AND 0xFFFF) :: u32) = (NOT (ucast acc) :: u16)"
  unfolding and_mask by (rule bit_word_eqI) (auto simp: bit_simps)

lemma ntohs_NOT: "lwip_ntohs (NOT x) = NOT (lwip_ntohs x)"
proof -
  have m: "(0xFF00 :: u16) = push_bit 8 (mask 8)" "(0xFF :: u16) = mask 8" by (simp_all add: mask_eq_exp_minus_1)
  show ?thesis unfolding lwip_ntohs_def lwip_htons_def m by (rule bit_word_eqI) (auto simp: bit_simps)
qed

lemma field_of_sum:
  assumes "unat acc = ocs (poly bs)"
  shows "lwip_ntohs (ucast (NOT (acc AND 0xFFFF) :: u32)) = NOT (rfc1071_sum bs)"
proof -
  have "unat (ucast acc :: u16) = ocs (poly bs)" using unat_ucast16 [of acc] assms ocs_le by metis
  then show ?thesis unfolding complement_field ntohs_NOT by (simp only: rfc1071_eqI)
qed

definition word_bytes :: "u32 \<Rightarrow> u8 list" where
  "word_bytes w = [ucast w, ucast (drop_bit 8 w), ucast (drop_bit 16 w), ucast (drop_bit 24 w)]"

definition pseudo_header :: "u32 \<Rightarrow> u32 \<Rightarrow> u8 \<Rightarrow> u16 \<Rightarrow> u8 list" where
  "pseudo_header src dest proto n = word_bytes src @ word_bytes dest @ [0, proto, ucast (drop_bit 8 n), ucast n]"

lemma unat_byte_of: "unat (ucast (drop_bit k (w :: u32)) :: u8) = unat w div 2 ^ k mod 256"
  by (simp only: unsigned_ucast_eq unsigned_drop_bit_eq take_bit_unat) (simp add: drop_bit_eq_div take_bit_eq_mod)

lemma poly_word_bytes: "poly (word_bytes w) = unat w"
proof -
  define v where "v = unat w"
  have "v < 2 ^ 32" unfolding v_def by (rule unat_u32_less)
  then have v: "v div 16777216 < 256" by (simp add: div_less_iff_less_mult)
  have b: "unat (ucast w :: u8) = v mod 256" using unat_byte_of [of 0 w] by (simp add: v_def)
  have "v = v mod 256 + 256 * (v div 256 mod 256 + 256 * (v div 256 div 256 mod 256 + 256 * (v div 256 div 256 div 256)))"
    by (simp only: mod_mult_div_eq)
  also have "\<dots> = v mod 256 + 256 * (v div 256 mod 256 + 256 * (v div 65536 mod 256 + 256 * (v div 16777216)))"
    by (simp add: div_mult2_eq [symmetric])
  finally show ?thesis using v unfolding word_bytes_def v_def [symmetric] by (simp add: unat_byte_of b v_def [symmetric])
qed

lemma poly_pseudo_header:
  "ocs (poly (pseudo_header src dest proto n @ bs)) =
    ocs (unat src + unat dest + 256 * unat proto + swap16 (unat n) + poly bs)"
proof -
  have n: "unat n < 65536" by (rule unat_u16_less)
  have d: "unat (ucast (drop_bit 8 n) :: u8) = unat n div 256"
  proof -
    have "unat n div 256 < 256" using n by (simp add: div_less_iff_less_mult)
    then show ?thesis by (simp only: unsigned_ucast_eq unsigned_drop_bit_eq) (simp add: drop_bit_eq_div take_bit_eq_mod)
  qed
  have m: "unat (ucast n :: u8) = unat n mod 256" by (simp add: unsigned_ucast_eq take_bit_eq_mod)
  have t: "ocs (poly [0, proto, ucast (drop_bit 8 n), ucast n]) = ocs (256 * unat proto + swap16 (unat n))"
  proof -
    have e: "even (length [0, proto])" by simp
    show ?thesis using ocs_poly_append [OF e, of "[ucast (drop_bit 8 n), ucast n]"]
      by (simp add: d m swap16_def add.commute mult.commute)
  qed
  have l: "even (length (word_bytes src))" "even (length (word_bytes dest))" "even (length (pseudo_header src dest proto n))"
    by (simp_all add: word_bytes_def pseudo_header_def)
  have "ocs (poly (pseudo_header src dest proto n)) = ocs (unat src + poly (word_bytes dest @ [0, proto, ucast (drop_bit 8 n), ucast n]))"
    unfolding pseudo_header_def ocs_poly_append [OF l(1)] poly_word_bytes ..
  also have "\<dots> = ocs (unat src + (unat dest + poly [0, proto, ucast (drop_bit 8 n), ucast n]))"
    by (rule ocs_add2 [OF refl]) (simp only: ocs_poly_append [OF l(2)] poly_word_bytes)
  also have "\<dots> = ocs (unat src + (unat dest + (256 * unat proto + swap16 (unat n))))"
    by (intro ocs_add2 t refl)
  finally have "ocs (poly (pseudo_header src dest proto n)) = ocs (unat src + unat dest + 256 * unat proto + swap16 (unat n))"
    by (simp only: add.assoc)
  then show ?thesis unfolding ocs_poly_append [OF l(3)] by (rule ocs_add2 [OF _ refl])
qed

lemma unat_add_bound:
  "unat x \<le> i \<Longrightarrow> unat y \<le> 65535 \<Longrightarrow> i \<le> 1000000 \<Longrightarrow> unat (x + y :: u32) = unat x + unat y \<and> unat (x + y) \<le> i + 65535"
  by (subst unat_add_u32; (subst unat_add_u32)?) simp_all

lemma add_pseudo_spec:
  assumes "unat acc = ocs (poly bs)"
  shows "lwip_ntohs (add_pseudo src dest proto n acc) = NOT (rfc1071_sum (pseudo_header src dest proto n @ bs))"
proof -
  have h: "unat (w AND 0xFFFF) = unat w mod 65536" "unat (drop_bit 16 w AND 0xFFFF) = unat w div 65536" for w :: u32
  proof -
    have "unat w < 2 ^ 32" by (rule unat_u32_less)
    then have "unat w div 65536 < 65536" by (simp add: div_less_iff_less_mult)
    then show "unat (w AND 0xFFFF) = unat w mod 65536" "unat (drop_bit 16 w AND 0xFFFF) = unat w div 65536"
      unfolding unat_and_FFFF unat_shift16 by simp_all
  qed
  have hb: "unat w mod 65536 \<le> 65535" "unat w div 65536 \<le> 65535" for w :: u32
    using h(2) [of w] unat_and_FFFF [of "drop_bit 16 w"] mod_less_divisor [of 65536 "unat w"]
      mod_less_divisor [of 65536 "unat (drop_bit 16 w)"] by simp_all
  let ?p = "ucast (lwip_htons (ucast proto)) :: u32" and ?l = "ucast (lwip_htons n) :: u32"
  have p: "unat ?p = 256 * unat proto" unfolding unat_ucast8 unat_htons swap16_def using unat_byte [of proto] by simp
  have l: "unat ?l = swap16 (unat n)" by (simp only: unat_ucast8 unat_htons)
  have pl: "unat ?p \<le> 65535" "unat ?l \<le> 65535" using unat_u16_less by (simp_all only: unat_ucast8 less_Suc_eq_le [symmetric]) simp_all
  define x where "x = acc + (src AND 0xFFFF) + (drop_bit 16 src AND 0xFFFF) + (dest AND 0xFFFF) + (drop_bit 16 dest AND 0xFFFF) + ?p + ?l"
  have "unat x = ocs (poly bs) + unat src mod 65536 + unat src div 65536 + unat dest mod 65536 + unat dest div 65536
      + 256 * unat proto + swap16 (unat n)"
  proof -
    have a: "unat acc \<le> 65535" unfolding assms by (rule ocs_le)
    have u: "unat (w AND 0xFFFF) \<le> 65535" "unat (drop_bit 16 w AND 0xFFFF) \<le> 65535" for w :: u32
      unfolding h by (rule hb)+
    note 1 = unat_add_bound [OF a u(1) [of src]]
    note 2 = unat_add_bound [OF 1 [THEN conjunct2] u(2) [of src]]
    note 3 = unat_add_bound [OF 2 [THEN conjunct2] u(1) [of dest]]
    note 4 = unat_add_bound [OF 3 [THEN conjunct2] u(2) [of dest]]
    note 5 = unat_add_bound [OF 4 [THEN conjunct2] pl(1)]
    note 6 = unat_add_bound [OF 5 [THEN conjunct2] pl(2)]
    have d: "unat (drop_bit 16 w) mod 65536 = unat w div 65536" for w :: u32
      using h(2) [of w] unfolding unat_and_FFFF .
    show ?thesis unfolding x_def using 1 2 3 4 5 6 by (simp only: unat_and_FFFF d p l assms)
  qed
  then have "unat x = fold16 (unat src) + fold16 (unat dest) + 256 * unat proto + swap16 (unat n) + ocs (poly bs)"
    by (simp add: fold16_def)
  then have "ocs (unat x) = ocs (unat src + unat dest + 256 * unat proto + swap16 (unat n) + poly bs)"
    by (simp only:) (intro ocs_add2 ocs_fold16 refl, simp add: ocs_small ocs_le)
  then have x: "unat (FOLD_U32T (FOLD_U32T x)) = ocs (poly (pseudo_header src dest proto n @ bs))"
    unfolding unat_double_fold poly_pseudo_header .
  have "add_pseudo src dest proto n acc = ucast (NOT (FOLD_U32T (FOLD_U32T x) AND 0xFFFF))"
    unfolding add_pseudo_def Let_def x_def ..
  then show ?thesis using field_of_sum [OF x] by simp
qed

text \<open>
  C36. The checksum routines of the protocols return, whatever the number, lengths, parities and
  alignments of the buffers of a chain, and the field they return is (in network order) the one's
  complement of the RFC 1071 sum of the concatenated bytes, with the pseudo header of UDP and TCP
  in front for \<open>inet_chksum_pseudo\<close>, and over the first \<open>chksum_len\<close> bytes only for
  \<open>inet_chksum_pseudo_partial\<close>, for which the source's own assertion asks for less than \<open>0x7FFF\<close> bytes.
\<close>

theorem chain_checksums:
  assumes "chain s p ps" "unat chksum_len < 0x7FFF"
  shows "\<exists>c d e. inet_chksum_pbuf p s = Some c
      \<and> inet_chksum_pseudo p src dest proto proto_len s = Some d
      \<and> inet_chksum_pseudo_partial p src dest proto proto_len chksum_len s = Some e
      \<and> lwip_ntohs c = NOT (rfc1071_sum (chain_bytes s ps))
      \<and> lwip_ntohs d = NOT (rfc1071_sum (pseudo_header src dest proto proto_len @ chain_bytes s ps))
      \<and> lwip_ntohs e = NOT (rfc1071_sum (pseudo_header src dest proto proto_len @ take (unat chksum_len) (chain_bytes s ps)))"
proof -
  have start: "acc_is 0 0 0" by (simp add: acc_is_def)
  from chain_sum_spec [OF assms(1) start] obtain acc L
    where c: "chain_sum p 0 False s = Some (acc, odd L)" "acc_is acc L (poly (chain_bytes s ps))" by auto
  note f = acc_final [OF c(2)]
  from chain_sum_partial_spec [OF assms(1) start assms(2)] obtain acc' sw
    where d: "chain_sum_partial p chksum_len 0 False s = Some (acc', sw)"
      "unat (if sw then SWAP_BYTES_IN_WORD acc' else acc') = ocs (poly (take (unat chksum_len) (chain_bytes s ps)))" by auto
  show ?thesis
    using field_of_sum [OF f] add_pseudo_spec [OF f, of src dest proto proto_len] add_pseudo_spec [OF d(2), of src dest proto proto_len]
    by (simp add: inet_chksum_pbuf_def inet_chksum_pseudo_def inet_chksum_pseudo_partial_def c(1) d(1))
qed

lemma unat_NOT16: "unat (NOT x :: u16) = 65535 - unat x"
proof -
  have m: "(65535 :: u16) = - 1" by simp
  have "NOT x = 65535 - x" unfolding m by (simp add: not_eq_complement algebra_simps)
  moreover have "x \<le> 65535" using unat_u16_less [of x] by (simp add: word_le_nat_alt)
  ultimately show ?thesis by (simp add: unat_sub)
qed

lemma inet_chksum_pbuf_value:
  assumes "chain s p ps"
  obtains c where "inet_chksum_pbuf p s = Some c" "unat c = 65535 - ocs (poly (chain_bytes s ps))"
proof -
  have "acc_is 0 0 0" by (simp add: acc_is_def)
  from chain_sum_spec [OF assms this] obtain acc L
    where c: "chain_sum p 0 False s = Some (acc, odd L)" "acc_is acc L (poly (chain_bytes s ps))" by auto
  let ?a = "if odd L then SWAP_BYTES_IN_WORD acc else acc"
  have a: "unat ?a = ocs (poly (chain_bytes s ps))" by (rule acc_final [OF c(2)])
  have "inet_chksum_pbuf p s = Some (NOT (ucast ?a))"
    unfolding inet_chksum_pbuf_def c(1) by (simp add: complement_field [symmetric] Let_def)
  moreover have "unat (NOT (ucast ?a :: u16)) = 65535 - ocs (poly (chain_bytes s ps))"
    unfolding unat_NOT16 by (subst unat_ucast16) (simp_all only: a ocs_le)
  ultimately show ?thesis by (rule that)
qed

text \<open>A receiver accepts a packet when the checksum over all of it, field included, is 0.\<close>

lemma accepted_iff:
  assumes "chain s p ps"
  shows "inet_chksum_pbuf p s = Some 0 \<longleftrightarrow> poly (chain_bytes s ps) \<noteq> 0 \<and> poly (chain_bytes s ps) mod 65535 = 0"
proof -
  define X where "X = poly (chain_bytes s ps)"
  from assms obtain c where c: "inet_chksum_pbuf p s = Some c" "unat c = 65535 - ocs X"
    unfolding X_def by (rule inet_chksum_pbuf_value)
  have "c = 0 \<longleftrightarrow> ocs X = 65535" using c(2) ocs_le [of X] by (auto simp: unat_eq_zero [symmetric])
  also have "\<dots> \<longleftrightarrow> X \<noteq> 0 \<and> X mod 65535 = 0"
  proof
    assume e: "ocs X = 65535"
    have "X \<noteq> 0" using e by (metis ocs_0(2) zero_neq_numeral)
    moreover have "X mod 65535 = 0" using ocs_mod [of X] unfolding e by simp
    ultimately show "X \<noteq> 0 \<and> X mod 65535 = 0" by simp
  next
    assume e: "X \<noteq> 0 \<and> X mod 65535 = 0"
    have "ocs X \<noteq> 0" using e by simp
    moreover have "ocs X mod 65535 = 0" using e by simp
    ultimately show "ocs X = 65535" using ocs_le [of X] mod_less [of "ocs X" 65535] by linarith
  qed
  finally show ?thesis unfolding c(1) X_def by simp
qed

definition field_bytes :: "u16 \<Rightarrow> u8 list" where
  "field_bytes c = [ucast c, ucast (drop_bit 8 c)]"

lemma poly_field_bytes: "poly (field_bytes c) = unat c"
proof -
  have "unat c div 256 < 256" using unat_u16_less [of c] by (simp add: div_less_iff_less_mult)
  then have "unat (ucast (drop_bit 8 c) :: u8) = unat c div 256"
    by (simp only: unsigned_ucast_eq unsigned_drop_bit_eq take_bit_unat) (simp add: drop_bit_eq_div take_bit_eq_mod)
  moreover have "unat (ucast c :: u8) = unat c mod 256" by (simp add: unsigned_ucast_eq take_bit_eq_mod)
  ultimately show ?thesis by (simp add: field_bytes_def)
qed

lemma poly_filled:
  assumes "even (length xs)"
  shows "poly (xs @ field_bytes c @ ys) = poly (xs @ [0, 0] @ ys) + 256 ^ length xs * unat c"
proof -
  have "length (field_bytes c) = 2" by (simp add: field_bytes_def)
  then show ?thesis by (simp add: poly_append poly_field_bytes algebra_simps power_add)
qed

text \<open>
  C37. A packet that carries its checksum is accepted: when the sender computes the checksum with
  the field (at an even offset) cleared and stores it there, the receiver, whose chain may be
  split into buffers in a different way, computes 0 over the whole packet. This also holds for a
  packet of zero bytes, whose checksum is all ones.
\<close>

theorem checksum_roundtrip:
  assumes "chain s p ps" "chain_bytes s ps = xs @ [0, 0] @ ys" "even (length xs)"
    and "chain s' q qs" "chain_bytes s' qs = xs @ field_bytes (the (inet_chksum_pbuf p s)) @ ys"
  shows "inet_chksum_pbuf q s' = Some 0"
proof -
  define X where "X = poly (xs @ [0, 0] @ ys)"
  obtain c where c: "inet_chksum_pbuf p s = Some c" "unat c = 65535 - ocs X"
    using inet_chksum_pbuf_value [OF assms(1)] unfolding assms(2) X_def by blast
  have v: "poly (chain_bytes s' qs) = X + 256 ^ length xs * unat c"
    unfolding assms(5) c(1) X_def option.sel by (rule poly_filled [OF assms(3)])
  have o: "ocs (X + 256 ^ length xs * unat c) = ocs (X + unat c)"
    by (rule ocs_add2 [OF refl ocs_power [OF assms(3)]])
  have "ocs (X + unat c) = ocs (ocs X + unat c)" by (simp only: ocs_add)
  also have "\<dots> = ocs 65535" unfolding c(2) using ocs_le [of X] by simp
  also have "\<dots> = 65535" by (simp add: ocs_small)
  finally have e: "ocs (poly (chain_bytes s' qs)) = 65535" unfolding v o .
  then have "poly (chain_bytes s' qs) \<noteq> 0" by (metis ocs_0(2) zero_neq_numeral)
  moreover have "poly (chain_bytes s' qs) mod 65535 = 0" using ocs_mod [of "poly (chain_bytes s' qs)"] unfolding e by simp
  ultimately show ?thesis unfolding accepted_iff [OF assms(4)] by simp
qed

text \<open>
  C38. Corruption of a single byte is always detected: when a packet is accepted, one that differs
  from it in exactly one byte, at any offset, is not.
\<close>

theorem checksum_detects_byte:
  assumes "chain s p ps" "chain_bytes s ps = xs @ b # ys" "inet_chksum_pbuf p s = Some 0"
    and "chain s' q qs" "chain_bytes s' qs = xs @ b' # ys" "b' \<noteq> b"
  shows "inet_chksum_pbuf q s' \<noteq> Some 0"
proof
  assume "inet_chksum_pbuf q s' = Some 0"
  then have 1: "poly (xs @ b' # ys) mod 65535 = 0" using accepted_iff [OF assms(4)] assms(5) by simp
  have 2: "poly (xs @ b # ys) mod 65535 = 0" using accepted_iff [OF assms(1)] assms(2,3) by simp
  let ?k = "256 ^ length xs :: int"
  have "int (poly (xs @ b' # ys)) - int (poly (xs @ b # ys)) = ?k * (int (unat b') - int (unat b))"
    by (simp add: poly_append algebra_simps)
  moreover have "65535 dvd int (poly (xs @ b' # ys)) - int (poly (xs @ b # ys))"
    using 1 2 by (intro dvd_diff) (simp_all add: zmod_int [symmetric] mod_eq_0_iff_dvd flip: int_dvd_int_iff)
  ultimately have "65535 dvd ?k * (int (unat b') - int (unat b))" by simp
  moreover have "coprime (65535 :: int) 256"
  proof (rule coprimeI)
    fix c :: int
    assume "c dvd 65535" "c dvd 256"
    then have "c dvd 256 * 256 - 65535" by (intro dvd_diff dvd_mult) 
    then show "is_unit c" by simp
  qed
  then have "coprime (65535 :: int) ?k" by simp
  ultimately have d: "65535 dvd int (unat b') - int (unat b)" by (simp add: coprime_dvd_mult_right_iff)
  have "\<bar>int (unat b') - int (unat b)\<bar> < 256" using unat_byte [of b] unat_byte [of b'] by linarith
  then have "int (unat b') - int (unat b) = 0" using d dvd_imp_le_int [of "int (unat b') - int (unat b)" 65535] by linarith
  then have "unat b' = unat b" by linarith
  then show False using assms(6) by (simp only: word_unat_eq_iff)
qed

text \<open>A packet in two buffers of odd length, and the same packet received in one buffer at an odd address.\<close>

definition sent_packet :: "unit pbufs" where
  "sent_packet = \<lparr>pb = (\<lambda>p. if p = 0x100 then \<lparr>pnext = 0x200, payload = 0x110, tot_len = 6, plen = 3, ptype = PBUF_RAM, flags = 0, ref = 1\<rparr>
      else \<lparr>pnext = 0, payload = 0x210, tot_len = 3, plen = 3, ptype = PBUF_RAM, flags = 0, ref = 1\<rparr>),
    bmem = (\<lambda>a. if a = 0x110 then 0x45 else if a = 0x111 then 0x12 else if a = 0x211 then 0xFE else if a = 0x212 then 0x07 else 0),
    memp_tab = (\<lambda>_. 0), pbuf_free_ooseq_queued = False, env_state = ()\<rparr>"

definition received_packet :: "unit pbufs" where
  "received_packet = \<lparr>pb = (\<lambda>p. \<lparr>pnext = 0, payload = 0x301, tot_len = 6, plen = 6, ptype = PBUF_RAM, flags = 0, ref = 1\<rparr>),
    bmem = (\<lambda>a. if a = 0x301 then 0x45 else if a = 0x302 then 0x12 else if a = 0x303 then 0xBC else if a = 0x304 then 0xE5
             else if a = 0x305 then 0xFE else if a = 0x306 then 0x07 else 0),
    memp_tab = (\<lambda>_. 0), pbuf_free_ooseq_queued = False, env_state = ()\<rparr>"

lemma sent_packet_chain: "chain sent_packet 0x100 [0x100, 0x200]"
  by (simp add: sent_packet_def)

lemma sent_packet_bytes: "chain_bytes sent_packet [0x100, 0x200] = [0x45, 0x12] @ [0, 0] @ [0xFE, 0x07]"
  by (simp add: sent_packet_def pbuf_bytes_def bytes_def upt_rec)

lemma received_packet_chain: "chain received_packet 0x300 [0x300]"
  by (simp add: received_packet_def)

lemma received_packet_bytes: "chain_bytes received_packet [0x300] = [0x45, 0x12, 0xBC, 0xE5, 0xFE, 0x07]"
  by (simp add: received_packet_def pbuf_bytes_def bytes_def upt_rec)

lemma sent_packet_checksum: "inet_chksum_pbuf 0x100 sent_packet = Some 0xE5BC"
proof -
  obtain c where c: "inet_chksum_pbuf 0x100 sent_packet = Some c"
    "unat c = 65535 - ocs (poly (chain_bytes sent_packet [0x100, 0x200]))"
    by (rule inet_chksum_pbuf_value [OF sent_packet_chain])
  then have "unat c = unat (0xE5BC :: u16)" unfolding sent_packet_bytes by (simp add: ocs_def)
  then have "c = 0xE5BC" by (simp only: word_unat_eq_iff)
  then show ?thesis using c(1) by simp
qed

theorem chain_checksums_witness:
  "\<exists>c d e. inet_chksum_pbuf 0x100 sent_packet = Some c
      \<and> inet_chksum_pseudo 0x100 0x0A00000A 0x0B00000A 17 6 sent_packet = Some d
      \<and> inet_chksum_pseudo_partial 0x100 0x0A00000A 0x0B00000A 17 6 5 sent_packet = Some e
      \<and> lwip_ntohs c = NOT (rfc1071_sum (chain_bytes sent_packet [0x100, 0x200]))
      \<and> lwip_ntohs d = NOT (rfc1071_sum (pseudo_header 0x0A00000A 0x0B00000A 17 6 @ chain_bytes sent_packet [0x100, 0x200]))
      \<and> lwip_ntohs e = NOT (rfc1071_sum (pseudo_header 0x0A00000A 0x0B00000A 17 6 @ take (unat (5 :: u16)) (chain_bytes sent_packet [0x100, 0x200])))"
  by (rule chain_checksums [OF sent_packet_chain]) simp

theorem checksum_roundtrip_witness: "inet_chksum_pbuf 0x300 received_packet = Some 0"
proof (rule checksum_roundtrip [OF sent_packet_chain sent_packet_bytes _ received_packet_chain])
  have "field_bytes 0xE5BC = [0xBC, 0xE5]" by code_simp
  then show "chain_bytes received_packet [0x300] = [0x45, 0x12] @ field_bytes (the (inet_chksum_pbuf 0x100 sent_packet)) @ [0xFE, 0x07]"
    unfolding received_packet_bytes sent_packet_checksum option.sel by simp
qed simp

theorem checksum_detects_byte_witness:
  "inet_chksum_pbuf 0x300 received_packet = Some 0
    \<and> inet_chksum_pbuf 0x300 (received_packet\<lparr>bmem := (bmem received_packet)(0x305 := 0xFF)\<rparr>) \<noteq> Some 0"
proof
  have "poly (chain_bytes received_packet [0x300]) \<noteq> 0 \<and> poly (chain_bytes received_packet [0x300]) mod 65535 = 0"
    unfolding received_packet_bytes by simp
  then show a: "inet_chksum_pbuf 0x300 received_packet = Some 0"
    using accepted_iff [OF received_packet_chain] by simp
  show "inet_chksum_pbuf 0x300 (received_packet\<lparr>bmem := (bmem received_packet)(0x305 := 0xFF)\<rparr>) \<noteq> Some 0"
    by (rule checksum_detects_byte [OF received_packet_chain _ a, where xs = "[0x45, 0x12, 0xBC, 0xE5]" and b = "0xFE" and ys = "[0x07]" and b' = "0xFF" and qs = "[0x300]"])
      (simp_all add: received_packet_bytes, simp_all add: received_packet_def pbuf_bytes_def bytes_def upt_rec)
qed

end
