(* ===== verification/Pbuf_Packets.thy ===== *)
theory Pbuf_Packets
  imports Pbuf_Chain
begin

text \<open>
  Packets: the well-formedness of chains of pbufs (exact \<open>tot_len\<close> fields, reference counts, no sharing
  with other packets or with the free lists of the pools), and the lemmas that \<open>pbuf_free\<close>,
  \<open>pbuf_ref\<close>, \<open>pbuf_header\<close>, \<open>pbuf_cat\<close> and \<open>pbuf_dechain\<close> keep it.
\<close>

section \<open>Chains and updates of the store\<close>

lemma upd_pb_simps [simp]:
  "pb (upd_pb p f s) q = (if q = p then f (pb s p) else pb s q)"
  "bmem (upd_pb p f s) = bmem s" "memp_tab (upd_pb p f s) = memp_tab s" "env_state (upd_pb p f s) = env_state s"
  by (simp_all add: upd_pb_def)

lemma chain_cong: "(\<And>q. q \<in> set ps \<Longrightarrow> pnext (pb s' q) = pnext (pb s q)) \<Longrightarrow> chain s' p ps = chain s p ps"
  by (induction ps arbitrary: p) auto

lemma chain_0 [simp]: "chain s 0 ps \<longleftrightarrow> ps = []"
  by (cases ps) auto

lemma chain_nonzero: "chain s p ps \<Longrightarrow> 0 \<notin> set ps"
  by (induction ps arbitrary: p) auto

lemma chain_unique: "chain s p ps \<Longrightarrow> chain s p qs \<Longrightarrow> ps = qs"
proof (induction ps arbitrary: p qs)
  case (Cons a ps)
  then show ?case by (cases qs) auto
qed simp

lemma chain_suffix: "chain s p (ps @ q # qs) \<Longrightarrow> chain s q (q # qs)"
  by (induction ps arbitrary: p) auto

lemma chain_distinct: "chain s p ps \<Longrightarrow> distinct ps"
proof (induction ps arbitrary: p)
  case (Cons a ps)
  have "a \<notin> set ps"
  proof
    assume "a \<in> set ps"
    then obtain us vs where "ps = us @ a # vs" by (auto simp: in_set_conv_decomp)
    with Cons.prems have "chain s a (a # vs)" using chain_suffix [of s "pnext (pb s a)" us a vs] by simp
    moreover have "chain s a (a # ps)" using Cons.prems by simp
    ultimately have "vs = ps" using chain_unique by blast
    with \<open>ps = us @ a # vs\<close> show False by simp
  qed
  with Cons show ?case by auto
qed simp

lemma chain_hd: "chain s p ps \<Longrightarrow> ps \<noteq> [] \<Longrightarrow> p = hd ps"
  by (cases ps) auto

section \<open>Packets and pools\<close>

definition chain_len :: "'h pbufs \<Rightarrow> u32 list \<Rightarrow> nat" where
  "chain_len s ps = sum_list (map (\<lambda>q. unat (plen (pb s q))) ps)"

lemma chain_len_simps [simp]:
  "chain_len s [] = 0" "chain_len s (q # qs) = unat (plen (pb s q)) + chain_len s qs"
  "chain_len s (ps @ qs) = chain_len s ps + chain_len s qs"
  by (simp_all add: chain_len_def)

lemma chain_len_cong: "(\<And>q. q \<in> set ps \<Longrightarrow> plen (pb s' q) = plen (pb s q)) \<Longrightarrow> chain_len s' ps = chain_len s ps"
  unfolding chain_len_def by (simp cong: map_cong)

lemma length_chain_bytes: "length (chain_bytes s ps) = chain_len s ps"
  by (induction ps) simp_all

text \<open>\<open>tot_len\<close> counts the bytes from a pbuf to the end of its chain, and \<open>r\<close> bytes that follow.\<close>

primrec tot_from :: "'h pbufs \<Rightarrow> nat \<Rightarrow> u32 list \<Rightarrow> bool" where
  "tot_from s r [] \<longleftrightarrow> True"
| "tot_from s r (q # qs) \<longleftrightarrow> unat (tot_len (pb s q)) = chain_len s (q # qs) + r \<and> tot_from s r qs"

lemma tot_from_append [simp]:
  "tot_from s r (ps @ qs) \<longleftrightarrow> tot_from s (chain_len s qs + r) ps \<and> tot_from s r qs"
  by (induction ps) auto

definition packet :: "'h pbufs \<Rightarrow> u32 list \<Rightarrow> bool" where
  "packet s ps \<longleftrightarrow> ps \<noteq> [] \<and> chain s (hd ps) ps \<and> tot_from s 0 ps \<and> ref (pb s (hd ps)) \<noteq> 0
     \<and> (\<forall>q\<in>set (tl ps). ref (pb s q) = 1)"

text \<open>The pool to which a pbuf goes back; \<open>None\<close> for the heap and for custom pbufs.\<close>

definition pool_of :: "'h pbufs \<Rightarrow> u32 \<Rightarrow> memp_t option" where
  "pool_of s q = (if flags (pb s q) AND PBUF_FLAG_IS_CUSTOM \<noteq> 0 then None
     else case ptype (pb s q) of PBUF_POOL \<Rightarrow> Some MEMP_PBUF_POOL | PBUF_RAM \<Rightarrow> None | _ \<Rightarrow> Some MEMP_PBUF)"

lemma pool_of_cong: "flags (pb s' q) = flags (pb s q) \<Longrightarrow> ptype (pb s' q) = ptype (pb s q) \<Longrightarrow> pool_of s' q = pool_of s q"
  by (simp add: pool_of_def)

text \<open>
  A well-typed state: \<open>P\<close> are the packets in use, \<open>F\<close> the free lists of the pools, threaded through
  \<open>next\<close>. Nothing overlaps.
\<close>

definition pools_ok :: "'h pbufs \<Rightarrow> (memp_t \<Rightarrow> u32 list) \<Rightarrow> bool" where
  "pools_ok s F \<longleftrightarrow> (\<forall>t. chain s (memp_tab s t) (F t)) \<and> (\<forall>t u. t \<noteq> u \<longrightarrow> set (F t) \<inter> set (F u) = {})
     \<and> (\<forall>t. \<forall>q\<in>set (F t). flags (pb s q) AND PBUF_FLAG_IS_CUSTOM = 0)"

definition free_elems :: "(memp_t \<Rightarrow> u32 list) \<Rightarrow> u32 set" where
  "free_elems F = (\<Union>t. set (F t))"

definition pbufs_ok :: "'h pbufs \<Rightarrow> u32 list set \<Rightarrow> (memp_t \<Rightarrow> u32 list) \<Rightarrow> bool" where
  "pbufs_ok s P F \<longleftrightarrow> pools_ok s F \<and> (\<forall>ps\<in>P. packet s ps \<and> set ps \<inter> free_elems F = {})
     \<and> (\<forall>ps\<in>P. \<forall>qs\<in>P. ps \<noteq> qs \<longrightarrow> set ps \<inter> set qs = {})"

text \<open>All elements of a pool, free or in use: no operation may lose or gain one.\<close>

definition pool_elems :: "'h pbufs \<Rightarrow> u32 list set \<Rightarrow> (memp_t \<Rightarrow> u32 list) \<Rightarrow> memp_t \<Rightarrow> u32 set" where
  "pool_elems s P F t = set (F t) \<union> {q \<in> \<Union>(set ` P). pool_of s q = Some t}"

lemma tot_from_cong:
  "(\<And>q. q \<in> set ps \<Longrightarrow> tot_len (pb s' q) = tot_len (pb s q) \<and> plen (pb s' q) = plen (pb s q)) \<Longrightarrow> tot_from s' r ps = tot_from s r ps"
  by (induction ps) (auto simp: chain_len_def cong: map_cong)

lemma packet_cong:
  assumes "\<And>q. q \<in> set ps \<Longrightarrow> pb s' q = pb s q"
  shows "packet s' ps = packet s ps"
proof (cases ps)
  case (Cons a qs)
  have "chain s' (hd ps) ps = chain s (hd ps) ps" by (rule chain_cong) (simp add: assms)
  moreover have "tot_from s' 0 ps = tot_from s 0 ps" by (rule tot_from_cong) (simp add: assms)
  moreover have "\<forall>q\<in>set ps. pb s' q = pb s q" using assms by simp
  ultimately show ?thesis by (simp add: packet_def Cons)
qed (simp add: packet_def)

lemma pools_cong:
  assumes "memp_tab s' = memp_tab s" "\<And>q. q \<in> free_elems F \<Longrightarrow> pnext (pb s' q) = pnext (pb s q) \<and> flags (pb s' q) = flags (pb s q)"
  shows "pools_ok s' F = pools_ok s F"
proof -
  have "chain s' p (F t) = chain s p (F t)" for p t
    by (rule chain_cong) (use assms(2) in \<open>auto simp: free_elems_def\<close>)
  moreover have "flags (pb s' q) = flags (pb s q)" if "q \<in> set (F t)" for q t
    using assms(2) that by (auto simp: free_elems_def)
  ultimately show ?thesis by (simp add: pools_ok_def assms(1))
qed

lemma packet_distinct: "packet s ps \<Longrightarrow> distinct ps"
  using chain_distinct by (auto simp: packet_def)

lemma packet_nonzero: "packet s ps \<Longrightarrow> 0 \<notin> set ps"
  using chain_nonzero by (auto simp: packet_def)

section \<open>Releasing\<close>

definition put_back :: "'h pbufs \<Rightarrow> u32 \<Rightarrow> (memp_t \<Rightarrow> u32 list) \<Rightarrow> memp_t \<Rightarrow> u32 list" where
  "put_back s p F = (case pool_of s p of None \<Rightarrow> F | Some t \<Rightarrow> F(t := p # F t))"

lemma free_elems_put_back: "free_elems (put_back s p F) \<subseteq> insert p (free_elems F)"
  by (auto simp: put_back_def free_elems_def split: option.splits if_splits)

lemma set_put_back: "set (put_back s p F t) = set (F t) \<union> {q. q = p \<and> pool_of s q = Some t}"
  by (auto simp: put_back_def split: option.splits)

lemma pools_memp_free:
  assumes "pools_ok s F" "p \<notin> free_elems F" "p \<noteq> 0" "flags (pb s p) AND PBUF_FLAG_IS_CUSTOM = 0"
  shows "pools_ok (memp_free t p s) (F(t := p # F t))"
proof -
  have "chain (memp_free t p s) a (F u) = chain s a (F u)" for a u
    by (rule chain_cong) (use assms(2,3) in \<open>auto simp: memp_free_def Let_def free_elems_def\<close>)
  then show ?thesis using assms by (auto simp: pools_ok_def memp_free_def Let_def free_elems_def)
qed

lemma release_pb: "q \<noteq> p \<Longrightarrow> pb (pbuf_release env p s) q = pb s q"
  "bmem (pbuf_release env p s) = bmem s"
  by (auto simp: pbuf_release_def memp_free_def Let_def)

lemma pools_release:
  assumes "pools_ok s F" "p \<notin> free_elems F" "p \<noteq> 0"
  shows "pools_ok (pbuf_release env p s) (put_back s p F)"
proof -
  have e: "pools_ok (s\<lparr>env_state := h\<rparr>) F" for h using assms(1) pools_cong [of "s\<lparr>env_state := h\<rparr>" s F] by simp
  show ?thesis using pools_memp_free [OF assms] e
    by (cases "ptype (pb s p)") (auto simp: pbuf_release_def put_back_def pool_of_def)
qed

definition put_back_all :: "'h pbufs \<Rightarrow> u32 list \<Rightarrow> (memp_t \<Rightarrow> u32 list) \<Rightarrow> memp_t \<Rightarrow> u32 list" where
  "put_back_all s ps F = fold (put_back s) ps F"

lemma set_put_back_all: "set (put_back_all s ps F t) = set (F t) \<union> {q \<in> set ps. pool_of s q = Some t}"
  by (induction ps arbitrary: F) (auto simp: put_back_all_def set_put_back)

lemma put_back_all_cong:
  "(\<And>q. q \<in> set ps \<Longrightarrow> pool_of s' q = pool_of s q) \<Longrightarrow> put_back_all s' ps F = put_back_all s ps F"
proof (induction ps arbitrary: F)
  case (Cons a ps)
  then have "put_back s' a F = put_back s a F" by (simp add: put_back_def)
  with Cons show ?case by (simp add: put_back_all_def)
qed (simp add: put_back_all_def)

text \<open>A chain that nobody else refers to is released to its last pbuf.\<close>

lemma free_loop_all:
  assumes "chain s p ps" "\<And>q. q \<in> set ps \<Longrightarrow> ref (pb s q) = 1" "pools_ok s F" "set ps \<inter> free_elems F = {}"
  shows "\<exists>s'. pbuf_free_loop env p c s = Some (c + of_nat (length ps), s') \<and> (\<forall>q. q \<notin> set ps \<longrightarrow> pb s' q = pb s q)
    \<and> bmem s' = bmem s \<and> pools_ok s' (put_back_all s ps F)"
  using assms
proof (induction ps arbitrary: p c s F)
  case Nil
  then show ?case by (subst pbuf_free_loop.simps) (simp add: put_back_all_def)
next
  case (Cons a ps)
  then have a: "p = a" "a \<noteq> 0" "ref (pb s a) = 1" "chain s (pnext (pb s a)) ps" by simp_all
  have d: "a \<notin> set ps" using chain_distinct [OF Cons.prems(1)] by simp
  define s1 where "s1 = upd_pb a (\<lambda>b. b\<lparr>ref := ref b - 1\<rparr>) s"
  define s2 where "s2 = pbuf_release env a s1"
  have t: "pool_of s1 q = pool_of s q" for q by (rule pool_of_cong) (simp_all add: s1_def)
  have f: "a \<notin> free_elems F" using Cons.prems(4) by auto
  have p1: "pools_ok s1 F" using Cons.prems(3) f pools_cong [of s1 s F] by (auto simp: s1_def)
  have p2: "pools_ok s2 (put_back s1 a F)" unfolding s2_def by (rule pools_release [OF p1 f a(2)])
  have b: "pb s2 q = pb s q" if "q \<noteq> a" for q using that by (simp add: s2_def release_pb s1_def)
  have bs: "pb s2 q = pb s q" if "q \<in> set ps" for q using that d b by metis
  have c2: "chain s2 (pnext (pb s a)) ps"
    using a(4) by (subst chain_cong [of ps s2 s]) (simp_all add: bs)
  have r2: "\<And>q. q \<in> set ps \<Longrightarrow> ref (pb s2 q) = 1" using Cons.prems(2) d b by (metis list.set_intros(2))
  have e2: "set ps \<inter> free_elems (put_back s1 a F) = {}"
    using free_elems_put_back [of s1 a F] Cons.prems(4) d by auto
  from Cons.IH [OF c2 r2 p2 e2, of "c + 1"] obtain s' where
    i: "pbuf_free_loop env (pnext (pb s a)) (c + 1) s2 = Some (c + 1 + of_nat (length ps), s')"
      "\<forall>q. q \<notin> set ps \<longrightarrow> pb s' q = pb s2 q" "bmem s' = bmem s2" "pools_ok s' (put_back_all s2 ps (put_back s1 a F))" by blast
  have "pbuf_free_loop env p c s = pbuf_free_loop env (pnext (pb s a)) (c + 1) s2"
    using a by (subst pbuf_free_loop.simps) (simp add: Let_def s2_def s1_def)
  moreover have "put_back_all s2 ps (put_back s1 a F) = put_back_all s (a # ps) F"
  proof -
    have "put_back s1 a F = put_back s a F" by (simp add: put_back_def t)
    moreover have "put_back_all s2 ps G = put_back_all s ps G" for G
      by (rule put_back_all_cong) (rule pool_of_cong, simp_all add: bs)
    ultimately show ?thesis by (simp add: put_back_all_def)
  qed
  moreover have "bmem s2 = bmem s" by (simp add: s2_def release_pb s1_def)
  ultimately show ?case using i b by (intro exI [of _ s']) (auto simp: add.assoc)
qed

text \<open>The state after a group of packets has been changed and some pbufs have been released.\<close>

lemma pbufs_okI:
  assumes ok: "pbufs_ok s P F" and sub: "Q \<subseteq> P" and new: "\<And>ps. ps \<in> N \<Longrightarrow> packet s' ps"
    and touched: "\<And>ps q. ps \<in> Q \<Longrightarrow> q \<in> set ps \<Longrightarrow> pb s' q = pb s q" and pools: "pools_ok s' F'"
    and free: "\<And>ps. ps \<in> Q \<union> N \<Longrightarrow> set ps \<inter> free_elems F' = {}"
    and old: "\<And>ps qs. ps \<in> Q \<Longrightarrow> qs \<in> N \<Longrightarrow> set ps \<inter> set qs = {}"
    and apart: "\<And>ps qs. ps \<in> N \<Longrightarrow> qs \<in> N \<Longrightarrow> ps \<noteq> qs \<Longrightarrow> set ps \<inter> set qs = {}"
  shows "pbufs_ok s' (Q \<union> N) F'"
proof -
  have q: "packet s' ps" if "ps \<in> Q" for ps
  proof -
    have "packet s ps" using that sub ok by (auto simp: pbufs_ok_def)
    then show ?thesis using packet_cong [of ps s' s] touched [OF that] by simp
  qed
  have r: "ps \<in> Q \<Longrightarrow> qs \<in> Q \<Longrightarrow> ps \<noteq> qs \<Longrightarrow> set ps \<inter> set qs = {}" for ps qs
    using sub ok unfolding pbufs_ok_def by blast
  show ?thesis unfolding pbufs_ok_def
  proof (intro conjI ballI impI)
    fix ps qs
    assume "ps \<in> Q \<union> N" "qs \<in> Q \<union> N" "ps \<noteq> qs"
    then show "set ps \<inter> set qs = {}" using r [of ps qs] old [of ps qs] old [of qs ps] apart [of ps qs] by blast
  qed (use pools new q free in auto)
qed

text \<open>
  Releasing the end \<open>qs\<close> of the packet \<open>rs @ qs\<close> of which the rest, if any, is a packet of its own.
\<close>

lemma free_elems_put_back_all: "free_elems (put_back_all s ps F) \<subseteq> free_elems F \<union> set ps"
  by (auto simp: free_elems_def set_put_back_all)

lemma packets_apart: "pbufs_ok s P F \<Longrightarrow> ps \<in> P \<Longrightarrow> qs \<in> P \<Longrightarrow> q \<in> set ps \<Longrightarrow> q \<in> set qs \<Longrightarrow> ps = qs"
  unfolding pbufs_ok_def by blast

lemma packet_not_free: "pbufs_ok s P F \<Longrightarrow> ps \<in> P \<Longrightarrow> q \<in> set ps \<Longrightarrow> q \<notin> free_elems F"
  by (auto simp: pbufs_ok_def)

lemma pool_elems_returned:
  assumes "\<Union>(set ` P) = \<Union>(set ` P') \<union> set vs" "\<And>x. x \<in> \<Union>(set ` P') \<Longrightarrow> pool_of s' x = pool_of s x"
  shows "pool_elems s' P' (put_back_all s vs F) = pool_elems s P F"
proof (rule ext)
  fix t
  have "x \<in> \<Union>(set ` P') \<and> pool_of s' x = Some t \<longleftrightarrow> x \<in> \<Union>(set ` P') \<and> pool_of s x = Some t" for x
    using assms(2) by metis
  then show "pool_elems s' P' (put_back_all s vs F) t = pool_elems s P F t"
    unfolding pool_elems_def set_put_back_all assms(1) by blast
qed

lemma pbuf_free_shared:
  assumes ok: "pbufs_ok s P F" and ps: "ps \<in> P" and r: "ref (pb s (hd ps)) \<noteq> 1"
  shows "\<exists>s'. pbuf_free env (hd ps) s = Some (0, s') \<and> pbufs_ok s' P F \<and> pool_elems s' P F = pool_elems s P F
    \<and> s' = upd_pb (hd ps) (\<lambda>b. b\<lparr>ref := ref b - 1\<rparr>) s"
proof -
  define s' where "s' = upd_pb (hd ps) (\<lambda>b. b\<lparr>ref := ref b - 1\<rparr>) s"
  have p: "packet s ps" using ok ps by (auto simp: pbufs_ok_def)
  then have h: "hd ps \<in> set ps" "hd ps \<noteq> 0" using packet_nonzero [OF p] by (cases ps; auto simp: packet_def)+
  have n: "ref (pb s (hd ps)) \<noteq> 0" using p by (simp add: packet_def)
  have "ref (pb s (hd ps)) - 1 \<noteq> 0" using r by simp
  then have e: "pbuf_free env (hd ps) s = Some (0, s')"
    using h n by (simp add: pbuf_free_def) (subst pbuf_free_loop.simps, simp add: Let_def s'_def)
  have p': "packet s' ps"
  proof -
    have "chain s' (hd ps) ps = chain s (hd ps) ps" by (rule chain_cong) (simp add: s'_def)
    moreover have "tot_from s' 0 ps = tot_from s 0 ps" by (rule tot_from_cong) (simp add: s'_def)
    moreover have "hd ps \<notin> set (tl ps)" using packet_distinct [OF p] p by (cases ps) (auto simp: packet_def)
    ultimately show ?thesis using p r by (auto simp: packet_def s'_def)
  qed
  have "pbufs_ok s' ((P - {ps}) \<union> {ps}) F"
  proof (rule pbufs_okI [OF ok])
    show "pools_ok s' F" using ok packet_not_free [OF ok ps h(1)] pools_cong [of s' s F] by (auto simp: pbufs_ok_def s'_def)
    show "pb s' q = pb s q" if "qs \<in> P - {ps}" "q \<in> set qs" for qs q
      using that packets_apart [OF ok ps, of qs "hd ps"] h by (auto simp: s'_def)
    show "set qs \<inter> free_elems F = {}" if "qs \<in> P - {ps} \<union> {ps}" for qs
      using that packet_not_free [OF ok] ps by blast
    show "set qs \<inter> set rs = {}" if "qs \<in> P - {ps}" "rs \<in> {ps}" for qs rs
      using that packets_apart [OF ok ps, of qs] by auto
  qed (use p' in auto)
  moreover have "(P - {ps}) \<union> {ps} = P" using ps by auto
  moreover have "pool_elems s' P F = pool_elems s P F" 
    using pool_of_cong [of s' _ s] by (intro ext) (simp add: pool_elems_def s'_def)
  ultimately show ?thesis using e s'_def by auto
qed

lemma pbuf_free_whole:
  assumes ok: "pbufs_ok s P F" and ps: "ps \<in> P" and r: "ref (pb s (hd ps)) = 1"
  shows "\<exists>s' F'. pbuf_free env (hd ps) s = Some (of_nat (length ps), s') \<and> pbufs_ok s' (P - {ps}) F'
    \<and> pool_elems s' (P - {ps}) F' = pool_elems s P F \<and> bmem s' = bmem s \<and> (\<forall>q. q \<notin> set ps \<longrightarrow> pb s' q = pb s q)"
proof -
  have p: "packet s ps" using ok ps by (auto simp: pbufs_ok_def)
  then have c: "chain s (hd ps) ps" and ne: "ps \<noteq> []" by (auto simp: packet_def)
  have h: "hd ps \<noteq> 0" using packet_nonzero [OF p] ne by (cases ps) auto
  have refs: "ref (pb s q) = 1" if "q \<in> set ps" for q
    using that p r by (cases ps) (auto simp: packet_def)
  have pools: "pools_ok s F" and fr: "set ps \<inter> free_elems F = {}" using ok ps by (auto simp: pbufs_ok_def)
  from free_loop_all [OF c refs pools fr, of env 0] obtain s' where
    s': "pbuf_free_loop env (hd ps) 0 s = Some (of_nat (length ps), s')" "\<forall>q. q \<notin> set ps \<longrightarrow> pb s' q = pb s q"
      "bmem s' = bmem s" "pools_ok s' (put_back_all s ps F)" by auto
  let ?F = "put_back_all s ps F"
  have keep: "pb s' q = pb s q" if "qs \<in> P - {ps}" "q \<in> set qs" for qs q
    using that packets_apart [OF ok ps, of qs q] s'(2) by auto
  have "pbufs_ok s' (P - {ps} \<union> {}) ?F"
  proof (rule pbufs_okI [OF ok])
    show "set qs \<inter> free_elems ?F = {}" if "qs \<in> P - {ps} \<union> {}" for qs
    proof -
      have "set qs \<inter> free_elems F = {}" "set qs \<inter> set ps = {}"
        using that packet_not_free [OF ok] packets_apart [OF ok ps, of qs] by auto
      then show ?thesis using free_elems_put_back_all [of s ps F] by auto
    qed
  qed (use s'(4) keep in auto)
  moreover have "pool_elems s' (P - {ps}) ?F = pool_elems s P F"
  proof (rule pool_elems_returned)
    show "\<Union>(set ` P) = \<Union>(set ` (P - {ps})) \<union> set ps" using ps by auto
    show "pool_of s' x = pool_of s x" if "x \<in> \<Union>(set ` (P - {ps}))" for x
    proof -
      have "pb s' x = pb s x" using that keep by blast
      then show ?thesis by (simp add: pool_of_def)
    qed
  qed
  ultimately show ?thesis using s' h by (auto simp: pbuf_free_def)
qed

section \<open>Operations on packets\<close>

text \<open>The packets \<open>R\<close> are rearranged into the packets \<open>N\<close>; nothing else is touched.\<close>

lemma pbufs_replace:
  assumes ok: "pbufs_ok s P F" and sub: "R \<subseteq> P"
    and frame: "\<And>q. q \<notin> \<Union>(set ` R) \<Longrightarrow> pb s' q = pb s q" "memp_tab s' = memp_tab s"
    and new: "\<And>ns. ns \<in> N \<Longrightarrow> packet s' ns \<and> set ns \<subseteq> \<Union>(set ` R)"
    and apart: "\<And>ps qs. ps \<in> N \<Longrightarrow> qs \<in> N \<Longrightarrow> ps \<noteq> qs \<Longrightarrow> set ps \<inter> set qs = {}"
  shows "pbufs_ok s' (P - R \<union> N) F"
proof -
  have out: "q \<notin> \<Union>(set ` R)" if "ps \<in> P - R" "q \<in> set ps" for ps q
    using that packets_apart [OF ok, of ps _ q] sub by blast
  have f: "q \<notin> free_elems F" if "q \<in> \<Union>(set ` P)" for q using that packet_not_free [OF ok] by blast
  have RP: "\<Union>(set ` R) \<subseteq> \<Union>(set ` P)" using sub by blast
  have "pools_ok s' F = pools_ok s F"
  proof (rule pools_cong [OF frame(2)])
    fix q
    assume "q \<in> free_elems F"
    then have "q \<notin> \<Union>(set ` R)" using f RP by blast
    then show "pnext (pb s' q) = pnext (pb s q) \<and> flags (pb s' q) = flags (pb s q)" by (simp add: frame(1))
  qed
  then have pools: "pools_ok s' F" using ok by (simp add: pbufs_ok_def)
  show ?thesis
  proof (rule pbufs_okI [OF ok _ _ _ pools _ _ apart])
    show "packet s' ns" if "ns \<in> N" for ns using new [OF that] by simp
    show "pb s' q = pb s q" if "ps \<in> P - R" "q \<in> set ps" for ps q by (rule frame(1)) (rule out [OF that])
    show "set ps \<inter> set ns = {}" if "ps \<in> P - R" "ns \<in> N" for ps ns using out [OF that(1)] new [OF that(2)] by blast
    show "set ps \<inter> free_elems F = {}" if "ps \<in> P - R \<union> N" for ps
    proof -
      have "set ps \<subseteq> \<Union>(set ` P)" using that new RP by blast
      then show ?thesis using f by blast
    qed
  qed auto
qed

lemma pool_elems_eq:
  assumes "\<And>q. flags (pb s' q) = flags (pb s q) \<and> ptype (pb s' q) = ptype (pb s q)" "\<Union>(set ` P') = \<Union>(set ` P)"
  shows "pool_elems s' P' F = pool_elems s P F"
  using assms pool_of_cong [of s' _ s] by (intro ext) (simp add: pool_elems_def)

lemma packet_of: "pbufs_ok s P F \<Longrightarrow> ps \<in> P \<Longrightarrow> packet s ps"
  by (simp add: pbufs_ok_def)

lemma packetD:
  assumes "packet s ps"
  shows "ps = hd ps # tl ps" "chain s (hd ps) ps" "tot_from s 0 ps" "ref (pb s (hd ps)) \<noteq> 0" "hd ps \<noteq> 0"
    "hd ps \<in> set ps" "hd ps \<notin> set (tl ps)" "\<And>q. q \<in> set (tl ps) \<Longrightarrow> ref (pb s q) = 1"
  using assms packet_nonzero [OF assms] packet_distinct [OF assms] by (cases ps; auto simp: packet_def)+

lemma packet_tot: "packet s ps \<Longrightarrow> unat (tot_len (pb s (hd ps))) = unat (plen (pb s (hd ps))) + chain_len s (tl ps)"
  by (cases ps) (auto simp: packet_def)

text \<open>Changing the head of a packet.\<close>

lemma packet_head:
  assumes p: "packet s ps" and f: "\<And>b. pnext (f b) = pnext b" "ref (f (pb s (hd ps))) \<noteq> 0"
    "unat (tot_len (f (pb s (hd ps)))) = unat (plen (f (pb s (hd ps)))) + chain_len s (tl ps)"
  shows "packet (upd_pb (hd ps) f s) ps"
proof -
  let ?s = "upd_pb (hd ps) f s"
  obtain a qs where a: "ps = a # qs" "a \<notin> set qs" using packetD [OF p] by (cases ps) auto
  have l: "chain_len ?s qs = chain_len s qs" using a by (intro chain_len_cong) auto
  have "chain ?s a ps = chain s a ps" by (rule chain_cong) (simp add: f(1))
  moreover have "tot_from ?s 0 qs = tot_from s 0 qs" by (rule tot_from_cong) (use a in auto)
  ultimately show ?thesis using p f l a by (auto simp: packet_def)
qed

lemma pbuf_ref_ok:
  assumes ok: "pbufs_ok s P F" and ps: "ps \<in> P" and r: "ref (pb s (hd ps)) \<noteq> 0xFFFF"
  shows "pbufs_ok (pbuf_ref (hd ps) s) P F \<and> pool_elems (pbuf_ref (hd ps) s) P F = pool_elems s P F"
proof -
  let ?s = "upd_pb (hd ps) (\<lambda>b. b\<lparr>ref := ref b + 1\<rparr>) s"
  note p = packet_of [OF ok ps]
  note pd = packetD [OF p]
  have m: "(0xFFFF :: u16) = - 1" by simp
  have "ref (pb s (hd ps)) + 1 \<noteq> 0" using r unfolding m by (metis add.commute eq_neg_iff_add_eq_0)
  moreover have "unat (tot_len (pb s (hd ps))) = unat (plen (pb s (hd ps))) + chain_len s (tl ps)" by (rule packet_tot [OF p])
  ultimately have "packet ?s ps" by (intro packet_head [OF p]) simp_all
  then have "pbufs_ok ?s (P - {ps} \<union> {ps}) F" by (intro pbufs_replace [OF ok]) (use ps pd(6) in auto)
  moreover have "P - {ps} \<union> {ps} = P" using ps by auto
  moreover have "pbuf_ref (hd ps) s = ?s" using pd(5) by (simp add: pbuf_ref_def)
  moreover have "pool_elems ?s P F = pool_elems s P F" by (rule pool_elems_eq) auto
  ultimately show ?thesis by simp
qed

lemma unat_add_of_int:
  fixes x :: u16
  assumes "0 \<le> uint x + k" "uint x + k \<le> 65535"
  shows "unat (x + of_int k) = nat (uint x + k)"
proof -
  have "x + of_int k = of_int (uint x + k)" by simp
  then have "uint (x + of_int k) = (uint x + k) mod 2 ^ LENGTH(16)" by (simp only: uint_word_of_int)
  then have "uint (x + of_int k) = (uint x + k) mod 2 ^ 16" by simp
  also have "\<dots> = uint x + k" using assms by simp
  finally show ?thesis by (metis nat_uint_eq)
qed

text \<open>Growing or shrinking the first buffer of a packet at its front.\<close>

lemma pbuf_header_ok:
  assumes ok: "pbufs_ok s P F" and ps: "ps \<in> P" and inc: "uint (tot_len (pb s (hd ps))) + inc \<le> 65535"
  shows "\<exists>err s'. pbuf_header (hd ps) inc s = Some (err, s') \<and> pbufs_ok s' P F \<and> pool_elems s' P F = pool_elems s P F
    \<and> (err \<longrightarrow> s' = s)"
proof -
  note p = packet_of [OF ok ps]
  note pd = packetD [OF p]
  let ?b = "pb s (hd ps)"
  define f where "f = (\<lambda>b :: pbuf. b\<lparr>payload := payload ?b - of_int inc, plen := plen b + of_int inc, tot_len := tot_len b + of_int inc\<rparr>)"
  let ?s = "upd_pb (hd ps) f s"
  show ?thesis
  proof (cases "inc < 0 \<and> uint (plen ?b) < - inc")
    case True
    then show ?thesis using ok pd(5) by (auto simp: pbuf_header_def)
  next
    case False
    have pl: "0 \<le> uint (plen ?b) + inc" using False by (cases "inc < 0") auto
    have t: "uint (tot_len ?b) = uint (plen ?b) + int (chain_len s (tl ps))"
      using packet_tot [OF p] by (metis of_nat_add uint_nat)
    then have b: "uint (plen ?b) + inc \<le> 65535" "0 \<le> uint (tot_len ?b) + inc" using inc pl by linarith+
    have "unat (tot_len ?b + of_int inc) = unat (plen ?b + of_int inc) + chain_len s (tl ps)"
      using t pl b inc by (simp add: unat_add_of_int)
    then have "packet ?s ps" using pd(4) by (intro packet_head [OF p]) (simp_all add: f_def)
    then have "pbufs_ok ?s (P - {ps} \<union> {ps}) F" by (intro pbufs_replace [OF ok]) (use ps pd(6) in auto)
    moreover have "P - {ps} \<union> {ps} = P" using ps by auto
    moreover have "pool_elems ?s P F = pool_elems s P F" by (rule pool_elems_eq) (auto simp: f_def)
    moreover have "pbuf_header (hd ps) inc s \<in> {Some (False, s), Some (True, s), Some (False, ?s)}"
      using False pd(5) by (auto simp: pbuf_header_def Let_def f_def)
    ultimately show ?thesis using ok by auto
  qed
qed

section \<open>Concatenating and splitting\<close>

lemma cat_loop_spec:
  "chain s p ps \<Longrightarrow> ps \<noteq> [] \<Longrightarrow> t \<notin> set ps \<Longrightarrow>
    \<exists>s'. cat_loop p t s = Some (last ps, s') \<and> memp_tab s' = memp_tab s \<and> bmem s' = bmem s \<and>
      (\<forall>x. pb s' x = (if x \<in> set (butlast ps) then (pb s x)\<lparr>tot_len := tot_len (pb s x) + tot_len (pb s t)\<rparr> else pb s x))"
proof (induction ps arbitrary: s p)
  case (Cons a ps)
  show ?case
  proof (cases ps)
    case Nil
    with Cons.prems show ?thesis by (subst cat_loop.simps) simp
  next
    case (Cons b qs)
    define s1 where "s1 = upd_pb a (\<lambda>b. b\<lparr>tot_len := tot_len b + tot_len (pb s t)\<rparr>) s"
    have a: "p = a" "a \<noteq> 0" "chain s (pnext (pb s a)) ps" "a \<notin> set ps" "pnext (pb s a) \<noteq> 0" "t \<noteq> a" "t \<notin> set ps"
      using Cons.prems Cons chain_distinct [OF Cons.prems(1)] by auto
    have "chain s1 (pnext (pb s a)) ps" using a(3) by (subst chain_cong [of ps s1 s]) (auto simp: s1_def)
    from Cons.IH [OF this _ a(7)] Cons obtain s' where
      i: "cat_loop (pnext (pb s a)) t s1 = Some (last ps, s')" "memp_tab s' = memp_tab s1" "bmem s' = bmem s1"
        "\<forall>x. pb s' x = (if x \<in> set (butlast ps) then (pb s1 x)\<lparr>tot_len := tot_len (pb s1 x) + tot_len (pb s1 t)\<rparr> else pb s1 x)"
      by auto
    have "cat_loop p t s = cat_loop (pnext (pb s a)) t s1" using a by (subst cat_loop.simps) (simp add: s1_def)
    moreover have "a \<notin> set (butlast ps)" using a(4) by (auto dest: in_set_butlastD)
    ultimately show ?thesis using i a(6) Cons by (intro exI [of _ s']) (simp add: s1_def)
  qed
qed simp

lemma tot_from_add:
  assumes "tot_from s 0 ps" "chain_len s ps + unat d \<le> 65535"
    and "\<And>x. x \<in> set ps \<Longrightarrow> tot_len (pb s' x) = tot_len (pb s x) + d \<and> plen (pb s' x) = plen (pb s x)"
  shows "tot_from s' (unat d) ps"
  using assms
proof (induction ps)
  case (Cons a ps)
  have l: "chain_len s' (a # ps) = chain_len s (a # ps)"
    using Cons.prems(3) by (intro chain_len_cong) simp
  have "unat (tot_len (pb s a) + d) = unat (tot_len (pb s a)) + unat d"
    by (rule unat_add_lem [THEN iffD1]) (use Cons.prems(1,2) in simp)
  then show ?case using Cons l by simp
qed simp

lemma chain_snoc_link:
  assumes "chain s p ps" "ps \<noteq> []" "chain s' t qs" "pnext (pb s' (last ps)) = t"
    and "\<And>x. x \<in> set (butlast ps) \<Longrightarrow> pnext (pb s' x) = pnext (pb s x)"
  shows "chain s' p (ps @ qs)"
  using assms
proof (induction ps arbitrary: p)
  case (Cons a ps)
  then show ?case by (cases ps) auto
qed simp

lemma pbuf_cat_ok:
  assumes ok: "pbufs_ok s P F" and ps: "ps \<in> P" and qs: "qs \<in> P" and ne: "ps \<noteq> qs" and r: "ref (pb s (hd qs)) = 1"
    and room: "chain_len s ps + chain_len s qs \<le> 65535"
  shows "\<exists>s'. pbuf_cat (hd ps) (hd qs) s = Some s' \<and> pbufs_ok s' (P - {ps, qs} \<union> {ps @ qs}) F
    \<and> pool_elems s' (P - {ps, qs} \<union> {ps @ qs}) F = pool_elems s P F
    \<and> chain_bytes s' (ps @ qs) = chain_bytes s ps @ chain_bytes s qs"
proof -
  note p = packet_of [OF ok ps] and q = packet_of [OF ok qs]
  note pd = packetD [OF p] and qd = packetD [OF q]
  have nps: "ps \<noteq> []" "qs \<noteq> []" using pd(1) qd(1) by auto
  have apart: "x \<notin> set qs" if "x \<in> set ps" for x using that ne packets_apart [OF ok ps qs] by blast
  let ?T = "tot_len (pb s (hd qs))"
  have T: "unat ?T = chain_len s qs" using packet_tot [OF q] qd(1) by (metis chain_len_simps(2))
  have "hd qs \<notin> set ps" using apart qd(6) by blast
  from cat_loop_spec [OF pd(2) nps(1) this] obtain s1 where
    c: "cat_loop (hd ps) (hd qs) s = Some (last ps, s1)" "memp_tab s1 = memp_tab s" "bmem s1 = bmem s"
      "\<And>x. pb s1 x = (if x \<in> set (butlast ps) then (pb s x)\<lparr>tot_len := tot_len (pb s x) + ?T\<rparr> else pb s x)" by blast
  obtain us z where us: "ps = us @ [z]" using nps(1) by (cases ps rule: rev_cases) auto
  then have lst: "last ps = z" "butlast ps = us" "z \<notin> set us" "set ps = insert z (set us)"
    using packet_distinct [OF p] by auto
  have z: "z \<notin> set qs" "\<And>x. x \<in> set us \<Longrightarrow> x \<notin> set qs" "hd qs \<noteq> z" "hd qs \<notin> set us"
    using apart qd(6) us by auto
  define s' where "s' = upd_pb z (\<lambda>b. b\<lparr>tot_len := tot_len b + ?T, pnext := hd qs\<rparr>) s1"
  have s': "pb s' x = (if x \<in> set us then (pb s x)\<lparr>tot_len := tot_len (pb s x) + ?T\<rparr>
      else if x = z then (pb s x)\<lparr>tot_len := tot_len (pb s x) + ?T, pnext := hd qs\<rparr> else pb s x)" for x
    using lst(3) by (simp add: s'_def c(4) lst(2))
  have last_tot: "tot_len (pb s z) = plen (pb s z)"
    using pd(3) unfolding us by (simp add: word_unat_eq_iff)
  have e: "pbuf_cat (hd ps) (hd qs) s = Some s'"
    unfolding pbuf_cat_def c(1) lst(1) s'_def using pd(5) qd(5) last_tot lst(2,3) z
    by (simp add: c(4))
  have old: "pb s' x = pb s x" if "x \<notin> set ps" for x using that lst(4) by (simp add: s')
  have keep: "ref (pb s' x) = ref (pb s x)" "flags (pb s' x) = flags (pb s x)" "ptype (pb s' x) = ptype (pb s x)"
    "plen (pb s' x) = plen (pb s x)" "payload (pb s' x) = payload (pb s x)" for x by (simp_all add: s')
  have oldq: "pb s' x = pb s x" if "x \<in> set qs" for x by (rule old) (use that apart in blast)
  have new: "packet s' (ps @ qs)"
  proof -
    have "chain s' (hd qs) qs" using qd(2) by (subst chain_cong [of qs s' s]) (simp_all add: oldq)
    then have "chain s' (hd ps) (ps @ qs)"
      by (rule chain_snoc_link [OF pd(2) nps(1)]) (use lst in \<open>simp_all add: s'\<close>)
    moreover have "tot_from s' (unat ?T) ps"
      by (rule tot_from_add [OF pd(3)]) (use room T lst(4) in \<open>simp_all add: s', auto\<close>)
    moreover have "tot_from s' 0 qs = tot_from s 0 qs" by (rule tot_from_cong) (simp add: oldq)
    moreover have "chain_len s' qs = chain_len s qs" by (simp add: chain_len_def keep)
    moreover have "x \<in> set qs \<Longrightarrow> ref (pb s x) = 1" for x using r qd(1,8) by (metis set_ConsD)
    ultimately show ?thesis using pd qd(3) nps T by (simp add: packet_def keep) blast
  qed
  have "pbufs_ok s' (P - {ps, qs} \<union> {ps @ qs}) F"
  proof (rule pbufs_replace [OF ok])
    show "pb s' x = pb s x" if "x \<notin> \<Union> (set ` {ps, qs})" for x by (rule old) (use that in simp)
  qed (use ps qs new c(2) in \<open>auto simp: s'_def\<close>)
  moreover have "\<Union>(set ` (P - {ps, qs} \<union> {ps @ qs})) = \<Union>(set ` P)" using ps qs by auto
  then have "pool_elems s' (P - {ps, qs} \<union> {ps @ qs}) F = pool_elems s P F"
    by (intro pool_elems_eq) (simp_all add: keep)
  moreover have "pbuf_bytes s' = pbuf_bytes s" by (rule ext) (simp add: pbuf_bytes_def keep, simp add: s'_def c(3))
  then have "chain_bytes s' (ps @ qs) = chain_bytes s ps @ chain_bytes s qs" by (simp add: chain_bytes_def)
  ultimately show ?thesis using e by blast
qed

text \<open>\<open>pbuf_dechain\<close> releases what follows the first buffer.\<close>

lemma pbuf_dechain_ok:
  assumes ok: "pbufs_ok s P F" and ps: "a # b # qs \<in> P"
  shows "\<exists>s' F'. pbuf_dechain env a s = Some (if length (b # qs) mod 256 = 0 then b else 0, s')
    \<and> pbufs_ok s' (P - {a # b # qs} \<union> {[a]}) F' \<and> pool_elems s' (P - {a # b # qs} \<union> {[a]}) F' = pool_elems s P F
    \<and> pbuf_bytes s' a = pbuf_bytes s a"
proof -
  note p = packet_of [OF ok ps]
  note pd = packetD [OF p]
  have n: "pnext (pb s a) = b" "b \<noteq> 0" "a \<noteq> 0" "a \<noteq> b" "a \<notin> set qs" "b \<notin> set qs"
    using pd(2) packet_distinct [OF p] by auto
  have tb: "unat (tot_len (pb s b)) = chain_len s (b # qs)" and ta: "unat (tot_len (pb s a)) = unat (plen (pb s a)) + unat (tot_len (pb s b))"
    using pd(3) by simp_all
  then have d: "tot_len (pb s b) = tot_len (pb s a) - plen (pb s a)"
    by (simp add: word_unat_eq_iff unat_sub word_le_nat_alt)
  define s1 where "s1 = upd_pb a (\<lambda>x. x\<lparr>pnext := 0, tot_len := plen x\<rparr>) (upd_pb b (\<lambda>x. x\<lparr>tot_len := tot_len (pb s a) - plen (pb s a)\<rparr>) s)"
  have s1: "pb s1 x = (if x = a then (pb s a)\<lparr>pnext := 0, tot_len := plen (pb s a)\<rparr> else pb s x)" for x
    using n(4) d [symmetric] by (simp add: s1_def)
  have refs: "ref (pb s x) = 1" if "x \<in> set (b # qs)" for x using pd(8) that by simp
  have new: "packet s1 [a]" "packet s1 (b # qs)"
  proof -
    show "packet s1 [a]" using pd(4) n by (simp add: packet_def s1)
    have "chain s1 b (b # qs) = chain s b (b # qs)" by (rule chain_cong) (use n in \<open>auto simp: s1\<close>)
    moreover have "tot_from s1 0 (b # qs) = tot_from s 0 (b # qs)" by (rule tot_from_cong) (use n in \<open>auto simp: s1\<close>)
    moreover have "ref (pb s1 x) = ref (pb s x)" for x by (simp add: s1)
    ultimately show "packet s1 (b # qs)" using pd(2,3) n refs by (simp add: packet_def)
  qed
  let ?P = "P - {a # b # qs} \<union> {[a], b # qs}"
  have ok1: "pbufs_ok s1 ?P F"
    by (rule pbufs_replace [OF ok]) (use ps new n in \<open>auto simp: s1\<close>, simp add: s1_def)
  have e1: "pool_elems s1 ?P F = pool_elems s P F"
    by (rule pool_elems_eq) (use ps in \<open>auto simp: s1\<close>)
  have r1: "ref (pb s1 (hd (b # qs))) = 1" using refs [of b] n by (simp add: s1)
  have bP: "b # qs \<notin> P - {a # b # qs}" using packets_apart [OF ok _ ps, of "b # qs" b] by auto
  have P': "?P - {b # qs} = P - {a # b # qs} \<union> {[a]}" using bP n(4) by auto
  have bin: "b # qs \<in> ?P" by simp
  from pbuf_free_whole [OF ok1 bin r1, of env] obtain s' F' where f: "pbuf_free env b s1 = Some (of_nat (length (b # qs)), s')"
    "pbufs_ok s' (P - {a # b # qs} \<union> {[a]}) F'" "pool_elems s' (P - {a # b # qs} \<union> {[a]}) F' = pool_elems s1 ?P F"
    "bmem s' = bmem s1" "\<forall>q. q \<notin> set (b # qs) \<longrightarrow> pb s' q = pb s1 q" unfolding P' by auto
  have "(0 < (of_nat (length (b # qs)) :: u8)) = (length (b # qs) mod 256 \<noteq> 0)"
    by (simp only: word_less_nat_alt unat_of_nat take_bit_eq_mod) simp
  then have "pbuf_dechain env a s = Some (if length (b # qs) mod 256 = 0 then b else 0, s')"
    unfolding pbuf_dechain_def Let_def n(1) s1_def [symmetric] f(1) using n(2) d by (simp del: of_nat_Suc list.size)
  moreover have "pbuf_bytes s' a = pbuf_bytes s a"
    using f(4,5) n by (simp add: pbuf_bytes_def s1) (simp add: s1_def)
  ultimately show ?thesis using f(2,3) e1 by auto
qed

end
