(* ===== verification/Pbuf_Types.thy ===== *)
theory Pbuf_Types
  imports Pbuf_Packets
begin

text \<open>
  Truncation (\<open>pbuf_realloc\<close>) and allocation (\<open>pbuf_alloc\<close>) of packets, and the property that every
  operation keeps the packet buffers well typed.
\<close>

section \<open>Truncation\<close>

lemma realloc_loop_spec:
  "chain s p ps \<Longrightarrow> ps \<noteq> [] \<Longrightarrow> unat rm \<le> chain_len s ps \<Longrightarrow>
    \<exists>us q vs s' rm'. ps = us @ q # vs \<and> realloc_loop p rm grow s = Some (q, rm', s')
      \<and> unat rm = chain_len s us + unat rm' \<and> unat rm' \<le> unat (plen (pb s q))
      \<and> memp_tab s' = memp_tab s \<and> bmem s' = bmem s \<and> env_state s' = env_state s
      \<and> (\<forall>x. pb s' x = (if x \<in> set us then (pb s x)\<lparr>tot_len := tot_len (pb s x) + grow\<rparr> else pb s x))"
proof (induction ps arbitrary: s p rm)
  case (Cons a ps)
  have a: "p = a" "a \<noteq> 0" "chain s (pnext (pb s a)) ps" "a \<notin> set ps"
    using Cons.prems(1) chain_distinct [OF Cons.prems(1)] by auto
  show ?case
  proof (cases "plen (pb s a) < rm")
    case False
    then have "realloc_loop p rm grow s = Some (a, rm, s)" using a(1) by (subst realloc_loop.simps) simp
    moreover have "unat rm \<le> unat (plen (pb s a))" using False by (simp add: word_less_nat_alt)
    ultimately show ?thesis by (intro exI [of _ "[]"] exI [of _ a] exI [of _ ps] exI [of _ s] exI [of _ rm]) simp
  next
    case True
    then have lt: "unat (plen (pb s a)) < unat rm" by (simp add: word_less_nat_alt)
    then have ps: "ps \<noteq> []" using Cons.prems(3) by auto
    define s1 where "s1 = upd_pb a (\<lambda>b. b\<lparr>tot_len := tot_len b + grow\<rparr>) s"
    have c1: "chain s1 (pnext (pb s a)) ps" using a(3) by (subst chain_cong [of ps s1 s]) (auto simp: s1_def)
    have l1: "chain_len s1 xs = chain_len s xs" for xs by (rule chain_len_cong) (simp add: s1_def)
    have u: "unat (rm - plen (pb s a)) = unat rm - unat (plen (pb s a))"
      by (rule unat_sub) (use lt in \<open>simp add: word_le_nat_alt\<close>)
    have "unat (rm - plen (pb s a)) \<le> chain_len s1 ps" unfolding u l1 using Cons.prems(3) by simp
    from Cons.IH [OF c1 ps this] obtain us q vs s' rm' where
      i: "ps = us @ q # vs" "realloc_loop (pnext (pb s a)) (rm - plen (pb s a)) grow s1 = Some (q, rm', s')"
        "unat (rm - plen (pb s a)) = chain_len s1 us + unat rm'" "unat rm' \<le> unat (plen (pb s1 q))"
        "memp_tab s' = memp_tab s1" "bmem s' = bmem s1" "env_state s' = env_state s1"
        "\<forall>x. pb s' x = (if x \<in> set us then (pb s1 x)\<lparr>tot_len := tot_len (pb s1 x) + grow\<rparr> else pb s1 x)" by auto
    have nz: "pnext (pb s a) \<noteq> 0" using a(3) ps by (cases ps) auto
    have "realloc_loop p rm grow s = realloc_loop (pnext (pb s a)) (rm - plen (pb s a)) grow s1"
      using True a(1) nz by (subst realloc_loop.simps) (simp add: s1_def Let_def)
    then have "realloc_loop p rm grow s = Some (q, rm', s')" using i(2) by simp
    moreover have "unat rm = chain_len s (a # us) + unat rm'" using i(3) u lt l1 by simp
    moreover have "a \<notin> set us" using a(4) i(1) by simp
    moreover have "unat rm' \<le> unat (plen (pb s q))" using i(4) by (simp add: s1_def split: if_splits)
    moreover have "pb s' x = (if x \<in> set (a # us) then (pb s x)\<lparr>tot_len := tot_len (pb s x) + grow\<rparr> else pb s x)" for x
      using i(8) \<open>a \<notin> set us\<close> by (simp add: s1_def)
    moreover have "a # ps = (a # us) @ q # vs" "memp_tab s' = memp_tab s" "bmem s' = bmem s" "env_state s' = env_state s"
      using i by (simp_all add: s1_def)
    ultimately show ?thesis by blast
  qed
qed simp

lemma tot_from_sub:
  assumes "tot_from s (k + unat d) us" "\<And>x. x \<in> set us \<Longrightarrow> tot_len (pb s' x) = tot_len (pb s x) - d \<and> plen (pb s' x) = plen (pb s x)"
  shows "tot_from s' k us"
  using assms
proof (induction us)
  case (Cons a us)
  have l: "chain_len s' (a # us) = chain_len s (a # us)"
    using Cons.prems(2) by (intro chain_len_cong) simp
  have "unat (tot_len (pb s a) - d) = unat (tot_len (pb s a)) - unat d"
    by (rule unat_sub) (use Cons.prems(1) in \<open>simp add: word_le_nat_alt\<close>)
  then show ?case using Cons l by simp
qed simp

lemma chain_cut:
  assumes "chain s p (us @ q # vs)" "\<And>x. x \<in> set us \<Longrightarrow> pnext (pb s' x) = pnext (pb s x)" "pnext (pb s' q) = 0"
  shows "chain s' p (us @ [q])"
  using assms by (induction us arbitrary: p) auto

text \<open>
  The effect of a truncation: the packet \<open>us @ q # vs\<close> is cut inside \<open>q\<close>, \<open>d\<close> bytes are lost and
  \<open>vs\<close> goes back to the pools.
\<close>

definition truncated :: "'h pbufs \<Rightarrow> (memp_t \<Rightarrow> u32 list) \<Rightarrow> u32 list \<Rightarrow> u32 \<Rightarrow> u32 list \<Rightarrow> u16 \<Rightarrow> u16 \<Rightarrow> 'h pbufs \<Rightarrow> bool" where
  "truncated s F us q vs rm d s' \<longleftrightarrow> bmem s' = bmem s \<and> pools_ok s' (put_back_all s vs F) \<and>
     (\<forall>x. x \<notin> set vs \<longrightarrow> pb s' x = (if x \<in> set us then (pb s x)\<lparr>tot_len := tot_len (pb s x) - d\<rparr>
        else if x = q then (pb s q)\<lparr>plen := rm, tot_len := rm, pnext := 0\<rparr> else pb s x))"

lemma truncated_pb:
  assumes "truncated s F us q vs rm d s'" "packet s (us @ q # vs)"
  shows "\<And>x. x \<in> set us \<Longrightarrow> pb s' x = (pb s x)\<lparr>tot_len := tot_len (pb s x) - d\<rparr>"
    "pb s' q = (pb s q)\<lparr>plen := rm, tot_len := rm, pnext := 0\<rparr>"
    "\<And>x. x \<notin> set (us @ q # vs) \<Longrightarrow> pb s' x = pb s x"
proof -
  have d: "q \<notin> set us" "q \<notin> set vs" "set us \<inter> set vs = {}" using packet_distinct [OF assms(2)] by auto
  note t = assms(1) [unfolded truncated_def, THEN conjunct2, THEN conjunct2, rule_format]
  show "pb s' x = (pb s x)\<lparr>tot_len := tot_len (pb s x) - d\<rparr>" if "x \<in> set us" for x
    using t [of x] that d by auto
  show "pb s' q = (pb s q)\<lparr>plen := rm, tot_len := rm, pnext := 0\<rparr>" using t [of q] d by simp
  show "pb s' x = pb s x" if "x \<notin> set (us @ q # vs)" for x using t [of x] that by simp
qed

lemma truncated_packet:
  assumes t: "truncated s F us q vs rm d s'" and p: "packet s (us @ q # vs)"
    and d: "chain_len s (q # vs) = unat rm + unat d"
  shows "packet s' (us @ [q])"
proof -
  note pd = packetD [OF p] and pb = truncated_pb [OF t p]
  have hd: "hd (us @ [q]) = hd (us @ q # vs)" "set (tl (us @ [q])) \<subseteq> set (tl (us @ q # vs))"
    "set (tl (us @ [q])) \<subseteq> set (us @ [q])" by (cases us; auto)+
  have "chain s' (hd (us @ q # vs)) (us @ [q])"
    by (rule chain_cut [OF pd(2)]) (simp_all add: pb(1,2))
  moreover have "tot_from s (unat rm + unat d) us" using pd(3) d unfolding tot_from_append by simp
  then have "tot_from s' (unat rm) us" by (rule tot_from_sub) (simp add: pb(1))
  moreover have refs: "ref (pb s' x) = ref (pb s x)" if "x \<in> set (us @ [q])" for x using that by (auto simp: pb(1,2))
  have "ref (pb s' x) = 1" if "x \<in> set (tl (us @ [q]))" for x
  proof -
    have "x \<in> set (us @ [q])" "x \<in> set (tl (us @ q # vs))" using that hd(2,3) by blast+
    then show ?thesis using refs pd(8) by simp
  qed
  moreover have "ref (pb s' (hd (us @ [q]))) \<noteq> 0"
    using pd(4) unfolding hd(1) [symmetric] by (cases us) (simp_all add: pb(1,2))
  ultimately show ?thesis using hd(1) by (simp add: packet_def pb(2))
qed

lemma truncated_bytes:
  assumes t: "truncated s F us q vs rm d s'" and p: "packet s (us @ q # vs)" and r: "unat rm \<le> unat (plen (pb s q))"
  shows "chain_bytes s' (us @ [q]) = take (chain_len s us + unat rm) (chain_bytes s (us @ q # vs))"
proof -
  note pb = truncated_pb [OF t p]
  have b: "bmem s' = bmem s" using t by (simp add: truncated_def)
  have "pbuf_bytes s' x = pbuf_bytes s x" if "x \<in> set us" for x by (simp add: pbuf_bytes_def pb(1) [OF that] b)
  then have "map (pbuf_bytes s') us = map (pbuf_bytes s) us" by simp
  then have "chain_bytes s' us = chain_bytes s us" by (simp only: chain_bytes_def)
  moreover have "pbuf_bytes s' q = take (unat rm) (pbuf_bytes s q)"
    unfolding pbuf_bytes_def pb(2) b using r by (simp add: take_bytes)
  ultimately show ?thesis using r by (simp add: length_chain_bytes)
qed

lemma truncated_ok:
  assumes t: "truncated s F us q vs rm d s'" and ok: "pbufs_ok s P F" and ps: "us @ q # vs \<in> P"
    and d: "chain_len s (q # vs) = unat rm + unat d"
  defines "P' \<equiv> P - {us @ q # vs} \<union> {us @ [q]}"
  shows "pbufs_ok s' P' (put_back_all s vs F)" "pool_elems s' P' (put_back_all s vs F) = pool_elems s P F"
proof -
  note p = packet_of [OF ok ps]
  note pb = truncated_pb [OF t p]
  let ?F = "put_back_all s vs F"
  have dis: "q \<notin> set us" "q \<notin> set vs" "set us \<inter> set vs = {}" using packet_distinct [OF p] by auto
  have other: "x \<notin> set (us @ q # vs)" if "xs \<in> P - {us @ q # vs}" "x \<in> set xs" for xs x
    using that packets_apart [OF ok ps, of xs x] by blast
  have fr: "set xs \<inter> free_elems F = {}" if "xs \<in> P" for xs using that packet_not_free [OF ok] by blast
  show "pbufs_ok s' P' ?F" unfolding P'_def
  proof (rule pbufs_okI [OF ok])
    show "packet s' ns" if "ns \<in> {us @ [q]}" for ns using that truncated_packet [OF t p d] by simp
    show "pools_ok s' ?F" using t by (simp add: truncated_def)
    show "pb s' x = pb s x" if "xs \<in> P - {us @ q # vs}" "x \<in> set xs" for xs x by (rule pb(3) [OF other [OF that]])
    show "set xs \<inter> free_elems ?F = {}" if "xs \<in> P - {us @ q # vs} \<union> {us @ [q]}" for xs
    proof -
      have "set xs \<inter> free_elems F = {}" "set xs \<inter> set vs = {}"
        using that fr [of xs] fr [OF ps] other [of xs] dis by auto
      then show ?thesis using free_elems_put_back_all [of s vs F] by blast
    qed
    show "set xs \<inter> set ys = {}" if "xs \<in> P - {us @ q # vs}" "ys \<in> {us @ [q]}" for xs ys
      using other [OF that(1)] that(2) by auto
  qed auto
  show "pool_elems s' P' ?F = pool_elems s P F"
  proof (rule pool_elems_returned)
    show "\<Union>(set ` P) = \<Union>(set ` P') \<union> set vs" unfolding P'_def using ps by auto
    show "pool_of s' x = pool_of s x" if "x \<in> \<Union>(set ` P')" for x
    proof -
      from that obtain xs where xs: "xs \<in> P'" "x \<in> set xs" by blast
      then have "xs = us @ [q] \<or> xs \<in> P - {us @ q # vs}" unfolding P'_def by blast
      then have "x \<in> set (us @ [q]) \<or> x \<notin> set (us @ q # vs)" using other [of xs x] xs(2) by blast
      then consider "x \<in> set us" | "x = q" | "x \<notin> set (us @ q # vs)" by auto
      then have "flags (pb s' x) = flags (pb s x) \<and> ptype (pb s' x) = ptype (pb s x)" by cases (simp_all add: pb)
      then show ?thesis by (simp add: pool_of_def)
    qed
  qed
qed

text \<open>The code reaches such a state, if the heap shrinks blocks in place.\<close>

lemma realloc_tail:
  assumes "chain s (pnext (pb s q)) vs" "\<And>x. x \<in> set vs \<Longrightarrow> ref (pb s x) = 1" "pools_ok s F" "set vs \<inter> free_elems F = {}"
  shows "\<exists>s'. (if pnext (pb s q) \<noteq> 0 then Option.bind (pbuf_free env (pnext (pb s q)) s) (\<lambda>cs. Some (snd cs)) else Some s) = Some s'
    \<and> (\<forall>x. x \<notin> set vs \<longrightarrow> pb s' x = pb s x) \<and> bmem s' = bmem s \<and> pools_ok s' (put_back_all s vs F)"
proof (cases "pnext (pb s q) = 0")
  case True
  then have "vs = []" using assms(1) by simp
  then show ?thesis using True assms(3) by (simp add: put_back_all_def)
next
  case False
  from free_loop_all [OF assms, of env 0] obtain s' where
    "pbuf_free_loop env (pnext (pb s q)) 0 s = Some (of_nat (length vs), s')"
    "\<forall>x. x \<notin> set vs \<longrightarrow> pb s' x = pb s x" "bmem s' = bmem s" "pools_ok s' (put_back_all s vs F)" by auto
  then show ?thesis using False by (simp add: pbuf_free_def)
qed

lemma realloc_finish:
  fixes rm d :: u16 and q :: u32
  assumes ok: "pbufs_ok s P F" and ps: "us @ q # vs \<in> P"
    and s1: "\<And>x. pb s1 x = (if x \<in> set us then (pb s x)\<lparr>tot_len := tot_len (pb s x) - d\<rparr> else pb s x)"
      "memp_tab s1 = memp_tab s" "bmem s1 = bmem s"
  defines "s3 \<equiv> upd_pb q (\<lambda>b. b\<lparr>plen := rm, tot_len := rm\<rparr>) s1"
  shows "\<exists>s4. (if pnext (pb s3 q) \<noteq> 0 then Option.bind (pbuf_free env (pnext (pb s3 q)) s3) (\<lambda>cs. Some (snd cs)) else Some s3) = Some s4
    \<and> truncated s F us q vs rm d (upd_pb q (\<lambda>b. b\<lparr>pnext := 0\<rparr>) s4)"
proof -
  note p = packet_of [OF ok ps]
  note pd = packetD [OF p]
  have dis: "q \<notin> set us" "q \<notin> set vs" "set us \<inter> set vs = {}" using packet_distinct [OF p] by auto
  have s3: "pb s3 x = (if x \<in> set us then (pb s x)\<lparr>tot_len := tot_len (pb s x) - d\<rparr>
      else if x = q then (pb s q)\<lparr>plen := rm, tot_len := rm\<rparr> else pb s x)" for x
    using dis by (simp add: s3_def s1(1))
  have vs3: "pb s3 x = pb s x" if "x \<in> set vs" for x using that dis by (auto simp: s3)
  have fr: "x \<notin> free_elems F" if "x \<in> set (us @ q # vs)" for x using that packet_not_free [OF ok ps] by blast
  have "pools_ok s3 F = pools_ok s F"
  proof (rule pools_cong)
    show "pnext (pb s3 x) = pnext (pb s x) \<and> flags (pb s3 x) = flags (pb s x)" for x by (simp add: s3)
  qed (simp add: s3_def s1(2))
  then have pools: "pools_ok s3 F" using ok by (simp add: pbufs_ok_def)
  have nx: "pnext (pb s3 q) = pnext (pb s q)" using dis by (simp add: s3)
  have "chain s (pnext (pb s q)) vs" using chain_suffix [OF pd(2)] by simp
  then have c: "chain s3 (pnext (pb s3 q)) vs" unfolding nx by (subst chain_cong [of vs s3 s]) (simp_all add: vs3)
  have "x \<in> set vs \<Longrightarrow> x \<in> set (tl (us @ q # vs))" for x by (cases us) auto
  then have refs: "ref (pb s3 x) = 1" if "x \<in> set vs" for x using pd(8) that by (simp add: vs3)
  have "set vs \<inter> free_elems F = {}" using fr by auto
  from realloc_tail [OF c refs pools this, of env] obtain s4 where
    s4: "(if pnext (pb s3 q) \<noteq> 0 then Option.bind (pbuf_free env (pnext (pb s3 q)) s3) (\<lambda>cs. Some (snd cs)) else Some s3) = Some s4"
      "\<And>x. x \<notin> set vs \<Longrightarrow> pb s4 x = pb s3 x" "bmem s4 = bmem s3" "pools_ok s4 (put_back_all s3 vs F)" by blast
  have F3: "put_back_all s3 vs F = put_back_all s vs F" by (rule put_back_all_cong) (rule pool_of_cong, simp_all add: vs3)
  let ?s = "upd_pb q (\<lambda>b. b\<lparr>pnext := 0\<rparr>) s4"
  have "q \<notin> free_elems (put_back_all s vs F)" using free_elems_put_back_all [of s vs F] fr [of q] dis(2) by auto
  then have "pools_ok ?s (put_back_all s vs F) = pools_ok s4 (put_back_all s vs F)" by (intro pools_cong) auto
  moreover have "bmem s3 = bmem s" by (simp add: s3_def s1(3))
  ultimately have "truncated s F us q vs rm d ?s"
    unfolding truncated_def using s4(3,4) F3 dis by (auto simp: s4(2) s3)
  with s4(1) show ?thesis by blast
qed

text \<open>
  What \<open>mem_trim\<close> promises: it returns its argument, or \<open>NULL\<close> when the new size, rounded up to a multiple of
  4 and to at least 12 bytes, exceeds the size of the heap block, given by \<open>room\<close>. A buffer from the heap
  lies inside of its block.
\<close>

definition trim_size :: "nat \<Rightarrow> nat" where
  "trim_size k = max 12 (LWIP_MEM_ALIGN_SIZE k)"

definition trims :: "'h pbuf_env \<Rightarrow> (u32 \<Rightarrow> nat) \<Rightarrow> bool" where
  "trims env room \<longleftrightarrow> (\<forall>q k h. fst (mem_trim env q k h) = q \<or> fst (mem_trim env q k h) = 0 \<and> room q < trim_size (unat k))"

definition in_block :: "(u32 \<Rightarrow> nat) \<Rightarrow> u32 \<Rightarrow> pbuf \<Rightarrow> bool" where
  "in_block room q b \<longleftrightarrow> unat (payload b - q) + unat (plen b) < 65536 \<and> trim_size (unat (payload b - q) + unat (plen b)) \<le> room q"

lemma trim_shrinks:
  fixes k rm :: u16
  assumes "trims env room" "in_block room q b" "unat rm \<le> unat (plen b)" "k = ucast (payload b - q) + rm"
  shows "fst (mem_trim env q k h) = q"
proof -
  let ?a = "unat (payload b - q)"
  have a: "?a + unat rm < 65536" using assms(2,3) by (simp add: in_block_def)
  then have "unat (ucast (payload b - q) :: u16) = ?a" by (simp add: unsigned_ucast_eq take_bit_nat_eq_self_iff)
  then have "unat k = ?a + unat rm" using a unfolding assms(4) by (subst unat_add_lem [THEN iffD1]) simp_all
  then have "trim_size (unat k) \<le> trim_size (?a + unat (plen b))"
    using assms(3) unfolding trim_size_def LWIP_MEM_ALIGN_SIZE_def by (intro max.mono mult_le_mono1 div_le_mono) simp_all
  also have "\<dots> \<le> room q" using assms(2) by (simp add: in_block_def)
  finally show ?thesis using assms(1) unfolding trims_def by (metis not_le)
qed

lemma pbuf_realloc_run:
  assumes ok: "pbufs_ok s P F" and ps: "ps \<in> P" and n: "unat new_len < chain_len s ps"
    and trim: "trims env room" "\<And>q. q \<in> set ps \<Longrightarrow> ptype (pb s q) = PBUF_RAM \<Longrightarrow> in_block room q (pb s q)"
  shows "\<exists>us q vs rm d s'. ps = us @ q # vs \<and> pbuf_realloc env (hd ps) new_len s = Some s' \<and> truncated s F us q vs rm d s'
    \<and> unat new_len = chain_len s us + unat rm \<and> unat rm \<le> unat (plen (pb s q)) \<and> chain_len s (q # vs) = unat rm + unat d"
proof -
  note p = packet_of [OF ok ps]
  note pd = packetD [OF p]
  have tot: "unat (tot_len (pb s (hd ps))) = chain_len s ps" using packet_tot [OF p] pd(1) by (metis chain_len_simps(2))
  let ?g = "new_len - tot_len (pb s (hd ps))"
  define d where "d = tot_len (pb s (hd ps)) - new_len"
  have d: "unat d = chain_len s ps - unat new_len" unfolding d_def tot [symmetric]
    by (rule unat_sub) (use n tot in \<open>simp add: word_le_nat_alt\<close>)
  have ne: "ps \<noteq> []" using pd(1) by auto
  have g: "x + ?g = x - d" for x by (simp add: d_def)
  from realloc_loop_spec [OF pd(2) ne less_imp_le [OF n], of ?g] obtain us q vs s1 rm where
    r: "ps = us @ q # vs" "realloc_loop (hd ps) new_len ?g s = Some (q, rm, s1)"
      "unat new_len = chain_len s us + unat rm" "unat rm \<le> unat (plen (pb s q))"
      "memp_tab s1 = memp_tab s" "bmem s1 = bmem s"
      "\<And>x. pb s1 x = (if x \<in> set us then (pb s x)\<lparr>tot_len := tot_len (pb s x) - d\<rparr> else pb s x)" unfolding g by blast
  have qz: "q \<noteq> 0" using packet_nonzero [OF p] r(1) by auto
  define s2 where "s2 = (if ptype (pb s1 q) = PBUF_RAM \<and> rm \<noteq> plen (pb s1 q)
    then s1\<lparr>env_state := snd (mem_trim env q (ucast (payload (pb s1 q) - q) + rm) (env_state s1))\<rparr> else s1)"
  have s2: "pb s2 x = (if x \<in> set us then (pb s x)\<lparr>tot_len := tot_len (pb s x) - d\<rparr> else pb s x)"
    "memp_tab s2 = memp_tab s" "bmem s2 = bmem s" for x by (simp_all add: s2_def r(5-7))
  from ps have ps': "us @ q # vs \<in> P" unfolding r(1) .
  from realloc_finish [OF ok ps' s2, of rm env] obtain s4 where
    s4: "(if pnext (pb (upd_pb q (\<lambda>b. b\<lparr>plen := rm, tot_len := rm\<rparr>) s2) q) \<noteq> 0
        then Option.bind (pbuf_free env (pnext (pb (upd_pb q (\<lambda>b. b\<lparr>plen := rm, tot_len := rm\<rparr>) s2) q)) (upd_pb q (\<lambda>b. b\<lparr>plen := rm, tot_len := rm\<rparr>) s2)) (\<lambda>cs. Some (snd cs))
        else Some (upd_pb q (\<lambda>b. b\<lparr>plen := rm, tot_len := rm\<rparr>) s2)) = Some s4"
      "truncated s F us q vs rm d (upd_pb q (\<lambda>b. b\<lparr>pnext := 0\<rparr>) s4)" by blast
  have qp: "payload (pb s1 q) = payload (pb s q)" "ptype (pb s1 q) = ptype (pb s q)" by (simp_all add: r(7))
  have t: "(case mem_trim env q (ucast (payload (pb s1 q) - q) + rm) h of (q', h) \<Rightarrow> if q' = 0 then None else Some (q', s1\<lparr>env_state := h\<rparr>))
      = Some (q, s1\<lparr>env_state := snd (mem_trim env q (ucast (payload (pb s1 q) - q) + rm) h)\<rparr>)" if "ptype (pb s1 q) = PBUF_RAM" for h
    using trim_shrinks [OF trim(1) trim(2) r(4) refl, of h] that r(1) qz unfolding qp
    by (cases "mem_trim env q (ucast (payload (pb s q) - q) + rm) h") auto
  have X: "(if ptype (pb s1 q) = PBUF_RAM \<and> rm \<noteq> plen (pb s1 q)
      then case mem_trim env q (ucast (payload (pb s1 q) - q) + rm) (env_state s1) of
        (q', h) \<Rightarrow> if q' = 0 then None else Some (q', s1\<lparr>env_state := h\<rparr>)
      else Some (q, s1)) = Some (q, s2)"
    by (cases "ptype (pb s1 q) = PBUF_RAM \<and> rm \<noteq> plen (pb s1 q)") (auto simp: s2_def t)
  have nl: "\<not> tot_len (pb s (hd ps)) \<le> new_len" using n tot by (simp add: word_le_nat_alt)
  have "pbuf_realloc env (hd ps) new_len s = Some (upd_pb q (\<lambda>b. b\<lparr>pnext := 0\<rparr>) s4)"
    using pd(5) nl by (simp only: pbuf_realloc_def r(2) if_False Option.bind.simps prod.case Let_def X s4(1))
  moreover have "chain_len s (q # vs) = unat rm + unat d" using n d r(1,3) by simp
  ultimately show ?thesis using r(1,3,4) s4(2) by blast
qed

lemma pbuf_realloc_ok:
  assumes ok: "pbufs_ok s P F" and ps: "ps \<in> P" and n: "unat new_len \<le> chain_len s ps"
    and trim: "trims env room" "\<And>q. q \<in> set ps \<Longrightarrow> ptype (pb s q) = PBUF_RAM \<Longrightarrow> in_block room q (pb s q)"
  shows "\<exists>s' F' qs. pbuf_realloc env (hd ps) new_len s = Some s' \<and> hd qs = hd ps \<and> pbufs_ok s' (P - {ps} \<union> {qs}) F'
    \<and> pool_elems s' (P - {ps} \<union> {qs}) F' = pool_elems s P F \<and> chain_bytes s' qs = take (unat new_len) (chain_bytes s ps)"
proof (cases "unat new_len = chain_len s ps")
  case True
  note p = packet_of [OF ok ps]
  have "unat (tot_len (pb s (hd ps))) = chain_len s ps" using packet_tot [OF p] packetD(1) [OF p] by (metis chain_len_simps(2))
  then have "pbuf_realloc env (hd ps) new_len s = Some s"
    using True packetD(5) [OF p] by (simp add: pbuf_realloc_def word_le_nat_alt)
  moreover have "P - {ps} \<union> {ps} = P" using ps by auto
  ultimately show ?thesis using ok True
    by (intro exI [of _ s] exI [of _ F] exI [of _ ps]) (simp add: length_chain_bytes)
next
  case False
  with n have "unat new_len < chain_len s ps" by simp
  from pbuf_realloc_run [OF ok ps this trim] obtain us q vs rm d s' where
    r: "ps = us @ q # vs" "pbuf_realloc env (hd ps) new_len s = Some s'" "truncated s F us q vs rm d s'"
      "unat new_len = chain_len s us + unat rm" "unat rm \<le> unat (plen (pb s q))" "chain_len s (q # vs) = unat rm + unat d" by blast
  note p = packet_of [OF ok ps]
  have "hd (us @ [q]) = hd ps" unfolding r(1) by (cases us) auto
  then show ?thesis
    using r(2) truncated_ok [OF r(3) ok _ r(6)] truncated_bytes [OF r(3) _ r(5)] ps p
    unfolding r(1,4) by blast
qed

section \<open>Allocation\<close>

lemma pool_of_pool: "ptype (pb s q) = PBUF_POOL \<Longrightarrow> flags (pb s q) AND PBUF_FLAG_IS_CUSTOM = 0 \<Longrightarrow> pool_of s q = Some MEMP_PBUF_POOL"
  by (simp add: pool_of_def)

text \<open>Taking an element off a pool.\<close>

lemma memp_malloc_ok:
  assumes "pools_ok s F" "memp_malloc t s = (q, s1)"
  shows "q = 0 \<Longrightarrow> F t = [] \<and> s1 = s"
    "q \<noteq> 0 \<Longrightarrow> \<exists>G. F t = q # G \<and> pools_ok s1 (F(t := G)) \<and> q \<notin> free_elems (F(t := G)) \<and> pb s1 = pb s \<and> bmem s1 = bmem s
      \<and> flags (pb s q) AND PBUF_FLAG_IS_CUSTOM = 0 \<and> env_state s1 = env_state s"
proof -
  have c: "chain s (memp_tab s t) (F t)" using assms(1) by (simp add: pools_ok_def)
  have q: "q = memp_tab s t" using assms(2) by (auto simp: memp_malloc_def Let_def split: if_splits)
  show "F t = [] \<and> s1 = s" if "q = 0" using that c q assms(2) by (auto simp: memp_malloc_def)
  show "\<exists>G. F t = q # G \<and> pools_ok s1 (F(t := G)) \<and> q \<notin> free_elems (F(t := G)) \<and> pb s1 = pb s \<and> bmem s1 = bmem s
      \<and> flags (pb s q) AND PBUF_FLAG_IS_CUSTOM = 0 \<and> env_state s1 = env_state s" if qn: "q \<noteq> 0"
  proof -
    obtain G where G: "F t = q # G" "chain s (pnext (pb s q)) G" using c qn q by (cases "F t") auto
    have s1: "s1 = s\<lparr>memp_tab := (memp_tab s)(t := pnext (pb s q))\<rparr>"
      using assms(2) qn q by (auto simp: memp_malloc_def Let_def)
    have ch: "chain s1 a xs = chain s a xs" for a xs by (rule chain_cong) (simp add: s1)
    have d: "q \<notin> set G" using chain_distinct [OF c] G(1) by simp
    have "pools_ok s1 (F(t := G))"
      using assms(1) G unfolding pools_ok_def by (auto simp: ch, simp_all add: s1, (metis disjoint_iff list.set_intros)+)
    moreover have "q \<notin> free_elems (F(t := G))"
      using assms(1) G(1) d unfolding pools_ok_def free_elems_def by (auto split: if_splits) (metis disjoint_iff list.set_intros(1))
    moreover have "flags (pb s q) AND PBUF_FLAG_IS_CUSTOM = 0" using assms(1) G(1) unfolding pools_ok_def by (metis list.set_intros(1))
    ultimately show ?thesis using G(1) by (auto simp: s1)
  qed
qed

lemma pool_is_empty_simps [simp]:
  "pb (pbuf_pool_is_empty env s) = pb s" "bmem (pbuf_pool_is_empty env s) = bmem s" "memp_tab (pbuf_pool_is_empty env s) = memp_tab s"
  by (simp_all add: pbuf_pool_is_empty_def Let_def split: prod.split)

text \<open>
  The chain \<open>ps\<close> under construction: pool elements, each referred to once, of which \<open>tot_len\<close> counts the
  \<open>r\<close> bytes that are still to be allocated.
\<close>

definition building :: "'h pbufs \<Rightarrow> (memp_t \<Rightarrow> u32 list) \<Rightarrow> u32 list \<Rightarrow> nat \<Rightarrow> bool" where
  "building s F ps r \<longleftrightarrow> ps \<noteq> [] \<and> chain s (hd ps) ps \<and> tot_from s r ps \<and> pools_ok s F \<and> set ps \<inter> free_elems F = {}
     \<and> (\<forall>q\<in>set ps. ref (pb s q) = 1 \<and> pool_of s q = Some MEMP_PBUF_POOL)"

lemma building_extend:
  assumes b: "building s F ps r" and m: "memp_malloc MEMP_PBUF_POOL s = (q, s1)" "q \<noteq> 0" and r: "r < 65536" "0 < r"
    and s4: "s4 = upd_pb q (\<lambda>b. b\<lparr>tot_len := of_nat r, plen := of_nat n, payload := q + of_nat SIZEOF_STRUCT_PBUF, ref := 1\<rparr>)
       (upd_pb (last ps) (\<lambda>b. b\<lparr>pnext := q\<rparr>) (upd_pb q (\<lambda>b. b\<lparr>ptype := PBUF_POOL, flags := 0, pnext := 0\<rparr>) s1))"
    and n: "n = min r PBUF_POOL_BUFSIZE_ALIGNED"
  obtains G where "F MEMP_PBUF_POOL = q # G" "building s4 (F(MEMP_PBUF_POOL := G)) (ps @ [q]) (r - n)"
    "chain_len s4 (ps @ [q]) = chain_len s ps + n" "\<forall>x. x \<notin> insert q (set ps) \<longrightarrow> pb s4 x = pb s x" "bmem s4 = bmem s"
proof -
  have bd: "ps \<noteq> []" "chain s (hd ps) ps" "tot_from s r ps" "pools_ok s F" "set ps \<inter> free_elems F = {}"
    "\<And>q. q \<in> set ps \<Longrightarrow> ref (pb s q) = 1 \<and> pool_of s q = Some MEMP_PBUF_POOL" using b by (auto simp: building_def)
  from memp_malloc_ok(2) [OF bd(4) m(1,2)] obtain G where G: "F MEMP_PBUF_POOL = q # G"
    "pools_ok s1 (F(MEMP_PBUF_POOL := G))" "q \<notin> free_elems (F(MEMP_PBUF_POOL := G))" "pb s1 = pb s" "bmem s1 = bmem s" by blast
  let ?F = "F(MEMP_PBUF_POOL := G)"
  have qf: "q \<in> free_elems F" unfolding free_elems_def using G(1) by (metis UNIV_I UN_iff list.set_intros(1))
  have sub: "free_elems ?F \<subseteq> free_elems F"
    unfolding free_elems_def using G(1) by (auto split: if_splits)
  have qps: "q \<notin> set ps" using bd(5) qf by auto
  obtain us z where us: "ps = us @ [z]" using bd(1) by (cases ps rule: rev_cases) auto
  have z: "z \<notin> set us" "z \<noteq> q" "q \<notin> set us" using chain_distinct [OF bd(2)] qps us by auto
  have s4x: "pb s4 x = (if x = q then (pb s q)\<lparr>ptype := PBUF_POOL, flags := 0, pnext := 0, tot_len := of_nat r, plen := of_nat n,
        payload := q + of_nat SIZEOF_STRUCT_PBUF, ref := 1\<rparr> else if x = z then (pb s z)\<lparr>pnext := q\<rparr> else pb s x)" for x
    using z us by (simp add: s4 G(4))
  have u: "unat (of_nat r :: u16) = r" "unat (of_nat n :: u16) = n"
    using r n by (simp_all add: unat_of_nat take_bit_nat_eq_self_iff min_def)
  have old: "pb s4 x = pb s x" if "x \<notin> insert q (set ps)" for x using that us by (simp add: s4x)
  have len: "chain_len s4 ps = chain_len s ps" by (rule chain_len_cong) (use qps in \<open>auto simp: s4x\<close>)
  have "building s4 ?F (ps @ [q]) (r - n)" unfolding building_def
  proof (intro conjI ballI)
    show "chain s4 (hd (ps @ [q])) (ps @ [q])"
    proof -
      have "chain s4 (hd ps) (ps @ [q])"
        by (rule chain_snoc_link [OF bd(2,1), of s4 q "[q]"]) (use z m(2) us in \<open>auto simp: s4x\<close>)
      then show ?thesis using bd(1) by simp
    qed
    have "tot_from s4 r ps = tot_from s r ps" by (rule tot_from_cong) (use qps in \<open>auto simp: s4x\<close>)
    moreover have "n \<le> r" using n by simp
    ultimately show "tot_from s4 (r - n) (ps @ [q])" using bd(3) u by (simp add: s4x)
    have "pools_ok s4 ?F = pools_ok s1 ?F"
    proof (rule pools_cong)
      show "memp_tab s4 = memp_tab s1" by (simp add: s4)
      fix x assume x: "x \<in> free_elems ?F"
      then have "x \<noteq> q" "x \<noteq> z" using G(3) sub bd(5) us by auto
      then show "pnext (pb s4 x) = pnext (pb s1 x) \<and> flags (pb s4 x) = flags (pb s1 x)" by (simp add: s4x G(4))
    qed
    then show "pools_ok s4 ?F" using G(2) by simp
    show "set (ps @ [q]) \<inter> free_elems ?F = {}" using sub bd(5) G(3) by auto
    fix x assume "x \<in> set (ps @ [q])"
    then show "ref (pb s4 x) = 1" using bd(6) by (auto simp: s4x)
    show "pool_of s4 x = Some MEMP_PBUF_POOL"
    proof (cases "x = q")
      case True
      then show ?thesis by (simp add: pool_of_def s4x)
    next
      case False
      then have "pool_of s4 x = pool_of s x" by (intro pool_of_cong) (simp_all add: s4x)
      then show ?thesis using bd(6) False \<open>x \<in> set (ps @ [q])\<close> by simp
    qed
  qed simp
  moreover have "chain_len s4 (ps @ [q]) = chain_len s ps + n" using len u by (simp add: s4x)
  moreover have "bmem s4 = bmem s" by (simp add: s4 G(5))
  ultimately show ?thesis using that G(1) old by blast
qed

lemma building_free:
  assumes b: "building s F ps r" and m: "memp_tab s1 = memp_tab s" "pb s1 = pb s" "bmem s1 = bmem s"
  shows "\<exists>c s' F'. pbuf_free env (hd ps) s1 = Some (c, s') \<and> bmem s' = bmem s \<and> (\<forall>x. x \<notin> set ps \<longrightarrow> pb s' x = pb s x)
    \<and> pools_ok s' F' \<and> (\<forall>t. set (F' t) = set (F t) \<union> (if t = MEMP_PBUF_POOL then set ps else {}))"
proof -
  have bd: "ps \<noteq> []" "chain s (hd ps) ps" "pools_ok s F" "set ps \<inter> free_elems F = {}"
    "\<And>q. q \<in> set ps \<Longrightarrow> ref (pb s q) = 1 \<and> pool_of s q = Some MEMP_PBUF_POOL" using b by (auto simp: building_def)
  have c: "chain s1 (hd ps) ps" using bd(2) by (subst chain_cong [of ps s1 s]) (simp_all add: m)
  have pl: "pools_ok s1 F" using bd(3) by (subst pools_cong [of s1 s]) (simp_all add: m)
  have r1: "\<And>q. q \<in> set ps \<Longrightarrow> ref (pb s1 q) = 1" by (simp add: m bd(5))
  from free_loop_all [OF c r1 pl bd(4), of env 0] obtain s' where s': "pbuf_free_loop env (hd ps) 0 s1 = Some (of_nat (length ps), s')"
    "\<forall>x. x \<notin> set ps \<longrightarrow> pb s' x = pb s1 x" "bmem s' = bmem s1" "pools_ok s' (put_back_all s1 ps F)" by auto
  have "pool_of s1 q = pool_of s q" for q by (rule pool_of_cong) (simp_all add: m)
  then have "set (put_back_all s1 ps F t) = set (F t) \<union> (if t = MEMP_PBUF_POOL then set ps else {})" for t
    using bd(5) unfolding set_put_back_all by auto
  moreover have "hd ps \<noteq> 0" using bd(1) chain_nonzero [OF bd(2)] by (cases ps) auto
  ultimately show ?thesis using s' m
    by (intro exI [of _ "of_nat (length ps)"] exI [of _ s'] exI [of _ "put_back_all s1 ps F"]) (simp add: pbuf_free_def)
qed

text \<open>The outcome of the loop: \<open>NULL\<close> and everything back in the pool, or a chain with room for all bytes.\<close>

definition moved :: "(memp_t \<Rightarrow> u32 list) \<Rightarrow> u32 list \<Rightarrow> (memp_t \<Rightarrow> u32 list) \<Rightarrow> bool" where
  "moved F qs F' \<longleftrightarrow> (\<forall>t. set (F' t) = set (F t) \<union> (if t = MEMP_PBUF_POOL then set qs else {}))"

definition chain_result :: "'h pbufs \<Rightarrow> (memp_t \<Rightarrow> u32 list) \<Rightarrow> u32 list \<Rightarrow> nat \<Rightarrow> u32 \<Rightarrow> 'h pbufs \<Rightarrow> bool" where
  "chain_result s F ps r p s' \<longleftrightarrow> bmem s' = bmem s \<and> (\<forall>x. x \<notin> set ps \<union> free_elems F \<longrightarrow> pb s' x = pb s x)
    \<and> (p = 0 \<and> (\<exists>F'. pools_ok s' F' \<and> moved F ps F')
      \<or> p = hd ps \<and> (\<exists>qs F'. building s' F' (ps @ qs) 0 \<and> chain_len s' (ps @ qs) = chain_len s ps + r \<and> moved F' qs F))"

lemma moved_nil [simp]: "moved F [] F"
  by (simp add: moved_def)

lemma moved_trans: "moved F xs G \<Longrightarrow> moved G ys H \<Longrightarrow> moved F (xs @ ys) H"
  unfolding moved_def by (auto split: if_splits)

lemma moved_absorb: "moved G [q] F \<Longrightarrow> moved G (ps @ [q]) F' \<Longrightarrow> moved F ps F'"
  unfolding moved_def by (auto split: if_splits)

lemma moved_free_elems: "moved G qs F \<Longrightarrow> free_elems F = free_elems G \<union> set qs"
  unfolding moved_def free_elems_def by (auto split: if_splits)

lemma chain_result_step:
  assumes res: "chain_result s4 G (ps @ [q]) (r - n) p s'" and G: "moved G [q] F" and b: "building s F ps r"
    and s4: "chain_len s4 (ps @ [q]) = chain_len s ps + n" "\<forall>x. x \<notin> insert q (set ps) \<longrightarrow> pb s4 x = pb s x" "bmem s4 = bmem s" "n \<le> r"
  shows "chain_result s F ps r p s'"
proof -
  have m: "bmem s' = bmem s" using res s4(3) by (simp add: chain_result_def)
  have frame: "\<forall>x. x \<notin> set ps \<union> free_elems F \<longrightarrow> pb s' x = pb s x"
    using res s4(2) moved_free_elems [OF G] by (simp add: chain_result_def)
  have hd: "hd (ps @ [q]) = hd ps" using b by (simp add: building_def)
  from res consider (null) F' where "p = 0" "pools_ok s' F'" "moved G (ps @ [q]) F'"
    | (chain) qs F' where "p = hd ps" "building s' F' ((ps @ [q]) @ qs) 0" "chain_len s' ((ps @ [q]) @ qs) = chain_len s4 (ps @ [q]) + (r - n)" "moved F' qs G"
    unfolding chain_result_def hd by blast
  then show ?thesis
  proof cases
    case null
    then show ?thesis using m frame moved_absorb [OF G null(3)] unfolding chain_result_def by blast
  next
    case chain
    have "moved F' (qs @ [q]) F" by (rule moved_trans [OF chain(4) G])
    then have "moved F' (q # qs) F" by (simp add: moved_def insert_commute Un_commute)
    moreover have "building s' F' (ps @ q # qs) 0" "chain_len s' (ps @ q # qs) = chain_len s ps + r"
      using chain(2,3) s4(1,4) by simp_all
    ultimately show ?thesis using m frame chain(1) unfolding chain_result_def by blast
  qed
qed

lemma pool_chain_loop_spec:
  assumes "building s F ps r" "r < 65536"
  shows "\<exists>p s'. pool_chain_loop env (hd ps) (last ps) r s = Some (p, s') \<and> chain_result s F ps r p s'"
  using assms
proof (induction r arbitrary: s F ps rule: less_induct)
  case (less r)
  obtain q s1 where m: "memp_malloc MEMP_PBUF_POOL s = (q, s1)" by (cases "memp_malloc MEMP_PBUF_POOL s")
  have pools: "pools_ok s F" using less.prems(1) by (simp add: building_def)
  consider "r = 0" | "0 < r" "q = 0" | "0 < r" "q \<noteq> 0" by blast
  then show ?case
  proof cases
    case 1
    then have "pool_chain_loop env (hd ps) (last ps) r s = Some (hd ps, s)" by (subst pool_chain_loop.simps) simp
    moreover have "building s F (ps @ []) 0 \<and> chain_len s (ps @ []) = chain_len s ps + r \<and> moved F [] F"
      using less.prems(1) 1 by simp
    then have "chain_result s F ps r (hd ps) s" unfolding chain_result_def by blast
    ultimately show ?thesis by blast
  next
    case 2
    have s1: "s1 = s" using memp_malloc_ok(1) [OF pools m 2(2)] by simp
    from building_free [OF less.prems(1), of "pbuf_pool_is_empty env s" env] obtain c s' F' where
      f: "pbuf_free env (hd ps) (pbuf_pool_is_empty env s) = Some (c, s')" "bmem s' = bmem s" "\<forall>x. x \<notin> set ps \<longrightarrow> pb s' x = pb s x"
        "pools_ok s' F'" "moved F ps F'" unfolding moved_def by auto
    have "pool_chain_loop env (hd ps) (last ps) r s = Some (0, s')"
      using 2 m s1 f(1) by (subst pool_chain_loop.simps) (simp add: Let_def)
    moreover have "chain_result s F ps r 0 s'" using f(2-5) unfolding chain_result_def by blast
    ultimately show ?thesis by blast
  next
    case 3
    define n where "n = min r PBUF_POOL_BUFSIZE_ALIGNED"
    define s4 where "s4 = upd_pb q (\<lambda>b. b\<lparr>tot_len := of_nat r, plen := of_nat n, payload := q + of_nat SIZEOF_STRUCT_PBUF, ref := 1\<rparr>)
       (upd_pb (last ps) (\<lambda>b. b\<lparr>pnext := q\<rparr>) (upd_pb q (\<lambda>b. b\<lparr>ptype := PBUF_POOL, flags := 0, pnext := 0\<rparr>) s1))"
    obtain G where G: "F MEMP_PBUF_POOL = q # G" "building s4 (F(MEMP_PBUF_POOL := G)) (ps @ [q]) (r - n)"
      "chain_len s4 (ps @ [q]) = chain_len s ps + n" "\<forall>x. x \<notin> insert q (set ps) \<longrightarrow> pb s4 x = pb s x" "bmem s4 = bmem s"
      by (rule building_extend [OF less.prems(1) m 3(2) less.prems(2) 3(1) s4_def n_def])
    have nr: "0 < n" "n \<le> r" using 3(1) by (simp_all add: n_def)
    then have lt: "r - n < r" "r - n < 65536" using less.prems(2) by simp_all
    have hd: "hd (ps @ [q]) = hd ps" "last (ps @ [q]) = q" using less.prems(1) by (auto simp: building_def)
    have step: "pool_chain_loop env (hd ps) (last ps) r s = pool_chain_loop env (hd ps) q (r - n) s4"
      using 3 m by (subst pool_chain_loop.simps) (simp add: Let_def s4_def n_def)
    have "moved (F(MEMP_PBUF_POOL := G)) [q] F" using G(1) by (simp add: moved_def)
    then show ?thesis using less.IH [OF lt(1) G(2) lt(2)] chain_result_step [OF _ _ less.prems(1) G(3-5) nr(2)]
      unfolding hd step by blast
  qed
qed

lemma insert_packet:
  assumes ok: "pbufs_ok s P F" and new: "packet s' ps" and frame: "\<And>q. q \<in> \<Union>(set ` P) \<Longrightarrow> pb s' q = pb s q"
    and pools: "pools_ok s' F'" and apart: "set ps \<inter> (\<Union>(set ` P) \<union> free_elems F') = {}" and free: "free_elems F' \<subseteq> free_elems F"
  shows "pbufs_ok s' (P \<union> {ps}) F'"
proof (rule pbufs_okI [OF ok subset_refl _ _ pools])
  show "pb s' q = pb s q" if "qs \<in> P" "q \<in> set qs" for qs q by (rule frame) (use that in blast)
  show "set qs \<inter> free_elems F' = {}" if "qs \<in> P \<union> {ps}" for qs
    using that apart free packet_not_free [OF ok, of qs] by auto
  show "set qs \<inter> set rs = {}" if "qs \<in> P" "rs \<in> {ps}" for qs rs using that apart by auto
qed (use new in auto)

lemma keep_packets:
  assumes ok: "pbufs_ok s P F" and frame: "\<And>q. q \<in> \<Union>(set ` P) \<Longrightarrow> pb s' q = pb s q" and pools: "pools_ok s' F'"
    and free: "\<And>t. set (F' t) = set (F t)"
  shows "pbufs_ok s' P F' \<and> pool_elems s' P F' = pool_elems s P F"
proof
  have fe: "free_elems F' = free_elems F" by (simp add: free_elems_def free)
  have "pbufs_ok s' (P \<union> {}) F'"
  proof (rule pbufs_okI [OF ok subset_refl _ _ pools])
    show "pb s' q = pb s q" if "qs \<in> P" "q \<in> set qs" for qs q by (rule frame) (use that in blast)
    show "set qs \<inter> free_elems F' = {}" if "qs \<in> P \<union> {}" for qs using that packet_not_free [OF ok, of qs] fe by auto
  qed auto
  then show "pbufs_ok s' P F'" by simp
  have "pool_of s' q = pool_of s q" if "q \<in> \<Union>(set ` P)" for q using frame [OF that] by (simp add: pool_of_def)
  then have "q \<in> \<Union>(set ` P) \<and> pool_of s' q = Some t \<longleftrightarrow> q \<in> \<Union>(set ` P) \<and> pool_of s q = Some t" for q t by metis
  then show "pool_elems s' P F' = pool_elems s P F" by (intro ext) (simp add: pool_elems_def free)
qed

lemma insert_pool_elems:
  assumes frame: "\<And>q. q \<in> \<Union>(set ` P) \<Longrightarrow> pb s' q = pb s q"
    and free: "\<And>t. set (F t) = set (F' t) \<union> {q \<in> set ps. pool_of s' q = Some t}"
  shows "pool_elems s' (P \<union> {ps}) F' = pool_elems s P F"
proof (rule ext)
  fix t
  have "pool_of s' q = pool_of s q" if "q \<in> \<Union>(set ` P)" for q using frame [OF that] by (simp add: pool_of_def)
  then have "q \<in> \<Union>(set ` P) \<and> pool_of s' q = Some t \<longleftrightarrow> q \<in> \<Union>(set ` P) \<and> pool_of s q = Some t" for q by metis
  then show "pool_elems s' (P \<union> {ps}) F' t = pool_elems s P F t" unfolding pool_elems_def free [of t] by auto
qed

text \<open>What a successful or failed allocation leaves behind.\<close>

definition allocated :: "'h pbufs \<Rightarrow> u32 list set \<Rightarrow> (memp_t \<Rightarrow> u32 list) \<Rightarrow> u16 \<Rightarrow> u32 \<Rightarrow> 'h pbufs \<Rightarrow> bool" where
  "allocated s P F n p s' \<longleftrightarrow>
    (p = 0 \<and> (\<exists>F'. pbufs_ok s' P F' \<and> pool_elems s' P F' = pool_elems s P F)
     \<or> p \<noteq> 0 \<and> (\<exists>ps F'. hd ps = p \<and> ps \<notin> P \<and> pbufs_ok s' (P \<union> {ps}) F' \<and> pool_elems s' (P \<union> {ps}) F' = pool_elems s P F
          \<and> chain_len s' ps = unat n))"

lemma alloc_building:
  assumes ok: "pbufs_ok s P F" and m: "memp_malloc MEMP_PBUF_POOL s = (p, s1)" "p \<noteq> 0" and n: "n \<le> unat n_bytes"
    and s2: "s2 = upd_pb p (\<lambda>b. b\<lparr>ptype := PBUF_POOL, pnext := 0, payload := a, tot_len := n_bytes, plen := of_nat n, ref := 1\<rparr>) s1"
    and G: "F MEMP_PBUF_POOL = p # G"
  shows "building s2 (F(MEMP_PBUF_POOL := G)) [p] (unat n_bytes - n)"
proof -
  have pools: "pools_ok s F" using ok by (simp add: pbufs_ok_def)
  from memp_malloc_ok(2) [OF pools m] G have g: "pools_ok s1 (F(MEMP_PBUF_POOL := G))"
    "p \<notin> free_elems (F(MEMP_PBUF_POOL := G))" "pb s1 = pb s" "flags (pb s p) AND PBUF_FLAG_IS_CUSTOM = 0" by auto
  have un: "unat (of_nat n :: u16) = n" using n unat_u16_less [of n_bytes] by (simp add: unat_of_nat take_bit_nat_eq_self_iff)
  have "pools_ok s2 (F(MEMP_PBUF_POOL := G)) = pools_ok s1 (F(MEMP_PBUF_POOL := G))"
    by (rule pools_cong) (use g(2) in \<open>auto simp: s2\<close>)
  then show ?thesis using g m(2) n un by (simp add: building_def s2 pool_of_def)
qed

lemma alloc_pool_chain:
  assumes ok: "pbufs_ok s P F" and m: "memp_malloc MEMP_PBUF_POOL s = (p, s1)" "p \<noteq> 0" and n: "n \<le> unat n_bytes"
    and s2: "s2 = upd_pb p (\<lambda>b. b\<lparr>ptype := PBUF_POOL, pnext := 0, payload := a, tot_len := n_bytes, plen := of_nat n, ref := 1\<rparr>) s1"
  shows "\<exists>p' s3. pool_chain_loop env p p (unat n_bytes - n) s2 = Some (p', s3)
    \<and> allocated s P F n_bytes p' (if p' = 0 then s3 else upd_pb p' (\<lambda>b. b\<lparr>ref := 1, flags := 0\<rparr>) s3)"
proof -
  have pools: "pools_ok s F" using ok by (simp add: pbufs_ok_def)
  from memp_malloc_ok(2) [OF pools m] obtain G where G: "F MEMP_PBUF_POOL = p # G" "pools_ok s1 (F(MEMP_PBUF_POOL := G))"
    "p \<notin> free_elems (F(MEMP_PBUF_POOL := G))" "pb s1 = pb s" "flags (pb s p) AND PBUF_FLAG_IS_CUSTOM = 0" by blast
  let ?F = "F(MEMP_PBUF_POOL := G)"
  have mv: "moved ?F [p] F" using G(1) by (simp add: moved_def)
  have un: "unat (of_nat n :: u16) = n" using n unat_u16_less [of n_bytes] by (simp add: unat_of_nat take_bit_nat_eq_self_iff)
  have pin: "p \<notin> \<Union>(set ` P)"
    using packet_not_free [OF ok, of _ p] moved_free_elems [OF mv] by auto
  have P2: "pb s2 q = pb s q" if "q \<in> \<Union>(set ` P)" for q using that pin by (auto simp: s2 G(4))
  have b: "building s2 ?F [p] (unat n_bytes - n)" by (rule alloc_building [OF ok m n s2 G(1)])
  have "unat n_bytes - n < 65536" using unat_u16_less [of n_bytes] by simp
  from pool_chain_loop_spec [OF b this, of env] obtain p' s3 where
    l: "pool_chain_loop env p p (unat n_bytes - n) s2 = Some (p', s3)" and res: "chain_result s2 ?F [p] (unat n_bytes - n) p' s3" by auto
  have out: "q \<notin> set [p] \<union> free_elems ?F" if "q \<in> \<Union>(set ` P)" for q
    using that packet_not_free [OF ok, of _ q] moved_free_elems [OF mv] by auto
  have P3: "pb s3 q = pb s q" if "q \<in> \<Union>(set ` P)" for q using res out [OF that] P2 [OF that] by (simp add: chain_result_def)
  from res consider (null) F' where "p' = 0" "pools_ok s3 F'" "moved ?F [p] F'"
    | (chain) qs F' where "p' = p" "building s3 F' ([p] @ qs) 0" "chain_len s3 ([p] @ qs) = chain_len s2 [p] + (unat n_bytes - n)" "moved F' qs ?F"
    unfolding chain_result_def by auto
  then show ?thesis
  proof cases
    case null
    have "set (F' t) = set (F t)" for t using null(3) mv by (simp add: moved_def)
    from keep_packets [OF ok P3 null(2) this] show ?thesis using l null(1) by (auto simp: allocated_def)
  next
    case chain
    let ?s = "upd_pb p (\<lambda>b. b\<lparr>ref := 1, flags := 0\<rparr>) s3" and ?ps = "p # qs"
    have bd: "chain s3 p ?ps" "tot_from s3 0 ?ps" "pools_ok s3 F'" "set ?ps \<inter> free_elems F' = {}"
      "\<And>q. q \<in> set ?ps \<Longrightarrow> ref (pb s3 q) = 1 \<and> pool_of s3 q = Some MEMP_PBUF_POOL" using chain(2) by (auto simp: building_def)
    have mF: "moved F' (qs @ [p]) F" by (rule moved_trans [OF chain(4) mv])
    have psP: "set ?ps \<inter> \<Union>(set ` P) = {}"
      using moved_free_elems [OF mF] packet_not_free [OF ok] by auto
    have P4: "pb ?s q = pb s q" if "q \<in> \<Union>(set ` P)" for q using that psP P3 [OF that] by auto
    have "pools_ok ?s F' = pools_ok s3 F'" by (rule pools_cong) (use bd(4) in auto)
    then have pl: "pools_ok ?s F'" using bd(3) by simp
    have pk: "packet ?s ?ps"
    proof -
      have "chain ?s p ?ps = chain s3 p ?ps" by (rule chain_cong) simp
      moreover have "tot_from ?s 0 ?ps = tot_from s3 0 ?ps" by (rule tot_from_cong) simp
      ultimately show ?thesis using bd by (simp add: packet_def)
    qed
    have "pbufs_ok ?s (P \<union> {?ps}) F'"
      by (rule insert_packet [OF ok pk P4 pl]) (use psP bd(4) moved_free_elems [OF mF] in auto)
    moreover have po: "pool_of ?s q = Some MEMP_PBUF_POOL" if "q \<in> set ?ps" for q
      using bd(5) [OF that] by (auto simp: pool_of_def split: if_splits pbuf_type.splits)
    have "set (F t) = set (F' t) \<union> {q \<in> set ?ps. pool_of ?s q = Some t}" for t
      using mF po unfolding moved_def by (auto split: if_splits)
    then have "pool_elems ?s (P \<union> {?ps}) F' = pool_elems s P F" by (intro insert_pool_elems P4)
    moreover have "chain_len ?s ?ps = unat n_bytes"
    proof -
      have "chain_len ?s ?ps = chain_len s3 ?ps" by (rule chain_len_cong) simp
      then show ?thesis using chain(3) n un by (simp add: s2)
    qed
    moreover have "?ps \<notin> P" "hd ?ps = p" using psP by auto
    ultimately have "allocated s P F n_bytes p ?s" unfolding allocated_def using m(2) by blast
    then show ?thesis using l chain(1) m(2) by auto
  qed
qed

text \<open>A single buffer from the heap or from the pool of reference pbufs.\<close>

lemma alloc_single:
  assumes ok: "pbufs_ok s P F" and frame: "\<And>q. q \<noteq> p \<Longrightarrow> pb s' q = pb s q" and pools: "pools_ok s' F'" and p: "p \<noteq> 0"
    and apart: "p \<notin> \<Union>(set ` P)" "p \<notin> free_elems F'" "free_elems F' \<subseteq> free_elems F"
    and new: "pnext (pb s' p) = 0" "tot_len (pb s' p) = n" "plen (pb s' p) = n" "ref (pb s' p) = 1"
    and free: "\<And>t. set (F t) = set (F' t) \<union> {q \<in> set [p]. pool_of s' q = Some t}"
  shows "allocated s P F n p s'"
proof -
  have P: "pb s' q = pb s q" if "q \<in> \<Union>(set ` P)" for q using that apart(1) by (intro frame) auto
  have "packet s' [p]" using new p by (simp add: packet_def)
  then have "pbufs_ok s' (P \<union> {[p]}) F'" by (rule insert_packet [OF ok _ P pools]) (use apart in auto)
  moreover have "pool_elems s' (P \<union> {[p]}) F' = pool_elems s P F" by (rule insert_pool_elems [OF P free])
  moreover have "chain_len s' [p] = unat n" "[p] \<notin> P" "hd [p] = p" using new apart(1) by auto
  ultimately show ?thesis unfolding allocated_def using p by blast
qed

lemma alloc_fails: "pbufs_ok s P F \<Longrightarrow> pb s' = pb s \<Longrightarrow> memp_tab s' = memp_tab s \<Longrightarrow> allocated s P F n 0 s'"
  using keep_packets [of s P F s' F] pools_cong [of s' s F] by (auto simp: allocated_def pbufs_ok_def)

lemma alloc_pool_ok:
  assumes ok: "pbufs_ok s P F" and pool: "type = PBUF_POOL"
  shows "\<exists>p s'. pbuf_alloc env layer n type s = Some (p, s') \<and> allocated s P F n p s'"
proof -
  let ?o = "layer_offset layer"
  have pools: "pools_ok s F" using ok by (simp add: pbufs_ok_def)
  obtain p s1 where m: "memp_malloc MEMP_PBUF_POOL s = (p, s1)" by (cases "memp_malloc MEMP_PBUF_POOL s")
  show ?thesis
  proof (cases "p = 0")
    case True
    then have "pbuf_alloc env layer n type s = Some (0, pbuf_pool_is_empty env s)"
      using pool m memp_malloc_ok(1) [OF pools m] by (simp add: pbuf_alloc_def Let_def)
    moreover have "allocated s P F n 0 (pbuf_pool_is_empty env s)" by (rule alloc_fails [OF ok]) simp_all
    ultimately show ?thesis by blast
  next
    case False
    let ?n = "min (unat n) (PBUF_POOL_BUFSIZE_ALIGNED - LWIP_MEM_ALIGN_SIZE ?o)"
    have "?n \<le> unat n" by simp
    from alloc_pool_chain [OF ok m False this refl, of env "LWIP_MEM_ALIGN (p + of_nat (SIZEOF_STRUCT_PBUF + ?o))"]
    obtain p' s3 where l: "pool_chain_loop env p p (unat n - ?n) (upd_pb p (\<lambda>b. b\<lparr>ptype := PBUF_POOL, pnext := 0,
          payload := LWIP_MEM_ALIGN (p + of_nat (SIZEOF_STRUCT_PBUF + ?o)), tot_len := n, plen := of_nat ?n, ref := 1\<rparr>) s1) = Some (p', s3)"
      "allocated s P F n p' (if p' = 0 then s3 else upd_pb p' (\<lambda>b. b\<lparr>ref := 1, flags := 0\<rparr>) s3)" by blast
    have "pbuf_alloc env layer n type s = Some (p', if p' = 0 then s3 else upd_pb p' (\<lambda>b. b\<lparr>ref := 1, flags := 0\<rparr>) s3)"
      using False by (simp only: pbuf_alloc_def Let_def pool pbuf_type.case m prod.case if_False l(1) Option.bind.simps)
    with l(2) show ?thesis by blast
  qed
qed

lemma alloc_ram_ok:
  assumes ok: "pbufs_ok s P F" and ram: "type = PBUF_RAM"
    and fresh: "\<And>k. fst (mem_malloc env k (env_state s)) \<notin> \<Union>(set ` P) \<union> free_elems F"
  shows "\<exists>p s'. pbuf_alloc env layer n type s = Some (p, s') \<and> allocated s P F n p s'"
proof -
  let ?o = "layer_offset layer"
  have pools: "pools_ok s F" using ok by (simp add: pbufs_ok_def)
  let ?k = "of_nat (LWIP_MEM_ALIGN_SIZE (SIZEOF_STRUCT_PBUF + ?o) + LWIP_MEM_ALIGN_SIZE (unat n)) :: u16"
  obtain p h where m: "mem_malloc env ?k (env_state s) = (p, h)" by (cases "mem_malloc env ?k (env_state s)")
  then have fr: "p \<notin> \<Union>(set ` P)" "p \<notin> free_elems F" using fresh [of ?k] by auto
  show ?thesis
  proof (cases "p = 0")
    case True
    then have "pbuf_alloc env layer n type s = Some (0, s\<lparr>env_state := h\<rparr>)" using ram m by (simp add: pbuf_alloc_def Let_def)
    moreover have "allocated s P F n 0 (s\<lparr>env_state := h\<rparr>)" by (rule alloc_fails [OF ok]) simp_all
    ultimately show ?thesis by blast
  next
    case False
    define s' where "s' = upd_pb p (\<lambda>b. b\<lparr>ref := 1, flags := 0\<rparr>) (upd_pb p (\<lambda>b. b\<lparr>
      payload := LWIP_MEM_ALIGN (p + of_nat (SIZEOF_STRUCT_PBUF + ?o)), plen := n, tot_len := n, pnext := 0, ptype := type\<rparr>) (s\<lparr>env_state := h\<rparr>))"
    have "pbuf_alloc env layer n type s = Some (p, s')"
      using False unfolding s'_def ram by (simp only: pbuf_alloc_def Let_def pbuf_type.case m prod.case if_False)
    moreover have "pools_ok s' F = pools_ok s F" by (rule pools_cong) (use fr in \<open>auto simp: s'_def\<close>)
    then have "allocated s P F n p s'"
      by (intro alloc_single [OF ok, where F' = F]) (use False fr pools in \<open>auto simp: s'_def pool_of_def ram\<close>)
    ultimately show ?thesis by blast
  qed
qed

lemma alloc_rom_ok:
  assumes ok: "pbufs_ok s P F" and rom: "type = PBUF_ROM \<or> type = PBUF_REF"
  shows "\<exists>p s'. pbuf_alloc env layer n type s = Some (p, s') \<and> allocated s P F n p s'"
proof -
  let ?o = "layer_offset layer"
  have pools: "pools_ok s F" using ok by (simp add: pbufs_ok_def)
  obtain p s1 where m: "memp_malloc MEMP_PBUF s = (p, s1)" by (cases "memp_malloc MEMP_PBUF s")
  show ?thesis
  proof (cases "p = 0")
    case True
    then have "pbuf_alloc env layer n type s = Some (0, s)"
      using rom m memp_malloc_ok(1) [OF pools m] by (auto simp: pbuf_alloc_def Let_def)
    moreover have "allocated s P F n 0 s" by (rule alloc_fails [OF ok]) simp_all
    ultimately show ?thesis by blast
  next
    case False
    from memp_malloc_ok(2) [OF pools m False] obtain G where G: "F MEMP_PBUF = p # G" "pools_ok s1 (F(MEMP_PBUF := G))"
      "p \<notin> free_elems (F(MEMP_PBUF := G))" "pb s1 = pb s" by blast
    define s' where "s' = upd_pb p (\<lambda>b. b\<lparr>ref := 1, flags := 0\<rparr>) (upd_pb p (\<lambda>b. b\<lparr>payload := 0, plen := n, tot_len := n,
      pnext := 0, ptype := type\<rparr>) s1)"
    have "pbuf_alloc env layer n type s = Some (p, s')"
      using False m rom by (auto simp: pbuf_alloc_def Let_def s'_def)
    moreover have "pools_ok s' (F(MEMP_PBUF := G)) = pools_ok s1 (F(MEMP_PBUF := G))"
      by (rule pools_cong) (use G(3) in \<open>auto simp: s'_def\<close>)
    moreover have "p \<notin> \<Union>(set ` P)"
      using packet_not_free [OF ok, of _ p] G(1) unfolding free_elems_def by (metis UNIV_I UN_iff list.set_intros(1))
    moreover have "free_elems (F(MEMP_PBUF := G)) \<subseteq> free_elems F"
      unfolding free_elems_def using G(1) by (auto split: if_splits)
    moreover have po: "pool_of s' p = Some MEMP_PBUF" using rom by (auto simp: pool_of_def s'_def)
    then have "set (F t) = set ((F(MEMP_PBUF := G)) t) \<union> {q \<in> set [p]. pool_of s' q = Some t}" for t
      using G(1) by auto
    ultimately have "allocated s P F n p s'"
      by (intro alloc_single [OF ok, where F' = "F(MEMP_PBUF := G)"]) (use False G in \<open>simp_all add: s'_def\<close>)
    with \<open>pbuf_alloc env layer n type s = Some (p, s')\<close> show ?thesis by blast
  qed
qed

lemma pbuf_alloc_ok:
  assumes ok: "pbufs_ok s P F"
    and fresh: "\<And>k. fst (mem_malloc env k (env_state s)) \<notin> \<Union>(set ` P) \<union> free_elems F"
  shows "\<exists>p s'. pbuf_alloc env layer n type s = Some (p, s') \<and> allocated s P F n p s'"
proof -
  consider "type = PBUF_POOL" | "type = PBUF_RAM" | "type = PBUF_ROM \<or> type = PBUF_REF" by (cases type) auto
  then show ?thesis
    by cases (rule alloc_pool_ok [OF ok], assumption, rule alloc_ram_ok [OF ok _ fresh], assumption, rule alloc_rom_ok [OF ok], assumption)
qed

text \<open>When there is room: a heap block, an element of the pool, or enough elements for the whole chain.\<close>

fun alloc_fits :: "'h pbuf_env \<Rightarrow> pbuf_layer \<Rightarrow> u16 \<Rightarrow> pbuf_type \<Rightarrow> 'h pbufs \<Rightarrow> (memp_t \<Rightarrow> u32 list) \<Rightarrow> bool" where
  "alloc_fits env l n PBUF_RAM s F \<longleftrightarrow> fst (mem_malloc env (of_nat (LWIP_MEM_ALIGN_SIZE (SIZEOF_STRUCT_PBUF + layer_offset l)
     + LWIP_MEM_ALIGN_SIZE (unat n))) (env_state s)) \<noteq> 0"
| "alloc_fits env l n PBUF_POOL s F \<longleftrightarrow> F MEMP_PBUF_POOL \<noteq> [] \<and>
     unat n \<le> PBUF_POOL_BUFSIZE_ALIGNED * length (F MEMP_PBUF_POOL) - LWIP_MEM_ALIGN_SIZE (layer_offset l)"
| "alloc_fits env l n _ s F \<longleftrightarrow> F MEMP_PBUF \<noteq> []"

lemma pool_chain_loop_null:
  assumes "building s F ps r" "r < 65536" "pool_chain_loop env (hd ps) (last ps) r s = Some (p, s')"
  shows "p = 0 \<longleftrightarrow> PBUF_POOL_BUFSIZE_ALIGNED * length (F MEMP_PBUF_POOL) < r"
  using assms
proof (induction r arbitrary: s F ps rule: less_induct)
  case (less r)
  obtain q s1 where m: "memp_malloc MEMP_PBUF_POOL s = (q, s1)" by (cases "memp_malloc MEMP_PBUF_POOL s")
  have pools: "pools_ok s F" and hz: "hd ps \<noteq> 0" using less.prems(1) by (auto simp: building_def neq_Nil_conv)
  consider "r = 0" | "0 < r" "q = 0" | "0 < r" "q \<noteq> 0" by blast
  then show ?case
  proof cases
    case 1
    then show ?thesis using less.prems(3) hz by (subst (asm) pool_chain_loop.simps) auto
  next
    case 2
    then have "F MEMP_PBUF_POOL = []" using memp_malloc_ok(1) [OF pools m] by simp
    then show ?thesis using less.prems(3) 2 m by (subst (asm) pool_chain_loop.simps) (auto simp: Let_def bind_eq_Some_conv)
  next
    case 3
    define n where "n = min r PBUF_POOL_BUFSIZE_ALIGNED"
    define s4 where "s4 = upd_pb q (\<lambda>b. b\<lparr>tot_len := of_nat r, plen := of_nat n, payload := q + of_nat SIZEOF_STRUCT_PBUF, ref := 1\<rparr>)
       (upd_pb (last ps) (\<lambda>b. b\<lparr>pnext := q\<rparr>) (upd_pb q (\<lambda>b. b\<lparr>ptype := PBUF_POOL, flags := 0, pnext := 0\<rparr>) s1))"
    obtain G where G: "F MEMP_PBUF_POOL = q # G" "building s4 (F(MEMP_PBUF_POOL := G)) (ps @ [q]) (r - n)"
      by (rule building_extend [OF less.prems(1) m 3(2) less.prems(2) 3(1) s4_def n_def])
    have lt: "r - n < r" "r - n < 65536" using 3(1) less.prems(2) by (simp_all add: n_def)
    have hd: "hd (ps @ [q]) = hd ps" "last (ps @ [q]) = q" using less.prems(1) by (auto simp: building_def)
    have "pool_chain_loop env (hd ps) q (r - n) s4 = Some (p, s')"
      using less.prems(3) 3 m by (subst (asm) pool_chain_loop.simps) (simp add: Let_def s4_def n_def)
    then have "p = 0 \<longleftrightarrow> PBUF_POOL_BUFSIZE_ALIGNED * length G < r - n" using less.IH [OF lt(1) G(2) lt(2)] unfolding hd by simp
    then show ?thesis using G(1) by (auto simp: n_def min_def less_diff_conv)
  qed
qed

lemma pbuf_alloc_null:
  assumes ok: "pbufs_ok s P F" and a: "pbuf_alloc env l n type s = Some (p, s')"
  shows "p = 0 \<longleftrightarrow> \<not> alloc_fits env l n type s F"
proof (cases type)
  case PBUF_RAM
  then show ?thesis using a by (auto simp: pbuf_alloc_def Let_def split: prod.splits if_splits)
next
  case PBUF_POOL
  have pools: "pools_ok s F" using ok by (simp add: pbufs_ok_def)
  obtain q s1 where m: "memp_malloc MEMP_PBUF_POOL s = (q, s1)" by (cases "memp_malloc MEMP_PBUF_POOL s")
  show ?thesis
  proof (cases "q = 0")
    case True
    then show ?thesis using a m memp_malloc_ok(1) [OF pools m] PBUF_POOL by (simp add: pbuf_alloc_def Let_def)
  next
    case False
    let ?o = "LWIP_MEM_ALIGN_SIZE (layer_offset l)"
    let ?n = "min (unat n) (PBUF_POOL_BUFSIZE_ALIGNED - ?o)"
    define s2 where "s2 = upd_pb q (\<lambda>b. b\<lparr>ptype := PBUF_POOL, pnext := 0, payload := LWIP_MEM_ALIGN (q + of_nat (SIZEOF_STRUCT_PBUF + layer_offset l)),
      tot_len := n, plen := of_nat ?n, ref := 1\<rparr>) s1"
    from memp_malloc_ok(2) [OF pools m False] obtain G where G: "F MEMP_PBUF_POOL = q # G" by blast
    have b: "building s2 (F(MEMP_PBUF_POOL := G)) [q] (unat n - ?n)"
      using alloc_building [OF ok m False _ s2_def] G by simp
    obtain s3 where "pool_chain_loop env q q (unat n - ?n) s2 = Some (p, s3)"
      using a False PBUF_POOL m unfolding s2_def by (auto simp: pbuf_alloc_def Let_def bind_eq_Some_conv)
    then have "p = 0 \<longleftrightarrow> PBUF_POOL_BUFSIZE_ALIGNED * length G < unat n - ?n"
      using pool_chain_loop_null [OF b, of env p s3] unat_u16_less [of n] by simp
    moreover have "?o \<le> 56" by (cases l) (simp_all add: layer_offset_def LWIP_MEM_ALIGN_SIZE_def)
    ultimately show ?thesis using G PBUF_POOL by (auto simp: min_def)
  qed
next
  case PBUF_ROM
  then show ?thesis using a memp_malloc_ok [of s F MEMP_PBUF] ok by (cases "memp_malloc MEMP_PBUF s") (auto simp: pbuf_alloc_def Let_def pbufs_ok_def split: if_splits)
next
  case PBUF_REF
  then show ?thesis using a memp_malloc_ok [of s F MEMP_PBUF] ok by (cases "memp_malloc MEMP_PBUF s") (auto simp: pbuf_alloc_def Let_def pbufs_ok_def split: if_splits)
qed

section \<open>The operations together\<close>

datatype pbuf_op = Alloc pbuf_layer u16 pbuf_type | Free u32 | Ref u32 | Header u32 int | Cat u32 u32
  | Dechain u32 | Realloc u32 u16

text \<open>An operation with its result; 0 for those that return nothing.\<close>

fun run_op :: "'h pbuf_env \<Rightarrow> pbuf_op \<Rightarrow> 'h pbufs \<Rightarrow> (u32 \<times> 'h pbufs) option" where
  "run_op env (Alloc l n t) s = pbuf_alloc env l n t s"
| "run_op env (Free p) s = map_option (map_prod ucast id) (pbuf_free env p s)"
| "run_op env (Ref p) s = Some (0, pbuf_ref p s)"
| "run_op env (Header p inc) s = map_option (map_prod of_bool id) (pbuf_header p inc s)"
| "run_op env (Cat h t) s = map_option (Pair 0) (pbuf_cat h t s)"
| "run_op env (Dechain p) s = pbuf_dechain env p s"
| "run_op env (Realloc p n) s = map_option (Pair 0) (pbuf_realloc env p n s)"

text \<open>
  What the caller of an operation has to make sure: the arguments are packets it holds, lengths stay
  in 16 bits, and the tail of a concatenation is referred to by nobody else.
\<close>

fun legal :: "'h pbufs \<Rightarrow> u32 list set \<Rightarrow> pbuf_op \<Rightarrow> bool" where
  "legal s P (Alloc l n t) \<longleftrightarrow> True"
| "legal s P (Free p) \<longleftrightarrow> (\<exists>ps\<in>P. hd ps = p)"
| "legal s P (Ref p) \<longleftrightarrow> (\<exists>ps\<in>P. hd ps = p) \<and> ref (pb s p) \<noteq> 0xFFFF"
| "legal s P (Header p inc) \<longleftrightarrow> (\<exists>ps\<in>P. hd ps = p) \<and> uint (tot_len (pb s p)) + inc \<le> 65535"
| "legal s P (Cat h t) \<longleftrightarrow> (\<exists>ps\<in>P. hd ps = h) \<and> (\<exists>qs\<in>P. hd qs = t) \<and> h \<noteq> t \<and> ref (pb s t) = 1
     \<and> unat (tot_len (pb s h)) + unat (tot_len (pb s t)) \<le> 65535"
| "legal s P (Dechain p) \<longleftrightarrow> (\<exists>ps\<in>P. hd ps = p)"
| "legal s P (Realloc p n) \<longleftrightarrow> (\<exists>ps\<in>P. hd ps = p) \<and> n \<le> tot_len (pb s p)"

text \<open>When a header can be added to or removed from a buffer at address \<open>p\<close>.\<close>

definition header_fits :: "u32 \<Rightarrow> pbuf \<Rightarrow> int \<Rightarrow> bool" where
  "header_fits p b inc \<longleftrightarrow> inc = 0 \<or> - inc \<le> uint (plen b) \<and>
     (if ptype b = PBUF_RAM \<or> ptype b = PBUF_POOL then p + 16 \<le> payload b - of_int inc else inc < 0)"

text \<open>The result, the packets in use afterwards and what has become of the arguments.\<close>

fun effect :: "'h pbuf_env \<Rightarrow> pbuf_op \<Rightarrow> 'h pbufs \<Rightarrow> u32 list set \<Rightarrow> (memp_t \<Rightarrow> u32 list) \<Rightarrow> u32 \<Rightarrow> 'h pbufs \<Rightarrow> u32 list set \<Rightarrow> bool" where
  "effect env (Alloc l n t) s P F r s' P' \<longleftrightarrow> (if alloc_fits env l n t s F
     then r \<noteq> 0 \<and> (\<exists>ps. ps \<notin> P \<and> hd ps = r \<and> P' = P \<union> {ps} \<and> chain_len s' ps = unat n) else r = 0 \<and> P' = P)"
| "effect env (Free p) s P F r s' P' \<longleftrightarrow> (\<exists>ps\<in>P. hd ps = p \<and> (if ref (pb s p) = 1
     then r = ucast (of_nat (length ps) :: u8) \<and> P' = P - {ps}
     else r = 0 \<and> P' = P \<and> pb s' = (pb s)(p := (pb s p)\<lparr>ref := ref (pb s p) - 1\<rparr>)))"
| "effect env (Ref p) s P F r s' P' \<longleftrightarrow> P' = P \<and> pb s' = (pb s)(p := (pb s p)\<lparr>ref := ref (pb s p) + 1\<rparr>)"
| "effect env (Header p inc) s P F r s' P' \<longleftrightarrow> P' = P \<and> (if header_fits p (pb s p) inc
     then r = 0 \<and> pb s' = (pb s)(p := (pb s p)\<lparr>payload := payload (pb s p) - of_int inc, plen := plen (pb s p) + of_int inc,
       tot_len := tot_len (pb s p) + of_int inc\<rparr>)
     else r = 1 \<and> s' = s)"
| "effect env (Cat h t) s P F r s' P' \<longleftrightarrow> (\<exists>ps\<in>P. \<exists>qs\<in>P. hd ps = h \<and> hd qs = t \<and> P' = P - {ps, qs} \<union> {ps @ qs} \<and>
     chain_bytes s' (ps @ qs) = chain_bytes s ps @ chain_bytes s qs)"
| "effect env (Dechain p) s P F r s' P' \<longleftrightarrow> (\<exists>ps\<in>P. hd ps = p \<and> P' = P - {ps} \<union> {[p]} \<and> pbuf_bytes s' p = pbuf_bytes s p)"
| "effect env (Realloc p n) s P F r s' P' \<longleftrightarrow> (\<exists>ps\<in>P. \<exists>qs. hd ps = p \<and> hd qs = p \<and> P' = P - {ps} \<union> {qs} \<and>
     chain_bytes s' qs = take (unat n) (chain_bytes s ps))"

lemma packet_tot_len: "packet s ps \<Longrightarrow> unat (tot_len (pb s (hd ps))) = chain_len s ps"
  using packet_tot packetD(1) by (metis chain_len_simps(2))

definition op_ok :: "'h pbuf_env \<Rightarrow> pbuf_op \<Rightarrow> 'h pbufs \<Rightarrow> u32 list set \<Rightarrow> (memp_t \<Rightarrow> u32 list) \<Rightarrow> bool" where
  "op_ok env op s P F \<longleftrightarrow> (\<exists>r s' P' F'. run_op env op s = Some (r, s') \<and> effect env op s P F r s' P' \<and> pbufs_ok s' P' F'
     \<and> pool_elems s' P' F' = pool_elems s P F)"

lemma op_okI:
  "run_op env op s = Some (r, s') \<Longrightarrow> effect env op s P F r s' P' \<Longrightarrow> pbufs_ok s' P' F' \<Longrightarrow> pool_elems s' P' F' = pool_elems s P F \<Longrightarrow>
    op_ok env op s P F"
  unfolding op_ok_def by blast

lemma op_ok_Free:
  assumes ok: "pbufs_ok s P F" and ps: "ps \<in> P"
  shows "op_ok env (Free (hd ps)) s P F"
proof (cases "ref (pb s (hd ps)) = 1")
  case True
  from pbuf_free_whole [OF ok ps True, of env] obtain s' F' where f: "pbuf_free env (hd ps) s = Some (of_nat (length ps), s')"
    "pbufs_ok s' (P - {ps}) F'" "pool_elems s' (P - {ps}) F' = pool_elems s P F" by blast
  have "effect env (Free (hd ps)) s P F (ucast (of_nat (length ps) :: u8)) s' (P - {ps})" using ps True by auto
  from op_okI [OF _ this f(2,3)] f(1) show ?thesis by simp
next
  case False
  from pbuf_free_shared [OF ok ps False, of env] obtain s' where f: "pbuf_free env (hd ps) s = Some (0, s')"
    "pbufs_ok s' P F" "pool_elems s' P F = pool_elems s P F" "s' = upd_pb (hd ps) (\<lambda>b. b\<lparr>ref := ref b - 1\<rparr>) s" by blast
  have "effect env (Free (hd ps)) s P F 0 s' P" using ps False f(4) by (auto simp: upd_pb_def)
  from op_okI [OF _ this f(2,3)] f(1) show ?thesis by simp
qed

lemma op_ok_Ref:
  assumes ok: "pbufs_ok s P F" and ps: "ps \<in> P" "ref (pb s (hd ps)) \<noteq> 0xFFFF"
  shows "op_ok env (Ref (hd ps)) s P F"
proof -
  have "hd ps \<noteq> 0" using packetD(5) [OF packet_of [OF ok ps(1)]] .
  then have "effect env (Ref (hd ps)) s P F 0 (pbuf_ref (hd ps) s) P" by (simp add: pbuf_ref_def upd_pb_def)
  from op_okI [OF _ this pbuf_ref_ok [OF ok ps, THEN conjunct1] pbuf_ref_ok [OF ok ps, THEN conjunct2]] show ?thesis by simp
qed

lemma op_ok_Header:
  assumes ok: "pbufs_ok s P F" and ps: "ps \<in> P" "uint (tot_len (pb s (hd ps))) + inc \<le> 65535"
  shows "op_ok env (Header (hd ps) inc) s P F"
proof -
  have z: "hd ps \<noteq> 0" using packetD(5) [OF packet_of [OF ok ps(1)]] .
  from pbuf_header_ok [OF ok ps] obtain e s' where h: "pbuf_header (hd ps) inc s = Some (e, s')" "pbufs_ok s' P F"
    "pool_elems s' P F = pool_elems s P F" by blast
  have g: "0 \<le> inc \<Longrightarrow> - inc \<le> uint (plen (pb s (hd ps)))" using uint_ge_0 [of "plen (pb s (hd ps))"] by linarith
  have "effect env (Header (hd ps) inc) s P F (of_bool e) s' P"
    using h(1) z by (auto simp: pbuf_header_def header_fits_def Let_def upd_pb_def not_less fun_eq_iff g split: if_splits)
  from op_okI [OF _ this h(2,3)] h(1) show ?thesis by simp
qed

lemma op_ok_Cat:
  assumes ok: "pbufs_ok s P F" and l: "legal s P (Cat h t)"
  shows "op_ok env (Cat h t) s P F"
proof -
  from l obtain ps qs where p: "ps \<in> P" "qs \<in> P" "h = hd ps" "t = hd qs" "h \<noteq> t" "ref (pb s t) = 1"
    "unat (tot_len (pb s h)) + unat (tot_len (pb s t)) \<le> 65535" by auto
  have ne: "ps \<noteq> qs" using p(3-5) by metis
  have r: "ref (pb s (hd qs)) = 1" using p(4,6) by simp
  have "chain_len s ps + chain_len s qs \<le> 65535"
    using p(3,4,7) packet_tot_len [OF packet_of [OF ok p(1)]] packet_tot_len [OF packet_of [OF ok p(2)]] by simp
  from pbuf_cat_ok [OF ok p(1,2) ne r this] obtain s' where s': "pbuf_cat (hd ps) (hd qs) s = Some s'"
    "pbufs_ok s' (P - {ps, qs} \<union> {ps @ qs}) F" "pool_elems s' (P - {ps, qs} \<union> {ps @ qs}) F = pool_elems s P F"
    "chain_bytes s' (ps @ qs) = chain_bytes s ps @ chain_bytes s qs" by blast
  have "effect env (Cat h t) s P F 0 s' (P - {ps, qs} \<union> {ps @ qs})"
    unfolding effect.simps using p(1-4) s'(4) by blast
  from op_okI [OF _ this s'(2,3)] s'(1) p(3,4) show ?thesis by simp
qed

lemma op_ok_Dechain:
  assumes ok: "pbufs_ok s P F" and ps: "ps \<in> P"
  shows "op_ok env (Dechain (hd ps)) s P F"
proof -
  note p = packet_of [OF ok ps]
  from packetD(1) [OF p] obtain a qs where a: "ps = a # qs" by (metis)
  show ?thesis
  proof (cases qs)
    case Nil
    then have "pnext (pb s a) = 0" "tot_len (pb s a) = plen (pb s a)" using p a by (auto simp: packet_def word_unat_eq_iff)
    then have d: "pbuf_dechain env a s = Some (0, s)" by (simp add: pbuf_dechain_def)
    have "effect env (Dechain a) s P F 0 s P" unfolding effect.simps using ps a Nil by (intro bexI [of _ ps]) auto
    from op_okI [OF _ this ok refl] d a show ?thesis by simp
  next
    case (Cons b rs)
    from pbuf_dechain_ok [OF ok, of a b rs env] ps a Cons obtain s' F' x where d: "pbuf_dechain env a s = Some (x, s')"
      "pbufs_ok s' (P - {ps} \<union> {[a]}) F'" "pool_elems s' (P - {ps} \<union> {[a]}) F' = pool_elems s P F" "pbuf_bytes s' a = pbuf_bytes s a" by blast
    have "effect env (Dechain a) s P F x s' (P - {ps} \<union> {[a]})" unfolding effect.simps using ps a d(4) by (intro bexI [of _ ps]) auto
    from op_okI [OF _ this d(2,3)] d(1) a show ?thesis by simp
  qed
qed

lemma op_ok_Realloc:
  assumes ok: "pbufs_ok s P F" and ps: "ps \<in> P" and n: "n \<le> tot_len (pb s (hd ps))"
    and trim: "trims env room" "\<And>q. q \<in> set ps \<Longrightarrow> ptype (pb s q) = PBUF_RAM \<Longrightarrow> in_block room q (pb s q)"
  shows "op_ok env (Realloc (hd ps) n) s P F"
proof -
  have "unat n \<le> chain_len s ps" using n packet_tot_len [OF packet_of [OF ok ps]] by (simp add: word_le_nat_alt)
  from pbuf_realloc_ok [OF ok ps this trim] obtain s' F' qs where r: "pbuf_realloc env (hd ps) n s = Some s'" "hd qs = hd ps"
    "pbufs_ok s' (P - {ps} \<union> {qs}) F'" "pool_elems s' (P - {ps} \<union> {qs}) F' = pool_elems s P F"
    "chain_bytes s' qs = take (unat n) (chain_bytes s ps)" by blast
  have "effect env (Realloc (hd ps) n) s P F 0 s' (P - {ps} \<union> {qs})"
    unfolding effect.simps using ps r(2,5) by blast
  from op_okI [OF _ this r(3,4)] r(1) show ?thesis by simp
qed

lemma op_ok_Alloc:
  assumes ok: "pbufs_ok s P F" and fresh: "\<And>k. fst (mem_malloc env k (env_state s)) \<notin> \<Union>(set ` P) \<union> free_elems F"
  shows "op_ok env (Alloc l n t) s P F"
proof -
  from pbuf_alloc_ok [OF ok fresh] obtain p s' where a: "pbuf_alloc env l n t s = Some (p, s')" "allocated s P F n p s'" by blast
  have z: "alloc_fits env l n t s F \<longleftrightarrow> p \<noteq> 0" using pbuf_alloc_null [OF ok a(1)] by blast
  from a(2) obtain P' F' where e: "effect env (Alloc l n t) s P F p s' P'" "pbufs_ok s' P' F'" "pool_elems s' P' F' = pool_elems s P F"
    unfolding allocated_def effect.simps z by (cases "p = 0") auto
  from op_okI [OF _ e] a(1) show ?thesis by simp
qed

text \<open>
  C32. The packet buffers are well typed. In a state in which the packets in use are chains with exact
  \<open>tot_len\<close> fields and positive reference counts (1 behind the first buffer), disjoint from each other and from the free lists of
  both pools, each of \<open>pbuf_alloc\<close>, \<open>pbuf_free\<close>, \<open>pbuf_ref\<close>, \<open>pbuf_header\<close>, \<open>pbuf_cat\<close>, \<open>pbuf_dechain\<close> and \<open>pbuf_realloc\<close>, called on
  packets the caller holds and within 16-bit counts and lengths (for a concatenation: of two different packets of
  which the second has a count of 1), fails no assertion, returns, leads to a state that is well typed again, and
  neither loses nor duplicates a pool element. Allocation succeeds exactly if there is room and yields a packet of
  the asked length; freeing ends the packet exactly if its count was 1 and returns the number of its buffers (modulo 256), otherwise
  it counts down; a reference counts up; a header change moves the three fields, or fails with nothing
  changed; concatenation and truncation give the concatenated and the truncated bytes, and the first
  buffer of a split packet keeps its bytes. The heap is assumed to hand out blocks that are not in
  use, and to shrink a block in place or return \<open>NULL\<close> if it is too small; buffers from the heap lie in their blocks.
\<close>

theorem pbuf_ops_well_typed:
  assumes "pbufs_ok s P F" "legal s P op"
    and "\<And>k. fst (mem_malloc env k (env_state s)) \<notin> \<Union>(set ` P) \<union> free_elems F"
    and "trims env room" "\<And>ps q. ps \<in> P \<Longrightarrow> q \<in> set ps \<Longrightarrow> ptype (pb s q) = PBUF_RAM \<Longrightarrow> in_block room q (pb s q)"
  shows "\<exists>r s' P' F'. run_op env op s = Some (r, s') \<and> effect env op s P F r s' P' \<and> pbufs_ok s' P' F'
    \<and> pool_elems s' P' F' = pool_elems s P F"
proof -
  have "op_ok env op s P F"
  proof (cases op)
    case (Realloc p n)
    with assms(2) obtain ps where "ps \<in> P" "hd ps = p" "n \<le> tot_len (pb s (hd ps))" by auto
    then show ?thesis using op_ok_Realloc [OF assms(1) _ _ assms(4)] assms(5) Realloc by blast
  qed (use assms op_ok_Free [OF assms(1)] op_ok_Ref [OF assms(1)] op_ok_Header [OF assms(1)] op_ok_Cat [OF assms(1)]
      op_ok_Dechain [OF assms(1)] op_ok_Alloc [OF assms(1,3)] in auto)
  then show ?thesis unfolding op_ok_def .
qed

text \<open>A packet of two pool buffers, and one free pool buffer.\<close>

definition demo_pbufs :: "unit pbufs" where
  "demo_pbufs = \<lparr>pb = (\<lambda>p. if p = 0x100 then \<lparr>pnext = 0x200, payload = 0x110, tot_len = 5, plen = 3, ptype = PBUF_POOL, flags = 0, ref = 1\<rparr>
      else \<lparr>pnext = 0, payload = 0x210, tot_len = 2, plen = 2, ptype = PBUF_POOL, flags = 0, ref = 1\<rparr>),
    bmem = (\<lambda>a. ucast a), memp_tab = (\<lambda>t. if t = MEMP_PBUF_POOL then 0x300 else 0), pbuf_free_ooseq_queued = False, env_state = ()\<rparr>"

definition demo_free :: "memp_t \<Rightarrow> u32 list" where
  "demo_free t = (if t = MEMP_PBUF_POOL then [0x300] else [])"

definition demo_env :: "unit pbuf_env" where
  "demo_env = \<lparr>mem_malloc = (\<lambda>_ h. (0, h)), mem_free = (\<lambda>_ h. h), mem_trim = (\<lambda>q k h. (if trim_size (unat k) \<le> 64 then q else 0, h)),
    custom_free_function = (\<lambda>_ h. h), tcpip_callback_with_block = (\<lambda>h. (True, h))\<rparr>"

lemma demo_pbufs_ok: "pbufs_ok demo_pbufs {[0x100, 0x200]} demo_free"
  by (auto simp: pbufs_ok_def pools_ok_def packet_def demo_pbufs_def demo_free_def free_elems_def)

theorem pbuf_ops_well_typed_witness:
  "\<exists>r s' P' F'. run_op demo_env (Realloc 0x100 2) demo_pbufs = Some (r, s') \<and> effect demo_env (Realloc 0x100 2) demo_pbufs {[0x100, 0x200]} demo_free r s' P'
    \<and> pbufs_ok s' P' F' \<and> pool_elems s' P' F' = pool_elems demo_pbufs {[0x100, 0x200]} demo_free"
proof (rule pbuf_ops_well_typed [OF demo_pbufs_ok])
  show "legal demo_pbufs {[0x100, 0x200]} (Realloc 0x100 2)" by (simp add: demo_pbufs_def)
  show "fst (mem_malloc demo_env k (env_state demo_pbufs)) \<notin> \<Union> (set ` {[0x100, 0x200]}) \<union> free_elems demo_free" for k
    by (auto simp: demo_env_def free_elems_def demo_free_def)
  show "trims demo_env (\<lambda>_. 64)" by (simp add: trims_def demo_env_def)
  show "in_block (\<lambda>_. 64) q (pb demo_pbufs q)" if "ptype (pb demo_pbufs q) = PBUF_RAM" for q
    using that by (simp add: demo_pbufs_def split: if_splits)
qed

end
