(* ===== verification/Pbuf_Read.thy ===== *)
theory Pbuf_Read
  imports Pbuf_Types
begin

text \<open>
  Reading packets: \<open>pbuf_get_at\<close>, \<open>pbuf_copy_partial\<close>, \<open>pbuf_memcmp\<close> and \<open>pbuf_memfind\<close> of
  \<^verbatim>\<open>lwIP/core/pbuf.c\<close> against the list of bytes of the packet.
\<close>

section \<open>Single bytes\<close>

text \<open>\<open>skip_loop\<close> finds the buffer that holds a given offset of the packet, and \<open>NULL\<close> behind its end.\<close>

lemma skip_next:
  assumes "chain s p (a # ps)" "unat (plen (pb s a)) \<le> unat off"
  shows "skip_loop p off s = skip_loop (pnext (pb s a)) (off - plen (pb s a)) s"
    "unat (off - plen (pb s a)) = unat off - unat (plen (pb s a))" "chain s (pnext (pb s a)) ps"
  using assms by (subst skip_loop.simps, simp_all add: unat_sub word_le_nat_alt)

lemma skip_found:
  "chain s p ps \<Longrightarrow> unat off < chain_len s ps \<Longrightarrow>
    \<exists>q k us vs. skip_loop p off s = Some (q, k) \<and> ps = us @ q # vs \<and> unat off = chain_len s us + unat k
      \<and> unat k < unat (plen (pb s q)) \<and> chain s q (q # vs)"
proof (induction ps arbitrary: p off)
  case (Cons a ps)
  then have a: "p = a" "a \<noteq> 0" by simp_all
  show ?case
  proof (cases "unat (plen (pb s a)) \<le> unat off")
    case True
    note n = skip_next [OF Cons.prems(1) True]
    have "unat (off - plen (pb s a)) < chain_len s ps" using n(2) True Cons.prems(2) by simp
    from Cons.IH [OF n(3) this] obtain q k us vs where
      i: "skip_loop (pnext (pb s a)) (off - plen (pb s a)) s = Some (q, k)" "ps = us @ q # vs"
        "unat (off - plen (pb s a)) = chain_len s us + unat k" "unat k < unat (plen (pb s q))" "chain s q (q # vs)" by blast
    have "a # ps = (a # us) @ q # vs" "unat off = chain_len s (a # us) + unat k" using i(2,3) n(2) True by simp_all
    then show ?thesis using i(1,4,5) n(1) by metis
  next
    case False
    then have "skip_loop p off s = Some (a, off)" using a by (subst skip_loop.simps) (simp add: word_le_nat_alt)
    moreover have "a # ps = [] @ a # ps" "unat off = chain_len s [] + unat off" by simp_all
    moreover have "chain s a (a # ps)" "unat off < unat (plen (pb s a))" using Cons.prems(1) False by simp_all
    ultimately show ?thesis by metis
  qed
qed simp

lemma skip_past: "chain s p ps \<Longrightarrow> chain_len s ps \<le> unat off \<Longrightarrow> \<exists>k. skip_loop p off s = Some (0, k)"
proof (induction ps arbitrary: p off)
  case Nil
  then show ?case by (subst skip_loop.simps) simp
next
  case (Cons a ps)
  then have le: "unat (plen (pb s a)) \<le> unat off" by simp
  note n = skip_next [OF Cons.prems(1) le]
  show ?case unfolding n(1) by (rule Cons.IH [OF n(3)]) (use n(2) Cons.prems(2) in simp)
qed

lemma pbuf_bytes_nth: "i < unat (plen (pb s q)) \<Longrightarrow> pbuf_bytes s q ! i = bmem s (payload (pb s q) + of_nat i)"
  by (simp add: pbuf_bytes_def bytes_def)

lemma pbuf_get_at_spec:
  assumes "chain s p ps"
  shows "pbuf_get_at p off s = Some (if unat off < chain_len s ps then chain_bytes s ps ! unat off else 0)"
proof (cases "unat off < chain_len s ps")
  case True
  from skip_found [OF assms True] obtain q k us vs where
    u: "skip_loop p off s = Some (q, k)" "ps = us @ q # vs" "unat off = chain_len s us + unat k"
      "unat k < unat (plen (pb s q))" "chain s q (q # vs)" by blast
  have "chain_bytes s ps ! unat off = pbuf_bytes s q ! unat k"
    unfolding u(2,3) using u(4) by (simp add: nth_append length_chain_bytes)
  also have "\<dots> = bmem s (payload (pb s q) + ucast k)" using u(4) by (simp add: pbuf_bytes_nth)
  finally show ?thesis using True u(1,5) by (simp add: pbuf_get_at_def)
next
  case False
  then obtain k where "skip_loop p off s = Some (0, k)" using skip_past [OF assms] by (meson not_less)
  with False show ?thesis by (simp add: pbuf_get_at_def)
qed

section \<open>Copying out of a packet\<close>

definition write_bytes :: "u32 \<Rightarrow> u8 list \<Rightarrow> (u32 \<Rightarrow> u8) \<Rightarrow> u32 \<Rightarrow> u8" where
  "write_bytes a xs m = (\<lambda>x. if unat (x - a) < length xs then xs ! unat (x - a) else m x)"

lemma write_bytes_Nil [simp]: "write_bytes a [] m = m"
  by (simp add: write_bytes_def)

lemma write_bytes_append:
  assumes "length xs + length ys < 2 ^ 32"
  shows "write_bytes (a + of_nat (length xs)) ys (write_bytes a xs m) = write_bytes a (xs @ ys) m"
proof (rule ext)
  fix x
  define d where "d = x - a"
  have l: "unat (of_nat (length xs) :: u32) = length xs" using assms by (simp add: unat_of_nat take_bit_nat_eq_self_iff)
  have e: "x - (a + of_nat (length xs)) = d - of_nat (length xs)" by (simp add: d_def)
  show "write_bytes (a + of_nat (length xs)) ys (write_bytes a xs m) x = write_bytes a (xs @ ys) m x"
  proof (cases "unat d < length xs")
    case True
    have "unat (d - of_nat (length xs)) = 2 ^ 32 + unat d - length xs"
      using True l by (simp add: unat_sub_if_size word_size word_le_nat_alt)
    then have "\<not> unat (d - of_nat (length xs)) < length ys" using assms by linarith
    then show ?thesis using True unfolding write_bytes_def e d_def [symmetric] by (simp add: nth_append)
  next
    case False
    then have "unat (d - of_nat (length xs)) = unat d - length xs" using l by (simp add: unat_sub word_le_nat_alt)
    then show ?thesis using False unfolding write_bytes_def e d_def [symmetric] by (auto simp: nth_append)
  qed
qed

lemma mem_copy_write: "mem_copy dst src n m = write_bytes dst (bytes m src (unat n)) m"
proof (rule ext)
  fix a
  have "unat (ucast n :: u32) = unat n"
    using unat_u16_less [of n] by (simp add: unsigned_ucast_eq take_bit_nat_eq_self_iff)
  then have "a - dst < ucast n \<longleftrightarrow> unat (a - dst) < unat n" by (simp add: word_less_nat_alt)
  moreover have "unat (a - dst) < unat n \<Longrightarrow> bytes m src (unat n) ! unat (a - dst) = m (src + (a - dst))"
    by (simp add: bytes_def)
  ultimately show "mem_copy dst src n m a = write_bytes dst (bytes m src (unat n)) m a"
    by (simp add: mem_copy_def write_bytes_def)
qed

text \<open>The destination does not overlap the payloads of the chain.\<close>

definition dest_free :: "'h pbufs \<Rightarrow> u32 list \<Rightarrow> u32 \<Rightarrow> nat \<Rightarrow> bool" where
  "dest_free s ps a n \<longleftrightarrow> (\<forall>q\<in>set ps. \<forall>i<unat (plen (pb s q)). \<not> unat (payload (pb s q) + of_nat i - a) < n)"

lemma write_inside:
  assumes "\<not> unat (x - a) < n" "c + length xs \<le> n" "n < 2 ^ 32"
  shows "write_bytes (a + of_nat c) xs m x = m x"
proof -
  have c: "unat (of_nat c :: u32) = c" using assms by (simp add: unat_of_nat take_bit_nat_eq_self_iff)
  have e: "x - a = (x - (a + of_nat c)) + of_nat c" by simp
  have "\<not> unat (x - (a + of_nat c)) < length xs"
  proof
    assume l: "unat (x - (a + of_nat c)) < length xs"
    then have "unat (x - (a + of_nat c)) + unat (of_nat c :: u32) < 2 ^ LENGTH(32)" using assms(2,3) c by simp
    then have "unat (x - a) = unat (x - (a + of_nat c)) + c" unfolding e by (simp only: unat_add_lem [THEN iffD1] c)
    then show False using l assms(1,2) by linarith
  qed
  then show ?thesis by (simp add: write_bytes_def)
qed

lemma chain_bytes_write:
  assumes "dest_free s ps a n" "c + length xs \<le> n" "n < 2 ^ 32"
  shows "chain_bytes (s\<lparr>bmem := write_bytes (a + of_nat c) xs (bmem s)\<rparr>) ps = chain_bytes s ps"
proof -
  have "pbuf_bytes (s\<lparr>bmem := write_bytes (a + of_nat c) xs (bmem s)\<rparr>) q = pbuf_bytes s q" if "q \<in> set ps" for q
    using write_inside [OF _ assms(2,3)] assms(1) that unfolding dest_free_def pbuf_bytes_def bytes_def by auto
  then have "map (pbuf_bytes (s\<lparr>bmem := write_bytes (a + of_nat c) xs (bmem s)\<rparr>)) ps = map (pbuf_bytes s) ps" by simp
  then show ?thesis by (simp only: chain_bytes_def)
qed

lemma bytes_slice:
  assumes "k + n \<le> N"
  shows "take n (drop k (bytes m a N)) = bytes m (a + of_nat k) n"
proof -
  have "bytes m a N = bytes m a (k + n) @ bytes m (a + of_nat (k + n)) (N - (k + n))"
    using assms bytes_append [of m a "k + n" "N - (k + n)"] by simp
  then show ?thesis unfolding bytes_append [of m a k n] by simp
qed

lemma copy_step:
  assumes p: "p = a" "a \<noteq> 0" and len: "len \<noteq> 0" and off: "off = 0 \<or> \<not> plen (pb s a) \<le> off"
  defines "n \<equiv> if len < plen (pb s a) - off then len else plen (pb s a) - off"
  shows "copy_partial_loop p dst len off copied s =
      copy_partial_loop (pnext (pb s a)) dst (len - n) 0 (copied + n)
        (s\<lparr>bmem := write_bytes (dst + ucast copied) (take (unat n) (drop (unat off) (pbuf_bytes s a))) (bmem s)\<rparr>)"
    "unat n = min (unat len) (unat (plen (pb s a)) - unat off)" "unat off \<le> unat (plen (pb s a))" "unat (len - n) = unat len - unat n"
proof -
  show o: "unat off \<le> unat (plen (pb s a))" using off by (auto simp: word_le_nat_alt)
  then have "unat (plen (pb s a) - off) = unat (plen (pb s a)) - unat off" by (simp add: unat_sub word_le_nat_alt)
  then show n: "unat n = min (unat len) (unat (plen (pb s a)) - unat off)" by (simp add: n_def word_less_nat_alt min_def)
  show "unat (len - n) = unat len - unat n" by (rule unat_sub) (use n in \<open>simp add: word_le_nat_alt\<close>)
  have "take (unat n) (drop (unat off) (pbuf_bytes s a)) = bytes (bmem s) (payload (pb s a) + ucast off) (unat n)"
    unfolding pbuf_bytes_def by (subst bytes_slice) (use n o in auto)
  then show "copy_partial_loop p dst len off copied s =
      copy_partial_loop (pnext (pb s a)) dst (len - n) 0 (copied + n)
        (s\<lparr>bmem := write_bytes (dst + ucast copied) (take (unat n) (drop (unat off) (pbuf_bytes s a))) (bmem s)\<rparr>)"
    using p len off by (subst copy_partial_loop.simps) (auto simp: Let_def n_def mem_copy_write)
qed

lemma copy_partial_loop_spec:
  "chain s p ps \<Longrightarrow> unat copied + unat len \<le> 65535 \<Longrightarrow> dest_free s ps dst (unat copied + unat len) \<Longrightarrow>
    d = take (unat len) (drop (unat off) (chain_bytes s ps)) \<Longrightarrow>
    copy_partial_loop p dst len off copied s
      = Some (copied + of_nat (length d), s\<lparr>bmem := write_bytes (dst + ucast copied) d (bmem s)\<rparr>)"
proof (induction ps arbitrary: p len off copied s d)
  case Nil
  then show ?case by (subst copy_partial_loop.simps) simp
next
  case (Cons a ps)
  then have a: "p = a" "a \<noteq> 0" "chain s (pnext (pb s a)) ps" by simp_all
  consider "len = 0" | "len \<noteq> 0" "off \<noteq> 0" "plen (pb s a) \<le> off" | "len \<noteq> 0" "off = 0 \<or> \<not> plen (pb s a) \<le> off" by blast
  then show ?case
  proof cases
    case 1
    then show ?thesis using Cons.prems by (subst copy_partial_loop.simps) simp
  next
    case 2
    then have u: "unat (off - plen (pb s a)) = unat off - unat (plen (pb s a))" "unat (plen (pb s a)) \<le> unat off"
      by (simp_all add: unat_sub word_le_nat_alt)
    have "copy_partial_loop p dst len off copied s = copy_partial_loop (pnext (pb s a)) dst len (off - plen (pb s a)) copied s"
      using 2 a by (subst copy_partial_loop.simps) simp
    moreover have "dest_free s ps dst (unat copied + unat len)" using Cons.prems(3) by (simp add: dest_free_def)
    moreover have "d = take (unat len) (drop (unat (off - plen (pb s a))) (chain_bytes s ps))"
      using Cons.prems(4) u by simp
    ultimately show ?thesis using Cons.IH [OF a(3) Cons.prems(2)] by simp
  next
    case 3
    define n where "n = (if len < plen (pb s a) - off then len else plen (pb s a) - off)"
    note st1 = copy_step(1) [OF a(1,2) 3, of dst copied, folded n_def] and st = copy_step(2-4) [OF a(1,2) 3, folded n_def]
    define xs where "xs = take (unat n) (drop (unat off) (pbuf_bytes s a))"
    define s1 where "s1 = s\<lparr>bmem := write_bytes (dst + ucast copied) xs (bmem s)\<rparr>"
    have lx: "length xs = unat n" using st(1,2) by (simp add: xs_def)
    have cn: "unat (copied + n) = unat copied + unat n"
      by (rule unat_add_lem [THEN iffD1]) (use Cons.prems(2) st(1) in simp)
    have tot: "unat (copied + n) + unat (len - n) = unat copied + unat len" unfolding cn st(3) using st(1) by simp
    have ch: "chain s1 (pnext (pb s a)) ps" using a(3) by (subst chain_cong [of ps s1 s]) (simp_all add: s1_def)
    have df: "dest_free s1 ps dst (unat (copied + n) + unat (len - n))"
      unfolding tot using Cons.prems(3) by (simp add: dest_free_def s1_def)
    have uc: "(ucast copied :: u32) = of_nat (unat copied)" by simp
    have by_: "chain_bytes s1 ps = chain_bytes s ps" unfolding s1_def uc
      by (rule chain_bytes_write [of _ _ _ "unat copied + unat len"])
        (use Cons.prems(2,3) lx st(1) in \<open>simp_all add: dest_free_def\<close>)
    define ys where "ys = take (unat (len - n)) (drop (unat (0 :: u16)) (chain_bytes s1 ps))"
    have d: "d = xs @ ys"
      unfolding Cons.prems(4) xs_def ys_def by_ using st by (auto simp: min_def)
    have IH: "copy_partial_loop (pnext (pb s a)) dst (len - n) 0 (copied + n) s1
        = Some (copied + n + of_nat (length ys), s1\<lparr>bmem := write_bytes (dst + ucast (copied + n)) ys (bmem s1)\<rparr>)"
      by (rule Cons.IH [OF ch _ df ys_def]) (use tot Cons.prems(2) in simp)
    have uc2: "(ucast (copied + n) :: u32) = ucast copied + of_nat (length xs)" unfolding lx
      by (metis cn of_nat_add of_nat_unat)
    have "length d \<le> unat len" using Cons.prems(4) by simp
    then have "length xs + length ys < 2 ^ 32" using Cons.prems(2) unfolding d by simp
    then have "write_bytes (dst + ucast (copied + n)) ys (bmem s1) = write_bytes (dst + ucast copied) d (bmem s)"
      unfolding uc2 d s1_def by (simp add: write_bytes_append add.assoc [symmetric])
    moreover have "copied + n + of_nat (length ys) = copied + of_nat (length d)" unfolding d by (simp add: lx add.assoc)
    moreover have "copy_partial_loop p dst len off copied s = copy_partial_loop (pnext (pb s a)) dst (len - n) 0 (copied + n) s1"
      unfolding s1_def xs_def by (rule st1)
    ultimately show ?thesis unfolding IH by (simp add: s1_def)
  qed
qed

text \<open>
  C33. \<open>pbuf_copy_partial\<close> copies exactly the slice of the packet it is asked for: it always returns,
  with the number of bytes that exist from \<open>offset\<close> on, at most \<open>len\<close>; those bytes of the packet,
  gathered over all buffers of the chain, are at the destination in order, and no other byte of
  memory and no pbuf changes, provided the destination does not overlap the packet.
\<close>

theorem pbuf_copy_partial_slice:
  assumes "chain s p ps" "p \<noteq> 0" "dst \<noteq> 0" "dest_free s ps dst (unat len)"
  shows "pbuf_copy_partial p dst len offset s =
    (let d = take (unat len) (drop (unat offset) (chain_bytes s ps))
     in Some (of_nat (length d), s\<lparr>bmem := write_bytes dst d (bmem s)\<rparr>))"
proof -
  have "unat (0 :: u16) + unat len \<le> 65535" using unat_u16_less [of len] by simp
  from copy_partial_loop_spec [OF assms(1) this _ refl, of dst offset] assms(2-4)
  show ?thesis by (simp add: pbuf_copy_partial_def Let_def)
qed

lemma demo_pbufs_bytes: "chain_bytes demo_pbufs [0x100, 0x200] = [0x10, 0x11, 0x12, 0x10, 0x11]"
  by (simp add: demo_pbufs_def pbuf_bytes_def bytes_def upt_rec)

theorem pbuf_copy_partial_slice_witness:
  "pbuf_copy_partial 0x100 0x500 3 2 demo_pbufs =
    Some (3, demo_pbufs\<lparr>bmem := write_bytes 0x500 [0x12, 0x10, 0x11] (bmem demo_pbufs)\<rparr>)"
proof -
  have c: "chain demo_pbufs 0x100 [0x100, 0x200]" by (simp add: demo_pbufs_def)
  have "dest_free demo_pbufs [0x100, 0x200] 0x500 (unat (3 :: u16))"
    unfolding dest_free_def
  proof (intro ballI allI impI)
    fix q i
    assume "q \<in> set [0x100, 0x200]" "i < unat (plen (pb demo_pbufs q))"
    then have "(q = 0x100 \<or> q = 0x200) \<and> (i = 0 \<or> i = 1 \<or> i = 2)" by (auto simp: demo_pbufs_def)
    then show "\<not> unat (payload (pb demo_pbufs q) + of_nat i - 0x500) < unat (3 :: u16)"
      by (elim conjE disjE) (simp_all add: demo_pbufs_def)
  qed
  from pbuf_copy_partial_slice [OF c _ _ this, of 2] show ?thesis unfolding demo_pbufs_bytes by simp
qed

section \<open>Comparing and searching\<close>

lemma memcmp_loop_spec:
  assumes "\<And>k. k \<in> set is \<Longrightarrow> pbuf_get_at q (start + of_nat k) s = Some (B k)" "set is \<subseteq> {..<n}" "n < 65536"
  shows "\<exists>r. memcmp_loop q start s2 is s = Some r \<and> (r = 0 \<longleftrightarrow> (\<forall>k\<in>set is. B k = bmem s (s2 + of_nat k))) \<and> unat r \<le> n"
  using assms
proof (induction "is")
  case (Cons i "is")
  show ?case
  proof (cases "B i = bmem s (s2 + of_nat i)")
    case True
    then show ?thesis using Cons by simp
  next
    case False
    have "i < n" using Cons.prems(2) by simp
    then have "unat (of_nat (i + 1) :: u16) = i + 1" using Cons.prems(3) by (simp add: unat_of_nat take_bit_nat_eq_self_iff del: of_nat_Suc)
    moreover have "memcmp_loop q start s2 (i # is) s = Some (of_nat (i + 1))" using False Cons.prems(1) [of i] by simp
    moreover have "(of_nat (i + 1) :: u16) \<noteq> 0" using calculation(1) by (metis Suc_eq_plus1 nat.distinct(1) unat_0)
    ultimately show ?thesis using False \<open>i < n\<close> by auto
  qed
qed simp

lemma take_drop_eq_iff:
  "k + n \<le> length xs \<Longrightarrow> take n (drop k xs) = bytes m a n \<longleftrightarrow> (\<forall>i<n. xs ! (k + i) = m (a + of_nat i))"
  by (simp add: list_eq_iff_nth_eq bytes_def)

lemma pbuf_memcmp_spec:
  assumes c: "chain s p ps" and n: "n \<noteq> 0" "unat off + unat n \<le> chain_len s ps" and t: "chain_len s ps \<le> 65535"
  shows "\<exists>r. pbuf_memcmp p off s2 n s = Some r \<and> unat r \<le> unat n
    \<and> (r = 0 \<longleftrightarrow> take (unat n) (drop (unat off) (chain_bytes s ps)) = bytes (bmem s) s2 (unat n))"
proof -
  have n0: "0 < unat n" using n(1) by (simp add: unat_gt_0)
  then have "unat off < chain_len s ps" using n(2) by linarith
  from skip_found [OF c this] obtain q k us vs where
    u: "skip_loop p off s = Some (q, k)" "ps = us @ q # vs" "unat off = chain_len s us + unat k"
      "unat k < unat (plen (pb s q))" "chain s q (q # vs)" by blast
  let ?B = "\<lambda>i. chain_bytes s ps ! (unat off + i)"
  have g: "pbuf_get_at q (k + of_nat i) s = Some (?B i)" if "i < unat n" for i
  proof -
    have b: "unat k + i < chain_len s (q # vs)" using that n(2) u(2,3) by simp
    then have "unat k + i < 65536" using t u(2) by simp
    then have "unat (k + of_nat i) = unat k + i"
      by (subst unat_add_lem [THEN iffD1]) (simp_all add: unat_of_nat take_bit_nat_eq_self_iff)
    moreover have "chain_bytes s ps ! (unat off + i) = chain_bytes s (q # vs) ! (unat k + i)"
      unfolding u(2,3) by (simp add: nth_append length_chain_bytes add.assoc)
    ultimately show ?thesis using b pbuf_get_at_spec [OF u(5)] by simp
  qed
  have "q \<noteq> 0" using u(5) by simp
  then have "pbuf_memcmp p off s2 n s = memcmp_loop q k s2 [0..<unat n] s" by (simp add: pbuf_memcmp_def u(1))
  moreover have "set [0..<unat n] \<subseteq> {..<unat n}" "\<And>i. i \<in> set [0..<unat n] \<Longrightarrow> pbuf_get_at q (k + of_nat i) s = Some (?B i)"
    using g by auto
  from memcmp_loop_spec [OF this(2,1) unat_u16_less, of s2] obtain r where
    "memcmp_loop q k s2 [0..<unat n] s = Some r" "r = 0 \<longleftrightarrow> (\<forall>i\<in>set [0..<unat n]. ?B i = bmem s (s2 + of_nat i))" "unat r \<le> unat n"
    by blast
  moreover have "take (unat n) (drop (unat off) (chain_bytes s ps)) = bytes (bmem s) s2 (unat n)
      \<longleftrightarrow> (\<forall>i\<in>set [0..<unat n]. ?B i = bmem s (s2 + of_nat i))"
    using take_drop_eq_iff [of "unat off" "unat n" "chain_bytes s ps"] n(2) by (simp add: length_chain_bytes Ball_def)
  ultimately show ?thesis by auto
qed

lemma memfind_loop_spec:
  assumes c: "chain s p ps" and m: "mem_len \<noteq> 0" and t: "chain_len s ps \<le> 65535" "unat mx + unat mem_len \<le> chain_len s ps"
  shows "\<exists>r. memfind_loop p mem mem_len mx i s = Some r \<and> (r \<noteq> 0xFFFF \<longrightarrow> unat i \<le> unat r \<and> unat r + unat mem_len \<le> chain_len s ps
    \<and> take (unat mem_len) (drop (unat r) (chain_bytes s ps)) = bytes (bmem s) mem (unat mem_len))"
proof (induction "65536 - unat i" arbitrary: i rule: less_induct)
  case less
  show ?case
  proof (cases "i \<le> mx")
    case False
    then show ?thesis by (subst memfind_loop.simps) simp
  next
    case True
    then have im: "unat i \<le> unat mx" by (simp add: word_le_nat_alt)
    then have b: "unat i + unat mem_len \<le> chain_len s ps" using t(2) by linarith
    from pbuf_memcmp_spec [OF c m b t(1), of mem] obtain r where
      r: "pbuf_memcmp p i mem mem_len s = Some r" "unat r \<le> unat mem_len"
        "r = 0 \<longleftrightarrow> take (unat mem_len) (drop (unat i) (chain_bytes s ps)) = bytes (bmem s) mem (unat mem_len)" by blast
    show ?thesis
    proof (cases "r = 0")
      case True
      then show ?thesis using r b \<open>i \<le> mx\<close> by (subst memfind_loop.simps) simp
    next
      case False
      then have r0: "0 < unat r" by (simp add: unat_gt_0)
      have u: "unat (i + r) = unat i + unat r"
        by (rule unat_add_lem [THEN iffD1]) (use b r(2) t(1) in simp)
      have step: "memfind_loop p mem mem_len mx i s = memfind_loop p mem mem_len mx (i + r) s"
        using r(1) False \<open>i \<le> mx\<close> by (subst memfind_loop.simps) simp
      have "65536 - unat (i + r) < 65536 - unat i" using u r0 unat_u16_less [of i] by linarith
      from less.hyps [OF this] show ?thesis unfolding step u by auto
    qed
  qed
qed

text \<open>What \<open>pbuf_memfind\<close> finds is there; the search always ends.\<close>

lemma pbuf_memfind_sound:
  assumes p: "packet s ps" and m: "mem_len \<noteq> 0"
  shows "\<exists>r. pbuf_memfind (hd ps) mem mem_len start s = Some r \<and> (r \<noteq> 0xFFFF \<longrightarrow> unat start \<le> unat r
    \<and> unat r + unat mem_len \<le> chain_len s ps \<and> take (unat mem_len) (drop (unat r) (chain_bytes s ps)) = bytes (bmem s) mem (unat mem_len))"
proof (cases "unat mem_len + unat start \<le> unat (tot_len (pb s (hd ps)))")
  case True
  have t: "unat (tot_len (pb s (hd ps))) = chain_len s ps" by (rule packet_tot_len [OF p])
  have "unat (tot_len (pb s (hd ps)) - mem_len) = unat (tot_len (pb s (hd ps))) - unat mem_len"
    by (rule unat_sub) (use True in \<open>simp add: word_le_nat_alt\<close>)
  then have "unat (tot_len (pb s (hd ps)) - mem_len) + unat mem_len \<le> chain_len s ps" using True t by linarith
  moreover have "chain_len s ps \<le> 65535" using t unat_u16_less [of "tot_len (pb s (hd ps))"] by linarith
  ultimately show ?thesis using True memfind_loop_spec [OF packetD(2) [OF p] m] by (simp add: pbuf_memfind_def)
qed (simp add: pbuf_memfind_def)

text \<open>
  But it does not find all there is: after a mismatch it skips everything it has compared, so it does
  not see \<open>ab\<close> in \<open>aab\<close>.
\<close>

definition aab_packet :: "unit pbufs" where
  "aab_packet = \<lparr>pb = (\<lambda>p. \<lparr>pnext = 0, payload = 0x110, tot_len = 3, plen = 3, ptype = PBUF_POOL, flags = 0, ref = 1\<rparr>),
    bmem = (\<lambda>a. if a = 0x112 \<or> a = 0x201 then 0x62 else 0x61), memp_tab = (\<lambda>_. 0), pbuf_free_ooseq_queued = False, env_state = ()\<rparr>"

theorem pbuf_memfind_misses:
  "packet aab_packet [0x100] \<and> take 2 (drop 1 (chain_bytes aab_packet [0x100])) = bytes (bmem aab_packet) 0x200 2
    \<and> pbuf_memfind 0x100 0x200 2 0 aab_packet = Some 0xFFFF"
proof (intro conjI)
  show "packet aab_packet [0x100]" by (simp add: packet_def aab_packet_def)
  show "take 2 (drop 1 (chain_bytes aab_packet [0x100])) = bytes (bmem aab_packet) 0x200 2"
    by (simp add: aab_packet_def pbuf_bytes_def bytes_def upt_rec)
  show "pbuf_memfind 0x100 0x200 2 0 aab_packet = Some 0xFFFF" by code_simp
qed

end
