(* ===== verification/Ip_Addr.thy ===== *)
theory Ip_Addr
  imports Inet_Chksum
begin

text \<open>
  IPv4 addresses, \<^verbatim>\<open>lwIP/core/ipv4/ip_addr.c\<close>: broadcast and netmask tests, parsing of the dotted
  notation in its historical forms (one to four numbers; decimal, octal, hexadecimal) and printing.
\<close>

section \<open>Addresses and netmasks\<close>

text \<open>The fields of a network interface that the code here reads; addresses are in network byte order.\<close>

record netif =
  nif_ip_addr :: u32
  nif_netmask :: u32
  nif_flags :: u8

abbreviation (input) IPADDR_NONE :: u32 where "IPADDR_NONE \<equiv> 0xFFFFFFFF"
abbreviation (input) IPADDR_ANY :: u32 where "IPADDR_ANY \<equiv> 0"
abbreviation (input) IPADDR_BROADCAST :: u32 where "IPADDR_BROADCAST \<equiv> 0xFFFFFFFF"
abbreviation (input) NETIF_FLAG_BROADCAST :: u8 where "NETIF_FLAG_BROADCAST \<equiv> 0x02"

definition ip_addr_netcmp :: "u32 \<Rightarrow> u32 \<Rightarrow> u32 \<Rightarrow> bool" where
  "ip_addr_netcmp addr1 addr2 msk \<longleftrightarrow> addr1 AND msk = addr2 AND msk"

definition ip4_addr_isbroadcast :: "u32 \<Rightarrow> netif \<Rightarrow> bool" where
  "ip4_addr_isbroadcast addr netif =
    (if NOT addr = IPADDR_ANY \<or> addr = IPADDR_ANY then True
     else if nif_flags netif AND NETIF_FLAG_BROADCAST = 0 then False
     else if addr = nif_ip_addr netif then False
     else if ip_addr_netcmp addr (nif_ip_addr netif) (nif_netmask netif)
       \<and> addr AND NOT (nif_netmask netif) = IPADDR_BROADCAST AND NOT (nif_netmask netif) then True
     else False)"

text \<open>The two loops of \<open>ip4_addr_netmask_valid\<close>; \<open>n\<close> is the position of the bit \<open>mask\<close>, plus 1.\<close>

fun skip_ones :: "u32 \<Rightarrow> nat \<Rightarrow> nat" where
  "skip_ones nm 0 = 0"
| "skip_ones nm (Suc n) = (if nm AND push_bit n 1 = 0 then Suc n else skip_ones nm n)"

fun all_zeros :: "u32 \<Rightarrow> nat \<Rightarrow> bool" where
  "all_zeros nm 0 = True"
| "all_zeros nm (Suc n) = (if nm AND push_bit n 1 \<noteq> 0 then False else all_zeros nm n)"

definition ip4_addr_netmask_valid :: "u32 \<Rightarrow> bool" where
  "ip4_addr_netmask_valid netmask = (let nm = lwip_htonl netmask in all_zeros nm (skip_ones nm 32))"

section \<open>Parsing\<close>

text \<open>
  A C string is the list of its characters before the terminating 0; reading at the end gives 0.
\<close>

definition in_range :: "u8 \<Rightarrow> u8 \<Rightarrow> u8 \<Rightarrow> bool" where
  "in_range c lo up \<longleftrightarrow> lo \<le> c \<and> c \<le> up"

definition isdigit :: "u8 \<Rightarrow> bool" where "isdigit c \<longleftrightarrow> in_range c 0x30 0x39"

definition isxdigit :: "u8 \<Rightarrow> bool" where
  "isxdigit c \<longleftrightarrow> isdigit c \<or> in_range c 0x61 0x66 \<or> in_range c 0x41 0x46"

definition islower :: "u8 \<Rightarrow> bool" where "islower c \<longleftrightarrow> in_range c 0x61 0x7A"

definition isspace :: "u8 \<Rightarrow> bool" where
  "isspace c \<longleftrightarrow> c \<in> {0x20, 0x0C, 0x0A, 0x0D, 0x09, 0x0B}"

definition peek :: "u8 list \<Rightarrow> u8" where
  "peek cp = (case cp of [] \<Rightarrow> 0 | c # _ \<Rightarrow> c)"

lemma peek_simps [simp]: "peek [] = 0" "peek (c # cp) = c"
  by (simp_all add: peek_def)

fun digits_loop :: "u32 \<Rightarrow> u32 \<Rightarrow> u8 list \<Rightarrow> u32 \<times> u8 list" where
  "digits_loop base val [] = (val, [])"
| "digits_loop base val (c # cp) =
    (if isdigit c then digits_loop base (val * base + (ucast c - 0x30)) cp
     else if base = 16 \<and> isxdigit c
     then digits_loop base (push_bit 4 val OR (ucast c + 10 - (if islower c then 0x61 else 0x41))) cp
     else (val, c # cp))"

definition parse_number :: "u8 list \<Rightarrow> u32 \<times> u8 list" where
  "parse_number cp =
    (if peek cp = 0x30 then
       (if peek (tl cp) = 0x78 \<or> peek (tl cp) = 0x58 then digits_loop 16 0 (tl (tl cp)) else digits_loop 8 0 (tl cp))
     else digits_loop 10 0 cp)"

lemma digits_loop_length: "length (snd (digits_loop base val cp)) \<le> length cp"
  by (induction cp arbitrary: val) (auto intro: le_SucI)

lemma parse_number_length: "length (snd (parse_number cp)) \<le> length cp"
  using digits_loop_length [of 16 0 "tl (tl cp)"] digits_loop_length [of 8 0 "tl cp"] digits_loop_length [of 10 0 cp]
  by (auto simp: parse_number_def)

text \<open>
  The outer loop of \<open>ipaddr_aton\<close>: the parts in front of a dot, the last number and what follows it.
  \<open>None\<close> is the return value 0.
\<close>

function parts_loop :: "u32 list \<Rightarrow> u8 list \<Rightarrow> (u32 list \<times> u32 \<times> u8 list) option" where
  "parts_loop parts cp =
    (if \<not> isdigit (peek cp) then None
     else (let (val, cp') = parse_number cp in
           if peek cp' = 0x2E then (if 3 \<le> length parts then None else parts_loop (parts @ [val]) (tl cp'))
           else Some (parts, val, cp')))"
  by auto
termination
proof (relation "measure (\<lambda>(parts, cp). length cp)")
  fix parts :: "u32 list" and cp cp' :: "u8 list" and val x
  assume "x = parse_number cp" "(val, cp') = x" "peek cp' = 0x2E"
  then have "cp' = snd (parse_number cp)" "cp' \<noteq> []" by (metis snd_conv, auto simp: peek_def)
  then have "cp' \<noteq> []" "length cp' \<le> length cp" using parse_number_length [of cp] by simp_all
  then have "length (tl cp') < length cp" by (cases cp') auto
  then show "((parts @ [val], tl cp'), parts, cp) \<in> measure (\<lambda>(parts, cp). length cp)" by simp
qed simp

declare parts_loop.simps [simp del]

definition ipaddr_aton :: "u8 list \<Rightarrow> u32 option" where
  "ipaddr_aton cp = do {
     (parts, val, cp) \<leftarrow> parts_loop [] cp;
     if peek cp \<noteq> 0 \<and> \<not> isspace (peek cp) then None
     else (case parts of
         [] \<Rightarrow> Some (lwip_htonl val)
       | [a] \<Rightarrow> if 0xFFFFFF < val then None else Some (lwip_htonl (val OR push_bit 24 a))
       | [a, b] \<Rightarrow> if 0xFFFF < val then None else Some (lwip_htonl (val OR (push_bit 24 a OR push_bit 16 b)))
       | a # b # c # _ \<Rightarrow> if 0xFF < val then None
           else Some (lwip_htonl (val OR (push_bit 24 a OR push_bit 16 b OR push_bit 8 c)))) }"

definition ipaddr_addr :: "u8 list \<Rightarrow> u32" where
  "ipaddr_addr cp = (case ipaddr_aton cp of Some val \<Rightarrow> val | None \<Rightarrow> IPADDR_NONE)"

section \<open>Printing\<close>

text \<open>The digits of an octet, last one first (the buffer \<open>inv\<close>).\<close>

function inv_digits :: "u8 \<Rightarrow> u8 list" where
  "inv_digits a = (0x30 + a mod 10) # (if a div 10 = 0 then [] else inv_digits (a div 10))"
  by auto
termination
proof (relation "measure unat")
  fix a :: u8
  assume "a div 10 \<noteq> 0"
  then have "unat a \<noteq> 0" by (metis div_0 unat_eq_zero)
  then show "(a div 10, a) \<in> measure unat" by (simp add: unat_div)
qed simp

declare inv_digits.simps [simp del]

text \<open>Writing characters to the buffer: each write is preceded by the check \<open>len++ >= buflen\<close>.\<close>

fun put_chars :: "u8 list \<Rightarrow> int \<Rightarrow> int \<times> u8 list \<Rightarrow> (int \<times> u8 list) option" where
  "put_chars [] buflen (len, out) = Some (len, out)"
| "put_chars (c # cs) buflen (len, out) = (if buflen \<le> len then None else put_chars cs buflen (len + 1, out @ [c]))"

fun put_octets :: "u8 list \<Rightarrow> int \<Rightarrow> int \<times> u8 list \<Rightarrow> (int \<times> u8 list) option" where
  "put_octets [] buflen st = Some st"
| "put_octets (ap # aps) buflen st = do {
     st \<leftarrow> put_chars (rev (inv_digits ap)) buflen st;
     st \<leftarrow> put_chars [0x2E] buflen st;
     put_octets aps buflen st }"

text \<open>The string in the buffer; the last dot is overwritten by the terminating 0. \<open>None\<close> is \<open>NULL\<close>.\<close>

definition ipaddr_ntoa_r :: "u32 \<Rightarrow> int \<Rightarrow> u8 list option" where
  "ipaddr_ntoa_r addr buflen = do {
     (len, out) \<leftarrow> put_octets [ucast addr, ucast (drop_bit 8 addr), ucast (drop_bit 16 addr), ucast (drop_bit 24 addr)] buflen (0, []);
     Some (butlast out) }"

definition ipaddr_ntoa :: "u32 \<Rightarrow> u8 list option" where
  "ipaddr_ntoa addr = ipaddr_ntoa_r addr 16"

section \<open>Printing and parsing are inverse\<close>

definition digit :: "nat \<Rightarrow> u8" where
  "digit k = of_nat (0x30 + k)"

lemma unat_digit: "k < 10 \<Longrightarrow> unat (digit k) = 0x30 + k"
  by (simp add: digit_def unat_of_nat take_bit_nat_eq_self_iff del: of_nat_add)

lemma isdigit_digit: "k < 10 \<Longrightarrow> isdigit (digit k)"
  by (simp add: isdigit_def in_range_def word_le_nat_alt unat_digit)

lemma digits_loop_digit: "k < 10 \<Longrightarrow> digits_loop base val (digit k # cp) = digits_loop base (val * base + of_nat k) cp"
proof -
  assume k: "k < 10"
  have "(ucast (digit k) :: u32) = of_nat (0x30 + k)" using unat_digit [OF k] by (metis of_nat_unat)
  then show ?thesis using isdigit_digit [OF k] by simp
qed

lemma inv_digits_nat:
  "inv_digits a = digit (unat a mod 10) # (if unat a div 10 = 0 then [] else inv_digits (of_nat (unat a div 10)))"
proof -
  have "0x30 + a mod 10 = digit (unat a mod 10)"
    by (simp add: digit_def word_unat_eq_iff unat_word_ariths unat_mod unat_of_nat take_bit_eq_mod)
  moreover have u: "unat (a div 10) = unat a div 10" by (simp add: unat_div)
  then have "a div 10 = of_nat (unat a div 10)" by (metis of_nat_unat ucast_id)
  moreover have "a div 10 = 0 \<longleftrightarrow> unat a div 10 = 0" unfolding u [symmetric] by (simp only: unat_eq_zero)
  ultimately show ?thesis by (subst inv_digits.simps) (simp only:)
qed

lemma unat_u8_less: "unat (a :: u8) < 256"
  using unsigned_less [of a] by simp

lemma decimal_cases:
  obtains (one) k where "k < 10" "unat a = k" "rev (inv_digits a) = [digit k]"
  | (two) i k where "i < 10" "k < 10" "0 < i" "unat a = 10 * i + k" "rev (inv_digits a) = [digit i, digit k]"
  | (three) h i k where "h < 10" "i < 10" "k < 10" "0 < h" "unat a = 100 * h + 10 * i + k" "rev (inv_digits a) = [digit h, digit i, digit k]"
proof -
  define n where "n = unat a"
  have n: "n < 256" unfolding n_def by (rule unat_u8_less)
  have u: "unat (of_nat (n div 10) :: u8) = n div 10" using n by (simp add: unat_of_nat take_bit_nat_eq_self_iff)
  have u2: "unat (of_nat (n div 10 div 10) :: u8) = n div 10 div 10" using n by (simp add: unat_of_nat take_bit_nat_eq_self_iff)
  note d = inv_digits_nat [of a, folded n_def]
  note d2 = inv_digits_nat [of "of_nat (n div 10)", unfolded u]
  note d3 = inv_digits_nat [of "of_nat (n div 10 div 10)", unfolded u2]
  have e: "n = 10 * (n div 10) + n mod 10" "n div 10 = 10 * (n div 10 div 10) + n div 10 mod 10" by simp_all
  have r: "n mod 10 < 10" "n div 10 mod 10 < 10" by simp_all
  consider "n div 10 = 0" | "n div 10 \<noteq> 0" "n div 10 div 10 = 0" | "n div 10 \<noteq> 0" "n div 10 div 10 \<noteq> 0" by blast
  then show ?thesis
  proof cases
    case 1
    then show ?thesis using d e r by (intro one [of "n mod 10"]) (simp_all add: n_def)
  next
    case 2
    then have "rev (inv_digits a) = [digit (n div 10 mod 10), digit (n mod 10)]" using d d2 by simp
    then show ?thesis using 2 e r by (intro two [of "n div 10 mod 10" "n mod 10"]) (auto simp: n_def)
  next
    case 3
    have "n div 10 div 10 < 10" using n by simp
    then have "rev (inv_digits a) = [digit (n div 10 div 10), digit (n div 10 mod 10), digit (n mod 10)]" using 3 d d2 d3 by simp
    moreover have "n = 100 * (n div 10 div 10) + 10 * (n div 10 mod 10) + n mod 10" using e by linarith
    ultimately show ?thesis using 3 r \<open>n div 10 div 10 < 10\<close>
      by (intro three [of "n div 10 div 10" "n div 10 mod 10" "n mod 10"]) (auto simp: n_def)
  qed
qed

lemma digit_neq: "k < 10 \<Longrightarrow> 0 < k \<Longrightarrow> digit k \<noteq> 0x30"
  using unat_digit [of k] by auto

text \<open>A decimal number followed by a dot or by nothing.\<close>

lemma digits_loop_stop: "rest = [] \<or> peek rest = 0x2E \<Longrightarrow> digits_loop 10 val rest = (val, rest)" "rest = [] \<or> peek rest = 0x2E \<Longrightarrow> digits_loop 8 val rest = (val, rest)"
  by (cases rest; auto simp: peek_def isdigit_def in_range_def word_le_nat_alt)+

lemma parse_nonzero: "k < 10 \<Longrightarrow> 0 < k \<Longrightarrow> parse_number (digit k # cp) = digits_loop 10 (of_nat k) cp"
  using digit_neq [of k] by (simp add: parse_number_def digits_loop_digit del: digits_loop.simps)

lemma parse_decimal:
  assumes r: "rest = [] \<or> peek rest = 0x2E"
  shows "parse_number (rev (inv_digits a) @ rest) = (ucast a, rest)" "isdigit (peek (rev (inv_digits a) @ rest))" "length (inv_digits a) \<le> 3"
proof -
  have u: "unat a = k \<Longrightarrow> (ucast a :: u32) = of_nat k" for k by (metis of_nat_unat)
  show "parse_number (rev (inv_digits a) @ rest) = (ucast a, rest)"
  proof (cases rule: decimal_cases [of a])
    case (one k)
    show ?thesis
    proof (cases "k = 0")
      case True
      then have "rev (inv_digits a) = [0x30]" using one(3) by (simp add: digit_def)
      moreover have "peek rest \<noteq> 0x78" "peek rest \<noteq> 0x58" using r by auto
      ultimately have "parse_number (rev (inv_digits a) @ rest) = digits_loop 8 0 rest" by (simp add: parse_number_def)
      then show ?thesis using digits_loop_stop(2) [OF r, of 0] u [of 0] True one(2) by simp
    next
      case False
      then show ?thesis unfolding one(3) u [OF one(2)] using one(1) digits_loop_stop(1) [OF r] by (simp add: parse_nonzero)
    qed
  next
    case (two i k)
    have "(of_nat i * 10 + of_nat k :: u32) = of_nat (10 * i + k)" by simp
    then show ?thesis unfolding two(5) u [OF two(4)] using two(1-3) digits_loop_stop(1) [OF r]
      by (simp add: parse_nonzero digits_loop_digit del: digits_loop.simps of_nat_add of_nat_mult)
  next
    case (three h i k)
    have "((of_nat h * 10 + of_nat i) * 10 + of_nat k :: u32) = of_nat ((10 * h + i) * 10 + k)" by simp
    moreover have "(10 * h + i) * 10 + k = 100 * h + 10 * i + k" by simp
    ultimately have e: "((of_nat h * 10 + of_nat i) * 10 + of_nat k :: u32) = of_nat (100 * h + 10 * i + k)" by (simp only:)
    show ?thesis unfolding three(6) u [OF three(5)] e [symmetric] append.simps
      using three(1-4) digits_loop_stop(1) [OF r] by (simp only: parse_nonzero digits_loop_digit)
  qed
  show "isdigit (peek (rev (inv_digits a) @ rest))"
    by (cases rule: decimal_cases [of a]) (simp_all add: isdigit_digit)
  have "length (rev (inv_digits a)) \<le> 3" by (cases rule: decimal_cases [of a]) simp_all
  then show "length (inv_digits a) \<le> 3" by simp
qed

lemma parts_loop_octet:
  assumes "length parts < 3"
  shows "parts_loop parts (rev (inv_digits a) @ 0x2E # cp) = parts_loop (parts @ [ucast a]) cp"
  using assms parse_decimal [of "0x2E # cp" a] by (subst parts_loop.simps) simp

lemma parts_loop_last: "parts_loop parts (rev (inv_digits a)) = Some (parts, ucast a, [])"
  using parse_decimal [of "[]" a] by (subst parts_loop.simps) simp

lemma put_chars_spec:
  "len + int (length cs) \<le> buflen \<Longrightarrow> put_chars cs buflen (len, out) = Some (len + int (length cs), out @ cs)"
  by (induction cs arbitrary: len out) simp_all

lemma put_octets_spec:
  "len + 4 * int (length as) \<le> buflen \<Longrightarrow>
    \<exists>len'. put_octets as buflen (len, out) = Some (len', out @ concat (map (\<lambda>a. rev (inv_digits a) @ [0x2E]) as)) \<and> len' \<le> len + 4 * int (length as)"
proof (induction as arbitrary: len out)
  case (Cons a as)
  have l: "int (length (inv_digits a)) \<le> 3" using parse_decimal(3) [of "[]" a] by simp
  let ?len = "len + int (length (inv_digits a)) + 1"
  have "?len + 4 * int (length as) \<le> buflen" using l Cons.prems by simp
  from Cons.IH [OF this, of "out @ rev (inv_digits a) @ [0x2E]"] obtain len' where
    "put_octets as buflen (?len, out @ rev (inv_digits a) @ [0x2E])
      = Some (len', (out @ rev (inv_digits a) @ [0x2E]) @ concat (map (\<lambda>a. rev (inv_digits a) @ [0x2E]) as))" "len' \<le> ?len + 4 * int (length as)" by blast
  moreover have "put_chars (rev (inv_digits a)) buflen (len, out) = Some (len + int (length (inv_digits a)), out @ rev (inv_digits a))"
    using put_chars_spec [of len "rev (inv_digits a)" buflen out] l Cons.prems by simp
  moreover have "\<not> buflen \<le> len + int (length (inv_digits a))" using l Cons.prems by simp
  ultimately show ?case using l by auto
qed simp

lemma octet_small: "\<not> (0xFF :: u32) < ucast (b :: u8)"
proof -
  have "take_bit 32 (unat b) = unat b" using unat_u8_less [of b] by (simp add: take_bit_nat_eq_self_iff)
  then show ?thesis using unat_u8_less [of b] by (simp add: word_less_nat_alt unsigned_ucast_eq)
qed

lemma htonl_octets:
  "lwip_htonl (ucast (ucast (drop_bit 24 addr) :: u8) OR (push_bit 24 (ucast (ucast addr :: u8)) OR
     push_bit 16 (ucast (ucast (drop_bit 8 addr) :: u8)) OR push_bit 8 (ucast (ucast (drop_bit 16 addr) :: u8)))) = addr" (is "lwip_htonl ?x = _")
proof -
  have m: "(0xFF :: u32) = mask 8" "(0xFF00 :: u32) = push_bit 8 (mask 8)" "(0xFF0000 :: u32) = push_bit 16 (mask 8)"
    "(0xFF000000 :: u32) = push_bit 24 (mask 8)" by (simp_all add: mask_eq_exp_minus_1)
  have "bit (lwip_htonl ?x) n = bit addr n" if n: "n < 32" for n
  proof -
    consider "n < 8" | "8 \<le> n" "n < 16" | "16 \<le> n" "n < 24" | "24 \<le> n" "n < 32" using n by linarith
    then show ?thesis unfolding lwip_htonl_def m by cases (simp_all add: bit_simps, auto)
  qed
  then show ?thesis by (intro bit_word_eqI) simp
qed

text \<open>
  C34. Printing and parsing of addresses are inverse: for every address the text that
  \<open>ipaddr_ntoa\<close> writes fits its 16-byte buffer with the terminating zero, and \<open>ipaddr_aton\<close> reads it
  back to the same address.
\<close>

theorem ipaddr_roundtrip:
  "\<exists>str. ipaddr_ntoa addr = Some str \<and> length str \<le> 15 \<and> ipaddr_aton str = Some addr \<and> ipaddr_addr str = addr"
proof -
  let ?b0 = "ucast addr :: u8" and ?b1 = "ucast (drop_bit 8 addr) :: u8"
    and ?b2 = "ucast (drop_bit 16 addr) :: u8" and ?b3 = "ucast (drop_bit 24 addr) :: u8"
  let ?d = "\<lambda>b. rev (inv_digits b)"
  define str where "str = ?d ?b0 @ 0x2E # ?d ?b1 @ 0x2E # ?d ?b2 @ 0x2E # ?d ?b3"
  from put_octets_spec [of 0 "[?b0, ?b1, ?b2, ?b3]" 16 "[]"] obtain len where
    "put_octets [?b0, ?b1, ?b2, ?b3] 16 (0, []) = Some (len, concat (map (\<lambda>a. ?d a @ [0x2E]) [?b0, ?b1, ?b2, ?b3]))" by auto
  moreover have "butlast (concat (map (\<lambda>a. ?d a @ [0x2E]) [?b0, ?b1, ?b2, ?b3])) = str"
    by (simp add: str_def butlast_append)
  ultimately have p: "ipaddr_ntoa addr = Some str" by (simp add: ipaddr_ntoa_def ipaddr_ntoa_r_def)
  have l: "length str \<le> 15" using parse_decimal(3) [of "[]" ?b0] parse_decimal(3) [of "[]" ?b1] parse_decimal(3) [of "[]" ?b2]
      parse_decimal(3) [of "[]" ?b3] by (simp add: str_def)
  have "parts_loop [] str = Some ([ucast ?b0, ucast ?b1, ucast ?b2], ucast ?b3, [])"
    unfolding str_def by (simp add: parts_loop_octet parts_loop_last)
  moreover have "\<not> (0xFF :: u32) < ucast ?b3" by (rule octet_small)
  ultimately have "ipaddr_aton str = Some addr" unfolding ipaddr_aton_def using htonl_octets [of addr] by simp
  then show ?thesis using p l by (simp add: ipaddr_addr_def)
qed

section \<open>Netmasks\<close>

lemma all_zeros_iff: "all_zeros nm n \<longleftrightarrow> (\<forall>j<n. \<not> bit nm j)"
  by (induction n) (auto simp: bit_iff_and_push_bit_not_eq_0 less_Suc_eq)

lemma skip_ones_spec:
  "skip_ones nm n \<le> n \<and> (\<forall>j. skip_ones nm n \<le> j \<and> j < n \<longrightarrow> bit nm j) \<and> (skip_ones nm n \<noteq> 0 \<longrightarrow> \<not> bit nm (skip_ones nm n - 1))"
  by (induction n) (auto simp: bit_iff_and_push_bit_not_eq_0 less_Suc_eq)

text \<open>\<open>ip4_addr_netmask_valid\<close> accepts exactly the masks that are ones followed by zeros.\<close>

lemma netmask_valid_iff:
  "ip4_addr_netmask_valid netmask \<longleftrightarrow> (\<exists>m\<le>32. \<forall>j<32. bit (lwip_htonl netmask) j \<longleftrightarrow> m \<le> j)"
proof -
  define nm where "nm = lwip_htonl netmask"
  define m where "m = skip_ones nm 32"
  have s: "m \<le> 32" "\<And>j. m \<le> j \<Longrightarrow> j < 32 \<Longrightarrow> bit nm j" "m \<noteq> 0 \<Longrightarrow> \<not> bit nm (m - 1)"
    using skip_ones_spec [of nm 32] by (auto simp: m_def)
  have v: "ip4_addr_netmask_valid netmask \<longleftrightarrow> (\<forall>j<m. \<not> bit nm j)"
    by (simp add: ip4_addr_netmask_valid_def Let_def nm_def [symmetric] m_def [symmetric] all_zeros_iff)
  show ?thesis unfolding v nm_def [symmetric]
  proof
    assume "\<forall>j<m. \<not> bit nm j"
    then have "\<forall>j<32. bit nm j \<longleftrightarrow> m \<le> j" using s(2) by (meson not_le)
    then show "\<exists>m\<le>32. \<forall>j<32. bit nm j \<longleftrightarrow> m \<le> j" using s(1) by blast
  next
    assume "\<exists>m\<le>32. \<forall>j<32. bit nm j \<longleftrightarrow> m \<le> j"
    then obtain k where k: "\<And>j. j < 32 \<Longrightarrow> bit nm j \<longleftrightarrow> k \<le> j" by blast
    show "\<forall>j<m. \<not> bit nm j"
    proof (intro allI impI)
      fix j
      assume j: "j < m"
      then have "\<not> bit nm (m - 1)" using s(3) by simp
      then have "\<not> k \<le> m - 1" using k [of "m - 1"] s(1) j by simp
      then show "\<not> bit nm j" using k [of j] j s(1) by simp
    qed
  qed
qed

text \<open>An octet above 255 in front of the last number is not rejected: \<open>256.0.0.1\<close> is read as \<open>0.0.0.1\<close>.\<close>

theorem aton_accepts_large_octet:
  "ipaddr_aton [0x32, 0x35, 0x36, 0x2E, 0x30, 0x2E, 0x30, 0x2E, 0x31] = Some (lwip_htonl 1)"
  by code_simp

end
