(* ===== verification/C_Strings.thy ===== *)
theory C_Strings
  imports Pbuf_Chain
begin

text \<open>
  Strings in the byte memory: they end at the first 0 byte, which the functions of the C library look
  for. A search that meets no end does not return (\<open>None\<close>); \<open>strlen\<close> is defined with the packet
  buffers, which use it too.
\<close>

section \<open>Library functions\<close>

text \<open>\<open>strchr\<close>, for a character that is not 0; 0 is \<open>NULL\<close>.\<close>

partial_function (option) strchr :: "u32 \<Rightarrow> u8 \<Rightarrow> (u32 \<Rightarrow> u8) \<Rightarrow> u32 option" where
  "strchr a c m = (if m a = c then Some a else if m a = 0 then Some 0 else strchr (a + 1) c m)"

text \<open>\<open>strncmp(s, w, n) == 0\<close> for a constant \<open>w\<close> of length \<open>n\<close>.\<close>

fun starts_with :: "u8 list \<Rightarrow> u32 \<Rightarrow> (u32 \<Rightarrow> u8) \<Rightarrow> bool" where
  "starts_with [] a m = True"
| "starts_with (c # cs) a m = (m a = c \<and> starts_with cs (a + 1) m)"

text \<open>\<open>memcpy\<close>, \<open>strcpy\<close> and \<open>strcat\<close> from a constant.\<close>

primrec put_bytes :: "u32 \<Rightarrow> u8 list \<Rightarrow> (u32 \<Rightarrow> u8) \<Rightarrow> (u32 \<Rightarrow> u8)" where
  "put_bytes a [] m = m"
| "put_bytes a (x # xs) m = put_bytes (a + 1) xs (m(a := x))"

definition strcpy :: "u32 \<Rightarrow> u8 list \<Rightarrow> (u32 \<Rightarrow> u8) \<Rightarrow> (u32 \<Rightarrow> u8)" where
  "strcpy a s m = put_bytes a (s @ [0]) m"

definition strcat :: "u32 \<Rightarrow> u8 list \<Rightarrow> (u32 \<Rightarrow> u8) \<Rightarrow> (u32 \<Rightarrow> u8) option" where
  "strcat a s m = do { n \<leftarrow> strlen a 0 m; Some (strcpy (a + of_nat n) s m) }"

lemmas string_loops_code [code] = strchr.simps

section \<open>The string at an address\<close>

text \<open>The memory at \<open>a\<close> holds the C string \<open>t\<close>.\<close>

fun cstr :: "(u32 \<Rightarrow> u8) \<Rightarrow> u32 \<Rightarrow> u8 list \<Rightarrow> bool" where
  "cstr m a [] \<longleftrightarrow> m a = 0"
| "cstr m a (c # t) \<longleftrightarrow> c \<noteq> 0 \<and> m a = c \<and> cstr m (a + 1) t"

lemma cstr_append: "cstr m a (s @ t) \<longleftrightarrow> 0 \<notin> set s \<and> bytes m a (length s) = s \<and> cstr m (a + of_nat (length s)) t"
  by (induction s arbitrary: a) (auto simp: bytes_Suc add.assoc add.commute)

lemma cstr_iff: "cstr m a t \<longleftrightarrow> 0 \<notin> set t \<and> bytes m a (length t) = t \<and> m (a + of_nat (length t)) = 0"
  using cstr_append [of m a t "[]"] by simp

lemma cstr_no_NUL: "cstr m a t \<Longrightarrow> 0 \<notin> set t"
  by (simp add: cstr_iff)

lemma cstr_bytes: "cstr m a t \<Longrightarrow> bytes m a (length t) = t"
  by (simp add: cstr_iff)

text \<open>A string that does not reach the end of the address space.\<close>

definition fits_at :: "u32 \<Rightarrow> u8 list \<Rightarrow> bool" where
  "fits_at a t \<longleftrightarrow> a \<noteq> 0 \<and> unat a + length t < 2 ^ 32"

lemma fits_at_Cons: "fits_at a (c # t) \<Longrightarrow> fits_at (a + 1) t \<and> unat (a + 1) = unat a + 1"
  by (auto simp: fits_at_def unat_word_ariths word_unat_eq_iff)

lemma fits_at_offset:
  assumes "fits_at a t" "i \<le> length t"
  shows "unat (a + of_nat i) = unat a + i" "a + of_nat i \<noteq> 0"
  using assms by (auto simp: fits_at_def unat_word_ariths unat_of_nat word_unat_eq_iff)

lemma fits_at_suffix: "fits_at a (s @ t) \<Longrightarrow> fits_at (a + of_nat (length s)) t"
  using fits_at_offset [of a "s @ t" "length s"] by (auto simp: fits_at_def)

lemma fits_at_prefix: "fits_at a (s @ t) \<Longrightarrow> fits_at a s"
  by (simp add: fits_at_def)

lemma strchr_cstr:
  assumes "cstr m a t" "c \<noteq> 0"
  shows "strchr a c m = Some (if c \<in> set t then a + of_nat (length (takeWhile (\<lambda>x. x \<noteq> c) t)) else 0)"
  using assms
proof (induction t arbitrary: a)
  case Nil
  then show ?case by (subst strchr.simps) auto
next
  case (Cons x t)
  show ?case
  proof (cases "x = c")
    case True
    then show ?thesis using Cons.prems by (subst strchr.simps) auto
  next
    case False
    then have "strchr a c m = strchr (a + 1) c m" using Cons.prems by (subst strchr.simps) auto
    then show ?thesis using Cons False by (auto simp: add.assoc add.commute)
  qed
qed

lemma starts_with_cstr:
  assumes "cstr m a t" "0 \<notin> set w"
  shows "starts_with w a m \<longleftrightarrow> take (length w) t = w"
  using assms
proof (induction w arbitrary: a t)
  case (Cons x w)
  then show ?case by (cases t) auto
qed simp

lemma strlen_cstr: "cstr m a t \<Longrightarrow> strlen a n m = Some (n + length t)"
proof (induction t arbitrary: a n)
  case Nil
  then show ?case by (subst strlen.simps) simp
next
  case (Cons c t)
  then show ?case by (subst strlen.simps) simp
qed

text \<open>Memory outside of a string stays as it is.\<close>

definition same_outside :: "u32 \<Rightarrow> nat \<Rightarrow> (u32 \<Rightarrow> u8) \<Rightarrow> (u32 \<Rightarrow> u8) \<Rightarrow> bool" where
  "same_outside a n m m' \<longleftrightarrow> (\<forall>b. \<not> (unat a \<le> unat b \<and> unat b < unat a + n) \<longrightarrow> m' b = m b)"

lemma same_outside_refl [simp]: "same_outside a n m m"
  by (simp add: same_outside_def)

lemma same_outside_upd:
  assumes "same_outside a n m m'" "unat a \<le> unat b" "unat b < unat a + n"
  shows "same_outside a n m (m'(b := v))"
  using assms by (auto simp: same_outside_def)

lemma same_outside_trans:
  assumes "same_outside a n m m1" "same_outside b k m1 m2" "unat a \<le> unat b" "unat b + k \<le> unat a + n"
  shows "same_outside a n m m2"
  unfolding same_outside_def
proof (intro allI impI)
  fix x :: u32 assume x: "\<not> (unat a \<le> unat x \<and> unat x < unat a + n)"
  then have "\<not> (unat b \<le> unat x \<and> unat x < unat b + k)" using assms(3,4) by linarith
  then show "m2 x = m x" using x assms(1,2) by (simp add: same_outside_def)
qed

section \<open>Copying\<close>

lemma put_bytes_append: "put_bytes a (xs @ ys) m = put_bytes (a + of_nat (length xs)) ys (put_bytes a xs m)"
  by (induction xs arbitrary: a m) (simp_all add: add.assoc add.commute)

lemma put_bytes_outside: "unat a + length xs \<le> 2 ^ 32 \<Longrightarrow> same_outside a (length xs) m (put_bytes a xs m)"
proof (induction xs arbitrary: a m)
  case (Cons x xs)
  show ?case
  proof (cases "xs = []")
    case True
    then show ?thesis by (auto simp: same_outside_def)
  next
    case False
    then have a: "unat (a + 1) = unat a + 1" using Cons.prems by (cases xs) (simp_all add: unat_word_ariths)
    have "same_outside (a + 1) (length xs) (m(a := x)) (put_bytes (a + 1) xs (m(a := x)))" using Cons a by simp
    moreover have "same_outside a (length (x # xs)) m (m(a := x))" by (auto simp: same_outside_def)
    ultimately show ?thesis using same_outside_trans [of a "length (x # xs)" m "m(a := x)" "a + 1" "length xs"] a by simp
  qed
qed simp

lemma same_outside_at: "same_outside a n m m' \<Longrightarrow> unat b < unat a \<or> unat a + n \<le> unat b \<Longrightarrow> m' b = m b"
  by (auto simp: same_outside_def)

lemma bytes_outside:
  assumes "same_outside b k m m'" "unat a + n \<le> unat b \<or> unat b + k \<le> unat a" "unat a + n \<le> 2 ^ 32"
  shows "bytes m' a n = bytes m a n"
proof -
  have "m' (a + of_nat i) = m (a + of_nat i)" if "i < n" for i
  proof (rule same_outside_at [OF assms(1)])
    have "unat (a + of_nat i) = unat a + i" using that assms(3) by (simp add: unat_word_ariths unat_of_nat)
    then show "unat (a + of_nat i) < unat b \<or> unat b + k \<le> unat (a + of_nat i)" using that assms(2) by linarith
  qed
  then show ?thesis by (simp add: bytes_def)
qed

lemma bytes_put: "unat a + length xs \<le> 2 ^ 32 \<Longrightarrow> bytes (put_bytes a xs m) a (length xs) = xs"
proof (induction xs arbitrary: a m)
  case (Cons x xs)
  show ?case
  proof (cases "xs = []")
    case False
    then have a: "unat (a + 1) = unat a + 1" using Cons.prems by (cases xs) (simp_all add: unat_word_ariths)
    have "same_outside (a + 1) (length xs) (m(a := x)) (put_bytes (a + 1) xs (m(a := x)))"
      by (rule put_bytes_outside) (use Cons.prems a in simp)
    then have "put_bytes (a + 1) xs (m(a := x)) a = x" using same_outside_at [of "a + 1" "length xs" "m(a := x)" _ a] a by simp
    then show ?thesis using Cons a by (simp add: bytes_Suc)
  qed (simp add: bytes_Suc)
qed simp

lemma strcpy_cstr:
  assumes "fits_at a s" "0 \<notin> set s"
  shows "cstr (strcpy a s m) a s" "same_outside a (length s + 1) m (strcpy a s m)"
proof -
  have f: "unat a + length (s @ [0 :: u8]) \<le> 2 ^ 32" using assms(1) by (simp add: fits_at_def)
  have "bytes (strcpy a s m) a (length s + 1) = s @ [0]" using bytes_put [OF f, of m] by (simp add: strcpy_def)
  then have "bytes (strcpy a s m) a (length s) = s" "strcpy a s m (a + of_nat (length s)) = 0" by (simp_all add: bytes_snoc)
  then show "cstr (strcpy a s m) a s" using assms(2) by (simp add: cstr_iff)
  show "same_outside a (length s + 1) m (strcpy a s m)" using put_bytes_outside [OF f, of m] by (simp add: strcpy_def)
qed

lemma strcat_cstr:
  assumes "cstr m a t" "fits_at a (t @ s)" "0 \<notin> set s"
  obtains m' where "strcat a s m = Some m'" "cstr m' a (t @ s)" "same_outside a (length (t @ s) + 1) m m'"
proof -
  let ?b = "a + of_nat (length t)"
  have ub: "unat ?b = unat a + length t" using fits_at_offset(1) [OF assms(2), of "length t"] by simp
  note c = strcpy_cstr [OF fits_at_suffix [OF assms(2)] assms(3), of m]
  have "same_outside a (length (t @ s) + 1) m (strcpy ?b s m)"
    using same_outside_trans [OF same_outside_refl c(2), of a "length (t @ s) + 1"] ub by simp
  moreover have "bytes (strcpy ?b s m) a (length t) = t"
    using bytes_outside [OF c(2), of a "length t"] ub cstr_bytes [OF assms(1)] assms(2) by (simp add: fits_at_def)
  then have "cstr (strcpy ?b s m) a (t @ s)" using c(1) cstr_no_NUL [OF assms(1)] by (simp add: cstr_append)
  moreover have "strcat a s m = Some (strcpy ?b s m)" using strlen_cstr [OF assms(1), of 0] by (simp add: strcat_def)
  ultimately show thesis using that by blast
qed

end
