(* ===== verification/Http_Files.thy ===== *)
theory Http_Files
  imports C_Strings
begin

text \<open>
  The tables of HTTP headers (\<^verbatim>\<open>inc/httpd_structs.h\<close>) and the files of the web server
  (\<^verbatim>\<open>src/lwip_fs.c\<close>).
\<close>

section \<open>Constants\<close>

text \<open>
  Constant strings are lists of characters.
\<close>

abbreviation (input) CR :: u8 where "CR \<equiv> 0x0D"
abbreviation (input) LF :: u8 where "LF \<equiv> 0x0A"
abbreviation (input) SP :: u8 where "SP \<equiv> 0x20"
abbreviation (input) QM :: u8 where "QM \<equiv> 0x3F"
abbreviation (input) SLASH :: u8 where "SLASH \<equiv> 0x2F"

definition ascii :: "string \<Rightarrow> u8 list" where
  "ascii s = map of_char s"

section \<open>Headers\<close>

definition g_psHTTPHeaderStrings :: "u8 list list" where
  "g_psHTTPHeaderStrings =
   [ascii ''Content-type: text/html'' @ [CR, LF, CR, LF],
    ascii ''Content-type: text/html'' @ [CR, LF] @ ascii ''Expires: Fri, 10 Apr 2008 14:00:00 GMT'' @ [CR, LF] @ ascii ''Pragma: no-cache'' @ [CR, LF, CR, LF],
    ascii ''Content-type: image/gif'' @ [CR, LF, CR, LF],
    ascii ''Content-type: image/png'' @ [CR, LF, CR, LF],
    ascii ''Content-type: image/jpeg'' @ [CR, LF, CR, LF],
    ascii ''Content-type: image/bmp'' @ [CR, LF, CR, LF],
    ascii ''Content-type: image/x-icon'' @ [CR, LF, CR, LF],
    ascii ''Content-type: application/octet-stream'' @ [CR, LF, CR, LF],
    ascii ''Content-type: application/x-javascript'' @ [CR, LF, CR, LF],
    ascii ''Content-type: application/x-javascript'' @ [CR, LF, CR, LF],
    ascii ''Content-type: text/css'' @ [CR, LF, CR, LF],
    ascii ''Content-type: application/x-shockwave-flash'' @ [CR, LF, CR, LF],
    ascii ''Content-type: text/xml'' @ [CR, LF, CR, LF],
    ascii ''Content-type: text/plain'' @ [CR, LF, CR, LF],
    ascii ''HTTP/1.0 200 OK'' @ [CR, LF],
    ascii ''HTTP/1.0 404 File not found'' @ [CR, LF],
    ascii ''HTTP/1.0 400 Bad Request'' @ [CR, LF],
    ascii ''HTTP/1.0 501 Not Implemented'' @ [CR, LF],
    ascii ''HTTP/1.1 200 OK'' @ [CR, LF],
    ascii ''HTTP/1.1 404 File not found'' @ [CR, LF],
    ascii ''HTTP/1.1 400 Bad Request'' @ [CR, LF],
    ascii ''HTTP/1.1 501 Not Implemented'' @ [CR, LF],
    ascii ''Content-Length: '',
    ascii ''Connection: Close'' @ [CR, LF],
    ascii ''Connection: keep-alive'' @ [CR, LF],
    ascii ''Server: lwIP/1.3.1 (http://savannah.nongnu.org/projects/lwip)'' @ [CR, LF],
    [CR, LF] @ ascii ''<html><body><h2>404: The requested file cannot be found.</h2></body></html>'' @ [CR, LF]]"

abbreviation (input) HTTP_HDR_HTML :: nat where "HTTP_HDR_HTML \<equiv> 0"
abbreviation (input) HTTP_HDR_SSI :: nat where "HTTP_HDR_SSI \<equiv> 1"
abbreviation (input) HTTP_HDR_GIF :: nat where "HTTP_HDR_GIF \<equiv> 2"
abbreviation (input) HTTP_HDR_PNG :: nat where "HTTP_HDR_PNG \<equiv> 3"
abbreviation (input) HTTP_HDR_JPG :: nat where "HTTP_HDR_JPG \<equiv> 4"
abbreviation (input) HTTP_HDR_BMP :: nat where "HTTP_HDR_BMP \<equiv> 5"
abbreviation (input) HTTP_HDR_ICO :: nat where "HTTP_HDR_ICO \<equiv> 6"
abbreviation (input) HTTP_HDR_APP :: nat where "HTTP_HDR_APP \<equiv> 7"
abbreviation (input) HTTP_HDR_JS :: nat where "HTTP_HDR_JS \<equiv> 8"
abbreviation (input) HTTP_HDR_RA :: nat where "HTTP_HDR_RA \<equiv> 9"
abbreviation (input) HTTP_HDR_CSS :: nat where "HTTP_HDR_CSS \<equiv> 10"
abbreviation (input) HTTP_HDR_SWF :: nat where "HTTP_HDR_SWF \<equiv> 11"
abbreviation (input) HTTP_HDR_XML :: nat where "HTTP_HDR_XML \<equiv> 12"
abbreviation (input) HTTP_HDR_DEFAULT_TYPE :: nat where "HTTP_HDR_DEFAULT_TYPE \<equiv> 13"
abbreviation (input) HTTP_HDR_OK :: nat where "HTTP_HDR_OK \<equiv> 14"
abbreviation (input) HTTP_HDR_NOT_FOUND :: nat where "HTTP_HDR_NOT_FOUND \<equiv> 15"
abbreviation (input) HTTP_HDR_BAD_REQUEST :: nat where "HTTP_HDR_BAD_REQUEST \<equiv> 16"
abbreviation (input) HTTP_HDR_NOT_IMPL :: nat where "HTTP_HDR_NOT_IMPL \<equiv> 17"
abbreviation (input) HTTP_HDR_SERVER :: nat where "HTTP_HDR_SERVER \<equiv> 25"
abbreviation (input) DEFAULT_404_HTML :: nat where "DEFAULT_404_HTML \<equiv> 26"

definition g_psHTTPHeaders :: "(u8 list \<times> nat) list" where
  "g_psHTTPHeaders =
   [(ascii ''html'', HTTP_HDR_HTML), (ascii ''htm'', HTTP_HDR_HTML), (ascii ''shtml'', HTTP_HDR_SSI), (ascii ''shtm'', HTTP_HDR_SSI), (ascii ''ssi'', HTTP_HDR_SSI),
    (ascii ''gif'', HTTP_HDR_GIF), (ascii ''png'', HTTP_HDR_PNG), (ascii ''jpg'', HTTP_HDR_JPG), (ascii ''bmp'', HTTP_HDR_BMP), (ascii ''ico'', HTTP_HDR_ICO),
    (ascii ''class'', HTTP_HDR_APP), (ascii ''cls'', HTTP_HDR_APP), (ascii ''js'', HTTP_HDR_JS), (ascii ''ram'', HTTP_HDR_RA), (ascii ''css'', HTTP_HDR_CSS),
    (ascii ''swf'', HTTP_HDR_SWF), (ascii ''xml'', HTTP_HDR_XML), (ascii ''xsl'', HTTP_HDR_XML)]"

fun occurs :: "u8 list \<Rightarrow> u8 list \<Rightarrow> bool" where
  "occurs w [] = (w = [])"
| "occurs w (c # cs) = (take (length w) (c # cs) = w \<or> occurs w cs)"

text \<open>The part behind the last dot.\<close>

fun extension :: "u8 list \<Rightarrow> u8 list option" where
  "extension [] = None"
| "extension (c # cs) = (case extension cs of Some e \<Rightarrow> Some e | None \<Rightarrow> if c = 0x2E then Some cs else None)"

text \<open>
  The header for a file name (\<open>None\<close> is \<open>NULL\<close>) goes to \<open>buff\<close>, part after part; the result is its length. A
  name without an extension leaves the buffer alone.
\<close>

definition get_http_headers :: "u8 list option \<Rightarrow> u32 \<Rightarrow> (u32 \<Rightarrow> u8) \<Rightarrow> (nat \<times> (u32 \<Rightarrow> u8)) option" where
  "get_http_headers fName buff m =
    (let hdrs1 = g_psHTTPHeaderStrings ! HTTP_HDR_SERVER;
         end_fn = (\<lambda>hdrs0 hdrs2. do {
           let m = strcpy buff hdrs0 m;
           m \<leftarrow> strcat buff hdrs1 m;
           m \<leftarrow> strcat buff hdrs2 m;
           n \<leftarrow> strlen buff 0 m;
           Some (n, m) })
     in case fName of
       None \<Rightarrow> end_fn (g_psHTTPHeaderStrings ! HTTP_HDR_NOT_FOUND) (g_psHTTPHeaderStrings ! DEFAULT_404_HTML)
     | Some [] \<Rightarrow> end_fn (g_psHTTPHeaderStrings ! HTTP_HDR_NOT_FOUND) (g_psHTTPHeaderStrings ! DEFAULT_404_HTML)
     | Some name \<Rightarrow>
         (let status = (if occurs (ascii ''404'') name then HTTP_HDR_NOT_FOUND else if occurs (ascii ''400'') name then HTTP_HDR_BAD_REQUEST
                        else if occurs (ascii ''501'') name then HTTP_HDR_NOT_IMPL else HTTP_HDR_OK)
          in case extension name of
               None \<Rightarrow> Some (0, m)
             | Some ext \<Rightarrow>
                 end_fn (g_psHTTPHeaderStrings ! status)
                   (g_psHTTPHeaderStrings ! (case map_of g_psHTTPHeaders ext of Some i \<Rightarrow> i | None \<Rightarrow> HTTP_HDR_DEFAULT_TYPE))))"

definition GetHTTP_Header :: "u8 list option \<Rightarrow> u32 \<Rightarrow> (u32 \<Rightarrow> u8) \<Rightarrow> (nat \<times> (u32 \<Rightarrow> u8)) option" where
  "GetHTTP_Header fName buff m = get_http_headers fName buff m"

section \<open>Files\<close>

text \<open>
  The build has no FAT file system: \<open>fs_open\<close> finds no file, reading gives no data. A descriptor is
  named by its address, which is that of its first member, the scratch sector; what \<open>malloc\<close> returned is
  an argument of \<open>fs_open_default\<close>, and \<open>fs_close\<close> gives the addresses it releases. The struct \<open>fs_file\<close> in the descriptor
  is a record, \<open>pextension\<close> is the address of the descriptor.
\<close>

record fs_file =
  fs_data :: u32
  fs_len :: nat
  fs_index :: nat
  http_header_included :: bool

definition http_index_html_fs :: "u8 list" where
  "http_index_html_fs = ascii ''<html><head><title>Congrats!</title></head><body><h1>Welcome to our lwIP HTTP server!</h1><p>This is a small test page, served by httpd of lwip.</p></body></html>''"

abbreviation (input) SECTOR_SZ :: nat where "SECTOR_SZ \<equiv> 512"

definition fs_open_default :: "u32 \<Rightarrow> (u32 \<Rightarrow> u8) \<Rightarrow> ((u32 \<times> fs_file) option \<times> (u32 \<Rightarrow> u8)) option" where
  "fs_open_default fds m =
    (if fds = 0 then Some (None, m)
     else do {
       let m = put_bytes fds (replicate SECTOR_SZ 0) m;
       (hlen, m) \<leftarrow> get_http_headers (Some (ascii ''default.htm'')) fds m;
       let m = put_bytes (fds + of_nat hlen) http_index_html_fs m;
       let len = hlen + length http_index_html_fs;
       Some (Some (fds, \<lparr>fs_data = fds, fs_len = len, fs_index = len, http_header_included = True\<rparr>), m) })"

definition fs_open :: "u8 list \<Rightarrow> (u32 \<times> fs_file) option" where
  "fs_open name = None"

definition fs_read :: "u32 \<times> fs_file \<Rightarrow> u32 \<Rightarrow> nat \<Rightarrow> (u32 \<Rightarrow> u8) \<Rightarrow> nat \<times> (u32 \<Rightarrow> u8)" where
  "fs_read file buffer count m = (0, m)"

definition fs_bytes_left :: "u32 \<times> fs_file \<Rightarrow> nat" where
  "fs_bytes_left file = 0"

definition fs_close :: "(u32 \<times> fs_file) option \<Rightarrow> u32 list" where
  "fs_close file = (case file of None \<Rightarrow> [] | Some (fds, _) \<Rightarrow> [fds])"

section \<open>The text of a header\<close>

definition header_lines :: "nat \<Rightarrow> nat \<Rightarrow> u8 list" where
  "header_lines i j = g_psHTTPHeaderStrings ! i @ g_psHTTPHeaderStrings ! HTTP_HDR_SERVER @ g_psHTTPHeaderStrings ! j"

definition not_found_page :: "u8 list" where
  "not_found_page = header_lines HTTP_HDR_NOT_FOUND DEFAULT_404_HTML"

lemma header_string:
  assumes "i < 27"
  shows "length (g_psHTTPHeaderStrings ! i) \<le> 96" "0 \<notin> set (g_psHTTPHeaderStrings ! i)"
proof -
  have "\<forall>x \<in> set g_psHTTPHeaderStrings. length x \<le> 96 \<and> 0 \<notin> set x" by (simp add: g_psHTTPHeaderStrings_def ascii_def of_char_def)
  moreover have "length g_psHTTPHeaderStrings = 27" by (simp add: g_psHTTPHeaderStrings_def)
  ultimately show "length (g_psHTTPHeaderStrings ! i) \<le> 96" "0 \<notin> set (g_psHTTPHeaderStrings ! i)" using assms by simp_all
qed

lemma header_type_index: "map_of g_psHTTPHeaders e = Some i \<Longrightarrow> i < 27"
  by (drule map_of_SomeD) (auto simp: g_psHTTPHeaders_def)

lemma header_lines_length: "i < 27 \<Longrightarrow> j < 27 \<Longrightarrow> length (header_lines i j) \<le> 288"
  using header_string(1) [of i] header_string(1) [of j] header_string(1) [of HTTP_HDR_SERVER]
  by (simp add: header_lines_def)

text \<open>The three copies leave the three parts, concatenated, and touch nothing else.\<close>

lemma copy_lines:
  assumes "fits_at buff (header_lines i j)" "i < 27" "j < 27"
  obtains m1 m2 m' where "strcat buff (g_psHTTPHeaderStrings ! HTTP_HDR_SERVER) (strcpy buff (g_psHTTPHeaderStrings ! i) m) = Some m1"
    "strcat buff (g_psHTTPHeaderStrings ! j) m1 = Some m'" "strlen buff 0 m' = Some (length (header_lines i j))"
    "cstr m' buff (header_lines i j)" "same_outside buff (length (header_lines i j) + 1) m m'"
proof -
  let ?a = "g_psHTTPHeaderStrings ! i" and ?b = "g_psHTTPHeaderStrings ! HTTP_HDR_SERVER" and ?c = "g_psHTTPHeaderStrings ! j"
  let ?n = "length (header_lines i j) + 1"
  have f: "fits_at buff ((?a @ ?b) @ ?c)" using assms(1) by (simp add: header_lines_def)
  have z: "0 \<notin> set ?a" "0 \<notin> set ?b" "0 \<notin> set ?c" using header_string(2) assms(2,3) by simp_all
  note f2 = fits_at_prefix [OF f]
  note A = strcpy_cstr [OF fits_at_prefix [OF f2] z(1), of m]
  obtain m1 where B: "strcat buff ?b (strcpy buff ?a m) = Some m1" "cstr m1 buff (?a @ ?b)"
    "same_outside buff (length (?a @ ?b) + 1) (strcpy buff ?a m) m1" by (rule strcat_cstr [OF A(1) f2 z(2)])
  obtain m' where C: "strcat buff ?c m1 = Some m'" "cstr m' buff ((?a @ ?b) @ ?c)"
    "same_outside buff (length ((?a @ ?b) @ ?c) + 1) m1 m'" by (rule strcat_cstr [OF B(2) f z(3)])
  have "same_outside buff ?n m (strcpy buff ?a m)" by (rule same_outside_trans [OF same_outside_refl A(2)]) (simp_all add: header_lines_def)
  then have "same_outside buff ?n m m1" by (rule same_outside_trans [OF _ B(3)]) (simp_all add: header_lines_def)
  then have "same_outside buff ?n m m'" by (rule same_outside_trans [OF _ C(3)]) (simp_all add: header_lines_def)
  moreover have c: "cstr m' buff (header_lines i j)" using C(2) by (simp add: header_lines_def)
  ultimately show thesis using that [OF B(1) C(1)] strlen_cstr [OF c, of 0] by simp
qed

text \<open>The header that belongs to a name, none for a name without an extension.\<close>

definition header_of :: "u8 list option \<Rightarrow> (nat \<times> nat) option" where
  "header_of fName = (if fName = None \<or> fName = Some [] then Some (HTTP_HDR_NOT_FOUND, DEFAULT_404_HTML)
     else (let name = the fName in case extension name of None \<Rightarrow> None
       | Some ext \<Rightarrow> Some (if occurs (ascii ''404'') name then HTTP_HDR_NOT_FOUND else if occurs (ascii ''400'') name then HTTP_HDR_BAD_REQUEST
                        else if occurs (ascii ''501'') name then HTTP_HDR_NOT_IMPL else HTTP_HDR_OK,
              case map_of g_psHTTPHeaders ext of Some i \<Rightarrow> i | None \<Rightarrow> HTTP_HDR_DEFAULT_TYPE)))"

lemma header_of_index: "header_of fName = Some (i, j) \<Longrightarrow> i < 27 \<and> j < 27"
  by (auto simp: header_of_def Let_def header_type_index split: if_splits option.splits)

lemma get_http_headers_cases:
  "get_http_headers fName buff m = (case header_of fName of None \<Rightarrow> Some (0, m)
     | Some (i, j) \<Rightarrow> do {
         m \<leftarrow> strcat buff (g_psHTTPHeaderStrings ! HTTP_HDR_SERVER) (strcpy buff (g_psHTTPHeaderStrings ! i) m);
         m \<leftarrow> strcat buff (g_psHTTPHeaderStrings ! j) m;
         n \<leftarrow> strlen buff 0 m;
         Some (n, m) })"
  by (cases fName; (cases "the fName")?) (simp_all add: get_http_headers_def header_of_def Let_def split: option.split)

lemma get_http_headers_text:
  assumes "\<And>i j. header_of fName = Some (i, j) \<Longrightarrow> fits_at buff (header_lines i j)"
  shows "case header_of fName of None \<Rightarrow> get_http_headers fName buff m = Some (0, m)
    | Some (i, j) \<Rightarrow> \<exists>m'. get_http_headers fName buff m = Some (length (header_lines i j), m') \<and>
        cstr m' buff (header_lines i j) \<and> same_outside buff (length (header_lines i j) + 1) m m'"
proof (cases "header_of fName")
  case None
  then show ?thesis by (simp add: get_http_headers_cases)
next
  case (Some h)
  obtain i j where h: "h = (i, j)" by (cases h)
  note ij = header_of_index [OF Some [unfolded h]]
  obtain m1 m' where "strcat buff (g_psHTTPHeaderStrings ! HTTP_HDR_SERVER) (strcpy buff (g_psHTTPHeaderStrings ! i) m) = Some m1"
    "strcat buff (g_psHTTPHeaderStrings ! j) m1 = Some m'" "strlen buff 0 m' = Some (length (header_lines i j))"
    "cstr m' buff (header_lines i j)" "same_outside buff (length (header_lines i j) + 1) m m'"
    by (rule copy_lines [OF assms [OF Some [unfolded h]] ij [THEN conjunct1] ij [THEN conjunct2], of m])
  then show ?thesis using Some h by (simp add: get_http_headers_cases)
qed

text \<open>The error page in a buffer of 1024 bytes.\<close>

lemma not_found_header:
  assumes "fb \<noteq> 0" "unat fb + 1024 \<le> 2 ^ 32"
  obtains m' where "GetHTTP_Header None fb m = Some (length not_found_page, m')" "bytes m' fb (length not_found_page) = not_found_page"
    "same_outside fb 1024 m m'"
proof -
  have h: "header_of None = Some (HTTP_HDR_NOT_FOUND, DEFAULT_404_HTML)" by (simp add: header_of_def)
  have l: "length not_found_page \<le> 288" unfolding not_found_page_def by (rule header_lines_length) simp_all
  then have "fits_at fb not_found_page" using assms by (simp add: fits_at_def)
  then obtain m' where m': "get_http_headers None fb m = Some (length not_found_page, m')" "cstr m' fb not_found_page"
    "same_outside fb (length not_found_page + 1) m m'"
    using get_http_headers_text [of None fb m] unfolding h not_found_page_def by auto
  have "same_outside fb 1024 m m'" by (rule same_outside_trans [OF same_outside_refl m'(3)]) (use l in simp_all)
  then show thesis using that m'(1) cstr_bytes [OF m'(2)] by (simp add: GetHTTP_Header_def)
qed

text \<open>
  The headers that the code copies without a check fit their buffers: the scratch sector of a file
  descriptor, also with the default page behind them, and the server's file buffer.
\<close>

theorem default_page_fits:
  assumes "fds \<noteq> 0" "unat fds + SECTOR_SZ < 2 ^ 32"
  shows "\<exists>f m'. fs_open_default fds m = Some (Some (fds, f), m') \<and> fs_len f \<le> SECTOR_SZ \<and>
    bytes m' fds (fs_len f) = header_lines HTTP_HDR_OK HTTP_HDR_HTML @ http_index_html_fs \<and> same_outside fds SECTOR_SZ m m'"
proof -
  let ?h = "header_lines HTTP_HDR_OK HTTP_HDR_HTML" and ?m = "put_bytes fds (replicate SECTOR_SZ 0) m"
  have h: "header_of (Some (ascii ''default.htm'')) = Some (HTTP_HDR_OK, HTTP_HDR_HTML)"
    by (simp add: header_of_def ascii_def of_char_def g_psHTTPHeaders_def)
  have l: "length ?h \<le> 288" "length http_index_html_fs \<le> 200"
    by (rule header_lines_length, simp_all add: http_index_html_fs_def ascii_def)
  have f: "fits_at fds ?h" using assms l(1) by (simp add: fits_at_def)
  obtain m1 where m1: "get_http_headers (Some (ascii ''default.htm'')) fds ?m = Some (length ?h, m1)" "cstr m1 fds ?h"
    "same_outside fds (length ?h + 1) ?m m1"
    using get_http_headers_text [of "Some (ascii ''default.htm'')" fds ?m] f unfolding h by auto
  let ?b = "fds + of_nat (length ?h)"
  have ub: "unat ?b = unat fds + length ?h" using fits_at_offset(1) [OF f, of "length ?h"] by simp
  have fb: "unat ?b + length http_index_html_fs \<le> 2 ^ 32" using ub l assms(2) by linarith
  define m' where "m' = put_bytes ?b http_index_html_fs m1"
  note o = put_bytes_outside [OF fb, of m1, folded m'_def]
  have "bytes m' fds (length ?h) = ?h"
    using bytes_outside [OF o, of fds "length ?h"] ub cstr_bytes [OF m1(2)] f by (simp add: fits_at_def)
  moreover have "bytes m' ?b (length http_index_html_fs) = http_index_html_fs" unfolding m'_def by (rule bytes_put [OF fb])
  ultimately have "bytes m' fds (length ?h + length http_index_html_fs) = ?h @ http_index_html_fs" by (simp add: bytes_append)
  moreover have "unat fds + length (replicate SECTOR_SZ (0 :: u8)) \<le> 2 ^ 32" using assms(2) by simp
  from put_bytes_outside [OF this, of m] have "same_outside fds SECTOR_SZ m ?m" by simp
  then have "same_outside fds SECTOR_SZ m m1" by (rule same_outside_trans [OF _ m1(3)]) (use l in simp_all)
  then have "same_outside fds SECTOR_SZ m m'" by (rule same_outside_trans [OF _ o]) (use ub l in simp_all)
  ultimately show ?thesis using assms(1) m1(1) l by (auto simp: fs_open_default_def Let_def m'_def)
qed

end
