(* ===== verification/Http_Server.thy ===== *)
theory Http_Server
  imports Http_Files "HOL-Library.Sublist"
begin

text \<open>
  The web server, \<^verbatim>\<open>src/netconn_fs.c\<close>: a thread that accepts one connection after the other and serves
  each. The request is split in place, in the memory of the packet.
\<close>

section \<open>Strings in memory\<close>

text \<open>\<open>strstr\<close> of a line end.\<close>

partial_function (option) strstr_CRLF :: "u32 \<Rightarrow> (u32 \<Rightarrow> u8) \<Rightarrow> u32 option" where
  "strstr_CRLF a m = (if m a = CR \<and> m (a + 1) = LF then Some a else if m a = 0 then Some 0 else strstr_CRLF (a + 1) m)"

section \<open>The server\<close>

text \<open>
  What a connection sees of the server. The calls of the netconn interface are logged; \<open>Free\<close> is the
  release of a file descriptor.
\<close>

datatype net_event = Netconn_write "u8 list" | Netconn_close | Netbuf_delete | Netconn_delete | Free u32

definition http_html_hdr :: "u8 list" where
  "http_html_hdr = ascii ''HTTP/1.1 200 OK'' @ [CR, LF] @ ascii ''Content-type: text/html'' @ [CR, LF, CR, LF]"

definition http_index_html :: "u8 list" where
  "http_index_html = ascii ''<html><head><title>Congrats!</title></head><body><h1>Welcome to our lwIP HTTP server!</h1><p>This is a small test page, served by httpserver-netconn.</body></html>''"

definition supported_method :: "u32 \<Rightarrow> (u32 \<Rightarrow> u8) \<Rightarrow> bool" where
  "supported_method meth m =
    (if starts_with (ascii ''GET'') meth m then True
     else if starts_with (ascii ''POST'') meth m then True
     else False)"

text \<open>
  A file is sent through the static array \<open>file_buffer\<close>, whose address is an argument. What \<open>netconn_write\<close> is given is
  logged with the bytes that the memory holds at the call.
\<close>

partial_function (option) send_file :: "u32 \<Rightarrow> u32 \<times> fs_file \<Rightarrow> net_event list \<Rightarrow> (u32 \<Rightarrow> u8) \<Rightarrow> (net_event list \<times> (u32 \<Rightarrow> u8)) option" where
  "send_file file_buffer fs ev m =
    (let r = fs_read fs file_buffer 1024 m; len = fst r; m = snd r
     in if 0 < len then send_file file_buffer fs (ev @ [Netconn_write (bytes m file_buffer len)]) m else Some (ev, m))"

text \<open>
  \<open>http_server_netconn_serve\<close>, in the order of the code. The first part splits the request in place and
  leaves the address of the path, or \<open>None\<close> for a request that is dropped; the version that
  \<open>get_version\<close> reads is only printed. The name in \<open>fs_open(buf)\<close> is not read (there is no file system).
\<close>

definition parse_request :: "u32 \<Rightarrow> u16 \<Rightarrow> (u32 \<Rightarrow> u8) \<Rightarrow> (u32 option \<times> (u32 \<Rightarrow> u8)) option" where
  "parse_request buf buflen m =
    (if buflen < 5 then Some (None, m)
     else do {
       crlf \<leftarrow> strstr_CRLF buf m;
       if crlf = 0 then Some (None, m)
       else do {
         tbuf \<leftarrow> strchr buf SP m;
         if tbuf = 0 then Some (None, m)
         else do {
           let m = m(tbuf := 0);
           if \<not> supported_method buf m then Some (None, m)
           else do {
             let buf = tbuf + 1;
             tbuf \<leftarrow> strchr buf SP m;
             let m = (if tbuf = 0 then m else m(tbuf := 0));
             tbuf \<leftarrow> strchr buf QM m;
             let m = (if tbuf = 0 then m else m(tbuf := 0));
             Some (Some buf, m) } } } })"

definition send_reply :: "u32 \<Rightarrow> u32 \<Rightarrow> (u32 \<Rightarrow> u8) \<Rightarrow> ((u32 \<times> fs_file) option \<times> net_event list \<times> (u32 \<Rightarrow> u8)) option" where
  "send_reply file_buffer buf m = do {
     len \<leftarrow> strlen buf 0 m;
     let home = (len = 1 \<and> m buf = SLASH);
     let fs = (if home then (case fs_open (ascii ''/index.htm'') of None \<Rightarrow> fs_open (ascii ''/index.html'') | Some f \<Rightarrow> Some f)
               else fs_open (bytes m buf len));
     case fs of
       None \<Rightarrow>
         if home then Some (None, [Netconn_write http_html_hdr, Netconn_write http_index_html], m)
         else do {
           (len, m) \<leftarrow> GetHTTP_Header None file_buffer m;
           Some (None, [Netconn_write (bytes m file_buffer len)], m) }
     | Some f \<Rightarrow> do {
         (ev, m) \<leftarrow> send_file file_buffer f
           (if http_header_included (snd f) then [Netconn_write (bytes m (fs_data (snd f)) (fs_index (snd f)))] else []) m;
         Some (Some f, ev, m) } }"

definition http_server_netconn_serve ::
  "u32 \<Rightarrow> int \<Rightarrow> u32 \<Rightarrow> u16 \<Rightarrow> (u32 \<Rightarrow> u8) \<Rightarrow> (net_event list \<times> (u32 \<Rightarrow> u8)) option" where
  "http_server_netconn_serve file_buffer err buf buflen m =
    (if err \<noteq> 0 then Some ([], m)
     else do {
       (path, m) \<leftarrow> parse_request buf buflen m;
       (fs, ev, m) \<leftarrow> (case path of None \<Rightarrow> Some (None, [], m) | Some buf \<Rightarrow> send_reply file_buffer buf m);
       Some (ev @ map Free (fs_close fs) @ [Netconn_close, Netbuf_delete], m) })"

text \<open>
  The server's thread. What \<open>netconn_accept\<close> returns in turn is a list: an error, or a connection, given by
  what \<open>netconn_recv\<close> and \<open>netbuf_data\<close> do, which may write to the memory the thread has left: an error code, the address
  and length of the request, and the memory afterwards. When the list is used up the thread is
  \<open>Waiting\<close> in \<open>netconn_accept\<close>; only an error makes it return.
\<close>

type_synonym request = "(u32 \<Rightarrow> u8) \<Rightarrow> int \<times> u32 \<times> u16 \<times> (u32 \<Rightarrow> u8)"

datatype accept_result = Accept_err int | Accept_ok request

datatype server_event = Bind nat | Listen | Conn "net_event list" | Close_server | Delete_server

datatype thread_state = Waiting | Returned

fun accept_loop :: "u32 \<Rightarrow> accept_result list \<Rightarrow> (u32 \<Rightarrow> u8) \<Rightarrow> (thread_state \<times> server_event list \<times> (u32 \<Rightarrow> u8)) option" where
  "accept_loop file_buffer [] m = Some (Waiting, [], m)"
| "accept_loop file_buffer (Accept_err e # rs) m = Some (Returned, [Close_server, Delete_server], m)"
| "accept_loop file_buffer (Accept_ok recv # rs) m = do {
     let (err, buf, buflen, m) = recv m;
     (ev, m) \<leftarrow> http_server_netconn_serve file_buffer err buf buflen m;
     (st, es, m) \<leftarrow> accept_loop file_buffer rs m;
     Some (st, Conn (ev @ [Netconn_delete]) # es, m) }"

definition http_server_netconn_thread ::
  "u32 \<Rightarrow> bool \<Rightarrow> accept_result list \<Rightarrow> (u32 \<Rightarrow> u8) \<Rightarrow> (thread_state \<times> server_event list \<times> (u32 \<Rightarrow> u8)) option" where
  "http_server_netconn_thread file_buffer conn_ok rs m =
    (if \<not> conn_ok then Some (Returned, [], m)
     else do { (st, es, m) \<leftarrow> accept_loop file_buffer rs m; Some (st, Bind 80 # Listen # es, m) })"

lemmas http_loops_code [code] = strstr_CRLF.simps send_file.simps

section \<open>Searching and cutting strings\<close>

text \<open>A request line is complete when the text holds a line end.\<close>

fun has_CRLF :: "u8 list \<Rightarrow> bool" where
  "has_CRLF (c # d # t) \<longleftrightarrow> c = CR \<and> d = LF \<or> has_CRLF (d # t)"
| "has_CRLF [] \<longleftrightarrow> False"
| "has_CRLF [c] \<longleftrightarrow> False"

lemma strstr_CRLF_cstr:
  assumes "cstr m a t" "fits_at a t"
  shows "\<exists>p. strstr_CRLF a m = Some p \<and> (p \<noteq> 0 \<longleftrightarrow> has_CRLF t)"
  using assms
proof (induction t arbitrary: a rule: has_CRLF.induct)
  case (1 c d t)
  note p = fits_at_Cons [OF "1.prems"(2)]
  show ?case
  proof (cases "c = CR \<and> d = LF")
    case True
    then have "strstr_CRLF a m = Some a" using "1.prems" by (subst strstr_CRLF.simps) auto
    then show ?thesis using True "1.prems"(2) by (auto simp: fits_at_def)
  next
    case False
    then have "strstr_CRLF a m = strstr_CRLF (a + 1) m" using "1.prems" by (subst strstr_CRLF.simps) auto
    then show ?thesis using "1.IH" [of "a + 1"] "1.prems" p False by auto
  qed
next
  case 2
  then show ?case by (subst strstr_CRLF.simps) auto
next
  case (3 c)
  then have "strstr_CRLF a m = strstr_CRLF (a + 1) m" "m (a + 1) = 0"
    by (subst strstr_CRLF.simps, auto)
  moreover then have "strstr_CRLF (a + 1) m = Some 0" by (subst strstr_CRLF.simps) auto
  ultimately show ?case by simp
qed

text \<open>Writing a 0 into a string cuts it in two.\<close>

lemma bytes_upd_other:
  assumes "\<And>i. i < n \<Longrightarrow> a + of_nat i \<noteq> b"
  shows "bytes (m(b := v)) a n = bytes m a n"
  using assms by (auto simp: bytes_def)

lemma cstr_cut:
  assumes c: "cstr m a (s @ x # t)" and f: "fits_at a (s @ x # t)"
  shows "cstr (m(a + of_nat (length s) := 0)) a s"
    "cstr (m(a + of_nat (length s) := 0)) (a + of_nat (length s) + 1) t"
    "fits_at (a + of_nat (length s) + 1) t"
proof -
  let ?b = "a + of_nat (length s)"
  have off: "unat (a + of_nat i) = unat a + i" if "i \<le> length (s @ x # t)" for i
    using fits_at_offset(1) [OF f that] .
  have ne: "a + of_nat i \<noteq> ?b" if "i \<le> length (s @ x # t)" "i \<noteq> length s" for i
  proof
    assume "a + of_nat i = ?b"
    then have "unat (a + of_nat i) = unat ?b" by simp
    then show False using off [OF that(1)] off [of "length s"] that(2) by simp
  qed
  have l: "bytes (m(?b := 0)) a (length s) = bytes m a (length s)" by (rule bytes_upd_other, rule ne) simp_all
  have c': "0 \<notin> set s" "bytes m a (length s) = s" "cstr m (?b + 1) t" using c by (simp_all add: cstr_append)
  show "cstr (m(?b := 0)) a s" using c' l by (simp add: cstr_iff)
  have k: "?b + 1 + of_nat i = a + of_nat (length s + 1 + i)" for i by (simp add: algebra_simps)
  have "?b + 1 + of_nat i \<noteq> ?b" if "i \<le> length t" for i
    unfolding k using ne [of "length s + 1 + i"] that by simp
  then have "bytes (m(?b := 0)) (?b + 1) (length t) = bytes m (?b + 1) (length t)"
    "(m(?b := 0)) (?b + 1 + of_nat (length t)) = m (?b + 1 + of_nat (length t))"
    by (auto intro: bytes_upd_other)
  then show "cstr (m(?b := 0)) (?b + 1) t" using c'(3) by (simp only: cstr_iff) simp
  show "fits_at (?b + 1) t" using fits_at_Cons [OF fits_at_suffix [OF f]] by simp
qed

section \<open>The reply to a request\<close>

text \<open>
  What the server writes for the text of a request: nothing unless it holds a line end and begins
  with a method (a word that starts with \<open>GET\<close> or \<open>POST\<close>), the home page for the path \<open>/\<close>, and the
  error page for any other path. The path ends at the next space, arguments behind a question mark
  do not belong to it.
\<close>

definition method_of :: "u8 list \<Rightarrow> u8 list" where
  "method_of t = takeWhile (\<lambda>c. c \<noteq> SP) t"

definition path_of :: "u8 list \<Rightarrow> u8 list" where
  "path_of t = takeWhile (\<lambda>c. c \<noteq> SP \<and> c \<noteq> QM) (drop (length (method_of t) + 1) t)"

definition reply :: "u8 list \<Rightarrow> u8 list list" where
  "reply t =
    (if \<not> has_CRLF t \<or> SP \<notin> set t
       \<or> \<not> (prefix (ascii ''GET'') (method_of t) \<or> prefix (ascii ''POST'') (method_of t)) then []
     else if path_of t = [SLASH] then [http_html_hdr, http_index_html]
     else [not_found_page])"

lemma prefix_take: "prefix w t \<longleftrightarrow> take (length w) t = w"
  by (metis append_eq_conv_conj prefixE prefixI append_take_drop_id)

lemma split_first:
  assumes "c \<in> set t"
  shows "t = takeWhile (\<lambda>x. x \<noteq> c) t @ c # drop (length (takeWhile (\<lambda>x. x \<noteq> c) t) + 1) t"
proof -
  have "dropWhile (\<lambda>x. x \<noteq> c) t \<noteq> []" using assms by (simp add: dropWhile_eq_Nil_conv)
  then obtain u where u: "dropWhile (\<lambda>x. x \<noteq> c) t = c # u" using hd_dropWhile by (metis (mono_tags, lifting) list.exhaust_sel)
  have t: "t = takeWhile (\<lambda>x. x \<noteq> c) t @ c # u" using u takeWhile_dropWhile_id by metis
  moreover have "drop (length (takeWhile (\<lambda>x. x \<noteq> c) t) + 1) t = u" by (subst (2) t) simp
  ultimately show ?thesis by simp
qed

text \<open>The cut at a position that \<open>strchr\<close> returned.\<close>

abbreviation (input) cut :: "u32 \<Rightarrow> (u32 \<Rightarrow> u8) \<Rightarrow> u32 \<Rightarrow> u8" where
  "cut p m \<equiv> (if p = 0 then m else m(p := 0))"

lemma strchr_split:
  assumes c: "cstr m a t" "fits_at a t" "c \<noteq> 0" and t: "c \<in> set t"
  defines "s \<equiv> takeWhile (\<lambda>x. x \<noteq> c) t"
  defines "p \<equiv> a + of_nat (length s)"
  shows "strchr a c m = Some p" "p \<noteq> 0" "unat p = unat a + length s" "length s < length t"
    "cstr (m(p := 0)) a s" "cstr (m(p := 0)) (p + 1) (drop (length s + 1) t)" "fits_at (p + 1) (drop (length s + 1) t)"
proof -
  let ?u = "drop (length s + 1) t"
  have t': "t = s @ c # ?u" using split_first [OF t] unfolding s_def .
  show l: "length s < length t" using arg_cong [OF t', of length] by simp
  show "unat p = unat a + length s" "p \<noteq> 0"
    using fits_at_offset [OF c(2), of "length s"] l by (simp_all add: p_def)
  show "strchr a c m = Some p" using t strchr_cstr [OF c(1) c(3)] by (simp add: p_def s_def)
  show "cstr (m(p := 0)) a s" "cstr (m(p := 0)) (p + 1) ?u" "fits_at (p + 1) ?u"
    using cstr_cut [of m a s c ?u] c t' unfolding p_def by metis+
qed

lemma strchr_cut:
  assumes c: "cstr m a t" "fits_at a t" "c \<noteq> 0"
  shows "\<exists>p. strchr a c m = Some p \<and> cstr (cut p m) a (takeWhile (\<lambda>x. x \<noteq> c) t)
    \<and> (p \<noteq> 0 \<longrightarrow> unat a \<le> unat p \<and> unat p < unat a + length t)"
proof (cases "c \<in> set t")
  case False
  then have tw: "takeWhile (\<lambda>x. x \<noteq> c) t = t" by (auto simp: takeWhile_eq_all_conv)
  have "strchr a c m = Some 0" using False strchr_cstr [OF c(1) c(3)] by simp
  then show ?thesis using c(1) by (simp add: tw)
next
  case True
  show ?thesis using strchr_split [OF c True] by auto
qed

lemma same_outside_cut:
  assumes "same_outside a n m m'" "q \<noteq> 0 \<Longrightarrow> unat a \<le> unat q \<and> unat q < unat a + n"
  shows "same_outside a n m (cut q m')"
  using assms by (cases "q = 0") (auto intro: same_outside_upd)

lemma supported_method_cstr:
  assumes "cstr m a t"
  shows "supported_method a m \<longleftrightarrow> prefix (ascii ''GET'') t \<or> prefix (ascii ''POST'') t"
proof -
  have "0 \<notin> set (ascii ''GET'')" "0 \<notin> set (ascii ''POST'')" by (simp_all add: ascii_def of_char_def)
  then show ?thesis using starts_with_cstr [OF assms] by (auto simp: supported_method_def prefix_take)
qed

lemma takeWhile_both: "takeWhile Q (takeWhile P xs) = takeWhile (\<lambda>x. P x \<and> Q x) xs"
  by (simp add: takeWhile_takeWhile conj_commute)

text \<open>The two cuts of the part behind the method.\<close>

lemma cut_path:
  assumes c: "cstr m a r" "fits_at a r"
  obtains p q where "strchr a SP m = Some p" "strchr a QM (cut p m) = Some q"
    "cstr (cut q (cut p m)) a (takeWhile (\<lambda>x. x \<noteq> SP \<and> x \<noteq> QM) r)"
    "same_outside a (length r) m (cut q (cut p m))"
proof -
  let ?s = "takeWhile (\<lambda>x. x \<noteq> SP) r"
  obtain p where p: "strchr a SP m = Some p" "cstr (cut p m) a ?s"
    "p \<noteq> 0 \<Longrightarrow> unat a \<le> unat p \<and> unat p < unat a + length r"
    using strchr_cut [OF c, of SP] by auto
  have l: "length ?s \<le> length r" by (rule length_takeWhile_le)
  have f: "fits_at a ?s" using c(2) l by (simp add: fits_at_def)
  obtain q where q: "strchr a QM (cut p m) = Some q" "cstr (cut q (cut p m)) a (takeWhile (\<lambda>x. x \<noteq> QM) ?s)"
    "q \<noteq> 0 \<Longrightarrow> unat a \<le> unat q \<and> unat q < unat a + length ?s"
    using strchr_cut [OF p(2) f, of QM] by auto
  have "same_outside a (length r) m (cut p m)" using same_outside_cut [OF same_outside_refl p(3)] .
  then have "same_outside a (length r) m (cut q (cut p m))"
    by (rule same_outside_cut) (use q(3) l in linarith)
  then show thesis using that [OF p(1) q(1)] q(2) by (simp only: takeWhile_both)
qed

text \<open>The requests that get an answer.\<close>

definition answered :: "u8 list \<Rightarrow> bool" where
  "answered t \<longleftrightarrow> has_CRLF t \<and> SP \<in> set t
     \<and> (prefix (ascii ''GET'') (method_of t) \<or> prefix (ascii ''POST'') (method_of t))"

lemma parse_request_supported:
  assumes c: "cstr m buf t" "fits_at buf t" and n: "5 \<le> buflen" and t: "has_CRLF t" "SP \<in> set t"
  obtains p m' where "parse_request buf buflen m = Some (p, m')" "same_outside buf (length t) m m'"
    "p = None \<longleftrightarrow> \<not> answered t" "\<And>q. p = Some q \<Longrightarrow> cstr m' q (path_of t)"
proof -
  let ?r = "drop (length (method_of t) + 1) t"
  have n': "\<not> buflen < 5" using n by simp
  obtain e where e: "strstr_CRLF buf m = Some e" "e \<noteq> 0" using strstr_CRLF_cstr [OF c] t(1) by blast
  obtain b where b: "strchr buf SP m = Some b" "b \<noteq> 0" "unat b = unat buf + length (method_of t)"
    "length (method_of t) < length t" "cstr (m(b := 0)) buf (method_of t)"
    "cstr (m(b := 0)) (b + 1) ?r" "fits_at (b + 1) ?r"
    using strchr_split [OF c _ t(2)] unfolding method_of_def by simp
  have o1: "same_outside buf (length t) m (m(b := 0))" using b(3,4) by (simp add: same_outside_upd)
  have sup: "supported_method buf (m(b := 0)) \<longleftrightarrow> answered t"
    using supported_method_cstr [OF b(5)] t by (simp add: answered_def)
  show thesis
  proof (cases "answered t")
    case False
    then have "parse_request buf buflen m = Some (None, m(b := 0))"
      using n' e b(1,2) sup by (simp add: parse_request_def Let_def)
    then show thesis using that [of None "m(b := 0)"] o1 False by simp
  next
    case True
    obtain p q where pq: "strchr (b + 1) SP (m(b := 0)) = Some p" "strchr (b + 1) QM (cut p (m(b := 0))) = Some q"
      "cstr (cut q (cut p (m(b := 0)))) (b + 1) (path_of t)"
      "same_outside (b + 1) (length ?r) (m(b := 0)) (cut q (cut p (m(b := 0))))"
      unfolding path_of_def by (rule cut_path [OF b(6,7)])
    have "unat (b + 1) = unat b + 1" using c(2) b(3,4) by (simp add: fits_at_def unat_word_ariths)
    then have o2: "same_outside buf (length t) m (cut q (cut p (m(b := 0))))"
      using same_outside_trans [OF o1 pq(4)] b(3,4) by simp
    have "parse_request buf buflen m = Some (Some (b + 1), cut q (cut p (m(b := 0))))"
      using n' e b(1,2) sup True pq(1,2) by (simp add: parse_request_def Let_def)
    then show thesis by (rule that [OF _ o2]) (use True pq(3) in simp_all)
  qed
qed

lemma parse_request_cstr:
  assumes c: "cstr m buf t" "fits_at buf t" and n: "5 \<le> buflen"
  obtains p m' where "parse_request buf buflen m = Some (p, m')" "same_outside buf (length t) m m'"
    "p = None \<longleftrightarrow> \<not> answered t" "\<And>q. p = Some q \<Longrightarrow> cstr m' q (path_of t)"
proof (cases "has_CRLF t \<and> SP \<in> set t")
  case True
  then show thesis using parse_request_supported [OF c n] that by blast
next
  case False
  obtain e where e: "strstr_CRLF buf m = Some e" "e \<noteq> 0 \<longleftrightarrow> has_CRLF t" using strstr_CRLF_cstr [OF c] by blast
  have b: "SP \<notin> set t \<Longrightarrow> strchr buf SP m = Some 0" using strchr_cstr [OF c(1), of SP] by simp
  have "\<not> answered t" using False by (auto simp: answered_def)
  moreover have "\<not> buflen < 5" using n by simp
  then have "parse_request buf buflen m = Some (None, m)" using False e b by (auto simp: parse_request_def)
  ultimately show thesis using that [of None m] by simp
qed

text \<open>The buffer of the server: 1024 bytes that do not wrap around the address space.\<close>

definition file_buffer_at :: "u32 \<Rightarrow> bool" where
  "file_buffer_at fb \<longleftrightarrow> fb \<noteq> 0 \<and> unat fb + 1024 \<le> 2 ^ 32"

lemma send_reply_cstr:
  assumes "cstr m p s" "file_buffer_at fb"
  obtains m' where "send_reply fb p m = Some (None, if s = [SLASH] then [Netconn_write http_html_hdr, Netconn_write http_index_html]
      else [Netconn_write not_found_page], m')" "s = [SLASH] \<longrightarrow> m' = m" "same_outside fb 1024 m m'"
proof -
  have home: "length s = 1 \<and> m p = SLASH \<longleftrightarrow> s = [SLASH]" using assms(1) by (cases s) auto
  show thesis
  proof (cases "s = [SLASH]")
    case True
    then show thesis using that [of m] home strlen_cstr [OF assms(1), of 0] by (simp add: send_reply_def fs_open_def Let_def)
  next
    case False
    obtain m' where "GetHTTP_Header None fb m = Some (length not_found_page, m')" "bytes m' fb (length not_found_page) = not_found_page"
      "same_outside fb 1024 m m'" using not_found_header [of fb m] assms(2) by (auto simp: file_buffer_at_def)
    then show thesis using that [of m'] False home strlen_cstr [OF assms(1), of 0] by (auto simp: send_reply_def fs_open_def Let_def)
  qed
qed

lemma reply_answered:
  "reply t = (if \<not> answered t then [] else if path_of t = [SLASH] then [http_html_hdr, http_index_html] else [not_found_page])"
  by (auto simp: reply_def answered_def)

text \<open>
  The memory that serving may change: the text of the request and, when the error page is the
  reply, the file buffer.
\<close>

definition kept :: "u32 \<Rightarrow> u32 \<Rightarrow> u8 list \<Rightarrow> (u32 \<Rightarrow> u8) \<Rightarrow> (u32 \<Rightarrow> u8) \<Rightarrow> bool" where
  "kept fb buf t m m' \<longleftrightarrow> (\<forall>b. \<not> (unat buf \<le> unat b \<and> unat b < unat buf + length t) \<longrightarrow>
     \<not> (reply t = [not_found_page] \<and> unat fb \<le> unat b \<and> unat b < unat fb + 1024) \<longrightarrow> m' b = m b)"

lemma serve_cstr:
  assumes "cstr m buf t" "fits_at buf t" "5 \<le> buflen" "file_buffer_at fb"
  obtains m' where "http_server_netconn_serve fb 0 buf buflen m
      = Some (map Netconn_write (reply t) @ [Netconn_close, Netbuf_delete], m')" "kept fb buf t m m'"
proof -
  obtain p m1 where p: "parse_request buf buflen m = Some (p, m1)" "same_outside buf (length t) m m1"
    "p = None \<longleftrightarrow> \<not> answered t" "\<And>q. p = Some q \<Longrightarrow> cstr m1 q (path_of t)"
    using parse_request_cstr [OF assms(1-3)] by blast
  show thesis
  proof (cases p)
    case None
    have "kept fb buf t m m1" using p(2) by (auto simp: kept_def same_outside_def)
    moreover have "http_server_netconn_serve fb 0 buf buflen m = Some (map Netconn_write (reply t) @ [Netconn_close, Netbuf_delete], m1)"
      using None p(1,3) by (simp add: http_server_netconn_serve_def fs_close_def reply_answered)
    ultimately show thesis using that by blast
  next
    case (Some q)
    obtain m' where m': "send_reply fb q m1 = Some (None, if path_of t = [SLASH] then [Netconn_write http_html_hdr, Netconn_write http_index_html]
      else [Netconn_write not_found_page], m')" "path_of t = [SLASH] \<longrightarrow> m' = m1" "same_outside fb 1024 m1 m'"
      by (rule send_reply_cstr [OF p(4) [OF Some] assms(4)])
    have a: "answered t" using p(3) Some by simp
    have "kept fb buf t m m'"
      using p(2) m'(2,3) a by (cases "path_of t = [SLASH]") (auto simp: kept_def same_outside_def reply_answered)
    moreover have "http_server_netconn_serve fb 0 buf buflen m = Some (map Netconn_write (reply t) @ [Netconn_close, Netbuf_delete], m')"
      using Some p(1) a m'(1) by (simp add: http_server_netconn_serve_def fs_close_def reply_answered)
    ultimately show thesis using that by blast
  qed
qed

lemma serve_short: "buflen < 5 \<Longrightarrow> http_server_netconn_serve fb 0 buf buflen m = Some ([Netconn_close, Netbuf_delete], m)"
  by (simp add: http_server_netconn_serve_def parse_request_def fs_close_def)

definition served :: "u16 \<Rightarrow> u8 list \<Rightarrow> net_event list" where
  "served buflen t = map Netconn_write (if buflen < 5 then [] else reply t) @ [Netconn_close, Netbuf_delete]"

lemma serve_any:
  assumes "cstr m buf t" "fits_at buf t" "file_buffer_at fb"
  shows "\<exists>m'. http_server_netconn_serve fb 0 buf buflen m = Some (served buflen t, m') \<and> kept fb buf t m m'"
proof (cases "buflen < 5")
  case True
  then show ?thesis using serve_short [OF True, of fb buf m] by (intro exI [of _ m]) (simp add: served_def kept_def)
next
  case False
  then have "5 \<le> buflen" by simp
  then show ?thesis using serve_cstr [OF assms(1,2) _ assms(3)] False by (auto simp: served_def)
qed

text \<open>
  C39. For every request text that the memory holds as a string from \<open>buf\<close> on, wherever the server's static
  \<open>file_buffer\<close> of 1024 bytes is, serving the connection returns. It writes exactly the reply to the text
  (nothing if the buffer has fewer than 5 bytes), then closes the connection and deletes the buffer,
  once each. No memory is changed but the text and, when the reply is the error page, the file buffer.
  After a failed receive it does nothing, and closes nothing.
\<close>

theorem serve_replies:
  assumes "cstr m buf t" "fits_at buf t" "file_buffer_at fb"
  shows "(\<exists>m'. http_server_netconn_serve fb 0 buf buflen m
        = Some (map Netconn_write (if buflen < 5 then [] else reply t) @ [Netconn_close, Netbuf_delete], m')
        \<and> kept fb buf t m m')
    \<and> (err \<noteq> 0 \<longrightarrow> http_server_netconn_serve fb err buf buflen m = Some ([], m))"
  using serve_any [OF assms, of buflen] by (simp add: served_def http_server_netconn_serve_def [of fb err])

text \<open>A memory that holds nothing but a text at an address.\<close>

definition place :: "u32 \<Rightarrow> u8 list \<Rightarrow> u32 \<Rightarrow> u8" where
  "place a t b = (if unat (b - a) < length t then t ! unat (b - a) else 0)"

definition home_request :: "u8 list" where
  "home_request = ascii ''GET /?x=1 HTTP/1.1'' @ [CR, LF]"

definition login_request :: "u8 list" where
  "login_request = ascii ''POST /login HTTP/1.0'' @ [CR, LF]"

lemma cstr_place:
  assumes t: "0 \<notin> set t" and f: "fits_at a t"
  shows "cstr (place a t) a t"
proof -
  have "unat (of_nat i :: u32) = i" if "i \<le> length t" for i
    using f that by (simp add: fits_at_def unat_of_nat)
  then have "place a t (a + of_nat i) = (if i < length t then t ! i else 0)" if "i \<le> length t" for i
    using that by (simp add: place_def)
  then have "bytes (place a t) a (length t) = t" "place a t (a + of_nat (length t)) = 0"
    by (auto simp: bytes_def intro: nth_equalityI)
  then show ?thesis using t by (simp add: cstr_iff)
qed

lemma home_request_at: "cstr (place 0x1000 home_request) 0x1000 home_request" "fits_at 0x1000 home_request"
  by (rule cstr_place, simp_all add: fits_at_def home_request_def ascii_def of_char_def)

lemma login_request_at: "cstr (place 0x2000 login_request) 0x2000 login_request" "fits_at 0x2000 login_request"
  by (rule cstr_place, simp_all add: fits_at_def login_request_def ascii_def of_char_def)

lemma replies_example: "reply home_request = [http_html_hdr, http_index_html]" "reply login_request = [not_found_page]"
  by (simp_all add: reply_def method_of_def path_of_def home_request_def login_request_def ascii_def of_char_def)

theorem serve_replies_witness:
  "\<exists>m'. http_server_netconn_serve 0x8000 0 0x2000 22 (place 0x2000 login_request)
     = Some ([Netconn_write not_found_page, Netconn_close, Netbuf_delete], m') \<and> kept 0x8000 0x2000 login_request (place 0x2000 login_request) m'"
proof -
  have "file_buffer_at 0x8000" by (simp add: file_buffer_at_def)
  from serve_replies [OF login_request_at this, of 22 0] show ?thesis by (auto simp: replies_example)
qed

text \<open>
  The request text is a string only if a 0 byte follows the packet, which nothing in the receive path
  puts there. Without it the search for the space runs on: here the packet has 6 bytes, and the
  byte behind it is overwritten.
\<close>

theorem serve_writes_behind_packet:
  "let t = ascii ''PUT/'' @ [CR, LF]; m = (place 0x1000 (t @ [SP]))
   in m 0x1006 = SP \<and> (case http_server_netconn_serve 0x8000 0 0x1000 6 m of Some (_, m') \<Rightarrow> m' 0x1006 = 0 | None \<Rightarrow> False)"
  by code_simp

text \<open>What a connection brings: a failed receive, or a request text with its length.\<close>

definition brings :: "request \<Rightarrow> (u16 \<times> u8 list) option \<Rightarrow> bool" where
  "brings recv o' \<longleftrightarrow> (\<forall>m. case o' of
     None \<Rightarrow> \<exists>e buf n m'. recv m = (e, buf, n, m') \<and> e \<noteq> 0
   | Some (n, t) \<Rightarrow> \<exists>buf m'. recv m = (0, buf, n, m') \<and> cstr m' buf t \<and> fits_at buf t)"

definition conn_events :: "(u16 \<times> u8 list) option \<Rightarrow> net_event list" where
  "conn_events o' = (case o' of None \<Rightarrow> [Netconn_delete] | Some (n, t) \<Rightarrow> served n t @ [Netconn_delete])"

lemma accept_one:
  assumes "brings recv o'" "file_buffer_at fb"
  shows "\<exists>m'. accept_loop fb (Accept_ok recv # rs) m = do {
    (st, es, m) \<leftarrow> accept_loop fb rs m';
    Some (st, Conn (conn_events o') # es, m) }"
proof (cases o')
  case None
  then obtain e buf n m1 where "recv m = (e, buf, n, m1)" "e \<noteq> 0"
    using spec [OF assms(1) [unfolded brings_def], of m] by (simp only: option.case) (elim exE conjE, rule that)
  then show ?thesis using None by (intro exI [of _ m1]) (simp add: http_server_netconn_serve_def conn_events_def)
next
  case (Some x)
  obtain n t where x: "x = (n, t)" by (cases x)
  obtain buf m1 where r: "recv m = (0, buf, n, m1)" "cstr m1 buf t" "fits_at buf t"
    using spec [OF assms(1) [unfolded brings_def], of m] unfolding Some x by (simp only: option.case prod.case) (elim exE conjE, rule that)
  obtain m' where "http_server_netconn_serve fb 0 buf n m1 = Some (served n t, m')" using serve_any [OF r(2,3) assms(2)] by blast
  then show ?thesis using Some x r(1) by (intro exI [of _ m']) (simp add: conn_events_def)
qed

text \<open>
  C40. As long as \<open>netconn_accept\<close> reports no error, the server's thread binds port 80, listens, and serves
  the connections in turn, any number of them, in one memory that the requests and the replies change: each
  connection that brings a request text (a string, ended by a 0 byte) gets exactly the reply to it (nothing if the packet is shorter than
  5 bytes), is closed and its buffer deleted; one whose receive failed gets nothing and is not closed; each
  is deleted before the next is accepted. Afterwards the thread is waiting for the next
  connection: it never returns.
\<close>

theorem server_answers_in_order:
  assumes "list_all2 brings rs os" "file_buffer_at fb"
  shows "\<exists>m'. http_server_netconn_thread fb True (map Accept_ok rs) m
    = Some (Waiting, Bind 80 # Listen # map (\<lambda>o'. Conn (case o' of None \<Rightarrow> [Netconn_delete]
        | Some (n, t) \<Rightarrow> map Netconn_write (if n < 5 then [] else reply t) @ [Netconn_close, Netbuf_delete, Netconn_delete])) os, m')"
proof -
  have e: "conn_events o' = (case o' of None \<Rightarrow> [Netconn_delete]
      | Some (n, t) \<Rightarrow> map Netconn_write (if n < 5 then [] else reply t) @ [Netconn_close, Netbuf_delete, Netconn_delete])" for o'
    by (simp add: conn_events_def served_def split: option.split)
  have "\<exists>m'. accept_loop fb (map Accept_ok rs) m = Some (Waiting, map (\<lambda>o'. Conn (conn_events o')) os, m')"
    using assms(1)
  proof (induction rs os arbitrary: m rule: list_all2_induct)
    case (Cons r rs o' os)
    from accept_one [OF Cons.hyps(1) assms(2), of "map Accept_ok rs" m] obtain m1 where
      "accept_loop fb (Accept_ok r # map Accept_ok rs) m = do {
        (st, es, m) \<leftarrow> accept_loop fb (map Accept_ok rs) m1;
        Some (st, Conn (conn_events o') # es, m) }" by blast
    then show ?case using Cons.IH [of m1] by auto
  qed simp
  then show ?thesis unfolding e by (auto simp: http_server_netconn_thread_def)
qed

text \<open>Two requests that arrive in fresh packets, and a failed receive between them.\<close>

definition arrives :: "u32 \<Rightarrow> u8 list \<Rightarrow> u16 \<Rightarrow> request" where
  "arrives a t n m = (0, a, n, strcpy a t m)"

lemma arrives_brings: "fits_at a t \<Longrightarrow> 0 \<notin> set t \<Longrightarrow> brings (arrives a t n) (Some (n, t))"
  using strcpy_cstr(1) [of a t] by (simp add: brings_def arrives_def)

theorem server_answers_in_order_witness:
  "\<exists>m'. http_server_netconn_thread 0x8000 True
     [Accept_ok (arrives 0x1000 home_request 20), Accept_ok (\<lambda>m. (-13, 0, 0, m)), Accept_ok (arrives 0x1000 login_request 22)] (\<lambda>_. 0)
   = Some (Waiting, [Bind 80, Listen,
      Conn [Netconn_write http_html_hdr, Netconn_write http_index_html, Netconn_close, Netbuf_delete, Netconn_delete],
      Conn [Netconn_delete],
      Conn [Netconn_write not_found_page, Netconn_close, Netbuf_delete, Netconn_delete]], m')"
proof -
  have "brings (arrives 0x1000 home_request 20) (Some (20, home_request))" "brings (arrives 0x1000 login_request 22) (Some (22, login_request))"
    using cstr_no_NUL [OF home_request_at(1)] cstr_no_NUL [OF login_request_at(1)]
    by (auto intro!: arrives_brings simp: fits_at_def home_request_def login_request_def ascii_def)
  moreover have "brings (\<lambda>m. (-13, 0, 0, m)) None" by (simp add: brings_def)
  ultimately have l: "list_all2 brings [arrives 0x1000 home_request 20, \<lambda>m. (-13, 0, 0, m), arrives 0x1000 login_request 22]
    [Some (20, home_request), None, Some (22, login_request)]" by simp
  have "file_buffer_at 0x8000" by (simp add: file_buffer_at_def)
  from server_answers_in_order [OF l this, of "\<lambda>_. 0"] show ?thesis by (simp add: replies_example)
qed

end
