(* ===== verification/Spec2Isabelle.thy ===== *)
theory Spec2Isabelle
  imports Board Timer_Lists Chksum_Chain Pbuf_Read Ip_Addr Http_Server
begin

text \<open>
  A verification library for the firmware of the Sayma module-management controller (an NXP
  LPC1776) of the repository's directory \<^verbatim>\<open>src/SAYMA_firmware/lpc1776_ethernet_I2C\<close>.  All file names
  below are relative to that directory.

  \<^bold>\<open>The program.\<close>  \<^verbatim>\<open>src/main.c\<close> brings up the board: the clocks and pins, the power supplies, the
  I2C controller, over which \<^verbatim>\<open>src/i2c.c\<close> programs the clock generators behind an I2C multiplexer,
  and then two FreeRTOS tasks, one for the Ethernet link and the web server, one that blinks the LEDs
  and watches the rear module.  Below it are NXP's peripheral drivers, the FreeRTOS kernel
  (\<^verbatim>\<open>FreeRTOS/src\<close>: heap, lists, tasks, queues, timers) and the lwIP stack, whose threads talk through FreeRTOS
  queues and whose packets are chains of pbufs.

  \<^bold>\<open>Conventions.\<close>  C structs are records, enums datatypes, machine integers words; pointers are
  32-bit addresses, 0 is \<open>NULL\<close>, and a function that changes memory takes and returns the store it
  changes.  A loop whose end depends on hardware or on data in memory is a \<open>partial_function\<close> into
  \<open>option\<close>: \<open>None\<close> means that it does not return, or that an assertion failed.  The theorems therefore
  say that the result is \<open>Some\<close>, under hypotheses on the hardware or the data; no definition has fuel.
  Hardware and code that is not modelled are arguments.

  The state of the kernel has typed stores: control blocks (without their two list items), list
  items and list headers, the header words of the heap, and the bytes of stacks and queue storage, each
  indexed by address.  Writes through a pointer of one type are not seen through another.  Where
  the code relies on this, a theorem says that the objects are disjoint or that a write stays in its
  block (task creation: the initial frame lies inside of the stack, for stacks of at least 19 words).

  \<^bold>\<open>The theories\<close>, from the bottom up.

  Hardware and drivers:

  \<^item> \<open>Prelude\<close>: machine types, 32-bit arithmetic on naturals, lemmas on lists and words.

  \<^item> \<open>Mmio\<close>: memory-mapped registers.  A \<open>world\<close> holds the registers, the memory and a log of register
    accesses; a \<open>device\<close>, an argument of every access, is the hardware's response.

  \<^item> \<open>Clock_Pins\<close>: \<^verbatim>\<open>system_LPC177x_8x.c\<close>, \<^verbatim>\<open>lpc177x_8x_clkpwr.c\<close> and \<^verbatim>\<open>lpc177x_8x_pinsel.c\<close>.

  \<^item> \<open>I2C_Driver\<close>: \<^verbatim>\<open>lpc177x_8x_i2c.c\<close>, the byte primitives, the polling transfer and the
    interrupt handler.  \<open>I2C_Bus\<close> reads the bus traffic off the log and shows, for every device, what a
    successful transfer put on the wire and how a failed one ended; that a transfer returns is shown
    for controllers that keep raising their interrupt flag (\<open>si_live\<close>), and that it succeeds for slaves that
    acknowledge (\<open>acks\<close>), with concrete devices that do.

  \<^item> \<open>Uart\<close>: \<^verbatim>\<open>lpc177x_8x_uart.c\<close> and \<^verbatim>\<open>src/printf_redirect.c\<close>; the divisor search is optimal.

  The application:

  \<^item> \<open>I2C_App\<close>: \<^verbatim>\<open>src/i2c.c\<close> with its register tables; the ten-attempt write.

  \<^item> \<open>Board\<close>: \<^verbatim>\<open>src/main.c\<close>, bring-up and the two tasks; what the boot sends over I2C, the directions and levels of
    the pins, the safety of the housekeeping loop.

  \<^item> \<open>C_Strings\<close>: the string functions of the C library over the byte memory.  \<open>Http_Files\<close>, \<open>Http_Server\<close>:
    \<^verbatim>\<open>src/lwip_fs.c\<close>, \<^verbatim>\<open>inc/httpd_structs.h\<close> and \<^verbatim>\<open>src/netconn_fs.c\<close>.  The request is parsed in place in
    memory, headers are built in the buffer they are sent from; the result is refined to a function
    \<open>reply\<close> from the request text to what is written.  The netconn calls are logged, what they return is
    an argument; the thread is shown to serve any number of connections and to wait for the next.

  The FreeRTOS kernel:

  \<^item> \<open>Heap4\<close>: \<^verbatim>\<open>heap_4.c\<close> over the words of the heap, refined to an abstract free list: first fit,
    coalescing, no overlap of live blocks, no leaks.

  \<^item> \<open>Lists\<close>: \<^verbatim>\<open>list.c\<close> over a store of list items, against HOL lists.

  \<^item> \<open>Tasks\<close>: \<^verbatim>\<open>tasks.c\<close> and the tick and context-switch entry points of \<^verbatim>\<open>port.c\<close>.
    \<open>Sched_Inv\<close> holds the invariant of the kernel's lists (each list represents a HOL list of items,
    all disjoint, delayed lists sorted by wake time, ready lists by priority); \<open>Sched_Ticks\<close>,
    \<open>Sched_Moves\<close> and \<open>Sched_Create\<close> the lemmas that each operation keeps it; \<open>Scheduler\<close> the
    properties: exact wake-up times across the wrap of the tick counter, selection of the highest
    priority, replay of missed ticks, timeouts, priority inheritance, task creation.

  \<^item> \<open>Queue\<close>: \<^verbatim>\<open>queue.c\<close>.  \<open>Queue_Ring\<close> shows that the ring buffer of a queue is a bounded
    double-ended queue (locale \<open>bounded_fifo\<close>, interpreted on the C operations); \<open>Queue_Sched\<close> the
    behaviour of the API with the scheduler: waking, blocking, priority inheritance of mutexes,
    recursive mutexes, the lock counters, creation.

  \<^item> \<open>Timers\<close>: \<^verbatim>\<open>timers.c\<close>; callbacks are an argument.  \<open>Timer_Lists\<close> holds the invariant of the two timer
    lists and shows that a timer expires exactly one period after its command, across the wrap of the
    tick counter, and that the switch of the lists at the wrap runs every timer that was due.

  lwIP:

  \<^item> \<open>Pbuf\<close>: \<^verbatim>\<open>lwIP/core/pbuf.c\<close> and the pools of \<^verbatim>\<open>lwIP/core/memp.c\<close>.  \<open>Pbuf_Chain\<close> defines chains and the
    bytes of a packet, \<open>Pbuf_Packets\<close> the invariant of all live packets and pools and that the operations
    keep it, \<open>Pbuf_Types\<close> allocation and truncation and the collected property, \<open>Pbuf_Read\<close> what
    copying, comparing and searching read.

  \<^item> \<open>Inet_Chksum\<close>: \<^verbatim>\<open>lwIP/core/ipv4/inet_chksum.c\<close> and \<^verbatim>\<open>lwIP/core/def.c\<close>.  \<open>Chksum_Words\<close> is the arithmetic of the
    Internet checksum on byte lists, \<open>Chksum_Versions\<close> shows that the three C versions compute it,
    \<open>Chksum_Chain\<close> the same for chains, and what a receiver accepts and rejects.

  \<^item> \<open>Ip_Addr\<close>: \<^verbatim>\<open>lwIP/core/ipv4/ip_addr.c\<close>; printing and parsing are inverse.

  \<^bold>\<open>Not modelled.\<close>  The protocols of lwIP (TCP, UDP, IP, ARP, DHCP, the netconn and socket layers) are
  vendored code that the application reaches only through the calls logged in \<open>Http_Server\<close>; lwIP's heap
  \<^verbatim>\<open>mem.c\<close> is an argument of the pbuf operations.  The Ethernet driver, the drivers of peripherals that the
  firmware does not use, the slave and monitor modes of the I2C driver, the start-up code and the
  assembler part of the port act on hardware state outside of the model of \<open>Mmio\<close>.  Co-routines,
  queue sets and tracing of FreeRTOS are compiled out.
\<close>

end
